(* ===== verification/Prelude.thy ===== *)
theory Prelude
  imports Main "HOL-Library.Word"
begin

text \<open>
  Shared vocabulary of the development: machine integers, the values a Go call can end with
  (a result, an error value, a run-time panic), programs that thread a state and keep it when
  they fail, the loops of the source as combinators, and a small Hoare calculus over these
  programs that the invariants and the absence of panics are proved with.
\<close>

section \<open>Machine integers\<close>

type_synonym u8 = "8 word"
type_synonym u16 = "16 word"
type_synonym u32 = "32 word"
type_synonym i32 = "32 word"

lemma unat_u16_less: "unat (w :: u16) < 65536"
  using unsigned_less [of w, where 'a = nat] by simp

named_theorems wire_simps \<open>evaluation of readers on concrete input\<close>
named_theorems hoare_rules \<open>rules of the program calculus, one per program constructor\<close>
named_theorems step_inv \<open>every operation keeps the invariant of its component\<close>

section \<open>Go errors and panics\<close>

text \<open>
  \<open>Errorf\<close> is an error made from a format string (the arguments printed into it are left out);
  \<open>Annotated\<close> is \<open>errors.Annotate\<close> or \<open>errors.Trace\<close> around a cause. \<open>NetError\<close> stands for what the
  transport reports besides the end of the stream. \<open>Exited\<close> is not a Go value: it ends a program that called
  \<open>os.Exit\<close>, with the code of the process.
\<close>

datatype goerr =
    EOF
  | UnexpectedEOF
  | NetError nat
  | Errorf string
  | NotImplemented string
  | Annotated string goerr
  | CorruptInput int
  | InternalError string
  | ReadError int goerr
  | ErrHeader
  | ErrDictionary
  | ErrChecksum
  | Exited nat

datatype gopanic =
    IndexOutOfRange
  | SliceOutOfRange
  | MakeSliceLen
  | NilDereference
  | PanicMessage string

text \<open>\<open>Diverge\<close> is a call that never returns.\<close>

datatype 'a outcome =
    Ok 'a
  | Err goerr
  | Panic gopanic
  | Diverge

fun bindO :: "'a outcome \<Rightarrow> ('a \<Rightarrow> 'b outcome) \<Rightarrow> 'b outcome" where
  "bindO (Ok a) f = f a"
| "bindO (Err e) f = Err e"
| "bindO (Panic p) f = Panic p"
| "bindO Diverge f = Diverge"

text \<open>Go's indexing and slicing of a slice: out of range is a panic.\<close>

definition index_go :: "'a list \<Rightarrow> nat \<Rightarrow> 'a outcome" where
  "index_go xs i = (if i < length xs then Ok (xs ! i) else Panic IndexOutOfRange)"

lemma index_go_Ok [simp]: "i < length xs \<Longrightarrow> index_go xs i = Ok (xs ! i)"
  by (simp add: index_go_def)

lemma index_go_Panic [simp]: "length xs \<le> i \<Longrightarrow> index_go xs i = Panic IndexOutOfRange"
  by (simp add: index_go_def)

text \<open>
  \<open>copy(xs[i:i+n], src)\<close>: the slice expression checks its bounds, the copy stops at the shorter
  side.
\<close>

definition copy_go :: "'a list \<Rightarrow> nat \<Rightarrow> nat \<Rightarrow> 'a list \<Rightarrow> 'a list outcome" where
  "copy_go xs i n src =
     (if length xs < i + n then Panic SliceOutOfRange
      else let k = min n (length src) in Ok (take i xs @ take k src @ drop (i + k) xs))"

lemma copy_go_Ok:
  "i + n \<le> length xs \<Longrightarrow> n \<le> length src \<Longrightarrow>
    copy_go xs i n src = Ok (take i xs @ take n src @ drop (i + n) xs)"
  by (simp add: copy_go_def min_def)

section \<open>Programs over a state\<close>

text \<open>
  A program takes the state and gives an outcome and the state it leaves behind; an error or a
  panic stops the program but keeps what it has already written.
\<close>

type_synonym ('s, 'a) prog = "'s \<Rightarrow> 'a outcome \<times> 's"

definition ret :: "'a \<Rightarrow> ('s, 'a) prog" where
  "ret a s = (Ok a, s)"

definition fail :: "goerr \<Rightarrow> ('s, 'a) prog" where
  "fail e s = (Err e, s)"

definition panic :: "gopanic \<Rightarrow> ('s, 'a) prog" where
  "panic p s = (Panic p, s)"

definition lift :: "'a outcome \<Rightarrow> ('s, 'a) prog" where
  "lift r s = (r, s)"

definition bindM :: "('s, 'a) prog \<Rightarrow> ('a \<Rightarrow> ('s, 'b) prog) \<Rightarrow> ('s, 'b) prog" where
  "bindM m f s =
     (case m s of
        (Ok a, s') \<Rightarrow> f a s'
      | (Err e, s') \<Rightarrow> (Err e, s')
      | (Panic p, s') \<Rightarrow> (Panic p, s')
      | (Diverge, s') \<Rightarrow> (Diverge, s'))"

definition getS :: "('s, 's) prog" where
  "getS s = (Ok s, s)"

definition modifyS :: "('s \<Rightarrow> 's) \<Rightarrow> ('s, unit) prog" where
  "modifyS f s = (Ok (), f s)"

text \<open>\<open>errors.Annotate\<close>: a failing call's error is wrapped in a message.\<close>

definition annotate :: "string \<Rightarrow> ('s, 'a) prog \<Rightarrow> ('s, 'a) prog" where
  "annotate msg m s =
     (case m s of (Err e, s') \<Rightarrow> (Err (Annotated msg e), s') | r \<Rightarrow> r)"

text \<open>A call whose error is not looked at.\<close>

definition drop_error :: "('s, unit) prog \<Rightarrow> ('s, unit) prog" where
  "drop_error m s = (case m s of (Err e, s') \<Rightarrow> (Ok (), s') | r \<Rightarrow> r)"

lemma drop_error_Ok: "m s = (Ok (), s') \<Longrightarrow> drop_error m s = (Ok (), s')"
  by (simp add: drop_error_def)

text \<open>A program over a part of the state, read by \<open>g\<close> and written back by \<open>u\<close>.\<close>

definition zoom :: "('s \<Rightarrow> 't) \<Rightarrow> ('t \<Rightarrow> 's \<Rightarrow> 's) \<Rightarrow> ('t, 'a) prog \<Rightarrow> ('s, 'a) prog" where
  "zoom g u m s = (case m (g s) of (r, t) \<Rightarrow> (r, u t s))"

lemmas prog_defs = ret_def fail_def panic_def lift_def bindM_def getS_def modifyS_def

lemma bindM_assoc: "bindM (bindM m f) g = bindM m (\<lambda>a. bindM (f a) g)"
  by (rule ext) (simp add: bindM_def split: prod.split outcome.split)

lemma bindM_ret [simp]: "bindM (ret a) f = f a"
  by (rule ext) (simp add: bindM_def ret_def)

lemma bindM_ret_right [simp]: "bindM m ret = m"
  by (rule ext) (simp add: bindM_def ret_def split: prod.split outcome.split)

lemma bindM_fail [simp]: "bindM (fail e) f = fail e"
  by (rule ext) (simp add: bindM_def fail_def)

lemma bindM_panic [simp]: "bindM (panic p) f = panic p"
  by (rule ext) (simp add: bindM_def panic_def)

lemma bindM_cong [fundef_cong]:
  "m s = m' s' \<Longrightarrow> (\<And>a t. m' s' = (Ok a, t) \<Longrightarrow> f a t = g a t) \<Longrightarrow> bindM m f s = bindM m' g s'"
  by (auto simp: bindM_def split: prod.split outcome.split)

lemma lift_simps [simp]:
  "lift (Ok a) = ret a" "lift (Err e) = fail e" "lift (Panic p) = panic p"
  by (rule ext, simp add: lift_def ret_def fail_def panic_def)+

text \<open>Running a bind whose first part's result is known.\<close>

lemma bindM_Ok [wire_simps]: "m s = (Ok a, s') \<Longrightarrow> bindM m f s = f a s'"
  by (simp add: bindM_def)

lemma bindM_Err [wire_simps]: "m s = (Err e, s') \<Longrightarrow> bindM m f s = (Err e, s')"
  by (simp add: bindM_def)

lemma bindM_Panic [wire_simps]: "m s = (Panic p, s') \<Longrightarrow> bindM m f s = (Panic p, s')"
  by (simp add: bindM_def)

lemma bindM_OkE:
  assumes "bindM m f s = (Ok b, s'')"
  obtains a s' where "m s = (Ok a, s')" and "f a s' = (Ok b, s'')"
  using assms by (auto simp: bindM_def split: prod.splits outcome.splits)

lemma run_simps [simp]:
  "ret a s = (Ok a, s)" "fail e s = (Err e, s)" "panic p s = (Panic p, s)"
  "getS s = (Ok s, s)" "modifyS f s = (Ok (), f s)"
  by (simp_all add: prog_defs)

text \<open>The simplifier contracts the run of a result to a pair; a bind on it goes on.\<close>

lemma bindM_Pair [simp]:
  "bindM (Pair (Ok a)) f = f a"
  "bindM (Pair (Err e)) f = Pair (Err e)"
  "bindM (Pair (Panic p)) f = Pair (Panic p)"
  "bindM (Pair Diverge) f = Pair Diverge"
  by (rule ext, simp add: bindM_def)+

section \<open>Loops\<close>

text \<open>\<open>for _, x := range xs { body }\<close>, stopping at the first failure.\<close>

fun forM :: "'a list \<Rightarrow> ('a \<Rightarrow> ('s, unit) prog) \<Rightarrow> ('s, unit) prog" where
  "forM [] f = ret ()"
| "forM (x # xs) f = bindM (f x) (\<lambda>_. forM xs f)"

text \<open>The same, collecting the values the body computes (a slice filled by index).\<close>

fun mapM :: "('a \<Rightarrow> ('s, 'b) prog) \<Rightarrow> 'a list \<Rightarrow> ('s, 'b list) prog" where
  "mapM f [] = ret []"
| "mapM f (x # xs) = bindM (f x) (\<lambda>y. bindM (mapM f xs) (\<lambda>ys. ret (y # ys)))"

lemma forM_append: "forM (xs @ ys) f = bindM (forM xs f) (\<lambda>_. forM ys f)"
  by (induction xs) (simp_all add: bindM_assoc)

lemma mapM_length: "mapM f xs s = (Ok ys, s') \<Longrightarrow> length ys = length xs"
  by (induction xs arbitrary: ys s) (auto elim!: bindM_OkE)

text \<open>A loop without effects is a map that stops at the first failure.\<close>

fun mapO :: "('a \<Rightarrow> 'b outcome) \<Rightarrow> 'a list \<Rightarrow> 'b list outcome" where
  "mapO f [] = Ok []"
| "mapO f (x # xs) = bindO (f x) (\<lambda>y. bindO (mapO f xs) (\<lambda>ys. Ok (y # ys)))"

text \<open>A loop that threads a value, stopping at the first failure.\<close>

fun foldO :: "('a \<Rightarrow> 'b \<Rightarrow> 'b outcome) \<Rightarrow> 'a list \<Rightarrow> 'b \<Rightarrow> 'b outcome" where
  "foldO f [] b = Ok b"
| "foldO f (x # xs) b = bindO (f x b) (foldO f xs)"

lemma mapO_Ok: "(\<And>x. x \<in> set xs \<Longrightarrow> f x = Ok (g x)) \<Longrightarrow> mapO f xs = Ok (map g xs)"
  by (induction xs) auto

lemma bindO_OkE:
  assumes "bindO m f = Ok b"
  obtains a where "m = Ok a" and "f a = Ok b"
  using assms by (cases m) auto

lemma mapO_length: "mapO f xs = Ok ys \<Longrightarrow> length ys = length xs"
  by (induction xs arbitrary: ys) (auto elim!: bindO_OkE)

section \<open>Hoare triples\<close>

text \<open>
  From a state with \<open>P\<close> the program returns and does not panic; a result \<open>a\<close> leaves \<open>Q a\<close>, an
  error leaves \<open>E\<close>.
\<close>

fun post :: "('a \<Rightarrow> 's \<Rightarrow> bool) \<Rightarrow> ('s \<Rightarrow> bool) \<Rightarrow> 'a outcome \<times> 's \<Rightarrow> bool" where
  "post Q E (Ok a, s) = Q a s"
| "post Q E (Err e, s) = E s"
| "post Q E (Panic p, s) = False"
| "post Q E (Diverge, s) = False"

definition hoare ::
  "('s \<Rightarrow> bool) \<Rightarrow> ('s, 'a) prog \<Rightarrow> ('a \<Rightarrow> 's \<Rightarrow> bool) \<Rightarrow> ('s \<Rightarrow> bool) \<Rightarrow> bool" where
  "hoare P m Q E \<longleftrightarrow> (\<forall>s. P s \<longrightarrow> post Q E (m s))"

lemma hoareI: "(\<And>s. P s \<Longrightarrow> post Q E (m s)) \<Longrightarrow> hoare P m Q E"
  by (simp add: hoare_def)

lemma post_case:
  "post Q E x = (case fst x of Ok a \<Rightarrow> Q a (snd x) | Err e \<Rightarrow> E (snd x) | _ \<Rightarrow> False)"
  by (cases x; cases "fst x") auto

lemma post_mono:
  "post Q' E' x \<Longrightarrow> (\<And>a s. Q' a s \<Longrightarrow> Q a s) \<Longrightarrow> (\<And>s. E' s \<Longrightarrow> E s) \<Longrightarrow> post Q E x"
  by (simp add: post_case split: outcome.splits)

lemma hoare_OkD: "hoare P m Q E \<Longrightarrow> P s \<Longrightarrow> m s = (Ok a, s') \<Longrightarrow> Q a s'"
  unfolding hoare_def by fastforce

lemma hoare_ErrD: "hoare P m Q E \<Longrightarrow> P s \<Longrightarrow> m s = (Err e, s') \<Longrightarrow> E s'"
  unfolding hoare_def by fastforce

lemma hoare_no_panic: "hoare P m Q E \<Longrightarrow> P s \<Longrightarrow> m s \<noteq> (Panic p, s')"
  unfolding hoare_def by fastforce

lemma hoare_returns: "hoare P m Q E \<Longrightarrow> P s \<Longrightarrow> m s \<noteq> (Diverge, s')"
  unfolding hoare_def by fastforce

lemma hoare_conseq:
  assumes "hoare P' m Q' E'" and "\<And>s. P s \<Longrightarrow> P' s"
    and "\<And>a s. Q' a s \<Longrightarrow> Q a s" and "\<And>s. E' s \<Longrightarrow> E s"
  shows "hoare P m Q E"
  using assms unfolding hoare_def by (blast intro: post_mono)

lemma hoare_pre: "hoare P' m Q E \<Longrightarrow> (\<And>s. P s \<Longrightarrow> P' s) \<Longrightarrow> hoare P m Q E"
  by (rule hoare_conseq)

lemma hoare_ret [hoare_rules]: "hoare (Q a) (ret a) Q E"
  by (simp add: hoare_def)

lemma hoare_fail [hoare_rules]: "hoare E (fail e) Q E"
  by (simp add: hoare_def)

lemma hoare_getS [hoare_rules]: "hoare (\<lambda>s. Q s s) getS Q E"
  by (simp add: hoare_def)

lemma hoare_modifyS [hoare_rules]: "hoare (\<lambda>s. Q () (f s)) (modifyS f) Q E"
  by (simp add: hoare_def)

lemma hoare_bindM:
  assumes "hoare P m R E" and "\<And>a. hoare (R a) (f a) Q E"
  shows "hoare P (bindM m f) Q E"
proof (rule hoareI)
  fix s assume "P s"
  with assms(1) have r: "post R E (m s)" by (simp add: hoare_def)
  obtain r' s' where "m s = (r', s')" by (cases "m s")
  with r assms(2) show "post Q E (bindM m f s)"
    by (cases r') (simp_all add: bindM_def hoare_def)
qed

lemma hoare_if [hoare_rules]:
  assumes "c \<Longrightarrow> hoare P m Q E" and "\<not> c \<Longrightarrow> hoare P n Q E"
  shows "hoare P (if c then m else n) Q E"
  using assms by simp

lemma hoare_annotate [hoare_rules]: "hoare P m Q E \<Longrightarrow> hoare P (annotate msg m) Q E"
  by (auto simp: hoare_def annotate_def post_case split: prod.splits outcome.splits)

lemma hoare_forM:
  assumes "\<And>x. x \<in> set xs \<Longrightarrow> hoare I (f x) (\<lambda>_. I) E"
  shows "hoare I (forM xs f) (\<lambda>_. I) E"
  using assms
proof (induction xs)
  case Nil
  show ?case by (simp add: hoare_def)
next
  case (Cons x xs)
  from Cons.prems have "hoare I (f x) (\<lambda>_. I) E" by simp
  moreover from Cons have "hoare I (forM xs f) (\<lambda>_. I) E" by simp
  ultimately show ?case by (auto intro: hoare_bindM)
qed

section \<open>What a program leaves alone\<close>

text \<open>
  A frame condition relates the state before a call to the state after it, however the call ends.
  Frame conditions compose, so it is enough to look at the single steps of a program.
\<close>

definition keeps :: "('s \<Rightarrow> 's \<Rightarrow> bool) \<Rightarrow> ('s, 'a) prog \<Rightarrow> bool" where
  "keeps R m \<longleftrightarrow> (\<forall>s. R s (snd (m s)))"

lemma keepsD: "keeps R m \<Longrightarrow> m s = (r, s') \<Longrightarrow> R s s'"
  by (auto simp: keeps_def dest: spec [of _ s])

lemma keeps_if [intro]: "keeps R m \<Longrightarrow> keeps R n \<Longrightarrow> keeps R (if c then m else n)"
  by simp

lemma keeps_case_option: "keeps R m \<Longrightarrow> (\<And>x. keeps R (f x)) \<Longrightarrow> keeps R (case r of None \<Rightarrow> m | Some x \<Rightarrow> f x)"
  by (cases r) simp_all

lemma keeps_annotate [intro]: "keeps R m \<Longrightarrow> keeps R (annotate msg m)"
  unfolding keeps_def annotate_def
  by (auto split: prod.splits outcome.splits) (metis snd_conv)+

lemma keeps_drop_error [intro]: "keeps R m \<Longrightarrow> keeps R (drop_error m)"
  unfolding keeps_def drop_error_def
  by (auto split: prod.splits outcome.splits) (metis snd_conv)+

lemma keeps_modifyS: "(\<And>s. R s (f s)) \<Longrightarrow> keeps R (modifyS f)"
  by (simp add: keeps_def)

locale frame =
  fixes R :: "'s \<Rightarrow> 's \<Rightarrow> bool"
  assumes refl: "R s s"
    and trans: "R s t \<Longrightarrow> R t u \<Longrightarrow> R s u"
begin

lemma keeps_ret: "keeps R (ret a)"
  by (simp add: keeps_def refl)

lemma keeps_fail: "keeps R (fail e)"
  by (simp add: keeps_def refl)

lemma keeps_panic: "keeps R (panic p)"
  by (simp add: keeps_def refl)

lemma keeps_lift: "keeps R (lift r)"
  by (simp add: keeps_def refl lift_def)

lemma keeps_getS: "keeps R getS"
  by (simp add: keeps_def refl)

lemma keeps_bindM:
  assumes "keeps R m" and "\<And>a. keeps R (f a)"
  shows "keeps R (bindM m f)"
  unfolding keeps_def
proof
  fix s
  obtain r s' where m: "m s = (r, s')" by (cases "m s")
  have "R s s'" using keepsD [OF assms(1) m] .
  moreover have "R s' (snd (f a s'))" for a using assms(2) by (simp add: keeps_def)
  ultimately show "R s (snd (bindM m f s))"
    by (cases r) (auto simp: bindM_def m intro: trans)
qed

lemma keeps_forM: "(\<And>x. keeps R (f x)) \<Longrightarrow> keeps R (forM xs f)"
  by (induction xs) (auto intro: keeps_ret keeps_bindM)

lemma keeps_mapM: "(\<And>x. keeps R (f x)) \<Longrightarrow> keeps R (mapM f xs)"
  by (induction xs) (auto intro!: keeps_ret keeps_bindM)

lemmas keeps_prog = keeps_ret keeps_fail keeps_panic keeps_lift keeps_getS keeps_bindM keeps_if
  keeps_annotate keeps_modifyS

end

section \<open>Programs that return, and what they give\<close>

text \<open>
  \<open>gives Q m\<close>: from every state \<open>m\<close> comes back, perhaps with an error or a panic, and a result it
  gives has \<open>Q\<close>. The rules follow the program text; \<open>Q\<close> of an intermediate result is chosen by the
  rule for the call that computes it.
\<close>

definition yields :: "('a \<Rightarrow> bool) \<Rightarrow> 'a outcome \<Rightarrow> bool" where
  "yields Q r = (case r of Ok a \<Rightarrow> Q a | Diverge \<Rightarrow> False | _ \<Rightarrow> True)"

definition gives :: "('a \<Rightarrow> bool) \<Rightarrow> ('s, 'a) prog \<Rightarrow> bool" where
  "gives Q m \<longleftrightarrow> (\<forall>s. yields Q (fst (m s)))"

abbreviation returns :: "('s, 'a) prog \<Rightarrow> bool" where
  "returns \<equiv> gives (\<lambda>_. True)"

lemma yields_simps [simp]:
  "yields Q (Ok a) \<longleftrightarrow> Q a" "yields Q (Err e)" "yields Q (Panic p)" "\<not> yields Q Diverge"
  by (simp_all add: yields_def)

lemma yields_True: "yields (\<lambda>_. True) r \<longleftrightarrow> r \<noteq> Diverge"
  by (cases r) simp_all

lemma yields_mono: "yields Q r \<Longrightarrow> (\<And>a. Q a \<Longrightarrow> Q' a) \<Longrightarrow> yields Q' r"
  by (cases r) simp_all

lemma yields_bindO: "yields Q' m \<Longrightarrow> (\<And>a. Q' a \<Longrightarrow> yields Q (f a)) \<Longrightarrow> yields Q (bindO m f)"
  by (cases m) simp_all

lemma yields_index_go [simp]: "yields (\<lambda>_. True) (index_go xs i)"
  by (simp add: index_go_def)

lemma yields_copy_go: "yields (\<lambda>ys. length ys = length xs) (copy_go xs i n src)"
  by (auto simp: copy_go_def Let_def min_def)

lemma yields_mapO:
  "(\<And>x. yields (\<lambda>_. True) (f x)) \<Longrightarrow> yields (\<lambda>ys. length ys = length xs) (mapO f xs)"
  by (induction xs) (auto intro!: yields_bindO)

lemma givesD: "gives Q m \<Longrightarrow> m s = (r, s') \<Longrightarrow> yields Q r"
  by (auto simp: gives_def dest: spec [of _ s])

lemma gives_OkD: "gives Q m \<Longrightarrow> m s = (Ok a, s') \<Longrightarrow> Q a"
  by (auto dest: givesD)

lemma returnsD: "returns m \<Longrightarrow> m s \<noteq> (Diverge, s')"
  by (auto dest: givesD)

lemma gives_mono: "gives Q m \<Longrightarrow> (\<And>a. Q a \<Longrightarrow> Q' a) \<Longrightarrow> gives Q' m"
  by (auto simp: gives_def intro: yields_mono)

lemma gives_returns: "gives Q m \<Longrightarrow> returns m"
  by (erule gives_mono) simp

lemma gives_ret: "Q a \<Longrightarrow> gives Q (ret a)"
  by (simp add: gives_def)

lemma gives_fail: "gives Q (fail e)" and gives_panic: "gives Q (panic p)"
  by (simp_all add: gives_def)

lemma gives_lift [simp]: "gives Q (lift r) \<longleftrightarrow> yields Q r"
  by (simp add: gives_def lift_def)

lemma returns_state: "returns getS" "returns (modifyS f)"
  by (simp_all add: gives_def)

lemma gives_if: "(c \<Longrightarrow> gives Q m) \<Longrightarrow> (\<not> c \<Longrightarrow> gives Q n) \<Longrightarrow> gives Q (if c then m else n)"
  by simp

lemma gives_annotate: "gives Q m \<Longrightarrow> gives Q (annotate msg m)"
  unfolding gives_def annotate_def
  by (auto split: prod.split outcome.split) (metis fst_conv yields_simps)+

lemma gives_bindM:
  assumes "gives Q' m" and "\<And>a. Q' a \<Longrightarrow> gives Q (f a)"
  shows "gives Q (bindM m f)"
  unfolding gives_def
proof
  fix s
  obtain r s' where m: "m s = (r, s')" by (cases "m s")
  with assms(1) have "yields Q' r" by (rule givesD)
  with assms(2) show "yields Q (fst (bindM m f s))"
    by (cases r) (auto simp: bindM_def m gives_def)
qed

text \<open>The same at one state, for programs defined by recursion over their state.\<close>

lemma yields_bindM:
  assumes "gives Q' m" and "\<And>a s'. m s = (Ok a, s') \<Longrightarrow> Q' a \<Longrightarrow> yields Q (fst (f a s'))"
  shows "yields Q (fst (bindM m f s))"
proof -
  obtain r s' where m: "m s = (r, s')" by (cases "m s")
  with assms(1) have "yields Q' r" by (rule givesD)
  with assms(2) m show ?thesis by (cases r) (auto simp: bindM_def)
qed

lemma gives_mapM:
  "(\<And>x. gives Q (f x)) \<Longrightarrow> gives (\<lambda>ys. length ys = length xs \<and> list_all Q ys) (mapM f xs)"
proof (induction xs)
  case (Cons x xs)
  from Cons.prems have "gives Q (f x)" .
  then show ?case
    unfolding mapM.simps
    by (rule gives_bindM) (rule gives_bindM [OF Cons.IH [OF Cons.prems]], auto intro: gives_ret)
qed (simp add: gives_ret)

lemmas gives_leaf = gives_ret gives_fail gives_panic returns_state gives_annotate

end
