(* ===== verification/Wire.thy ===== *)
theory Wire
  imports Prelude
begin

unbundle bit_operations_syntax

text \<open>
  The byte streams the driver reads and writes: an \<open>io.Reader\<close> as the bytes still to come and what
  it reports after them, a network connection as such a reader with what has been sent, the
  standard library calls the source makes on them (\<open>io.ReadFull\<close>, \<open>binary.Read\<close>, \<open>binary.Write\<close>,
  \<open>Conn.Write\<close>), and the contract of a wire format as a locale: what is written is read back, and
  nothing after it is touched.
\<close>

section \<open>Readers and connections\<close>

record reader =
  rbytes :: "u8 list"  \<comment> \<open>bytes the peer sends from here on\<close>
  rend :: goerr        \<comment> \<open>what Read returns after the last of them\<close>

text \<open>
  The entries of \<open>wres\<close> are the results of the coming calls of \<open>Write\<close>: success, or an error
  after some bytes have left. When the list is used up every call succeeds.
\<close>

record conn = reader +
  sent :: "u8 list"
  wres :: "(goerr \<times> nat) option list"

text \<open>
  \<open>io.ReadFull\<close> into a buffer of \<open>n\<close> bytes: the error of an empty stream is passed on, a stream
  that ends inside the buffer is \<open>io.ErrUnexpectedEOF\<close>.
\<close>

definition short_err :: "'z reader_scheme \<Rightarrow> goerr" where
  "short_err s = (if rend s = EOF \<and> rbytes s \<noteq> [] then UnexpectedEOF else rend s)"

definition read_full :: "nat \<Rightarrow> ('z reader_scheme, u8 list) prog" where
  "read_full n s =
     (if n \<le> length (rbytes s)
      then (Ok (take n (rbytes s)), s\<lparr>rbytes := drop n (rbytes s)\<rparr>)
      else (Err (short_err s), s\<lparr>rbytes := []\<rparr>))"

text \<open>\<open>ioutil.ReadAll\<close>, or \<open>ReadFrom\<close> on a limited reader: at most \<open>n\<close> bytes, the end is no error.\<close>

definition read_upto :: "nat \<Rightarrow> ('z reader_scheme, u8 list) prog" where
  "read_upto n s =
     (if n \<le> length (rbytes s)
      then (Ok (take n (rbytes s)), s\<lparr>rbytes := drop n (rbytes s)\<rparr>)
      else if rend s = EOF then (Ok (rbytes s), s\<lparr>rbytes := []\<rparr>)
      else (Err (rend s), s\<lparr>rbytes := []\<rparr>))"

text \<open>\<open>ReadByte\<close> through a one-byte \<open>Read\<close>.\<close>

definition read_byte :: "('z reader_scheme, u8) prog" where
  "read_byte s =
     (case rbytes s of [] \<Rightarrow> (Err (rend s), s) | b # bs \<Rightarrow> (Ok b, s\<lparr>rbytes := bs\<rparr>))"

definition write_conn :: "u8 list \<Rightarrow> ('z conn_scheme, unit) prog" where
  "write_conn bs s =
     (case wres s of
        [] \<Rightarrow> (Ok (), s\<lparr>sent := sent s @ bs\<rparr>)
      | None # rs \<Rightarrow> (Ok (), s\<lparr>sent := sent s @ bs, wres := rs\<rparr>)
      | Some (e, n) # rs \<Rightarrow> (Err e, s\<lparr>sent := sent s @ take n bs, wres := rs\<rparr>))"

section \<open>Fixed width integers on the wire\<close>

definition be16 :: "u16 \<Rightarrow> u8 list" where
  "be16 w = [ucast (drop_bit 8 w), ucast w]"

definition be32 :: "u32 \<Rightarrow> u8 list" where
  "be32 w = [ucast (drop_bit 24 w), ucast (drop_bit 16 w), ucast (drop_bit 8 w), ucast w]"

definition get_be16 :: "u8 list \<Rightarrow> u16" where
  "get_be16 b = ucast (b ! 1) OR push_bit 8 (ucast (b ! 0))"

definition get_le16 :: "u8 list \<Rightarrow> u16" where
  "get_le16 b = ucast (b ! 0) OR push_bit 8 (ucast (b ! 1))"

definition get_be32 :: "u8 list \<Rightarrow> u32" where
  "get_be32 b = ucast (b ! 3) OR push_bit 8 (ucast (b ! 2)) OR push_bit 16 (ucast (b ! 1))
                OR push_bit 24 (ucast (b ! 0))"

definition get_le32 :: "u8 list \<Rightarrow> u32" where
  "get_le32 b = ucast (b ! 0) OR push_bit 8 (ucast (b ! 1)) OR push_bit 16 (ucast (b ! 2))
                OR push_bit 24 (ucast (b ! 3))"

definition read_u8 :: "('z reader_scheme, u8) prog" where
  "read_u8 = bindM (read_full 1) (\<lambda>b. ret (b ! 0))"

definition read_u16 :: "('z reader_scheme, u16) prog" where
  "read_u16 = bindM (read_full 2) (\<lambda>b. ret (get_be16 b))"

definition read_u32 :: "('z reader_scheme, u32) prog" where
  "read_u32 = bindM (read_full 4) (\<lambda>b. ret (get_be32 b))"

lemma bit_u8_ge: "8 \<le> n \<Longrightarrow> \<not> bit (w :: u8) n"
  by (auto dest: bit_imp_le_length)

lemma length_be [simp]: "length (be16 w) = 2" "length (be32 v) = 4"
  by (simp_all add: be16_def be32_def)

lemma get_be16_be16 [simp]: "get_be16 (be16 w @ r) = w"
  by (rule bit_word_eqI)
    (auto simp: get_be16_def be16_def bit_simps not_less less_diff_conv2)

lemma get_be32_be32 [simp]: "get_be32 (be32 w @ r) = w"
proof (rule bit_word_eqI)
  fix n assume "n < LENGTH(32)"
  then have "n < 8 \<or> (8 \<le> n \<and> n < 16) \<or> (16 \<le> n \<and> n < 24) \<or> (24 \<le> n \<and> n < 32)"
    by auto
  then show "bit (get_be32 (be32 w @ r)) n = bit w n"
    by (elim disjE) (simp_all add: get_be32_def be32_def bit_simps nth_Cons' bit_u8_ge less_diff_conv2)
qed

lemma be16_get_be16 [simp]: "be16 (get_be16 [a, b]) = [a, b]"
  by (auto simp: get_be16_def be16_def bit_simps bit_u8_ge intro!: bit_word_eqI)

lemma be32_get_be32 [simp]: "be32 (get_be32 [a, b, c, d]) = [a, b, c, d]"
  by (auto simp: get_be32_def be32_def bit_simps nth_Cons' bit_u8_ge intro!: bit_word_eqI)

section \<open>Reading: what each call takes\<close>

lemma read_full_append [wire_simps]:
  "rbytes s = bs @ rest \<Longrightarrow> length bs = n \<Longrightarrow> read_full n s = (Ok bs, s\<lparr>rbytes := rest\<rparr>)"
  by (simp add: read_full_def)

lemma read_full_OkD:
  "read_full n s = (Ok bs, s') \<Longrightarrow>
    rbytes s = bs @ rbytes s' \<and> length bs = n \<and> s' = s\<lparr>rbytes := rbytes s'\<rparr>"
  by (auto simp: read_full_def split: if_splits)

lemma read_full_short:
  "length (rbytes s) < n \<Longrightarrow> read_full n s = (Err (short_err s), s\<lparr>rbytes := []\<rparr>)"
  by (simp add: read_full_def)

lemma read_full_no_panic: "read_full n s \<noteq> (Panic p, s')"
  by (simp add: read_full_def)

lemma read_full_0: "read_full 0 s = (Ok [], s)"
  by (simp add: read_full_def)

section \<open>Wire formats\<close>

text \<open>
  A format is a way to write values and a program that reads one back from the front of the
  stream, leaving what follows. Formats of fixed width also say how a truncated value fails and
  that the reader accepts nothing but written values.
\<close>

locale codec =
  fixes enc :: "'a \<Rightarrow> u8 list"
    and dec :: "('z reader_scheme, 'a) prog"
    and ok :: "'a \<Rightarrow> bool"
  assumes dec_enc: "ok x \<Longrightarrow> rbytes s = enc x @ rest \<Longrightarrow> dec s = (Ok x, s\<lparr>rbytes := rest\<rparr>)"
begin

lemma enc_prefix_free:
  fixes s :: "'z reader_scheme"
  assumes "ok x" and "ok y" and "enc x @ r = enc y @ r'"
  shows "x = y \<and> r = r'"
proof -
  define t :: "'z reader_scheme" where "t = s\<lparr>rbytes := enc x @ r\<rparr>"
  have "dec t = (Ok x, t\<lparr>rbytes := r\<rparr>)" using assms(1) by (rule dec_enc) (simp add: t_def)
  moreover have "dec t = (Ok y, t\<lparr>rbytes := r'\<rparr>)"
    using assms(2) by (rule dec_enc) (simp add: t_def assms(3))
  ultimately show ?thesis by (auto simp: t_def dest: arg_cong [where f = rbytes])
qed

lemma dec_list:
  "list_all ok xs \<Longrightarrow> rbytes s = concat (map enc xs) @ rest \<Longrightarrow> length ys = length xs \<Longrightarrow>
    mapM (\<lambda>_. dec) ys s = (Ok xs, s\<lparr>rbytes := rest\<rparr>)"
proof (induction xs arbitrary: ys s)
  case Nil
  then show ?case by (cases ys) simp_all
next
  case (Cons x xs)
  then obtain z zs where ys: "ys = z # zs" and len: "length zs = length xs"
    by (cases ys) auto
  have "dec s = (Ok x, s\<lparr>rbytes := concat (map enc xs) @ rest\<rparr>)"
    by (rule dec_enc) (use Cons.prems in simp_all)
  moreover have "mapM (\<lambda>_. dec) zs (s\<lparr>rbytes := concat (map enc xs) @ rest\<rparr>) =
      (Ok xs, s\<lparr>rbytes := rest\<rparr>)"
    using Cons.IH [of "s\<lparr>rbytes := concat (map enc xs) @ rest\<rparr>" zs] Cons.prems len by simp
  ultimately show ?case by (simp add: ys bindM_def)
qed

lemma dec_bind:
  "ok x \<Longrightarrow> rbytes s = enc x @ rest \<Longrightarrow> bindM dec f s = f x (s\<lparr>rbytes := rest\<rparr>)"
  by (simp add: dec_enc bindM_def)

end

locale fixed_codec = codec enc dec ok
  for enc :: "'a \<Rightarrow> u8 list" and dec :: "('z reader_scheme, 'a) prog" and ok :: "'a \<Rightarrow> bool" +
  fixes width :: nat
  assumes length_enc: "length (enc x) = width"
    and dec_short: "length (rbytes s) < width \<Longrightarrow> dec s = (Err (short_err s), s\<lparr>rbytes := []\<rparr>)"
    and dec_takes: "dec s = (Ok x, s') \<Longrightarrow> width \<le> length (rbytes s) \<and>
                      s' = s\<lparr>rbytes := drop width (rbytes s)\<rparr>"
begin

lemma length_concat_enc: "length (concat (map enc xs)) = width * length xs"
  by (induction xs) (simp_all add: length_enc)

lemma dec_list_takes:
  "mapM (\<lambda>_. dec) ys s = (Ok xs, s') \<Longrightarrow>
    width * length ys \<le> length (rbytes s) \<and> s' = s\<lparr>rbytes := drop (width * length ys) (rbytes s)\<rparr>"
proof (induction ys arbitrary: s xs)
  case Nil
  then show ?case by simp
next
  case (Cons y ys)
  then obtain x zs t where "dec s = (Ok x, t)" and r: "mapM (\<lambda>_. dec) ys t = (Ok zs, s')"
    by (auto elim!: bindM_OkE)
  then have "width \<le> length (rbytes s)" and t: "t = s\<lparr>rbytes := drop width (rbytes s)\<rparr>"
    by (auto dest: dec_takes)
  with Cons.IH [OF r] show ?case by (auto simp: t add.commute le_diff_conv2)
qed

end

text \<open>In a canonical format every accepted encoding is a written one.\<close>

locale canonical_codec = fixed_codec +
  assumes dec_OkD: "dec s = (Ok x, s') \<Longrightarrow> rbytes s = enc x @ rbytes s'"
begin

lemma dec_unique:
  assumes "dec s = (Ok x, s')" and "dec t = (Ok x, t')" and "rbytes s' = rbytes t'"
  shows "rbytes s = rbytes t"
  using assms by (auto dest!: dec_OkD)

end

lemma list_len2: "length bs = 2 \<Longrightarrow> \<exists>a b. bs = [a, b]"
  by (auto simp: numeral_2_eq_2 length_Suc_conv)

lemma list_len4: "length bs = 4 \<Longrightarrow> \<exists>a b c d. bs = [a, b, c, d]"
  by (auto simp: eval_nat_numeral length_Suc_conv)

lemma read_full_bind_OkE:
  assumes "bindM (read_full n) (\<lambda>b. ret (f b)) s = (Ok x, s')"
  obtains bs where "rbytes s = bs @ rbytes s'" "length bs = n" "x = f bs"
    "s' = s\<lparr>rbytes := rbytes s'\<rparr>"
  using assms by (auto elim!: bindM_OkE dest: read_full_OkD)

lemma read_full_bind_short:
  "length (rbytes s) < n \<Longrightarrow>
    bindM (read_full n) f s = (Err (short_err s), s\<lparr>rbytes := []\<rparr>)"
  by (simp add: bindM_def read_full_short)

lemma read_full_bind_takes:
  "bindM (read_full n) (\<lambda>b. ret (f b)) s = (Ok x, s') \<Longrightarrow>
    n \<le> length (rbytes s) \<and> s' = s\<lparr>rbytes := drop n (rbytes s)\<rparr>"
  by (auto simp: read_full_def bindM_def split: if_splits)

interpretation u8_codec: canonical_codec "\<lambda>b. [b]" read_u8 "\<lambda>_. True" 1
proof unfold_locales
  fix s :: "'z reader_scheme" and x rest
  assume "rbytes s = [x] @ rest"
  then show "read_u8 s = (Ok x, s\<lparr>rbytes := rest\<rparr>)"
    by (simp add: read_u8_def read_full_def bindM_def)
next
  fix s s' :: "'z reader_scheme" and x
  assume "read_u8 s = (Ok x, s')"
  then obtain bs where "rbytes s = bs @ rbytes s'" "length bs = 1" "x = bs ! 0"
    unfolding read_u8_def by (elim read_full_bind_OkE)
  then show "rbytes s = [x] @ rbytes s'" by (cases bs) simp_all
qed (simp_all only: read_u8_def read_full_bind_short read_full_bind_takes list.size
      One_nat_def add_0)

interpretation u16_codec: canonical_codec be16 read_u16 "\<lambda>_. True" 2
proof unfold_locales
  fix s :: "'z reader_scheme" and x rest
  assume "rbytes s = be16 x @ rest"
  then show "read_u16 s = (Ok x, s\<lparr>rbytes := rest\<rparr>)"
    using get_be16_be16 [of x "[]"] by (simp add: read_u16_def wire_simps)
next
  fix s s' :: "'z reader_scheme" and x
  assume "read_u16 s = (Ok x, s')"
  then obtain bs where bs: "rbytes s = bs @ rbytes s'" "length bs = 2" "x = get_be16 bs"
    unfolding read_u16_def by (elim read_full_bind_OkE)
  then have "be16 x = bs" by (auto dest!: list_len2)
  with bs show "rbytes s = be16 x @ rbytes s'" by simp
qed (simp_all only: length_be read_u16_def read_full_bind_short read_full_bind_takes)

interpretation u32_codec: canonical_codec be32 read_u32 "\<lambda>_. True" 4
proof unfold_locales
  fix s :: "'z reader_scheme" and x rest
  assume "rbytes s = be32 x @ rest"
  then show "read_u32 s = (Ok x, s\<lparr>rbytes := rest\<rparr>)"
    using get_be32_be32 [of x "[]"] by (simp add: read_u32_def wire_simps)
next
  fix s s' :: "'z reader_scheme" and x
  assume "read_u32 s = (Ok x, s')"
  then obtain bs where bs: "rbytes s = bs @ rbytes s'" "length bs = 4" "x = get_be32 bs"
    unfolding read_u32_def by (elim read_full_bind_OkE)
  then have "be32 x = bs" by (auto dest!: list_len4)
  with bs show "rbytes s = be32 x @ rbytes s'" by simp
qed (simp_all only: length_be read_u32_def read_full_bind_short read_full_bind_takes)

lemmas read_codecs [wire_simps] =
  u8_codec.dec_enc [OF TrueI] u16_codec.dec_enc [OF TrueI] u32_codec.dec_enc [OF TrueI]

section \<open>bytes.Buffer\<close>

text \<open>
  \<open>buf.Bytes()[0:n]\<close> on a buffer that was only written to: a slice may reach past its length up to
  the capacity of the array behind it, whose unwritten part is zero; past the capacity it panics.
\<close>

definition buffer_prefix :: "nat \<Rightarrow> nat \<Rightarrow> u8 list \<Rightarrow> u8 list outcome" where
  "buffer_prefix cp n bs =
     (if n \<le> max cp (length bs) then Ok (take n (bs @ replicate (n - length bs) 0))
      else Panic SliceOutOfRange)"

lemma buffer_prefix_exact [simp]: "buffer_prefix cp (length bs) bs = Ok bs"
  by (simp add: buffer_prefix_def)

end
