(* ===== verification/Pixel.thy ===== *)
theory Pixel
  imports Wire
begin

text \<open>
  Colours, the byte cursor the decoders read colours from, and the pixel format message:
  \<^verbatim>\<open>vncclient/color.go\<close>, \<^verbatim>\<open>vncclient/quickbuf.go\<close>, \<^verbatim>\<open>vncclient/pixel_format.go\<close>.
\<close>

section \<open>Colours and QuickBuf\<close>

record color =
  cR :: u8
  cG :: u8
  cB :: u8

abbreviation rgb :: "u8 \<Rightarrow> u8 \<Rightarrow> u8 \<Rightarrow> color" where
  "rgb r g b \<equiv> \<lparr>cR = r, cG = g, cB = b\<rparr>"

definition zero_color :: color where
  "zero_color = rgb 0 0 0"

definition colorSize :: nat where
  "colorSize = 3"

record quickbuf =
  qbuf :: "u8 list"
  qoff :: nat

definition NewQuickBuf :: "u8 list \<Rightarrow> quickbuf" where
  "NewQuickBuf bs = \<lparr>qbuf = bs, qoff = 0\<rparr>"

definition qb_Len :: "quickbuf \<Rightarrow> int" where
  "qb_Len b = int (length (qbuf b)) - int (qoff b)"

definition qb_ReadByte :: "(quickbuf, u8) prog" where
  "qb_ReadByte b =
     (if length (qbuf b) \<le> qoff b then (Err EOF, b)
      else (Ok (qbuf b ! qoff b), b\<lparr>qoff := qoff b + 1\<rparr>))"

text \<open>The memory of \<open>n\<close> colours read as a slice: consecutive triples.\<close>

fun colors_of :: "u8 list \<Rightarrow> color list" where
  "colors_of (r # g # b # bs) = rgb r g b # colors_of bs"
| "colors_of _ = []"

text \<open>
  The pointer to the first colour is taken with an index expression, so a read of no colours at
  the very end of the buffer panics where the length check lets it pass.
\<close>

definition qb_ReadColors :: "nat \<Rightarrow> (quickbuf, color list) prog" where
  "qb_ReadColors n b =
     (let skip = colorSize * n in
      if length (qbuf b) < qoff b + skip then (Err EOF, b)
      else if length (qbuf b) \<le> qoff b then (Panic IndexOutOfRange, b)
      else (Ok (colors_of (take skip (drop (qoff b) (qbuf b)))), b\<lparr>qoff := qoff b + skip\<rparr>))"

definition qb_ReadColor :: "(quickbuf, color) prog" where
  "qb_ReadColor b =
     (if length (qbuf b) \<le> qoff b + 2 then (Panic IndexOutOfRange, b)
      else (Ok (rgb (qbuf b ! qoff b) (qbuf b ! (qoff b + 1)) (qbuf b ! (qoff b + 2))),
            b\<lparr>qoff := qoff b + colorSize\<rparr>))"

fun color_bytes :: "color \<Rightarrow> u8 list" where
  "color_bytes c = [cR c, cG c, cB c]"

abbreviation colors_bytes :: "color list \<Rightarrow> u8 list" where
  "colors_bytes cs \<equiv> concat (map color_bytes cs)"

lemma length_colors_bytes [simp]: "length (colors_bytes cs) = 3 * length cs"
  by (induction cs) simp_all

lemma colors_of_bytes [simp]: "colors_of (colors_bytes cs) = cs"
  by (induction cs) simp_all

lemma length_colors_of: "length (colors_of bs) = length bs div 3"
  by (induction bs rule: colors_of.induct) simp_all

lemma triple_Suc: "length bs = 3 * Suc n \<Longrightarrow> \<exists>r g b cs. bs = r # g # b # cs \<and> length cs = 3 * n"
  by (auto simp: length_Suc_conv numeral_3_eq_3)

lemma colors_bytes_of: "length bs = 3 * n \<Longrightarrow> colors_bytes (colors_of bs) = bs"
proof (induction n arbitrary: bs)
  case (Suc n)
  from triple_Suc [OF Suc.prems] Suc.IH show ?case by auto
qed simp

lemma colors_of_append:
  "length bs = 3 * n \<Longrightarrow> colors_of (bs @ cs) = colors_of bs @ colors_of cs"
proof (induction n arbitrary: bs)
  case (Suc n)
  from triple_Suc [OF Suc.prems] Suc.IH show ?case by auto
qed simp

text \<open>The cursor seen as the bytes it has still to give.\<close>

definition qrest :: "quickbuf \<Rightarrow> u8 list" where
  "qrest b = drop (qoff b) (qbuf b)"

definition qb_at :: "u8 list \<Rightarrow> u8 list \<Rightarrow> quickbuf" where
  "qb_at done rest = \<lparr>qbuf = done @ rest, qoff = length done\<rparr>"

lemma qrest_at [simp]: "qrest (qb_at d r) = r"
  by (simp add: qrest_def qb_at_def)

lemma NewQuickBuf_at: "NewQuickBuf bs = qb_at [] bs"
  by (simp add: NewQuickBuf_def qb_at_def)

lemma qb_Len_at [simp]: "qb_Len (qb_at d r) = int (length r)"
  by (simp add: qb_Len_def qb_at_def)

lemma qb_ReadByte_at [wire_simps]: "qb_ReadByte (qb_at d (x # r)) = (Ok x, qb_at (d @ [x]) r)"
  by (simp add: qb_ReadByte_def qb_at_def nth_append)

lemma qb_ReadByte_end [wire_simps]: "qb_ReadByte (qb_at d []) = (Err EOF, qb_at d [])"
  by (simp add: qb_ReadByte_def qb_at_def)

lemma qb_ReadColors_at [wire_simps]:
  "length cs = n \<Longrightarrow> colors_bytes cs @ r \<noteq> [] \<Longrightarrow>
    qb_ReadColors n (qb_at d (colors_bytes cs @ r)) = (Ok cs, qb_at (d @ colors_bytes cs) r)"
  by (cases "cs = []") (auto simp: qb_ReadColors_def qb_at_def colorSize_def Let_def)

lemma qb_ReadColors_short:
  "length r < 3 * n \<Longrightarrow> qb_ReadColors n (qb_at d r) = (Err EOF, qb_at d r)"
  by (simp add: qb_ReadColors_def qb_at_def colorSize_def)

lemma qb_ReadColor_at [wire_simps]:
  "qb_ReadColor (qb_at d (color_bytes c @ r)) = (Ok c, qb_at (d @ color_bytes c) r)"
  by (simp add: qb_ReadColor_def qb_at_def colorSize_def nth_append)

text \<open>A cursor stays inside its buffer; every read keeps this.\<close>

definition qb_inv :: "quickbuf \<Rightarrow> bool" where
  "qb_inv b \<longleftrightarrow> qoff b \<le> length (qbuf b)"

lemma qb_inv_at [simp]: "qb_inv (qb_at d r)"
  by (simp add: qb_inv_def qb_at_def)

lemma qb_inv_cases:
  assumes "qb_inv b"
  obtains d r where "b = qb_at d r"
proof
  show "b = qb_at (take (qoff b) (qbuf b)) (drop (qoff b) (qbuf b))"
    using assms by (cases b) (simp add: qb_inv_def qb_at_def)
qed

section \<open>The pixel format\<close>

record pixel_format =
  BPP :: u8
  Depth :: u8
  BigEndian :: bool
  TrueColor :: bool
  RedMax :: u16
  GreenMax :: u16
  BlueMax :: u16
  RedShift :: u8
  GreenShift :: u8
  BlueShift :: u8

definition zero_pf :: pixel_format where
  "zero_pf = \<lparr>BPP = 0, Depth = 0, BigEndian = False, TrueColor = False, RedMax = 0, GreenMax = 0,
     BlueMax = 0, RedShift = 0, GreenShift = 0, BlueShift = 0\<rparr>"

text \<open>
  The fields are read one by one from the sixteen bytes; a flag byte only ever sets its flag, and
  the colour fields are left alone without true colour.
\<close>

definition read_pf_color :: "pixel_format \<Rightarrow> (reader, pixel_format) prog" where
  "read_pf_color res =
     bindM read_u16 (\<lambda>rm. bindM read_u16 (\<lambda>gm. bindM read_u16 (\<lambda>bm.
     bindM read_u8 (\<lambda>rs. bindM read_u8 (\<lambda>gs. bindM read_u8 (\<lambda>bs.
     ret (res\<lparr>TrueColor := True, RedMax := rm, GreenMax := gm, BlueMax := bm,
              RedShift := rs, GreenShift := gs, BlueShift := bs\<rparr>)))))))"

definition read_pf_fields :: "pixel_format \<Rightarrow> (reader, pixel_format) prog" where
  "read_pf_fields res =
     bindM read_u8 (\<lambda>bpp. bindM read_u8 (\<lambda>depth.
     bindM read_u8 (\<lambda>be. bindM read_u8 (\<lambda>tc.
     let res' = res\<lparr>BPP := bpp, Depth := depth, BigEndian := be \<noteq> 0 \<or> BigEndian res\<rparr> in
     if tc \<noteq> 0 then read_pf_color res' else ret res'))))"

definition ReadPixelFormat :: "pixel_format \<Rightarrow> ('z reader_scheme, pixel_format) prog" where
  "ReadPixelFormat res =
     bindM (read_full 16) (\<lambda>raw.
     lift (fst (read_pf_fields res \<lparr>rbytes = raw, rend = EOF\<rparr>)))"

definition bool_byte :: "bool \<Rightarrow> u8" where
  "bool_byte b = (if b then 1 else 0)"

definition WritePixelFormat :: "pixel_format \<Rightarrow> u8 list outcome" where
  "WritePixelFormat f =
     buffer_prefix 64 16
       ([BPP f, Depth f, bool_byte (BigEndian f), bool_byte (TrueColor f)] @
        (if TrueColor f
         then be16 (RedMax f) @ be16 (GreenMax f) @ be16 (BlueMax f) @
              [RedShift f, GreenShift f, BlueShift f]
         else []))"

text \<open>What a read pixel format holds: the written one on top of what the record held before.\<close>

definition merge_pf :: "pixel_format \<Rightarrow> pixel_format \<Rightarrow> pixel_format" where
  "merge_pf old f =
     (if TrueColor f then f\<lparr>BigEndian := BigEndian f \<or> BigEndian old\<rparr>
      else old\<lparr>BPP := BPP f, Depth := Depth f, BigEndian := BigEndian f \<or> BigEndian old\<rparr>)"

definition pf_bytes :: "pixel_format \<Rightarrow> u8 list" where
  "pf_bytes f =
     [BPP f, Depth f, bool_byte (BigEndian f), bool_byte (TrueColor f)] @
     (if TrueColor f
      then be16 (RedMax f) @ be16 (GreenMax f) @ be16 (BlueMax f) @
           [RedShift f, GreenShift f, BlueShift f, 0, 0, 0]
      else replicate 12 0)"

lemma length_pf_bytes [simp]: "length (pf_bytes f) = 16"
  by (simp add: pf_bytes_def)

lemma WritePixelFormat_bytes: "WritePixelFormat f = Ok (pf_bytes f)"
  by (simp add: WritePixelFormat_def buffer_prefix_def pf_bytes_def numeral_eq_Suc)

lemma bool_byte_eq_0 [simp]: "bool_byte b = 0 \<longleftrightarrow> \<not> b"
  by (simp add: bool_byte_def)

lemma read_pf_color_run:
  assumes "rbytes s = be16 rm @ be16 gm @ be16 bm @ rs # gs # bs # rest"
  shows "fst (read_pf_color res s) =
    Ok (res\<lparr>TrueColor := True, RedMax := rm, GreenMax := gm, BlueMax := bm,
           RedShift := rs, GreenShift := gs, BlueShift := bs\<rparr>)"
  unfolding read_pf_color_def using assms
  by (simp add: u16_codec.dec_bind [OF TrueI] u8_codec.dec_bind [OF TrueI])

lemma read_pf_fields_run:
  assumes "rbytes s = pf_bytes f"
  shows "fst (read_pf_fields old s) = Ok (merge_pf old f)"
  using assms
  by (cases old; cases f; cases "TrueColor f")
    (auto simp: read_pf_fields_def pf_bytes_def u8_codec.dec_bind [OF TrueI] read_pf_color_run
      merge_pf_def Let_def)

lemma ReadPixelFormat_run [wire_simps]:
  "rbytes s = pf_bytes f @ rest \<Longrightarrow>
    ReadPixelFormat old s = (Ok (merge_pf old f), s\<lparr>rbytes := rest\<rparr>)"
  by (simp add: ReadPixelFormat_def bindM_def read_full_append read_pf_fields_run)

definition plain_pf :: "pixel_format \<Rightarrow> bool" where
  "plain_pf f \<longleftrightarrow> TrueColor f \<or> RedMax f = 0 \<and> GreenMax f = 0 \<and> BlueMax f = 0 \<and>
     RedShift f = 0 \<and> GreenShift f = 0 \<and> BlueShift f = 0"

lemma merge_zero_pf: "plain_pf f \<Longrightarrow> merge_pf zero_pf f = f"
  by (auto simp: merge_pf_def zero_pf_def plain_pf_def intro: pixel_format.equality)

interpretation pf_codec: codec pf_bytes "ReadPixelFormat zero_pf" plain_pf
  by unfold_locales (simp add: ReadPixelFormat_run merge_zero_pf)

end
