(* ===== verification/ClientConn.thy ===== *)
theory ClientConn
  imports Pixel
begin

text \<open>
  The client connection and the messages it sends: the state of \<open>ClientConn\<close> and the methods
  \<open>CutText\<close>, \<open>FramebufferUpdateRequest\<close>, \<open>KeyEvent\<close>, \<open>PointerEvent\<close>, \<open>SetEncodings\<close> and
  \<open>SetPixelFormat\<close> of \<^verbatim>\<open>vncclient/client.go\<close>, the encoding numbers of \<^verbatim>\<open>vncclient/encoding.go\<close>, the
  events of \<^verbatim>\<open>gymvnc/action.go\<close>. The messages of a client to its server are specified as a wire
  format of their own (RFC 6143, section 7.5), which the methods are shown to write.
\<close>

section \<open>Encodings and their numbers\<close>

text \<open>
  The values that can stand in \<open>Encs\<close>: the three pixel encodings, the pseudo-encodings that carry a
  level, and encodings a user of the package adds (\<open>CursorEncoding\<close> is the one of
  \<^verbatim>\<open>cmd/transcode\<close>).
\<close>

datatype encoding =
    RawEncoding
  | ZRLEEncoding
  | TightEncoding
  | QualityLevel u32
  | CompressLevel u32
  | FineQualityLevel u32
  | SubsampleLevel u32
  | JPEGQuality u8
  | CursorEncoding

fun enc_Type :: "encoding \<Rightarrow> i32" where
  "enc_Type RawEncoding = 0"
| "enc_Type ZRLEEncoding = 16"
| "enc_Type TightEncoding = 7"
| "enc_Type (QualityLevel f) = -32 + f"
| "enc_Type (CompressLevel l) = -256 + l"
| "enc_Type (FineQualityLevel f) = -512 + f"
| "enc_Type (SubsampleLevel s) = -768 + s"
| "enc_Type (JPEGQuality j) = -32 + ucast j"
| "enc_Type CursorEncoding = -239"

section \<open>The connection\<close>

record client = conn +
  ColorMap :: "color list"
  Encs :: "encoding list"
  FramebufferWidth :: u16
  FramebufferHeight :: u16
  DesktopName :: "u8 list"
  PixelFormat :: pixel_format

text \<open>
  Ranging over a Go string decodes UTF-8: the code point and the number of bytes it takes, where a
  malformed byte counts as one U+FFFD.
\<close>

definition utf8_cont :: "u8 \<Rightarrow> bool" where
  "utf8_cont b \<longleftrightarrow> 0x80 \<le> b \<and> b \<le> 0xBF"

definition utf8_low :: "u8 \<Rightarrow> nat" where
  "utf8_low b = unat b - 0x80"

definition decode_rune :: "u8 list \<Rightarrow> nat \<times> nat" where
  "decode_rune bs =
     (case bs of
        [] \<Rightarrow> (0xFFFD, 0)
      | b0 # r \<Rightarrow>
        if b0 < 0x80 then (unat b0, 1)
        else if 0xC2 \<le> b0 \<and> b0 \<le> 0xDF then
          (case r of
             b1 # _ \<Rightarrow> if utf8_cont b1 then ((unat b0 - 0xC0) * 64 + utf8_low b1, 2) else (0xFFFD, 1)
           | _ \<Rightarrow> (0xFFFD, 1))
        else if 0xE0 \<le> b0 \<and> b0 \<le> 0xEF then
          (case r of
             b1 # b2 # _ \<Rightarrow>
               if (if b0 = 0xE0 then 0xA0 else 0x80) \<le> b1 \<and> b1 \<le> (if b0 = 0xED then 0x9F else 0xBF)
                  \<and> utf8_cont b2
               then ((unat b0 - 0xE0) * 4096 + utf8_low b1 * 64 + utf8_low b2, 3) else (0xFFFD, 1)
           | _ \<Rightarrow> (0xFFFD, 1))
        else if 0xF0 \<le> b0 \<and> b0 \<le> 0xF4 then
          (case r of
             b1 # b2 # b3 # _ \<Rightarrow>
               if (if b0 = 0xF0 then 0x90 else 0x80) \<le> b1 \<and> b1 \<le> (if b0 = 0xF4 then 0x8F else 0xBF)
                  \<and> utf8_cont b2 \<and> utf8_cont b3
               then ((unat b0 - 0xF0) * 262144 + utf8_low b1 * 4096 + utf8_low b2 * 64 + utf8_low b3, 4)
               else (0xFFFD, 1)
           | _ \<Rightarrow> (0xFFFD, 1))
        else (0xFFFD, 1))"

lemma decode_rune_width: "bs \<noteq> [] \<Longrightarrow> 0 < snd (decode_rune bs)"
  by (cases bs) (auto simp: decode_rune_def split: list.splits)

function runes :: "u8 list \<Rightarrow> nat list" where
  "runes bs =
     (if bs = [] then []
      else fst (decode_rune bs) # runes (drop (snd (decode_rune bs)) bs))"
  by pat_completeness auto
termination
  by (relation "measure length") (auto simp: decode_rune_width)

declare runes.simps [simp del]

lemma runes_Nil [simp]: "runes [] = []"
  by (simp add: runes.simps)

lemma runes_ascii: "b < 0x80 \<Longrightarrow> runes (b # bs) = unat b # runes bs"
  by (simp add: runes.simps [of "b # bs"] decode_rune_def)

section \<open>Messages to the server\<close>

text \<open>
  \<open>bcap n\<close> is the capacity of a \<open>bytes.Buffer\<close> after \<open>n\<close> bytes have been written to it, which the
  standard library leaves open.
\<close>

definition cut_byte :: "nat \<Rightarrow> u8 outcome" where
  "cut_byte r =
     (if 0xFF < r then Err (Errorf ''Character is not valid Latin-1'') else Ok (of_nat r))"

definition CutText :: "(nat \<Rightarrow> nat) \<Rightarrow> u8 list \<Rightarrow> ('z client_scheme, unit) prog" where
  "CutText bcap str =
     bindM (lift (mapO cut_byte (runes str))) (\<lambda>body.
     let buf = [6, 0, 0, 0] @ be32 (of_nat (length str)) @ body in
     bindM (lift (buffer_prefix (bcap (length buf)) (8 + length str) buf)) write_conn)"

definition FramebufferUpdateRequest ::
  "bool \<Rightarrow> u16 \<Rightarrow> u16 \<Rightarrow> u16 \<Rightarrow> u16 \<Rightarrow> ('z conn_scheme, unit) prog" where
  "FramebufferUpdateRequest incremental x y width height =
     write_conn ([3, bool_byte incremental] @ be16 x @ be16 y @ be16 width @ be16 height)"

definition client_KeyEvent :: "u32 \<Rightarrow> bool \<Rightarrow> ('z conn_scheme, unit) prog" where
  "client_KeyEvent keysym down = write_conn ([4, bool_byte down, 0, 0] @ be32 keysym)"

definition client_PointerEvent :: "u8 \<Rightarrow> u16 \<Rightarrow> u16 \<Rightarrow> ('z conn_scheme, unit) prog" where
  "client_PointerEvent btn x y = write_conn ([5, btn] @ be16 x @ be16 y)"

definition SetEncodings :: "encoding list \<Rightarrow> ('z client_scheme, unit) prog" where
  "SetEncodings es =
     bindM (write_conn ([2, 0] @ be16 (of_nat (length es)) @
                        concat (map (\<lambda>e. be32 (enc_Type e)) es))) (\<lambda>_.
     modifyS (\<lambda>c. c\<lparr>Encs := es\<rparr>))"

definition SetPixelFormat :: "pixel_format \<Rightarrow> ('z client_scheme, unit) prog" where
  "SetPixelFormat f =
     bindM (lift (WritePixelFormat f)) (\<lambda>pfBytes.
     bindM (write_conn ([0, 0, 0, 0] @ pfBytes)) (\<lambda>_.
     modifyS (\<lambda>c. c\<lparr>ColorMap := replicate 256 zero_color\<rparr>)))"

text \<open>The events a user of a session queues, and what each calls on the connection.\<close>

datatype vnc_event =
    KeyEvent u32 bool
  | PointerEvent u8 u16 u16

fun Execute :: "vnc_event \<Rightarrow> ('z conn_scheme, unit) prog" where
  "Execute (KeyEvent keysym down) = client_KeyEvent keysym down"
| "Execute (PointerEvent btn x y) = client_PointerEvent btn x y"

text \<open>The masks of the pointer buttons (\<^verbatim>\<open>vncclient/pointer.go\<close>), \<open>1 << iota\<close>.\<close>

definition Button :: "nat \<Rightarrow> u8" where
  "Button i = push_bit i 1"

section \<open>The client messages as the protocol specifies them\<close>

datatype client_msg =
    MSetPixelFormat pixel_format
  | MSetEncodings "i32 list"
  | MUpdateRequest bool u16 u16 u16 u16
  | MKey bool u32
  | MPointer u8 u16 u16
  | MCutText "u8 list"

fun msg_bytes :: "client_msg \<Rightarrow> u8 list" where
  "msg_bytes (MSetPixelFormat f) = [0, 0, 0, 0] @ pf_bytes f"
| "msg_bytes (MSetEncodings ts) = [2, 0] @ be16 (of_nat (length ts)) @ concat (map be32 ts)"
| "msg_bytes (MUpdateRequest i x y w h) = [3, bool_byte i] @ be16 x @ be16 y @ be16 w @ be16 h"
| "msg_bytes (MKey d k) = [4, bool_byte d, 0, 0] @ be32 k"
| "msg_bytes (MPointer m x y) = [5, m] @ be16 x @ be16 y"
| "msg_bytes (MCutText t) = [6, 0, 0, 0] @ be32 (of_nat (length t)) @ t"

fun msg_ok :: "client_msg \<Rightarrow> bool" where
  "msg_ok (MSetPixelFormat f) = plain_pf f"
| "msg_ok (MSetEncodings ts) = (length ts < 2 ^ 16)"
| "msg_ok (MCutText t) = (length t < 2 ^ 32)"
| "msg_ok _ = True"

text \<open>How a server reads them back, after the type byte.\<close>

definition parse_msg_body :: "u8 \<Rightarrow> ('z reader_scheme, client_msg) prog" where
  "parse_msg_body t =
     (if t = 0 then bindM (read_full 3) (\<lambda>_. bindM (ReadPixelFormat zero_pf) (\<lambda>f.
        ret (MSetPixelFormat f)))
      else if t = 2 then bindM read_u8 (\<lambda>_. bindM read_u16 (\<lambda>n.
        bindM (mapM (\<lambda>_. read_u32) [0..<unat n]) (\<lambda>ts. ret (MSetEncodings ts))))
      else if t = 3 then bindM read_u8 (\<lambda>i. bindM read_u16 (\<lambda>x. bindM read_u16 (\<lambda>y.
        bindM read_u16 (\<lambda>w. bindM read_u16 (\<lambda>h. ret (MUpdateRequest (i \<noteq> 0) x y w h))))))
      else if t = 4 then bindM read_u8 (\<lambda>d. bindM (read_full 2) (\<lambda>_. bindM read_u32 (\<lambda>k.
        ret (MKey (d \<noteq> 0) k))))
      else if t = 5 then bindM read_u8 (\<lambda>m. bindM read_u16 (\<lambda>x. bindM read_u16 (\<lambda>y.
        ret (MPointer m x y))))
      else if t = 6 then bindM (read_full 3) (\<lambda>_. bindM read_u32 (\<lambda>n.
        bindM (read_full (unat n)) (\<lambda>str. ret (MCutText str))))
      else fail (Errorf ''unknown client message''))"

definition parse_msg :: "('z reader_scheme, client_msg) prog" where
  "parse_msg = bindM read_u8 parse_msg_body"

lemma read_full_bind:
  "rbytes s = bs @ rest \<Longrightarrow> length bs = n \<Longrightarrow> bindM (read_full n) f s = f bs (s\<lparr>rbytes := rest\<rparr>)"
  by (simp add: bindM_def read_full_append)

lemma unat_of_nat_u16: "n < 2 ^ 16 \<Longrightarrow> unat (of_nat n :: u16) = n"
  by (simp add: unsigned_of_nat take_bit_nat_eq_self)

lemma unat_of_nat_u32: "n < 2 ^ 32 \<Longrightarrow> unat (of_nat n :: u32) = n"
  by (simp add: unsigned_of_nat take_bit_nat_eq_self)

lemmas codec_binds = u8_codec.dec_bind [OF TrueI] u16_codec.dec_bind [OF TrueI]
  u32_codec.dec_bind [OF TrueI]

lemma parse_encodings:
  assumes "length ts < 2 ^ 16"
    and "rbytes s = 0 # be16 (of_nat (length ts)) @ concat (map be32 ts) @ rest"
  shows "parse_msg_body 2 s = (Ok (MSetEncodings ts), s\<lparr>rbytes := rest\<rparr>)"
proof -
  let ?t = "s\<lparr>rbytes := concat (map be32 ts) @ rest\<rparr>"
  have "mapM (\<lambda>_. read_u32) [0..<length ts] ?t = (Ok ts, ?t\<lparr>rbytes := rest\<rparr>)"
    by (rule u32_codec.dec_list) (simp_all add: list_all_iff)
  then show ?thesis
    using assms by (simp add: parse_msg_body_def codec_binds unat_of_nat_u16 bindM_def [of "mapM _ _"])
qed

lemma parse_msg_bytes:
  assumes "msg_ok m" and "rbytes s = msg_bytes m @ rest"
  shows "parse_msg s = (Ok m, s\<lparr>rbytes := rest\<rparr>)"
proof (cases m)
  case (MSetPixelFormat f)
  then have "rbytes s = 0 # [0, 0, 0] @ pf_bytes f @ rest" using assms(2) by simp
  then show ?thesis using assms(1) MSetPixelFormat
    by (simp add: parse_msg_def codec_binds parse_msg_body_def read_full_bind [where bs = "[0,0,0]"]
        pf_codec.dec_bind)
next
  case (MSetEncodings ts)
  then have "rbytes s = 2 # 0 # be16 (of_nat (length ts)) @ concat (map be32 ts) @ rest"
    using assms(2) by simp
  then show ?thesis using assms(1) MSetEncodings
    by (simp add: parse_msg_def codec_binds parse_encodings)
next
  case (MUpdateRequest i x y w h)
  with assms(2) show ?thesis by (simp add: parse_msg_def codec_binds parse_msg_body_def)
next
  case (MKey d k)
  then have "rbytes s = 4 # bool_byte d # [0, 0] @ be32 k @ rest" using assms(2) by simp
  then show ?thesis using MKey
    by (simp add: parse_msg_def codec_binds parse_msg_body_def read_full_bind [where bs = "[0,0]"])
next
  case (MPointer b x y)
  with assms(2) show ?thesis by (simp add: parse_msg_def codec_binds parse_msg_body_def)
next
  case (MCutText t)
  then have "rbytes s = 6 # [0, 0, 0] @ be32 (of_nat (length t)) @ t @ rest" using assms(2) by simp
  then show ?thesis using assms(1) MCutText
    by (simp add: parse_msg_def codec_binds parse_msg_body_def read_full_bind [where bs = "[0,0,0]"]
        read_full_bind [where bs = t] unat_of_nat_u32)
qed

interpretation msg_codec: codec msg_bytes parse_msg msg_ok
  by unfold_locales (rule parse_msg_bytes)

section \<open>What the methods send\<close>

lemma write_conn_ok [wire_simps]:
  "wres s = [] \<Longrightarrow> write_conn bs s = (Ok (), s\<lparr>sent := sent s @ bs\<rparr>)"
  by (simp add: write_conn_def)

lemma write_conn_no_panic: "write_conn bs s \<noteq> (Panic p, s')"
  by (simp add: write_conn_def split: list.split option.split)

fun event_msg :: "vnc_event \<Rightarrow> client_msg" where
  "event_msg (KeyEvent k d) = MKey d k"
| "event_msg (PointerEvent m x y) = MPointer m x y"

lemma event_msg_ok [simp]: "msg_ok (event_msg e)"
  by (cases e) simp_all

lemma Execute_writes: "Execute e = write_conn (msg_bytes (event_msg e))"
  by (cases e) (simp_all add: client_KeyEvent_def client_PointerEvent_def)

lemma FramebufferUpdateRequest_writes:
  "FramebufferUpdateRequest i x y w h = write_conn (msg_bytes (MUpdateRequest i x y w h))"
  by (simp add: FramebufferUpdateRequest_def)

lemma forM_write_ok:
  "wres s = [] \<Longrightarrow> (\<And>e. e \<in> set es \<Longrightarrow> f e = write_conn (g e)) \<Longrightarrow>
    forM es f s = (Ok (), s\<lparr>sent := sent s @ concat (map g es)\<rparr>)"
  by (induction es arbitrary: s) (simp_all add: bindM_def wire_simps)

text \<open>(C19) The messages of every sequence of user events: when no write fails, executing the events
  in order sends bytes from which a server reads exactly these key and pointer events, in this
  order, and is then at the start of whatever is sent next.\<close>

theorem execute_events_parsed:
  assumes "wres s = []"
  shows "\<exists>bs. forM es Execute s = (Ok (), s\<lparr>sent := sent s @ bs\<rparr>) \<and>
    (\<forall>(r :: reader) rest. rbytes r = bs @ rest \<longrightarrow>
       mapM (\<lambda>_. parse_msg) es r = (Ok (map event_msg es), r\<lparr>rbytes := rest\<rparr>))"
proof (intro exI conjI allI impI)
  let ?bs = "concat (map msg_bytes (map event_msg es))"
  show "forM es Execute s = (Ok (), s\<lparr>sent := sent s @ ?bs\<rparr>)"
    using forM_write_ok [OF assms, of es Execute "\<lambda>e. msg_bytes (event_msg e)"]
    by (simp add: Execute_writes comp_def)
  fix r :: reader and rest assume "rbytes r = ?bs @ rest"
  then show "mapM (\<lambda>_. parse_msg) es r = (Ok (map event_msg es), r\<lparr>rbytes := rest\<rparr>)"
    by (intro msg_codec.dec_list) (simp_all add: list_all_iff)
qed

definition demo_client :: client where
  "demo_client = \<lparr>rbytes = [], rend = EOF, sent = [], wres = [], ColorMap = replicate 256 zero_color,
     Encs = [], FramebufferWidth = 2, FramebufferHeight = 2, DesktopName = [], PixelFormat = zero_pf\<rparr>"

theorem execute_events_parsed_witness:
  "\<exists>bs. forM [KeyEvent 0x61 True, PointerEvent 1 5 7] Execute demo_client =
      (Ok (), demo_client\<lparr>sent := bs\<rparr>) \<and>
    (\<forall>(r :: reader) rest. rbytes r = bs @ rest \<longrightarrow>
       mapM (\<lambda>_. parse_msg) [KeyEvent 0x61 True, PointerEvent 1 5 7] r =
         (Ok [MKey True 0x61, MPointer 1 5 7], r\<lparr>rbytes := rest\<rparr>))"
proof -
  have "wres demo_client = []" by (simp add: demo_client_def)
  from execute_events_parsed [OF this, of "[KeyEvent 0x61 True, PointerEvent 1 5 7]"]
  show ?thesis by (simp add: demo_client_def)
qed

section \<open>Encodings and pixel format\<close>

lemma msg_bytes_encodings:
  "msg_bytes (MSetEncodings (map enc_Type es)) =
    [2, 0] @ be16 (of_nat (length es)) @ concat (map (\<lambda>e. be32 (enc_Type e)) es)"
  by (simp add: comp_def)

text \<open>SetEncodings and SetPixelFormat: on success a server reads back the numbers of exactly the
  given encodings and the given pixel format, and the connection then decodes with these
  encodings and an empty colour map; when the write fails neither is changed.\<close>

lemma set_format_and_encodings:
  "SetEncodings es c =
     (case write_conn (msg_bytes (MSetEncodings (map enc_Type es))) c of
        (Ok _, c') \<Rightarrow> (Ok (), c'\<lparr>Encs := es\<rparr>) | r \<Rightarrow> r)
   \<and> SetPixelFormat f c =
     (case write_conn (msg_bytes (MSetPixelFormat f)) c of
        (Ok _, c') \<Rightarrow> (Ok (), c'\<lparr>ColorMap := replicate 256 zero_color\<rparr>) | r \<Rightarrow> r)"
proof
  show "SetEncodings es c =
     (case write_conn (msg_bytes (MSetEncodings (map enc_Type es))) c of
        (Ok _, c') \<Rightarrow> (Ok (), c'\<lparr>Encs := es\<rparr>) | r \<Rightarrow> r)"
    unfolding SetEncodings_def msg_bytes_encodings bindM_def
    by (simp split: prod.split outcome.split)
  show "SetPixelFormat f c =
     (case write_conn (msg_bytes (MSetPixelFormat f)) c of
        (Ok _, c') \<Rightarrow> (Ok (), c'\<lparr>ColorMap := replicate 256 zero_color\<rparr>) | r \<Rightarrow> r)"
    unfolding SetPixelFormat_def WritePixelFormat_bytes lift_simps bindM_ret msg_bytes.simps
    unfolding bindM_def by (simp split: prod.split outcome.split)
qed

section \<open>Cut text\<close>

lemma decode_rune_width_le: "snd (decode_rune bs) \<le> length bs"
  by (cases bs) (auto simp: decode_rune_def split: list.splits)

lemma length_runes: "length (runes bs) \<le> length bs"
proof (induction bs rule: runes.induct)
  case (1 bs)
  show ?case
  proof (cases "bs = []")
    case False
    with 1 decode_rune_width [OF False] decode_rune_width_le [of bs] show ?thesis
      by (simp add: runes.simps [of bs])
  qed simp
qed

lemma mapO_cut_byte: "\<forall>r \<in> set rs. r \<le> 255 \<Longrightarrow> mapO cut_byte rs = Ok (map of_nat rs)"
  by (intro mapO_Ok) (auto simp: cut_byte_def)

text \<open>(C30) CutText: for a text in the Latin-1 range the declared length is the number of bytes of the
  Go string while one byte is sent per character, so the server's cut buffer is the Latin-1 text
  followed by a zero byte for every character outside ASCII, as long as the buffer has room.\<close>

theorem cut_text_payload:
  assumes "\<forall>r \<in> set (runes str). r \<le> 255" and "wres c = []"
    and "8 + length str \<le> bcap (8 + length (runes str))"
  shows "CutText bcap str c =
    (Ok (), c\<lparr>sent := sent c @ [6, 0, 0, 0] @ be32 (of_nat (length str)) @
       map of_nat (runes str) @ replicate (length str - length (runes str)) 0\<rparr>)"
  using assms length_runes [of str]
  by (simp add: CutText_def mapO_cut_byte buffer_prefix_def Let_def wire_simps)

lemma runes_all_ascii: "\<forall>b \<in> set str. b < 0x80 \<Longrightarrow> runes str = map unat str"
  by (induction str) (simp_all add: runes_ascii)

text \<open>The two bytes of a Latin-1 letter reach the server as two characters.\<close>

theorem cut_text_payload_witness:
  "CutText (\<lambda>_. 64) [0xC3, 0xA9] demo_client =
    (Ok (), demo_client\<lparr>sent := [6, 0, 0, 0, 0, 0, 0, 2, 0xE9, 0]\<rparr>)"
proof -
  have r: "runes [0xC3, 0xA9] = [0xE9]"
    by (simp add: runes.simps decode_rune_def utf8_cont_def utf8_low_def)
  show ?thesis
    using cut_text_payload [of "[0xC3, 0xA9]" demo_client "\<lambda>_. 64"]
    by (simp add: r demo_client_def be32_def)
qed

end
