(* ===== verification/RawEnc.thy ===== *)
theory RawEnc
  imports ClientConn
begin

text \<open>
  Rectangles and the encodings that need no decompression: \<open>Rectangle\<close> of
  \<^verbatim>\<open>vncclient/server_messages.go\<close>, \<open>RawEncoding.Read\<close> of \<^verbatim>\<open>vncclient/encoding.go\<close>, and the raw pixels
  that \<^verbatim>\<open>cmd/transcode/main.go\<close> writes, against which the decoder is shown to be an inverse.
\<close>

record rect =
  rX :: u16
  rY :: u16
  rWidth :: u16
  rHeight :: u16

definition Area :: "'z rect_scheme \<Rightarrow> nat" where
  "Area r = unat (rWidth r) * unat (rHeight r)"

section \<open>RawEncoding\<close>

definition bytesPerPixel :: "pixel_format \<Rightarrow> nat" where
  "bytesPerPixel pf = unat (BPP pf) div 8"

definition raw_value :: "pixel_format \<Rightarrow> u8 list \<Rightarrow> u32" where
  "raw_value pf pb =
     (if BPP pf = 8 then ucast (pb ! 0)
      else if BPP pf = 16 then ucast (if BigEndian pf then get_be16 pb else get_le16 pb)
      else if BPP pf = 32 then (if BigEndian pf then get_be32 pb else get_le32 pb)
      else 0)"

definition channel :: "u32 \<Rightarrow> u8 \<Rightarrow> u16 \<Rightarrow> u8" where
  "channel v sh mx = ucast (drop_bit (unat sh) v AND ucast mx)"

definition raw_color :: "pixel_format \<Rightarrow> color list \<Rightarrow> u32 \<Rightarrow> color outcome" where
  "raw_color pf cmap v =
     (if TrueColor pf
      then Ok (rgb (channel v (RedShift pf) (RedMax pf)) (channel v (GreenShift pf) (GreenMax pf))
                   (channel v (BlueShift pf) (BlueMax pf)))
      else index_go cmap (unat v))"

definition raw_pixel :: "pixel_format \<Rightarrow> color list \<Rightarrow> ('z reader_scheme, color) prog" where
  "raw_pixel pf cmap =
     bindM (read_full (bytesPerPixel pf)) (\<lambda>pb. lift (raw_color pf cmap (raw_value pf pb)))"

text \<open>
  All bytes of the rectangle are read first; then the rows and columns are walked in order, the
  pixel at \<open>(x, y)\<close> going to place \<open>y * Width + x\<close> of the colours.
\<close>

definition Raw_Read ::
  "pixel_format \<Rightarrow> color list \<Rightarrow> 'y rect_scheme \<Rightarrow> ('z reader_scheme, color list) prog" where
  "Raw_Read pf cmap r =
     bindM (read_full (Area r * bytesPerPixel pf)) (\<lambda>buf.
     lift (fst (mapM (\<lambda>yx. raw_pixel pf cmap)
                  (List.product [0..<unat (rHeight r)] [0..<unat (rWidth r)])
                  \<lparr>rbytes = buf, rend = EOF\<rparr>)))"

definition Raw_Size :: "color list \<Rightarrow> nat" where
  "Raw_Size cs = length cs * 3"

lemma length_product_area:
  "length (List.product [0..<unat (rHeight r)] [0..<unat (rWidth r)]) = Area r"
  by (simp add: Area_def)

section \<open>The raw pixels written by transcode\<close>

definition transcode_pixel :: "pixel_format \<Rightarrow> color \<Rightarrow> u8 list" where
  "transcode_pixel pf c =
     (let colorOrder = push_bit (unat (RedShift pf)) (ucast (cR c) :: u32) +
                       push_bit (unat (GreenShift pf)) (ucast (cG c)) +
                       push_bit (unat (BlueShift pf)) (ucast (cB c))
      in [ucast colorOrder, ucast (drop_bit 8 colorOrder), ucast (drop_bit 16 colorOrder), 0])"

text \<open>
  Pixel formats of three whole bytes in four: the one the sessions of \<^verbatim>\<open>gymvnc\<close> ask for and the one
  \<^verbatim>\<open>cmd/transcode\<close> accepts.
\<close>

definition gym_pf :: pixel_format where
  "gym_pf = \<lparr>BPP = 32, Depth = 24, BigEndian = False, TrueColor = True, RedMax = 255,
     GreenMax = 255, BlueMax = 255, RedShift = 0, GreenShift = 8, BlueShift = 16\<rparr>"

definition fbs_pf_ok :: "pixel_format \<Rightarrow> bool" where
  "fbs_pf_ok pf \<longleftrightarrow> BPP pf = 32 \<and> Depth pf = 24 \<and> \<not> BigEndian pf \<and> TrueColor pf \<and>
     RedMax pf = 255 \<and> GreenMax pf = 255 \<and> BlueMax pf = 255 \<and>
     RedShift pf = 16 \<and> GreenShift pf = 8 \<and> BlueShift pf = 0"

definition rgb32_pf :: "pixel_format \<Rightarrow> bool" where
  "rgb32_pf pf \<longleftrightarrow> BPP pf = 32 \<and> \<not> BigEndian pf \<and> TrueColor pf \<and>
     RedMax pf = 255 \<and> GreenMax pf = 255 \<and> BlueMax pf = 255 \<and>
     GreenShift pf = 8 \<and> (RedShift pf = 0 \<and> BlueShift pf = 16 \<or> RedShift pf = 16 \<and> BlueShift pf = 0)"

lemma gym_pf_rgb32: "rgb32_pf gym_pf"
  by (simp add: rgb32_pf_def gym_pf_def)

lemma fbs_pf_rgb32: "fbs_pf_ok pf \<Longrightarrow> rgb32_pf pf"
  by (auto simp: rgb32_pf_def fbs_pf_ok_def)

lemma or_sum3:
  fixes a b c :: "u8"
  shows "(ucast a :: u32) + push_bit 8 (ucast b) + push_bit 16 (ucast c) =
         ucast a OR push_bit 8 (ucast b) OR push_bit 16 (ucast c)"
proof -
  have 1: "(ucast a :: u32) AND push_bit 8 (ucast b) = 0"
    by (rule bit_word_eqI) (auto simp: bit_simps bit_u8_ge)
  have 2: "((ucast a :: u32) OR push_bit 8 (ucast b)) AND push_bit 16 (ucast c) = 0"
    by (rule bit_word_eqI) (auto simp: bit_simps bit_u8_ge)
  show ?thesis
    by (simp add: disjunctive_add_eq_or [OF 1] disjunctive_add_eq_or [OF 2] or.assoc)
qed

text \<open>The four bytes give the three shifted bytes back, whichever channel each of them is.\<close>

lemma three_bytes_bits:
  fixes a b c :: "u8"
  defines "v \<equiv> (ucast a :: u32) + push_bit 8 (ucast b) + push_bit 16 (ucast c)"
  shows "(ucast v :: u8) = a" "(ucast (drop_bit 8 v) :: u8) = b" "(ucast (drop_bit 16 v) :: u8) = c"
  unfolding v_def or_sum3
  by (rule bit_word_eqI, auto simp: bit_simps bit_u8_ge)+

lemma get_le32_bytes:
  fixes a b c :: "u8"
  shows "get_le32 [a, b, c, 0] = ucast a + push_bit 8 (ucast b) + push_bit 16 (ucast c)"
  unfolding or_sum3 by (simp add: get_le32_def or.assoc)

lemma channel_255: "channel v sh 255 = ucast (drop_bit (unat sh) v)"
proof -
  have "channel v sh 255 = ucast (drop_bit (unat sh) v AND mask 8)"
    by (simp add: channel_def mask_eq_exp_minus_1)
  also have "\<dots> = ucast (drop_bit (unat sh) v)"
    by (rule bit_word_eqI) (simp add: bit_simps)
  finally show ?thesis .
qed

lemma transcode_pixel_bytes:
  assumes "rgb32_pf pf"
  shows "transcode_pixel pf c =
    (if RedShift pf = 0 then [cR c, cG c, cB c, 0] else [cB c, cG c, cR c, 0])"
proof -
  have swap: "push_bit 16 (ucast (cR c)) + push_bit 8 (ucast (cG c)) + (ucast (cB c) :: u32) =
      ucast (cB c) + push_bit 8 (ucast (cG c)) + push_bit 16 (ucast (cR c))"
    by (simp only: add.commute add.left_commute add.assoc)
  show ?thesis
    using assms three_bytes_bits [of "cR c" "cG c" "cB c"] three_bytes_bits [of "cB c" "cG c" "cR c"]
    by (auto simp: rgb32_pf_def transcode_pixel_def Let_def swap)
qed

lemma raw_color_bytes:
  assumes "rgb32_pf pf"
  shows "raw_color pf cmap (raw_value pf (transcode_pixel pf c)) = Ok c"
  using assms three_bytes_bits [of "cR c" "cG c" "cB c"] three_bytes_bits [of "cB c" "cG c" "cR c"]
  by (auto simp: transcode_pixel_bytes rgb32_pf_def raw_color_def raw_value_def channel_255
      get_le32_bytes)

lemma raw_pixel_codec:
  assumes "rgb32_pf pf"
  shows "codec (transcode_pixel pf) (raw_pixel pf cmap) (\<lambda>_. True)"
proof
  fix s :: "'z reader_scheme" and c rest
  assume "rbytes s = transcode_pixel pf c @ rest"
  moreover have "length (transcode_pixel pf c) = bytesPerPixel pf"
    using assms by (simp add: transcode_pixel_def Let_def bytesPerPixel_def rgb32_pf_def)
  ultimately show "raw_pixel pf cmap s = (Ok c, s\<lparr>rbytes := rest\<rparr>)"
    by (simp add: raw_pixel_def read_full_bind raw_color_bytes [OF assms])
qed

interpretation gym_pixel: codec "transcode_pixel gym_pf" "raw_pixel gym_pf cmap" "\<lambda>_. True" for cmap
  by (rule raw_pixel_codec [OF gym_pf_rgb32])

lemma length_transcode: "length (concat (map (transcode_pixel pf) cs)) = 4 * length cs"
  by (induction cs) (simp_all add: transcode_pixel_def Let_def)

lemma Raw_Read_run:
  assumes "rgb32_pf pf" and "length cs = Area r"
    and "rbytes s = concat (map (transcode_pixel pf) cs) @ rest"
  shows "Raw_Read pf cmap r s = (Ok cs, s\<lparr>rbytes := rest\<rparr>)"
proof -
  have bpp: "Area r * bytesPerPixel pf = length (concat (map (transcode_pixel pf) cs))"
    using assms(1,2) by (simp add: length_transcode bytesPerPixel_def rgb32_pf_def)
  have "mapM (\<lambda>yx. raw_pixel pf cmap)
      (List.product [0..<unat (rHeight r)] [0..<unat (rWidth r)])
      \<lparr>rbytes = concat (map (transcode_pixel pf) cs), rend = EOF\<rparr> = (Ok cs, \<lparr>rbytes = [], rend = EOF\<rparr>)"
    using codec.dec_list [OF raw_pixel_codec [OF assms(1), of cmap], of cs
        "\<lparr>rbytes = concat (map (transcode_pixel pf) cs), rend = EOF\<rparr>" "[]"
        "List.product [0..<unat (rHeight r)] [0..<unat (rWidth r)]"] assms(2)
    by (simp add: list_all_iff Area_def)
  then show ?thesis
    by (simp add: Raw_Read_def read_full_bind [OF assms(3)] bpp)
qed

text \<open>(C28) The raw pixels that transcode writes for a rectangle are decoded by RawEncoding to the same
  colours, in both pixel formats the program works with, and nothing after them is consumed.\<close>

theorem raw_read_transcoded:
  assumes "rgb32_pf pf" and "length cs = Area r"
    and "rbytes s = concat (map (transcode_pixel pf) cs) @ rest"
  shows "Raw_Read pf cmap r s = (Ok cs, s\<lparr>rbytes := rest\<rparr>)"
  by (rule Raw_Read_run [OF assms])

theorem raw_read_transcoded_witness:
  "Raw_Read gym_pf [] \<lparr>rX = 0, rY = 0, rWidth = 2, rHeight = 1\<rparr>
     \<lparr>rbytes = [1, 2, 3, 0, 4, 5, 6, 0, 9], rend = EOF\<rparr> =
   (Ok [rgb 1 2 3, rgb 4 5 6], \<lparr>rbytes = [9], rend = EOF\<rparr>)"
proof -
  have "rbytes \<lparr>rbytes = [1, 2, 3, 0, 4, 5, 6, 0, 9], rend = EOF\<rparr> =
      concat (map (transcode_pixel gym_pf) [rgb 1 2 3, rgb 4 5 6]) @ [9]"
    by (simp add: transcode_pixel_bytes [OF gym_pf_rgb32]) (simp add: gym_pf_def)
  from raw_read_transcoded [OF gym_pf_rgb32 _ this, of "\<lparr>rX = 0, rY = 0, rWidth = 2, rHeight = 1\<rparr>" "[]"]
  show ?thesis by (simp add: Area_def)
qed

section \<open>Colour maps\<close>

lemma raw_pixel_hoare:
  assumes "TrueColor pf \<or> BPP pf = 8 \<and> length cmap = 256"
  shows "hoare (\<lambda>_. True) (raw_pixel pf cmap) (\<lambda>_ _. True) (\<lambda>_. True)"
proof (rule hoareI)
  fix s :: "'z reader_scheme"
  have lt: "unat (raw_value pf pb) < 256" if "BPP pf = 8" for pb
    using that unsigned_less [of "pb ! 0", where 'a = nat]
    by (simp add: raw_value_def unsigned_ucast_eq le_less_trans [OF take_bit_nat_less_eq_self])
  show "post (\<lambda>_ _. True) (\<lambda>_. True) (raw_pixel pf cmap s)"
    using assms lt
    by (auto simp: raw_pixel_def bindM_def read_full_def lift_def raw_color_def split: if_splits)
qed

lemma hoare_mapM_True:
  assumes "\<And>x. hoare (\<lambda>_. True) (f x) (\<lambda>_ _. True) (\<lambda>_. True)"
  shows "hoare (\<lambda>_. True) (mapM f xs) (\<lambda>_ _. True) (\<lambda>_. True)"
proof (induction xs)
  case (Cons x xs)
  have "hoare (\<lambda>_. True) (bindM (mapM f xs) (\<lambda>ys. ret (y # ys))) (\<lambda>_ _. True) (\<lambda>_. True)" for y
    by (rule hoare_bindM [OF Cons.IH]) (simp add: hoare_def)
  then show ?case unfolding mapM.simps by (rule hoare_bindM [OF assms])
qed (simp add: hoare_def)

text \<open>Decoding raw pixels never panics with true colour, nor with the 256-entry colour map and
  eight bits per pixel, whatever the server sends; a result has one colour per pixel.\<close>

lemma raw_read_safe:
  assumes "TrueColor pf \<or> BPP pf = 8 \<and> length cmap = 256"
  shows "(\<forall>p s'. Raw_Read pf cmap r s \<noteq> (Panic p, s')) \<and>
    (\<forall>cs s'. Raw_Read pf cmap r s = (Ok cs, s') \<longrightarrow> length cs = Area r)"
proof -
  let ?yx = "List.product [0..<unat (rHeight r)] [0..<unat (rWidth r)]"
  have np: "fst (mapM (\<lambda>yx. raw_pixel pf cmap) ?yx (t :: reader)) \<noteq> Panic p" for t p
    using hoare_no_panic [OF hoare_mapM_True [OF raw_pixel_hoare [OF assms]]]
    by (metis TrueI prod.collapse)
  have len: "length cs = Area r"
    if "fst (mapM (\<lambda>yx. raw_pixel pf cmap) ?yx (t :: reader)) = Ok cs" for t cs
    using mapM_length [of "\<lambda>yx. raw_pixel pf cmap" ?yx t cs] that
    by (metis length_product_area prod.collapse)
  show ?thesis
    using np len by (auto simp: Raw_Read_def bindM_def read_full_def lift_def split: if_splits)
qed

text \<open>A sixteen-bit pixel without true colour indexes past the map: the panic the guard excludes.\<close>

lemma raw_read_safe_witness:
  "length (replicate 256 zero_color) = 256 \<and>
   (\<forall>p s'. Raw_Read (zero_pf\<lparr>BPP := 8\<rparr>) (replicate 256 zero_color)
      \<lparr>rX = 0, rY = 0, rWidth = 1, rHeight = 1\<rparr> \<lparr>rbytes = [255], rend = EOF\<rparr> \<noteq> (Panic p, s')) \<and>
   fst (Raw_Read (zero_pf\<lparr>BPP := 16\<rparr>) (replicate 256 zero_color)
      \<lparr>rX = 0, rY = 0, rWidth = 1, rHeight = 1\<rparr> \<lparr>rbytes = [0, 1], rend = EOF\<rparr>) = Panic IndexOutOfRange"
proof -
  have "TrueColor (zero_pf\<lparr>BPP := 8\<rparr>) \<or>
      BPP (zero_pf\<lparr>BPP := 8\<rparr>) = 8 \<and> length (replicate 256 zero_color) = 256" by simp
  note safe = raw_read_safe [OF this, of "\<lparr>rX = 0, rY = 0, rWidth = 1, rHeight = 1\<rparr>"
      "\<lparr>rbytes = [255], rend = EOF\<rparr>"]
  have "fst (Raw_Read (zero_pf\<lparr>BPP := 16\<rparr>) (replicate 256 zero_color)
      \<lparr>rX = 0, rY = 0, rWidth = 1, rHeight = 1\<rparr> \<lparr>rbytes = [0, 1], rend = EOF\<rparr>) = Panic IndexOutOfRange"
    by (simp add: Raw_Read_def Area_def bytesPerPixel_def read_full_def bindM_def raw_pixel_def
        raw_color_def raw_value_def get_le16_def zero_pf_def lift_def)
  with safe show ?thesis by simp
qed

end
