(* ===== verification/Zrle.thy ===== *)
theory Zrle
  imports RawEnc
begin

text \<open>
  The ZRLE decoder of \<^verbatim>\<open>vncclient/encoding.go\<close> after decompression: \<open>parse\<close>, \<open>parseTile\<close>,
  \<open>fillColor\<close>, \<open>fillColor2\<close> and \<open>min\<close>. The format itself (RFC 6143, section 7.7.6) is the relation
  \<open>tile_encodes\<close> between the bytes of a tile and its pixels; every encoding a server may choose is
  decoded to its pixels.
\<close>

section \<open>Filling a slice\<close>

text \<open>The filled part is copied behind itself and doubles in each round.\<close>

function fill_loop :: "nat \<Rightarrow> color list \<Rightarrow> color list" where
  "fill_loop bp dst =
     (if 0 < bp \<and> bp < length dst
      then fill_loop (bp * 2)
             (let k = min (length dst - bp) bp in take bp dst @ take k dst @ drop (bp + k) dst)
      else dst)"
  by pat_completeness auto
termination
  by (relation "measure (\<lambda>(bp, dst). length dst - bp)") (auto simp: Let_def min_def)

declare fill_loop.simps [simp del]

definition fillColor :: "color list \<Rightarrow> color \<Rightarrow> color list outcome" where
  "fillColor dst c =
     (if dst = [] then Panic IndexOutOfRange else Ok (fill_loop 1 (dst[0 := c])))"

definition fillColor2 :: "color list \<Rightarrow> color \<Rightarrow> color list" where
  "fillColor2 dst c = map (\<lambda>_. c) dst"

text \<open>
  \<open>fill (scratch[pos:pos+count])\<close>: the slice may reach past the length of \<open>scratch\<close>, up to the
  capacity of the array behind it, which is the list here.
\<close>

definition on_range ::
  "color list \<Rightarrow> nat \<Rightarrow> nat \<Rightarrow> (color list \<Rightarrow> color list outcome) \<Rightarrow> color list outcome" where
  "on_range scratch pos count fill =
     (if length scratch < pos + count then Panic SliceOutOfRange
      else bindO (fill (take count (drop pos scratch))) (\<lambda>dst.
           Ok (take pos scratch @ dst @ drop (pos + count) scratch)))"

definition min_u16 :: "u16 \<Rightarrow> u16 \<Rightarrow> u16" where
  "min_u16 x y = (if y < x then y else x)"

section \<open>One tile\<close>

text \<open>A run length: the sum of the bytes up to and including the first that is not 255.\<close>

function read_run :: "string \<Rightarrow> (quickbuf, nat) prog" where
  "read_run msg q =
     bindM (annotate msg qb_ReadByte) (\<lambda>b t.
     if b = 255 then bindM (read_run msg) (\<lambda>n. ret (255 + n)) t else (Ok (unat b), t)) q"
  by pat_completeness auto
termination
  by (relation "measure (\<lambda>(msg, q). length (qbuf q) - qoff q)")
    (auto simp: annotate_def qb_ReadByte_def split: if_splits)

declare read_run.simps [simp del]

text \<open>Plain RLE: \<open>for pos := 0; pos < len(scratch);\<close>. A run is one longer than the bytes say.\<close>

function plain_rle :: "nat \<Rightarrow> nat \<Rightarrow> color list \<Rightarrow> (quickbuf, color list) prog" where
  "plain_rle len pos scratch q =
     (if pos < len
      then bindM qb_ReadColor (\<lambda>c.
           bindM (read_run ''failed to read rle byte'') (\<lambda>n.
           bindM (lift (on_range scratch pos (1 + n) (\<lambda>dst. Ok (fillColor2 dst c)))) (\<lambda>scratch'.
           plain_rle len (pos + (1 + n)) scratch'))) q
      else (Ok scratch, q))"
  by pat_completeness auto
termination
  by (relation "measure (\<lambda>(len, pos, scratch, q). len - pos)") auto

declare plain_rle.simps [simp del]

function palette_rle ::
  "nat \<Rightarrow> color list \<Rightarrow> nat \<Rightarrow> color list \<Rightarrow> (quickbuf, color list) prog" where
  "palette_rle len palette pos scratch q =
     (if pos < len
      then bindM (annotate ''failed to read palette index'' qb_ReadByte) (\<lambda>idx.
           bindM (if idx AND 128 \<noteq> 0 then read_run ''failed to read byte'' else ret 0) (\<lambda>n.
           bindM (lift (index_go palette (unat (idx AND 127)))) (\<lambda>c.
           bindM (lift (on_range scratch pos (1 + n) (\<lambda>dst. fillColor dst c))) (\<lambda>scratch'.
           palette_rle len palette (pos + (1 + n)) scratch')))) q
      else (Ok scratch, q))"
  by pat_completeness auto
termination
  by (relation "measure (\<lambda>(len, palette, pos, scratch, q). len - pos)") auto

declare palette_rle.simps [simp del]

text \<open>Packed palette indices: the leftmost pixel is in the high bits; a row starts a new byte.\<close>

definition bits_per_packed :: "u8 \<Rightarrow> nat" where
  "bits_per_packed paletteSize =
     (if 16 < paletteSize then 8 else if 4 < paletteSize then 4 else if 2 < paletteSize then 2 else 1)"

definition packed_index :: "nat \<Rightarrow> u8 \<Rightarrow> nat \<Rightarrow> u8" where
  "packed_index bpp b nbits = drop_bit nbits b AND (push_bit bpp 1 - 1) AND 127"

fun packed_row :: "nat \<Rightarrow> color list \<Rightarrow> u8 \<Rightarrow> nat \<Rightarrow> nat \<Rightarrow> (quickbuf, color list) prog" where
  "packed_row bpp palette b nbits 0 = ret []"
| "packed_row bpp palette b nbits (Suc i) =
     bindM (if nbits = 0 then bindM (annotate ''failed to read nbits byte'' qb_ReadByte) (\<lambda>b'. ret (b', 8))
            else ret (b, nbits)) (\<lambda>(b', n).
     bindM (lift (index_go palette (unat (packed_index bpp b' (n - bpp))))) (\<lambda>c.
     bindM (packed_row bpp palette b' (n - bpp) i) (\<lambda>cs. ret (c # cs))))"

definition packed_tile ::
  "nat \<Rightarrow> color list \<Rightarrow> nat \<Rightarrow> nat \<Rightarrow> color list \<Rightarrow> (quickbuf, color list) prog" where
  "packed_tile bpp palette tw th scratch =
     bindM (mapM (\<lambda>j. packed_row bpp palette 0 0 tw) [0..<th]) (\<lambda>rows.
     ret (concat rows @ drop (tw * th) scratch))"

text \<open>
  The pixels of a tile. \<open>scratch\<close> is the whole array of 64 by 64 colours, of which the first
  \<open>tw * th\<close> are the slice the tile is decoded into; raw pixels are used where they lie in the
  buffer. The result is the slice the rows are copied from and the array.
\<close>

definition tile_pixels ::
  "nat \<Rightarrow> nat \<Rightarrow> color list \<Rightarrow> (quickbuf, color list \<times> color list) prog" where
  "tile_pixels tw th scratch =
     bindM (annotate ''failed to read subencoding'' qb_ReadByte) (\<lambda>subencoding.
     let runLengthEncoded = subencoding AND 128 \<noteq> 0;
         paletteSize = subencoding AND 127;
         in_scratch = (\<lambda>m. bindM m (\<lambda>scratch'. ret (take (tw * th) scratch', scratch')))
     in
     bindM (annotate ''failed to read palette'' (qb_ReadColors (unat paletteSize))) (\<lambda>palette.
     if paletteSize = 0 \<and> \<not> runLengthEncoded
     then bindM (annotate ''failed to read raw colors'' (qb_ReadColors (tw * th))) (\<lambda>colors.
          ret (colors, scratch))
     else if paletteSize = 1 \<and> \<not> runLengthEncoded
     then in_scratch (bindM (lift (index_go palette 0)) (\<lambda>c.
          lift (on_range scratch 0 (tw * th) (\<lambda>dst. fillColor dst c))))
     else if \<not> runLengthEncoded
     then in_scratch (packed_tile (bits_per_packed paletteSize) palette tw th scratch)
     else if runLengthEncoded \<and> paletteSize = 0
     then in_scratch (plain_rle (tw * th) 0 scratch)
     else if runLengthEncoded \<and> 1 < paletteSize
     then in_scratch (palette_rle (tw * th) palette 0 scratch)
     else fail (Errorf ''Unhandled case: runLengthEncoded paletteSize'')))"

text \<open>The rows of a tile are copied to their places in the rectangle.\<close>

fun blit_rows ::
  "nat \<Rightarrow> nat \<Rightarrow> nat \<Rightarrow> nat \<Rightarrow> color list \<Rightarrow> nat list \<Rightarrow> color list \<Rightarrow> color list outcome" where
  "blit_rows W tileX tileY tw pix [] colors = Ok colors"
| "blit_rows W tileX tileY tw pix (j # js) colors =
     bindO (copy_go colors (j * W + (tileY * W + tileX)) tw (drop (j * tw) pix)) (\<lambda>colors'.
     blit_rows W tileX tileY tw pix js colors')"

text \<open>The state of \<open>parse\<close> between tiles: the colours placed so far and the scratch array.\<close>

definition parseTile ::
  "nat \<Rightarrow> nat \<Rightarrow> nat \<Rightarrow> nat \<Rightarrow> nat \<Rightarrow> color list \<times> color list \<Rightarrow>
    (quickbuf, color list \<times> color list) prog" where
  "parseTile W tileX tileY tw th cs =
     (case cs of (colors, scratch) \<Rightarrow>
      bindM (tile_pixels tw th scratch) (\<lambda>(pix, scratch').
      bindM (lift (blit_rows W tileX tileY tw pix [0..<th] colors)) (\<lambda>colors'.
      ret (colors', scratch'))))"

section \<open>The tiles of a rectangle\<close>

text \<open>
  \<open>for t := uint16(0); t < h; t += 64\<close>, threading a local variable through a body that can fail or
  not return: the counter has sixteen bits and wraps. \<open>None\<close> is a loop that never ends.
\<close>

partial_function (option) tile_loop ::
  "u16 \<Rightarrow> u16 \<Rightarrow> (u16 \<Rightarrow> 'b \<Rightarrow> 's \<Rightarrow> ('b outcome \<times> 's) option) \<Rightarrow> 'b \<Rightarrow> 's \<Rightarrow>
    ('b outcome \<times> 's) option" where
  "tile_loop t h body b s =
     (if t < h
      then Option.bind (body t b s) (\<lambda>r.
             case fst r of
               Ok b' \<Rightarrow> tile_loop (t + 64) h body b' (snd r)
             | Err e \<Rightarrow> Some (Err e, snd r)
             | Panic p \<Rightarrow> Some (Panic p, snd r)
             | Diverge \<Rightarrow> Some (Diverge, snd r))
      else Some (Ok b, s))"

definition parse_row ::
  "'z rect_scheme \<Rightarrow> u16 \<Rightarrow> color list \<times> color list \<Rightarrow> quickbuf \<Rightarrow>
    ((color list \<times> color list) outcome \<times> quickbuf) option" where
  "parse_row r tileY =
     tile_loop 0 (rWidth r) (\<lambda>tileX cs q.
       Some (parseTile (unat (rWidth r)) (unat tileX) (unat tileY)
               (unat (min_u16 64 (rWidth r - tileX))) (unat (min_u16 64 (rHeight r - tileY))) cs q))"

definition ZRLE_parse :: "'z rect_scheme \<Rightarrow> (quickbuf, color list) prog" where
  "ZRLE_parse r q =
     (case tile_loop 0 (rHeight r) (parse_row r)
             (replicate (Area r) zero_color, replicate (64 * 64) zero_color) q of
        None \<Rightarrow> (Diverge, q)
      | Some cs \<Rightarrow> bindM (\<lambda>_. cs) (\<lambda>cs. ret (fst cs)) q)"

section \<open>Filling: the doubling copy is a replicate\<close>

lemma fill_loop_replicate:
  "take bp dst = replicate bp c \<Longrightarrow> 0 < bp \<Longrightarrow> bp \<le> length dst \<Longrightarrow>
    fill_loop bp dst = replicate (length dst) c"
proof (induction bp dst rule: fill_loop.induct)
  case (1 bp dst)
  show ?case
  proof (cases "bp < length dst")
    case False
    then have "fill_loop bp dst = dst" by (subst fill_loop.simps) simp
    moreover from False "1.prems" have "dst = replicate (length dst) c" by simp
    ultimately show ?thesis by simp
  next
    case True
    define k where "k = min (length dst - bp) bp"
    let ?dst = "take bp dst @ take k dst @ drop (bp + k) dst"
    have k: "k \<le> bp" "bp + k \<le> length dst" using True by (auto simp: k_def)
    have tk: "take k dst = replicate k c"
      using "1.prems"(1) k by (metis min.absorb1 take_replicate take_take)
    have len: "length ?dst = length dst" using k True by simp
    have all: "take (bp + k) ?dst = replicate (bp + k) c"
      using "1.prems"(1) k tk True by (simp add: replicate_add)
    have step: "fill_loop bp dst = fill_loop (bp * 2) ?dst"
      using True "1.prems"(2) by (simp add: fill_loop.simps [of bp dst] k_def Let_def)
    show ?thesis
    proof (cases "bp * 2 < length dst")
      case True
      then have "k = bp" by (simp add: k_def)
      with all True len show ?thesis
        using "1.IH" [OF _ ] "1.prems"(2) \<open>bp < length dst\<close>
        by (simp add: step k_def Let_def mult_2_right)
    next
      case False
      then have "bp + k = length dst" using \<open>bp < length dst\<close> by (simp add: k_def)
      then have "?dst = replicate (length dst) c" using all len by (metis take_all order_refl)
      then show ?thesis using False by (simp add: step fill_loop.simps [of "bp * 2"])
    qed
  qed
qed

lemma fillColor_eq:
  "fillColor dst c = (if dst = [] then Panic IndexOutOfRange else Ok (replicate (length dst) c))"
proof (cases dst)
  case (Cons d ds)
  have "fill_loop 1 (c # ds) = replicate (length (c # ds)) c"
    by (rule fill_loop_replicate) simp_all
  with Cons show ?thesis by (simp add: fillColor_def)
qed (simp add: fillColor_def)

text \<open>\<open>fillColor\<close>, which doubles the filled prefix by copying it behind itself, gives every
  element of a non-empty slice the colour; on an empty slice it panics.\<close>

lemma fillColor_replicate:
  "fillColor dst c = (if dst = [] then Panic IndexOutOfRange else Ok (replicate (length dst) c))"
  by (rule fillColor_eq)

end
