(* ===== verification/Grid.thy ===== *)
theory Grid
  imports Prelude
begin

text \<open>
  Pictures as functions of row and column and their row by row listing, the form in which the
  decoders and the screens keep their pixels.
\<close>

definition grid :: "nat \<Rightarrow> nat \<Rightarrow> (nat \<Rightarrow> nat \<Rightarrow> 'a) \<Rightarrow> 'a list" where
  "grid w h pic = concat (map (\<lambda>y. map (pic y) [0..<w]) [0..<h])"

lemma length_grid [simp]: "length (grid w h pic) = h * w"
  by (induction h) (simp_all add: grid_def)

lemma grid_Suc: "grid w (Suc h) pic = grid w h pic @ map (pic h) [0..<w]"
  by (simp add: grid_def)

lemma cell_less: "y < h \<Longrightarrow> x < w \<Longrightarrow> y * w + x < h * w" for y :: nat
proof -
  assume "y < h" and "x < w"
  then have "Suc y * w \<le> h * w" by (intro mult_le_mono1) simp
  with \<open>x < w\<close> show ?thesis by simp
qed

lemma grid_nth: "y < h \<Longrightarrow> x < w \<Longrightarrow> grid w h pic ! (y * w + x) = pic y x"
proof (induction h)
  case (Suc h)
  show ?case
  proof (cases "y = h")
    case True
    with Suc.prems show ?thesis by (simp add: grid_Suc nth_append)
  next
    case False
    with Suc show ?thesis by (simp add: grid_Suc nth_append cell_less)
  qed
qed simp

lemma grid_eqI:
  assumes "length cs = h * w" and "\<And>y x. y < h \<Longrightarrow> x < w \<Longrightarrow> cs ! (y * w + x) = pic y x"
  shows "cs = grid w h pic"
proof (rule nth_equalityI)
  fix i assume i: "i < length cs"
  with assms(1) have w: "0 < w" by (cases w) simp_all
  with i assms(1) have d: "i div w < h" "i mod w < w" by (simp_all add: less_mult_imp_div_less)
  from assms(2) [OF d] grid_nth [OF d, of pic] show "cs ! i = grid w h pic ! i" by simp
qed (simp add: assms(1))

lemma cell_between:
  assumes "x < W" and "b \<le> W"
  shows "y0 * W + a \<le> y * W + x \<and> y * W + x < y0 * W + b \<longleftrightarrow> y = y0 \<and> a \<le> x \<and> x < (b :: nat)"
proof (cases y y0 rule: linorder_cases)
  case less
  then have "Suc y * W \<le> y0 * W" by (intro mult_le_mono1) simp
  with less assms show ?thesis by auto
next
  case greater
  then have "Suc y0 * W \<le> y * W" by (intro mult_le_mono1) simp
  with greater assms show ?thesis by auto
qed auto

lemma nth_splice:
  "pos + n \<le> length xs \<Longrightarrow> n \<le> length src \<Longrightarrow> i < length xs \<Longrightarrow>
    (take pos xs @ take n src @ drop (pos + n) xs) ! i =
      (if pos \<le> i \<and> i < pos + n then src ! (i - pos) else xs ! i)"
  by (auto simp: nth_append min_def)

end
