(* ===== verification/ZrleFormat.thy ===== *)
theory ZrleFormat
  imports Zrle Grid
begin

text \<open>
  The ZRLE format as the protocol describes it and the correctness of the decoder: whichever of the
  five tile encodings a server chooses for each tile of a picture, parsing the tiles gives the
  picture and consumes exactly their bytes.
\<close>

section \<open>Tiles on the wire\<close>

definition run_bytes :: "nat \<Rightarrow> u8 list" where
  "run_bytes l = replicate ((l - 1) div 255) 255 @ [of_nat ((l - 1) mod 255)]"

definition color_run :: "color \<times> nat \<Rightarrow> u8 list" where
  "color_run cl = color_bytes (fst cl) @ run_bytes (snd cl)"

text \<open>A run of a palette colour: its index, its length, and whether the length is written.\<close>

definition index_run :: "nat \<times> nat \<times> bool \<Rightarrow> u8 list" where
  "index_run ilw = (case ilw of (i, l, w) \<Rightarrow> if w then of_nat (128 + i) # run_bytes l else [of_nat i])"

definition index_run_ok :: "nat \<Rightarrow> nat \<times> nat \<times> bool \<Rightarrow> bool" where
  "index_run_ok n ilw = (case ilw of (i, l, w) \<Rightarrow> i < n \<and> 1 \<le> l \<and> (\<not> w \<longrightarrow> l = 1))"

text \<open>The \<open>i\<close>-th bit field of a packed row.\<close>

definition row_field :: "nat \<Rightarrow> u8 list \<Rightarrow> nat \<Rightarrow> nat" where
  "row_field bpp bs i = (unat (bs ! (i * bpp div 8)) div 2 ^ (8 - bpp - i * bpp mod 8)) mod 2 ^ bpp"

definition field_width :: "nat \<Rightarrow> nat" where
  "field_width n = (if 16 < n then 8 else if 4 < n then 4 else if 2 < n then 2 else 1)"

inductive tile_encodes :: "nat \<Rightarrow> nat \<Rightarrow> u8 list \<Rightarrow> color list \<Rightarrow> bool" for tw th where
  Raw: "length px = tw * th \<Longrightarrow> tile_encodes tw th (0 # colors_bytes px) px"
| Solid: "tile_encodes tw th (1 # color_bytes c) (replicate (tw * th) c)"
| Packed: "2 \<le> length pal \<Longrightarrow> length pal \<le> 127 \<Longrightarrow> bpp = field_width (length pal) \<Longrightarrow>
    length rows = th \<Longrightarrow>
    (\<forall>bs \<in> set rows. length bs = (tw * bpp + 7) div 8 \<and> (\<forall>i < tw. row_field bpp bs i < length pal)) \<Longrightarrow>
    tile_encodes tw th (of_nat (length pal) # colors_bytes pal @ concat rows)
      (concat (map (\<lambda>bs. map (\<lambda>i. pal ! row_field bpp bs i) [0..<tw]) rows))"
| PlainRLE: "(\<forall>cl \<in> set runs. 1 \<le> snd cl) \<Longrightarrow> sum_list (map snd runs) = tw * th \<Longrightarrow>
    tile_encodes tw th (128 # concat (map color_run runs))
      (concat (map (\<lambda>cl. replicate (snd cl) (fst cl)) runs))"
| PaletteRLE: "2 \<le> length pal \<Longrightarrow> length pal \<le> 127 \<Longrightarrow>
    (\<forall>r \<in> set runs. index_run_ok (length pal) r) \<Longrightarrow>
    sum_list (map (\<lambda>r. fst (snd r)) runs) = tw * th \<Longrightarrow>
    tile_encodes tw th (of_nat (128 + length pal) # colors_bytes pal @ concat (map index_run runs))
      (concat (map (\<lambda>r. replicate (fst (snd r)) (pal ! fst r)) runs))"

section \<open>Runs\<close>

lemma annotate_ok [wire_simps]: "m s = (Ok a, s') \<Longrightarrow> annotate msg m s = (Ok a, s')"
  by (simp add: annotate_def)

lemma unat_of_nat_u8: "n < 256 \<Longrightarrow> unat (of_nat n :: u8) = n"
  by (simp add: unsigned_of_nat take_bit_nat_eq_self)

lemma of_nat_u8_eq: "m < 256 \<Longrightarrow> n < 256 \<Longrightarrow> (of_nat m :: u8) = of_nat n \<longleftrightarrow> m = n"
  by (metis unat_of_nat_u8)

lemma read_run_bytes:
  "m < 255 \<Longrightarrow> read_run msg (qb_at d (replicate k 255 @ of_nat m # r)) =
    (Ok (255 * k + m), qb_at (d @ replicate k 255 @ [of_nat m]) r)"
proof (induction k arbitrary: d)
  case 0
  then have "(of_nat m :: u8) \<noteq> 255"
    using of_nat_u8_eq [of m 255] by simp
  then show ?case using 0
    by (simp add: read_run.simps bindM_def annotate_def qb_ReadByte_at unat_of_nat_u8)
next
  case (Suc k)
  show ?case using Suc.IH [of "d @ [255]"] Suc.prems
    by (subst read_run.simps) (simp add: bindM_def annotate_def qb_ReadByte_at)
qed

lemma read_run_run_bytes:
  "1 \<le> l \<Longrightarrow> read_run msg (qb_at d (run_bytes l @ r)) = (Ok (l - 1), qb_at (d @ run_bytes l) r)"
  using read_run_bytes [of "(l - 1) mod 255" msg d "(l - 1) div 255" r]
  by (simp add: run_bytes_def)

section \<open>Run-length encoded tiles\<close>

lemma on_range_fill:
  assumes "pos + n \<le> length scratch" and "\<And>dst. length dst = n \<Longrightarrow> fill dst = Ok (replicate n c)"
  shows "on_range scratch pos n fill = Ok (take pos scratch @ replicate n c @ drop (pos + n) scratch)"
  using assms by (simp add: on_range_def)

lemma plain_rle_runs:
  assumes "\<forall>cl \<in> set runs. 1 \<le> snd cl" and "pos + sum_list (map snd runs) = len"
    and "len \<le> length scratch"
  shows "plain_rle len pos scratch (qb_at d (concat (map color_run runs) @ r)) =
    (Ok (take pos scratch @ concat (map (\<lambda>cl. replicate (snd cl) (fst cl)) runs) @ drop len scratch),
     qb_at (d @ concat (map color_run runs)) r)"
  using assms
proof (induction runs arbitrary: pos scratch d)
  case Nil
  then show ?case by (simp add: plain_rle.simps)
next
  case (Cons cl runs)
  obtain c l where cl: "cl = (c, l)" by (cases cl)
  with Cons.prems have l: "1 \<le> l" "pos < len" "pos + l \<le> length scratch" "Suc (l - 1) = l" by auto
  let ?s = "take pos scratch @ replicate l c @ drop (pos + l) scratch"
  let ?rest = "concat (map color_run runs) @ r"
  have fill: "on_range scratch pos (Suc (l - 1)) (\<lambda>dst. Ok (fillColor2 dst c)) = Ok ?s"
    using l by (simp only: l(4)) (rule on_range_fill, simp_all add: fillColor2_def map_replicate_const)
  have run: "plain_rle len pos scratch (qb_at d (color_run cl @ ?rest)) =
      plain_rle len (pos + l) ?s (qb_at (d @ color_run cl) ?rest)"
    using l fill
    by (subst plain_rle.simps)
      (simp add: bindM_def cl color_run_def qb_ReadColor_at [of d c] read_run_run_bytes del: color_bytes.simps)
  have "plain_rle len (pos + l) ?s (qb_at (d @ color_run cl) ?rest) =
      (Ok (take (pos + l) ?s @ concat (map (\<lambda>cl. replicate (snd cl) (fst cl)) runs) @ drop len ?s),
       qb_at ((d @ color_run cl) @ concat (map color_run runs)) r)"
    using Cons.prems cl l by (intro Cons.IH) auto
  moreover have "take (pos + l) ?s = take pos scratch @ replicate l c" using l by simp
  moreover have "drop len ?s = drop len scratch" using Cons.prems cl l by (auto simp: drop_append)
  ultimately show ?case
    using run by (simp add: cl)
qed

lemma index_bits:
  assumes "i < 128"
  shows "(of_nat (128 + i) :: u8) AND 128 \<noteq> 0" "(of_nat (128 + i) :: u8) AND 127 = of_nat i"
    "(of_nat i :: u8) AND 128 = 0" "(of_nat i :: u8) AND 127 = of_nat i"
proof -
  have lt: "take_bit 7 (of_nat i :: u8) = of_nat i"
    using assms by (simp add: take_bit_of_nat take_bit_nat_eq_self)
  have m: "(127 :: u8) = mask 7" by (simp add: mask_eq_exp_minus_1)
  then show 4: "(of_nat i :: u8) AND 127 = of_nat i"
    by (metis lt take_bit_eq_mask)
  have "(of_nat i :: u8) AND 128 = (of_nat i AND 127) AND 128" by (simp add: 4)
  also have "\<dots> = of_nat i AND (127 AND 128)" by (simp only: and.assoc)
  finally show 3: "(of_nat i :: u8) AND 128 = 0" by simp
  have or: "(of_nat (128 + i) :: u8) = 128 OR of_nat i"
    using 3 by (simp add: disjunctive_add_eq_or and.commute)
  show "(of_nat (128 + i) :: u8) AND 127 = of_nat i"
    unfolding or using 4 by (simp add: bit.conj_disj_distrib2)
  show "(of_nat (128 + i) :: u8) AND 128 \<noteq> 0"
    unfolding or using 3 by (simp add: bit.conj_disj_distrib2)
qed

lemma palette_rle_runs:
  assumes "\<forall>x \<in> set runs. index_run_ok (length pal) x" and "length pal \<le> 127"
    and "pos + sum_list (map (\<lambda>x. fst (snd x)) runs) = len" and "len \<le> length scratch"
  shows "palette_rle len pal pos scratch (qb_at d (concat (map index_run runs) @ r)) =
    (Ok (take pos scratch @ concat (map (\<lambda>x. replicate (fst (snd x)) (pal ! fst x)) runs) @ drop len scratch),
     qb_at (d @ concat (map index_run runs)) r)"
  using assms
proof (induction runs arbitrary: pos scratch d)
  case Nil
  then show ?case by (simp add: palette_rle.simps)
next
  case (Cons x runs)
  obtain i l w where x: "x = (i, l, w)" by (cases x) auto
  with Cons.prems have l: "i < length pal" "1 \<le> l" "\<not> w \<longrightarrow> l = 1" "pos < len"
      "pos + l \<le> length scratch" "Suc (l - 1) = l"
    by (auto simp: index_run_ok_def)
  then have i: "i < 128" using Cons.prems by simp
  let ?s = "take pos scratch @ replicate l (pal ! i) @ drop (pos + l) scratch"
  let ?rest = "concat (map index_run runs) @ r"
  have fill: "on_range scratch pos l (\<lambda>dst. fillColor dst (pal ! i)) = Ok ?s"
    using l by (intro on_range_fill) (auto simp: fillColor_eq)
  have ui: "unat (of_nat i :: u8) = i" using i by (simp add: unat_of_nat_u8)
  have run: "palette_rle len pal pos scratch (qb_at d (index_run x @ ?rest)) =
      palette_rle len pal (pos + l) ?s (qb_at (d @ index_run x) ?rest)"
  proof (cases w)
    case True
    show ?thesis using l fill index_bits [OF i] True
      by (subst palette_rle.simps)
        (simp add: x index_run_def bindM_def annotate_def qb_ReadByte_at read_run_run_bytes ui
          del: of_nat_add)
  next
    case False
    with l have "l = 1" by simp
    then show ?thesis using l fill index_bits [OF i] False
      by (subst palette_rle.simps)
        (simp add: x index_run_def bindM_def annotate_def qb_ReadByte_at ui)
  qed
  have "palette_rle len pal (pos + l) ?s (qb_at (d @ index_run x) ?rest) =
      (Ok (take (pos + l) ?s @ concat (map (\<lambda>x. replicate (fst (snd x)) (pal ! fst x)) runs) @ drop len ?s),
       qb_at ((d @ index_run x) @ concat (map index_run runs)) r)"
    using Cons.prems x l by (intro Cons.IH) auto
  moreover have "take (pos + l) ?s = take pos scratch @ replicate l (pal ! i)" using l by simp
  moreover have "drop len ?s = drop len scratch" using Cons.prems x l by (auto simp: drop_append)
  ultimately show ?case using run by (simp add: x)
qed

section \<open>Packed palette tiles\<close>

lemma unat_packed_index:
  assumes "bpp \<le> 8" and "(unat b div 2 ^ m) mod 2 ^ bpp < 128"
  shows "unat (packed_index bpp b m) = (unat b div 2 ^ m) mod 2 ^ bpp"
proof -
  have "(127 :: u8) = mask 7" and "(push_bit bpp 1 - 1 :: u8) = mask bpp"
    by (simp_all add: mask_eq_exp_minus_1 push_bit_eq_mult)
  then have "packed_index bpp b m = take_bit 7 (take_bit bpp (drop_bit m b))"
    by (simp only: packed_index_def take_bit_eq_mask and.assoc)
  then have "packed_index bpp b m = take_bit (min 7 bpp) (drop_bit m b)"
    by simp
  then have u: "unat (packed_index bpp b m) = (unat b div 2 ^ m) mod 2 ^ min 7 bpp"
    using unsigned_less [of b, where 'a = nat]
    by (simp only: unsigned_take_bit_eq unsigned_drop_bit_eq)
      (simp add: take_bit_eq_mod drop_bit_eq_div)
  show ?thesis
  proof (cases "bpp = 8")
    case True
    have "x mod 256 < 128 \<Longrightarrow> x mod 128 = x mod 256" for x :: nat
      using mod_mod_cancel [of 128 256 x] by simp
    with True u assms show ?thesis by simp
  qed (use u assms in simp)
qed

text \<open>After \<open>i\<close> fields of a row, \<open>(i * bpp + 7) div 8\<close> of its bytes are read and \<open>bits_left\<close> bits
  of the last one are unused.\<close>

definition bits_left :: "nat \<Rightarrow> nat \<Rightarrow> nat" where
  "bits_left bpp i = (i * bpp + 7) div 8 * 8 - i * bpp"

lemma bits_left_step:
  assumes "bpp \<in> {1, 2, 4, 8}"
  shows "bits_left bpp i = 0 \<Longrightarrow> (i * bpp + 7) div 8 = i * bpp div 8"
    and "bits_left bpp i \<noteq> 0 \<Longrightarrow> (i * bpp + 7) div 8 = Suc (i * bpp div 8)"
    and "(Suc i * bpp + 7) div 8 = Suc (i * bpp div 8)"
    and "bits_left bpp i = 0 \<Longrightarrow> 8 - bpp = bits_left bpp (Suc i)"
    and "bits_left bpp i \<noteq> 0 \<Longrightarrow> bits_left bpp i - bpp = bits_left bpp (Suc i)"
    and "8 - bpp - i * bpp mod 8 = bits_left bpp (Suc i)"
    and "bits_left bpp (Suc i) \<noteq> 0 \<Longrightarrow> Suc i * bpp div 8 = i * bpp div 8"
proof -
  define q x where "q = i * bpp div 8" and "x = i * bpp mod 8"
  have ib: "i * bpp = 8 * q + x" and x8: "x < 8" by (simp_all add: q_def x_def)
  have "bpp dvd 8" and b0: "0 < bpp" using assms by auto
  then have "bpp dvd x" by (simp add: x_def dvd_mod)
  with \<open>bpp dvd 8\<close> obtain t e where te: "x = bpp * t" "8 = bpp * e" unfolding dvd_def by blast
  with x8 b0 have "Suc t \<le> e" by simp
  then have "bpp * Suc t \<le> bpp * e" by (rule mult_le_mono2)
  with te have xb: "x + bpp \<le> 8" by simp
  have s: "Suc i * bpp = 8 * q + (x + bpp)" using ib by simp
  have d: "(i * bpp + 7) div 8 = (if x = 0 then q else Suc q)" unfolding ib using x8 by auto
  have d': "(Suc i * bpp + 7) div 8 = Suc q" unfolding s using xb b0 by auto
  have b: "bits_left bpp i = (if x = 0 then 0 else 8 - x)"
    unfolding bits_left_def d unfolding ib by auto
  have b': "bits_left bpp (Suc i) = 8 - (x + bpp)"
    unfolding bits_left_def d' unfolding s by simp
  have x: "x \<noteq> 8" using x8 by simp
  show "bits_left bpp i = 0 \<Longrightarrow> (i * bpp + 7) div 8 = i * bpp div 8"
    using b x8 d by (simp add: q_def [symmetric] split: if_splits)
  show "bits_left bpp i \<noteq> 0 \<Longrightarrow> (i * bpp + 7) div 8 = Suc (i * bpp div 8)"
    using b d by (simp add: q_def [symmetric] split: if_splits)
  show "(Suc i * bpp + 7) div 8 = Suc (i * bpp div 8)" using d' by (simp add: q_def)
  show "bits_left bpp i = 0 \<Longrightarrow> 8 - bpp = bits_left bpp (Suc i)"
    using b b' x8 by (simp split: if_splits)
  show "bits_left bpp i \<noteq> 0 \<Longrightarrow> bits_left bpp i - bpp = bits_left bpp (Suc i)"
    using b b' by (simp split: if_splits)
  show "8 - bpp - i * bpp mod 8 = bits_left bpp (Suc i)"
    using b' by (simp add: x_def [symmetric])
  show "bits_left bpp (Suc i) \<noteq> 0 \<Longrightarrow> Suc i * bpp div 8 = i * bpp div 8"
    unfolding b' s q_def [symmetric] by simp
qed

lemma packed_row_fields:
  assumes "bpp \<in> {1, 2, 4, 8}" and "length bs = ((i + n) * bpp + 7) div 8"
    and "\<forall>j. i \<le> j \<and> j < i + n \<longrightarrow> row_field bpp bs j < length pal" and "length pal \<le> 127"
    and "bits_left bpp i \<noteq> 0 \<longrightarrow> b = bs ! (i * bpp div 8)"
  shows "packed_row bpp pal b (bits_left bpp i) n (qb_at d (drop ((i * bpp + 7) div 8) bs @ r)) =
    (Ok (map (\<lambda>i. pal ! row_field bpp bs i) [i..<i + n]),
     qb_at (d @ drop ((i * bpp + 7) div 8) bs) r)"
  using assms
proof (induction n arbitrary: i b d)
  case 0
  then show ?case by simp
next
  case (Suc n)
  let ?k = "i * bpp div 8"
  let ?m = "8 - bpp - i * bpp mod 8"
  note st = bits_left_step [OF Suc.prems(1), of i]
  have f: "row_field bpp bs i < length pal" using Suc.prems(3) by simp
  have idx: "unat (packed_index bpp (bs ! ?k) ?m) = row_field bpp bs i"
    using unat_packed_index [of bpp "bs ! ?k" ?m] f Suc.prems(1,4) by (auto simp: row_field_def)
  have m: "?m = bits_left bpp (Suc i)" by (rule st(6))
  note idx' = idx [unfolded m]
  have k: "(Suc i * bpp + 7) div 8 = Suc ?k" by (rule st(3))
  have IH: "packed_row bpp pal (bs ! ?k) (bits_left bpp (Suc i)) n
        (qb_at d' (drop (Suc ?k) bs @ r)) =
      (Ok (map (\<lambda>i. pal ! row_field bpp bs i) [Suc i..<Suc i + n]), qb_at (d' @ drop (Suc ?k) bs) r)" for d'
    using Suc.IH [of "Suc i" "bs ! ?k" d'] Suc.prems st(7) by (simp only: k) simp
  have up: "[i..<i + Suc n] = i # [Suc i..<Suc i + n]" by (simp add: upt_conv_Cons)
  show ?case
  proof (cases "bits_left bpp i = 0")
    case True
    have z: "(i * bpp + 7) div 8 = ?k" "8 - bpp = bits_left bpp (Suc i)"
      using st(1,4) True by blast+
    have "((i + Suc n) * bpp + 7) div 8 \<ge> (Suc i * bpp + 7) div 8" by (intro div_le_mono) simp
    then have "?k < length bs" using Suc.prems(2) k by simp
    then have dr: "drop ?k bs = bs ! ?k # drop (Suc ?k) bs" by (simp add: Cons_nth_drop_Suc)
    show ?thesis
      unfolding up z(1) dr packed_row.simps True
      using f by (simp add: bindM_def annotate_def qb_ReadByte_at z(2) idx' IH del: upt_Suc)
  next
    case False
    have z: "(i * bpp + 7) div 8 = Suc ?k" "bits_left bpp i - bpp = bits_left bpp (Suc i)"
      using st(2,5) False by blast+
    show ?thesis
      unfolding up z(1) packed_row.simps
      using f False Suc.prems(5)
      by (simp add: bindM_def z(2) idx' IH del: upt_Suc)
  qed
qed

lemma packed_rows:
  assumes "bpp \<in> {1, 2, 4, 8}" and "length pal \<le> 127"
    and "\<forall>bs \<in> set rows. length bs = (tw * bpp + 7) div 8 \<and> (\<forall>i < tw. row_field bpp bs i < length pal)"
    and "length js = length rows"
  shows "mapM (\<lambda>j. packed_row bpp pal 0 0 tw) js (qb_at d (concat rows @ r)) =
    (Ok (map (\<lambda>bs. map (\<lambda>i. pal ! row_field bpp bs i) [0..<tw]) rows), qb_at (d @ concat rows) r)"
  using assms(3,4)
proof (induction rows arbitrary: js d)
  case Nil
  then show ?case by simp
next
  case (Cons bs rows)
  then obtain j js' where js: "js = j # js'" "length js' = length rows" by (cases js) auto
  have z: "bits_left bpp 0 = 0" by (simp add: bits_left_def)
  have "packed_row bpp pal 0 0 tw (qb_at d (bs @ (concat rows @ r))) =
      (Ok (map (\<lambda>i. pal ! row_field bpp bs i) [0..<tw]), qb_at (d @ bs) (concat rows @ r))"
    using packed_row_fields [of bpp bs 0 tw pal 0 d "concat rows @ r"] assms(1,2) Cons.prems(1)
    by (simp add: z)
  with Cons js show ?case by (simp add: bindM_def)
qed

section \<open>A tile\<close>

lemma length_tile_encodes: "tile_encodes tw th bs px \<Longrightarrow> length px = tw * th"
proof (induction rule: tile_encodes.induct)
  case (Packed pal bpp rows)
  have "length (concat (map (\<lambda>bs. map (\<lambda>i. pal ! row_field bpp bs i) [0..<tw]) rows)) =
      length rows * tw"
    by (induction rows) simp_all
  with Packed show ?case by (simp add: mult.commute)
qed (simp_all add: length_concat comp_def)

lemma tile_encodes_nonempty: "tile_encodes tw th bs px \<Longrightarrow> bs \<noteq> []"
  by (cases rule: tile_encodes.cases) auto

lemma field_width_cases: "field_width n \<in> {1, 2, 4, 8}"
  by (simp add: field_width_def)

lemma small_u8:
  assumes "n < 128"
  shows "(of_nat n :: u8) = 0 \<longleftrightarrow> n = 0" "(of_nat n :: u8) = 1 \<longleftrightarrow> n = 1"
    "1 < (of_nat n :: u8) \<longleftrightarrow> 1 < n" "bits_per_packed (of_nat n) = field_width n"
    "unat (of_nat n :: u8) = n"
proof -
  show u: "unat (of_nat n :: u8) = n" using assms by (simp add: unat_of_nat_u8)
  show "(of_nat n :: u8) = 0 \<longleftrightarrow> n = 0" "(of_nat n :: u8) = 1 \<longleftrightarrow> n = 1"
    using of_nat_u8_eq [of n 0] of_nat_u8_eq [of n 1] assms by simp_all
  show "1 < (of_nat n :: u8) \<longleftrightarrow> 1 < n" "bits_per_packed (of_nat n) = field_width n"
    by (simp_all add: bits_per_packed_def field_width_def word_less_nat_alt u)
qed

text \<open>The header of a tile: its subencoding byte and its palette.\<close>

lemma tile_header:
  assumes "n < 128" and "length pal = n" and "colors_bytes pal @ r \<noteq> []"
  shows "tile_pixels tw th scratch (qb_at d (of_nat n # colors_bytes pal @ r)) =
    (if n = 0
     then bindM (annotate ''failed to read raw colors'' (qb_ReadColors (tw * th))) (\<lambda>colors.
          ret (colors, scratch))
     else bindM (if n = 1
            then bindM (lift (index_go pal 0)) (\<lambda>c.
                 lift (on_range scratch 0 (tw * th) (\<lambda>dst. fillColor dst c)))
            else packed_tile (field_width n) pal tw th scratch)
          (\<lambda>scratch'. ret (take (tw * th) scratch', scratch')))
      (qb_at (d @ of_nat n # colors_bytes pal) r)"
  using assms small_u8 [OF assms(1)] index_bits [OF assms(1)] qb_ReadColors_at [of pal n r]
  by (simp add: tile_pixels_def bindM_def [of "annotate _ qb_ReadByte"] annotate_ok qb_ReadByte_at
      Let_def bindM_def [of "annotate _ (qb_ReadColors _)"] del: of_nat_add)

lemma tile_header_rle:
  assumes "n < 128" and "length pal = n" and "colors_bytes pal @ r \<noteq> []"
  shows "tile_pixels tw th scratch (qb_at d (of_nat (128 + n) # colors_bytes pal @ r)) =
    (if n = 1 then fail (Errorf ''Unhandled case: runLengthEncoded paletteSize'')
     else bindM (if n = 0 then plain_rle (tw * th) 0 scratch else palette_rle (tw * th) pal 0 scratch)
          (\<lambda>scratch'. ret (take (tw * th) scratch', scratch')))
      (qb_at (d @ of_nat (128 + n) # colors_bytes pal) r)"
  using assms small_u8 [OF assms(1)] index_bits [OF assms(1)] qb_ReadColors_at [of pal n r]
  by (simp add: tile_pixels_def bindM_def [of "annotate _ qb_ReadByte"] annotate_ok qb_ReadByte_at
      Let_def bindM_def [of "annotate _ (qb_ReadColors _)"] del: of_nat_add)

lemma tile_pixels_encodes:
  assumes "tile_encodes tw th bs px" and "1 \<le> tw * th" and "tw * th \<le> length scratch"
  obtains scratch' where "length scratch' = length scratch"
    and "tile_pixels tw th scratch (qb_at d (bs @ r)) = (Ok (px, scratch'), qb_at (d @ bs) r)"
proof -
  have "\<exists>scratch'. length scratch' = length scratch \<and>
      tile_pixels tw th scratch (qb_at d (bs @ r)) = (Ok (px, scratch'), qb_at (d @ bs) r)"
    using assms
  proof (induction rule: tile_encodes.induct)
    case (Raw px)
    then have ne: "colors_bytes px @ r \<noteq> []" by (cases px) auto
    show ?case
      using tile_header [of 0 "[]" "colors_bytes px @ r" tw th scratch d] Raw ne
      by (simp add: bindM_def annotate_ok qb_ReadColors_at)
  next
    case (Solid c)
    then have "scratch \<noteq> []" by auto
    then show ?case
      using tile_header [of 1 "[c]" r tw th scratch d] Solid
      by (simp add: bindM_def on_range_def fillColor_eq)
  next
    case (Packed pal bpp rows)
    let ?px = "concat (map (\<lambda>bs. map (\<lambda>i. pal ! row_field bpp bs i) [0..<tw]) rows)"
    have "tile_encodes tw th (of_nat (length pal) # colors_bytes pal @ concat rows) ?px"
      using Packed by (intro tile_encodes.Packed) auto
    then have len: "length ?px = tw * th" by (rule length_tile_encodes)
    have rows: "mapM (\<lambda>j. packed_row bpp pal 0 0 tw) [0..<th] (qb_at d' (concat rows @ r)) =
        (Ok (map (\<lambda>bs. map (\<lambda>i. pal ! row_field bpp bs i) [0..<tw]) rows), qb_at (d' @ concat rows) r)" for d'
      using Packed field_width_cases by (intro packed_rows) auto
    have pal: "pal \<noteq> []" "length pal \<noteq> 1" using Packed(1) by auto
    then have ne: "colors_bytes pal @ concat rows @ r \<noteq> []" by (cases pal) auto
    show ?case
      using tile_header [OF _ refl ne, of tw th scratch d] pal Packed(2) rows len Packed.prems
      unfolding Packed(3) [symmetric]
      by (simp add: packed_tile_def bindM_def del: of_nat_add)
  next
    case (PlainRLE runs)
    then have "runs \<noteq> []" by auto
    then have ne: "colors_bytes [] @ concat (map color_run runs) @ r \<noteq> []"
      by (cases runs) (auto simp: color_run_def)
    let ?px = "concat (map (\<lambda>cl. replicate (snd cl) (fst cl)) runs)"
    have len: "length ?px = tw * th"
      by (rule length_tile_encodes [OF tile_encodes.PlainRLE]) (use PlainRLE in auto)
    have "plain_rle (tw * th) 0 scratch (qb_at d' (concat (map color_run runs) @ r)) =
        (Ok (take 0 scratch @ ?px @ drop (tw * th) scratch), qb_at (d' @ concat (map color_run runs)) r)" for d'
      using PlainRLE by (intro plain_rle_runs) auto
    then show ?case
      using tile_header_rle [OF _ refl ne, of tw th scratch d] len PlainRLE.prems
      by (simp add: bindM_def)
  next
    case (PaletteRLE pal runs)
    have pal: "pal \<noteq> []" "length pal \<noteq> 1" using PaletteRLE(1) by auto
    then have ne: "colors_bytes pal @ concat (map index_run runs) @ r \<noteq> []" by (cases pal) auto
    let ?px = "concat (map (\<lambda>x. replicate (fst (snd x)) (pal ! fst x)) runs)"
    have len: "length ?px = tw * th"
      by (rule length_tile_encodes [OF tile_encodes.PaletteRLE]) (use PaletteRLE in auto)
    have "palette_rle (tw * th) pal 0 scratch (qb_at d' (concat (map index_run runs) @ r)) =
        (Ok (take 0 scratch @ ?px @ drop (tw * th) scratch), qb_at (d' @ concat (map index_run runs)) r)" for d'
      using PaletteRLE by (intro palette_rle_runs) auto
    then show ?case
      using tile_header_rle [OF _ refl ne, of tw th scratch d] len pal PaletteRLE(2) PaletteRLE.prems
      by (simp add: bindM_def del: of_nat_add)
  qed
  with that show ?thesis by blast
qed

section \<open>Placing a tile\<close>

lemma blit_rows_placed:
  assumes "length colors = H * W" and "tX + tw \<le> W" and "tY + th \<le> H"
    and "length pix = tw * th" and "\<forall>j \<in> set js. j < th"
  shows "\<exists>c'. blit_rows W tX tY tw pix js colors = Ok c' \<and> length c' = H * W \<and>
    (\<forall>y < H. \<forall>x < W. c' ! (y * W + x) =
       (if tX \<le> x \<and> x < tX + tw \<and> tY \<le> y \<and> y - tY \<in> set js
        then pix ! ((y - tY) * tw + (x - tX)) else colors ! (y * W + x)))"
  using assms(1,5)
proof (induction js arbitrary: colors)
  case (Cons j js)
  define pos where "pos = j * W + (tY * W + tX)"
  have j: "j < th" using Cons.prems by simp
  then have "(j + tY) * W + W \<le> H * W"
    using mult_le_mono1 [of "Suc (j + tY)" H W] assms(3) by simp
  then have fits: "pos + tw \<le> length colors"
    using Cons.prems(1) assms(2) by (simp add: pos_def algebra_simps)
  have "j * tw + tw \<le> tw * th" using mult_le_mono1 [of "Suc j" th tw] j by (simp add: mult.commute)
  then have src: "tw \<le> length (drop (j * tw) pix)" using assms(4) by simp
  let ?c = "take pos colors @ take tw (drop (j * tw) pix) @ drop (pos + tw) colors"
  have c: "length ?c = H * W" using fits src Cons.prems(1) by simp
  from Cons.IH [OF c] Cons.prems(2) obtain c' where
    c': "blit_rows W tX tY tw pix js ?c = Ok c'" "length c' = H * W"
    "\<forall>y < H. \<forall>x < W. c' ! (y * W + x) =
       (if tX \<le> x \<and> x < tX + tw \<and> tY \<le> y \<and> y - tY \<in> set js
        then pix ! ((y - tY) * tw + (x - tX)) else ?c ! (y * W + x))"
    by auto
  have cell: "?c ! (y * W + x) =
      (if y = j + tY \<and> tX \<le> x \<and> x < tX + tw then pix ! (j * tw + (x - tX)) else colors ! (y * W + x))"
    if "y < H" "x < W" for y x
  proof -
    have "pos \<le> y * W + x \<and> y * W + x < pos + tw \<longleftrightarrow> y = j + tY \<and> tX \<le> x \<and> x < tX + tw"
      using cell_between [OF that(2) assms(2), of "j + tY" tX y] by (simp add: pos_def algebra_simps)
    moreover have "y = j + tY \<Longrightarrow> tX \<le> x \<Longrightarrow> y * W + x - pos = x - tX"
      by (simp add: pos_def algebra_simps)
    ultimately show ?thesis
      using nth_splice [OF fits src, of "y * W + x"] src cell_less [OF that] Cons.prems(1) by auto
  qed
  have "blit_rows W tX tY tw pix (j # js) colors = Ok c'"
    using c'(1) copy_go_Ok [OF fits src] by (simp add: pos_def)
  with c'(2) show ?case
    by (intro exI [of _ c']) (use c'(3) cell in auto)
qed simp

section \<open>The loop over the tiles\<close>

definition tiles :: "nat \<Rightarrow> nat" where
  "tiles n = (n + 63) div 64"

definition extent :: "nat \<Rightarrow> nat \<Rightarrow> nat" where
  "extent n k = min 64 (n - 64 * k)"

text \<open>
  The counter of the loop has sixteen bits; up to \<open>0xffc0\<close> it does not wrap before the loop ends.
\<close>

lemma tile_loop_rule:
  assumes h: "unat h \<le> 65472" and P0: "P 0 b s"
    and step: "\<And>k b s. 64 * k < unat h \<Longrightarrow> P k b s \<Longrightarrow>
      \<exists>b' s'. body (of_nat (64 * k)) b s = Some (Ok b', s') \<and> P (Suc k) b' s'"
  shows "\<exists>b' s'. tile_loop 0 h body b s = Some (Ok b', s') \<and> P (tiles (unat h)) b' s'"
proof -
  have "\<exists>b' s'. tile_loop (of_nat (64 * k)) h body b s = Some (Ok b', s') \<and> P (tiles (unat h)) b' s'"
    if "n = tiles (unat h) - k" and "k \<le> tiles (unat h)" and "P k b s" for n k b s
    using that
  proof (induction n arbitrary: k b s)
    case 0
    then have k: "k = tiles (unat h)" by simp
    have u: "unat (of_nat (64 * k) :: u16) = 64 * k"
      using h unfolding k tiles_def by (simp add: unsigned_of_nat take_bit_nat_eq_self del: of_nat_mult)
    have "unat h \<le> 64 * k" unfolding k tiles_def by simp
    then have "\<not> (of_nat (64 * k) :: u16) < h" by (simp add: word_less_nat_alt u del: of_nat_mult)
    then show ?case
      using 0 k by (subst tile_loop.simps) simp
  next
    case (Suc n)
    have kh: "64 * k < unat h" using Suc.prems(1) unfolding tiles_def by linarith
    have u: "unat (of_nat (64 * k) :: u16) = 64 * k"
      using h kh by (simp add: unsigned_of_nat take_bit_nat_eq_self del: of_nat_mult)
    have lt: "(of_nat (64 * k) :: u16) < h" using kh by (simp add: word_less_nat_alt u del: of_nat_mult)
    from step [OF kh Suc.prems(3)] obtain b' s' where
      b': "body (of_nat (64 * k)) b s = Some (Ok b', s')" "P (Suc k) b' s'" by blast
    have next_k: "(of_nat (64 * k) :: u16) + 64 = of_nat (64 * Suc k)" by simp
    have "Suc k \<le> tiles (unat h)" "n = tiles (unat h) - Suc k" using Suc.prems(1) by simp_all
    from Suc.IH [OF this(2,1) b'(2)] show ?case
      using lt b'(1) next_k by (subst tile_loop.simps) (simp add: add.commute del: of_nat_mult)
  qed
  from this [of "tiles (unat h)" 0 b s] P0 show ?thesis by simp
qed

lemma unat_extent:
  assumes "64 * k < unat n"
  shows "unat (min_u16 64 (n - of_nat (64 * k))) = extent (unat n) k"
    "unat (of_nat (64 * k) :: u16) = 64 * k"
proof -
  have lt: "64 * k < 65536" using assms unsigned_less [of n, where 'a = nat] by simp
  then show u: "unat (of_nat (64 * k) :: u16) = 64 * k"
    by (simp add: unsigned_of_nat take_bit_nat_eq_self del: of_nat_mult)
  have "unat (n - of_nat (64 * k)) = unat n - 64 * k"
    using assms by (subst unat_sub) (simp_all add: word_le_nat_alt u del: of_nat_mult)
  then show "unat (min_u16 64 (n - of_nat (64 * k))) = extent (unat n) k"
    by (simp add: min_u16_def extent_def word_less_nat_alt min_def del: of_nat_mult)
qed

section \<open>A picture\<close>

text \<open>
  \<open>pic y x\<close> is the colour at row \<open>y\<close>, column \<open>x\<close>; \<open>enc ty tx\<close> the bytes the server chose for the tile in
  row \<open>ty\<close>, column \<open>tx\<close> of tiles.
\<close>

definition tile_of ::
  "(nat \<Rightarrow> nat \<Rightarrow> color) \<Rightarrow> nat \<Rightarrow> nat \<Rightarrow> nat \<Rightarrow> nat \<Rightarrow> color list" where
  "tile_of pic W H ty tx =
     grid (extent W tx) (extent H ty) (\<lambda>j i. pic (64 * ty + j) (64 * tx + i))"

definition encodes_picture ::
  "(nat \<Rightarrow> nat \<Rightarrow> color) \<Rightarrow> nat \<Rightarrow> nat \<Rightarrow> (nat \<Rightarrow> nat \<Rightarrow> u8 list) \<Rightarrow> bool" where
  "encodes_picture pic W H enc \<longleftrightarrow>
     (\<forall>ty < tiles H. \<forall>tx < tiles W.
        tile_encodes (extent W tx) (extent H ty) (enc ty tx) (tile_of pic W H ty tx))"

definition row_bytes :: "(nat \<Rightarrow> nat \<Rightarrow> u8 list) \<Rightarrow> nat \<Rightarrow> nat \<Rightarrow> u8 list" where
  "row_bytes enc W ty = concat (map (enc ty) [0..<tiles W])"

definition picture_bytes :: "(nat \<Rightarrow> nat \<Rightarrow> u8 list) \<Rightarrow> nat \<Rightarrow> nat \<Rightarrow> u8 list" where
  "picture_bytes enc W H = concat (map (row_bytes enc W) [0..<tiles H])"

lemma parseTile_placed:
  assumes "encodes_picture pic W H enc" and "64 * tx < W" and "64 * ty < H"
    and "length colors = H * W" and "length scratch = 4096"
  obtains c' s' where "length c' = H * W" and "length s' = 4096"
    and "parseTile W (64 * tx) (64 * ty) (extent W tx) (extent H ty) (colors, scratch)
           (qb_at d (enc ty tx @ r)) = (Ok (c', s'), qb_at (d @ enc ty tx) r)"
    and "\<forall>y < H. \<forall>x < W. c' ! (y * W + x) =
      (if 64 * tx \<le> x \<and> x < 64 * tx + 64 \<and> 64 * ty \<le> y \<and> y < 64 * ty + 64 then pic y x
       else colors ! (y * W + x))"
proof -
  let ?tw = "extent W tx" and ?th = "extent H ty"
  have e: "1 \<le> ?tw" "1 \<le> ?th" "?tw \<le> 64" "?th \<le> 64" "64 * tx + ?tw \<le> W" "64 * ty + ?th \<le> H"
    using assms(2,3) by (auto simp: extent_def)
  then have a: "1 \<le> ?tw * ?th" "?tw * ?th \<le> 64 * 64" by (simp, intro mult_le_mono)
  have "tx < tiles W" "ty < tiles H" using assms(2,3) by (simp_all add: tiles_def)
  then have enc: "tile_encodes ?tw ?th (enc ty tx) (tile_of pic W H ty tx)"
    using assms(1) by (simp add: encodes_picture_def)
  obtain s' where s': "length s' = length scratch"
      "tile_pixels ?tw ?th scratch (qb_at d (enc ty tx @ r)) =
         (Ok (tile_of pic W H ty tx, s'), qb_at (d @ enc ty tx) r)"
    by (rule tile_pixels_encodes [OF enc a(1), of scratch d r]) (use a(2) assms(5) in auto)
  have "length (tile_of pic W H ty tx) = ?tw * ?th" by (simp add: tile_of_def mult.commute)
  from blit_rows_placed [OF assms(4) e(5,6) this, of "[0..<?th]"] obtain c' where
    c': "blit_rows W (64 * tx) (64 * ty) ?tw (tile_of pic W H ty tx) [0..<?th] colors = Ok c'"
      "length c' = H * W"
      "\<And>y x. y < H \<Longrightarrow> x < W \<Longrightarrow> c' ! (y * W + x) =
         (if 64 * tx \<le> x \<and> x < 64 * tx + ?tw \<and> 64 * ty \<le> y \<and> y - 64 * ty \<in> set [0..<?th]
          then tile_of pic W H ty tx ! ((y - 64 * ty) * ?tw + (x - 64 * tx)) else colors ! (y * W + x))"
    by auto
  show ?thesis
  proof (rule that)
    show "length c' = H * W" by (rule c'(2))
    show "length s' = 4096" using s'(1) assms(5) by simp
    show "parseTile W (64 * tx) (64 * ty) ?tw ?th (colors, scratch)
           (qb_at d (enc ty tx @ r)) = (Ok (c', s'), qb_at (d @ enc ty tx) r)"
      using s'(2) c'(1) by (simp add: parseTile_def bindM_def)
  next
    have "c' ! (y * W + x) =
        (if 64 * tx \<le> x \<and> x < 64 * tx + 64 \<and> 64 * ty \<le> y \<and> y < 64 * ty + 64 then pic y x
         else colors ! (y * W + x))" if yx: "y < H" "x < W" for y x
    proof -
    have "tile_of pic W H ty tx ! ((y - 64 * ty) * ?tw + (x - 64 * tx)) = pic y x"
      if "64 * tx \<le> x" "x < 64 * tx + ?tw" "64 * ty \<le> y" "y - 64 * ty < ?th"
      using that grid_nth [of "y - 64 * ty" ?th "x - 64 * tx" ?tw "\<lambda>j i. pic (64 * ty + j) (64 * tx + i)"]
      by (auto simp: tile_of_def)
    then show ?thesis
      unfolding c'(3) [OF yx] using yx by (auto simp: extent_def)
    qed
    then show "\<forall>y < H. \<forall>x < W. c' ! (y * W + x) =
        (if 64 * tx \<le> x \<and> x < 64 * tx + 64 \<and> 64 * ty \<le> y \<and> y < 64 * ty + 64 then pic y x
         else colors ! (y * W + x))" by blast
  qed
qed

text \<open>Between tiles: the finished tiles hold the picture, the rest of the bytes is still to be read.\<close>

definition row_state ::
  "(nat \<Rightarrow> nat \<Rightarrow> color) \<Rightarrow> nat \<Rightarrow> nat \<Rightarrow> nat \<Rightarrow> nat \<Rightarrow> color list \<times> color list \<Rightarrow> bool" where
  "row_state pic W H ty tx cs \<longleftrightarrow>
     length (fst cs) = H * W \<and> length (snd cs) = 4096 \<and>
     (\<forall>y < H. \<forall>x < W. y < 64 * ty \<or> y < 64 * ty + 64 \<and> x < 64 * tx \<longrightarrow> fst cs ! (y * W + x) = pic y x)"

lemma upt_tiles: "k < n \<Longrightarrow> [k..<n] = k # [Suc k..<n]"
  by (simp add: upt_conv_Cons)

lemma tiles_less: "64 * k < n \<Longrightarrow> k < tiles n"
  by (simp add: tiles_def)

lemma parse_row_placed:
  assumes enc: "encodes_picture pic (unat (rWidth r)) (unat (rHeight r)) enc"
    and small: "unat (rWidth r) \<le> 65472" and ty: "64 * ty < unat (rHeight r)"
    and cs: "row_state pic (unat (rWidth r)) (unat (rHeight r)) ty 0 cs"
  shows "\<exists>cs'. parse_row r (of_nat (64 * ty)) cs (qb_at d (row_bytes enc (unat (rWidth r)) ty @ rest)) =
      Some (Ok cs', qb_at (d @ row_bytes enc (unat (rWidth r)) ty) rest) \<and>
    row_state pic (unat (rWidth r)) (unat (rHeight r)) (Suc ty) 0 cs'"
proof -
  let ?W = "unat (rWidth r)" and ?H = "unat (rHeight r)"
  define P where "P k cs q \<longleftrightarrow> row_state pic ?W ?H ty k cs \<and>
    q = qb_at (d @ concat (map (enc ty) [0..<k])) (concat (map (enc ty) [k..<tiles ?W]) @ rest)" for k cs q
  have step: "\<exists>cs' q'. Some (parseTile ?W (unat (of_nat (64 * k) :: u16)) (unat (of_nat (64 * ty) :: u16))
        (unat (min_u16 64 (rWidth r - of_nat (64 * k)))) (unat (min_u16 64 (rHeight r - of_nat (64 * ty)))) cs q) =
      Some (Ok cs', q') \<and> P (Suc k) cs' q'"
    if k: "64 * k < ?W" and P: "P k cs q" for k cs q
  proof -
    obtain c s where c: "cs = (c, s)" "length c = ?H * ?W" "length s = 4096"
        "\<And>y x. y < ?H \<Longrightarrow> x < ?W \<Longrightarrow> y < 64 * ty \<or> y < 64 * ty + 64 \<and> x < 64 * k \<Longrightarrow> c ! (y * ?W + x) = pic y x"
      using P by (cases cs) (auto simp: P_def row_state_def)
    have q: "q = qb_at (d @ concat (map (enc ty) [0..<k]))
        (enc ty k @ (concat (map (enc ty) [Suc k..<tiles ?W]) @ rest))"
      using P upt_tiles [OF tiles_less [OF k]] by (simp add: P_def)
    obtain c' s' where c': "length c' = ?H * ?W" "length s' = 4096"
        "parseTile ?W (64 * k) (64 * ty) (extent ?W k) (extent ?H ty) (c, s)
           (qb_at (d @ concat (map (enc ty) [0..<k])) (enc ty k @ (concat (map (enc ty) [Suc k..<tiles ?W]) @ rest))) =
           (Ok (c', s'), qb_at ((d @ concat (map (enc ty) [0..<k])) @ enc ty k)
              (concat (map (enc ty) [Suc k..<tiles ?W]) @ rest))"
        "\<forall>y < ?H. \<forall>x < ?W. c' ! (y * ?W + x) =
          (if 64 * k \<le> x \<and> x < 64 * k + 64 \<and> 64 * ty \<le> y \<and> y < 64 * ty + 64 then pic y x
           else c ! (y * ?W + x))"
      by (rule parseTile_placed [OF enc k ty c(2,3), where d = "d @ concat (map (enc ty) [0..<k])"
          and r = "concat (map (enc ty) [Suc k..<tiles ?W]) @ rest"]) (rule that)
    have "row_state pic ?W ?H ty (Suc k) (c', s')"
      unfolding row_state_def using c'(1,2,4) c(4) by (auto simp: not_le)
    then have "P (Suc k) (c', s') (qb_at ((d @ concat (map (enc ty) [0..<k])) @ enc ty k)
        (concat (map (enc ty) [Suc k..<tiles ?W]) @ rest))"
      by (simp add: P_def)
    then show ?thesis
      unfolding unat_extent [OF k] unat_extent [OF ty] c(1) q c'(3) by blast
  qed
  have "P 0 cs (qb_at d (row_bytes enc ?W ty @ rest))"
    using cs by (simp add: P_def row_bytes_def)
  from tile_loop_rule [where P = P and body = "\<lambda>tileX cs q.
       Some (parseTile ?W (unat tileX) (unat (of_nat (64 * ty) :: u16))
               (unat (min_u16 64 (rWidth r - tileX))) (unat (min_u16 64 (rHeight r - of_nat (64 * ty)))) cs q)",
       OF small this step] obtain cs' q' where
    cs': "parse_row r (of_nat (64 * ty)) cs (qb_at d (row_bytes enc ?W ty @ rest)) = Some (Ok cs', q')"
      "P (tiles ?W) cs' q'"
    unfolding parse_row_def by blast
  have "?W \<le> 64 * tiles ?W" by (simp add: tiles_def)
  then have "row_state pic ?W ?H (Suc ty) 0 cs'" "q' = qb_at (d @ row_bytes enc ?W ty) rest"
    using cs'(2) by (auto simp: P_def row_state_def row_bytes_def)
  with cs'(1) show ?thesis by blast
qed

lemma parse_placed:
  fixes r :: "'z rect_scheme"
  assumes enc: "encodes_picture pic (unat (rWidth r)) (unat (rHeight r)) enc"
    and small: "unat (rWidth r) \<le> 65472" "unat (rHeight r) \<le> 65472"
  shows "ZRLE_parse r (qb_at d (picture_bytes enc (unat (rWidth r)) (unat (rHeight r)) @ rest)) =
    (Ok (grid (unat (rWidth r)) (unat (rHeight r)) pic),
     qb_at (d @ picture_bytes enc (unat (rWidth r)) (unat (rHeight r))) rest)"
proof -
  let ?W = "unat (rWidth r)" and ?H = "unat (rHeight r)" and ?row = "row_bytes enc (unat (rWidth r))"
  let ?cs0 = "(replicate (Area r) zero_color, replicate (64 * 64) zero_color)"
  define P where "P k cs q \<longleftrightarrow> row_state pic ?W ?H k 0 cs \<and>
    q = qb_at (d @ concat (map ?row [0..<k])) (concat (map ?row [k..<tiles ?H]) @ rest)" for k cs q
  have step: "\<exists>cs' q'. parse_row r (of_nat (64 * k)) cs q = Some (Ok cs', q') \<and> P (Suc k) cs' q'"
    if k: "64 * k < ?H" and P: "P k cs q" for k cs q
  proof -
    have "q = qb_at (d @ concat (map ?row [0..<k])) (?row k @ (concat (map ?row [Suc k..<tiles ?H]) @ rest))"
      using P upt_tiles [OF tiles_less [OF k]] by (simp add: P_def)
    then show ?thesis
      using parse_row_placed [OF enc small(1) k, of cs "d @ concat (map ?row [0..<k])"] P
      by (fastforce simp: P_def)
  qed
  have "P 0 ?cs0 (qb_at d (picture_bytes enc ?W ?H @ rest))"
    by (simp add: P_def row_state_def picture_bytes_def Area_def mult.commute)
  from tile_loop_rule [where P = P and body = "parse_row r", OF small(2) this step] obtain cs q where
    cs: "tile_loop 0 (rHeight r) (parse_row r) ?cs0 (qb_at d (picture_bytes enc ?W ?H @ rest)) = Some (Ok cs, q)"
      "P (tiles ?H) cs q"
    by blast
  have "?H \<le> 64 * tiles ?H" by (simp add: tiles_def)
  with cs(2) have "fst cs = grid ?W ?H pic"
    by (intro grid_eqI) (auto simp: P_def row_state_def)
  moreover have "q = qb_at (d @ picture_bytes enc ?W ?H) rest"
    using cs(2) by (simp add: P_def picture_bytes_def)
  ultimately show ?thesis
    unfolding ZRLE_parse_def cs(1) by (simp add: bindM_def)
qed

text \<open>(C10) Whichever of the five tile encodings (raw, solid, packed palette, plain RLE, palette RLE,
  RFC 6143, 7.7.6) a server chooses for each 64 by 64 tile of a picture, and however it splits the
  pixels into runs, \<open>ZRLEEncoding.parse\<close> returns the picture row by row and consumes exactly the
  bytes of its tiles, for every rectangle of up to 65472 by 65472 pixels.\<close>

theorem zrle_parse_picture:
  fixes r :: rect
  assumes "encodes_picture pic (unat (rWidth r)) (unat (rHeight r)) enc"
    and "unat (rWidth r) \<le> 65472" and "unat (rHeight r) \<le> 65472"
  shows "ZRLE_parse r (NewQuickBuf (picture_bytes enc (unat (rWidth r)) (unat (rHeight r)) @ rest)) =
    (Ok (grid (unat (rWidth r)) (unat (rHeight r)) pic),
     qb_at (picture_bytes enc (unat (rWidth r)) (unat (rHeight r))) rest)"
  unfolding NewQuickBuf_at using parse_placed [OF assms, of "[]" rest] by simp

text \<open>A picture of 66 by 1 pixels, the first tile solid and the second one a run and a single pixel.\<close>

definition demo_pic :: "nat \<Rightarrow> nat \<Rightarrow> color" where
  "demo_pic y x = (if x < 65 then rgb 1 2 3 else rgb 4 5 6)"

definition demo_enc :: "nat \<Rightarrow> nat \<Rightarrow> u8 list" where
  "demo_enc ty tx =
     (if tx = 0 then [1, 1, 2, 3] else [130, 1, 2, 3, 4, 5, 6, 0, 129, 0])"

lemma demo_encodes: "encodes_picture demo_pic 66 1 demo_enc"
proof -
  have t0: "tile_of demo_pic 66 1 0 0 = replicate (64 * 1) (rgb 1 2 3)"
    by (simp add: tile_of_def grid_def extent_def demo_pic_def) (rule nth_equalityI, simp_all)
  have t1: "tile_of demo_pic 66 1 0 1 = [rgb 1 2 3, rgb 4 5 6]"
    by (simp add: tile_of_def grid_def extent_def demo_pic_def upt_rec numeral_2_eq_2)
  have "tile_encodes 64 1 (demo_enc 0 0) (tile_of demo_pic 66 1 0 0)"
    using tile_encodes.Solid [of 64 1 "rgb 1 2 3"] by (simp only: t0) (simp add: demo_enc_def)
  moreover have "tile_encodes 2 1 (demo_enc 0 1) (tile_of demo_pic 66 1 0 1)"
    using tile_encodes.PaletteRLE [of "[rgb 1 2 3, rgb 4 5 6]" "[(0, 1, False), (1, 1, True)]" 2 1]
    by (simp only: t1) (simp add: demo_enc_def index_run_ok_def index_run_def run_bytes_def)
  ultimately show ?thesis
    by (auto simp: encodes_picture_def tiles_def extent_def less_Suc_eq numeral_2_eq_2)
qed

theorem zrle_parse_picture_witness:
  "ZRLE_parse \<lparr>rX = 0, rY = 0, rWidth = 66, rHeight = 1\<rparr>
     (NewQuickBuf ([1, 1, 2, 3, 130, 1, 2, 3, 4, 5, 6, 0, 129, 0] @ [7])) =
   (Ok (grid 66 1 demo_pic), qb_at [1, 1, 2, 3, 130, 1, 2, 3, 4, 5, 6, 0, 129, 0] [7])"
proof -
  have "[0..<2] = [0, 1 :: nat]" by (simp add: upt_rec)
  then show ?thesis
    using zrle_parse_picture [of demo_pic "\<lparr>rX = 0, rY = 0, rWidth = 66, rHeight = 1\<rparr>" demo_enc "[7]"]
      demo_encodes
    by (simp add: picture_bytes_def row_bytes_def tiles_def demo_enc_def)
qed

section \<open>Malformed tiles\<close>

text \<open>What the decoder does with tiles that break the format. A tile whose subencoding byte is
  the last byte of the buffer and announces no palette, a packed or RLE tile that is cut short inside
  its palette-index table, and a palette index outside the palette: the first and the last panic
  instead of returning an error, an RLE palette of one colour is rejected, and a truncated palette is
  the error \<open>io.EOF\<close>.\<close>

lemma tile_malformed:
  "tile_pixels tw th scratch (qb_at d [0]) = (Panic IndexOutOfRange, qb_at (d @ [0]) [])
   \<and> tile_pixels tw th scratch (qb_at d [128]) = (Panic IndexOutOfRange, qb_at (d @ [128]) [])
   \<and> fst (tile_pixels tw th scratch (qb_at d (129 # cR c # cG c # cB c # r))) =
       Err (Errorf ''Unhandled case: runLengthEncoded paletteSize'')
   \<and> fst (tile_pixels tw th scratch (qb_at d [2, cR c, cG c, cB c])) =
       Err (Annotated ''failed to read palette'' EOF)
   \<and> fst (tile_pixels (Suc tw) (Suc th) scratch
            (qb_at d (130 # colors_bytes [c, c'] @ 2 # r))) = Panic IndexOutOfRange"
proof (intro conjI)
  have end_of_buffer: "qb_ReadColors 0 (qb_at d []) = (Panic IndexOutOfRange, qb_at d [])" for d
    by (simp add: qb_ReadColors_def qb_at_def)
  show "tile_pixels tw th scratch (qb_at d [0]) = (Panic IndexOutOfRange, qb_at (d @ [0]) [])"
    "tile_pixels tw th scratch (qb_at d [128]) = (Panic IndexOutOfRange, qb_at (d @ [128]) [])"
    by (simp_all add: tile_pixels_def bindM_def annotate_def qb_ReadByte_at end_of_buffer Let_def)
  show "fst (tile_pixels tw th scratch (qb_at d (129 # cR c # cG c # cB c # r))) =
       Err (Errorf ''Unhandled case: runLengthEncoded paletteSize'')"
    using tile_header_rle [of 1 "[c]" r tw th scratch d] by simp
  have short: "qb_ReadColors 2 (qb_at d' [cR c, cG c, cB c]) = (Err EOF, qb_at d' [cR c, cG c, cB c])" for d'
    by (rule qb_ReadColors_short) simp
  show "fst (tile_pixels tw th scratch (qb_at d [2, cR c, cG c, cB c])) =
       Err (Annotated ''failed to read palette'' EOF)"
    by (simp add: tile_pixels_def bindM_def annotate_def qb_ReadByte_at short Let_def)
  have bad: "palette_rle (Suc tw * Suc th) [c, c'] 0 scratch (qb_at d' (2 # r)) =
      (Panic IndexOutOfRange, qb_at (d' @ [2]) r)" for d'
    by (subst palette_rle.simps) (simp add: bindM_def annotate_def qb_ReadByte_at)
  show "fst (tile_pixels (Suc tw) (Suc th) scratch
      (qb_at d (130 # colors_bytes [c, c'] @ 2 # r))) = Panic IndexOutOfRange"
    using tile_header_rle [of 2 "[c, c']" "2 # r" "Suc tw" "Suc th" scratch d]
    by (simp add: bindM_def bad del: mult_Suc mult_Suc_right)
qed

section \<open>The sixteen-bit tile counter\<close>

lemma aligned_u16:
  assumes "(t :: u16) AND 63 = 0"
  shows "t \<le> 65472" and "(t + 64) AND 63 = 0"
proof -
  have m: "(63 :: u16) = mask 6" by (simp add: mask_eq_exp_minus_1)
  have t: "take_bit 6 t = 0" using assms unfolding m by (simp add: take_bit_eq_mask)
  then have "unat (take_bit 6 t) = 0" by simp
  then have "unat t mod 64 = 0" by (simp only: unsigned_take_bit_eq) (simp add: take_bit_eq_mod)
  moreover have "unat t < 65536" using unsigned_less [of t, where 'a = nat] by simp
  ultimately have "unat t \<le> 65472" by presburger
  then show "t \<le> 65472" by (simp add: word_le_nat_alt)
  have "unat (t + 64) mod 64 = 0"
    using \<open>unat t mod 64 = 0\<close> by (simp add: unat_word_ariths mod_mod_cancel)
  then have "unat (take_bit 6 (t + 64)) = 0"
    by (simp only: unsigned_take_bit_eq) (simp add: take_bit_eq_mod)
  then show "(t + 64) AND 63 = 0" unfolding m by (simp add: take_bit_eq_mask [symmetric] unsigned_eq_0_iff)
qed

lemma tile_loop_wraps:
  assumes "body = (\<lambda>_ b s. Some (Ok b, s))" and "65472 < h" and "t AND 63 = 0"
  shows "tile_loop t h body b s = None"
proof (rule ccontr)
  assume "tile_loop t h body b s \<noteq> None"
  then obtain y where y: "tile_loop t h body b s = Some y" by auto
  have "body = (\<lambda>_ b s. Some (Ok b, s)) \<longrightarrow> 65472 < h \<longrightarrow> t AND 63 = 0 \<longrightarrow> False"
  proof (rule tile_loop.raw_induct [OF _ y,
      where P = "\<lambda>t h body b s y. body = (\<lambda>_ b s. Some (Ok b, s)) \<longrightarrow> 65472 < h \<longrightarrow> t AND 63 = 0 \<longrightarrow> False"])
    fix loop :: "u16 \<Rightarrow> u16 \<Rightarrow> (u16 \<Rightarrow> 'a \<Rightarrow> 'b \<Rightarrow> ('a outcome \<times> 'b) option) \<Rightarrow> 'a \<Rightarrow> 'b \<Rightarrow> ('a outcome \<times> 'b) option"
      and t h body b s y
    assume IH: "\<And>t h body b s y. loop t h body b s = Some y \<Longrightarrow>
        body = (\<lambda>_ b s. Some (Ok b, s)) \<longrightarrow> 65472 < h \<longrightarrow> t AND 63 = 0 \<longrightarrow> False"
      and run: "(if t < h
      then Option.bind (body t b s) (\<lambda>r.
             case fst r of
               Ok b' \<Rightarrow> loop (t + 64) h body b' (snd r)
             | Err e \<Rightarrow> Some (Err e, snd r)
             | Panic p \<Rightarrow> Some (Panic p, snd r)
             | Diverge \<Rightarrow> Some (Diverge, snd r))
      else Some (Ok b, s)) = Some y"
    show "body = (\<lambda>_ b s. Some (Ok b, s)) \<longrightarrow> 65472 < h \<longrightarrow> t AND 63 = 0 \<longrightarrow> False"
    proof (intro impI)
      assume a: "body = (\<lambda>_ b s. Some (Ok b, s))" "65472 < h" "t AND 63 = 0"
      have "t < h" using aligned_u16(1) [OF a(3)] a(2) by (rule le_less_trans)
      with run a(1) have "loop (t + 64) h body b s = Some y" by simp
      from IH [OF this] a aligned_u16(2) [OF a(3)] show False by simp
    qed
  qed
  with assms show False by simp
qed



end
