(* ===== verification/Tight.thy ===== *)
theory Tight
  imports ZrleFormat ClientConn
begin

text \<open>
  The Tight decoder of \<^verbatim>\<open>vncclient/encoding.go\<close>: the state of \<open>TightEncoding\<close> beside the connection it
  reads from, \<open>Read\<close>, \<open>readBasicCompression\<close> with its three filters, \<open>basicCompressionReader\<close>,
  \<open>readTPixels\<close>, \<open>readToBuf\<close> and \<open>readCompactLength\<close>. The zlib readers and the JPEG decoder are
  arguments: \<open>zlib\<close> holds the calls the decoder makes on a zlib stream, \<open>jpeg\<close> the call of
  \<open>jpeg.DecodeIntoRGB\<close>.
\<close>

section \<open>State\<close>

text \<open>
  A zlib reader takes its input from a byte buffer and leaves what it has not used there. \<open>zlRead n\<close>
  is \<open>ReadFrom\<close> on a \<open>LimitReader\<close>: up to \<open>n\<close> bytes, and the error if one came before that many
  (the end of the stream is no error). \<open>zlReset\<close> is called for its effect only.
\<close>

record 'z zlib =
  zlNew :: "u8 list \<Rightarrow> 'z outcome \<times> u8 list"
  zlReset :: "'z \<Rightarrow> u8 list \<Rightarrow> 'z \<times> u8 list"
  zlRead :: "nat \<Rightarrow> 'z \<Rightarrow> u8 list \<Rightarrow> (u8 list \<times> goerr option) \<times> 'z \<times> u8 list"

record 'z tight_client = client +
  tSize :: int
  tStreams :: "'z option list"
  tStreamBufs :: "u8 list list"
  tReset :: u8
  tBuf :: "u8 list"  \<comment> \<open>the unread bytes of \<open>t.buf\<close>\<close>

definition tight_pf :: "pixel_format \<Rightarrow> bool" where
  "tight_pf f \<longleftrightarrow> BPP f = 32 \<and> Depth f = 24 \<and> TrueColor f \<and> RedMax f = 255 \<and>
     GreenMax f = 255 \<and> BlueMax f = 255"

section \<open>Reading\<close>

text \<open>\<open>readCompactLength\<close>: \<open>i\<close> counts the bytes, \<open>sh\<close> the bits already read.\<close>

fun compact_loop ::
  "nat \<Rightarrow> nat \<Rightarrow> 64 word \<Rightarrow> nat \<Rightarrow> (('z, 'm) tight_client_scheme, nat) prog" where
  "compact_loop n i x sh =
     bindM read_byte (\<lambda>b.
     bindM (modifyS (\<lambda>t. t\<lparr>tSize := tSize t + 1\<rparr>)) (\<lambda>_.
     if b < 0x80 \<or> i = 2 then ret (unat (x OR push_bit sh (ucast b)))
     else case n of
       0 \<Rightarrow> lift Diverge
     | Suc n' \<Rightarrow> compact_loop n' (i + 1) (x OR push_bit sh (ucast (b AND 0x7f))) (sh + 7)))"

declare compact_loop.simps [simp del]

text \<open>The loop runs three times at most (\<open>compact_length_bounds\<close>).\<close>

definition readCompactLength :: "(('z, 'm) tight_client_scheme, nat) prog" where
  "readCompactLength = compact_loop 2 0 0 0"

text \<open>What \<open>basicCompressionReader\<close> returns, and the connection itself.\<close>

datatype tight_source = Conn | LimitedConn nat | ZStream nat

definition conn_to_buf :: "nat \<Rightarrow> (('z, 'm) tight_client_scheme, unit) prog" where
  "conn_to_buf n t =
     (let t' = t\<lparr>tBuf := tBuf t @ take n (rbytes t), rbytes := drop n (rbytes t)\<rparr> in
      if length (rbytes t) < n \<and> rend t \<noteq> EOF then (Err (rend t), t') else (Ok (), t'))"

definition readToBuf ::
  "'z zlib \<Rightarrow> tight_source \<Rightarrow> nat \<Rightarrow> (('z, 'm) tight_client_scheme, unit) prog" where
  "readToBuf zl src n =
     (case src of
        Conn \<Rightarrow> conn_to_buf n
      | LimitedConn k \<Rightarrow> conn_to_buf (min k n)
      | ZStream i \<Rightarrow> \<lambda>t.
          case tStreams t ! i of
            None \<Rightarrow> (Panic NilDereference, t)
          | Some st \<Rightarrow>
              case zlRead zl n st (tStreamBufs t ! i) of
                ((bs, e), st', buf) \<Rightarrow>
                  (case e of None \<Rightarrow> Ok () | Some err \<Rightarrow> Err err,
                   t\<lparr>tBuf := tBuf t @ bs, tStreams := (tStreams t)[i := Some st'],
                     tStreamBufs := (tStreamBufs t)[i := buf]\<rparr>))"

definition readTPixels ::
  "'z zlib \<Rightarrow> tight_source \<Rightarrow> nat \<Rightarrow> (('z, 'm) tight_client_scheme, color list) prog" where
  "readTPixels zl src n =
     bindM getS (\<lambda>t.
     if tBuf t \<noteq> [] then panic (PanicMessage ''unread bytes in t.buf before call to readTPixels'')
     else
       bindM (readToBuf zl src (n * 3)) (\<lambda>_.
       bindM (modifyS (\<lambda>t. t\<lparr>tSize := tSize t + int (n * 3)\<rparr>)) (\<lambda>_.
       bindM getS (\<lambda>t.
       bindM (modifyS (\<lambda>t. t\<lparr>tBuf := drop (n * 3) (tBuf t)\<rparr>)) (\<lambda>_.
       lift (fst (qb_ReadColors n (NewQuickBuf (take (n * 3) (tBuf t))))))))))"

text \<open>\<open>buf.ReadFrom(io.LimitReader(r, length))\<close> into the buffer of a stream.\<close>

definition fill_stream :: "nat \<Rightarrow> nat \<Rightarrow> (('z, 'm) tight_client_scheme, unit) prog" where
  "fill_stream i n t =
     (let t' = t\<lparr>tStreamBufs := (tStreamBufs t)[i := tStreamBufs t ! i @ take n (rbytes t)],
                 rbytes := drop n (rbytes t)\<rparr> in
      if length (rbytes t) < n \<and> rend t \<noteq> EOF then (Err (rend t), t') else (Ok (), t'))"

definition new_stream :: "'z zlib \<Rightarrow> nat \<Rightarrow> (('z, 'm) tight_client_scheme, unit) prog" where
  "new_stream zl i t =
     (if tStreams t ! i \<noteq> None then (Ok (), t)
      else case zlNew zl (tStreamBufs t ! i) of
             (Ok st, buf) \<Rightarrow> (Ok (), t\<lparr>tStreams := (tStreams t)[i := Some st],
                                       tStreamBufs := (tStreamBufs t)[i := buf]\<rparr>)
           | (Err e, buf) \<Rightarrow> (Err e, t\<lparr>tStreamBufs := (tStreamBufs t)[i := buf]\<rparr>)
           | (Panic p, buf) \<Rightarrow> (Panic p, t\<lparr>tStreamBufs := (tStreamBufs t)[i := buf]\<rparr>)
           | (Diverge, buf) \<Rightarrow> (Diverge, t))"

definition reset_stream :: "'z zlib \<Rightarrow> nat \<Rightarrow> (('z, 'm) tight_client_scheme, unit) prog" where
  "reset_stream zl i t =
     (case tStreams t ! i of
        None \<Rightarrow> (Panic NilDereference, t)
      | Some st \<Rightarrow>
          case zlReset zl st (tStreamBufs t ! i) of
            (st', buf) \<Rightarrow>
              (Ok (), t\<lparr>tStreams := (tStreams t)[i := Some st'],
                        tStreamBufs := (tStreamBufs t)[i := buf],
                        tReset := tReset t AND NOT (push_bit i 1)\<rparr>))"

definition reset_pending :: "('z, 'm) tight_client_scheme \<Rightarrow> nat \<Rightarrow> bool" where
  "reset_pending t i \<longleftrightarrow> tReset t AND push_bit i 1 \<noteq> 0"

definition basicCompressionReader ::
  "'z zlib \<Rightarrow> nat \<Rightarrow> nat \<Rightarrow> (('z, 'm) tight_client_scheme, tight_source) prog" where
  "basicCompressionReader zl sz stream =
     (if sz < 12 then ret (LimitedConn sz)
      else
        bindM (annotate '''' readCompactLength) (\<lambda>len.
        bindM (modifyS (\<lambda>t. t\<lparr>tSize := tSize t + int len\<rparr>)) (\<lambda>_.
        bindM (modifyS (\<lambda>t. if reset_pending t stream
                             then t\<lparr>tStreamBufs := (tStreamBufs t)[stream := []]\<rparr> else t)) (\<lambda>_.
        bindM (annotate '''' (fill_stream stream len)) (\<lambda>_.
        bindM (annotate '''' (new_stream zl stream)) (\<lambda>_.
        bindM getS (\<lambda>t.
        bindM (if reset_pending t stream then reset_stream zl stream else ret ()) (\<lambda>_.
        ret (ZStream stream)))))))))"

section \<open>Filters\<close>

text \<open>A two-colour palette: one bit per pixel, leftmost in the highest bit, a new byte for each row.\<close>

fun palette_bits ::
  "nat \<Rightarrow> color list \<Rightarrow> u8 list \<Rightarrow> u8 \<Rightarrow> int \<Rightarrow> nat list \<Rightarrow> color list outcome" where
  "palette_bits W palette buf offset index [] = Ok []"
| "palette_bits W palette buf offset index (i # is) =
     (let fresh = offset = 0 \<or> i mod W = 0;
          offset' = (if fresh then 8 else offset) - 1;
          index' = (if fresh then index + 1 else index) in
      bindO (index_go buf (nat index')) (\<lambda>b.
      bindO (index_go palette (unat (drop_bit (unat offset') b AND 1))) (\<lambda>c.
      bindO (palette_bits W palette buf offset' index' is) (\<lambda>cs. Ok (c # cs)))))"

definition palette_bytes :: "color list \<Rightarrow> u8 list \<Rightarrow> nat \<Rightarrow> color list outcome" where
  "palette_bytes palette buf area =
     mapO (\<lambda>i. bindO (index_go buf i) (\<lambda>b.
       if length palette \<le> unat b then Err (Errorf ''invalid index in palette of size'')
       else index_go palette (unat b))) [0..<area]"

definition palette_size :: "nat \<Rightarrow> 'y rect_scheme \<Rightarrow> nat" where
  "palette_size n rect =
     (if n = 2 then (unat (rWidth rect) + 7) div 8 * unat (rHeight rect) else Area rect)"

text \<open>
  The gradient filter. \<open>component\<close> takes its colour by value, so the pointer it returns points into
  a copy: \<open>set_component\<close>, the assignment through it, leaves the colours as they are.
\<close>

definition get_component :: "color \<Rightarrow> nat \<Rightarrow> u8 outcome" where
  "get_component c x =
     (if x = 0 then Ok (cR c) else if x = 1 then Ok (cG c) else if x = 2 then Ok (cB c)
      else Panic (PanicMessage ''bad component number''))"

definition set_component :: "color list \<Rightarrow> nat \<Rightarrow> nat \<Rightarrow> u8 \<Rightarrow> color list outcome" where
  "set_component colors i x v =
     bindO (index_go colors i) (\<lambda>c. bindO (get_component c x) (\<lambda>_. Ok colors))"

definition colorRect_at :: "nat \<Rightarrow> color list \<Rightarrow> int \<Rightarrow> int \<Rightarrow> nat \<Rightarrow> u8 outcome" where
  "colorRect_at W colors y x c =
     (if y < 0 \<or> x < 0 then Ok 0
      else bindO (index_go colors (nat (y * int W + x))) (\<lambda>col. get_component col c))"

definition gradient_pixel ::
  "nat \<Rightarrow> color list \<Rightarrow> nat \<times> nat \<times> nat \<Rightarrow> color list \<Rightarrow> color list outcome" where
  "gradient_pixel W diffs ijc colors =
     (case ijc of (i, j, c) \<Rightarrow>
      bindO (colorRect_at W colors (int i - 1) (int j) c) (\<lambda>up.
      bindO (colorRect_at W colors (int i) (int j - 1) c) (\<lambda>left.
      bindO (colorRect_at W colors (int i - 1) (int j - 1) c) (\<lambda>upleft.
      let p = up + left - upleft;
          p = (if p < 0 then 0 else p);
          p = (if 255 < p then 255 else p) in
      bindO (index_go diffs i) (\<lambda>d.
      bindO (get_component d c) (\<lambda>v.
      set_component colors i c (v + p)))))))"

fun gradient_loop ::
  "nat \<Rightarrow> color list \<Rightarrow> (nat \<times> nat \<times> nat) list \<Rightarrow> color list \<Rightarrow> color list outcome" where
  "gradient_loop W diffs [] colors = Ok colors"
| "gradient_loop W diffs (p # ps) colors = bindO (gradient_pixel W diffs p colors) (gradient_loop W diffs ps)"

definition gradient_order :: "'y rect_scheme \<Rightarrow> (nat \<times> nat \<times> nat) list" where
  "gradient_order rect =
     List.product [0..<unat (rHeight rect)] (List.product [0..<unat (rWidth rect)] [0, 1, 2])"

section \<open>Reading a rectangle\<close>

definition tight_result :: "color list \<Rightarrow> (('z, 'm) tight_client_scheme, color list \<times> int) prog" where
  "tight_result colors = bindM getS (\<lambda>t. ret (colors, tSize t))"

definition reset_buf :: "(('z, 'm) tight_client_scheme, unit) prog" where
  "reset_buf = modifyS (\<lambda>t. t\<lparr>tBuf := []\<rparr>)"

definition copy_filter ::
  "'z zlib \<Rightarrow> 'y rect_scheme \<Rightarrow> nat \<Rightarrow> (('z, 'm) tight_client_scheme, color list \<times> int) prog" where
  "copy_filter zl rect stream =
     bindM (basicCompressionReader zl (Area rect * 3) stream) (\<lambda>r.
     bindM reset_buf (\<lambda>_.
     bindM (readTPixels zl r (Area rect * 3 div 3)) (\<lambda>colors.
     tight_result colors)))"

definition palette_filter ::
  "'z zlib \<Rightarrow> 'y rect_scheme \<Rightarrow> nat \<Rightarrow> (('z, 'm) tight_client_scheme, color list \<times> int) prog" where
  "palette_filter zl rect stream =
     bindM read_u8 (\<lambda>p.
     let paletteSize = unat p + 1 in
     bindM reset_buf (\<lambda>_.
     bindM (readTPixels zl Conn paletteSize) (\<lambda>palette.
     bindM (basicCompressionReader zl (palette_size paletteSize rect) stream) (\<lambda>r.
     bindM (readToBuf zl r (palette_size paletteSize rect)) (\<lambda>_.
     bindM getS (\<lambda>t.
     bindM (lift (if paletteSize = 2
                  then palette_bits (unat (rWidth rect)) palette (tBuf t) 8 (-1) [0..<Area rect]
                  else palette_bytes palette (tBuf t) (Area rect))) (\<lambda>colors.
     tight_result colors)))))))"

definition gradient_filter ::
  "'z zlib \<Rightarrow> 'y rect_scheme \<Rightarrow> nat \<Rightarrow> (('z, 'm) tight_client_scheme, color list \<times> int) prog" where
  "gradient_filter zl rect stream =
     bindM getS (\<lambda>t.
     if BPP (PixelFormat t) \<noteq> 16 \<and> BPP (PixelFormat t) \<noteq> 32
     then fail (Errorf ''can't use GradientFilter with bitsPerPixel'')
     else
       bindM (basicCompressionReader zl (Area rect * 3) stream) (\<lambda>r.
       bindM reset_buf (\<lambda>_.
       bindM (readTPixels zl r (Area rect * 3)) (\<lambda>diffs.
       bindM (lift (gradient_loop (unat (rWidth rect)) diffs (gradient_order rect)
                     (replicate (Area rect * 3 div 3) zero_color))) (\<lambda>colors.
       tight_result colors)))))"

definition readBasicCompression ::
  "'z zlib \<Rightarrow> 'y rect_scheme \<Rightarrow> bool \<Rightarrow> nat \<Rightarrow>
    (('z, 'm) tight_client_scheme, color list \<times> int) prog" where
  "readBasicCompression zl rect readFilterID stream =
     bindM (if readFilterID
            then bindM read_u8 (\<lambda>f. bindM (modifyS (\<lambda>t. t\<lparr>tSize := tSize t + 1\<rparr>)) (\<lambda>_. ret f))
            else ret 0) (\<lambda>filterID.
     if filterID = 0 then copy_filter zl rect stream
     else if filterID = 1 then palette_filter zl rect stream
     else if filterID = 2 then gradient_filter zl rect stream
     else fail (Errorf ''invalid filter-id byte''))"

text \<open>
  \<open>jpeg bs\<close> decodes a picture from a reader that holds \<open>bs\<close>: the bytes of its pixels, or \<open>None\<close> for a
  nil image, and how many bytes it has read.
\<close>

type_synonym jpeg_decoder = "u8 list \<Rightarrow> u8 list option outcome \<times> nat"

definition jpeg_compression ::
  "jpeg_decoder \<Rightarrow> 'y rect_scheme \<Rightarrow> (('z, 'm) tight_client_scheme, color list \<times> int) prog" where
  "jpeg_compression jpeg rect =
     bindM readCompactLength (\<lambda>len.
     bindM getS (\<lambda>t.
     case jpeg (take len (rbytes t)) of (img, used) \<Rightarrow>
     bindM (modifyS (\<lambda>t. t\<lparr>rbytes := drop (min used len) (rbytes t)\<rparr>)) (\<lambda>_.
     bindM (annotate ''could not decode jpeg'' (lift img)) (\<lambda>pix.
     case pix of
       None \<Rightarrow> fail (Errorf ''jpeg decoding returned nil'')
     | Some bs \<Rightarrow>
         bindM (modifyS (\<lambda>t. t\<lparr>tSize := tSize t + int len\<rparr>)) (\<lambda>_.
         bindM (lift (fst (qb_ReadColors (Area rect) (NewQuickBuf bs)))) (\<lambda>colors.
         tight_result colors))))))"

definition Tight_Read ::
  "'z zlib \<Rightarrow> jpeg_decoder \<Rightarrow> 'y rect_scheme \<Rightarrow>
    (('z, 'm) tight_client_scheme, color list \<times> int) prog" where
  "Tight_Read zl jpeg rect =
     bindM (modifyS (\<lambda>t. t\<lparr>tSize := 0\<rparr>)) (\<lambda>_.
     bindM getS (\<lambda>t.
     if 2048 < rWidth rect then fail (Errorf ''rectangle too wide'')
     else if \<not> tight_pf (PixelFormat t)
     then fail (Errorf ''this implementation of Tight encoding does not support this pixel format'')
     else
       bindM read_u8 (\<lambda>control.
       bindM (modifyS (\<lambda>t. t\<lparr>tSize := tSize t + 1, tReset := tReset t OR (control AND 0x0F)\<rparr>)) (\<lambda>_.
       if drop_bit 7 control = 0
       then readBasicCompression zl rect (drop_bit 6 control = 1) (unat (drop_bit 4 control AND 3))
       else if drop_bit 4 control = 8
       then bindM reset_buf (\<lambda>_.
            bindM (readTPixels zl Conn 1) (\<lambda>fill.
            bindM (lift (if Area rect = 0 then Ok [] else bindO (index_go fill 0) (\<lambda>c.
                     Ok (replicate (Area rect) c)))) (\<lambda>colors.
            tight_result colors)))
       else if drop_bit 4 control = 9 then jpeg_compression jpeg rect
       else fail (Errorf ''invalid compression control byte'')))))"

section \<open>Compact lengths\<close>

text \<open>The format: seven bits in each of the first two bytes, eight in the third, low bits first.\<close>

definition compact_bytes :: "nat \<Rightarrow> u8 list" where
  "compact_bytes n =
     (if n < 128 then [of_nat n]
      else if n < 16384 then [of_nat (128 + n mod 128), of_nat (n div 128)]
      else [of_nat (128 + n mod 128), of_nat (128 + n div 128 mod 128), of_nat (n div 16384)])"

lemma or_push_nat: "k < 2 ^ s \<Longrightarrow> (k :: nat) OR m * 2 ^ s = k + m * 2 ^ s"
proof -
  assume "k < 2 ^ s"
  then have k: "take_bit s k = k" by (simp add: take_bit_nat_eq_self)
  have "k AND push_bit s m = 0"
    by (rule bit_eqI) (metis bit_0_eq bit_and_iff bit_push_bit_iff bit_take_bit_iff bot_apply bot_bool_def k leD)
  then have "k + push_bit s m = k OR push_bit s m" by (rule disjunctive_add_eq_or)
  then show ?thesis by (simp add: push_bit_eq_mult)
qed

lemma ucast_of_nat_u8: "b < 256 \<Longrightarrow> (ucast (of_nat b :: u8) :: 64 word) = of_nat b"
  by (simp add: unsigned_of_nat take_bit_nat_eq_self)

lemma or_push_word: "k < 2 ^ s \<Longrightarrow> (of_nat k :: 64 word) OR push_bit s (of_nat m) = of_nat (k + m * 2 ^ s)"
proof -
  assume k: "k < 2 ^ s"
  have "(of_nat (k + m * 2 ^ s) :: 64 word) = of_nat (k OR m * 2 ^ s)" by (simp only: or_push_nat [OF k])
  also have "\<dots> = of_nat k OR of_nat (m * 2 ^ s)" by (rule of_nat_or_eq)
  finally show ?thesis by (simp add: push_bit_eq_mult)
qed

lemma small_or: "unat (x :: 64 word) < 2 ^ n \<Longrightarrow> unat y < 2 ^ n \<Longrightarrow> unat (x OR y) < 2 ^ n"
  by (metis take_bit_nat_eq_self_iff unsigned_or_eq take_bit_or)

lemma small_push:
  assumes "unat b < 2 ^ k"
  shows "unat (push_bit s (ucast (b :: u8)) :: 64 word) < 2 ^ (s + k)"
proof -
  have "unat (push_bit s (ucast b) :: 64 word) \<le> unat (ucast b :: 64 word) * 2 ^ s"
    by (simp only: unsigned_push_bit_eq) (simp add: push_bit_eq_mult)
  also have "unat (ucast b :: 64 word) \<le> unat b" by (simp add: unsigned_ucast_eq)
  then have "unat (ucast b :: 64 word) * 2 ^ s < 2 ^ k * 2 ^ s" using assms by simp
  finally show ?thesis by (simp add: power_add mult.commute)
qed

lemma read_byte_Cons [wire_simps]: "rbytes s = b # bs \<Longrightarrow> read_byte s = (Ok b, s\<lparr>rbytes := bs\<rparr>)"
  by (simp add: read_byte_def)

lemma compact_loop_last:
  assumes "rbytes t = b # bs" and "b < 0x80 \<or> i = 2"
  shows "compact_loop n i x sh t =
    (Ok (unat (x OR push_bit sh (ucast b))), t\<lparr>rbytes := bs, tSize := tSize t + 1\<rparr>)"
  using assms by (cases n) (simp_all add: compact_loop.simps bindM_def read_byte_Cons)

lemma compact_loop_more:
  assumes "rbytes t = b # bs" and "\<not> b < 0x80" and "i \<noteq> 2"
  shows "compact_loop (Suc n) i x sh t =
    compact_loop n (i + 1) (x OR push_bit sh (ucast (b AND 0x7f))) (sh + 7)
      (t\<lparr>rbytes := bs, tSize := tSize t + 1\<rparr>)"
  using assms by (subst compact_loop.simps) (simp add: bindM_def read_byte_Cons)

lemma high_byte:
  assumes "m < 128"
  shows "\<not> (of_nat (128 + m) :: u8) < 0x80" "(of_nat m :: u8) < 0x80"
proof -
  have "unat (of_nat (128 + m) :: u8) = 128 + m" "unat (of_nat m :: u8) = m"
    using assms by (simp_all add: unat_of_nat_u8 del: of_nat_add)
  then show "\<not> (of_nat (128 + m) :: u8) < 0x80" "(of_nat m :: u8) < 0x80"
    using assms by (simp_all add: word_less_nat_alt del: of_nat_add)
qed

lemma unat_of_nat_u64: "n < 2 ^ 22 \<Longrightarrow> unat (of_nat n :: 64 word) = n"
  by (simp add: unsigned_of_nat take_bit_nat_eq_self)

lemma readCompactLength_bytes:
  assumes "n < 2 ^ 22" and "rbytes t = compact_bytes n @ rest"
  shows "readCompactLength t =
    (Ok n, t\<lparr>rbytes := rest, tSize := tSize t + int (length (compact_bytes n))\<rparr>)"
proof -
  note b7 = index_bits(2) [unfolded] and u = unat_of_nat_u64
  consider "n < 128" | "128 \<le> n" "n < 16384" | "16384 \<le> n" by linarith
  then show ?thesis
  proof cases
    case 1
    then have "rbytes t = of_nat n # rest" using assms by (simp add: compact_bytes_def)
    from compact_loop_last [OF this, of 0 2 0 0] show ?thesis
      using 1 high_byte(2) [OF 1]
      by (simp add: readCompactLength_def compact_bytes_def ucast_of_nat_u8 u)
  next
    case 2
    have m: "n mod 128 < 128" "n div 128 < 128" using 2 by auto
    have t: "rbytes t = of_nat (128 + n mod 128) # of_nat (n div 128) # rest"
      using 2 assms by (simp add: compact_bytes_def)
    have "unat ((of_nat (n mod 128) :: 64 word) OR push_bit 7 (of_nat (n div 128))) = n"
      using or_push_word [of "n mod 128" 7 "n div 128"] 2 u [of n] by simp
    then show ?thesis
      using 2 m high_byte [OF m(1)] high_byte(2) [OF m(2)] index_bits(2) [OF m(1)]
        compact_loop_more [OF t, of 0 1 0 0]
        compact_loop_last [of "t\<lparr>rbytes := of_nat (n div 128) # rest, tSize := tSize t + 1\<rparr>" "of_nat (n div 128)" rest 1 1]
      by (simp add: readCompactLength_def compact_bytes_def ucast_of_nat_u8 numeral_2_eq_2 del: of_nat_add compact_loop.simps)
  next
    case 3
    have m: "n mod 128 < 128" "n div 128 mod 128 < 128" "n div 16384 < 256" using assms by auto
    have t: "rbytes t = of_nat (128 + n mod 128) # of_nat (128 + n div 128 mod 128) # of_nat (n div 16384) # rest"
      using 3 assms by (simp add: compact_bytes_def)
    have e: "n mod 128 + n div 128 mod 128 * 2 ^ 7 + n div 16384 * 2 ^ 14 = n"
      using mod_mult2_eq [of n 128 128] mult_div_mod_eq [of 16384 n] by simp
    have l: "n mod 128 + n div 128 mod 128 * 2 ^ 7 < 2 ^ 14" using m(1,2) by simp
    have "((of_nat (n mod 128) :: 64 word) OR push_bit 7 (of_nat (n div 128 mod 128))) OR push_bit 14 (of_nat (n div 16384)) = of_nat n"
    proof -
      have "n mod 128 < 2 ^ 7" using m(1) by simp
      then show ?thesis by (simp only: or_push_word [OF l] or_push_word e)
    qed
    then have "unat (((of_nat (n mod 128) :: 64 word) OR push_bit 7 (of_nat (n div 128 mod 128))) OR push_bit 14 (of_nat (n div 16384))) = n"
      using u [OF assms(1)] by simp
    then show ?thesis
      using 3 m high_byte [OF m(1)] high_byte [OF m(2)] index_bits(2) [OF m(1)] index_bits(2) [OF m(2)]
        compact_loop_more [OF t, of 0 1 0 0]
        compact_loop_more [of "t\<lparr>rbytes := of_nat (128 + n div 128 mod 128) # of_nat (n div 16384) # rest, tSize := tSize t + 1\<rparr>"
          "of_nat (128 + n div 128 mod 128)" "of_nat (n div 16384) # rest" 1 0]
        compact_loop_last [of "t\<lparr>rbytes := of_nat (n div 16384) # rest, tSize := tSize t + 2\<rparr>" "of_nat (n div 16384)" rest 2 0]
      by (simp add: readCompactLength_def compact_bytes_def ucast_of_nat_u8 numeral_2_eq_2 add.commute del: of_nat_add compact_loop.simps)
  qed
qed

text \<open>(C29) \<open>readCompactLength\<close> reads the length the Tight encoding writes in one, two or three bytes,
  for every length up to 4194303, and counts the bytes it has read; 10000 is written as 90 4E.\<close>

theorem compact_length_roundtrip:
  assumes "n < 2 ^ 22" and "rbytes t = compact_bytes n @ rest"
  shows "readCompactLength t =
      (Ok n, t\<lparr>rbytes := rest, tSize := tSize t + int (length (compact_bytes n))\<rparr>)
    \<and> compact_bytes 10000 = [0x90, 0x4E]"
  using readCompactLength_bytes [OF assms] by (simp add: compact_bytes_def)

definition demo_tight :: "u8 list \<Rightarrow> 'z tight_client" where
  "demo_tight bs =
     \<lparr>rbytes = bs, rend = EOF, sent = [], wres = [], ColorMap = replicate 256 zero_color,
      Encs = [TightEncoding], FramebufferWidth = 1024, FramebufferHeight = 768, DesktopName = [],
      PixelFormat = gym_pf, tSize = 0, tStreams = replicate 4 None, tStreamBufs = replicate 4 [],
      tReset = 0, tBuf = []\<rparr>"

theorem compact_length_roundtrip_witness:
  "readCompactLength (demo_tight [0x90, 0x4E, 7] :: unit tight_client) =
     (Ok 10000, demo_tight [7]\<lparr>tSize := 2\<rparr>)"
  using compact_length_roundtrip [of 10000 "demo_tight [0x90, 0x4E, 7] :: unit tight_client" "[7]"]
  by (simp add: compact_bytes_def demo_tight_def)

lemma compact_loop_end: "rbytes t = [] \<Longrightarrow> compact_loop n i x sh t = (Err (rend t), t)"
  by (simp add: compact_loop.simps bindM_def read_byte_def)

text \<open>What a compact length may be after at most \<open>n + 1\<close> more bytes.\<close>

definition compact_post ::
  "nat \<Rightarrow> ('z, 'm) tight_client_scheme \<Rightarrow> nat outcome \<times> ('z, 'm) tight_client_scheme \<Rightarrow> bool" where
  "compact_post n t res =
     (case res of
        (Ok len, t') \<Rightarrow> len < 2 ^ 22 \<and> (\<exists>k \<in> {1..Suc n}. k \<le> length (rbytes t) \<and>
          t' = t\<lparr>rbytes := drop k (rbytes t), tSize := tSize t + int k\<rparr>)
      | (Err e, t') \<Rightarrow> e = rend t \<and> length (rbytes t) < Suc n
      | _ \<Rightarrow> False)"

lemma compact_post_last:
  assumes "rbytes t = b # bs" and "b < 0x80 \<or> i = 2" and "len = unat (x OR push_bit sh (ucast b))"
    and "len < 2 ^ 22"
  shows "compact_post n t (compact_loop n i x sh t)"
  unfolding compact_loop_last [OF assms(1,2)] using assms
  by (auto simp: compact_post_def intro!: bexI [of _ 1])

lemma compact_post_more:
  assumes "rbytes t = b # bs" and "compact_post n (t\<lparr>rbytes := bs, tSize := tSize t + 1\<rparr>) res"
  shows "compact_post (Suc n) t res"
  using assms
  by (auto simp: compact_post_def split: prod.splits outcome.splits intro!: bexI [of _ "Suc _"])

lemma compact_loop_bound:
  assumes "unat x < 2 ^ sh" and "sh = 7 * i" and "i + n = 2"
  shows "compact_post n t (compact_loop n i x sh t)"
  using assms
proof (induction n arbitrary: i x sh t)
  case 0
  show ?case
  proof (cases "rbytes t")
    case Nil
    then show ?thesis by (simp add: compact_loop_end compact_post_def)
  next
    case (Cons b bs)
    have "unat (x OR push_bit 14 (ucast b)) < 2 ^ 22"
      using 0 small_push [of b 8 14] unsigned_less [of b, where 'a = nat] by (intro small_or) simp_all
    with 0 Cons show ?thesis by (intro compact_post_last) auto
  qed
next
  case (Suc n)
  show ?case
  proof (cases "rbytes t")
    case Nil
    then show ?thesis by (simp add: compact_loop_end compact_post_def)
  next
    case (Cons b bs)
    have sh: "sh \<le> 7" using Suc.prems by simp
    then have pow: "(2 :: nat) ^ (sh + 7) \<le> 2 ^ 22" "(2 :: nat) ^ sh \<le> 2 ^ (sh + 7)"
      using power_increasing [of "sh + 7" 22 "2 :: nat"] by simp_all
    show ?thesis
    proof (cases "b < 0x80")
      case True
      then have "unat b < 2 ^ 7" by (simp add: word_less_nat_alt)
      then have "unat (x OR push_bit sh (ucast b)) < 2 ^ (sh + 7)"
        using Suc.prems(1) pow small_push by (intro small_or) (auto intro: less_le_trans)
      then have "unat (x OR push_bit sh (ucast b)) < 2 ^ 22" using pow(1) by linarith
      with Cons True show ?thesis by (intro compact_post_last) auto
    next
      case False
      let ?x = "x OR push_bit sh (ucast (b AND 0x7f))"
      have "b AND 0x7f \<le> 0x7f" by (rule word_and_le1)
      then have "unat (b AND 0x7f) < 2 ^ 7" by (simp add: word_le_nat_alt)
      then have "unat ?x < 2 ^ (sh + 7)"
        using Suc.prems(1) pow small_push by (intro small_or) (auto intro: less_le_trans)
      from Suc.IH [OF this, of "Suc i" "t\<lparr>rbytes := bs, tSize := tSize t + 1\<rparr>"] Suc.prems
      have "compact_post n (t\<lparr>rbytes := bs, tSize := tSize t + 1\<rparr>)
          (compact_loop n (i + 1) ?x (sh + 7) (t\<lparr>rbytes := bs, tSize := tSize t + 1\<rparr>))"
        by simp
      then have "compact_post (Suc n) t
          (compact_loop n (i + 1) ?x (sh + 7) (t\<lparr>rbytes := bs, tSize := tSize t + 1\<rparr>))"
        by (rule compact_post_more [OF Cons])
      moreover have "i \<noteq> 2" using Suc.prems by simp
      ultimately show ?thesis using compact_loop_more [OF Cons False] by simp
    qed
  qed
qed

lemma compact_length_post: "compact_post 2 t (readCompactLength t)"
  unfolding readCompactLength_def by (rule compact_loop_bound) simp_all

text \<open>\<open>readCompactLength\<close> on any bytes: it returns a length below 4194304 after reading one to
  three bytes, or the error of the connection when that ends before the length does; it neither
  panics nor reads on.\<close>

lemma compact_length_bounds:
  "compact_post 2 t (readCompactLength t)"
  by (rule compact_length_post)

section \<open>The palette filter\<close>

definition bit_offset :: "nat \<Rightarrow> nat" where
  "bit_offset x = (if x mod 8 = 0 then 0 else 8 - x mod 8)"

lemma bit_offset_step:
  "(of_nat (if x mod 8 = 0 then 8 else bit_offset x) :: u8) - 1 = of_nat (bit_offset (Suc x))"
  "bit_offset (Suc x) = 7 - x mod 8"
proof -
  show s: "bit_offset (Suc x) = 7 - x mod 8"
    by (auto simp: bit_offset_def mod_Suc)
  have "(if x mod 8 = 0 then 8 else bit_offset x) = Suc (bit_offset (Suc x))"
    unfolding s by (auto simp: bit_offset_def)
  then show "(of_nat (if x mod 8 = 0 then 8 else bit_offset x) :: u8) - 1 = of_nat (bit_offset (Suc x))"
    by simp
qed

lemma bit_offset_zero: "(of_nat (bit_offset x) :: u8) = 0 \<longleftrightarrow> x mod 8 = 0"
proof -
  have "bit_offset x < 256" and z: "bit_offset x = 0 \<longleftrightarrow> x mod 8 = 0"
    using mod_less_divisor [of 8 x] by (auto simp: bit_offset_def simp del: mod_less_divisor)
  then show ?thesis using of_nat_u8_eq [of "bit_offset x" 0] by (simp only: z) simp
qed

lemma row_bit:
  "unat (drop_bit (7 - x mod 8) (bs ! (x div 8)) AND 1) = row_field 1 bs x"
proof -
  have "unat (drop_bit m b AND 1 :: u8) = unat b div 2 ^ m mod 2" for b :: u8 and m
  proof -
    have "drop_bit m b AND 1 = take_bit 1 (drop_bit m b)"
      by (simp add: take_bit_eq_mask mask_eq_exp_minus_1)
    then show ?thesis
      using unsigned_less [of b, where 'a = nat]
      by (simp only: unsigned_take_bit_eq unsigned_drop_bit_eq) (simp add: take_bit_eq_mod drop_bit_eq_div)
  qed
  then show ?thesis by (simp add: row_field_def)
qed

lemma ceil_div_8: "(x + 7) div 8 = (if x mod 8 = 0 then x div 8 else Suc (x div 8))" for x :: nat
proof -
  define q r where "q = x div 8" and "r = x mod 8"
  have x: "x = 8 * q + r" and r: "r < 8" by (simp_all add: q_def r_def)
  have "(8 * q + r + 7) div 8 = (if r = 0 then q else Suc q)" using r by auto
  then have "(x + 7) div 8 = (if r = 0 then q else Suc q)" by (subst x)
  then show ?thesis by (simp only: q_def r_def)
qed

lemma palette_bits_row:
  assumes "0 < W" and "x + n = W" and "length pal = 2"
    and "\<And>x. x < W \<Longrightarrow> y * rb + x div 8 < length buf \<and> buf ! (y * rb + x div 8) = bs ! (x div 8)"
    and "x \<noteq> 0 \<longrightarrow> off = of_nat (bit_offset x)"
  shows "\<exists>off'. palette_bits W pal buf off (int (y * rb + (x + 7) div 8) - 1)
        (map (\<lambda>x. y * W + x) [x..<W] @ is) =
      bindO (palette_bits W pal buf off' (int (y * rb + (W + 7) div 8) - 1) is) (\<lambda>cs.
        Ok (map (\<lambda>x. pal ! row_field 1 bs x) [x..<W] @ cs))"
  using assms(2,5)
proof (induction n arbitrary: x off)
  case 0
  then show ?case
    by (intro exI [of _ off]) (cases "palette_bits W pal buf off (int (y * rb + (W + 7) div 8) - 1) is", simp_all)
next
  case (Suc n)
  then have x: "x < W" by simp
  let ?fresh = "off = 0 \<or> (y * W + x) mod W = 0"
  have fresh: "?fresh \<longleftrightarrow> x mod 8 = 0"
    using x Suc.prems(2) bit_offset_zero [of x] by (cases "x = 0") auto
  have off': "(if ?fresh then 8 else off) - 1 = of_nat (bit_offset (Suc x))"
    using Suc.prems(2) bit_offset_step(1) [of x] fresh by (cases "x = 0") (auto split: if_splits)
  have idx: "(if ?fresh then int (y * rb + (x + 7) div 8) - 1 + 1 else int (y * rb + (x + 7) div 8) - 1) =
      int (y * rb + x div 8)"
    unfolding ceil_div_8 using fresh by simp
  have field: "row_field 1 bs x < 2" by (simp add: row_field_def)
  have un: "unat (of_nat (bit_offset (Suc x)) :: u8) = 7 - x mod 8"
    unfolding bit_offset_step(2) by (rule unat_of_nat_u8) simp
  have "(Suc x + 7) div 8 = Suc (x div 8)" by simp
  then have nxt: "int (y * rb + x div 8) = int (y * rb + (Suc x + 7) div 8) - 1" by simp
  have step: "palette_bits W pal buf off (int (y * rb + (x + 7) div 8) - 1)
        (map (\<lambda>x. y * W + x) [x..<W] @ is) =
      bindO (palette_bits W pal buf (of_nat (bit_offset (Suc x))) (int (y * rb + (Suc x + 7) div 8) - 1)
          (map (\<lambda>x. y * W + x) [Suc x..<W] @ is))
        (\<lambda>cs. Ok (pal ! row_field 1 bs x # cs))"
    unfolding upt_conv_Cons [OF x] list.map append_Cons palette_bits.simps Let_def off' idx un nat_int
      nxt [symmetric]
    using assms(3) assms(4) [of x] x row_bit [of x bs] field by simp
  from Suc.IH [of "Suc x" "of_nat (bit_offset (Suc x))"] Suc.prems(1) obtain off'' where
    "palette_bits W pal buf (of_nat (bit_offset (Suc x))) (int (y * rb + (Suc x + 7) div 8) - 1)
        (map (\<lambda>x. y * W + x) [Suc x..<W] @ is) =
      bindO (palette_bits W pal buf off'' (int (y * rb + (W + 7) div 8) - 1) is) (\<lambda>cs.
        Ok (map (\<lambda>x. pal ! row_field 1 bs x) [Suc x..<W] @ cs))"
    by auto
  with step show ?case
    by (intro exI [of _ off''])
      (cases "palette_bits W pal buf off'' (int (y * rb + (W + 7) div 8) - 1) is",
       simp_all add: upt_conv_Cons [OF x])
qed

lemma upt_mult: "[0..<h * w] = concat (map (\<lambda>y. map (\<lambda>x. y * w + x) [0..<w]) [0..<h])"
proof (induction h)
  case (Suc h)
  have "[0..<Suc h * w] = [0..<h * w] @ [h * w..<h * w + w]"
    using upt_add_eq_append [of 0 "h * w" w] by (simp add: add.commute)
  moreover have "[h * w..<h * w + w] = map (\<lambda>x. h * w + x) [0..<w]"
    by (rule nth_equalityI) simp_all
  ultimately show ?case using Suc by simp
qed simp

lemma nth_concat_rows:
  "\<forall>bs \<in> set rows. length bs = rb \<Longrightarrow> y < length rows \<Longrightarrow> k < rb \<Longrightarrow>
    concat rows ! (y * rb + k) = rows ! y ! k \<and> y * rb + k < length (concat rows)"
proof (induction rows arbitrary: y)
  case (Cons bs rows)
  then show ?case by (cases y) (simp_all add: nth_append add.assoc)
qed simp

lemma palette_bits_rows:
  assumes "0 < W" and "length pal = 2" and "\<forall>bs \<in> set rows. length bs = (W + 7) div 8"
  shows "palette_bits W pal (concat rows) 8 (- 1) [0..<length rows * W] =
    Ok (concat (map (\<lambda>bs. map (\<lambda>x. pal ! row_field 1 bs x) [0..<W]) rows))"
proof -
  define rb where "rb = (W + 7) div 8"
  have rest: "palette_bits W pal (concat rows) off (int (y * rb) - 1)
        (concat (map (\<lambda>y. map (\<lambda>x. y * W + x) [0..<W]) [y..<length rows])) =
      Ok (concat (map (\<lambda>bs. map (\<lambda>x. pal ! row_field 1 bs x) [0..<W]) (drop y rows)))"
    if "n = length rows - y" and "y \<le> length rows" for n y off
    using that
  proof (induction n arbitrary: y off)
    case 0
    then show ?case by simp
  next
    case (Suc n)
    then have y: "y < length rows" by simp
    have cell: "y * rb + x div 8 < length (concat rows) \<and> concat rows ! (y * rb + x div 8) = rows ! y ! (x div 8)"
      if "x < W" for x
    proof -
      have "x div 8 < rb" using that by (simp add: rb_def)
      with nth_concat_rows [of rows rb y "x div 8"] assms(3) y show ?thesis by (simp add: rb_def)
    qed
    let ?is = "concat (map (\<lambda>y. map (\<lambda>x. y * W + x) [0..<W]) [Suc y..<length rows])"
    obtain off' where step: "palette_bits W pal (concat rows) off (int (y * rb + (0 + 7) div 8) - 1)
          (map (\<lambda>x. y * W + x) [0..<W] @ ?is) =
        bindO (palette_bits W pal (concat rows) off' (int (y * rb + (W + 7) div 8) - 1) ?is) (\<lambda>cs.
          Ok (map (\<lambda>x. pal ! row_field 1 (rows ! y) x) [0..<W] @ cs))"
      using palette_bits_row [OF assms(1) _ assms(2) cell, of 0 W off ?is] by auto
    have nxt: "int (y * rb + (W + 7) div 8) - 1 = int (Suc y * rb) - 1" by (simp add: rb_def)
    have "palette_bits W pal (concat rows) off' (int (Suc y * rb) - 1) ?is =
        Ok (concat (map (\<lambda>bs. map (\<lambda>x. pal ! row_field 1 bs x) [0..<W]) (drop (Suc y) rows)))"
      using Suc.prems by (intro Suc.IH) auto
    then show ?case
      using step unfolding nxt upt_conv_Cons [OF y] Cons_nth_drop_Suc [OF y, symmetric] by simp
  qed
  from rest [of "length rows" 0 8] show ?thesis by (simp add: upt_mult)
qed

lemma palette_bytes_run:
  assumes "length bs = area" and "\<forall>b \<in> set bs. unat b < length pal"
  shows "palette_bytes pal bs area = Ok (map (\<lambda>b. pal ! unat b) bs)"
proof -
  have "palette_bytes pal bs area = Ok (map (\<lambda>i. pal ! unat (bs ! i)) [0..<area])"
    unfolding palette_bytes_def using assms by (intro mapO_Ok) (auto simp: not_le)
  also have "map (\<lambda>i. pal ! unat (bs ! i)) [0..<area] = map (\<lambda>b. pal ! unat b) bs"
    using assms(1) by (intro nth_equalityI) auto
  finally show ?thesis .
qed

section \<open>Rectangles on the wire\<close>

text \<open>
  \<open>filter_encodes W H fid hdr data px\<close>: with filter \<open>fid\<close> the pixels \<open>px\<close> are sent as the filter's own
  bytes \<open>hdr\<close> (the palette) and the data \<open>data\<close> that goes through compression.
\<close>

inductive filter_encodes ::
  "nat \<Rightarrow> nat \<Rightarrow> u8 \<Rightarrow> u8 list \<Rightarrow> u8 list \<Rightarrow> color list \<Rightarrow> bool" for W H where
  Copy: "length px = W * H \<Longrightarrow> filter_encodes W H 0 [] (colors_bytes px) px"
| TwoColors: "length rows = H \<Longrightarrow> (\<forall>bs \<in> set rows. length bs = (W + 7) div 8) \<Longrightarrow>
    filter_encodes W H 1 (1 # colors_bytes [c0, c1]) (concat rows)
      (concat (map (\<lambda>bs. map (\<lambda>x. [c0, c1] ! row_field 1 bs x) [0..<W]) rows))"
| Palette: "1 \<le> length pal \<Longrightarrow> length pal \<noteq> 2 \<Longrightarrow> length pal \<le> 256 \<Longrightarrow> length data = W * H \<Longrightarrow>
    (\<forall>b \<in> set data. unat b < length pal) \<Longrightarrow>
    filter_encodes W H 1 (of_nat (length pal - 1) # colors_bytes pal) data (map (\<lambda>b. pal ! unat b) data)"

text \<open>
  The zlib stream \<open>i\<close>, made or reset first where that is due, gives \<open>data\<close> once \<open>z\<close> is in its buffer.
\<close>

definition stream_inflates ::
  "'z zlib \<Rightarrow> ('z, 'm) tight_client_scheme \<Rightarrow> nat \<Rightarrow> u8 list \<Rightarrow> u8 list \<Rightarrow> bool" where
  "stream_inflates zl t i z data =
     (let buf = (if reset_pending t i then [] else tStreamBufs t ! i) @ z in
      case (case tStreams t ! i of Some st \<Rightarrow> (Ok st, buf) | None \<Rightarrow> zlNew zl buf) of
        (Ok st, buf1) \<Rightarrow>
          (case (if reset_pending t i then zlReset zl st buf1 else (st, buf1)) of
             (st2, buf2) \<Rightarrow> fst (zlRead zl (length data) st2 buf2) = (data, None))
      | _ \<Rightarrow> False)"

text \<open>Data of less than twelve bytes is sent as it is, longer data compressed, after its length.\<close>

definition sends ::
  "'z zlib \<Rightarrow> ('z, 'm) tight_client_scheme \<Rightarrow> nat \<Rightarrow> u8 list \<Rightarrow> u8 list \<Rightarrow> bool" where
  "sends zl t i data bytes \<longleftrightarrow>
     (if length data < 12 then bytes = data
      else \<exists>z. bytes = compact_bytes (length z) @ z \<and> length z < 2 ^ 22 \<and> stream_inflates zl t i z data)"

inductive tight_encodes ::
  "'z zlib \<Rightarrow> ('z, 'm) tight_client_scheme \<Rightarrow> nat \<Rightarrow> nat \<Rightarrow> u8 list \<Rightarrow> color list \<Rightarrow> bool" for zl t W H where
  Fill: "drop_bit 4 control = 8 \<Longrightarrow>
    tight_encodes zl t W H (control # color_bytes c) (replicate (W * H) c)"
| Basic: "drop_bit 7 control = 0 \<Longrightarrow> filter_encodes W H fid hdr data px \<Longrightarrow>
    (drop_bit 6 control \<noteq> 1 \<longrightarrow> fid = 0) \<Longrightarrow>
    sends zl (t\<lparr>tReset := tReset t OR (control AND 0x0F)\<rparr>) (unat (drop_bit 4 control AND 3)) data bytes \<Longrightarrow>
    tight_encodes zl t W H (control # (if drop_bit 6 control = 1 then [fid] else []) @ hdr @ bytes) px"

text \<open>The parts of the state that decide what a stream gives; the sizes and buffers do not.\<close>

lemma sends_cong:
  assumes "tStreams t' = tStreams t" and "tStreamBufs t' = tStreamBufs t" and "tReset t' = tReset t"
  shows "sends zl t' i data bytes = sends zl t i data bytes"
proof -
  have "reset_pending t' = reset_pending t" by (simp add: reset_pending_def fun_eq_iff assms(3))
  then show ?thesis by (simp only: sends_def stream_inflates_def assms)
qed

lemma conn_to_buf_run:
  "rbytes t = bs @ rest \<Longrightarrow> length bs = n \<Longrightarrow>
    conn_to_buf n t = (Ok (), t\<lparr>tBuf := tBuf t @ bs, rbytes := rest\<rparr>)"
  by (simp add: conn_to_buf_def)

lemma new_stream_run:
  fixes zl :: "'z zlib" and u :: "('z, 'm) tight_client_scheme"
  assumes "(case tStreams u ! i of Some st \<Rightarrow> (Ok st, buf) | None \<Rightarrow> zlNew zl buf) = (Ok st, buf1)"
    and "tStreamBufs u ! i = buf" and "i < length (tStreams u)" and "i < length (tStreamBufs u)"
  shows "new_stream zl i u =
    (Ok (), u\<lparr>tStreams := (tStreams u)[i := Some st], tStreamBufs := (tStreamBufs u)[i := buf1]\<rparr>)"
proof (cases "tStreams u ! i")
  case None
  with assms show ?thesis by (simp add: new_stream_def)
next
  case (Some st')
  with assms have "(tStreams u)[i := Some st] = tStreams u" "(tStreamBufs u)[i := buf1] = tStreamBufs u"
    using list_update_id [of "tStreams u" i] list_update_id [of "tStreamBufs u" i] by auto
  with Some show ?thesis by (simp add: new_stream_def)
qed

lemma basic_reader_run:
  assumes "sends zl t i data bytes" and "rbytes t = bytes @ rest" and "i < length (tStreams t)"
    and "length (tStreamBufs t) = length (tStreams t)"
  shows "\<exists>src t1. basicCompressionReader zl (length data) i t = (Ok src, t1) \<and> tBuf t1 = tBuf t \<and>
    (\<forall>b. \<exists>t2. readToBuf zl src (length data) (t1\<lparr>tBuf := b\<rparr>) = (Ok (), t2) \<and> tBuf t2 = b @ data \<and>
       rbytes t2 = rest)"
proof (cases "length data < 12")
  case True
  with assms have "rbytes t = data @ rest" by (simp add: sends_def)
  with True show ?thesis
    by (auto simp: basicCompressionReader_def readToBuf_def conn_to_buf_run)
next
  case False
  then obtain z where z: "bytes = compact_bytes (length z) @ z" "length z < 2 ^ 22"
      "stream_inflates zl t i z data"
    using assms(1) by (auto simp: sends_def)
  have len: "readCompactLength t =
      (Ok (length z), t\<lparr>rbytes := z @ rest, tSize := tSize t + int (length (compact_bytes (length z)))\<rparr>)"
    by (rule readCompactLength_bytes) (use z assms(2) in auto)
  define buf where "buf = (if reset_pending t i then [] else tStreamBufs t ! i) @ z"
  obtain st buf1 where new: "(case tStreams t ! i of Some st \<Rightarrow> (Ok st, buf) | None \<Rightarrow> zlNew zl buf) = (Ok st, buf1)"
    and "(case (if reset_pending t i then zlReset zl st buf1 else (st, buf1)) of
             (st2, buf2) \<Rightarrow> fst (zlRead zl (length data) st2 buf2) = (data, None))"
    using z(3) unfolding stream_inflates_def Let_def buf_def [symmetric]
    by (auto split: prod.splits outcome.splits)
  moreover obtain st2 buf2 where
    res: "(if reset_pending t i then zlReset zl st buf1 else (st, buf1)) = (st2, buf2)"
    by (cases "if reset_pending t i then zlReset zl st buf1 else (st, buf1)")
  moreover obtain st3 buf3 where "snd (zlRead zl (length data) st2 buf2) = (st3, buf3)"
    by (cases "snd (zlRead zl (length data) st2 buf2)")
  ultimately have rd: "zlRead zl (length data) st2 buf2 = ((data, None), st3, buf3)"
    by (simp add: prod_eq_iff)
  let ?sz = "tSize t + int (length (compact_bytes (length z))) + int (length z)"
  let ?t2 = "t\<lparr>tSize := ?sz, tStreamBufs := (tStreamBufs t)[i := buf], rbytes := rest\<rparr>"
  let ?t3 = "?t2\<lparr>tStreams := (tStreams t)[i := Some st], tStreamBufs := (tStreamBufs t)[i := buf1]\<rparr>"
  let ?t4 = "if reset_pending t i
    then ?t3\<lparr>tStreams := (tStreams t)[i := Some st2], tStreamBufs := (tStreamBufs t)[i := buf2],
              tReset := tReset t AND NOT (push_bit i 1)\<rparr>
    else ?t3"
  have n3: "new_stream zl i ?t2 = (Ok (), ?t3)"
    using new_stream_run [where u = ?t2 and i = i and buf = buf and zl = zl and st = st and ?buf1.0 = buf1] new assms(3,4) by simp
  have r4: "(if reset_pending t i then reset_stream zl i else ret ()) ?t3 = (Ok (), ?t4)"
    using res assms(3,4) by (cases "reset_pending t i") (simp_all add: reset_stream_def)
  have run: "basicCompressionReader zl (length data) i t = (Ok (ZStream i), ?t4)"
  proof (cases "reset_pending t i")
    case True
    with False n3 r4 assms(3,4) show ?thesis
      by (simp add: basicCompressionReader_def bindM_def annotate_def len fill_stream_def buf_def
          reset_pending_def Let_def)
  next
    case False
    with \<open>\<not> length data < 12\<close> n3 r4 assms(3,4) show ?thesis
      by (simp add: basicCompressionReader_def bindM_def annotate_def len fill_stream_def buf_def
          reset_pending_def Let_def)
  qed
  have "tStreams ?t4 ! i = Some st2" "tStreamBufs ?t4 ! i = buf2" "rbytes ?t4 = rest" "tBuf ?t4 = tBuf t"
    using res assms(3,4) by auto
  with run obtain t4 where t4: "basicCompressionReader zl (length data) i t = (Ok (ZStream i), t4)"
      "tStreams t4 ! i = Some st2" "tStreamBufs t4 ! i = buf2" "rbytes t4 = rest" "tBuf t4 = tBuf t"
    by blast
  show ?thesis
    by (rule exI [of _ "ZStream i"], rule exI [of _ t4]) (simp add: readToBuf_def t4 rd)
qed

section \<open>Reading back a rectangle\<close>

lemma readTPixels_run:
  assumes "readToBuf zl src (length cs * 3) t = (Ok (), t1)" and "tBuf t = []"
    and "tBuf t1 = colors_bytes cs" and "cs \<noteq> []"
  shows "readTPixels zl src (length cs) t =
    (Ok cs, t1\<lparr>tSize := tSize t1 + int (length cs * 3), tBuf := []\<rparr>)"
proof -
  have "colors_bytes cs \<noteq> []" using assms(4) by (cases cs) auto
  then have "qb_ReadColors (length cs) (qb_at [] (colors_bytes cs)) = (Ok cs, qb_at (colors_bytes cs) [])"
    using qb_ReadColors_at [of cs "length cs" "[]" "[]"] by simp
  then show ?thesis
    using assms by (simp add: readTPixels_def bindM_def NewQuickBuf_at)
qed

lemma readTPixels_conn:
  assumes "rbytes t = colors_bytes cs @ rest" and "tBuf t = []" and "cs \<noteq> []" and "n = length cs"
  shows "readTPixels zl Conn n t = (Ok cs, t\<lparr>rbytes := rest, tSize := tSize t + int (n * 3)\<rparr>)"
proof -
  have "readToBuf zl Conn (length cs * 3) t = (Ok (), t\<lparr>tBuf := colors_bytes cs, rbytes := rest\<rparr>)"
    using conn_to_buf_run [OF assms(1), of "length cs * 3"] assms(2) by (simp add: readToBuf_def)
  from readTPixels_run [OF this assms(2) _ assms(3)] assms(2,4) show ?thesis
    by (simp add: tight_client.equality)
qed

lemma drop_bit_control:
  "drop_bit 4 (control :: u8) = 8 \<Longrightarrow> drop_bit 7 control \<noteq> 0"
proof
  assume "drop_bit 4 control = 8" and "drop_bit 7 control = 0"
  moreover have "drop_bit 7 control = drop_bit 3 (drop_bit 4 control)" by simp
  ultimately show False by simp
qed

lemma copy_filter_run:
  assumes "sends zl t i (colors_bytes px) bytes" and "rbytes t = bytes @ rest"
    and "i < length (tStreams t)" and "length (tStreamBufs t) = length (tStreams t)"
    and "length px = Area rect" and "px \<noteq> []"
  shows "\<exists>sz t'. copy_filter zl rect i t = (Ok (px, sz), t') \<and> rbytes t' = rest"
proof -
  obtain src t1 where r: "basicCompressionReader zl (length (colors_bytes px)) i t = (Ok src, t1)"
    "\<forall>b. \<exists>t2. readToBuf zl src (length (colors_bytes px)) (t1\<lparr>tBuf := b\<rparr>) = (Ok (), t2) \<and>
       tBuf t2 = b @ colors_bytes px \<and> rbytes t2 = rest"
    using basic_reader_run [OF assms(1-4)] by blast
  from r(2) obtain t2 where t2: "readToBuf zl src (length px * 3) (t1\<lparr>tBuf := []\<rparr>) = (Ok (), t2)"
    "tBuf t2 = colors_bytes px" "rbytes t2 = rest"
    by (auto simp: mult.commute dest: spec [of _ "[]"])
  have "basicCompressionReader zl (Area rect * 3) i t = (Ok src, t1)"
    using r(1) assms(5) by (simp add: mult.commute)
  with readTPixels_run [OF t2(1) _ t2(2) assms(6)] t2(3) assms(5) show ?thesis
    by (simp add: copy_filter_def bindM_def reset_buf_def tight_result_def)
qed

lemma palette_filter_run:
  assumes "sends zl t i data bytes" and "rbytes t = p # colors_bytes pal @ bytes @ rest"
    and "i < length (tStreams t)" and "length (tStreamBufs t) = length (tStreams t)"
    and "length pal = unat p + 1" and "length data = palette_size (length pal) rect"
    and "(if length pal = 2 then palette_bits (unat (rWidth rect)) pal data 8 (- 1) [0..<Area rect]
          else palette_bytes pal data (Area rect)) = Ok px"
  shows "\<exists>sz t'. palette_filter zl rect i t = (Ok (px, sz), t') \<and> rbytes t' = rest"
proof -
  have pal: "pal \<noteq> []" using assms(5) by auto
  let ?t = "t\<lparr>rbytes := colors_bytes pal @ bytes @ rest, tBuf := []\<rparr>"
  let ?t' = "?t\<lparr>rbytes := bytes @ rest, tSize := tSize ?t + int (length pal * 3)\<rparr>"
  have p: "read_u8 t = (Ok p, t\<lparr>rbytes := colors_bytes pal @ bytes @ rest\<rparr>)"
    by (rule u8_codec.dec_enc) (simp_all add: assms(2))
  have tp: "readTPixels zl Conn (unat p + 1) ?t = (Ok pal, ?t')"
    using readTPixels_conn [of ?t pal "bytes @ rest" "unat p + 1" zl] pal assms(5) by simp
  have "sends zl ?t' i data bytes" using sends_cong [of ?t' t] assms(1) by simp
  from basic_reader_run [OF this, of rest] assms(3,4) obtain src t1 where
    r: "basicCompressionReader zl (length data) i ?t' = (Ok src, t1)" "tBuf t1 = []"
      "\<forall>b. \<exists>t2. readToBuf zl src (length data) (t1\<lparr>tBuf := b\<rparr>) = (Ok (), t2) \<and>
         tBuf t2 = b @ data \<and> rbytes t2 = rest"
    by auto
  have "t1\<lparr>tBuf := []\<rparr> = t1" using r(2) by (simp add: tight_client.equality)
  with r(3) obtain t2 where t2: "readToBuf zl src (length data) t1 = (Ok (), t2)" "tBuf t2 = data" "rbytes t2 = rest"
    by (metis append_Nil)
  show ?thesis
    using p tp r(1) t2 assms(5-7)
    by (simp add: palette_filter_def bindM_def reset_buf_def tight_result_def Let_def split: if_splits)
qed

lemma length_sub_palette: "length pal \<le> 256 \<Longrightarrow> 1 \<le> length pal \<Longrightarrow>
    length pal = unat (of_nat (length pal - 1) :: u8) + 1"
  by (subst unat_of_nat_u8) simp_all

lemma filter_run:
  assumes "filter_encodes (unat (rWidth rect)) (unat (rHeight rect)) fid hdr data px"
    and "sends zl t i data bytes" and "rbytes t = hdr @ bytes @ rest"
    and "i < length (tStreams t)" and "length (tStreamBufs t) = length (tStreams t)"
    and "0 < Area rect"
  shows "\<exists>sz t'. (if fid = 0 then copy_filter zl rect i t else if fid = 1 then palette_filter zl rect i t
        else r) = (Ok (px, sz), t') \<and> rbytes t' = rest"
  using assms(1-5)
proof (induction rule: filter_encodes.induct)
  case (Copy px)
  then have "px \<noteq> []" "length px = Area rect" using assms(6) by (auto simp: Area_def)
  with copy_filter_run [of zl t i px bytes rest rect] Copy show ?case by simp
next
  case (TwoColors rows c0 c1)
  have W: "0 < unat (rWidth rect)" using assms(6) by (auto simp: Area_def)
  have len: "length (concat rows) = palette_size 2 rect"
  proof -
    have "length (concat rows) = length rows * ((unat (rWidth rect) + 7) div 8)"
      using TwoColors(2) by (induction rows) auto
    then show ?thesis by (simp add: palette_size_def TwoColors(1))
  qed
  have px: "palette_bits (unat (rWidth rect)) [c0, c1] (concat rows) 8 (- 1) [0..<Area rect] =
      Ok (concat (map (\<lambda>bs. map (\<lambda>x. [c0, c1] ! row_field 1 bs x) [0..<unat (rWidth rect)]) rows))"
    using palette_bits_rows [OF W _ TwoColors(2), of "[c0, c1]"] TwoColors(1)
    by (simp add: Area_def mult.commute)
  have two: "Suc (Suc 0) = 2" by simp
  show ?case
    using palette_filter_run [of zl t i "concat rows" bytes 1 "[c0, c1]" rest rect, OF TwoColors(3)] px len
      TwoColors(4-)
    by (simp add: two del: One_nat_def)
next
  case (Palette pal data)
  note len = length_sub_palette [OF Palette(3,1)]
  have "palette_bytes pal data (Area rect) = Ok (map (\<lambda>b. pal ! unat b) data)"
    using Palette by (intro palette_bytes_run) (simp_all add: Area_def)
  moreover have "length data = palette_size (length pal) rect"
    using Palette by (simp add: palette_size_def Area_def)
  ultimately show ?case
    using palette_filter_run [of zl t i data bytes _ pal rest rect, OF Palette(6) _ Palette(8,9) len] Palette(2,7)
    by simp
qed

definition tight_ready :: "('z, 'm) tight_client_scheme \<Rightarrow> 'y rect_scheme \<Rightarrow> bool" where
  "tight_ready t rect \<longleftrightarrow> tight_pf (PixelFormat t) \<and> rWidth rect \<le> 2048 \<and> 0 < Area rect \<and>
     length (tStreams t) = 4 \<and> length (tStreamBufs t) = 4"

lemma stream_number: "unat (drop_bit 4 control AND 3 :: u8) < 4"
proof -
  have "drop_bit 4 control AND 3 \<le> (3 :: u8)" by (rule word_and_le1)
  then show ?thesis by (simp add: word_le_nat_alt)
qed

lemma tight_read_run:
  fixes zl :: "'z zlib" and t :: "('z, 'm) tight_client_scheme" and rect :: "'y rect_scheme"
  assumes "tight_ready t rect"
    and "tight_encodes zl t (unat (rWidth rect)) (unat (rHeight rect)) bs px"
    and "rbytes t = bs @ rest"
  shows "\<exists>sz t'. Tight_Read zl jpeg rect t = (Ok (px, sz), t') \<and> rbytes t' = rest"
  using assms(2,3)
proof (induction rule: tight_encodes.cases)
  case (Fill control c)
  let ?t = "t\<lparr>rbytes := color_bytes c @ rest, tSize := 1, tReset := tReset t OR (control AND 0x0F), tBuf := []\<rparr>"
  have b: "read_u8 (t\<lparr>tSize := 0\<rparr>) = (Ok control, t\<lparr>tSize := 0, rbytes := color_bytes c @ rest\<rparr>)"
    using u8_codec.dec_enc [OF TrueI, of "t\<lparr>tSize := 0\<rparr>" control "color_bytes c @ rest"] Fill by simp
  have px: "readTPixels zl Conn 1 ?t = (Ok [c], ?t\<lparr>rbytes := rest, tSize := tSize ?t + 3\<rparr>)"
    using readTPixels_conn [of ?t "[c]" rest 1 zl] by simp
  show ?thesis
    using b px Fill assms(1) drop_bit_control [OF Fill(3)]
    by (simp add: Tight_Read_def tight_ready_def bindM_def not_less reset_buf_def tight_result_def Area_def)
next
  case (Basic control fid hdr data px' bytes)
  let ?i = "unat (drop_bit 4 control AND 3)"
  let ?f = "if drop_bit 6 control = 1 then [fid] else []"
  let ?t = "t\<lparr>rbytes := ?f @ hdr @ bytes @ rest, tSize := 1, tReset := tReset t OR (control AND 0x0F)\<rparr>"
  have b: "read_u8 (t\<lparr>tSize := 0\<rparr>) = (Ok control, t\<lparr>tSize := 0, rbytes := ?f @ hdr @ bytes @ rest\<rparr>)"
    using u8_codec.dec_enc [OF TrueI, of "t\<lparr>tSize := 0\<rparr>" control "?f @ hdr @ bytes @ rest"] Basic by simp
  have f: "fid = 0 \<or> fid = 1" using Basic(4) by (cases rule: filter_encodes.cases) auto
  have r: "read_u8 ?t = (Ok fid, ?t\<lparr>rbytes := hdr @ bytes @ rest\<rparr>)" if "drop_bit 6 control = 1"
    using u8_codec.dec_enc [OF TrueI, of ?t fid "hdr @ bytes @ rest"] that by simp
  obtain u where u: "tStreams u = tStreams t" "tStreamBufs u = tStreamBufs t"
      "tReset u = tReset t OR (control AND 0x0F)" "rbytes u = hdr @ bytes @ rest"
    and go: "readBasicCompression zl rect (drop_bit 6 control = 1) ?i ?t =
      (if fid = 0 then copy_filter zl rect ?i u else if fid = 1 then palette_filter zl rect ?i u else undefined)"
  proof (cases "drop_bit 6 control = 1")
    case True
    with f r show ?thesis
      by (intro that [of "?t\<lparr>rbytes := hdr @ bytes @ rest, tSize := 2\<rparr>"])
        (auto simp: readBasicCompression_def bindM_def)
  next
    case False
    with Basic(5) show ?thesis
      by (intro that [of ?t]) (auto simp: readBasicCompression_def bindM_def)
  qed
  have "sends zl u ?i data bytes"
    using sends_cong [of u "t\<lparr>tReset := tReset t OR (control AND 0x0F)\<rparr>"] Basic(6) u by simp
  from filter_run [OF Basic(4) this u(4), of undefined] u assms(1) stream_number [of control] obtain sz t' where
    run: "readBasicCompression zl rect (drop_bit 6 control = 1) ?i ?t = (Ok (px', sz), t')" "rbytes t' = rest"
    unfolding go by (auto simp: tight_ready_def)
  with b Basic(3) assms(1) Basic(2) show ?thesis
    by (simp add: Tight_Read_def tight_ready_def bindM_def not_less)
qed


text \<open>A zlib reader for the examples: it checks nothing and passes the bytes on as they are.\<close>

definition stored_zlib :: "unit zlib" where
  "stored_zlib =
     \<lparr>zlNew = \<lambda>buf. (Ok (), drop 2 buf), zlReset = \<lambda>st buf. (st, drop 2 buf),
      zlRead = \<lambda>n st buf. ((take n buf, if length buf < n then Some UnexpectedEOF else None), st, drop n buf)\<rparr>"


section \<open>The gradient filter\<close>

lemma set_component_same: "set_component colors i x v = Ok colors' \<Longrightarrow> colors' = colors"
  by (auto simp: set_component_def elim!: bindO_OkE)

lemma gradient_loop_same: "gradient_loop W diffs ps colors = Ok colors' \<Longrightarrow> colors' = colors"
proof (induction ps arbitrary: colors)
  case (Cons p ps)
  obtain i j c where p: "p = (i, j, c)" by (cases p) auto
  from Cons.prems obtain colors1 where step: "gradient_pixel W diffs p colors = Ok colors1"
    and rest: "gradient_loop W diffs ps colors1 = Ok colors'"
    by (auto elim: bindO_OkE)
  have "colors1 = colors"
    using step by (auto simp: gradient_pixel_def p Let_def elim!: bindO_OkE dest!: set_component_same)
  with Cons.IH rest show ?case by simp
qed simp

lemma tight_result_OkE:
  assumes "tight_result colors t = (Ok (cs, sz), t')"
  shows "cs = colors"
  using assms by (simp add: tight_result_def bindM_def)


text \<open>An empty rectangle is legal for a server to send, yet the copy filter panics on it: it asks
  the empty buffer for the address of its first byte.\<close>

lemma copy_filter_empty:
  assumes "Area rect = 0"
  shows "fst (copy_filter zl rect i t) = Panic IndexOutOfRange"
  using assms
  by (simp add: copy_filter_def basicCompressionReader_def bindM_def reset_buf_def readTPixels_def
      readToBuf_def conn_to_buf_def Let_def qb_ReadColors_def NewQuickBuf_def)

lemma copy_filter_empty_witness:
  "fst (copy_filter stored_zlib \<lparr>rX = 0, rY = 0, rWidth = 0, rHeight = 9\<rparr> 0 (demo_tight [1, 2, 3]))
     = Panic IndexOutOfRange"
  by (rule copy_filter_empty) (simp add: Area_def)

section \<open>Resets\<close>

definition others_kept :: "nat \<Rightarrow> ('z, 'm) tight_client_scheme \<Rightarrow> ('z, 'm) tight_client_scheme \<Rightarrow> bool" where
  "others_kept i t t' \<longleftrightarrow>
     length (tStreams t') = length (tStreams t) \<and> length (tStreamBufs t') = length (tStreamBufs t) \<and>
     (\<forall>j. j \<noteq> i \<longrightarrow> tStreams t' ! j = tStreams t ! j \<and> tStreamBufs t' ! j = tStreamBufs t ! j \<and>
        reset_pending t' j = reset_pending t j)"

interpretation other_streams: frame "others_kept i" for i
  by unfold_locales (auto simp: others_kept_def)

lemma keeps_read_byte: "keeps (others_kept i) read_byte"
  by (auto simp: keeps_def read_byte_def others_kept_def reset_pending_def split: list.split)

lemma keeps_compact_loop: "keeps (others_kept i) (compact_loop n k x sh)"
proof (induction n arbitrary: k x sh)
  case 0
  show ?case
    by (subst compact_loop.simps) (auto intro!: other_streams.keeps_prog keeps_read_byte simp: others_kept_def reset_pending_def)
next
  case (Suc n)
  show ?case
    by (subst compact_loop.simps) (auto intro!: other_streams.keeps_prog keeps_read_byte Suc.IH simp: others_kept_def reset_pending_def)
qed

lemma clear_other_bit: "j \<noteq> i \<Longrightarrow> (r AND NOT (push_bit i 1)) AND push_bit j 1 = (r :: u8) AND push_bit j 1"
  by (rule bit_word_eqI) (auto simp: bit_simps)

lemma clear_own_bit: "(r AND NOT (push_bit i 1)) AND push_bit i 1 = (0 :: u8)"
  by (rule bit_word_eqI) (auto simp: bit_simps)

lemma keeps_reset_stream: "keeps (others_kept i) (reset_stream zl i)"
  by (auto simp: keeps_def reset_stream_def others_kept_def reset_pending_def clear_other_bit
      simp del: push_bit_of_1 split: option.split prod.split)

lemma keeps_basic_reader: "keeps (others_kept i) (basicCompressionReader zl n i)"
  unfolding basicCompressionReader_def readCompactLength_def
  by (auto intro!: other_streams.keeps_prog keeps_compact_loop keeps_reset_stream)
    (auto simp: keeps_def fill_stream_def new_stream_def others_kept_def reset_pending_def Let_def
      split: prod.split outcome.split)

text \<open>(C26) Choosing a zlib stream touches that stream only, however the call ends: the other streams,
  their buffers and their pending resets stay as they are, so a reset bit waits for the first use of
  its stream; once a stream has been chosen its own reset is no longer pending.\<close>

theorem stream_resets:
  "case basicCompressionReader zl n i t of
     (res, t') \<Rightarrow> others_kept i t t' \<and>
       (case res of Ok (ZStream k) \<Rightarrow> k = i \<and> \<not> reset_pending t' i | _ \<Rightarrow> True)"
proof -
  have "k = i \<and> \<not> reset_pending t' i"
    if "basicCompressionReader zl n i t = (Ok (ZStream k), t')" for k t'
    using that unfolding basicCompressionReader_def
    by (auto elim!: bindM_OkE split: if_splits)
      (auto simp: reset_stream_def reset_pending_def clear_own_bit simp del: push_bit_of_1
        split: option.splits prod.splits)
  then show ?thesis
    using keepsD [OF keeps_basic_reader] by (auto split: prod.split outcome.split tight_source.split)
qed

text \<open>
  A zlib reader that checks the header the way the format asks for: the compression method is 8 and
  the two bytes are a multiple of 31. A failed reset leaves a stream that gives the error.
\<close>

definition header_zlib :: "goerr option zlib" where
  "header_zlib =
     (let header = (\<lambda>buf. case buf of
            a # b # r \<Rightarrow> (if a AND 0x0F = 8 \<and> (unat a * 256 + unat b) mod 31 = 0 then None else Some ErrHeader, r)
          | _ \<Rightarrow> (Some UnexpectedEOF, [])) in
      \<lparr>zlNew = \<lambda>buf. case header buf of (None, r) \<Rightarrow> (Ok None, r) | (Some e, r) \<Rightarrow> (Err e, r),
       zlReset = \<lambda>st buf. header buf,
       zlRead = \<lambda>n st buf. case st of
           Some e \<Rightarrow> (([], Some e), st, buf)
         | None \<Rightarrow> ((take n buf, if length buf < n then Some UnexpectedEOF else None), st, drop n buf)\<rparr>)"

text \<open>A stream that has not been used before is made and, if its reset bit is set, reset as well,
  which reads the zlib header twice: the legal first rectangle of a stream fails with \<open>zlib: invalid
  header\<close> when its reset bit is set (control 24, hexadecimal) and is read when it is not (control 20).\<close>

lemma first_use_with_reset:
  "fst (Tight_Read header_zlib jpeg \<lparr>rX = 0, rY = 0, rWidth = 4, rHeight = 1\<rparr>
      (demo_tight [0x24, 14, 0x78, 0x9C, 1, 2, 3, 4, 5, 6, 7, 8, 9, 10, 11, 12])) = Err ErrHeader
   \<and> fst (Tight_Read header_zlib jpeg \<lparr>rX = 0, rY = 0, rWidth = 4, rHeight = 1\<rparr>
      (demo_tight [0x20, 14, 0x78, 0x9C, 1, 2, 3, 4, 5, 6, 7, 8, 9, 10, 11, 12])) =
        Ok ([rgb 1 2 3, rgb 4 5 6, rgb 7 8 9, rgb 10 11 12], 28)"
  by (simp add: Tight_Read_def demo_tight_def tight_pf_def gym_pf_def bindM_def read_u8_def read_full_def
      readBasicCompression_def copy_filter_def basicCompressionReader_def annotate_def
      readCompactLength_def compact_loop.simps [of _ 0] read_byte_def Area_def reset_pending_def
      fill_stream_def new_stream_def header_zlib_def reset_stream_def Let_def reset_buf_def
      readTPixels_def readToBuf_def qb_ReadColors_def NewQuickBuf_def tight_result_def colorSize_def)

end
