(* ===== verification/ZrleTotal.thy ===== *)
theory ZrleTotal
  imports ZrleFormat
begin

text \<open>
  The decoder of ZRLE on any bytes: it comes back for every rectangle of up to 65472 by 65472
  pixels, and what it gives has one colour for each pixel.
\<close>

lemma gives_qb:
  "returns qb_ReadByte" "returns qb_ReadColor" "returns (qb_ReadColors n)"
  by (simp_all add: gives_def qb_ReadByte_def qb_ReadColor_def qb_ReadColors_def Let_def)

lemma returns_read_run: "yields (\<lambda>_. True) (fst (read_run msg q))"
proof (induction msg q rule: read_run.induct)
  case (1 msg q)
  show ?case
    by (subst read_run.simps, rule yields_bindM [OF gives_annotate [OF gives_qb(1)]])
      (auto simp: bindM_def dest!: 1 split: prod.split outcome.split)
qed

lemma gives_read_run: "returns (read_run msg)"
  by (simp add: gives_def returns_read_run)

lemma yields_on_range:
  assumes "\<And>dst. yields (\<lambda>d. length d = length dst) (fill dst)"
  shows "yields (\<lambda>s. length s = length scratch) (on_range scratch pos n fill)"
proof -
  have "yields (\<lambda>d. length d = n) (fill (take n (drop pos scratch)))" if "pos + n \<le> length scratch"
  proof -
    have "length (take n (drop pos scratch)) = n" using that by simp
    then show ?thesis using assms [of "take n (drop pos scratch)"] by (simp only:)
  qed
  then show ?thesis unfolding on_range_def by (auto intro!: yields_bindO)
qed

lemma yields_fillColor: "yields (\<lambda>d. length d = length dst) (fillColor dst c)"
  by (simp add: fillColor_eq)

lemma plain_rle_gives: "yields (\<lambda>s. length s = length scratch) (fst (plain_rle n pos scratch q))"
proof (induction n pos scratch q rule: plain_rle.induct)
  case (1 n pos scratch q)
  have fill: "gives (\<lambda>s. length s = length scratch)
      (lift (on_range scratch pos (1 + k) (\<lambda>dst. Ok (fillColor2 dst c))))" for k c
    by (simp add: yields_on_range fillColor2_def)
  show ?case
  proof (cases "pos < n")
    case True
    have "yields (\<lambda>s. length s = length scratch) (fst (bindM qb_ReadColor (\<lambda>c.
           bindM (read_run ''failed to read rle byte'') (\<lambda>k.
           bindM (lift (on_range scratch pos (1 + k) (\<lambda>dst. Ok (fillColor2 dst c)))) (\<lambda>scratch'.
           plain_rle n (pos + (1 + k)) scratch'))) q))"
      by (rule yields_bindM [OF gives_qb(2)], rule yields_bindM [OF gives_read_run],
          rule yields_bindM [OF fill], rule yields_mono [OF "1.IH" [OF True]]) auto
    with True show ?thesis by (subst plain_rle.simps) simp
  qed (subst plain_rle.simps, simp)
qed

lemma palette_rle_gives: "yields (\<lambda>s. length s = length scratch) (fst (palette_rle n pal pos scratch q))"
proof (induction n pal pos scratch q rule: palette_rle.induct)
  case (1 n pal pos scratch q)
  have fill: "gives (\<lambda>s. length s = length scratch)
      (lift (on_range scratch pos (1 + k) (\<lambda>dst. fillColor dst c)))" for k c
    by (simp add: yields_on_range yields_fillColor)
  have run: "returns (if b then read_run msg else ret 0)" for b msg
    by (simp add: gives_read_run gives_ret)
  have pal: "returns (lift (index_go pal k))" for k by simp
  show ?case
  proof (cases "pos < n")
    case True
    have "yields (\<lambda>s. length s = length scratch) (fst (bindM (annotate ''failed to read palette index'' qb_ReadByte) (\<lambda>idx.
           bindM (if idx AND 128 \<noteq> 0 then read_run ''failed to read byte'' else ret 0) (\<lambda>k.
           bindM (lift (index_go pal (unat (idx AND 127)))) (\<lambda>c.
           bindM (lift (on_range scratch pos (1 + k) (\<lambda>dst. fillColor dst c))) (\<lambda>scratch'.
           palette_rle n pal (pos + (1 + k)) scratch')))) q))"
      by (rule yields_bindM [OF gives_annotate [OF gives_qb(1)]], rule yields_bindM [OF run],
          rule yields_bindM [OF pal], rule yields_bindM [OF fill], rule yields_mono [OF "1.IH" [OF True]]) auto
    with True show ?thesis by (subst palette_rle.simps) simp
  qed (subst palette_rle.simps, simp)
qed

lemma packed_row_gives: "gives (\<lambda>cs. length cs = n) (packed_row bpp pal b nbits n)"
proof (induction n arbitrary: b nbits)
  case (Suc n)
  have byte: "returns (if nbits = 0 then bindM (annotate msg qb_ReadByte) (\<lambda>b'. ret (b', 8)) else ret (b, nbits))" for msg
    by (auto intro!: gives_bindM [where Q' = "\<lambda>_. True"] gives_leaf gives_qb)
  show ?case
    unfolding packed_row.simps
    by (rule gives_bindM [OF byte])
      (auto intro!: gives_bindM [where Q' = "\<lambda>_. True"] gives_bindM [OF Suc.IH] gives_ret)
qed (simp add: gives_ret)

lemma packed_tile_gives:
  assumes "tw * th \<le> length scratch"
  shows "gives (\<lambda>s. length s = length scratch) (packed_tile bpp pal tw th scratch)"
proof -
  have "length (concat rows) = th * tw" if "length rows = th" "list_all (\<lambda>cs. length cs = tw) rows"
    for rows :: "color list list"
  proof -
    have "list_all (\<lambda>cs. length cs = tw) rows \<Longrightarrow> length (concat rows) = length rows * tw" by (induction rows) simp_all
    with that show ?thesis by simp
  qed
  then show ?thesis
    using assms unfolding packed_tile_def
    by (intro gives_bindM [OF gives_mapM [OF packed_row_gives]] gives_ret) (auto simp: mult.commute)
qed

lemma tile_pixels_gives:
  assumes "tw * th \<le> length scratch"
  shows "gives (\<lambda>ps. length (snd ps) = length scratch) (tile_pixels tw th scratch)"
proof -
  have in_scratch: "gives (\<lambda>ps. length (snd ps) = length scratch) (bindM m (\<lambda>s. ret (take (tw * th) s, s)))"
    if "gives (\<lambda>s. length s = length scratch) m" for m :: "(quickbuf, color list) prog"
    using that by (rule gives_bindM) (simp add: gives_ret)
  have solid: "gives (\<lambda>s. length s = length scratch) (bindM (lift (index_go pal 0)) (\<lambda>c.
      lift (on_range scratch 0 (tw * th) (\<lambda>dst. fillColor dst c))))" for pal
    by (auto intro!: gives_bindM [where Q' = "\<lambda>_. True"] simp: yields_on_range yields_fillColor)
  have rle: "gives (\<lambda>s. length s = length scratch) (plain_rle (tw * th) 0 scratch)"
    "gives (\<lambda>s. length s = length scratch) (palette_rle (tw * th) pal 0 scratch)" for pal
    by (simp_all add: gives_def plain_rle_gives palette_rle_gives)
  have raw: "gives (\<lambda>ps. length (snd ps) = length scratch)
      (bindM (annotate msg (qb_ReadColors (tw * th))) (\<lambda>colors. ret (colors, scratch)))" for msg
    by (rule gives_bindM [OF gives_annotate [OF gives_qb(3)]]) (simp add: gives_ret)
  show ?thesis
    unfolding tile_pixels_def Let_def
    by (rule gives_bindM [OF gives_annotate [OF gives_qb(1)]], rule gives_bindM [OF gives_annotate [OF gives_qb(3)]])
      (intro gives_if raw in_scratch solid rle packed_tile_gives assms gives_fail)
qed

lemma blit_rows_gives: "yields (\<lambda>cs. length cs = length colors) (blit_rows W tX tY tw pix js colors)"
proof (induction js arbitrary: colors)
  case (Cons j js)
  show ?case
    unfolding blit_rows.simps
    by (rule yields_bindO [OF yields_copy_go]) (rule yields_mono [OF Cons.IH], simp)
qed simp

section \<open>The tile loops\<close>

lemma tile_loop_total:
  assumes h: "unat h \<le> 65472" and I0: "I b"
    and step: "\<And>t b s. t < h \<Longrightarrow> I b \<Longrightarrow> \<exists>r s'. body t b s = Some (r, s') \<and> yields I r"
  shows "\<exists>r s'. tile_loop 0 h body b s = Some (r, s') \<and> yields I r"
proof -
  have "\<exists>r s'. tile_loop (of_nat (64 * k)) h body b s = Some (r, s') \<and> yields I r"
    if "n = tiles (unat h) - k" and "k \<le> tiles (unat h)" and "I b" for n k b s
    using that
  proof (induction n arbitrary: k b s)
    case 0
    then have k: "k = tiles (unat h)" by simp
    have "unat (of_nat (64 * k) :: u16) = 64 * k"
      using h unfolding k tiles_def by (simp add: unsigned_of_nat take_bit_nat_eq_self del: of_nat_mult)
    moreover have "unat h \<le> 64 * k" unfolding k tiles_def by simp
    ultimately have "\<not> (of_nat (64 * k) :: u16) < h" by (simp add: word_less_nat_alt del: of_nat_mult)
    then show ?case using 0 by (subst tile_loop.simps) simp
  next
    case (Suc n)
    have kh: "64 * k < unat h" using Suc.prems(1) unfolding tiles_def by linarith
    have "unat (of_nat (64 * k) :: u16) = 64 * k"
      using h kh by (simp add: unsigned_of_nat take_bit_nat_eq_self del: of_nat_mult)
    then have lt: "(of_nat (64 * k) :: u16) < h" using kh by (simp add: word_less_nat_alt del: of_nat_mult)
    from step [OF lt Suc.prems(3)] obtain r s' where
      r: "body (of_nat (64 * k)) b s = Some (r, s')" "yields I r" by blast
    have next_k: "(of_nat (64 * k) :: u16) + 64 = of_nat (64 * Suc k)" by simp
    show ?case
    proof (cases r)
      case (Ok b')
      have "Suc k \<le> tiles (unat h)" "n = tiles (unat h) - Suc k" using Suc.prems(1) by simp_all
      from Suc.IH [OF this(2,1), of b' s'] show ?thesis
        using lt r Ok next_k by (subst tile_loop.simps) (simp add: add.commute del: of_nat_mult)
    qed (use lt r in \<open>subst tile_loop.simps, simp\<close>)+
  qed
  from this [of "tiles (unat h)" 0 b s] I0 show ?thesis by simp
qed

definition tile_lengths :: "nat \<Rightarrow> color list \<times> color list \<Rightarrow> bool" where
  "tile_lengths n cs \<longleftrightarrow> length (fst cs) = n \<and> length (snd cs) = 4096"

lemma parseTile_gives:
  assumes "tile_lengths n cs" and "tw \<le> 64" and "th \<le> 64"
  shows "gives (tile_lengths n) (parseTile W tX tY tw th cs)"
proof -
  obtain colors scratch where cs: "cs = (colors, scratch)" by (cases cs)
  have len: "tw * th \<le> length scratch"
    using assms mult_le_mono [OF assms(2,3)] by (simp add: cs tile_lengths_def)
  show ?thesis
    unfolding cs parseTile_def prod.case
    apply (rule gives_bindM [OF tile_pixels_gives [OF len]])
    using assms(1) by (auto simp: cs tile_lengths_def intro!: gives_bindM [where Q' = "\<lambda>c. length c = n"]
        gives_ret intro: yields_mono [OF blit_rows_gives])
qed

lemma min_u16_64: "unat (min_u16 64 x) \<le> 64"
  by (simp add: min_u16_def word_less_nat_alt)

lemma parse_row_total:
  assumes "unat (rWidth r) \<le> 65472" and "tile_lengths n cs"
  shows "\<exists>res q'. parse_row r tileY cs q = Some (res, q') \<and> yields (tile_lengths n) res"
  unfolding parse_row_def
proof (rule tile_loop_total [where I = "tile_lengths n", OF assms])
  fix t :: u16 and cs q
  assume "tile_lengths n cs"
  then have "gives (tile_lengths n) (parseTile (unat (rWidth r)) (unat t) (unat tileY)
      (unat (min_u16 64 (rWidth r - t))) (unat (min_u16 64 (rHeight r - tileY))) cs)"
    by (rule parseTile_gives [OF _ min_u16_64 min_u16_64])
  then show "\<exists>res q'. Some (parseTile (unat (rWidth r)) (unat t) (unat tileY)
      (unat (min_u16 64 (rWidth r - t))) (unat (min_u16 64 (rHeight r - tileY))) cs q) = Some (res, q') \<and>
      yields (tile_lengths n) res"
    by (auto intro: givesD prod.collapse [symmetric])
qed

lemma ZRLE_parse_gives:
  assumes "unat (rWidth r) \<le> 65472" and "unat (rHeight r) \<le> 65472"
  shows "gives (\<lambda>cs. length cs = Area r) (ZRLE_parse r)"
proof -
  have "yields (\<lambda>cs. length cs = Area r) (fst (ZRLE_parse r q))" for q
  proof -
    have "tile_lengths (Area r) (replicate (Area r) zero_color, replicate (64 * 64) zero_color)"
      by (simp add: tile_lengths_def)
    from tile_loop_total [where I = "tile_lengths (Area r)" and body = "parse_row r", OF assms(2) this parse_row_total [OF assms(1)]]
    obtain res q' where "tile_loop 0 (rHeight r) (parse_row r)
          (replicate (Area r) zero_color, replicate (64 * 64) zero_color) q = Some (res, q')"
      "yields (tile_lengths (Area r)) res" by blast
    then show ?thesis
      by (cases res) (auto simp: ZRLE_parse_def bindM_def tile_lengths_def)
  qed
  then show ?thesis by (simp add: gives_def)
qed

text \<open>(C27) \<open>ZRLEEncoding.parse\<close> on any bytes: it returns (with an error, perhaps, or by a panic), and the
  colours it returns are as many as the rectangle has pixels.\<close>

theorem zrle_parse_total:
  fixes r :: rect
  assumes "unat (rWidth r) \<le> 65472" and "unat (rHeight r) \<le> 65472"
  shows "yields (\<lambda>cs. length cs = Area r) (fst (ZRLE_parse r q))"
  using ZRLE_parse_gives [OF assms] by (simp add: gives_def)

theorem zrle_parse_total_witness:
  "yields (\<lambda>cs. length cs = 5120 * 2880)
     (fst (ZRLE_parse \<lparr>rX = 0, rY = 0, rWidth = 5120, rHeight = 2880\<rparr> (NewQuickBuf [2, 0, 0])))"
  using zrle_parse_total [of "\<lparr>rX = 0, rY = 0, rWidth = 5120, rHeight = 2880\<rparr>" "NewQuickBuf [2, 0, 0]"]
  by (simp add: Area_def)

end
