(* ===== verification/ServerMsg.thy ===== *)
theory ServerMsg
  imports Tight ZrleTotal
begin

text \<open>
  The messages of the server: \<^verbatim>\<open>vncclient/server_messages.go\<close>, the \<open>Read\<close> methods of all encodings of
  \<^verbatim>\<open>vncclient/encoding.go\<close> behind one dispatch, and the loop of \<^verbatim>\<open>vncclient/client.go\<close> that reads
  messages until the connection ends. The inflator of the connection and the libraries are arguments.
\<close>

section \<open>Decoders\<close>

record ('i, 'z) libs =
  lzlib :: "'z zlib"
  ljpeg :: jpeg_decoder
  linflate :: "'i \<Rightarrow> u8 list \<Rightarrow> u8 list outcome \<times> 'i"  \<comment> \<open>\<open>Inflator.Inflate\<close>\<close>

record ('i, 'z) server_client = "'z tight_client" +
  inflator :: 'i

text \<open>What \<open>Encoding.Read\<close> returns.\<close>

datatype enc_data =
    RawData "color list"
  | ZRLEData "color list" i32
  | TightData "color list" int
  | CursorData "u8 list"

fun enc_Size :: "enc_data \<Rightarrow> int" where
  "enc_Size (RawData cs) = int (length cs * 3)"
| "enc_Size (ZRLEData cs n) = sint n"
| "enc_Size (TightData cs n) = n"
| "enc_Size (CursorData b) = int (length b)"

fun enc_colors :: "enc_data \<Rightarrow> color list option" where
  "enc_colors (RawData cs) = Some cs"
| "enc_colors (ZRLEData cs n) = Some cs"
| "enc_colors (TightData cs n) = Some cs"
| "enc_colors (CursorData b) = None"

definition run_inflate ::
  "('i \<Rightarrow> u8 list \<Rightarrow> u8 list outcome \<times> 'i) \<Rightarrow> u8 list \<Rightarrow> (('i, 'z, 'm) server_client_scheme, u8 list) prog" where
  "run_inflate inflate p c =
     (case inflate (inflator c) p of (r, i) \<Rightarrow> (r, c\<lparr>inflator := i\<rparr>))"

text \<open>\<open>make([]uint8, length)\<close> panics for a negative length; \<open>length\<close> is an \<open>int32\<close>.\<close>

definition ZRLE_Read ::
  "('i \<Rightarrow> u8 list \<Rightarrow> u8 list outcome \<times> 'i) \<Rightarrow> 'y rect_scheme \<Rightarrow>
    (('i, 'z, 'm) server_client_scheme, color list \<times> i32) prog" where
  "ZRLE_Read inflate rect =
     bindM read_u32 (\<lambda>len.
     if sint len < 0 then panic MakeSliceLen
     else
       bindM (read_full (unat len)) (\<lambda>compressed.
       bindM (annotate ''could not inflate'' (run_inflate inflate compressed)) (\<lambda>inflated.
       bindM getS (\<lambda>c.
       if BPP (PixelFormat c) < 24 then fail (Errorf ''unsupported bitsPerPixel'')
       else
         case ZRLE_parse rect (NewQuickBuf inflated) of
           (r, buf) \<Rightarrow>
             bindM (annotate ''could not parse ZRLEEncoding colors'' (lift r)) (\<lambda>colors.
             if qb_Len buf \<noteq> 0 then fail (Errorf ''BUG: buffer still had unread bytes'')
             else ret (colors, len))))))"

text \<open>The cursor of \<^verbatim>\<open>cmd/transcode\<close>: its bytes are kept as they are.\<close>

definition Cursor_Read :: "'y rect_scheme \<Rightarrow> (('z, 'm) tight_client_scheme, u8 list) prog" where
  "Cursor_Read rect =
     bindM getS (\<lambda>c.
     read_full (Area rect * unat (BPP (PixelFormat c)) div 8 +
                unat (rWidth rect + 7) div 8 * unat (rHeight rect)))"

fun Encoding_Read ::
  "('i, 'z) libs \<Rightarrow> encoding \<Rightarrow> 'y rect_scheme \<Rightarrow> (('i, 'z, 'm) server_client_scheme, enc_data) prog" where
  "Encoding_Read L RawEncoding rect =
     bindM getS (\<lambda>c. bindM (Raw_Read (PixelFormat c) (ColorMap c) rect) (\<lambda>cs. ret (RawData cs)))"
| "Encoding_Read L ZRLEEncoding rect =
     bindM (ZRLE_Read (linflate L) rect) (\<lambda>(cs, n). ret (ZRLEData cs n))"
| "Encoding_Read L TightEncoding rect =
     bindM (Tight_Read (lzlib L) (ljpeg L) rect) (\<lambda>(cs, n). ret (TightData cs n))"
| "Encoding_Read L (QualityLevel _) rect = fail (NotImplemented ''quality level is a pseudo-encoding'')"
| "Encoding_Read L (CompressLevel _) rect = fail (NotImplemented ''compress level is a pseudo-encoding'')"
| "Encoding_Read L (FineQualityLevel _) rect = fail (NotImplemented ''fine quality level is a pseudo-encoding'')"
| "Encoding_Read L (SubsampleLevel _) rect = fail (NotImplemented ''fine quality level is a pseudo-encoding'')"
| "Encoding_Read L (JPEGQuality _) rect = fail (NotImplemented ''jpeg quality is a pseudo-encoding'')"
| "Encoding_Read L CursorEncoding rect = bindM (Cursor_Read rect) (\<lambda>b. ret (CursorData b))"

section \<open>Messages\<close>

record rectangle = rect +
  Enc :: enc_data

datatype server_msg =
    FramebufferUpdateMessage "rectangle list"
  | SetColorMapEntriesMessage u16 "color list"
  | BellMessage
  | ServerCutTextMessage "u8 list"

text \<open>
  The map from encoding numbers to encodings: of two encodings with one number the later wins, and
  \<open>RawEncoding\<close> is always there.
\<close>

definition encMap :: "encoding list \<Rightarrow> i32 \<Rightarrow> encoding option" where
  "encMap encs = (fold (\<lambda>e m. m(enc_Type e \<mapsto> e)) encs Map.empty)(0 \<mapsto> RawEncoding)"

definition excessive_rect :: "'y rect_scheme \<Rightarrow> bool" where
  "excessive_rect r \<longleftrightarrow> 5120 < rX r \<or> 2880 < rY r \<or> 5120 < rWidth r \<or> 2880 < rHeight r"

definition read_rectangle ::
  "('i, 'z) libs \<Rightarrow> (i32 \<Rightarrow> encoding option) \<Rightarrow> (('i, 'z, 'm) server_client_scheme, rectangle) prog" where
  "read_rectangle L encs =
     bindM read_u16 (\<lambda>x. bindM read_u16 (\<lambda>y. bindM read_u16 (\<lambda>w. bindM read_u16 (\<lambda>h.
     bindM read_u32 (\<lambda>encodingType.
     let rect = \<lparr>rX = x, rY = y, rWidth = w, rHeight = h\<rparr> in
     if excessive_rect rect then fail (Errorf ''excessive rectangle'')
     else
       case encs encodingType of
         None \<Rightarrow> fail (Errorf ''unsupported encoding type'')
       | Some enc \<Rightarrow>
           bindM (Encoding_Read L enc rect) (\<lambda>d.
           ret \<lparr>rX = x, rY = y, rWidth = w, rHeight = h, Enc = d\<rparr>))))))"

definition FramebufferUpdate_Read ::
  "('i, 'z) libs \<Rightarrow> (('i, 'z, 'm) server_client_scheme, server_msg) prog" where
  "FramebufferUpdate_Read L =
     bindM (read_full 1) (\<lambda>_.
     bindM read_u16 (\<lambda>numRects.
     if 1000 < numRects then fail (Errorf ''excessive rectangle count'')
     else
       bindM getS (\<lambda>c.
       bindM (mapM (\<lambda>_. read_rectangle L (encMap (Encs c))) [0..<unat numRects]) (\<lambda>rects.
       ret (FramebufferUpdateMessage rects)))))"

text \<open>\<open>c.ColorMap\<close> has 256 entries; \<open>FirstColor + i\<close> is computed in sixteen bits.\<close>

definition set_color_entry ::
  "u16 \<Rightarrow> nat \<Rightarrow> ('m client_scheme, color) prog" where
  "set_color_entry first i =
     bindM read_u8 (\<lambda>r. bindM read_u8 (\<lambda>g. bindM read_u8 (\<lambda>b.
     bindM getS (\<lambda>c.
     let k = unat (first + of_nat i) in
     if length (ColorMap c) \<le> k then panic IndexOutOfRange
     else bindM (modifyS (\<lambda>c. c\<lparr>ColorMap := (ColorMap c)[k := rgb r g b]\<rparr>)) (\<lambda>_.
          ret (rgb r g b))))))"

definition SetColorMapEntries_Read :: "('m client_scheme, server_msg) prog" where
  "SetColorMapEntries_Read =
     bindM (read_full 1) (\<lambda>_.
     bindM read_u16 (\<lambda>first.
     bindM read_u16 (\<lambda>n.
     bindM (mapM (set_color_entry first) [0..<unat n]) (\<lambda>cs.
     ret (SetColorMapEntriesMessage first cs)))))"

definition ServerCutText_Read :: "('m reader_scheme, server_msg) prog" where
  "ServerCutText_Read =
     bindM (read_full 3) (\<lambda>_.
     bindM read_u32 (\<lambda>textLength.
     bindM (read_full (unat textLength)) (\<lambda>text.
     ret (ServerCutTextMessage text))))"

fun server_Read ::
  "('i, 'z) libs \<Rightarrow> u8 \<Rightarrow> (('i, 'z, 'm) server_client_scheme, server_msg) prog option" where
  "server_Read L t =
     (if t = 0 then Some (FramebufferUpdate_Read L)
      else if t = 1 then Some SetColorMapEntries_Read
      else if t = 2 then Some (ret BellMessage)
      else if t = 3 then Some ServerCutText_Read
      else None)"

declare server_Read.simps [simp del]

section \<open>The main loop\<close>

text \<open>
  \<open>mainLoop\<close> with the messages it delivers and the error it reports at the end. \<open>fuel\<close> bounds the
  number of messages; \<open>main_loop_returns\<close> shows that one more than the bytes of the connection is
  always enough.
\<close>

fun main_loop ::
  "('i, 'z) libs \<Rightarrow> nat \<Rightarrow> ('i, 'z, 'm) server_client_scheme \<Rightarrow>
    server_msg list \<times> unit outcome \<times> ('i, 'z, 'm) server_client_scheme" where
  "main_loop L fuel c =
     (case annotate ''could not read message type'' read_u8 c of
        (Err e, c1) \<Rightarrow> ([], Err e, c1)
      | (Panic p, c1) \<Rightarrow> ([], Panic p, c1)
      | (Diverge, c1) \<Rightarrow> ([], Diverge, c1)
      | (Ok t, c1) \<Rightarrow>
          (case server_Read L t of
             None \<Rightarrow> ([], Err (Errorf ''no such message type''), c1)
           | Some rd \<Rightarrow>
               (case rd c1 of
                  (Err e, c2) \<Rightarrow> ([], Err e, c2)
                | (Panic p, c2) \<Rightarrow> ([], Panic p, c2)
                | (Diverge, c2) \<Rightarrow> ([], Diverge, c2)
                | (Ok msg, c2) \<Rightarrow>
                    (case fuel of
                       0 \<Rightarrow> ([msg], Diverge, c2)
                     | Suc n \<Rightarrow> (case main_loop L n c2 of (msgs, r) \<Rightarrow> (msg # msgs, r))))))"

declare main_loop.simps [simp del]

definition mainLoop ::
  "('i, 'z) libs \<Rightarrow> ('i, 'z, 'm) server_client_scheme \<Rightarrow>
    server_msg list \<times> unit outcome \<times> ('i, 'z, 'm) server_client_scheme" where
  "mainLoop L c = main_loop L (length (rbytes c)) c"

section \<open>What reading leaves alone\<close>

text \<open>
  Reading takes bytes from the front of the connection and sends nothing; the size of the
  framebuffer, the name, the pixel format and the encodings of the client stay.
\<close>

definition consumed :: "('z, 'm) tight_client_scheme \<Rightarrow> ('z, 'm) tight_client_scheme \<Rightarrow> bool" where
  "consumed s t \<longleftrightarrow> (\<exists>k. rbytes t = drop k (rbytes s)) \<and> rend t = rend s \<and> sent t = sent s \<and>
     wres t = wres s \<and> Encs t = Encs s \<and> FramebufferWidth t = FramebufferWidth s \<and>
     FramebufferHeight t = FramebufferHeight s \<and> DesktopName t = DesktopName s \<and>
     PixelFormat t = PixelFormat s \<and> length (ColorMap t) = length (ColorMap s)"

lemma consumedI:
  "rbytes t = drop k (rbytes s) \<Longrightarrow> rend t = rend s \<Longrightarrow> sent t = sent s \<Longrightarrow> wres t = wres s \<Longrightarrow>
    Encs t = Encs s \<Longrightarrow> FramebufferWidth t = FramebufferWidth s \<Longrightarrow>
    FramebufferHeight t = FramebufferHeight s \<Longrightarrow> DesktopName t = DesktopName s \<Longrightarrow>
    PixelFormat t = PixelFormat s \<Longrightarrow> length (ColorMap t) = length (ColorMap s) \<Longrightarrow> consumed s t"
  by (auto simp: consumed_def)

interpretation reading: frame consumed
proof unfold_locales
  show "consumed s s" for s :: "('z, 'm) tight_client_scheme"
    by (rule consumedI [of _ 0]) simp_all
  show "consumed s t \<Longrightarrow> consumed t u \<Longrightarrow> consumed s u" for s t u :: "('z, 'm) tight_client_scheme"
    by (auto simp: consumed_def)
qed

lemma consumed_same:
  assumes "\<And>s. rbytes (f s) = rbytes s \<and> rend (f s) = rend s \<and> sent (f s) = sent s \<and> wres (f s) = wres s \<and>
    Encs (f s) = Encs s \<and> FramebufferWidth (f s) = FramebufferWidth s \<and>
    FramebufferHeight (f s) = FramebufferHeight s \<and> DesktopName (f s) = DesktopName s \<and>
    PixelFormat (f s) = PixelFormat s \<and> length (ColorMap (f s)) = length (ColorMap s)"
  shows "keeps consumed (modifyS f)"
  using assms by (intro keeps_modifyS consumedI [of _ 0]) simp_all

lemma consumed_drop: "consumed s (s\<lparr>rbytes := drop k (rbytes s)\<rparr>)"
  by (rule consumedI [of _ k]) simp_all

lemma consumed_nil: "consumed s (s\<lparr>rbytes := []\<rparr>)"
  using consumed_drop [of s "length (rbytes s)"] by simp

lemma consumed_tl: "rbytes s = b # bs \<Longrightarrow> consumed s (s\<lparr>rbytes := bs\<rparr>)"
  using consumed_drop [of s 1] by simp

lemma consumed_read_full: "keeps consumed (read_full n)"
  by (simp add: keeps_def read_full_def consumed_drop consumed_nil)

lemma consumed_read_byte: "keeps consumed read_byte"
  by (auto simp: keeps_def read_byte_def reading.refl consumed_tl split: list.split)

lemma consumed_reads:
  "keeps consumed read_u8" "keeps consumed read_u16" "keeps consumed read_u32"
  unfolding read_u8_def read_u16_def read_u32_def
  by (rule reading.keeps_bindM [OF consumed_read_full reading.keeps_ret])+

lemmas consumed_prog = reading.keeps_ret reading.keeps_fail reading.keeps_panic reading.keeps_lift
  reading.keeps_getS reading.keeps_bindM keeps_if keeps_annotate consumed_read_full consumed_read_byte
  consumed_reads

lemma consumed_compact_loop: "keeps consumed (compact_loop n k x sh)"
proof (induction n arbitrary: k x sh)
  case 0
  show ?case
    by (subst compact_loop.simps) (auto intro!: consumed_prog consumed_same)
next
  case (Suc n)
  show ?case
    by (subst compact_loop.simps) (auto intro!: consumed_prog consumed_same Suc.IH)
qed

lemma consumed_conn_to_buf: "keeps consumed (conn_to_buf n)"
  by (auto simp: keeps_def conn_to_buf_def Let_def intro!: consumedI [of _ n])

lemma consumed_fill_stream: "keeps consumed (fill_stream i n)"
  by (auto simp: keeps_def fill_stream_def Let_def intro!: consumedI [of _ n])

lemma consumed_stream_steps:
  "keeps consumed (new_stream zl i)" "keeps consumed (reset_stream zl i)"
  by (auto simp: keeps_def new_stream_def reset_stream_def intro!: consumedI [of _ 0]
      split: prod.split outcome.split option.split)

lemma consumed_readToBuf: "keeps consumed (readToBuf zl src n)"
proof (cases src)
  case (ZStream i)
  show ?thesis
    by (auto simp: ZStream keeps_def readToBuf_def intro!: consumedI [of _ 0] split: prod.split option.split)
qed (simp_all add: readToBuf_def consumed_conn_to_buf)

lemma consumed_readTPixels: "keeps consumed (readTPixels zl src n)"
  unfolding readTPixels_def by (intro consumed_prog consumed_readToBuf consumed_same) simp_all

lemma consumed_basic_reader: "keeps consumed (basicCompressionReader zl n i)"
  unfolding basicCompressionReader_def readCompactLength_def
  by (intro consumed_prog consumed_compact_loop consumed_fill_stream consumed_stream_steps consumed_same)
    simp_all

lemma consumed_tight_steps:
  "keeps consumed (tight_result cs)" "keeps consumed reset_buf"
  unfolding tight_result_def reset_buf_def by (intro consumed_prog consumed_same; simp)+

lemma consumed_filters:
  "keeps consumed (copy_filter zl rect i)" "keeps consumed (palette_filter zl rect i)"
  "keeps consumed (gradient_filter zl rect i)"
  unfolding copy_filter_def palette_filter_def gradient_filter_def Let_def
  by (intro consumed_prog consumed_basic_reader consumed_tight_steps consumed_readTPixels consumed_readToBuf)+

lemma consumed_Tight_Read: "keeps consumed (Tight_Read zl jpeg rect)"
proof -
  have img: "keeps consumed (jpeg_compression jpeg rect)"
    unfolding jpeg_compression_def readCompactLength_def
    by (intro consumed_prog consumed_compact_loop consumed_tight_steps consumed_same keeps_modifyS | 
        (auto intro: consumed_drop)[1] | auto split: option.split prod.split)+
  show ?thesis
    unfolding Tight_Read_def readBasicCompression_def
    by (intro consumed_prog consumed_filters consumed_tight_steps consumed_readTPixels img consumed_same)
      simp_all
qed

lemma consumed_run_inflate: "keeps consumed (run_inflate inflate p)"
  by (auto simp: keeps_def run_inflate_def intro!: consumedI [of _ 0] split: prod.split)

lemma consumed_Encoding_Read: "keeps consumed (Encoding_Read L e rect)"
proof (cases e)
  case RawEncoding
  then show ?thesis by (simp add: Raw_Read_def) (intro consumed_prog)
next
  case ZRLEEncoding
  have "keeps consumed (ZRLE_Read (linflate L) rect)"
    unfolding ZRLE_Read_def
    by (intro consumed_prog consumed_run_inflate) (auto split: prod.split intro!: consumed_prog)
  with ZRLEEncoding show ?thesis by (auto intro!: consumed_prog)
next
  case TightEncoding
  then show ?thesis by (auto intro!: consumed_prog consumed_Tight_Read)
next
  case CursorEncoding
  then show ?thesis by (simp add: Cursor_Read_def) (intro consumed_prog)
qed (simp_all add: consumed_prog)

lemma consumed_read_rectangle: "keeps consumed (read_rectangle L encs)"
  unfolding read_rectangle_def Let_def
  by (intro consumed_prog) (auto split: option.split intro!: consumed_prog consumed_Encoding_Read)

lemma consumed_server_Read:
  assumes "server_Read L t = Some m"
  shows "keeps consumed m"
proof -
  have "keeps consumed (FramebufferUpdate_Read L)"
    unfolding FramebufferUpdate_Read_def by (intro consumed_prog reading.keeps_mapM consumed_read_rectangle)
  moreover have "keeps consumed SetColorMapEntries_Read"
    unfolding SetColorMapEntries_Read_def set_color_entry_def Let_def
    by (intro consumed_prog reading.keeps_mapM consumed_same) simp_all
  moreover have "keeps consumed ServerCutText_Read"
    unfolding ServerCutText_Read_def by (intro consumed_prog)
  ultimately show ?thesis
    using assms by (auto simp: server_Read.simps split: if_splits intro: reading.keeps_ret)
qed

section \<open>Every read returns, and gives as many colours as pixels\<close>

text \<open>The libraries come back from every call.\<close>

definition zlib_returns :: "'z zlib \<Rightarrow> bool" where
  "zlib_returns zl \<longleftrightarrow> (\<forall>b. fst (zlNew zl b) \<noteq> Diverge)"

definition libs_return :: "('i, 'z) libs \<Rightarrow> bool" where
  "libs_return L \<longleftrightarrow> (\<forall>i p. fst (linflate L i p) \<noteq> Diverge) \<and> zlib_returns (lzlib L) \<and>
     (\<forall>b. fst (ljpeg L b) \<noteq> Diverge)"

lemma gives_reads:
  "returns (read_full n)" "returns read_byte" "returns read_u8" "returns read_u16" "returns read_u32"
  by (auto simp: gives_def read_full_def read_byte_def read_u8_def read_u16_def read_u32_def bindM_def
      split: list.split)

lemma qb_ReadColors_gives: "gives (\<lambda>cs. length cs = n) (qb_ReadColors n)"
  by (simp add: gives_def qb_ReadColors_def Let_def length_colors_of colorSize_def)

lemma yields_ReadColors: "yields (\<lambda>cs. length cs = n) (fst (qb_ReadColors n q))"
  using qb_ReadColors_gives by (simp add: gives_def)

text \<open>Programs are taken apart with an intermediate result about which nothing is known.\<close>

lemma gives_then: "returns m \<Longrightarrow> (\<And>a. gives Q (f a)) \<Longrightarrow> gives Q (bindM m f)"
  by (rule gives_bindM) 

lemma returns_compact_loop: "returns (readCompactLength :: (('z, 'm) tight_client_scheme, nat) prog)"
proof -
  have "yields (\<lambda>_. True) (fst (readCompactLength t))" for t :: "('z, 'm) tight_client_scheme"
    using compact_length_post [of t] by (auto simp: compact_post_def split: prod.splits outcome.splits)
  then show ?thesis by (simp add: gives_def)
qed

lemma returns_to_buf: "returns (conn_to_buf n)" "returns (readToBuf zl src n)"
  by (auto simp: gives_def readToBuf_def conn_to_buf_def Let_def split: tight_source.split option.split prod.split)

lemma returns_stream_steps:
  "returns (fill_stream i n)" "zlib_returns zl \<Longrightarrow> returns (new_stream zl i)" "returns (reset_stream zl i)"
  by (auto simp: gives_def fill_stream_def new_stream_def reset_stream_def Let_def zlib_returns_def
      split: option.split prod.split outcome.split) (metis fst_conv)

lemma returns_basic_reader: "zlib_returns zl \<Longrightarrow> returns (basicCompressionReader zl n i)"
  unfolding basicCompressionReader_def
  by (intro gives_if gives_then gives_leaf returns_compact_loop returns_stream_steps) simp_all

lemma readTPixels_gives: "gives (\<lambda>cs. length cs = n) (readTPixels zl src n)"
  unfolding readTPixels_def
  by (intro gives_then gives_if gives_leaf returns_to_buf) (simp add: yields_ReadColors)

lemma tight_result_gives: "Q colors \<Longrightarrow> gives (\<lambda>r. Q (fst r)) (tight_result colors)"
  unfolding tight_result_def by (intro gives_then gives_leaf) simp

lemma palette_bits_gives:
  "yields (\<lambda>cs. length cs = length is) (palette_bits W pal buf off idx is)"
proof (induction "is" arbitrary: off idx)
  case (Cons i "is")
  show ?case
    unfolding palette_bits.simps Let_def
    by (intro yields_bindO [OF yields_index_go] yields_bindO [OF Cons.IH]) simp
qed simp

lemma palette_bytes_gives: "yields (\<lambda>cs. length cs = n) (palette_bytes pal buf n)"
proof -
  have "yields (\<lambda>cs. length cs = length [0..<n]) (palette_bytes pal buf n)"
    unfolding palette_bytes_def
    by (intro yields_mapO yields_bindO [OF yields_index_go]) simp
  then show ?thesis by simp
qed

lemma gradient_loop_gives: "yields (\<lambda>cs. length cs = length colors) (gradient_loop W diffs ps colors)"
proof -
  have comp: "yields (\<lambda>_. True) (get_component c x)" for c x by (simp add: get_component_def)
  have at: "yields (\<lambda>_. True) (colorRect_at W colors y x c)" for y x c colors
    by (auto simp: colorRect_at_def intro!: yields_bindO [OF yields_index_go] comp)
  have "gradient_loop W diffs ps colors \<noteq> Diverge"
  proof (induction ps arbitrary: colors)
    case (Cons p ps)
    have "yields (\<lambda>_. True) (gradient_pixel W diffs p colors)"
      unfolding gradient_pixel_def set_component_def Let_def
      by (auto split: prod.split intro!: yields_bindO [OF at] yields_bindO [OF yields_index_go] yields_bindO [OF comp])
    with Cons.IH show ?case by (cases "gradient_pixel W diffs p colors") simp_all
  qed simp
  then show ?thesis
    by (cases "gradient_loop W diffs ps colors") (auto dest: gradient_loop_same)
qed

lemma returns_reset_buf: "returns reset_buf"
  by (simp add: reset_buf_def returns_state)

abbreviation sized :: "'y rect_scheme \<Rightarrow> color list \<times> int \<Rightarrow> bool" where
  "sized rect r \<equiv> length (fst r) = Area rect"

lemma filters_give:
  assumes "zlib_returns zl"
  shows "gives (sized rect) (copy_filter zl rect i)" "gives (sized rect) (palette_filter zl rect i)"
    "gives (sized rect) (gradient_filter zl rect i)"
proof -
  note buf = returns_reset_buf
  have result: "gives (sized rect) (tight_result cs)" if "length cs = Area rect" for cs
    using tight_result_gives [of "\<lambda>cs. length cs = Area rect"] that .
  show "gives (sized rect) (copy_filter zl rect i)"
    unfolding copy_filter_def
    by (intro gives_then [OF returns_basic_reader [OF assms]] gives_then [OF buf]
        gives_bindM [OF readTPixels_gives] result) simp
  have pal: "gives (\<lambda>cs. length cs = Area rect)
      (lift (if n = 2 then palette_bits W pal b off idx [0..<Area rect] else palette_bytes pal b (Area rect)))"
    for n W pal b off idx
    using palette_bits_gives [of "[0..<Area rect]"] by (simp add: palette_bytes_gives)
  show "gives (sized rect) (palette_filter zl rect i)"
    unfolding palette_filter_def Let_def
    by (intro gives_then [OF gives_reads(3)] gives_then [OF buf] gives_then [OF gives_returns [OF readTPixels_gives]]
        gives_then [OF returns_basic_reader [OF assms]] gives_then [OF returns_to_buf(2)]
        gives_then [OF returns_state(1)] gives_bindM [OF pal] result)
  have grad: "gives (\<lambda>cs. length cs = Area rect) (lift (gradient_loop W d ps (replicate (Area rect * 3 div 3) zero_color)))"
    for W d ps
    using gradient_loop_gives [of "replicate (Area rect * 3 div 3) zero_color"] by simp
  show "gives (sized rect) (gradient_filter zl rect i)"
    unfolding gradient_filter_def
    by (intro gives_then [OF returns_state(1)] gives_if gives_fail gives_then [OF buf]
        gives_then [OF returns_basic_reader [OF assms]] gives_then [OF gives_returns [OF readTPixels_gives]]
        gives_bindM [OF grad] result)
qed

lemma jpeg_gives:
  assumes "\<forall>b. fst (jpeg b) \<noteq> Diverge"
  shows "gives (sized rect) (jpeg_compression jpeg rect)"
proof -
  have img: "returns (annotate msg (lift img))" if "jpeg b = (img, used)" for msg b img used
    using assms that by (metis fst_conv gives_annotate gives_lift yields_True)
  have colors: "gives (\<lambda>cs. length cs = Area rect) (lift (fst (qb_ReadColors (Area rect) q)))" for q
    by (simp add: yields_ReadColors)
  show ?thesis
    unfolding jpeg_compression_def
    by (intro gives_then [OF returns_compact_loop] gives_then [OF returns_state(1)])
      (auto split: prod.split option.split intro!: gives_then [OF returns_state(2)] gives_then [OF img] gives_fail
        gives_bindM [OF colors] tight_result_gives [of "\<lambda>cs. length cs = Area rect"])
qed

lemma Tight_Read_gives:
  assumes "zlib_returns zl" and "\<forall>b. fst (jpeg b) \<noteq> Diverge"
  shows "gives (sized rect) (Tight_Read zl jpeg rect)"
proof -
  have filterID: "returns (if b then bindM read_u8 (\<lambda>f. bindM (modifyS u) (\<lambda>_. ret f)) else ret 0)"
    for b and u :: "('z, 'm) tight_client_scheme \<Rightarrow> ('z, 'm) tight_client_scheme"
    by (intro gives_if gives_then [OF gives_reads(3)] gives_then [OF returns_state(2)] gives_leaf) simp_all
  have basic: "gives (sized rect) (readBasicCompression zl rect b i)" for b i
    unfolding readBasicCompression_def
    by (intro gives_then [OF filterID] gives_if filters_give assms(1) gives_fail)
  have fill: "gives (\<lambda>cs. length cs = Area rect)
      (lift (if Area rect = 0 then Ok [] else bindO (index_go fill 0) (\<lambda>c. Ok (replicate (Area rect) c))))" for fill
    by (auto intro!: yields_bindO [OF yields_index_go])
  show ?thesis
    unfolding Tight_Read_def
    by (intro gives_then [OF returns_state(1)] gives_then [OF returns_state(2)] gives_if gives_fail basic
        gives_then [OF gives_reads(3)] gives_then [OF returns_reset_buf] jpeg_gives assms(2)
        gives_bindM [OF fill] gives_then [OF gives_returns [OF readTPixels_gives]]
        tight_result_gives [of "\<lambda>cs. length cs = Area rect"])
qed

definition data_ok :: "'y rect_scheme \<Rightarrow> enc_data \<Rightarrow> bool" where
  "data_ok rect d = (case enc_colors d of Some cs \<Rightarrow> length cs = Area rect | None \<Rightarrow> True)"

lemma Raw_Read_gives: "gives (\<lambda>cs. length cs = Area rect) (Raw_Read pf cmap rect)"
proof -
  have pix: "returns (raw_pixel pf cmap :: (reader, color) prog)"
    unfolding raw_pixel_def
    by (intro gives_then [OF gives_reads(1)]) (simp add: raw_color_def)
  have "yields (\<lambda>cs. length cs = Area rect)
      (fst (mapM (\<lambda>yx. raw_pixel pf cmap)
         (List.product [0..<unat (rHeight rect)] [0..<unat (rWidth rect)]) (\<lparr>rbytes = b, rend = EOF\<rparr> :: reader)))" for b
  proof -
    have "yields (\<lambda>ys. length ys = length xs) (fst (mapM (\<lambda>yx :: nat \<times> nat. raw_pixel pf cmap) xs r))"
      for xs and r :: reader
      using gives_mapM [of "\<lambda>_. True" "\<lambda>yx. raw_pixel pf cmap" xs, OF pix]
      by (auto simp: gives_def intro: yields_mono)
    from this [of "List.product [0..<unat (rHeight rect)] [0..<unat (rWidth rect)]"] show ?thesis
      by (simp add: Area_def mult.commute)
  qed
  then show ?thesis
    unfolding Raw_Read_def by (intro gives_then [OF gives_reads(1)]) simp
qed

lemma ZRLE_Read_gives:
  assumes "\<forall>i p. fst (inflate i p) \<noteq> Diverge" and "unat (rWidth rect) \<le> 65472" and "unat (rHeight rect) \<le> 65472"
  shows "gives (\<lambda>r. length (fst r) = Area rect) (ZRLE_Read inflate rect)"
proof -
  have inf: "returns (run_inflate inflate p)" for p
    using assms(1) by (auto simp: gives_def run_inflate_def yields_True split: prod.split) (metis fst_conv)
  have parse: "gives (\<lambda>cs. length cs = Area rect) (lift r)" if "ZRLE_parse rect q = (r, q')" for r q q'
    using givesD [OF ZRLE_parse_gives [OF assms(2,3)] that] by simp
  show ?thesis
    unfolding ZRLE_Read_def
    by (intro gives_then [OF gives_reads(5)] gives_if gives_panic gives_fail gives_then [OF gives_reads(1)]
        gives_then [OF gives_annotate [OF inf]] gives_then [OF returns_state(1)])
      (auto split: prod.split intro!: gives_bindM [OF gives_annotate [OF parse]] gives_ret gives_fail)
qed

lemma Encoding_Read_gives:
  assumes "libs_return L" and "\<not> excessive_rect rect"
  shows "gives (data_ok rect) (Encoding_Read L e rect)"
proof (cases e)
  case RawEncoding
  then show ?thesis
    by (auto intro!: gives_then [OF returns_state(1)] gives_bindM [OF Raw_Read_gives] gives_ret simp: data_ok_def)
next
  case ZRLEEncoding
  have "unat (rWidth rect) \<le> 65472" "unat (rHeight rect) \<le> 65472"
    using assms(2) by (auto simp: excessive_rect_def word_less_nat_alt)
  with ZRLEEncoding assms(1) show ?thesis
    by (auto intro!: gives_bindM [OF ZRLE_Read_gives] gives_ret simp: data_ok_def libs_return_def)
next
  case TightEncoding
  with assms(1) show ?thesis
    by (auto intro!: gives_bindM [OF Tight_Read_gives] gives_ret simp: data_ok_def libs_return_def)
next
  case CursorEncoding
  then show ?thesis
    by (auto intro!: gives_then gives_reads gives_ret returns_state simp: Cursor_Read_def data_ok_def)
qed (simp_all add: gives_fail)

definition rect_ok :: "rectangle \<Rightarrow> bool" where
  "rect_ok r \<longleftrightarrow> rX r \<le> 5120 \<and> rY r \<le> 2880 \<and> rWidth r \<le> 5120 \<and> rHeight r \<le> 2880 \<and> data_ok r (Enc r)"

lemma data_ok_extend:
  "data_ok \<lparr>rX = x, rY = y, rWidth = w, rHeight = h\<rparr> d \<Longrightarrow>
    data_ok \<lparr>rX = x, rY = y, rWidth = w, rHeight = h, Enc = e\<rparr> d"
  by (simp add: data_ok_def Area_def split: option.splits)

lemma read_rectangle_gives:
  assumes "libs_return L"
  shows "gives rect_ok (read_rectangle L encs)"
  unfolding read_rectangle_def Let_def
  by (intro gives_then [OF gives_reads(4)] gives_then [OF gives_reads(5)] gives_if gives_fail)
    (auto split: option.split intro!: gives_fail gives_bindM [OF Encoding_Read_gives [OF assms]] gives_ret
      simp: rect_ok_def excessive_rect_def data_ok_extend not_less)

definition msg_sane :: "server_msg \<Rightarrow> bool" where
  "msg_sane m =
     (case m of
        FramebufferUpdateMessage rects \<Rightarrow> length rects \<le> 1000 \<and> list_all rect_ok rects
      | _ \<Rightarrow> True)"

lemma server_Read_gives:
  assumes "libs_return L" and "server_Read L t = Some m"
  shows "gives msg_sane m"
proof -
  have "gives msg_sane (FramebufferUpdate_Read L)"
    unfolding FramebufferUpdate_Read_def
    by (intro gives_then [OF gives_reads(1)] gives_then [OF gives_reads(4)] gives_if gives_fail
        gives_then [OF returns_state(1)] gives_bindM [OF gives_mapM [OF read_rectangle_gives [OF assms(1)]]] gives_ret)
      (auto simp: msg_sane_def word_less_nat_alt)
  moreover have "gives msg_sane SetColorMapEntries_Read"
  proof -
    have "returns (set_color_entry first i)" for first i
      unfolding set_color_entry_def Let_def
      by (intro gives_then [OF gives_reads(3)] gives_then [OF returns_state(1)] gives_if gives_panic
          gives_then [OF returns_state(2)] gives_ret) simp
    then show ?thesis
      unfolding SetColorMapEntries_Read_def
      by (intro gives_then [OF gives_reads(1)] gives_then [OF gives_reads(4)] gives_bindM [OF gives_mapM] gives_ret)
        (auto simp: msg_sane_def)
  qed
  moreover have "gives msg_sane ServerCutText_Read"
    unfolding ServerCutText_Read_def
    by (intro gives_then [OF gives_reads(1)] gives_then [OF gives_reads(5)] gives_ret) (simp add: msg_sane_def)
  moreover have "gives msg_sane (ret BellMessage)"
    by (rule gives_ret) (simp add: msg_sane_def)
  ultimately show ?thesis using assms(2) by (auto simp: server_Read.simps split: if_splits)
qed

section \<open>The main loop ends\<close>

lemma read_u8_OkD: "read_u8 c = (Ok t, c1) \<Longrightarrow> rbytes c = t # rbytes c1 \<and> c1 = c\<lparr>rbytes := rbytes c1\<rparr>"
  using u8_codec.dec_OkD [of c t c1] u8_codec.dec_takes [of c t c1] by auto

lemma keeps_length:
  assumes "keeps consumed m" and "m s = (r, s')"
  shows "length (rbytes s') \<le> length (rbytes s)"
  using keepsD [OF assms] by (auto simp: consumed_def)

lemma main_loop_ends:
  fixes c :: "('i, 'z, 'm) server_client_scheme"
  assumes "libs_return L" and "length (rbytes c) \<le> fuel"
  shows "case main_loop L fuel c of (msgs, r, c') \<Rightarrow>
    list_all msg_sane msgs \<and> consumed c c' \<and> (\<forall>u. r \<noteq> Ok u) \<and> r \<noteq> Diverge"
  using assms(2)
proof (induction fuel arbitrary: c)
  case 0
  then have "annotate ''could not read message type'' read_u8 c = (Err (Annotated ''could not read message type'' (short_err c)), c\<lparr>rbytes := []\<rparr>)"
    by (simp add: annotate_def u8_codec.dec_short)
  then show ?case
    by (simp add: main_loop.simps [of L 0 c] consumed_nil)
next
  case (Suc n)
  show ?case
  proof (cases "read_u8 c")
    case (Pair r1 c1)
    have ann: "annotate ''could not read message type'' read_u8 c =
        (case r1 of Err e \<Rightarrow> (Err (Annotated ''could not read message type'' e), c1) | _ \<Rightarrow> (r1, c1))"
      by (simp add: annotate_def Pair split: outcome.split)
    have c1: "consumed c c1" by (rule keepsD [OF consumed_reads(1) Pair])
    show ?thesis
    proof (cases r1)
      case (Ok t)
      with Pair have len: "length (rbytes c1) \<le> n" and t: "annotate ''could not read message type'' read_u8 c = (Ok t, c1)"
        using read_u8_OkD [of c t c1] Suc.prems ann by auto
      show ?thesis
      proof (cases "server_Read L t :: (('i, 'z, 'm) server_client_scheme, server_msg) prog option")
        case None
        then show ?thesis using t c1 by (simp add: main_loop.simps [of L "Suc n" c])
      next
        case (Some m)
        obtain r2 c2 where m: "m c1 = (r2, c2)" by (cases "m c1")
        have c2: "consumed c1 c2" by (rule keepsD [OF consumed_server_Read [OF Some] m])
        have len2: "length (rbytes c2) \<le> n"
          using keeps_length [OF consumed_server_Read [OF Some] m] len by simp
        have y: "yields msg_sane r2" by (rule givesD [OF server_Read_gives [OF assms(1) Some] m])
        obtain msgs r c' where rec: "main_loop L n c2 = (msgs, r, c')" by (cases "main_loop L n c2") auto
        with Suc.IH [OF len2] have "list_all msg_sane msgs" "consumed c2 c'" "\<forall>u. r \<noteq> Ok u" "r \<noteq> Diverge"
          by simp_all
        with y show ?thesis
          using t Some m rec reading.trans [OF c1 c2] reading.trans [OF reading.trans [OF c1 c2]]
          by (cases r2) (simp_all add: main_loop.simps [of L "Suc n" c])
      qed
    next
      case (Err e)
      then show ?thesis using ann c1 by (simp add: main_loop.simps [of L "Suc n" c])
    next
      case (Panic p)
      then show ?thesis using ann c1 by (simp add: main_loop.simps [of L "Suc n" c])
    next
      case Diverge
      then show ?thesis using Pair returnsD [OF gives_reads(3), of c c1] by simp
    qed
  qed
qed


definition demo_libs :: "(unit, goerr option) libs" where
  "demo_libs = \<lparr>lzlib = header_zlib, ljpeg = \<lambda>_. (Ok None, 0), linflate = \<lambda>i p. (Ok p, i)\<rparr>"

definition demo_server :: "u8 list \<Rightarrow> (unit, 'z) server_client" where
  "demo_server bs = tight_client.extend (demo_tight bs) \<lparr>inflator = ()\<rparr>"

lemma demo_libs_return: "libs_return demo_libs"
  by (auto simp: libs_return_def demo_libs_def zlib_returns_def header_zlib_def Let_def
      split: list.split prod.split option.split)


end
