(* ===== verification/Screen.thy ===== *)
theory Screen
  imports ServerMsg Grid
begin

text \<open>
  The screen of a session and how the rectangles of an update are drawn on it:
  \<^verbatim>\<open>gymvnc/screen.go\<close>, \<open>applyRect\<close> and \<open>applyUpdate\<close> of \<^verbatim>\<open>gymvnc/gymvnc.go\<close>.
\<close>

record screen =
  sData :: "color list"
  sWidth :: u16
  sHeight :: u16

definition NewScreen :: "u16 \<Rightarrow> u16 \<Rightarrow> screen" where
  "NewScreen w h =
     \<lparr>sData = replicate (unat ((ucast w :: u32) * ucast h)) zero_color, sWidth = w, sHeight = h\<rparr>"

section \<open>Drawing\<close>

text \<open>
  One row of a rectangle: all positions are computed in \<open>uint32\<close>; both slices are taken, the one of
  the screen first, before anything is copied.
\<close>

definition apply_row ::
  "u16 \<Rightarrow> 'z rect_scheme \<Rightarrow> color list \<Rightarrow> u32 \<Rightarrow> color list \<times> u32 \<Rightarrow> (color list \<times> u32) outcome" where
  "apply_row fbw r colors y st =
     (case st of (data, bytes) \<Rightarrow>
      let encStart = ucast (rWidth r) * y;
          encEnd = encStart + ucast (rWidth r);
          screenStart = ucast fbw * (ucast (rY r) + y) + ucast (rX r);
          screenEnd = screenStart + ucast (rWidth r) in
      if screenEnd < screenStart \<or> length data < unat screenEnd then Panic SliceOutOfRange
      else if encEnd < encStart \<or> length colors < unat encEnd then Panic SliceOutOfRange
      else bindO (copy_go data (unat screenStart) (unat screenEnd - unat screenStart)
                   (take (unat encEnd - unat encStart) (drop (unat encStart) colors)))
             (\<lambda>data'. Ok (data', bytes + (encEnd - encStart))))"

definition applyRect ::
  "u16 \<Rightarrow> 'z rect_scheme \<Rightarrow> color list \<Rightarrow> color list \<Rightarrow> (color list \<times> u32) outcome" where
  "applyRect fbw r colors data =
     foldO (\<lambda>y. apply_row fbw r colors (of_nat y)) [0..<unat (rHeight r)] (data, 0)"

lemma two_32: "(2 :: nat) ^ 32 = 4294967296"
  by simp

text \<open>Without overflow the row goes where the arithmetic of natural numbers says.\<close>

lemma apply_row_nat:
  fixes fbw :: u16
  assumes y: "y < unat (rHeight r)"
    and pos: "unat fbw * (unat (rY r) + y) + unat (rX r) + unat (rWidth r) < 2 ^ 32"
    and colors: "length colors = Area r"
  shows "apply_row fbw r colors (of_nat y) (data, n) =
    bindO (copy_go data (y * unat fbw + (unat (rY r) * unat fbw + unat (rX r))) (unat (rWidth r))
             (drop (y * unat (rWidth r)) colors)) (\<lambda>data'. Ok (data', n + ucast (rWidth r)))"
proof -
  let ?W = "unat fbw" and ?w = "unat (rWidth r)"
  have "Suc y * ?w \<le> unat (rHeight r) * ?w" using y by (intro mult_le_mono1) simp
  then have src: "?w * y + ?w \<le> length colors" by (simp add: colors Area_def mult.commute)
  have "?w * unat (rHeight r) \<le> 65535 * 65535"
    using unat_u16_less [of "rWidth r"] unat_u16_less [of "rHeight r"] by (intro mult_le_mono) simp_all
  with src colors have "?w * y + ?w < 2 ^ 32" by (simp add: Area_def)
  define i where "i = ?W * (unat (rY r) + y) + unat (rX r)"
  define e where "e = ?w * y"
  have i: "i + ?w < 2 ^ 32" and e: "e + ?w < 2 ^ 32" "e + ?w \<le> length colors"
    using pos \<open>?w * y + ?w < 2 ^ 32\<close> src by (simp_all add: i_def e_def)
  have start: "ucast fbw * (ucast (rY r) + of_nat y) + ucast (rX r) = (of_nat i :: u32)"
    "ucast (rWidth r) * of_nat y = (of_nat e :: u32)"
    by (simp_all add: i_def e_def)
  have stop: "of_nat m + ucast (rWidth r) = (of_nat (m + ?w) :: u32)" for m
    by simp
  have un: "unat (of_nat (m + ?w) :: u32) = m + ?w" "unat (of_nat m :: u32) = m"
    "\<not> (of_nat (m + ?w) :: u32) < of_nat m" if "m + ?w < 2 ^ 32" for m
    using that by (simp_all add: unat_of_nat_u32 word_less_nat_alt del: of_nat_add)
  have bytes: "(of_nat (e + ?w) :: u32) - of_nat e = ucast (rWidth r)"
    by simp
  have trim: "copy_go data i ?w (take ?w xs) = copy_go data i ?w xs" for xs :: "color list"
    by (simp add: copy_go_def Let_def min_def)
  have "y * ?W + (unat (rY r) * ?W + unat (rX r)) = i" "y * ?w = e"
    by (simp_all add: i_def e_def algebra_simps)
  then show ?thesis
    unfolding apply_row_def Let_def start stop prod.case un [OF i] un [OF e(1)] bytes
    using e(2) trim by (cases "length data < i + ?w") (simp_all add: un [OF i] un [OF e(1)] copy_go_def del: of_nat_add)
qed

lemma apply_rows_blit:
  fixes fbw :: u16
  assumes "\<forall>y \<in> set ys. y < unat (rHeight r)"
    and "unat fbw * (unat (rY r) + unat (rHeight r)) + unat (rX r) + unat (rWidth r) < 2 ^ 32"
    and "length colors = Area r"
  shows "foldO (\<lambda>y. apply_row fbw r colors (of_nat y)) ys (data, n) =
    bindO (blit_rows (unat fbw) (unat (rX r)) (unat (rY r)) (unat (rWidth r)) colors ys data)
      (\<lambda>data'. Ok (data', n + of_nat (length ys) * ucast (rWidth r)))"
  using assms(1)
proof (induction ys arbitrary: data n)
  case (Cons y ys)
  have "unat fbw * (unat (rY r) + y) \<le> unat fbw * (unat (rY r) + unat (rHeight r))"
    using Cons.prems by (intro mult_le_mono2) simp
  with assms(2) have "unat fbw * (unat (rY r) + y) + unat (rX r) + unat (rWidth r) < 2 ^ 32"
    by linarith
  then have row: "apply_row fbw r colors (of_nat y) (data, n) =
    bindO (copy_go data (y * unat fbw + (unat (rY r) * unat fbw + unat (rX r))) (unat (rWidth r))
             (drop (y * unat (rWidth r)) colors)) (\<lambda>data'. Ok (data', n + ucast (rWidth r)))"
    using Cons.prems assms(3) by (intro apply_row_nat) simp_all
  show ?case
    using Cons
    by (cases "copy_go data (y * unat fbw + (unat (rY r) * unat fbw + unat (rX r))) (unat (rWidth r))
             (drop (y * unat (rWidth r)) colors)") (simp_all add: row algebra_simps)
qed simp

section \<open>Drawing as an operation on pictures\<close>

text \<open>The picture with the colours of a rectangle laid over it.\<close>

definition draw ::
  "'z rect_scheme \<Rightarrow> color list \<Rightarrow> (nat \<Rightarrow> nat \<Rightarrow> color) \<Rightarrow> nat \<Rightarrow> nat \<Rightarrow> color" where
  "draw r colors pic y x =
     (if unat (rY r) \<le> y \<and> y < unat (rY r) + unat (rHeight r) \<and>
         unat (rX r) \<le> x \<and> x < unat (rX r) + unat (rWidth r)
      then colors ! ((y - unat (rY r)) * unat (rWidth r) + (x - unat (rX r)))
      else pic y x)"

definition inside :: "u16 \<Rightarrow> u16 \<Rightarrow> 'z rect_scheme \<Rightarrow> bool" where
  "inside w h r \<longleftrightarrow>
     unat (rX r) + unat (rWidth r) \<le> unat w \<and> unat (rY r) + unat (rHeight r) \<le> unat h"

lemma screen_small: "unat (w :: u16) * unat (h :: u16) < 2 ^ 32"
proof -
  have "unat w * unat h \<le> 65535 * 65535"
    using unat_u16_less [of w] unat_u16_less [of h] by (intro mult_le_mono) simp_all
  then show ?thesis by simp
qed

lemma applyRect_draw:
  assumes "inside fbw fbh r" and "length colors = Area r"
  shows "applyRect fbw r colors (grid (unat fbw) (unat fbh) pic) =
    Ok (grid (unat fbw) (unat fbh) (draw r colors pic), of_nat (Area r))"
proof (cases "rHeight r = 0")
  case True
  then have "draw r colors pic = pic" by (intro ext) (auto simp: draw_def)
  with True show ?thesis by (simp add: applyRect_def Area_def)
next
  case False
  then have ht: "0 < unat (rHeight r)" by (simp add: unat_gt_0)
  let ?W = "unat fbw" and ?H = "unat fbh"
  have fit: "unat (rX r) + unat (rWidth r) \<le> ?W" "unat (rY r) + unat (rHeight r) \<le> ?H"
    using assms(1) by (simp_all add: inside_def)
  have "?W * (unat (rY r) + unat (rHeight r)) \<le> ?W * ?H" using fit(2) by (intro mult_le_mono2)
  moreover have "?W * ?H \<le> 65535 * 65535"
    using unat_u16_less [of fbw] unat_u16_less [of fbh] by (intro mult_le_mono) simp_all
  ultimately have small: "?W * (unat (rY r) + unat (rHeight r)) + unat (rX r) + unat (rWidth r) < 2 ^ 32"
    using fit(1) unat_u16_less [of fbw] unfolding two_32 by linarith
  have len: "length (grid ?W ?H pic) = ?H * ?W" by simp
  obtain c where c: "blit_rows ?W (unat (rX r)) (unat (rY r)) (unat (rWidth r)) colors
        [0..<unat (rHeight r)] (grid ?W ?H pic) = Ok c" "length c = ?H * ?W"
    "\<forall>y < ?H. \<forall>x < ?W. c ! (y * ?W + x) =
       (if unat (rX r) \<le> x \<and> x < unat (rX r) + unat (rWidth r) \<and> unat (rY r) \<le> y \<and>
           y - unat (rY r) \<in> set [0..<unat (rHeight r)]
        then colors ! ((y - unat (rY r)) * unat (rWidth r) + (x - unat (rX r)))
        else grid ?W ?H pic ! (y * ?W + x))"
    using blit_rows_placed [OF len fit(1,2), of colors "[0..<unat (rHeight r)]"] assms(2)
    by (auto simp: Area_def mult.commute)
  have "c = grid ?W ?H (draw r colors pic)"
    by (rule grid_eqI [OF c(2)]) (use c(3) in \<open>auto simp: draw_def grid_nth\<close>)
  then show ?thesis
    using apply_rows_blit [of "[0..<unat (rHeight r)]" r fbw colors] small assms(2) c(1)
    by (simp add: applyRect_def Area_def mult.commute)
qed

text \<open>When a rectangle that passed the guards of the decoder does not fit, whatever the screen.\<close>

lemma copy_row_length:
  "p + n \<le> length xs \<Longrightarrow> \<exists>c. copy_go xs p n src = Ok c \<and> length c = length xs"
  by (auto simp: copy_go_def Let_def)

lemma blit_rows_fit:
  "\<forall>j \<in> set js. j * W + (tY * W + tX) + tw \<le> length colors \<Longrightarrow>
    \<exists>c. blit_rows W tX tY tw pix js colors = Ok c \<and> length c = length colors"
proof (induction js arbitrary: colors)
  case (Cons j js)
  then obtain c where "copy_go colors (j * W + (tY * W + tX)) tw (drop (j * tw) pix) = Ok c"
      "length c = length colors"
    using copy_row_length [of "j * W + (tY * W + tX)" tw colors] by force
  with Cons.IH [of c] Cons.prems show ?case by simp
qed simp

lemma blit_rows_panic:
  "\<exists>j \<in> set js. length colors < j * W + (tY * W + tX) + tw \<Longrightarrow>
    blit_rows W tX tY tw pix js colors = Panic SliceOutOfRange"
proof (induction js arbitrary: colors)
  case (Cons j js)
  show ?case
  proof (cases "length colors < j * W + (tY * W + tX) + tw")
    case True
    then show ?thesis by (simp add: copy_go_def)
  next
    case False
    then obtain c where "copy_go colors (j * W + (tY * W + tX)) tw (drop (j * tw) pix) = Ok c"
        "length c = length colors"
      using copy_row_length [of "j * W + (tY * W + tX)" tw colors] by force
    with Cons.IH [of c] Cons.prems False show ?thesis by simp
  qed
qed simp

lemma applyRect_fits:
  fixes fbw :: u16
  assumes guard: "\<not> excessive_rect r" and colors: "length colors = Area r" and area: "0 < Area r"
  shows "if unat fbw * (unat (rY r) + unat (rHeight r) - 1) + unat (rX r) + unat (rWidth r) \<le> length data
    then \<exists>data'. applyRect fbw r colors data = Ok (data', of_nat (Area r)) \<and> length data' = length data
    else applyRect fbw r colors data = Panic SliceOutOfRange"
proof -
  let ?W = "unat fbw" and ?X = "unat (rX r)" and ?Y = "unat (rY r)"
    and ?w = "unat (rWidth r)" and ?h = "unat (rHeight r)"
  have g: "?X \<le> 5120" "?Y \<le> 2880" "?w \<le> 5120" "?h \<le> 2880"
    using guard by (simp_all add: excessive_rect_def not_less word_le_nat_alt)
  have "?W * (?Y + ?h) \<le> 65535 * 5760"
    using g unat_u16_less [of fbw] by (intro mult_le_mono) simp_all
  then have small: "?W * (?Y + ?h) + ?X + ?w < 2 ^ 32" using g unfolding two_32 by linarith
  have h: "0 < ?h" using area by (simp add: Area_def)
  have blit: "applyRect fbw r colors data =
      bindO (blit_rows ?W ?X ?Y ?w colors [0..<?h] data) (\<lambda>data'. Ok (data', of_nat (Area r)))"
    using apply_rows_blit [of "[0..<?h]" r fbw colors] small colors
    by (simp add: applyRect_def Area_def mult.commute)
  have last: "(\<forall>j \<in> set [0..<?h]. j * ?W + (?Y * ?W + ?X) + ?w \<le> length data) \<longleftrightarrow>
      ?W * (?Y + ?h - 1) + ?X + ?w \<le> length data"
  proof
    assume "\<forall>j \<in> set [0..<?h]. j * ?W + (?Y * ?W + ?X) + ?w \<le> length data"
    then have "(?h - 1) * ?W + (?Y * ?W + ?X) + ?w \<le> length data" using h by simp
    moreover have "(?h - 1) * ?W + ?Y * ?W = ?W * (?Y + ?h - 1)"
      using h by (cases ?h) (simp_all add: algebra_simps)
    ultimately show "?W * (?Y + ?h - 1) + ?X + ?w \<le> length data" by linarith
  next
    assume fit: "?W * (?Y + ?h - 1) + ?X + ?w \<le> length data"
    show "\<forall>j \<in> set [0..<?h]. j * ?W + (?Y * ?W + ?X) + ?w \<le> length data"
    proof
      fix j assume "j \<in> set [0..<?h]"
      then have "?W * (?Y + j) \<le> ?W * (?Y + ?h - 1)" by (intro mult_le_mono2) auto
      moreover have "j * ?W + ?Y * ?W = ?W * (?Y + j)" by (simp add: algebra_simps)
      ultimately show "j * ?W + (?Y * ?W + ?X) + ?w \<le> length data" using fit by linarith
    qed
  qed
  show ?thesis
  proof (cases "?W * (?Y + ?h - 1) + ?X + ?w \<le> length data")
    case True
    with last blit_rows_fit [of "[0..<?h]" ?W ?Y ?X ?w data colors] obtain c
      where "blit_rows ?W ?X ?Y ?w colors [0..<?h] data = Ok c" "length c = length data" by blast
    with True show ?thesis unfolding blit by simp
  next
    case False
    with last have "\<exists>j \<in> set [0..<?h]. length data < j * ?W + (?Y * ?W + ?X) + ?w"
      by (meson not_le)
    then have "blit_rows ?W ?X ?Y ?w colors [0..<?h] data = Panic SliceOutOfRange"
      by (rule blit_rows_panic)
    with False show ?thesis unfolding blit by simp
  qed
qed

text \<open>(C24) Drawing a rectangle that lies inside the screen puts its colours at its place and leaves every other
  pixel as it is; the count is the number of its pixels.\<close>

theorem apply_rect_draws:
  assumes "inside fbw fbh r" and "length colors = Area r"
  shows "applyRect fbw r colors (grid (unat fbw) (unat fbh) pic) =
    Ok (grid (unat fbw) (unat fbh) (draw r colors pic), of_nat (Area r))"
  by (rule applyRect_draw [OF assms])

theorem apply_rect_draws_witness:
  "applyRect 2 \<lparr>rX = 1, rY = 0, rWidth = 1, rHeight = 2\<rparr> [rgb 1 1 1, rgb 2 2 2]
     [zero_color, zero_color, zero_color, zero_color] =
   Ok ([zero_color, rgb 1 1 1, zero_color, rgb 2 2 2], 2)"
proof -
  let ?r = "\<lparr>rX = 1, rY = 0, rWidth = 1, rHeight = 2\<rparr>"
  have "inside 2 2 ?r" "length [rgb 1 1 1, rgb 2 2 2] = Area ?r" by (simp_all add: inside_def Area_def)
  from apply_rect_draws [OF this, of "\<lambda>_ _. zero_color"] show ?thesis
    by (simp add: grid_def upt_rec draw_def Area_def)
qed



end
