(* ===== verification/DoubleBuffer.thy ===== *)
theory DoubleBuffer
  imports Prelude
begin

text \<open>
  The contract of a double buffer with a queue of updates: the reader looks at the front, updates go
  to the back and into the queue, a flip exchanges the two, and a synchronisation brings the new back
  up to date. Each call keeps the two pictures consistent, and the updates the reader has not seen yet
  are handed out by the next flip, all of them, once and in order.
\<close>

locale double_buffer =
  fixes front :: "'s \<Rightarrow> 'p"
    and rear :: "'s \<Rightarrow> 'p"
    and pend :: "'s \<Rightarrow> 'u list"
    and fresh :: "'s \<Rightarrow> bool"
    and ready :: "'s \<Rightarrow> bool"
    and good :: "'u \<Rightarrow> bool"
    and apply_upd :: "'u \<Rightarrow> 'p \<Rightarrow> 'p"
    and flip :: "('s, 'u list) prog"
    and sync :: "('s, unit) prog"
    and push :: "'u \<Rightarrow> ('s, unit) prog"
  assumes flip_fresh: "ready s \<Longrightarrow> fresh s \<Longrightarrow>
      \<exists>s'. flip s = (Ok (pend s), s') \<and> ready s' \<and> \<not> fresh s' \<and>
        front s' = rear s \<and> rear s' = front s \<and> pend s' = pend s"
    and flip_stale: "ready s \<Longrightarrow> \<not> fresh s \<Longrightarrow> flip s = (Ok [], s)"
    and sync_fresh: "ready s \<Longrightarrow> fresh s \<Longrightarrow>
      \<exists>s'. sync s = (Ok (), s') \<and> ready s' \<and> fresh s' \<and>
        front s' = front s \<and> rear s' = rear s \<and> pend s' = pend s"
    and sync_stale: "ready s \<Longrightarrow> \<not> fresh s \<Longrightarrow>
      \<exists>s'. sync s = (Ok (), s') \<and> ready s' \<and> fresh s' \<and>
        front s' = front s \<and> rear s' = fold apply_upd (pend s) (rear s) \<and> pend s' = []"
    and push_fresh: "ready s \<Longrightarrow> fresh s \<Longrightarrow> good u \<Longrightarrow>
      \<exists>s'. push u s = (Ok (), s') \<and> ready s' \<and> fresh s' \<and>
        front s' = front s \<and> rear s' = apply_upd u (rear s) \<and> pend s' = pend s @ [u]"
    and push_stale: "ready s \<Longrightarrow> \<not> fresh s \<Longrightarrow> good u \<Longrightarrow>
      \<exists>s'. push u s = (Ok (), s') \<and> ready s' \<and> fresh s' \<and> front s' = front s \<and>
        rear s' = apply_upd u (fold apply_upd (pend s) (rear s)) \<and> pend s' = [u]"
begin

text \<open>The fresher picture is the other one with the queue applied.\<close>

definition consistent :: "'s \<Rightarrow> bool" where
  "consistent s \<longleftrightarrow> ready s \<and>
     (if fresh s then rear s = fold apply_upd (pend s) (front s)
      else front s = fold apply_upd (pend s) (rear s))"

definition unseen :: "'s \<Rightarrow> 'u list" where
  "unseen s = (if fresh s then pend s else [])"

lemma flip_step:
  assumes "consistent s"
  obtains s' where "flip s = (Ok (unseen s), s')" "consistent s'" "unseen s' = []"
    "front s' = fold apply_upd (unseen s) (front s)"
proof (cases "fresh s")
  case True
  with assms obtain s' where s': "flip s = (Ok (pend s), s')" "ready s'" "\<not> fresh s'" "front s' = rear s"
      "rear s' = front s" "pend s' = pend s"
    using flip_fresh [of s] by (auto simp: consistent_def)
  with assms True show thesis by (intro that [of s']) (simp_all add: consistent_def unseen_def)
next
  case False
  with assms show thesis
    using flip_stale [of s] by (intro that [of s]) (simp_all add: consistent_def unseen_def)
qed

lemma sync_step:
  assumes "consistent s"
  obtains s' where "sync s = (Ok (), s')" "consistent s'" "unseen s' = unseen s" "front s' = front s"
proof (cases "fresh s")
  case True
  with assms show thesis
    using sync_fresh [of s] that by (auto simp: consistent_def unseen_def)
next
  case False
  with assms show thesis
    using sync_stale [of s] that by (auto simp: consistent_def unseen_def)
qed

lemma push_step:
  assumes "consistent s" and "good u"
  obtains s' where "push u s = (Ok (), s')" "consistent s'" "unseen s' = unseen s @ [u]" "front s' = front s"
proof (cases "fresh s")
  case True
  with assms show thesis
    using push_fresh [of s u] that by (auto simp: consistent_def unseen_def)
next
  case False
  with assms show thesis
    using push_stale [of s u] that by (auto simp: consistent_def unseen_def)
qed

end

end
