(* ===== verification/Session.thy ===== *)
theory Session
  imports Screen DoubleBuffer
begin

text \<open>
  One session: the state of \<open>VNCSession\<close> in \<^verbatim>\<open>gymvnc/gymvnc.go\<close> and its methods. Every method, and
  every part of a goroutine that runs under the lock, is one program over the state; \<open>flips\<close> counts
  the goroutines that \<open>Flip\<close> has started and that have not run yet. Screens are reached through
  pointers into \<open>screens\<close>, as the code swaps pointers and hands them out.
\<close>

type_synonym update = "rectangle list"

datatype render_call =
    RInit u16 u16 "color list"
  | RApply "update list"
  | RRender
  | RClose

record vnc_config =
  cfgAddress :: string
  cfgPassword :: "u8 list"
  cfgEncoding :: string
  cfgQualityLevel :: int
  cfgCompressLevel :: int
  cfgFineQualityLevel :: int
  cfgSubsampleLevel :: int
  cfgStartTimeout :: int
  cfgSubscription :: "rect list option"

record session =
  sconn :: "client option"
  screens :: "screen list"
  frontScreen :: "nat option"
  backScreen :: "nat option"
  backUpdated :: bool
  deferredUpdates :: "update list"
  deferredUpdatesMax :: nat
  pauseUpdates :: bool
  flips :: nat
  hasRenderer :: bool
  rendererActive :: bool
  rcalls :: "render_call list"  \<comment> \<open>the calls of the renderer so far\<close>
  config :: vnc_config
  serr :: "goerr option"
  closed :: bool
  mgrDone :: bool               \<comment> \<open>\<open>mgr.Done\<close> has been closed\<close>
  mgrError :: "goerr list"      \<comment> \<open>the channel \<open>mgr.Error\<close>, of capacity one\<close>
  connClosed :: nat             \<comment> \<open>how often the session has closed the connection\<close>

section \<open>Updating the back screen\<close>

definition apply_to_back :: "rectangle \<Rightarrow> (session, unit) prog" where
  "apply_to_back r c =
     (case enc_colors (Enc r) of
        None \<Rightarrow> (Err (Errorf ''unsupported encoding''), c)
      | Some colors \<Rightarrow>
          if rHeight r = 0 then (Ok (), c)
          else
            (case (sconn c, backScreen c) of
               (Some conn, Some b) \<Rightarrow>
                 let scr = screens c ! b in
                 (case applyRect (FramebufferWidth conn) r colors (sData scr) of
                    Ok (data, n) \<Rightarrow> (Ok (), c\<lparr>screens := (screens c)[b := scr\<lparr>sData := data\<rparr>]\<rparr>)
                  | Err e \<Rightarrow> (Err e, c)
                  | Panic p \<Rightarrow> (Panic p, c)
                  | Diverge \<Rightarrow> (Diverge, c))
             | _ \<Rightarrow> (Panic NilDereference, c)))"

definition applyUpdate :: "update \<Rightarrow> (session, unit) prog" where
  "applyUpdate u = forM u apply_to_back"

text \<open>The error of \<open>applyUpdate\<close> is dropped here.\<close>

definition applyDeferred :: "(session, unit) prog" where
  "applyDeferred =
     bindM getS (\<lambda>c.
     if backUpdated c then ret ()
     else
       bindM (modifyS (\<lambda>c. c\<lparr>backUpdated := True\<rparr>)) (\<lambda>_.
       bindM (forM (deferredUpdates c) (\<lambda>u. drop_error (applyUpdate u))) (\<lambda>_.
       modifyS (\<lambda>c. c\<lparr>deferredUpdates := []\<rparr>))))"

text \<open>What the frame buffer goroutine does with one update from its channel.\<close>

definition maintain_update :: "update \<Rightarrow> (session, unit) prog" where
  "maintain_update u =
     bindM (annotate ''when applying deferred updates'' applyDeferred) (\<lambda>_.
     bindM (annotate ''when applying new update'' (applyUpdate u)) (\<lambda>_.
     modifyS (\<lambda>c.
       let c' = c\<lparr>deferredUpdates := deferredUpdates c @ [u]\<rparr> in
       if deferredUpdatesMax c' \<le> length (deferredUpdates c') \<and> \<not> pauseUpdates c'
       then c'\<lparr>pauseUpdates := True\<rparr> else c')))"

section \<open>Requests\<close>

definition on_conn :: "(client, 'a) prog \<Rightarrow> (session, 'a) prog" where
  "on_conn m c =
     (case sconn c of
        None \<Rightarrow> (Panic NilDereference, c)
      | Some conn \<Rightarrow> (case m conn of (r, conn') \<Rightarrow> (r, c\<lparr>sconn := Some conn'\<rparr>)))"

definition requestUpdate :: "(session, unit) prog" where
  "requestUpdate =
     bindM getS (\<lambda>c.
     case cfgSubscription (config c) of
       Some subs \<Rightarrow>
         forM subs (\<lambda>sub.
           on_conn (FramebufferUpdateRequest True (rX sub) (rY sub) (rWidth sub) (rHeight sub)))
     | None \<Rightarrow>
         on_conn (\<lambda>conn.
           FramebufferUpdateRequest True 0 0 (FramebufferWidth conn) (FramebufferHeight conn) conn))"

text \<open>
  \<open>select { case c.mgr.Error <- err: default: }\<close>: the error is dropped when the channel is full. The
  goroutine that waits on the channel takes one error and no more.
\<close>

definition report :: "goerr \<Rightarrow> session \<Rightarrow> session" where
  "report e c = (if mgrError c = [] then c\<lparr>mgrError := [e]\<rparr> else c)"

definition reporting :: "(session, unit) prog \<Rightarrow> (session, unit) prog" where
  "reporting m c = (case m c of (Err e, c') \<Rightarrow> (Ok (), report e c') | r \<Rightarrow> r)"

definition take_error :: "session \<Rightarrow> session" where
  "take_error c =
     (case mgrError c of [] \<Rightarrow> c | e # es \<Rightarrow> c\<lparr>mgrError := es, serr := Some e\<rparr>)"

section \<open>Flipping\<close>

definition Flip :: "(session, nat option \<times> update list) prog" where
  "Flip c =
     (if backUpdated c
      then let us = deferredUpdates c;
               c' = c\<lparr>frontScreen := backScreen c, backScreen := frontScreen c, backUpdated := False,
                      flips := flips c + 1,
                      rcalls := rcalls c @ (if rendererActive c then [RApply us] else [])\<rparr>
           in (Ok (frontScreen c', us), c')
      else (Ok (frontScreen c, []), c))"

text \<open>The goroutine that \<open>Flip\<close> starts.\<close>

definition resume_updates :: "(session, unit) prog" where
  "resume_updates =
     bindM getS (\<lambda>c.
     if pauseUpdates c
     then bindM (modifyS (\<lambda>c. c\<lparr>pauseUpdates := False\<rparr>)) (\<lambda>_. reporting requestUpdate)
     else ret ())"

definition flip_goroutine :: "(session, unit) prog" where
  "flip_goroutine =
     bindM (modifyS (\<lambda>c. c\<lparr>flips := flips c - 1\<rparr>)) (\<lambda>_.
     bindM applyDeferred (\<lambda>_. resume_updates))"

text \<open>The connection goroutine after it has passed on an update.\<close>

definition rerequest :: "(session, unit) prog" where
  "rerequest =
     bindM getS (\<lambda>c. if \<not> pauseUpdates c then reporting requestUpdate else ret ())"

section \<open>The methods of a session\<close>

definition Step :: "vnc_event list \<Rightarrow> (session, (nat option \<times> update list) option) prog" where
  "Step events =
     bindM getS (\<lambda>c.
     case serr c of
       Some e \<Rightarrow> fail e
     | None \<Rightarrow>
         if sconn c = None then ret None
         else
           bindM (forM events (\<lambda>ev. annotate ''could not step'' (on_conn (Execute ev)))) (\<lambda>_.
           bindM Flip (\<lambda>r. ret (Some r))))"

definition mgr_Close :: "(session, unit) prog" where
  "mgr_Close =
     bindM getS (\<lambda>c.
     if mgrDone c then panic (PanicMessage ''close of closed channel'')
     else modifyS (\<lambda>c. c\<lparr>mgrDone := True\<rparr>))"

definition session_Close :: "(session, unit) prog" where
  "session_Close =
     bindM getS (\<lambda>c.
     if closed c then ret ()
     else
       bindM (modifyS (\<lambda>c. c\<lparr>closed := True\<rparr>)) (\<lambda>_.
       bindM mgr_Close (\<lambda>_.
       bindM (modifyS (\<lambda>c. if sconn c \<noteq> None then c\<lparr>connClosed := connClosed c + 1\<rparr> else c)) (\<lambda>_.
       modifyS (\<lambda>c. if rendererActive c then c\<lparr>rcalls := rcalls c @ [RClose]\<rparr> else c)))))"

definition SetRenderer :: "bool \<Rightarrow> (session, unit) prog" where
  "SetRenderer renderer =
     bindM getS (\<lambda>c.
     if rendererActive c then fail (Errorf ''cannot change renderer while active'')
     else modifyS (\<lambda>c. c\<lparr>hasRenderer := renderer\<rparr>))"

text \<open>\<open>ini\<close> is what \<open>Init\<close> of the renderer returns.\<close>

definition Render_init :: "goerr option \<Rightarrow> client \<Rightarrow> (session, unit) prog" where
  "Render_init ini conn =
     bindM getS (\<lambda>c.
     case frontScreen c of
       None \<Rightarrow> panic NilDereference
     | Some f \<Rightarrow>
         bindM (modifyS (\<lambda>c. c\<lparr>rcalls := rcalls c @
           [RInit (FramebufferWidth conn) (FramebufferHeight conn) (sData (screens c ! f))]\<rparr>)) (\<lambda>_.
         case ini of
           Some e \<Rightarrow> fail (Annotated ''could not render'' e)
         | None \<Rightarrow> modifyS (\<lambda>c. c\<lparr>rendererActive := True\<rparr>)))"

definition Render :: "goerr option \<Rightarrow> bool \<Rightarrow> (session, unit) prog" where
  "Render ini close =
     bindM getS (\<lambda>c.
     if \<not> hasRenderer c then fail (Errorf ''VNCSession has no renderer'')
     else if closed c then fail (Errorf ''VNCSession is already closed; can't render'')
     else
       (case sconn c of
          None \<Rightarrow> ret ()
        | Some conn \<Rightarrow>
            bindM (if rendererActive c then ret () else Render_init ini conn) (\<lambda>_.
            modifyS (\<lambda>c. c\<lparr>rcalls := rcalls c @ [if close then RClose else RRender]\<rparr>))))"

definition SetSubscription :: "rect list option \<Rightarrow> session \<Rightarrow> session" where
  "SetSubscription subs c = c\<lparr>config := (config c)\<lparr>cfgSubscription := subs\<rparr>\<rparr>"

section \<open>The screens as a double buffer\<close>

definition front_data :: "session \<Rightarrow> color list" where
  "front_data c = sData (screens c ! the (frontScreen c))"

definition back_data :: "session \<Rightarrow> color list" where
  "back_data c = sData (screens c ! the (backScreen c))"

text \<open>A rectangle that can be drawn, and what it does to a screen of \<open>w\<close> by \<open>h\<close> pixels.\<close>

definition good_rect :: "u16 \<Rightarrow> u16 \<Rightarrow> rectangle \<Rightarrow> bool" where
  "good_rect w h r \<longleftrightarrow>
     inside w h r \<and> (case enc_colors (Enc r) of Some cs \<Rightarrow> length cs = Area r | None \<Rightarrow> False)"

definition draw_rect :: "u16 \<Rightarrow> u16 \<Rightarrow> rectangle \<Rightarrow> color list \<Rightarrow> color list" where
  "draw_rect w h r data =
     grid (unat w) (unat h)
       (draw r (the (enc_colors (Enc r))) (\<lambda>y x. data ! (y * unat w + x)))"

definition draw_update :: "u16 \<Rightarrow> u16 \<Rightarrow> update \<Rightarrow> color list \<Rightarrow> color list" where
  "draw_update w h u data = fold (draw_rect w h) u data"

definition screens_ok :: "u16 \<Rightarrow> u16 \<Rightarrow> session \<Rightarrow> bool" where
  "screens_ok w h c \<longleftrightarrow>
     (case (sconn c, frontScreen c, backScreen c) of
        (Some conn, Some f, Some b) \<Rightarrow>
          FramebufferWidth conn = w \<and> FramebufferHeight conn = h \<and>
          f \<noteq> b \<and> f < length (screens c) \<and> b < length (screens c) \<and>
          length (sData (screens c ! f)) = unat h * unat w \<and>
          length (sData (screens c ! b)) = unat h * unat w
      | _ \<Rightarrow> False)"

definition session_ready :: "u16 \<Rightarrow> u16 \<Rightarrow> session \<Rightarrow> bool" where
  "session_ready w h c \<longleftrightarrow>
     screens_ok w h c \<and> list_all (list_all (good_rect w h)) (deferredUpdates c)"

lemma screens_okE:
  assumes "screens_ok w h c"
  obtains conn f b where "sconn c = Some conn" "frontScreen c = Some f" "backScreen c = Some b"
    "FramebufferWidth conn = w" "FramebufferHeight conn = h" "f \<noteq> b" "f < length (screens c)"
    "b < length (screens c)" "length (sData (screens c ! f)) = unat h * unat w"
    "length (sData (screens c ! b)) = unat h * unat w"
  using assms by (auto simp: screens_ok_def split: option.splits)

lemma grid_of_data: "length data = unat h * unat w \<Longrightarrow> grid (unat w) (unat h) (\<lambda>y x. data ! (y * unat w + x)) = data"
  by (rule grid_eqI [symmetric]) simp_all

lemma apply_to_back_draws:
  assumes ok: "screens_ok w h c" and good: "good_rect w h r"
  shows "\<exists>c'. apply_to_back r c = (Ok (), c') \<and> screens_ok w h c' \<and>
    back_data c' = draw_rect w h r (back_data c) \<and> front_data c' = front_data c \<and>
    (\<exists>ss. c' = c\<lparr>screens := ss\<rparr>)"
proof -
  from good obtain cs where cs: "enc_colors (Enc r) = Some cs" "length cs = Area r" "inside w h r"
    by (auto simp: good_rect_def split: option.splits)
  from ok show ?thesis
  proof (rule screens_okE)
    fix conn f b
    assume s: "sconn c = Some conn" "frontScreen c = Some f" "backScreen c = Some b"
      "FramebufferWidth conn = w" "FramebufferHeight conn = h" "f \<noteq> b" "f < length (screens c)"
      "b < length (screens c)" "length (sData (screens c ! f)) = unat h * unat w"
      "length (sData (screens c ! b)) = unat h * unat w"
    let ?data = "sData (screens c ! b)"
    have draw: "applyRect w r cs ?data = Ok (draw_rect w h r ?data, of_nat (Area r))"
      using applyRect_draw [OF cs(3,2), of "\<lambda>y x. ?data ! (y * unat w + x)"]
        grid_of_data [OF s(10)] cs(1) by (simp add: draw_rect_def)
    show ?thesis
    proof (cases "rHeight r = 0")
      case True
      then have "draw_rect w h r ?data = ?data" using draw by (simp add: applyRect_def)
      with True s cs(1) ok show ?thesis
        by (intro exI [of _ c]) (simp add: apply_to_back_def back_data_def exI [of _ "screens c"])
    next
      case False
      have len: "length (draw_rect w h r ?data) = unat h * unat w" by (simp add: draw_rect_def)
      let ?c = "c\<lparr>screens := (screens c)[b := (screens c ! b)\<lparr>sData := draw_rect w h r ?data\<rparr>]\<rparr>"
      have "apply_to_back r c = (Ok (), ?c)"
        using s(1,3,4) cs(1) draw False by (simp add: apply_to_back_def Let_def)
      then show ?thesis
        using s len by (intro exI [of _ ?c]) (auto simp: screens_ok_def back_data_def front_data_def)
    qed
  qed
qed

lemma applyUpdate_draws:
  assumes "screens_ok w h c" and "list_all (good_rect w h) u"
  shows "\<exists>ss. applyUpdate u c = (Ok (), c\<lparr>screens := ss\<rparr>) \<and> screens_ok w h (c\<lparr>screens := ss\<rparr>) \<and>
    back_data (c\<lparr>screens := ss\<rparr>) = draw_update w h u (back_data c) \<and>
    front_data (c\<lparr>screens := ss\<rparr>) = front_data c"
  using assms
proof (induction u arbitrary: c)
  case Nil
  then show ?case
    by (intro exI [of _ "screens c"]) (simp add: applyUpdate_def ret_def draw_update_def)
next
  case (Cons r u)
  then obtain ss where s1: "apply_to_back r c = (Ok (), c\<lparr>screens := ss\<rparr>)"
      "screens_ok w h (c\<lparr>screens := ss\<rparr>)" "back_data (c\<lparr>screens := ss\<rparr>) = draw_rect w h r (back_data c)"
      "front_data (c\<lparr>screens := ss\<rparr>) = front_data c"
    using apply_to_back_draws [of w h c r] by auto
  from Cons.IH [OF s1(2)] Cons.prems obtain ss' where
      "applyUpdate u (c\<lparr>screens := ss\<rparr>) = (Ok (), c\<lparr>screens := ss'\<rparr>)" "screens_ok w h (c\<lparr>screens := ss'\<rparr>)"
      "back_data (c\<lparr>screens := ss'\<rparr>) = draw_update w h u (back_data (c\<lparr>screens := ss\<rparr>))"
      "front_data (c\<lparr>screens := ss'\<rparr>) = front_data (c\<lparr>screens := ss\<rparr>)"
    by auto
  with s1 show ?case
    by (intro exI [of _ ss']) (simp add: applyUpdate_def bindM_def draw_update_def)
qed

lemma applyUpdates_draw:
  assumes "screens_ok w h c" and "list_all (list_all (good_rect w h)) us"
  shows "\<exists>ss. forM us (\<lambda>u. drop_error (applyUpdate u)) c = (Ok (), c\<lparr>screens := ss\<rparr>) \<and>
    screens_ok w h (c\<lparr>screens := ss\<rparr>) \<and>
    back_data (c\<lparr>screens := ss\<rparr>) = fold (draw_update w h) us (back_data c) \<and>
    front_data (c\<lparr>screens := ss\<rparr>) = front_data c"
  using assms
proof (induction us arbitrary: c)
  case Nil
  then show ?case by (intro exI [of _ "screens c"]) (simp add: ret_def)
next
  case (Cons u us)
  then obtain ss where s1: "applyUpdate u c = (Ok (), c\<lparr>screens := ss\<rparr>)"
      "screens_ok w h (c\<lparr>screens := ss\<rparr>)" "back_data (c\<lparr>screens := ss\<rparr>) = draw_update w h u (back_data c)"
      "front_data (c\<lparr>screens := ss\<rparr>) = front_data c"
    using applyUpdate_draws [of w h c u] by auto
  from Cons.IH [OF s1(2)] Cons.prems obtain ss' where
      "forM us (\<lambda>u. drop_error (applyUpdate u)) (c\<lparr>screens := ss\<rparr>) = (Ok (), c\<lparr>screens := ss'\<rparr>)"
      "screens_ok w h (c\<lparr>screens := ss'\<rparr>)"
      "back_data (c\<lparr>screens := ss'\<rparr>) = fold (draw_update w h) us (back_data (c\<lparr>screens := ss\<rparr>))"
      "front_data (c\<lparr>screens := ss'\<rparr>) = front_data (c\<lparr>screens := ss\<rparr>)"
    by auto
  with s1 show ?case by (intro exI [of _ ss']) (simp add: bindM_def drop_error_Ok)
qed

text \<open>What a program leaves alone that touches only the connection, the queue and the errors.\<close>

lemma screens_ok_cong:
  "sconn c' = sconn c \<Longrightarrow> screens c' = screens c \<Longrightarrow> frontScreen c' = frontScreen c \<Longrightarrow>
    backScreen c' = backScreen c \<Longrightarrow> screens_ok w h c' = screens_ok w h c"
  by (auto simp: screens_ok_def split: option.split)

lemma applyDeferred_syncs:
  assumes "session_ready w h c"
  shows "\<exists>c'. applyDeferred c = (Ok (), c') \<and> session_ready w h c' \<and> backUpdated c' \<and>
    front_data c' = front_data c \<and> pauseUpdates c' = pauseUpdates c \<and> sconn c' = sconn c \<and>
    deferredUpdatesMax c' = deferredUpdatesMax c \<and>
    back_data c' = (if backUpdated c then back_data c
                    else fold (draw_update w h) (deferredUpdates c) (back_data c)) \<and>
    deferredUpdates c' = (if backUpdated c then deferredUpdates c else [])"
proof (cases "backUpdated c")
  case True
  with assms show ?thesis by (simp add: applyDeferred_def bindM_def getS_def ret_def)
next
  case False
  let ?c = "c\<lparr>backUpdated := True\<rparr>"
  have "screens_ok w h ?c" "list_all (list_all (good_rect w h)) (deferredUpdates c)"
    using assms screens_ok_cong [of ?c c w h] by (simp_all add: session_ready_def)
  from applyUpdates_draw [OF this] obtain ss where
    "forM (deferredUpdates c) (\<lambda>u. drop_error (applyUpdate u)) ?c = (Ok (), ?c\<lparr>screens := ss\<rparr>)"
    "screens_ok w h (?c\<lparr>screens := ss\<rparr>)"
    "back_data (?c\<lparr>screens := ss\<rparr>) = fold (draw_update w h) (deferredUpdates c) (back_data ?c)"
    "front_data (?c\<lparr>screens := ss\<rparr>) = front_data ?c"
    by blast
  note drawn = this
  let ?c' = "?c\<lparr>screens := ss, deferredUpdates := []\<rparr>"
  have "applyDeferred c = (Ok (), ?c')"
    using False drawn(1) by (simp add: applyDeferred_def bindM_def getS_def modifyS_def)
  moreover have "screens_ok w h ?c'"
    using drawn(2) screens_ok_cong [of "?c\<lparr>screens := ss\<rparr>" ?c' w h] by simp
  ultimately show ?thesis
    using False drawn(3,4) by (intro exI [of _ ?c']) (simp add: session_ready_def front_data_def back_data_def)
qed

section \<open>Requests never fail but by an error\<close>

definition same_size :: "client \<Rightarrow> client \<Rightarrow> bool" where
  "same_size conn conn' \<longleftrightarrow>
     FramebufferWidth conn' = FramebufferWidth conn \<and> FramebufferHeight conn' = FramebufferHeight conn"

text \<open>A call on the connection that succeeds or reports an error and keeps the size.\<close>

definition conn_call :: "(session, unit) prog \<Rightarrow> bool" where
  "conn_call m \<longleftrightarrow> (\<forall>c conn. sconn c = Some conn \<longrightarrow>
     (\<exists>r conn'. m c = (r, c\<lparr>sconn := Some conn'\<rparr>) \<and> same_size conn conn' \<and>
        (r = Ok () \<or> (\<exists>e. r = Err e))))"

lemma conn_callE:
  assumes "conn_call m" and "sconn c = Some conn"
  obtains conn' r where "m c = (r, c\<lparr>sconn := Some conn'\<rparr>)" "same_size conn conn'"
    "r = Ok () \<or> (\<exists>e. r = Err e)"
  using assms unfolding conn_call_def by blast

lemma write_conn_same_size:
  obtains r conn' where "write_conn bs (conn :: client) = (r, conn')" "same_size conn conn'"
    "r = Ok () \<or> (\<exists>e. r = Err e)"
proof -
  obtain r conn' where w: "write_conn bs conn = (r, conn')" by (cases "write_conn bs conn")
  then have "same_size conn conn' \<and> (r = Ok () \<or> (\<exists>e. r = Err e))"
    by (auto simp: write_conn_def same_size_def split: list.splits option.splits prod.splits)
  with w show thesis using that by simp
qed

lemma conn_call_write: "conn_call (on_conn (\<lambda>conn. write_conn (f conn) conn))"
  unfolding conn_call_def
proof (intro allI impI)
  fix c :: session and conn assume conn: "sconn c = Some conn"
  obtain r conn' where "write_conn (f conn) conn = (r, conn')" "same_size conn conn'"
      "r = Ok () \<or> (\<exists>e. r = Err e)"
    by (rule write_conn_same_size)
  with conn show "\<exists>r conn'. on_conn (\<lambda>conn. write_conn (f conn) conn) c = (r, c\<lparr>sconn := Some conn'\<rparr>) \<and>
      same_size conn conn' \<and> (r = Ok () \<or> (\<exists>e. r = Err e))"
    by (intro exI [of _ r] exI [of _ conn']) (simp add: on_conn_def)
qed

lemma sconn_same: "sconn c = Some conn \<Longrightarrow> c\<lparr>sconn := Some conn\<rparr> = (c :: session)"
  by (cases c) simp

lemma conn_call_forM:
  assumes "\<And>x. conn_call (f x)"
  shows "conn_call (forM xs f)"
proof (induction xs)
  case Nil
  have "\<exists>r conn'. ret () c = (r, c\<lparr>sconn := Some conn'\<rparr>) \<and> same_size conn conn' \<and>
      (r = Ok () \<or> (\<exists>e. r = Err e))"
    if "sconn c = Some conn" for c :: session and conn
    using that by (intro exI [of _ "Ok ()"] exI [of _ conn]) (simp add: ret_def same_size_def sconn_same)
  then show ?case by (simp add: conn_call_def)
next
  case (Cons x xs)
  show ?case
    unfolding conn_call_def
  proof (intro allI impI)
    fix c :: session and conn assume conn: "sconn c = Some conn"
    from assms conn obtain conn' r where m: "f x c = (r, c\<lparr>sconn := Some conn'\<rparr>)"
        "same_size conn conn'" "r = Ok () \<or> (\<exists>e. r = Err e)"
      by (rule conn_callE)
    have "sconn (c\<lparr>sconn := Some conn'\<rparr>) = Some conn'" by simp
    from Cons this obtain conn'' r' where
        "forM xs f (c\<lparr>sconn := Some conn'\<rparr>) = (r', (c\<lparr>sconn := Some conn'\<rparr>)\<lparr>sconn := Some conn''\<rparr>)"
        "same_size conn' conn''" "r' = Ok () \<or> (\<exists>e. r' = Err e)"
      by (rule conn_callE)
    with m show "\<exists>r conn'. forM (x # xs) f c = (r, c\<lparr>sconn := Some conn'\<rparr>) \<and> same_size conn conn' \<and>
        (r = Ok () \<or> (\<exists>e. r = Err e))"
      by (auto simp: bindM_def same_size_def)
  qed
qed

lemma conn_call_requestUpdate: "conn_call requestUpdate"
proof -
  have "conn_call (case cfgSubscription cfg of
      Some subs \<Rightarrow> forM subs (\<lambda>sub.
           on_conn (FramebufferUpdateRequest True (rX sub) (rY sub) (rWidth sub) (rHeight sub)))
     | None \<Rightarrow> on_conn (\<lambda>conn.
           FramebufferUpdateRequest True 0 0 (FramebufferWidth conn) (FramebufferHeight conn) conn))" for cfg
    unfolding FramebufferUpdateRequest_def
    by (auto intro!: conn_call_forM conn_call_write split: option.split)
  note call = this
  show ?thesis
    unfolding conn_call_def
  proof (intro allI impI)
    fix c :: session and conn assume "sconn c = Some conn"
    note ran = conn_callE [OF call [of "config c"] this]
    show "\<exists>r conn'. requestUpdate c = (r, c\<lparr>sconn := Some conn'\<rparr>) \<and> same_size conn conn' \<and>
        (r = Ok () \<or> (\<exists>e. r = Err e))"
      unfolding requestUpdate_def bindM_def getS_def prod.case outcome.case
      by (rule ran) blast
  qed
qed

section \<open>The double buffer law for the session\<close>

text \<open>Two states with the same pictures and queue, on a connection of the same size.\<close>

definition same_view :: "session \<Rightarrow> session \<Rightarrow> bool" where
  "same_view c c' \<longleftrightarrow>
     screens c' = screens c \<and> frontScreen c' = frontScreen c \<and> backScreen c' = backScreen c \<and>
     backUpdated c' = backUpdated c \<and> deferredUpdates c' = deferredUpdates c \<and>
     rel_option same_size (sconn c) (sconn c')"

lemma same_viewD:
  assumes "same_view c c'"
  shows "front_data c' = front_data c" and "back_data c' = back_data c"
    and "backUpdated c' = backUpdated c" and "deferredUpdates c' = deferredUpdates c"
    and "session_ready w h c' = session_ready w h c"
proof -
  show "front_data c' = front_data c" "back_data c' = back_data c" "backUpdated c' = backUpdated c"
    "deferredUpdates c' = deferredUpdates c"
    using assms by (simp_all add: same_view_def front_data_def back_data_def)
  have "screens_ok w h c' = screens_ok w h c"
    using assms by (cases "sconn c"; cases "sconn c'")
      (auto simp: screens_ok_def same_view_def same_size_def split: option.splits)
  with assms show "session_ready w h c' = session_ready w h c"
    by (simp add: session_ready_def same_view_def)
qed

interpretation viewing: frame same_view
  by unfold_locales
    (auto simp: same_view_def same_size_def option.rel_refl intro: option.rel_refl elim!: option.rel_cases)

lemma reporting_request:
  assumes "sconn c = Some conn"
  shows "\<exists>c'. reporting requestUpdate c = (Ok (), c') \<and> same_view c c' \<and> flips c' = flips c \<and>
    pauseUpdates c' = pauseUpdates c"
proof -
  from conn_call_requestUpdate assms obtain conn' r where
    "requestUpdate c = (r, c\<lparr>sconn := Some conn'\<rparr>)" "same_size conn conn'" "r = Ok () \<or> (\<exists>e. r = Err e)"
    by (rule conn_callE)
  with assms show ?thesis
    by (auto simp: reporting_def report_def same_view_def)
qed

lemma session_ready_conn: "session_ready w h c \<Longrightarrow> \<exists>conn. sconn c = Some conn"
  by (auto simp: session_ready_def elim: screens_okE)

lemma resume_updates_ready:
  assumes "session_ready w h c"
  shows "\<exists>c'. resume_updates c = (Ok (), c') \<and> same_view c c' \<and> flips c' = flips c \<and> \<not> pauseUpdates c'"
proof (cases "pauseUpdates c")
  case True
  let ?c = "c\<lparr>pauseUpdates := False\<rparr>"
  from session_ready_conn [OF assms] obtain conn where "sconn ?c = Some conn" by auto
  from reporting_request [OF this] obtain c' where
    "reporting requestUpdate ?c = (Ok (), c')" "same_view ?c c'" "flips c' = flips ?c" "\<not> pauseUpdates c'"
    by auto
  moreover have "same_view c ?c" by (simp add: same_view_def same_size_def option.rel_refl)
  ultimately show ?thesis using True
    by (auto simp: resume_updates_def bindM_def getS_def modifyS_def intro: viewing.trans)
next
  case False
  then show ?thesis by (auto simp: resume_updates_def bindM_def getS_def ret_def viewing.refl)
qed

lemma flip_goroutine_syncs:
  assumes "session_ready w h c"
  shows "\<exists>c'. flip_goroutine c = (Ok (), c') \<and> session_ready w h c' \<and> backUpdated c' \<and>
    front_data c' = front_data c \<and> \<not> pauseUpdates c' \<and>
    back_data c' = (if backUpdated c then back_data c
                    else fold (draw_update w h) (deferredUpdates c) (back_data c)) \<and>
    deferredUpdates c' = (if backUpdated c then deferredUpdates c else [])"
proof -
  let ?c = "c\<lparr>flips := flips c - 1\<rparr>"
  have view: "same_view c ?c" by (simp add: same_view_def same_size_def option.rel_refl)
  then have "session_ready w h ?c" using assms same_viewD(5) by blast
  from applyDeferred_syncs [OF this] obtain c1 where c1: "applyDeferred ?c = (Ok (), c1)"
    "session_ready w h c1" "backUpdated c1" "front_data c1 = front_data ?c"
    "back_data c1 = (if backUpdated ?c then back_data ?c
                    else fold (draw_update w h) (deferredUpdates ?c) (back_data ?c))"
    "deferredUpdates c1 = (if backUpdated ?c then deferredUpdates ?c else [])"
    by blast
  from resume_updates_ready [OF c1(2)] obtain c2 where
    c2: "resume_updates c1 = (Ok (), c2)" "same_view c1 c2" "\<not> pauseUpdates c2"
    by blast
  have "flip_goroutine c = (Ok (), c2)"
    using c1(1) c2(1) by (simp add: flip_goroutine_def bindM_def modifyS_def)
  then show ?thesis
    using c1 c2(3) same_viewD [OF c2(2)] same_viewD [OF view] by simp
qed

lemma maintain_update_pushes:
  assumes ready: "session_ready w h c" and good: "list_all (good_rect w h) u"
  shows "\<exists>c'. maintain_update u c = (Ok (), c') \<and> session_ready w h c' \<and> backUpdated c' \<and>
    front_data c' = front_data c \<and>
    back_data c' = draw_update w h u
      (if backUpdated c then back_data c
       else fold (draw_update w h) (deferredUpdates c) (back_data c)) \<and>
    deferredUpdates c' = (if backUpdated c then deferredUpdates c else []) @ [u] \<and>
    (pauseUpdates c' \<longleftrightarrow> pauseUpdates c \<or> deferredUpdatesMax c \<le> length (deferredUpdates c'))"
proof -
  from applyDeferred_syncs [OF ready] obtain c1 where c1: "applyDeferred c = (Ok (), c1)"
    "session_ready w h c1" "backUpdated c1" "front_data c1 = front_data c"
    "back_data c1 = (if backUpdated c then back_data c
                    else fold (draw_update w h) (deferredUpdates c) (back_data c))"
    "deferredUpdates c1 = (if backUpdated c then deferredUpdates c else [])"
    "pauseUpdates c1 = pauseUpdates c" "deferredUpdatesMax c1 = deferredUpdatesMax c"
    by blast
  have "screens_ok w h c1" using c1(2) by (simp add: session_ready_def)
  from applyUpdate_draws [OF this good] obtain ss where
    ss: "applyUpdate u c1 = (Ok (), c1\<lparr>screens := ss\<rparr>)" "screens_ok w h (c1\<lparr>screens := ss\<rparr>)"
      "back_data (c1\<lparr>screens := ss\<rparr>) = draw_update w h u (back_data c1)"
      "front_data (c1\<lparr>screens := ss\<rparr>) = front_data c1"
    by blast
  let ?c2 = "c1\<lparr>screens := ss, deferredUpdates := deferredUpdates c1 @ [u]\<rparr>"
  let ?c3 = "if deferredUpdatesMax ?c2 \<le> length (deferredUpdates ?c2) \<and> \<not> pauseUpdates ?c2
    then ?c2\<lparr>pauseUpdates := True\<rparr> else ?c2"
  have ok: "screens_ok w h ?c3"
    using ss(2) screens_ok_cong [of "c1\<lparr>screens := ss\<rparr>" ?c3 w h] by auto
  have "maintain_update u c = (Ok (), ?c3)"
    using c1(1) ss(1)
    by (simp add: maintain_update_def bindM_def annotate_def modifyS_def Let_def)
  then show ?thesis
    using c1 ss(3,4) good ok
    by (intro exI [of _ ?c3]) (auto simp: session_ready_def front_data_def back_data_def)
qed

lemma Flip_swaps:
  assumes ready: "session_ready w h c" and fresh: "backUpdated c"
  shows "\<exists>c'. Flip c = (Ok (frontScreen c', deferredUpdates c), c') \<and> session_ready w h c' \<and>
    \<not> backUpdated c' \<and> front_data c' = back_data c \<and> back_data c' = front_data c \<and>
    deferredUpdates c' = deferredUpdates c \<and> frontScreen c' = backScreen c"
proof -
  let ?c' = "snd (Flip c)"
  have "screens_ok w h ?c'"
    using ready fresh by (auto simp: Flip_def Let_def session_ready_def screens_ok_def split: option.splits)
  then show ?thesis
    using ready fresh
    by (intro exI [of _ ?c']) (simp add: Flip_def Let_def session_ready_def front_data_def back_data_def)
qed

definition flip_updates :: "(session, update list) prog" where
  "flip_updates = bindM Flip (\<lambda>(p, us). ret us)"

interpretation session_buffer:
  double_buffer front_data back_data deferredUpdates backUpdated "session_ready w h"
    "list_all (good_rect w h)" "draw_update w h" flip_updates flip_goroutine maintain_update
  for w h
proof
  fix s :: session and u
  assume ready: "session_ready w h s"
  show "\<exists>s'. flip_updates s = (Ok (deferredUpdates s), s') \<and> session_ready w h s' \<and> \<not> backUpdated s' \<and>
      front_data s' = back_data s \<and> back_data s' = front_data s \<and> deferredUpdates s' = deferredUpdates s"
    if "backUpdated s"
    using Flip_swaps [OF ready that] by (auto simp: flip_updates_def bindM_def ret_def)
  show "flip_updates s = (Ok [], s)" if "\<not> backUpdated s"
    using that by (simp add: flip_updates_def Flip_def bindM_def ret_def)
  show "\<exists>s'. flip_goroutine s = (Ok (), s') \<and> session_ready w h s' \<and> backUpdated s' \<and>
      front_data s' = front_data s \<and> back_data s' = back_data s \<and> deferredUpdates s' = deferredUpdates s"
    if "backUpdated s"
    using flip_goroutine_syncs [OF ready] that by auto
  show "\<exists>s'. flip_goroutine s = (Ok (), s') \<and> session_ready w h s' \<and> backUpdated s' \<and>
      front_data s' = front_data s \<and> back_data s' = fold (draw_update w h) (deferredUpdates s) (back_data s) \<and>
      deferredUpdates s' = []"
    if "\<not> backUpdated s"
    using flip_goroutine_syncs [OF ready] that by auto
  assume good: "list_all (good_rect w h) u"
  show "\<exists>s'. maintain_update u s = (Ok (), s') \<and> session_ready w h s' \<and> backUpdated s' \<and>
      front_data s' = front_data s \<and> back_data s' = draw_update w h u (back_data s) \<and>
      deferredUpdates s' = deferredUpdates s @ [u]"
    if "backUpdated s"
    using maintain_update_pushes [OF ready good] that by auto
  show "\<exists>s'. maintain_update u s = (Ok (), s') \<and> session_ready w h s' \<and> backUpdated s' \<and>
      front_data s' = front_data s \<and>
      back_data s' = draw_update w h u (fold (draw_update w h) (deferredUpdates s) (back_data s)) \<and>
      deferredUpdates s' = [u]"
    if "\<not> backUpdated s"
    using maintain_update_pushes [OF ready good] that by auto
qed

end
