(* ===== verification/Connect.thy ===== *)
theory Connect
  imports Session
begin

text \<open>
  How a session comes to life: \<open>NewVNCSession\<close>, the dial loop of \<open>connect\<close> with its growing pauses, and
  the set-up of the connection up to the first request, in \<^verbatim>\<open>gymvnc/gymvnc.go\<close>.
\<close>

section \<open>The configuration\<close>

text \<open>A level of \<open>-1\<close> means that none is asked for.\<close>

definition clamp_level :: "int \<Rightarrow> int \<Rightarrow> int" where
  "clamp_level best q = (if q = -1 then q else if q < 0 then 0 else if best < q then best else q)"

definition clamp_config :: "vnc_config \<Rightarrow> vnc_config" where
  "clamp_config c =
     c\<lparr>cfgQualityLevel := clamp_level 9 (cfgQualityLevel c),
       cfgCompressLevel := clamp_level 9 (cfgCompressLevel c),
       cfgFineQualityLevel := clamp_level 100 (cfgFineQualityLevel c),
       cfgSubsampleLevel := clamp_level 3 (cfgSubsampleLevel c),
       cfgEncoding := (if cfgEncoding c = [] then ''tight'' else cfgEncoding c)\<rparr>"

definition NewVNCSession :: "vnc_config \<Rightarrow> session" where
  "NewVNCSession cfg =
     \<lparr>sconn = None, screens = [], frontScreen = None, backScreen = None, backUpdated = True,
      deferredUpdates = [], deferredUpdatesMax = 60, pauseUpdates = False, flips = 0,
      hasRenderer = False, rendererActive = False, rcalls = [], config = clamp_config cfg,
      serr = None, closed = False, mgrDone = False, mgrError = [], connClosed = 0\<rparr>"

section \<open>Dialling\<close>

text \<open>
  What dialling and the handshake give: a connection, or an error with \<open>soft\<close> telling whether another
  attempt makes sense. Durations are in nanoseconds.
\<close>

datatype attempt = Connected client | Refused goerr bool

definition second :: int where
  "second = 1000000000"

definition sleepTarget :: "nat \<Rightarrow> int" where
  "sleepTarget i = (let t = int (2 * (i + 1)) * second in if 30 * second < t then 30 * second else t)"

lemma sleepTarget_bounds: "0 < sleepTarget i" "sleepTarget i \<le> 30 * second"
  by (simp_all add: sleepTarget_def second_def Let_def)

function dial_loop :: "(nat \<Rightarrow> attempt) \<Rightarrow> int \<Rightarrow> nat \<Rightarrow> int \<Rightarrow> client outcome \<times> int" where
  "dial_loop attempt timeout i totalSleep =
     (case attempt i of
        Connected conn \<Rightarrow> (Ok conn, totalSleep)
      | Refused e soft \<Rightarrow>
          if soft \<and> 0 < timeout
          then if timeout \<le> totalSleep
               then (Err (Annotated ''could not establish VNC connection to server, and exceeded start timeout'' e),
                     totalSleep)
               else dial_loop attempt timeout (i + 1) (totalSleep + sleepTarget i)
          else (Err (Annotated ''could not establish VNC connection to server'' e), totalSleep))"
  by pat_completeness auto
termination
  by (relation "measure (\<lambda>(attempt, timeout, i, tot). nat (timeout - tot))")
    (use sleepTarget_bounds in \<open>auto simp: not_le\<close>)

declare dial_loop.simps [simp del]

definition soft_refusals :: "(nat \<Rightarrow> attempt) \<Rightarrow> nat \<Rightarrow> nat \<Rightarrow> bool" where
  "soft_refusals attempt i n \<longleftrightarrow> (\<forall>k. i \<le> k \<and> k < n \<longrightarrow> (\<exists>e. attempt k = Refused e True))"

lemma dial_loop_ends:
  assumes "0 \<le> tot" and "tot < max 0 timeout + 30 * second"
  shows "case dial_loop attempt timeout i tot of (r, slept) \<Rightarrow>
    tot \<le> slept \<and> slept < max 0 timeout + 30 * second \<and>
    (\<exists>n \<ge> i. soft_refusals attempt i n \<and>
      (case r of
         Ok conn \<Rightarrow> attempt n = Connected conn
       | Err err \<Rightarrow> \<exists>e soft. attempt n = Refused e soft \<and> (soft \<and> 0 < timeout \<longrightarrow> timeout \<le> slept)
       | _ \<Rightarrow> False))"
  using assms
proof (induction attempt timeout i tot rule: dial_loop.induct)
  case (1 attempt timeout i tot)
  have here: "soft_refusals attempt i i" by (auto simp: soft_refusals_def)
  show ?case
  proof (cases "attempt i")
    case (Connected conn)
    then have "dial_loop attempt timeout i tot = (Ok conn, tot)" by (simp add: dial_loop.simps)
    with Connected here 1(3) show ?thesis by (auto intro!: exI [of _ i])
  next
    case (Refused e soft)
    show ?thesis
    proof (cases "soft \<and> 0 < timeout \<and> tot < timeout")
      case False
      have "\<exists>m. dial_loop attempt timeout i tot = (Err (Annotated m e), tot)"
        using False Refused by (subst dial_loop.simps) (cases "soft \<and> 0 < timeout", auto)
      then obtain m where "dial_loop attempt timeout i tot = (Err (Annotated m e), tot)" by blast
      with False Refused here 1(3) show ?thesis by (auto simp: not_less intro!: exI [of _ i])
    next
      case True
      then have bounds: "0 \<le> tot + sleepTarget i" "tot + sleepTarget i < max 0 timeout + 30 * second"
        using sleepTarget_bounds [of i] 1(2) by simp_all
      have go: "soft \<and> 0 < timeout" "\<not> timeout \<le> tot" using True by simp_all
      have later: "case dial_loop attempt timeout (i + 1) (tot + sleepTarget i) of (r, slept) \<Rightarrow>
          tot + sleepTarget i \<le> slept \<and> slept < max 0 timeout + 30 * second \<and>
          (\<exists>n \<ge> i + 1. soft_refusals attempt (i + 1) n \<and>
            (case r of
               Ok conn \<Rightarrow> attempt n = Connected conn
             | Err err \<Rightarrow> \<exists>e soft. attempt n = Refused e soft \<and> (soft \<and> 0 < timeout \<longrightarrow> timeout \<le> slept)
             | _ \<Rightarrow> False))"
        by (rule 1(1) [OF Refused go bounds])
      have step: "soft_refusals attempt i n" if "soft_refusals attempt (i + 1) n" for n
        unfolding soft_refusals_def
      proof (intro allI impI)
        fix k assume "i \<le> k \<and> k < n"
        with that Refused True show "\<exists>e. attempt k = Refused e True"
          by (cases "k = i") (auto simp: soft_refusals_def)
      qed
      obtain r slept where r: "dial_loop attempt timeout (i + 1) (tot + sleepTarget i) = (r, slept)"
        by (cases "dial_loop attempt timeout (i + 1) (tot + sleepTarget i)")
      then have "dial_loop attempt timeout i tot = (r, slept)"
        using True Refused by (subst dial_loop.simps) simp
      moreover from later r obtain n where "i + 1 \<le> n" "soft_refusals attempt (i + 1) n"
        "tot + sleepTarget i \<le> slept" "slept < max 0 timeout + 30 * second"
        "case r of
           Ok conn \<Rightarrow> attempt n = Connected conn
         | Err err \<Rightarrow> \<exists>e soft. attempt n = Refused e soft \<and> (soft \<and> 0 < timeout \<longrightarrow> timeout \<le> slept)
         | _ \<Rightarrow> False"
        by auto
      ultimately show ?thesis
        using step sleepTarget_bounds(1) [of i] by (auto intro!: exI [of _ n])
    qed
  qed
qed

lemma if_else_True: "(if c then p else True) \<longleftrightarrow> (c \<longrightarrow> p)"
  by simp

text \<open>(C23) Dialling ends whatever the server does: after less than the start timeout and 30 seconds of
  sleep it has a connection, or it gives up with the error of the last attempt; every attempt before
  the last was refused softly, and a soft refusal ends it only when the timeout is used up or not set.\<close>

theorem dial_loop_gives_up:
  "case dial_loop attempt timeout 0 0 of (r, slept) \<Rightarrow>
    slept < max 0 timeout + 30 * second \<and>
    (\<exists>n. soft_refusals attempt 0 n \<and>
      (case r of
         Ok conn \<Rightarrow> attempt n = Connected conn
       | Err err \<Rightarrow> \<exists>e soft. attempt n = Refused e soft \<and> (if soft \<and> 0 < timeout then timeout \<le> slept else True)
       | _ \<Rightarrow> False))"
  unfolding if_else_True
  using dial_loop_ends [where tot = 0 and i = 0 and timeout = timeout and attempt = attempt] by (auto simp: second_def split: prod.splits)

section \<open>Setting up the connection\<close>

text \<open>
  The connection is a local variable until it is stored in the session: \<open>on_local\<close> runs a method on it.
\<close>

definition on_local :: "(client, unit) prog \<Rightarrow> client \<Rightarrow> (session, client) prog" where
  "on_local m conn c =
     (case m conn of
        (Ok _, conn') \<Rightarrow> (Ok conn', c)
      | (Err e, conn') \<Rightarrow> (Err e, c)
      | (Panic p, conn') \<Rightarrow> (Panic p, c)
      | (Diverge, conn') \<Rightarrow> (Diverge, c))"

definition base_encoding :: "string \<Rightarrow> encoding outcome" where
  "base_encoding name =
     (if name = ''tight'' then Ok TightEncoding
      else if name = ''zrle'' then Ok ZRLEEncoding
      else if name = ''raw'' then Ok RawEncoding
      else Err (Errorf ''invalid encoding''))"

definition level_encodings :: "vnc_config \<Rightarrow> encoding list" where
  "level_encodings cfg =
     (if cfgQualityLevel cfg \<noteq> -1 then [QualityLevel (of_int (cfgQualityLevel cfg))] else []) @
     (if cfgCompressLevel cfg \<noteq> -1 then [CompressLevel (of_int (cfgCompressLevel cfg))] else []) @
     (if cfgFineQualityLevel cfg \<noteq> -1 then [FineQualityLevel (of_int (cfgFineQualityLevel cfg))] else []) @
     (if cfgSubsampleLevel cfg \<noteq> -1 then [SubsampleLevel (of_int (cfgSubsampleLevel cfg))] else [])"

definition new_screens :: "client \<Rightarrow> session \<Rightarrow> session" where
  "new_screens conn c =
     c\<lparr>screens := screens c @
         [NewScreen (FramebufferWidth conn) (FramebufferHeight conn),
          NewScreen (FramebufferWidth conn) (FramebufferHeight conn)],
       frontScreen := Some (length (screens c)), backScreen := Some (length (screens c) + 1)\<rparr>"

text \<open>The part under the lock that makes the connection visible and asks for the first update.\<close>

definition publish_conn :: "client \<Rightarrow> (session, unit) prog" where
  "publish_conn conn c =
     (case requestUpdate (c\<lparr>sconn := Some conn\<rparr>) of
        (Err e, c') \<Rightarrow> (Err (Annotated ''could not send framebuffer update request'' e), c'\<lparr>sconn := None\<rparr>)
      | (Ok _, c') \<Rightarrow>
          if closed c'
          then (Err (Errorf ''VNCSession object was closed before connection was established''),
                c'\<lparr>sconn := None\<rparr>)
          else (Ok (), c')
      | r \<Rightarrow> r)"

text \<open>\<open>connect\<close> from the new connection to the loop; the deferred function closes a connection that was
  not stored.\<close>

definition connect_body :: "client \<Rightarrow> (session, unit) prog" where
  "connect_body conn =
     bindM (modifyS (new_screens conn)) (\<lambda>_.
     bindM (annotate ''could not set pixel format'' (on_local (SetPixelFormat gym_pf) conn)) (\<lambda>conn.
     bindM getS (\<lambda>c.
     bindM (lift (base_encoding (cfgEncoding (config c)))) (\<lambda>enc.
     bindM (annotate ''could not set encodings''
              (on_local (SetEncodings (enc # level_encodings (config c))) conn)) (\<lambda>conn.
     publish_conn conn)))))"

definition connect_setup :: "client \<Rightarrow> (session, unit) prog" where
  "connect_setup conn c =
     (case connect_body conn c of
        (Ok _, c') \<Rightarrow> (Ok (), c')
      | (r, c') \<Rightarrow> (r, if sconn c' = None then c'\<lparr>connClosed := connClosed c' + 1\<rparr> else c'))"

section \<open>What the set-up leaves behind\<close>

text \<open>The requests of one round: one for each subscribed region, or one for the whole screen.\<close>

definition request_msgs :: "vnc_config \<Rightarrow> client \<Rightarrow> client_msg list" where
  "request_msgs cfg conn =
     (case cfgSubscription cfg of
        Some subs \<Rightarrow> map (\<lambda>r. MUpdateRequest True (rX r) (rY r) (rWidth r) (rHeight r)) subs
      | None \<Rightarrow> [MUpdateRequest True 0 0 (FramebufferWidth conn) (FramebufferHeight conn)])"

abbreviation wire :: "client_msg list \<Rightarrow> u8 list" where
  "wire ms \<equiv> concat (map msg_bytes ms)"

lemma on_conn_write:
  "sconn c = Some conn \<Longrightarrow> wres conn = [] \<Longrightarrow>
    on_conn (write_conn bs) c = (Ok (), c\<lparr>sconn := Some (conn\<lparr>sent := sent conn @ bs\<rparr>)\<rparr>)"
  by (simp add: on_conn_def write_conn_ok)

lemma forM_on_conn:
  assumes "\<And>x. f x = on_conn (write_conn (msg_bytes (g x)))"
  shows "sconn c = Some conn \<Longrightarrow> wres conn = [] \<Longrightarrow>
    forM xs f c = (Ok (), c\<lparr>sconn := Some (conn\<lparr>sent := sent conn @ wire (map g xs)\<rparr>)\<rparr>)"
proof (induction xs arbitrary: c conn)
  case Nil
  then show ?case by (cases c; cases conn) (simp add: ret_def)
next
  case (Cons x xs)
  let ?c = "c\<lparr>sconn := Some (conn\<lparr>sent := sent conn @ msg_bytes (g x)\<rparr>)\<rparr>"
  have "forM xs f ?c = (Ok (), ?c\<lparr>sconn := Some (conn\<lparr>sent := (sent conn @ msg_bytes (g x)) @ wire (map g xs)\<rparr>)\<rparr>)"
    using Cons.IH [of ?c "conn\<lparr>sent := sent conn @ msg_bytes (g x)\<rparr>"] Cons.prems by simp
  then show ?case
    using Cons.prems by (simp add: assms [of x] on_conn_write bindM_def)
qed

lemma requestUpdate_sends:
  assumes conn: "sconn c = Some conn" and ok: "wres conn = []"
  shows "requestUpdate c =
    (Ok (), c\<lparr>sconn := Some (conn\<lparr>sent := sent conn @ wire (request_msgs (config c) conn)\<rparr>)\<rparr>)"
proof (cases "cfgSubscription (config c)")
  case None
  then show ?thesis
    using conn ok by (simp add: requestUpdate_def bindM_def getS_def on_conn_def
      FramebufferUpdateRequest_writes write_conn_ok request_msgs_def del: msg_bytes.simps)
next
  case (Some subs)
  have "forM subs (\<lambda>sub. on_conn (FramebufferUpdateRequest True (rX sub) (rY sub) (rWidth sub) (rHeight sub))) c =
      (Ok (), c\<lparr>sconn := Some (conn\<lparr>sent := sent conn @
        wire (map (\<lambda>r. MUpdateRequest True (rX r) (rY r) (rWidth r) (rHeight r)) subs)\<rparr>)\<rparr>)"
    by (rule forM_on_conn [OF _ conn ok]) (simp only: FramebufferUpdateRequest_writes)
  with Some show ?thesis
    by (simp add: requestUpdate_def bindM_def getS_def request_msgs_def del: msg_bytes.simps)
qed

text \<open>All messages of a set-up: the pixel format, the encodings, the first requests.\<close>

definition setup_msgs :: "vnc_config \<Rightarrow> encoding \<Rightarrow> client \<Rightarrow> client_msg list" where
  "setup_msgs cfg enc conn =
     [MSetPixelFormat gym_pf, MSetEncodings (map enc_Type (enc # level_encodings cfg))] @
     request_msgs cfg conn"

definition conn_after_setup :: "vnc_config \<Rightarrow> encoding \<Rightarrow> client \<Rightarrow> client" where
  "conn_after_setup cfg enc conn =
     conn\<lparr>sent := sent conn @ wire (setup_msgs cfg enc conn), ColorMap := replicate 256 zero_color,
          Encs := enc # level_encodings cfg\<rparr>"

lemma request_msgs_size: "same_size conn conn' \<Longrightarrow> request_msgs cfg conn' = request_msgs cfg conn"
  by (simp add: request_msgs_def same_size_def split: option.split)

lemma connect_setup_run:
  assumes ok: "wres conn = []" and enc: "base_encoding (cfgEncoding (config c)) = Ok enc"
    and open_session: "\<not> closed c"
  shows "connect_setup conn c =
    (Ok (), (new_screens conn c)\<lparr>sconn := Some (conn_after_setup (config c) enc conn)\<rparr>)"
proof -
  let ?es = "enc # level_encodings (config c)"
  let ?c1 = "conn\<lparr>sent := sent conn @ msg_bytes (MSetPixelFormat gym_pf), ColorMap := replicate 256 zero_color\<rparr>"
  let ?c2 = "?c1\<lparr>sent := sent ?c1 @ msg_bytes (MSetEncodings (map enc_Type ?es)), Encs := ?es\<rparr>"
  have pf: "SetPixelFormat gym_pf conn = (Ok (), ?c1)"
    using ok by (simp add: SetPixelFormat_def WritePixelFormat_bytes bindM_def write_conn_ok modifyS_def)
  have es: "SetEncodings ?es ?c1 = (Ok (), ?c2)"
    using ok unfolding SetEncodings_def msg_bytes_encodings
    by (simp add: bindM_def write_conn_ok modifyS_def)
  have req: "requestUpdate ((new_screens conn c)\<lparr>sconn := Some ?c2\<rparr>) =
      (Ok (), (new_screens conn c)\<lparr>sconn := Some (conn_after_setup (config c) enc conn)\<rparr>)"
    using requestUpdate_sends [of "(new_screens conn c)\<lparr>sconn := Some ?c2\<rparr>" ?c2] ok
      request_msgs_size [of conn ?c2 "config c"]
    by (simp add: new_screens_def conn_after_setup_def setup_msgs_def same_size_def del: msg_bytes.simps)
  have "connect_body conn c =
      (Ok (), (new_screens conn c)\<lparr>sconn := Some (conn_after_setup (config c) enc conn)\<rparr>)"
    using pf es req enc open_session
    by (simp add: connect_body_def bindM_def modifyS_def getS_def annotate_def on_local_def
        new_screens_def publish_conn_def del: msg_bytes.simps)
  then show ?thesis by (simp add: connect_setup_def)
qed

lemma new_screens_blank:
  assumes "screens c = []"
  shows "screens_ok (FramebufferWidth conn') (FramebufferHeight conn') ((new_screens conn' c)\<lparr>sconn := Some conn\<rparr>)
      = same_size conn' conn"
    and "front_data ((new_screens conn' c)\<lparr>sconn := Some conn\<rparr>) =
      replicate (unat (FramebufferHeight conn') * unat (FramebufferWidth conn')) zero_color"
    and "back_data ((new_screens conn' c)\<lparr>sconn := Some conn\<rparr>) =
      replicate (unat (FramebufferHeight conn') * unat (FramebufferWidth conn')) zero_color"
proof -
  let ?w = "FramebufferWidth conn'" and ?h = "FramebufferHeight conn'"
  have "(ucast ?w * ucast ?h :: u32) = of_nat (unat ?w * unat ?h)" by simp
  then have "unat (ucast ?w * ucast ?h :: u32) = unat ?h * unat ?w"
    using unat_of_nat_u32 [OF screen_small [of ?w ?h]] by (simp only: mult.commute)
  then have data: "sData (NewScreen ?w ?h) = replicate (unat ?h * unat ?w) zero_color"
    by (simp add: NewScreen_def)
  show "screens_ok ?w ?h ((new_screens conn' c)\<lparr>sconn := Some conn\<rparr>) = same_size conn' conn"
    by (auto simp: screens_ok_def new_screens_def nth_append data same_size_def)
  show "front_data ((new_screens conn' c)\<lparr>sconn := Some conn\<rparr>) = replicate (unat ?h * unat ?w) zero_color"
    "back_data ((new_screens conn' c)\<lparr>sconn := Some conn\<rparr>) = replicate (unat ?h * unat ?w) zero_color"
    by (simp_all add: front_data_def back_data_def new_screens_def nth_append data)
qed

lemma length_level_encodings: "length (level_encodings cfg) \<le> 4"
  by (simp add: level_encodings_def)

lemma setup_msgs_ok: "list_all msg_ok (setup_msgs cfg enc conn)"
  using length_level_encodings [of cfg]
  by (auto simp: setup_msgs_def request_msgs_def plain_pf_def gym_pf_def list_all_iff split: option.split)

text \<open>(C21) A new session that has got a connection whose writes succeed: the server receives the pixel format,
  the encodings for the configured levels and one update request for each subscribed region, or for
  the whole screen, and nothing else; the session then stands before two blank screens of the size
  the server announced, with nothing queued, ready for updates.\<close>

theorem connect_setup_ready:
  assumes "wres conn = []" and "base_encoding (cfgEncoding (clamp_config cfg)) = Ok enc"
  shows "\<exists>c' conn'. connect_setup conn (NewVNCSession cfg) = (Ok (), c') \<and> sconn c' = Some conn' \<and>
    session_ready (FramebufferWidth conn) (FramebufferHeight conn) c' \<and>
    backUpdated c' \<and> deferredUpdates c' = [] \<and> \<not> pauseUpdates c' \<and>
    front_data c' = replicate (unat (FramebufferHeight conn) * unat (FramebufferWidth conn)) zero_color \<and>
    back_data c' = front_data c' \<and> Encs conn' = enc # level_encodings (clamp_config cfg) \<and>
    (\<exists>bs. sent conn' = sent conn @ bs \<and>
       (\<forall>(r :: reader) rest. rbytes r = bs @ rest \<longrightarrow>
          mapM (\<lambda>_. parse_msg) (setup_msgs (clamp_config cfg) enc conn) r =
            (Ok (setup_msgs (clamp_config cfg) enc conn), r\<lparr>rbytes := rest\<rparr>)))"
proof -
  let ?c = "NewVNCSession cfg" and ?conn = "conn_after_setup (clamp_config cfg) enc conn"
  let ?c' = "(new_screens conn ?c)\<lparr>sconn := Some ?conn\<rparr>"
  have run: "connect_setup conn ?c = (Ok (), ?c')"
    using connect_setup_run [of conn ?c enc] assms by (simp add: NewVNCSession_def)
  have size: "same_size conn ?conn" by (simp add: same_size_def conn_after_setup_def)
  have scr: "screens ?c = []" by (simp add: NewVNCSession_def)
  note blank = new_screens_blank [OF scr, where conn' = conn and conn = ?conn]
  have ready: "session_ready (FramebufferWidth conn) (FramebufferHeight conn) ?c'"
    using blank(1) size by (simp add: session_ready_def new_screens_def NewVNCSession_def)
  have flags: "backUpdated ?c'" "deferredUpdates ?c' = []" "\<not> pauseUpdates ?c'"
    by (simp_all add: new_screens_def NewVNCSession_def)
  have parse: "mapM (\<lambda>_. parse_msg) (setup_msgs (clamp_config cfg) enc conn) r =
      (Ok (setup_msgs (clamp_config cfg) enc conn), r\<lparr>rbytes := rest\<rparr>)"
    if "rbytes r = wire (setup_msgs (clamp_config cfg) enc conn) @ rest" for r :: reader and rest
    by (rule msg_codec.dec_list [OF setup_msgs_ok that]) simp
  show ?thesis
    using run ready flags blank(2,3) parse
    by (intro exI [of _ ?c'] exI [of _ ?conn] conjI exI [of _ "wire (setup_msgs (clamp_config cfg) enc conn)"])
      (simp_all add: conn_after_setup_def)
qed

definition demo_config :: vnc_config where
  "demo_config =
     \<lparr>cfgAddress = ''localhost:5900'', cfgPassword = [], cfgEncoding = [], cfgQualityLevel = 12,
      cfgCompressLevel = -1, cfgFineQualityLevel = -1, cfgSubsampleLevel = -1, cfgStartTimeout = 0,
      cfgSubscription = None\<rparr>"

theorem connect_setup_ready_witness:
  "\<exists>c' conn'. connect_setup demo_client (NewVNCSession demo_config) = (Ok (), c') \<and> sconn c' = Some conn' \<and>
    session_ready (FramebufferWidth demo_client) (FramebufferHeight demo_client) c' \<and>
    Encs conn' = [TightEncoding, QualityLevel 9]"
proof -
  have "wres demo_client = []" "base_encoding (cfgEncoding (clamp_config demo_config)) = Ok TightEncoding"
    by (simp_all add: demo_client_def clamp_config_def demo_config_def base_encoding_def)
  from connect_setup_ready [OF this] show ?thesis
    by (elim exE conjE)
      (simp add: level_encodings_def clamp_config_def demo_config_def clamp_level_def)
qed

section \<open>The pixel format the connection decodes with\<close>

definition swap_red_blue :: "color \<Rightarrow> color" where
  "swap_red_blue c = rgb (cB c) (cG c) (cR c)"

lemma transcode_pixel_swapped:
  assumes "fbs_pf_ok pf"
  shows "transcode_pixel gym_pf c = transcode_pixel pf (swap_red_blue c)"
  using assms
  by (simp add: transcode_pixel_def gym_pf_def fbs_pf_ok_def swap_red_blue_def Let_def add.commute add.left_commute)

text \<open>(C34) The set-up asks the server for pixels with red in the lowest byte but leaves the pixel format of
  the connection as the server announced it. With a server whose own format has red in the third byte,
  raw pixels sent in the format that was asked for are decoded with red and blue exchanged.\<close>

theorem setup_swaps_colours:
  assumes "wres conn = []" and "base_encoding (cfgEncoding (clamp_config cfg)) = Ok enc"
    and "fbs_pf_ok (PixelFormat conn)"
    and "length cs = Area r" and "rbytes s = concat (map (transcode_pixel gym_pf) cs) @ rest"
  shows "\<exists>c' conn'. connect_setup conn (NewVNCSession cfg) = (Ok (), c') \<and> sconn c' = Some conn' \<and>
    Raw_Read (PixelFormat conn') (ColorMap conn') r s = (Ok (map swap_red_blue cs), s\<lparr>rbytes := rest\<rparr>)"
proof -
  let ?conn = "conn_after_setup (clamp_config cfg) enc conn"
  have "connect_setup conn (NewVNCSession cfg) =
      (Ok (), (new_screens conn (NewVNCSession cfg))\<lparr>sconn := Some ?conn\<rparr>)"
    using connect_setup_run [of conn "NewVNCSession cfg" enc] assms(1,2) by (simp add: NewVNCSession_def)
  moreover have "Raw_Read (PixelFormat conn) cmap r s = (Ok (map swap_red_blue cs), s\<lparr>rbytes := rest\<rparr>)" for cmap
  proof (rule Raw_Read_run [OF fbs_pf_rgb32 [OF assms(3)]])
    have "map (transcode_pixel gym_pf) cs = map (transcode_pixel (PixelFormat conn)) (map swap_red_blue cs)"
      using transcode_pixel_swapped [OF assms(3)] by simp
    with assms(5) show "rbytes s = concat (map (transcode_pixel (PixelFormat conn)) (map swap_red_blue cs)) @ rest"
      by simp
  qed (simp add: assms(4))
  moreover have "PixelFormat ?conn = PixelFormat conn" by (simp add: conn_after_setup_def)
  ultimately show ?thesis by (intro exI) (auto intro: exI [of _ ?conn])
qed

definition x11_client :: client where
  "x11_client = demo_client\<lparr>PixelFormat := \<lparr>BPP = 32, Depth = 24, BigEndian = False, TrueColor = True,
     RedMax = 255, GreenMax = 255, BlueMax = 255, RedShift = 16, GreenShift = 8, BlueShift = 0\<rparr>\<rparr>"

theorem setup_swaps_colours_witness:
  "\<exists>c' conn'. connect_setup x11_client (NewVNCSession demo_config) = (Ok (), c') \<and> sconn c' = Some conn' \<and>
    Raw_Read (PixelFormat conn') (ColorMap conn') \<lparr>rX = 0, rY = 0, rWidth = 1, rHeight = 1\<rparr>
      \<lparr>rbytes = [200, 30, 4, 0], rend = EOF\<rparr> = (Ok [rgb 4 30 200], \<lparr>rbytes = [], rend = EOF\<rparr>)"
proof -
  have "wres x11_client = []" "base_encoding (cfgEncoding (clamp_config demo_config)) = Ok TightEncoding"
    "fbs_pf_ok (PixelFormat x11_client)"
    "length [rgb 200 30 4] = Area \<lparr>rX = 0, rY = 0, rWidth = 1, rHeight = 1\<rparr>"
    "rbytes \<lparr>rbytes = [200, 30, 4, 0], rend = EOF\<rparr> = concat (map (transcode_pixel gym_pf) [rgb 200 30 4]) @ []"
    by (simp_all add: x11_client_def demo_client_def clamp_config_def demo_config_def base_encoding_def
        fbs_pf_ok_def Area_def transcode_pixel_def gym_pf_def)
  from setup_swaps_colours [OF this] show ?thesis by (simp add: swap_red_blue_def)
qed

end
