(* ===== verification/SessionSystem.thy ===== *)
theory SessionSystem
  imports Connect
begin

text \<open>
  A running session with its goroutines: the loop of \<open>connect\<close> that takes messages from the server,
  \<open>maintainFrameBuffer\<close>, the goroutines that \<open>Flip\<close> starts, the one that waits for an error, and the
  user. What each does under the lock is one step; steps interleave in every order.
\<close>

section \<open>The system\<close>

text \<open>
  \<open>again\<close>: the loop has passed on an update and is about to ask for the next. \<open>received\<close> and \<open>seen\<close>
  record the updates from the server and the updates handed out by flips, \<open>requested\<close> whether a request
  has been sent since the last update came in.
\<close>

record sys =
  sess :: session
  chan :: "update list"    \<comment> \<open>the channel \<open>updates\<close>\<close>
  again :: bool
  looping :: bool
  maintaining :: bool
  errReader :: bool
  received :: "update list"
  seen :: "update list"
  requested :: bool

datatype sys_act =
    Receive update | Rerequest | LoopExit
  | Maintain | MaintainExit | FlipGoroutine | TakeError
  | UserFlip | UserEvent vnc_event | UserRender "goerr option" bool | UserSetRenderer bool
  | UserSubscribe "rect list option" | UserClose

definition asks :: "session \<Rightarrow> session \<Rightarrow> bool" where
  "asks c c' \<longleftrightarrow> map_option sent (sconn c') \<noteq> map_option sent (sconn c)"

inductive sys_step :: "sys \<Rightarrow> sys_act \<Rightarrow> sys \<Rightarrow> bool" where
  receive: "looping s \<Longrightarrow> \<not> again s \<Longrightarrow> length (chan s) < 4096 \<Longrightarrow>
    sys_step s (Receive u) (s\<lparr>chan := chan s @ [u], again := True, received := received s @ [u], requested := False\<rparr>)"
| rerequest: "again s \<Longrightarrow> rerequest (sess s) = (Ok (), c) \<Longrightarrow>
    sys_step s Rerequest (s\<lparr>sess := c, again := False, requested := requested s \<or> asks (sess s) c\<rparr>)"
| loop_exit: "looping s \<Longrightarrow> \<not> again s \<Longrightarrow> mgrDone (sess s) \<Longrightarrow>
    sys_step s LoopExit (s\<lparr>looping := False\<rparr>)"
| maintain: "maintaining s \<Longrightarrow> chan s = u # us \<Longrightarrow> maintain_update u (sess s) = (Ok (), c) \<Longrightarrow>
    sys_step s Maintain (s\<lparr>sess := c, chan := us\<rparr>)"
| maintain_fails: "maintaining s \<Longrightarrow> chan s = u # us \<Longrightarrow> maintain_update u (sess s) = (Err e, c) \<Longrightarrow>
    sys_step s Maintain (s\<lparr>sess := report e c, chan := us, maintaining := False\<rparr>)"
| maintain_exit: "maintaining s \<Longrightarrow> mgrDone (sess s) \<Longrightarrow>
    sys_step s MaintainExit (s\<lparr>maintaining := False\<rparr>)"
| flip_goroutine: "0 < flips (sess s) \<Longrightarrow> flip_goroutine (sess s) = (Ok (), c) \<Longrightarrow>
    sys_step s FlipGoroutine (s\<lparr>sess := c, requested := requested s \<or> asks (sess s) c\<rparr>)"
| take_error: "errReader s \<Longrightarrow> mgrError (sess s) \<noteq> [] \<Longrightarrow>
    sys_step s TakeError (s\<lparr>sess := take_error (sess s), errReader := False\<rparr>)"
| user_flip: "Flip (sess s) = (Ok (p, us), c) \<Longrightarrow>
    sys_step s UserFlip (s\<lparr>sess := c, seen := seen s @ us\<rparr>)"
| user_event: "on_conn (Execute e) (sess s) = (r, c) \<Longrightarrow>
    sys_step s (UserEvent e) (s\<lparr>sess := c\<rparr>)"
| user_render: "Render ini close (sess s) = (r, c) \<Longrightarrow> (\<forall>p. r \<noteq> Panic p) \<Longrightarrow>
    sys_step s (UserRender ini close) (s\<lparr>sess := c\<rparr>)"
| user_set_renderer: "SetRenderer b (sess s) = (r, c) \<Longrightarrow>
    sys_step s (UserSetRenderer b) (s\<lparr>sess := c\<rparr>)"
| user_subscribe: "sys_step s (UserSubscribe subs) (s\<lparr>sess := SetSubscription subs (sess s)\<rparr>)"
| user_close: "session_Close (sess s) = (Ok (), c) \<Longrightarrow> sys_step s UserClose (s\<lparr>sess := c\<rparr>)"

inductive sys_run :: "sys \<Rightarrow> sys_act list \<Rightarrow> sys \<Rightarrow> bool" for s where
  run_nil: "sys_run s [] s"
| run_snoc: "sys_run s as t \<Longrightarrow> sys_step t a u \<Longrightarrow> sys_run s (as @ [a]) u"

definition sys_start :: "session \<Rightarrow> sys" where
  "sys_start c =
     \<lparr>sess = c, chan = [], again = False, looping = True, maintaining = True, errReader = True,
      received = [], seen = [], requested = True\<rparr>"

text \<open>A session as \<open>connect\<close> leaves it (\<open>connect_setup_ready\<close>).\<close>

definition just_connected :: "u16 \<Rightarrow> u16 \<Rightarrow> session \<Rightarrow> bool" where
  "just_connected w h c \<longleftrightarrow>
     session_ready w h c \<and> backUpdated c \<and> deferredUpdates c = [] \<and> back_data c = front_data c \<and>
     \<not> pauseUpdates c \<and> flips c = 0 \<and> \<not> rendererActive c \<and> \<not> closed c \<and> \<not> mgrDone c \<and>
     connClosed c = 0"

section \<open>What a step changes of the session\<close>

text \<open>
  Every step is one of: something that leaves the pictures and the queue alone, a flip, the goroutine of
  a flip, or the drawing of an update.
\<close>

definition calm :: "session \<Rightarrow> session \<Rightarrow> bool" where
  "calm c c' \<longleftrightarrow> same_view c c' \<and> flips c' = flips c \<and> pauseUpdates c' = pauseUpdates c"

lemma calm_refl: "calm c c"
  by (simp add: calm_def viewing.refl)

lemma conn_call_calm:
  assumes "conn_call m" and "sconn c = Some conn" and "m c = (r, c')"
  shows "calm c c'"
  using assms by (auto elim!: conn_callE simp: calm_def same_view_def)

lemmas calm_simps = calm_def same_view_def same_size_def option.rel_refl
lemmas method_simps = bindM_def getS_def fail_def ret_def modifyS_def panic_def

lemma Render_calm: "Render ini close c = (r, c') \<Longrightarrow> calm c c'"
  by (auto simp: Render_def Render_init_def method_simps calm_simps
      split: if_splits option.splits prod.splits outcome.splits)

lemma SetRenderer_calm: "SetRenderer b c = (r, c') \<Longrightarrow> calm c c'"
  by (auto simp: SetRenderer_def method_simps calm_simps split: if_splits)

lemma Close_calm: "session_Close c = (r, c') \<Longrightarrow> calm c c'"
  by (auto simp: session_Close_def mgr_Close_def method_simps calm_simps split: if_splits)

lemma take_error_calm: "calm c (take_error c)"
  by (simp add: take_error_def calm_simps split: list.split)

lemma SetSubscription_calm: "calm c (SetSubscription subs c)"
  by (simp add: SetSubscription_def calm_simps)

lemma event_conn_call: "conn_call (on_conn (Execute e))"
  using conn_call_write [of "\<lambda>_. msg_bytes (event_msg e)"] by (simp add: Execute_writes)

lemma rerequest_calm:
  assumes "rerequest c = (r, c')" and "sconn c = Some conn"
  shows "calm c c' \<and> r = Ok ()"
proof (cases "pauseUpdates c")
  case True
  with assms show ?thesis by (auto simp: rerequest_def method_simps calm_def viewing.refl)
next
  case False
  with reporting_request [OF assms(2)] assms(1) show ?thesis
    by (auto simp: rerequest_def bindM_def getS_def calm_def)
qed

text \<open>The steps that are calm.\<close>

lemma sys_step_calm:
  assumes "sys_step s a t" and "sconn (sess s) = Some conn"
    and "a \<notin> {Maintain, FlipGoroutine, UserFlip}"
  shows "calm (sess s) (sess t) \<and> seen t = seen s"
  using assms
proof cases
  case (rerequest c)
  with rerequest_calm [OF rerequest(4) assms(2)] show ?thesis by simp
next
  case (user_event e r c)
  with conn_call_calm [OF event_conn_call assms(2) user_event(3)] show ?thesis by simp
qed (auto intro: calm_refl Render_calm SetRenderer_calm Close_calm take_error_calm SetSubscription_calm)

lemma view_consistent:
  assumes "same_view c c'"
  shows "session_buffer.consistent w h c' = session_buffer.consistent w h c"
    and "session_buffer.unseen c' = session_buffer.unseen c"
  using same_viewD [OF assms] by (simp_all add: session_buffer.consistent_def session_buffer.unseen_def)

lemma consistent_conn: "session_buffer.consistent w h c \<Longrightarrow> \<exists>conn. sconn c = Some conn"
  using session_ready_conn by (auto simp: session_buffer.consistent_def)

lemma consistent_ready: "session_buffer.consistent w h c \<Longrightarrow> session_ready w h c"
  by (simp add: session_buffer.consistent_def)

lemma Flip_parts:
  assumes "Flip c = (Ok (p, us), c')"
  shows "flip_updates c = (Ok us, c')" and "p = frontScreen c'"
  using assms by (auto simp: flip_updates_def bindM_def ret_def Flip_def Let_def split: if_splits)

section \<open>Every update exactly once\<close>

definition delivered :: "u16 \<Rightarrow> u16 \<Rightarrow> color list \<Rightarrow> sys \<Rightarrow> bool" where
  "delivered w h pic s \<longleftrightarrow>
     session_buffer.consistent w h (sess s) \<and>
     front_data (sess s) = fold (draw_update w h) (seen s) pic \<and>
     seen s @ session_buffer.unseen (sess s) @ chan s = received s"

lemma delivered_conn: "delivered w h pic s \<Longrightarrow> \<exists>conn. sconn (sess s) = Some conn"
  using consistent_conn unfolding delivered_def by blast

lemma delivered_good:
  assumes "delivered w h pic s" and "list_all (list_all (good_rect w h)) (received s)" and "chan s = u # us"
  shows "list_all (good_rect w h) u"
proof -
  have "received s = (seen s @ session_buffer.unseen (sess s)) @ u # us"
    using assms(1,3) by (simp add: delivered_def)
  then have "u \<in> set (received s)" by simp
  with assms(2) show ?thesis by (simp add: list_all_iff)
qed

lemma sys_step_received: "sys_step s a t \<Longrightarrow> \<exists>us. received t = received s @ us"
  by (induction rule: sys_step.induct) auto

lemma sys_step_chan:
  "sys_step s a t \<Longrightarrow> a \<notin> {Maintain, FlipGoroutine, UserFlip} \<Longrightarrow>
    \<exists>us. chan t = chan s @ us \<and> received t = received s @ us"
  by (induction rule: sys_step.induct) auto

lemma delivered_step:
  assumes step: "sys_step s a t" and inv: "delivered w h pic s"
    and good_all: "list_all (list_all (good_rect w h)) (received t)"
  shows "delivered w h pic t"
proof -
  have cons: "session_buffer.consistent w h (sess s)" using inv by (simp add: delivered_def)
  have good: "list_all (good_rect w h) u" if "chan s = u # us" for u us
    using delivered_good [OF inv _ that] good_all sys_step_received [OF step] by auto
  show ?thesis
  proof (cases "a \<in> {Maintain, FlipGoroutine, UserFlip}")
    case False
    obtain conn where "sconn (sess s) = Some conn" using delivered_conn [OF inv] by blast
    from sys_step_calm [OF step this False] have "same_view (sess s) (sess t)" "seen t = seen s"
      by (simp_all add: calm_def)
    with inv sys_step_chan [OF step False] show ?thesis
      using view_consistent [of "sess s" "sess t"] same_viewD(1) [of "sess s" "sess t"]
      by (auto simp: delivered_def)
  next
    case True
    from step show ?thesis
    proof cases
      case (maintain u us c)
      show ?thesis
        by (rule session_buffer.push_step [OF cons good [OF maintain(4)]])
          (use maintain inv in \<open>simp add: delivered_def\<close>)
    next
      case (maintain_fails u us e c)
      show ?thesis
        by (rule session_buffer.push_step [OF cons good [OF maintain_fails(4)]])
          (use maintain_fails(5) in simp)
    next
      case (flip_goroutine c)
      show ?thesis
        by (rule session_buffer.sync_step [OF cons])
          (use flip_goroutine inv in \<open>simp add: delivered_def\<close>)
    next
      case (user_flip p us c)
      show ?thesis
        by (rule session_buffer.flip_step [OF cons])
          (use Flip_parts(1) [OF user_flip(3)] user_flip inv in \<open>simp add: delivered_def\<close>)
    qed (use True in auto)
  qed
qed

section \<open>What the goroutines leave alone\<close>

text \<open>They do not close anything, do not call the renderer, and keep a connection that writes.\<close>

definition writes_ok :: "session \<Rightarrow> bool" where
  "writes_ok c \<longleftrightarrow> (\<exists>conn. sconn c = Some conn \<and> wres conn = [])"

definition kept :: "session \<Rightarrow> session \<Rightarrow> bool" where
  "kept c c' \<longleftrightarrow>
     config c' = config c \<and> closed c' = closed c \<and> mgrDone c' = mgrDone c \<and>
     connClosed c' = connClosed c \<and> rendererActive c' = rendererActive c \<and> rcalls c' = rcalls c \<and>
     (writes_ok c \<longrightarrow> writes_ok c')"

interpretation keeping: frame kept
  by unfold_locales (auto simp: kept_def)

lemmas kept_simps = kept_def writes_ok_def

lemma keeps_apply_to_back: "keeps kept (apply_to_back r)"
  by (auto simp: keeps_def apply_to_back_def kept_simps Let_def split: option.split outcome.split)

lemma keeps_applyUpdate: "keeps kept (applyUpdate u)"
  unfolding applyUpdate_def by (intro keeping.keeps_forM keeps_apply_to_back)

lemma keeps_applyDeferred: "keeps kept applyDeferred"
  unfolding applyDeferred_def
  by (intro keeping.keeps_prog keeping.keeps_forM keeps_drop_error keeps_applyUpdate) (simp_all add: kept_simps)

lemma keeps_maintain_update: "keeps kept (maintain_update u)"
  unfolding maintain_update_def
  by (intro keeping.keeps_prog keeps_applyDeferred keeps_applyUpdate) (simp_all add: kept_simps Let_def)

lemma keeps_on_conn: "keeps kept (on_conn (\<lambda>conn. write_conn (f conn) conn))"
  by (auto simp: keeps_def on_conn_def write_conn_def kept_simps split: option.split prod.split list.split)

lemma keeps_requestUpdate: "keeps kept requestUpdate"
  unfolding requestUpdate_def FramebufferUpdateRequest_def
  by (intro keeping.keeps_bindM keeping.keeps_getS keeps_case_option keeping.keeps_forM keeps_on_conn)

lemma keeps_reporting:
  assumes "keeps kept m"
  shows "keeps kept (reporting m)"
  unfolding keeps_def
proof
  fix s
  from assms have "kept s (snd (m s))" by (simp add: keeps_def)
  then show "kept s (snd (reporting m s))"
    by (cases "m s") (auto simp: reporting_def report_def kept_simps split: outcome.split)
qed

lemma keeps_resume_updates: "keeps kept resume_updates"
  unfolding resume_updates_def
  by (intro keeping.keeps_prog keeps_reporting keeps_requestUpdate) (simp_all add: kept_simps)

lemma keeps_flip_goroutine: "keeps kept flip_goroutine"
  unfolding flip_goroutine_def
  by (intro keeping.keeps_prog keeps_applyDeferred keeps_resume_updates) (simp_all add: kept_simps)

lemma keeps_rerequest: "keeps kept rerequest"
  unfolding rerequest_def by (intro keeping.keeps_prog keeps_reporting keeps_requestUpdate)

lemma keeps_event: "keeps kept (on_conn (Execute e))"
  using keeps_on_conn [of "\<lambda>_. msg_bytes (event_msg e)"] by (simp add: Execute_writes)

lemma kept_report: "kept c c' \<Longrightarrow> kept c (report e c')"
  by (auto simp: report_def kept_simps)

lemma sys_step_kept:
  assumes "sys_step s a t"
    and "\<forall>ini close subs. a \<noteq> UserRender ini close \<and> a \<noteq> UserSubscribe subs" and "a \<noteq> UserFlip" and "a \<noteq> UserClose"
  shows "kept (sess s) (sess t)"
  using assms
proof cases
  case (user_set_renderer b r c)
  then show ?thesis by (auto simp: SetRenderer_def method_simps kept_simps split: if_splits)
next
  case take_error
  then show ?thesis by (auto simp: take_error_def kept_simps split: list.split)
qed (auto intro: keeping.refl kept_report keepsD [OF keeps_rerequest] keepsD [OF keeps_maintain_update]
  keepsD [OF keeps_flip_goroutine] keepsD [OF keeps_event])

section \<open>Paused updates are resumed\<close>

definition scheduled :: "sys \<Rightarrow> bool" where
  "scheduled s \<longleftrightarrow> (pauseUpdates (sess s) \<longrightarrow> backUpdated (sess s) \<or> 0 < flips (sess s))"

lemma scheduled_step:
  assumes step: "sys_step s a t" and inv: "delivered w h pic s" "scheduled s"
    and good_all: "list_all (list_all (good_rect w h)) (received t)"
  shows "scheduled t"
proof -
  have ready: "session_ready w h (sess s)" using inv(1) by (simp add: delivered_def consistent_ready)
  have good: "list_all (good_rect w h) u" if "chan s = u # us" for u us
    using delivered_good [OF inv(1) _ that] good_all sys_step_received [OF step] by auto
  show ?thesis
  proof (cases "a \<in> {Maintain, FlipGoroutine, UserFlip}")
    case False
    obtain conn where "sconn (sess s) = Some conn" using delivered_conn [OF inv(1)] by blast
    from sys_step_calm [OF step this False] inv(2) show ?thesis
      by (auto simp: scheduled_def calm_def same_view_def)
  next
    case True
    from step show ?thesis
    proof cases
      case (maintain u us c)
      with maintain_update_pushes [OF ready good] show ?thesis by (auto simp: scheduled_def)
    next
      case (maintain_fails u us e c)
      with maintain_update_pushes [OF ready good] show ?thesis by fastforce
    next
      case (flip_goroutine c)
      with flip_goroutine_syncs [OF ready] show ?thesis by (auto simp: scheduled_def)
    next
      case (user_flip p us c)
      with inv(2) show ?thesis by (auto simp: scheduled_def Flip_def Let_def split: if_splits)
    qed (use True in auto)
  qed
qed

section \<open>Closing\<close>

definition closing :: "session \<Rightarrow> bool" where
  "closing c \<longleftrightarrow> (mgrDone c \<longleftrightarrow> closed c) \<and> connClosed c = (if closed c then 1 else 0)"

lemma closing_kept: "kept c c' \<Longrightarrow> closing c' = closing c"
  by (simp add: closing_def kept_def)

lemma Close_once:
  assumes "closing c"
  shows "\<exists>c'. session_Close c = (Ok (), c') \<and> closed c' \<and>
    (closed c \<longrightarrow> c' = c) \<and> (sconn c \<noteq> None \<longrightarrow> closing c')"
  using assms by (auto simp: session_Close_def mgr_Close_def method_simps closing_def)

lemma closing_step:
  assumes step: "sys_step s a t" and conn: "sconn (sess s) = Some conn" and inv: "closing (sess s)"
  shows "closing (sess t)"
proof (cases "\<exists>ini close subs. a = UserRender ini close \<or> a = UserSubscribe subs \<or> a = UserFlip \<or> a = UserClose")
  case False
  then show ?thesis using closing_kept [OF sys_step_kept [OF step]] inv by auto
next
  case True
  from step show ?thesis
  proof cases
    case (user_close c)
    with Close_once [OF inv] conn show ?thesis by auto
  next
    case (user_render ini close r c)
    with inv show ?thesis
      by (auto simp: Render_def Render_init_def method_simps closing_def
        split: if_splits option.splits prod.splits outcome.splits)
  next
    case (user_flip p us c)
    with inv show ?thesis by (auto simp: Flip_def Let_def closing_def split: if_splits)
  next
    case (user_subscribe subs)
    with inv show ?thesis by (simp add: SetSubscription_def closing_def)
  qed (use True in auto)
qed

section \<open>The renderer shows the front screen\<close>

fun call_pic :: "u16 \<Rightarrow> u16 \<Rightarrow> render_call \<Rightarrow> color list option \<Rightarrow> color list option" where
  "call_pic w h (RInit w' h' data) p = Some data"
| "call_pic w h (RApply us) p = map_option (fold (draw_update w h) us) p"
| "call_pic w h _ p = p"

definition rendered :: "u16 \<Rightarrow> u16 \<Rightarrow> session \<Rightarrow> color list option" where
  "rendered w h c = fold (call_pic w h) (rcalls c) None"

definition rendering :: "u16 \<Rightarrow> u16 \<Rightarrow> session \<Rightarrow> bool" where
  "rendering w h c \<longleftrightarrow> (rendererActive c \<longrightarrow> rendered w h c = Some (front_data c))"

lemma rendering_front:
  "kept c c' \<Longrightarrow> front_data c' = front_data c \<Longrightarrow> rendering w h c' = rendering w h c"
  by (simp add: rendering_def rendered_def kept_def)

lemma rendering_Render:
  assumes "Render ini close c = (r, c')" and "rendering w h c"
  shows "rendering w h c'"
proof (cases "rendererActive c")
  case True
  with assms show ?thesis
    by (cases close) (auto simp: Render_def method_simps rendering_def rendered_def front_data_def
        split: if_splits option.splits)
next
  case False
  with assms show ?thesis
    by (cases close) (auto simp: Render_def Render_init_def method_simps rendering_def rendered_def front_data_def
        split: if_splits option.splits)
qed

lemma rendering_step:
  assumes step: "sys_step s a t" and inv: "delivered w h pic s" "rendering w h (sess s)"
    and good_all: "list_all (list_all (good_rect w h)) (received t)"
  shows "rendering w h (sess t)"
proof -
  have cons: "session_buffer.consistent w h (sess s)" using inv(1) by (simp add: delivered_def)
  obtain conn where conn: "sconn (sess s) = Some conn" using delivered_conn [OF inv(1)] by blast
  from delivered_step [OF step inv(1) good_all]
  have front: "front_data (sess t) = fold (draw_update w h) (seen t) pic" by (simp add: delivered_def)
  have front0: "front_data (sess s) = fold (draw_update w h) (seen s) pic"
    using inv(1) by (simp add: delivered_def)
  show ?thesis
  proof (cases "\<exists>ini close subs. a = UserRender ini close \<or> a = UserSubscribe subs \<or> a = UserFlip \<or> a = UserClose")
    case False
    have "seen t = seen s" using step False by cases auto
    with front front0 have "front_data (sess t) = front_data (sess s)" by simp
    with False show ?thesis using rendering_front [OF sys_step_kept [OF step]] inv(2) by blast
  next
    case True
    from step show ?thesis
    proof cases
      case (user_close c)
      with inv(2) show ?thesis
        by (auto simp: session_Close_def mgr_Close_def method_simps rendering_def rendered_def
            front_data_def split: if_splits)
    next
      case (user_render ini close r c)
      with rendering_Render [OF user_render(3) inv(2)] show ?thesis by simp
    next
      case (user_flip p us c)
      then have "rcalls c = rcalls (sess s) @ (if rendererActive (sess s) \<and> backUpdated (sess s) then [RApply us] else [])"
        "rendererActive c = rendererActive (sess s)" "backUpdated (sess s) \<or> us = []"
        by (auto simp: Flip_def Let_def split: if_splits)
      moreover have "front_data c = fold (draw_update w h) us (front_data (sess s))"
        using front front0 user_flip by simp
      ultimately show ?thesis
        using inv(2) user_flip by (auto simp: rendering_def rendered_def split: if_splits)
    next
      case (user_subscribe subs)
      with inv(2) show ?thesis by (simp add: SetSubscription_def rendering_def rendered_def front_data_def)
    qed (use True in auto)
  qed
qed

section \<open>Runs of a connected session\<close>

lemma write_same_size: "write_conn bs conn = (r, conn') \<Longrightarrow> same_size conn conn'"
  by (rule write_conn_same_size [of bs conn]) simp

lemma SetPixelFormat_size: "SetPixelFormat f conn = (Ok u, conn') \<Longrightarrow> same_size conn conn'"
  using write_same_size
  by (fastforce simp: SetPixelFormat_def WritePixelFormat_bytes modifyS_def same_size_def elim!: bindM_OkE)

lemma SetEncodings_size: "SetEncodings es conn = (Ok u, conn') \<Longrightarrow> same_size conn conn'"
  using write_same_size
  by (fastforce simp: SetEncodings_def modifyS_def same_size_def elim!: bindM_OkE)

lemma on_local_OkD:
  "annotate msg (on_local m conn) c = (Ok conn', c') \<Longrightarrow> (\<exists>u. m conn = (Ok u, conn')) \<and> c' = c"
  by (auto simp: annotate_def on_local_def split: prod.splits outcome.splits)

lemma publish_conn_OkD:
  assumes "publish_conn conn c = (Ok u, c')"
  shows "\<exists>conn'. c' = c\<lparr>sconn := Some conn'\<rparr> \<and> same_size conn conn'"
proof -
  have "sconn (c\<lparr>sconn := Some conn\<rparr>) = Some conn" by simp
  from conn_call_requestUpdate this obtain conn' r where
    "requestUpdate (c\<lparr>sconn := Some conn\<rparr>) = (r, (c\<lparr>sconn := Some conn\<rparr>)\<lparr>sconn := Some conn'\<rparr>)"
    "same_size conn conn'"
    by (rule conn_callE)
  with assms show ?thesis by (auto simp: publish_conn_def split: outcome.splits if_splits)
qed

lemma connect_setup_body: "connect_setup conn c = (Ok u, c') \<Longrightarrow> connect_body conn c = (Ok (), c')"
  by (auto simp: connect_setup_def split: prod.splits outcome.splits)

lemma connect_setup_OkD:
  assumes "connect_setup conn c = (Ok u, c')"
  shows "\<exists>conn'. c' = (new_screens conn c)\<lparr>sconn := Some conn'\<rparr> \<and> same_size conn conn'"
proof -
  from connect_setup_body [OF assms] obtain c1 c2 where "same_size conn c1" "same_size c1 c2" "publish_conn c2 (new_screens conn c) = (Ok (), c')"
    unfolding connect_body_def
    by (auto elim!: bindM_OkE simp: modifyS_def getS_def lift_def
        dest!: on_local_OkD SetPixelFormat_size SetEncodings_size)
  with publish_conn_OkD show ?thesis by (fastforce simp: same_size_def)
qed

lemma connect_setup_just_connected:
  assumes "connect_setup conn (NewVNCSession cfg) = (Ok u, c)"
  shows "just_connected (FramebufferWidth conn) (FramebufferHeight conn) c \<and>
    front_data c = replicate (unat (FramebufferHeight conn) * unat (FramebufferWidth conn)) zero_color"
proof -
  from assms obtain conn' where c: "c = (new_screens conn (NewVNCSession cfg))\<lparr>sconn := Some conn'\<rparr>"
    and size: "same_size conn conn'"
    using connect_setup_OkD by blast
  have scr: "screens (NewVNCSession cfg) = []" by (simp add: NewVNCSession_def)
  note blank = new_screens_blank [OF scr, where conn' = conn and conn = conn']
  have "session_ready (FramebufferWidth conn) (FramebufferHeight conn) c"
    using blank(1) size unfolding c by (simp add: session_ready_def new_screens_def NewVNCSession_def)
  then show ?thesis
    using blank(2,3) unfolding c by (simp add: just_connected_def new_screens_def NewVNCSession_def)
qed

text \<open>A run of the system from the moment \<open>connect\<close> has set up its connection.\<close>

definition session_run :: "client \<Rightarrow> vnc_config \<Rightarrow> sys_act list \<Rightarrow> sys \<Rightarrow> bool" where
  "session_run conn cfg as s \<longleftrightarrow>
     (\<exists>c. connect_setup conn (NewVNCSession cfg) = (Ok (), c) \<and> sys_run (sys_start c) as s)"

definition sys_inv :: "u16 \<Rightarrow> u16 \<Rightarrow> color list \<Rightarrow> sys \<Rightarrow> bool" where
  "sys_inv w h pic s \<longleftrightarrow>
     delivered w h pic s \<and> scheduled s \<and> closing (sess s) \<and> rendering w h (sess s)"

lemma sys_inv_start: "just_connected w h c \<Longrightarrow> sys_inv w h (front_data c) (sys_start c)"
  by (simp add: sys_inv_def sys_start_def just_connected_def delivered_def scheduled_def closing_def
      rendering_def session_buffer.consistent_def session_buffer.unseen_def)

lemma sys_inv_run:
  assumes "sys_run s0 as s" and "sys_inv w h pic s0" and "list_all (list_all (good_rect w h)) (received s)"
  shows "sys_inv w h pic s"
  using assms
proof (induction rule: sys_run.induct)
  case (run_snoc as t a u)
  then have "list_all (list_all (good_rect w h)) (received t)"
    using sys_step_received [of t a u] by auto
  with run_snoc have "sys_inv w h pic t" by blast
  then have inv: "delivered w h pic t" "scheduled t" "closing (sess t)" "rendering w h (sess t)"
    by (simp_all add: sys_inv_def)
  from delivered_conn [OF inv(1)] obtain conn where conn: "sconn (sess t) = Some conn" by blast
  note step = run_snoc.hyps(2) and good = run_snoc.prems(2)
  show ?case
    unfolding sys_inv_def
    using delivered_step [OF step inv(1) good] scheduled_step [OF step inv(1,2) good]
      closing_step [OF step conn inv(3)] rendering_step [OF step inv(1,4) good] by simp
qed simp

lemma session_run_inv:
  assumes "session_run conn cfg as s" and "w = FramebufferWidth conn" and "h = FramebufferHeight conn"
    and "list_all (list_all (good_rect w h)) (received s)"
  shows "sys_inv w h (replicate (unat h * unat w) zero_color) s"
proof -
  from assms(1) obtain c where c: "connect_setup conn (NewVNCSession cfg) = (Ok (), c)"
    "sys_run (sys_start c) as s" by (auto simp: session_run_def)
  from connect_setup_just_connected [OF c(1)] assms(2,3)
  have "sys_inv w h (replicate (unat h * unat w) zero_color) (sys_start c)"
    using sys_inv_start [of w h c] by simp
  from sys_inv_run [OF c(2) this assms(4)] show ?thesis .
qed

text \<open>The updates a flip would hand out now.\<close>

definition unseen_updates :: "session \<Rightarrow> update list" where
  "unseen_updates c = (if backUpdated c then deferredUpdates c else [])"

text \<open>(C2) Every update reaches the user exactly once and in the order of the server, whatever the
  interleaving of the connection loop, the frame buffer goroutine, the goroutines of the flips and the
  user: what the flips have handed out, what the next flip would hand out and what waits in the channel
  is together exactly what the server has sent. And the front screen always shows the blank screen
  with exactly the handed out updates drawn on it, as long as the rectangles lie inside the screen.\<close>

theorem updates_delivered_once:
  assumes "session_run conn cfg as s"
    and "list_all (list_all (good_rect (FramebufferWidth conn) (FramebufferHeight conn))) (received s)"
  shows "seen s @ unseen_updates (sess s) @ chan s = received s \<and>
    front_data (sess s) =
      fold (draw_update (FramebufferWidth conn) (FramebufferHeight conn)) (seen s)
        (replicate (unat (FramebufferHeight conn) * unat (FramebufferWidth conn)) zero_color)"
  using session_run_inv [OF assms(1) refl refl assms(2)]
  by (simp add: sys_inv_def delivered_def session_buffer.unseen_def unseen_updates_def)


section \<open>The cycle of requests never stops\<close>

text \<open>Writes succeed, and the subscription is not an empty list of regions.\<close>

definition live :: "session \<Rightarrow> bool" where
  "live c \<longleftrightarrow> writes_ok c \<and> cfgSubscription (config c) \<noteq> Some []"

lemma msg_bytes_nonempty: "msg_bytes m \<noteq> []"
  by (cases m) simp_all

lemma reporting_asks:
  assumes "live c"
  shows "asks c (snd (reporting requestUpdate c))"
proof -
  from assms obtain conn where conn: "sconn c = Some conn" "wres conn = []"
    and subs: "cfgSubscription (config c) \<noteq> Some []"
    by (auto simp: live_def writes_ok_def)
  from subs have "wire (request_msgs (config c) conn) \<noteq> []"
    using msg_bytes_nonempty by (auto simp: request_msgs_def neq_Nil_conv simp del: msg_bytes.simps split: option.splits)
  then show ?thesis
    using requestUpdate_sends [OF conn] conn(1) by (simp add: reporting_def asks_def)
qed

lemma rerequest_asks: "live c \<Longrightarrow> \<not> pauseUpdates c \<Longrightarrow> asks c (snd (rerequest c))"
  using reporting_asks by (simp add: rerequest_def bindM_def getS_def)

lemma live_kept: "kept c c' \<Longrightarrow> live c \<Longrightarrow> live c'"
  by (simp add: live_def kept_def)

lemma flip_goroutine_asks:
  assumes ready: "session_ready w h c" and "live c" and paused: "pauseUpdates c"
  shows "asks c (snd (flip_goroutine c))"
proof -
  let ?c = "c\<lparr>flips := flips c - 1\<rparr>"
  have "same_view c ?c" by (simp add: same_view_def same_size_def option.rel_refl)
  with ready have "session_ready w h ?c" using same_viewD(5) by blast
  from applyDeferred_syncs [OF this] obtain c1 where c1: "applyDeferred ?c = (Ok (), c1)"
    "pauseUpdates c1" "sconn c1 = sconn c"
    using paused by auto
  have "live ?c" using \<open>live c\<close> by (simp add: live_def writes_ok_def)
  with keepsD [OF keeps_applyDeferred c1(1)] have "live c1" by (rule live_kept)
  then have "live (c1\<lparr>pauseUpdates := False\<rparr>)" by (simp add: live_def writes_ok_def)
  from reporting_asks [OF this] show ?thesis
    using c1 by (auto simp: flip_goroutine_def resume_updates_def method_simps asks_def split: prod.split outcome.split)
qed

lemma live_step:
  assumes step: "sys_step s a t" and "live (sess s)" and "a \<noteq> UserSubscribe (Some [])"
  shows "live (sess t)"
proof (cases "\<exists>ini close subs. a = UserRender ini close \<or> a = UserSubscribe subs \<or> a = UserFlip \<or> a = UserClose")
  case False
  then show ?thesis using live_kept [OF sys_step_kept [OF step]] assms(2) by auto
next
  case True
  from step show ?thesis
  proof cases
    case (user_close c)
    with assms(2) show ?thesis
      by (auto simp: session_Close_def mgr_Close_def method_simps live_def writes_ok_def split: if_splits)
  next
    case (user_render ini close r c)
    with assms(2) show ?thesis
      by (auto simp: Render_def Render_init_def method_simps live_def writes_ok_def
        split: if_splits option.splits prod.splits outcome.splits)
  next
    case (user_flip p us c)
    with assms(2) show ?thesis by (auto simp: Flip_def Let_def live_def writes_ok_def split: if_splits)
  next
    case (user_subscribe subs)
    with assms(2,3) show ?thesis by (simp add: SetSubscription_def live_def writes_ok_def)
  qed (use True in auto)
qed

definition answered :: "sys \<Rightarrow> bool" where
  "answered s \<longleftrightarrow> (\<not> again s \<and> \<not> pauseUpdates (sess s) \<longrightarrow> requested s)"

lemma answered_step:
  assumes step: "sys_step s a t" and inv: "delivered w h pic s" "live (sess s)" "answered s"
    and good_all: "list_all (list_all (good_rect w h)) (received t)"
  shows "answered t"
proof -
  have ready: "session_ready w h (sess s)" using inv(1) by (simp add: delivered_def consistent_ready)
  obtain conn where conn: "sconn (sess s) = Some conn" using delivered_conn [OF inv(1)] by blast
  have good: "list_all (good_rect w h) u" if "chan s = u # us" for u us
    using delivered_good [OF inv(1) _ that] good_all sys_step_received [OF step] by auto
  from step show ?thesis
  proof cases
    case (rerequest c)
    then have "asks (sess s) c" if "\<not> pauseUpdates (sess s)"
      using rerequest_asks [OF inv(2) that] by simp
    moreover have "pauseUpdates c = pauseUpdates (sess s)"
      using rerequest_calm [OF rerequest(4) conn] by (simp add: calm_def)
    ultimately show ?thesis using rerequest by (auto simp: answered_def)
  next
    case (maintain u us c)
    with maintain_update_pushes [OF ready good [OF maintain(4)]] inv(3) show ?thesis
      by (auto simp: answered_def)
  next
    case (maintain_fails u us e c)
    with maintain_update_pushes [OF ready good [OF maintain_fails(4)]] show ?thesis by fastforce
  next
    case (flip_goroutine c)
    then have "asks (sess s) c" if "pauseUpdates (sess s)"
      using flip_goroutine_asks [OF ready inv(2) that] by simp
    with flip_goroutine inv(3) show ?thesis by (auto simp: answered_def)
  next
    case (user_flip p us c)
    with inv(3) show ?thesis by (auto simp: answered_def Flip_def Let_def split: if_splits)
  next
    case (user_event e r c)
    with conn_call_calm [OF event_conn_call conn user_event(3)] inv(3) show ?thesis
      by (simp add: answered_def calm_def)
  next
    case (user_render ini close r c)
    with Render_calm [OF user_render(3)] inv(3) show ?thesis by (simp add: answered_def calm_def)
  next
    case (user_set_renderer b r c)
    with SetRenderer_calm [OF user_set_renderer(3)] inv(3) show ?thesis by (simp add: answered_def calm_def)
  next
    case (user_close c)
    with Close_calm [OF user_close(3)] inv(3) show ?thesis by (simp add: answered_def calm_def)
  next
    case take_error
    with take_error_calm [of "sess s"] inv(3) show ?thesis by (simp add: answered_def calm_def)
  next
    case (user_subscribe subs)
    with SetSubscription_calm [of "sess s" subs] inv(3) show ?thesis by (simp add: answered_def calm_def)
  qed (use inv(3) in \<open>auto simp: answered_def\<close>)
qed

lemma answered_run:
  assumes "sys_run s0 as s" and "sys_inv w h pic s0" and "live (sess s0)" and "answered s0"
    and "list_all (list_all (good_rect w h)) (received s)" and "UserSubscribe (Some []) \<notin> set as"
  shows "live (sess s) \<and> answered s"
  using assms
proof (induction rule: sys_run.induct)
  case (run_snoc as t a u)
  then have good: "list_all (list_all (good_rect w h)) (received t)"
    using sys_step_received [of t a u] by auto
  with run_snoc have "live (sess t)" "answered t" by auto
  moreover have "delivered w h pic t"
    using sys_inv_run [OF run_snoc.hyps(1) run_snoc.prems(1) good] by (simp add: sys_inv_def)
  ultimately show ?case
    using live_step [OF run_snoc.hyps(2)] answered_step [OF run_snoc.hyps(2)] run_snoc.prems(4,5) by auto
qed simp

lemma connect_setup_live:
  assumes "connect_setup conn (NewVNCSession cfg) = (Ok (), c)" and "wres conn = []"
    and "cfgSubscription cfg \<noteq> Some []"
  shows "live c"
proof -
  have sub: "cfgSubscription (config (NewVNCSession cfg)) = cfgSubscription cfg"
    by (simp add: NewVNCSession_def clamp_config_def)
  show ?thesis
  proof (cases "base_encoding (cfgEncoding (clamp_config cfg))")
    case (Ok enc)
    then have "connect_setup conn (NewVNCSession cfg) = (Ok (), (new_screens conn (NewVNCSession cfg))
        \<lparr>sconn := Some (conn_after_setup (clamp_config cfg) enc conn)\<rparr>)"
      using connect_setup_run [of conn "NewVNCSession cfg" enc] assms(2) by (simp add: NewVNCSession_def)
    with assms sub show ?thesis
      by (auto simp: live_def writes_ok_def new_screens_def conn_after_setup_def)
  next
    case (Err e)
    with connect_setup_body [OF assms(1)] show ?thesis
      unfolding connect_body_def
      by (auto elim!: bindM_OkE dest!: on_local_OkD
          simp: modifyS_def getS_def lift_def new_screens_def NewVNCSession_def)
  qed (simp_all add: base_encoding_def split: if_splits)
qed

lemma resume_run:
  assumes inv: "sys_inv w h pic s" and "live (sess s)" and paused: "pauseUpdates (sess s)"
  shows "\<exists>as t. set as \<subseteq> {UserFlip, FlipGoroutine} \<and> sys_run s as t \<and> requested t \<and> \<not> pauseUpdates (sess t)"
proof -
  have fire: "\<exists>t. sys_step r FlipGoroutine t \<and> requested t \<and> \<not> pauseUpdates (sess t)"
    if r: "session_ready w h (sess r)" "live (sess r)" "pauseUpdates (sess r)" "0 < flips (sess r)" for r
  proof -
    from flip_goroutine_syncs [OF r(1)] obtain c where "flip_goroutine (sess r) = (Ok (), c)" "\<not> pauseUpdates c"
      by blast
    with flip_goroutine_asks [OF r(1-3)] r(4) show ?thesis
      by (auto intro!: exI [of _ "r\<lparr>sess := c, requested := requested r \<or> asks (sess r) c\<rparr>"] sys_step.flip_goroutine)
  qed
  have ready: "session_ready w h (sess s)" using inv by (simp add: sys_inv_def delivered_def consistent_ready)
  show ?thesis
  proof (cases "0 < flips (sess s)")
    case True
    from fire [OF ready assms(2) paused True] obtain t where
      "sys_step s FlipGoroutine t" "requested t" "\<not> pauseUpdates (sess t)" by blast
    with run_snoc [OF run_nil] show ?thesis by (intro exI [of _ "[FlipGoroutine]"]) auto
  next
    case False
    with inv paused have fresh: "backUpdated (sess s)" by (auto simp: sys_inv_def scheduled_def)
    from Flip_swaps [OF ready fresh] obtain c where c: "Flip (sess s) = (Ok (frontScreen c, deferredUpdates (sess s)), c)"
      "session_ready w h c" by blast
    let ?r = "s\<lparr>sess := c, seen := seen s @ deferredUpdates (sess s)\<rparr>"
    have flip: "sys_step s UserFlip ?r" using c(1) by (rule sys_step.user_flip)
    have "live c" "pauseUpdates c" "0 < flips c"
      using c(1) assms(2) paused fresh by (auto simp: Flip_def Let_def live_def writes_ok_def)
    with fire [of ?r] c(2) obtain t where
      "sys_step ?r FlipGoroutine t" "requested t" "\<not> pauseUpdates (sess t)" by auto
    with run_snoc [OF run_snoc [OF run_nil flip]] show ?thesis
      by (intro exI [of _ "[UserFlip, FlipGoroutine]"]) auto
  qed
qed



text \<open>(C14) The window shows what the user sees: once a renderer is active, the picture it was started with
  and the updates it has been given since make up exactly the front screen, after every step.\<close>

theorem renderer_shows_front:
  assumes "session_run conn cfg as s"
    and "list_all (list_all (good_rect (FramebufferWidth conn) (FramebufferHeight conn))) (received s)"
    and "rendererActive (sess s)"
  shows "rendered (FramebufferWidth conn) (FramebufferHeight conn) (sess s) = Some (front_data (sess s))"
  using session_run_inv [OF assms(1) refl refl assms(2)] assms(3) by (simp add: sys_inv_def rendering_def)

section \<open>The screen a flip hands out\<close>

definition same_front :: "session \<Rightarrow> session \<Rightarrow> bool" where
  "same_front c c' \<longleftrightarrow> frontScreen c' = frontScreen c"

interpretation fronting: frame same_front
  by unfold_locales (simp_all add: same_front_def)

lemma front_apply_to_back: "keeps same_front (apply_to_back r)"
  by (auto simp: keeps_def apply_to_back_def same_front_def Let_def split: option.split outcome.split)

lemma front_applyDeferred: "keeps same_front applyDeferred"
  unfolding applyDeferred_def applyUpdate_def
  by (intro fronting.keeps_prog fronting.keeps_forM keeps_drop_error front_apply_to_back)
    (simp_all add: same_front_def)

lemma front_maintain_update: "keeps same_front (maintain_update u)"
  unfolding maintain_update_def applyUpdate_def
  by (intro fronting.keeps_prog fronting.keeps_forM front_applyDeferred front_apply_to_back)
    (simp_all add: same_front_def Let_def)

lemma front_flip_goroutine: "session_ready w h c \<Longrightarrow> flip_goroutine c = (r, c') \<Longrightarrow> same_front c c'"
proof -
  assume ready: "session_ready w h c" and run: "flip_goroutine c = (r, c')"
  let ?c = "c\<lparr>flips := flips c - 1\<rparr>"
  have "same_view c ?c" by (simp add: same_view_def same_size_def option.rel_refl)
  with ready have "session_ready w h ?c" using same_viewD(5) by blast
  from applyDeferred_syncs [OF this] obtain c1 where c1: "applyDeferred ?c = (Ok (), c1)"
    "session_ready w h c1" by blast
  from resume_updates_ready [OF c1(2)] obtain c2 where
    c2: "resume_updates c1 = (Ok (), c2)" "same_view c1 c2" by blast
  have "c' = c2" using run c1(1) c2(1) by (simp add: flip_goroutine_def bindM_def modifyS_def)
  moreover have "frontScreen c1 = frontScreen c"
    using keepsD [OF front_applyDeferred c1(1)] by (simp add: same_front_def)
  ultimately show ?thesis using c2(2) by (simp add: same_front_def same_view_def)
qed

lemma front_step:
  assumes step: "sys_step s a t" and inv: "delivered w h pic s"
    and good_all: "list_all (list_all (good_rect w h)) (received t)" and "a \<noteq> UserFlip"
  shows "frontScreen (sess t) = frontScreen (sess s) \<and> front_data (sess t) = front_data (sess s)"
proof -
  have ready: "session_ready w h (sess s)" using inv by (simp add: delivered_def consistent_ready)
  obtain conn where conn: "sconn (sess s) = Some conn" using delivered_conn [OF inv] by blast
  have "seen t = seen s" using step assms(4) by cases auto
  with delivered_step [OF step inv good_all] inv have "front_data (sess t) = front_data (sess s)"
    by (simp add: delivered_def)
  moreover have "frontScreen (sess t) = frontScreen (sess s)"
  proof (cases "a \<in> {Maintain, FlipGoroutine}")
    case False
    with sys_step_calm [OF step conn] assms(4) show ?thesis by (simp add: calm_def same_view_def)
  next
    case True
    from step show ?thesis
    proof cases
      case (maintain u us c)
      with keepsD [OF front_maintain_update maintain(5)] show ?thesis by (simp add: same_front_def)
    next
      case (maintain_fails u us e c)
      with keepsD [OF front_maintain_update maintain_fails(5)] show ?thesis
        by (simp add: same_front_def report_def)
    next
      case (flip_goroutine c)
      with front_flip_goroutine [OF ready flip_goroutine(4)] show ?thesis by (simp add: same_front_def)
    qed (use True in auto)
  qed
  ultimately show ?thesis by blast
qed

lemma front_run:
  assumes "sys_run s0 bs t" and "sys_inv w h pic s0" and "list_all (list_all (good_rect w h)) (received t)"
    and "UserFlip \<notin> set bs"
  shows "frontScreen (sess t) = frontScreen (sess s0) \<and> front_data (sess t) = front_data (sess s0)"
  using assms
proof (induction rule: sys_run.induct)
  case (run_snoc bs t a u)
  then have good: "list_all (list_all (good_rect w h)) (received t)"
    using sys_step_received [of t a u] by auto
  then have "delivered w h pic t"
    using sys_inv_run [OF run_snoc.hyps(1) run_snoc.prems(1)] by (simp add: sys_inv_def)
  with run_snoc good show ?case using front_step [OF run_snoc.hyps(2)] by auto
qed simp

lemma sys_run_received: "sys_run s as t \<Longrightarrow> \<exists>us. received t = received s @ us"
  by (induction rule: sys_run.induct) (auto dest: sys_step_received)

text \<open>(C13) The screen a flip hands out belongs to the user until the next flip: whatever the other goroutines do
  meanwhile, drawing included, the pointer still stands for the front screen and its pixels are the
  same. (The next flip makes it the back screen, which is then drawn on.)\<close>

theorem flipped_screen_stable:
  assumes "session_run conn cfg as s" and "sys_run s bs t" and "UserFlip \<notin> set bs"
    and "list_all (list_all (good_rect (FramebufferWidth conn) (FramebufferHeight conn))) (received t)"
    and "frontScreen (sess s) = Some p"
  shows "frontScreen (sess t) = Some p \<and> sData (screens (sess t) ! p) = sData (screens (sess s) ! p)"
proof -
  have "list_all (list_all (good_rect (FramebufferWidth conn) (FramebufferHeight conn))) (received s)"
    using sys_run_received [OF assms(2)] assms(4) by auto
  from session_run_inv [OF assms(1) refl refl this] front_run [OF assms(2) _ assms(4,3)] assms(5)
  show ?thesis by (fastforce simp: front_data_def)
qed

section \<open>A concrete run\<close>

definition demo_update :: update where
  "demo_update = [\<lparr>rX = 0, rY = 1, rWidth = 2, rHeight = 1, Enc = RawData [rgb 1 2 3, rgb 4 5 6]\<rparr>]"

lemma demo_update_good:
  "list_all (good_rect (FramebufferWidth demo_client) (FramebufferHeight demo_client)) demo_update"
  by (simp add: demo_update_def good_rect_def inside_def demo_client_def Area_def)

lemma demo_run:
  "\<exists>s p. session_run demo_client demo_config [Receive demo_update, Maintain, UserFlip] s \<and>
    received s = [demo_update] \<and> seen s = [demo_update] \<and> chan s = [] \<and> frontScreen (sess s) = Some p \<and>
    session_ready (FramebufferWidth demo_client) (FramebufferHeight demo_client) (sess s)"
proof -
  let ?w = "FramebufferWidth demo_client" and ?h = "FramebufferHeight demo_client"
  have "wres demo_client = []"
    "base_encoding (cfgEncoding (config (NewVNCSession demo_config))) = Ok TightEncoding"
    "\<not> closed (NewVNCSession demo_config)"
    by (simp_all add: demo_client_def NewVNCSession_def clamp_config_def demo_config_def base_encoding_def)
  from connect_setup_run [OF this] obtain c where c: "connect_setup demo_client (NewVNCSession demo_config) = (Ok (), c)"
    by blast
  from connect_setup_just_connected [OF c]
  have c0: "session_ready ?w ?h c" "backUpdated c" "deferredUpdates c = []"
    by (simp_all add: just_connected_def)
  let ?s1 = "(sys_start c)\<lparr>chan := [demo_update], again := True, received := [demo_update], requested := False\<rparr>"
  have 1: "sys_step (sys_start c) (Receive demo_update) ?s1"
    using sys_step.receive [of "sys_start c" demo_update] by (simp add: sys_start_def)
  from maintain_update_pushes [OF c0(1) demo_update_good] c0 obtain c1 where
    c1: "maintain_update demo_update c = (Ok (), c1)" "session_ready ?w ?h c1" "backUpdated c1"
      "deferredUpdates c1 = [demo_update]"
    by auto
  let ?s2 = "?s1\<lparr>sess := c1, chan := []\<rparr>"
  have 2: "sys_step ?s1 Maintain ?s2"
    using c1(1) by (intro sys_step.maintain) (simp_all add: sys_start_def)
  from Flip_swaps [OF c1(2,3)] c1(4) obtain c2 where
    c2: "Flip c1 = (Ok (frontScreen c2, [demo_update]), c2)" "session_ready ?w ?h c2" by auto
  have 3: "sys_step ?s2 UserFlip (?s2\<lparr>sess := c2, seen := seen ?s2 @ [demo_update]\<rparr>)"
    using c2(1) by (intro sys_step.user_flip [of _ "frontScreen c2"]) simp
  from c2(2) obtain f where f: "frontScreen c2 = Some f"
    by (auto simp: session_ready_def elim: screens_okE)
  let ?s3 = "?s2\<lparr>sess := c2, seen := seen ?s2 @ [demo_update]\<rparr>"
  have "sys_run (sys_start c) [Receive demo_update, Maintain, UserFlip] ?s3"
    using run_snoc [OF run_snoc [OF run_snoc [OF run_nil 1] 2] 3] by simp
  with c have "session_run demo_client demo_config [Receive demo_update, Maintain, UserFlip] ?s3"
    unfolding session_run_def by blast
  with f c2(2) show ?thesis
    by (intro exI [of _ ?s3] exI [of _ f]) (simp add: sys_start_def)
qed

lemma demo_picture:
  "fold (draw_update (FramebufferWidth demo_client) (FramebufferHeight demo_client)) [demo_update]
     (replicate (unat (FramebufferHeight demo_client) * unat (FramebufferWidth demo_client)) zero_color) =
   [zero_color, zero_color, rgb 1 2 3, rgb 4 5 6]"
  by (simp add: draw_update_def draw_rect_def demo_update_def demo_client_def draw_def grid_def upt_rec)

lemma demo_received:
  "received s = [demo_update] \<Longrightarrow>
    list_all (list_all (good_rect (FramebufferWidth demo_client) (FramebufferHeight demo_client))) (received s)"
  using demo_update_good by simp

theorem updates_delivered_once_witness:
  "\<exists>s. session_run demo_client demo_config [Receive demo_update, Maintain, UserFlip] s \<and>
    seen s = [demo_update] \<and> unseen_updates (sess s) = [] \<and>
    front_data (sess s) = [zero_color, zero_color, rgb 1 2 3, rgb 4 5 6]"
proof -
  from demo_run obtain s where s: "session_run demo_client demo_config [Receive demo_update, Maintain, UserFlip] s"
    "received s = [demo_update]" "seen s = [demo_update]" "chan s = []" by blast
  from updates_delivered_once [OF s(1) demo_received [OF s(2)]] s demo_picture show ?thesis
    by (intro exI [of _ s]) simp
qed




theorem flipped_screen_stable_witness:
  "\<exists>s t p. session_run demo_client demo_config [Receive demo_update, Maintain, UserFlip] s \<and>
    sys_run s [UserSubscribe None] t \<and> frontScreen (sess t) = Some p \<and>
    sData (screens (sess t) ! p) = sData (screens (sess s) ! p)"
proof -
  from demo_run obtain s p where s: "session_run demo_client demo_config [Receive demo_update, Maintain, UserFlip] s"
    "received s = [demo_update]" "frontScreen (sess s) = Some p" by blast
  from run_snoc [OF run_nil sys_step.user_subscribe]
  have run: "sys_run s [UserSubscribe None] (s\<lparr>sess := SetSubscription None (sess s)\<rparr>)" by simp
  from flipped_screen_stable [OF s(1) run _ _ s(3)] s(1,2) run demo_received [of s] show ?thesis
    by (intro exI [of _ s] exI [of _ "s\<lparr>sess := SetSubscription None (sess s)\<rparr>"] exI [of _ p]) simp
qed

theorem renderer_shows_front_witness:
  "\<exists>s. session_run demo_client demo_config [UserSetRenderer True, UserRender None False] s \<and>
    rendered (FramebufferWidth demo_client) (FramebufferHeight demo_client) (sess s) = Some (front_data (sess s))"
proof -
  let ?w = "FramebufferWidth demo_client" and ?h = "FramebufferHeight demo_client"
  have "wres demo_client = []"
    "base_encoding (cfgEncoding (config (NewVNCSession demo_config))) = Ok TightEncoding"
    "\<not> closed (NewVNCSession demo_config)"
    by (simp_all add: demo_client_def NewVNCSession_def clamp_config_def demo_config_def base_encoding_def)
  from connect_setup_run [OF this] obtain c where c: "connect_setup demo_client (NewVNCSession demo_config) = (Ok (), c)"
    by blast
  from connect_setup_just_connected [OF c]
  have c0: "session_ready ?w ?h c" "\<not> rendererActive c" "\<not> closed c"
    by (simp_all add: just_connected_def)
  then obtain conn f where conn: "sconn c = Some conn" "frontScreen c = Some f"
    by (auto simp: session_ready_def elim: screens_okE)
  let ?c1 = "c\<lparr>hasRenderer := True\<rparr>"
  have 1: "sys_step (sys_start c) (UserSetRenderer True) ((sys_start c)\<lparr>sess := ?c1\<rparr>)"
    using c0(2) by (intro sys_step.user_set_renderer [of _ _ "Ok ()"])
      (simp add: sys_start_def SetRenderer_def method_simps)
  obtain c2 where c2: "Render None False ?c1 = (Ok (), c2)" "rendererActive c2"
    using c0 conn by (simp add: Render_def Render_init_def method_simps)
  have 2: "sys_step ((sys_start c)\<lparr>sess := ?c1\<rparr>) (UserRender None False) ((sys_start c)\<lparr>sess := ?c1, sess := c2\<rparr>)"
    using c2(1) sys_step.user_render [of None False "(sys_start c)\<lparr>sess := ?c1\<rparr>" "Ok ()" c2]
    by (simp add: sys_start_def)
  let ?s = "(sys_start c)\<lparr>sess := c2\<rparr>"
  have "sys_run (sys_start c) [UserSetRenderer True, UserRender None False] ?s"
    using run_snoc [OF run_snoc [OF run_nil 1] 2] by simp
  with c have run: "session_run demo_client demo_config [UserSetRenderer True, UserRender None False] ?s"
    unfolding session_run_def by blast
  from renderer_shows_front [OF run] c2(2) run show ?thesis
    by (intro exI [of _ ?s]) (simp add: sys_start_def)
qed

end
