(* ===== verification/Batch.thy ===== *)
theory Batch
  imports Connect "HOL-Library.Multiset"
begin

text \<open>
  \<open>VNCBatch\<close> of \<^verbatim>\<open>gymvnc/gymvnc.go\<close>: sessions by name. \<open>dropped\<close> holds the sessions that are no longer in
  the map, so that what becomes of them can be stated.
\<close>

record batch =
  sessions :: "string \<rightharpoonup> session"
  dropped :: "session list"

definition NewVNCBatch :: batch where
  "NewVNCBatch = \<lparr>sessions = Map.empty, dropped = []\<rparr>"

text \<open>Closing a session whose result is not looked at; a panic goes through.\<close>

definition close_dropped :: "string \<Rightarrow> (batch, unit) prog" where
  "close_dropped name v =
     (case sessions v name of
        None \<Rightarrow> (Ok (), v)
      | Some s \<Rightarrow>
          (case session_Close s of
             (Panic p, s') \<Rightarrow> (Panic p, v)
           | (Diverge, s') \<Rightarrow> (Diverge, v)
           | (_, s') \<Rightarrow> (Ok (), v\<lparr>sessions := (sessions v)(name := None), dropped := s' # dropped v\<rparr>)))"

definition batch_Close :: "string \<Rightarrow> (batch, unit) prog" where
  "batch_Close name = close_dropped name"

definition batch_Open :: "string \<Rightarrow> vnc_config \<Rightarrow> (batch, unit) prog" where
  "batch_Open name cfg =
     bindM (close_dropped name) (\<lambda>_.
     modifyS (\<lambda>v. v\<lparr>sessions := (sessions v)(name \<mapsto> NewVNCSession cfg)\<rparr>))"

text \<open>
  A method called on the session of a name. Without such a session the receiver is nil, and taking its
  lock panics.
\<close>

definition on_session :: "string \<Rightarrow> (session, 'a) prog \<Rightarrow> (batch, 'a outcome) prog" where
  "on_session name m v =
     (case sessions v name of
        None \<Rightarrow> (Panic NilDereference, v)
      | Some s \<Rightarrow>
          (case m s of
             (Panic p, s') \<Rightarrow> (Panic p, v)
           | (Diverge, s') \<Rightarrow> (Diverge, v)
           | (r, s') \<Rightarrow> (Ok r, v\<lparr>sessions := (sessions v)(name \<mapsto> s')\<rparr>)))"

text \<open>
  \<open>range\<close> over the map of actions takes its entries in any order: the list is that order.
\<close>

type_synonym step_result = "(nat option \<times> update list) option outcome"

fun batch_Step :: "(string \<times> vnc_event list) list \<Rightarrow> (batch, (string \<times> step_result) list) prog" where
  "batch_Step [] = ret []"
| "batch_Step ((name, events) # actions) =
     bindM (on_session name (Step events)) (\<lambda>r.
     bindM (batch_Step actions) (\<lambda>rs. ret ((name, r) # rs)))"

text \<open>The methods that look the name up first return an error when it is not there.\<close>

definition for_session :: "string \<Rightarrow> (session, unit) prog \<Rightarrow> (batch, unit) prog" where
  "for_session name m v =
     (case sessions v name of
        None \<Rightarrow> (Err (Errorf ''no such session''), v)
      | Some s \<Rightarrow> (case m s of (r, s') \<Rightarrow> (r, v\<lparr>sessions := (sessions v)(name \<mapsto> s')\<rparr>)))"

definition batch_SetSubscription :: "string \<Rightarrow> rect list option \<Rightarrow> (batch, unit) prog" where
  "batch_SetSubscription name subs = for_session name (modifyS (SetSubscription subs))"

definition batch_SetRenderer :: "string \<Rightarrow> bool \<Rightarrow> (batch, unit) prog" where
  "batch_SetRenderer name renderer = for_session name (SetRenderer renderer)"

definition batch_Render :: "string \<Rightarrow> goerr option \<Rightarrow> bool \<Rightarrow> (batch, unit) prog" where
  "batch_Render name ini close = for_session name (Render ini close)"

fun batch_Flip :: "string list \<Rightarrow> (batch, (nat option \<times> update list) list) prog" where
  "batch_Flip [] = ret []"
| "batch_Flip (name # names) =
     bindM (on_session name Flip) (\<lambda>r. bindM (lift r) (\<lambda>x.
     bindM (batch_Flip names) (\<lambda>xs. ret (x # xs))))"

definition Peek :: "string list \<Rightarrow> batch \<Rightarrow> nat option list" where
  "Peek names v = map (\<lambda>n. case sessions v n of Some s \<Rightarrow> frontScreen s | None \<Rightarrow> None) names"

definition PeekBack :: "string list \<Rightarrow> batch \<Rightarrow> nat option list" where
  "PeekBack names v = map (\<lambda>n. case sessions v n of Some s \<Rightarrow> backScreen s | None \<Rightarrow> None) names"

section \<open>Stepping in any order\<close>

definition no_panic :: "'a outcome \<Rightarrow> bool" where
  "no_panic r \<longleftrightarrow> (\<forall>p. r \<noteq> Panic p) \<and> r \<noteq> Diverge"

lemma on_session_run:
  "sessions v name = Some s \<Longrightarrow> no_panic (fst (m s)) \<Longrightarrow>
    on_session name m v = (Ok (fst (m s)), v\<lparr>sessions := (sessions v)(name \<mapsto> snd (m s))\<rparr>)"
  by (cases "m s"; cases "fst (m s)") (auto simp: on_session_def no_panic_def)

definition can_step :: "batch \<Rightarrow> string \<times> vnc_event list \<Rightarrow> bool" where
  "can_step v a \<longleftrightarrow> (\<exists>s. sessions v (fst a) = Some s \<and> no_panic (fst (Step (snd a) s)))"

definition step_results :: "batch \<Rightarrow> string \<times> vnc_event list \<Rightarrow> string \<times> step_result" where
  "step_results v a = (fst a, fst (Step (snd a) (the (sessions v (fst a)))))"

definition stepped :: "batch \<Rightarrow> (string \<rightharpoonup> vnc_event list) \<Rightarrow> string \<rightharpoonup> session" where
  "stepped v acts name =
     (case acts name of
        None \<Rightarrow> sessions v name
      | Some events \<Rightarrow> map_option (\<lambda>s. snd (Step events s)) (sessions v name))"

lemma batch_Step_run:
  assumes "list_all (can_step v) acts" and "distinct (map fst acts)"
  shows "batch_Step acts v =
    (Ok (map (step_results v) acts), v\<lparr>sessions := stepped v (map_of acts)\<rparr>)"
  using assms
proof (induction acts arbitrary: v)
  case Nil
  then show ?case by (cases v) (simp add: ret_def stepped_def)
next
  case (Cons a acts)
  obtain name events where a: "a = (name, events)" by (cases a)
  with Cons.prems obtain s where s: "sessions v name = Some s" "no_panic (fst (Step events s))"
    by (auto simp: can_step_def)
  let ?v = "v\<lparr>sessions := (sessions v)(name \<mapsto> snd (Step events s))\<rparr>"
  have other: "fst b \<noteq> name" if "b \<in> set acts" for b
    using Cons.prems(2) that a by (auto simp: image_iff)
  then have same: "can_step ?v b = can_step v b" "step_results ?v b = step_results v b"
    if "b \<in> set acts" for b
    using that by (auto simp: can_step_def step_results_def)
  have "list_all (can_step ?v) acts" using Cons.prems(1) same(1) by (simp add: list_all_iff)
  with Cons have IH: "batch_Step acts ?v =
      (Ok (map (step_results ?v) acts), ?v\<lparr>sessions := stepped ?v (map_of acts)\<rparr>)" by simp
  have "map_of acts name = None" using other by (force simp: map_of_eq_None_iff)
  then have "stepped ?v (map_of acts) = stepped v (map_of (a # acts))"
    by (intro ext) (auto simp: stepped_def a s(1) split: option.split)
  with IH same(2) show ?case
    using on_session_run [where m = "Step events", OF s]
    by (simp add: a bindM_def ret_def step_results_def s(1) fun_upd_def)
qed

lemma Step_order_free:
  assumes "list_all (can_step v) acts" and "distinct (map fst acts)" and "mset acts' = mset acts"
  shows "\<exists>rs rs' v'. batch_Step acts v = (Ok rs, v') \<and> batch_Step acts' v = (Ok rs', v') \<and> mset rs' = mset rs"
proof -
  have "set acts' = set acts" using assms(3) by (metis set_mset_mset)
  with assms(1) have ok: "list_all (can_step v) acts'" by (simp add: list_all_iff)
  have "mset (map fst acts') = mset (map fst acts)" using assms(3) by simp
  with assms(2) have d: "distinct (map fst acts')" by (metis mset_eq_imp_distinct_iff)
  have "map_of acts' = map_of acts"
    using assms(2) d \<open>set acts' = set acts\<close> by (metis map_of_inject_set)
  then show ?thesis
    using batch_Step_run [OF assms(1,2)] batch_Step_run [OF ok d] assms(3) by simp
qed

text \<open>(C25) A step of the batch does not depend on the order in which Go walks the map of actions: for
  sessions that exist and do not panic, every order gives the same results by name and leaves the
  same sessions behind.\<close>

theorem batch_step_order_free:
  assumes "list_all (can_step v) acts" and "distinct (map fst acts)" and "mset acts' = mset acts"
  shows "\<exists>rs rs' v'. batch_Step acts v = (Ok rs, v') \<and> batch_Step acts' v = (Ok rs', v') \<and> mset rs' = mset rs"
  by (rule Step_order_free [OF assms])

definition demo_batch :: batch where
  "demo_batch = snd (batch_Open ''b'' demo_config (snd (batch_Open ''a'' demo_config NewVNCBatch)))"

lemma demo_batch_sessions:
  "sessions demo_batch = [''a'' \<mapsto> NewVNCSession demo_config, ''b'' \<mapsto> NewVNCSession demo_config]"
  by (simp add: demo_batch_def batch_Open_def close_dropped_def NewVNCBatch_def bindM_def modifyS_def)

theorem batch_step_order_free_witness:
  "\<exists>rs rs' v'. batch_Step [(''a'', []), (''b'', [KeyEvent 97 True])] demo_batch = (Ok rs, v') \<and>
    batch_Step [(''b'', [KeyEvent 97 True]), (''a'', [])] demo_batch = (Ok rs', v') \<and> mset rs' = mset rs"
proof (rule batch_step_order_free)
  show "list_all (can_step demo_batch) [(''a'', []), (''b'', [KeyEvent 97 True])]"
    by (simp add: can_step_def demo_batch_sessions Step_def bindM_def getS_def ret_def NewVNCSession_def no_panic_def)
qed simp_all

text \<open>Stepping a name that has no session is not an error but a nil dereference, although every other
  method of the batch returns an error for it (closing does nothing).\<close>

lemma batch_unknown_name:
  assumes "sessions v name = None"
  shows "batch_Step [(name, events)] v = (Panic NilDereference, v) \<and>
    batch_SetSubscription name subs v = (Err (Errorf ''no such session''), v) \<and>
    batch_SetRenderer name b v = (Err (Errorf ''no such session''), v) \<and>
    batch_Render name ini cl v = (Err (Errorf ''no such session''), v) \<and>
    batch_Close name v = (Ok (), v)"
  using assms
  by (simp add: bindM_def on_session_def batch_SetSubscription_def batch_SetRenderer_def batch_Render_def
      for_session_def batch_Close_def close_dropped_def)

lemma batch_unknown_name_witness:
  "batch_Step [(''c'', [])] demo_batch = (Panic NilDereference, demo_batch)"
  using batch_unknown_name [of demo_batch "''c''" "[]"] by (simp add: demo_batch_sessions)

end
