(* ===== verification/BitIO.thy ===== *)
theory BitIO
  imports Wire
begin

text \<open>
  Bits of numbers and bytes, shared by the password encryption and the inflator: turning a number of bits
  around, the table \<open>reverseByte\<close> of \<^verbatim>\<open>flexflate/reverse_bits.go\<close>, and a byte stream read as a stream of bits,
  the lowest bit of a byte first.
\<close>

section \<open>Turning bits around\<close>

definition revbits :: "nat \<Rightarrow> nat \<Rightarrow> nat" where
  "revbits n x = horner_sum of_bool 2 (rev (map (bit x) [0..<n]))"

lemma bit_revbits: "bit (revbits n x) i \<longleftrightarrow> i < n \<and> bit x (n - 1 - i)"
  by (auto simp: revbits_def bit_horner_sum_bit_iff rev_nth)

lemma revbits_less: "revbits n x < 2 ^ n"
  using horner_sum_of_bool_2_less [of "rev (map (bit x) [0..<n])"] by (simp add: revbits_def)

lemma nat_bit_less: "(x :: nat) < 2 ^ n \<Longrightarrow> bit x i \<Longrightarrow> i < n"
  by (metis bit_take_bit_iff take_bit_nat_eq_self_iff)

lemma revbits_revbits: "x < 2 ^ n \<Longrightarrow> revbits n (revbits n x) = x"
  by (rule bit_eqI) (auto simp: bit_revbits dest: nat_bit_less)

lemma revbits_div: "m \<le> n \<Longrightarrow> x < 2 ^ m \<Longrightarrow> revbits n x div 2 ^ (n - m) = revbits m x"
  by (rule bit_eqI) (auto simp: bit_revbits simp flip: drop_bit_eq_div simp: bit_drop_bit_eq dest: nat_bit_less)

definition reverseByte :: "nat list" where
  "reverseByte = [
     0, 128, 64, 192, 32, 160, 96, 224, 16, 144, 80, 208, 48, 176, 112, 240,
     8, 136, 72, 200, 40, 168, 104, 232, 24, 152, 88, 216, 56, 184, 120, 248,
     4, 132, 68, 196, 36, 164, 100, 228, 20, 148, 84, 212, 52, 180, 116, 244,
     12, 140, 76, 204, 44, 172, 108, 236, 28, 156, 92, 220, 60, 188, 124, 252,
     2, 130, 66, 194, 34, 162, 98, 226, 18, 146, 82, 210, 50, 178, 114, 242,
     10, 138, 74, 202, 42, 170, 106, 234, 26, 154, 90, 218, 58, 186, 122, 250,
     6, 134, 70, 198, 38, 166, 102, 230, 22, 150, 86, 214, 54, 182, 118, 246,
     14, 142, 78, 206, 46, 174, 110, 238, 30, 158, 94, 222, 62, 190, 126, 254,
     1, 129, 65, 193, 33, 161, 97, 225, 17, 145, 81, 209, 49, 177, 113, 241,
     9, 137, 73, 201, 41, 169, 105, 233, 25, 153, 89, 217, 57, 185, 121, 249,
     5, 133, 69, 197, 37, 165, 101, 229, 21, 149, 85, 213, 53, 181, 117, 245,
     13, 141, 77, 205, 45, 173, 109, 237, 29, 157, 93, 221, 61, 189, 125, 253,
     3, 131, 67, 195, 35, 163, 99, 227, 19, 147, 83, 211, 51, 179, 115, 243,
     11, 139, 75, 203, 43, 171, 107, 235, 27, 155, 91, 219, 59, 187, 123, 251,
     7, 135, 71, 199, 39, 167, 103, 231, 23, 151, 87, 215, 55, 183, 119, 247,
     15, 143, 79, 207, 47, 175, 111, 239, 31, 159, 95, 223, 63, 191, 127, 255]"

lemma revbits8_arith:
  "revbits 8 n = 128 * (n mod 2) + 64 * (n div 2 mod 2) + 32 * (n div 4 mod 2) + 16 * (n div 8 mod 2) +
     8 * (n div 16 mod 2) + 4 * (n div 32 mod 2) + 2 * (n div 64 mod 2) + n div 128 mod 2"
  by (simp add: revbits_def upt_rec bit_iff_odd mod_2_eq_odd)

lemma reverseByte_revbits: "map (revbits 8) [0..<256] = reverseByte"
proof -
  have "[0..<256] = [0, 1] @ [2..<256]" by (simp add: upt_conv_Cons numeral_2_eq_2)
  then show ?thesis unfolding reverseByte_def revbits8_arith by simp
qed

lemma reverseByte_nth: "n < 256 \<Longrightarrow> reverseByte ! n = revbits 8 n"
  unfolding reverseByte_revbits [symmetric] by simp

lemma length_reverseByte [simp]: "length reverseByte = 256"
  unfolding reverseByte_revbits [symmetric] by simp

end
