(* ===== verification/Handshake.thy ===== *)
theory Handshake
  imports Connect BitIO
begin

text \<open>
  The beginning of a connection: \<open>ParseProtocolVersion\<close>, the two security handshakes, \<open>handshake\<close> and
  \<open>Client\<close> of \<^verbatim>\<open>vncclient/client.go\<close>, and the authentication methods of \<^verbatim>\<open>vncclient/client_auth.go\<close>.
  The block cipher is an argument.
\<close>

section \<open>The version message\<close>

text \<open>
  \<open>fmt.Sscanf\<close> with the format \<^verbatim>\<open>RFB %d.%d\n\<close>, on the characters of the string: a letter of the format must
  be next in the input; the blank stands for one or more spaces on the line; \<^verbatim>\<open>%d\<close> skips spaces and takes
  the longest run of digits, whose value must fit an \<open>uint\<close>; the final line break must be next after
  spaces, or the input must be at its end.
\<close>

definition is_space :: "nat \<Rightarrow> bool" where
  "is_space r \<longleftrightarrow> r \<in> {9, 10, 11, 12, 13, 32, 0x85, 0xA0, 0x1680, 0x2028, 0x2029, 0x202F, 0x205F, 0x3000} \<or>
     0x2000 \<le> r \<and> r \<le> 0x200A"

definition skip_spaces :: "nat list \<Rightarrow> nat list" where
  "skip_spaces rs = dropWhile (\<lambda>r. is_space r \<and> r \<noteq> 10) rs"

definition is_digit :: "nat \<Rightarrow> bool" where
  "is_digit r \<longleftrightarrow> 48 \<le> r \<and> r \<le> 57"

definition digits_value :: "nat list \<Rightarrow> nat" where
  "digits_value ds = foldl (\<lambda>n d. 10 * n + (d - 48)) 0 ds"

definition scan_letter :: "nat \<Rightarrow> nat list \<Rightarrow> nat list option" where
  "scan_letter l rs = (case rs of r # rs' \<Rightarrow> if r = l then Some rs' else None | [] \<Rightarrow> None)"

definition scan_blank :: "nat list \<Rightarrow> nat list option" where
  "scan_blank rs =
     (case rs of [] \<Rightarrow> Some [] | r # _ \<Rightarrow> if is_space r \<and> r \<noteq> 10 then Some (skip_spaces rs) else None)"

definition scan_uint :: "nat list \<Rightarrow> (nat \<times> nat list) option" where
  "scan_uint rs =
     (let ds = takeWhile is_digit (skip_spaces rs); v = digits_value ds in
      if ds = [] \<or> 2 ^ 64 \<le> v then None else Some (v, dropWhile is_digit (skip_spaces rs)))"

definition scan_newline :: "nat list \<Rightarrow> bool" where
  "scan_newline rs \<longleftrightarrow> (case skip_spaces rs of [] \<Rightarrow> True | r # _ \<Rightarrow> r = 10)"

definition scan_numbers :: "nat list \<Rightarrow> (nat \<times> nat \<times> nat list) option" where
  "scan_numbers rs =
     Option.bind (scan_letter 82 rs) (\<lambda>rs. Option.bind (scan_letter 70 rs) (\<lambda>rs.
     Option.bind (scan_letter 66 rs) (\<lambda>rs. Option.bind (scan_blank rs) (\<lambda>rs.
     Option.bind (scan_uint rs) (\<lambda>(major, rs). Option.bind (scan_letter 46 rs) (\<lambda>rs.
     Option.bind (scan_uint rs) (\<lambda>(minor, rs). Some (major, minor, rs))))))))"

definition pvLen :: nat where
  "pvLen = 12"

definition ParseProtocolVersion :: "u8 list \<Rightarrow> (nat \<times> nat) outcome" where
  "ParseProtocolVersion pv =
     (if length pv < pvLen then Err (Errorf ''ProtocolVersion message too short'')
      else case scan_numbers (runes pv) of
        None \<Rightarrow> Err (Errorf ''error parsing ProtocolVersion'')
      | Some (major, minor, rs) \<Rightarrow>
          if scan_newline rs then Ok (major, minor)
          else Err (Errorf ''newline in format does not match input''))"

section \<open>Authentication\<close>

text \<open>\<open>des key block\<close> is the DES encryption of an eight-byte block.\<close>

datatype client_auth = ClientAuthNone | PasswordAuth "u8 list"

fun SecurityType :: "client_auth \<Rightarrow> u8" where
  "SecurityType ClientAuthNone = 1"
| "SecurityType (PasswordAuth pw) = 2"

definition reverse_table :: "nat list" where
  "reverse_table = [
     0, 128, 64, 192, 32, 160, 96, 224, 16, 144, 80, 208, 48, 176, 112, 240,
     8, 136, 72, 200, 40, 168, 104, 232, 24, 152, 88, 216, 56, 184, 120, 248,
     4, 132, 68, 196, 36, 164, 100, 228, 20, 148, 84, 212, 52, 180, 116, 244,
     12, 140, 76, 204, 44, 172, 108, 236, 28, 156, 92, 220, 60, 188, 124, 252,
     2, 130, 66, 194, 34, 162, 98, 226, 18, 146, 82, 210, 50, 178, 114, 242,
     10, 138, 74, 202, 42, 170, 106, 234, 26, 154, 90, 218, 58, 186, 122, 250,
     6, 134, 70, 198, 38, 166, 102, 230, 22, 150, 86, 214, 54, 182, 118, 246,
     14, 142, 78, 206, 46, 174, 110, 238, 30, 158, 94, 222, 62, 190, 126, 254,
     1, 129, 65, 193, 33, 161, 97, 225, 17, 145, 81, 209, 49, 177, 113, 241,
     9, 137, 73, 201, 41, 169, 105, 233, 25, 153, 89, 217, 57, 185, 121, 249,
     5, 133, 69, 197, 37, 165, 101, 229, 21, 149, 85, 213, 53, 181, 117, 245,
     13, 141, 77, 205, 45, 173, 109, 237, 29, 157, 93, 221, 61, 189, 125, 253,
     3, 131, 67, 195, 35, 163, 99, 227, 19, 147, 83, 211, 51, 179, 115, 243,
     11, 139, 75, 203, 43, 171, 107, 235, 27, 155, 91, 219, 59, 187, 123, 251,
     7, 135, 71, 199, 39, 167, 103, 231, 23, 151, 87, 215, 55, 183, 119, 247,
     15, 143, 79, 207, 47, 175, 111, 239, 31, 159, 95, 223, 63, 191, 127, 255]"

definition reverseBits :: "u8 \<Rightarrow> u8" where
  "reverseBits b = of_nat (reverse_table ! unat b)"

definition auth_encrypt :: "(u8 list \<Rightarrow> u8 list \<Rightarrow> u8 list) \<Rightarrow> u8 list \<Rightarrow> u8 list \<Rightarrow> u8 list" where
  "auth_encrypt des key bs =
     (let key' = map reverseBits (take 8 key);
          keyBytes = key' @ replicate (8 - length key') 0
      in des keyBytes (take 8 bs) @ des keyBytes (take 8 (drop 8 bs)))"

fun auth_Handshake :: "(u8 list \<Rightarrow> u8 list \<Rightarrow> u8 list) \<Rightarrow> client_auth \<Rightarrow> ('z conn_scheme, unit) prog" where
  "auth_Handshake des ClientAuthNone = ret ()"
| "auth_Handshake des (PasswordAuth pw) =
     bindM (read_full 16) (\<lambda>randomValue. write_conn (auth_encrypt des pw randomValue))"

section \<open>The handshake\<close>

record client_config =
  Auth :: "client_auth list option"
  Exclusive :: bool

definition client_auths :: "client_config \<Rightarrow> client_auth list" where
  "client_auths cfg = (case Auth cfg of None \<Rightarrow> [ClientAuthNone] | Some as \<Rightarrow> as)"

text \<open>The reason a server gives; its text only goes into the error message.\<close>

definition readErrorReason :: "('z reader_scheme, unit) prog" where
  "readErrorReason = drop_error (bindM read_u32 (\<lambda>n. bindM (read_full (unat n)) (\<lambda>_. ret ())))"

definition version_string :: "u8 \<Rightarrow> u8 list" where
  "version_string minor = [82, 70, 66, 32, 48, 48, 51, 46, 48, 48, 48 + minor, 10]"

definition securityHandshakeVersion8 ::
  "(u8 list \<Rightarrow> u8 list \<Rightarrow> u8 list) \<Rightarrow> client_config \<Rightarrow> ('z conn_scheme, unit) prog" where
  "securityHandshakeVersion8 des cfg =
     bindM (write_conn (version_string 8)) (\<lambda>_.
     bindM read_u8 (\<lambda>n.
     if n = 0 then bindM readErrorReason (\<lambda>_. fail (Errorf ''no security types''))
     else
       bindM (read_full (unat n)) (\<lambda>securityTypes.
       case List.find (\<lambda>a. SecurityType a \<in> set securityTypes) (client_auths cfg) of
         None \<Rightarrow> fail (Errorf ''no suitable auth schemes found'')
       | Some auth \<Rightarrow>
           bindM (write_conn [SecurityType auth]) (\<lambda>_. auth_Handshake des auth))))"

text \<open>The security type has 32 bits here and is compared in eight.\<close>

definition securityHandshakeVersion3 ::
  "(u8 list \<Rightarrow> u8 list \<Rightarrow> u8 list) \<Rightarrow> client_config \<Rightarrow> ('z conn_scheme, unit) prog" where
  "securityHandshakeVersion3 des cfg =
     bindM (write_conn (version_string 3)) (\<lambda>_.
     bindM read_u32 (\<lambda>securityType.
     case List.find (\<lambda>a. SecurityType a = ucast securityType) (client_auths cfg) of
       None \<Rightarrow>
         if securityType = 0 then fail (Errorf ''server returned an invalid security type'')
         else fail (Errorf ''did not support server-requested auth scheme'')
     | Some auth \<Rightarrow> auth_Handshake des auth))"

definition read_server_init :: "('z client_scheme, unit) prog" where
  "read_server_init =
     bindM read_u16 (\<lambda>w. bindM (modifyS (\<lambda>c. c\<lparr>FramebufferWidth := w\<rparr>)) (\<lambda>_.
     bindM read_u16 (\<lambda>h. bindM (modifyS (\<lambda>c. c\<lparr>FramebufferHeight := h\<rparr>)) (\<lambda>_.
     bindM getS (\<lambda>c.
     bindM (ReadPixelFormat (PixelFormat c)) (\<lambda>pf.
     bindM (modifyS (\<lambda>c. c\<lparr>PixelFormat := pf\<rparr>)) (\<lambda>_.
     bindM read_u32 (\<lambda>nameLength.
     bindM (read_full (unat nameLength)) (\<lambda>nm.
     modifyS (\<lambda>c. c\<lparr>DesktopName := nm\<rparr>))))))))))"

definition handshake_rest ::
  "(u8 list \<Rightarrow> u8 list \<Rightarrow> u8 list) \<Rightarrow> client_config \<Rightarrow> u8 list \<Rightarrow> ('z client_scheme, unit) prog" where
  "handshake_rest des cfg protocolVersion =
     bindM (lift (ParseProtocolVersion protocolVersion)) (\<lambda>(maxMajor, maxMinor).
     if maxMajor < 3 then fail (Errorf ''unsupported major version, less than 3'')
     else if maxMinor < 3 then fail (Errorf ''unsupported minor version, less than 3'')
     else
       bindM (if maxMinor = 8 then securityHandshakeVersion8 des cfg
              else securityHandshakeVersion3 des cfg) (\<lambda>_.
       bindM read_u32 (\<lambda>securityResult.
       if securityResult = 1
       then bindM readErrorReason (\<lambda>_. fail (Errorf ''security handshake failed''))
       else
         bindM (write_conn [bool_byte (\<not> Exclusive cfg)]) (\<lambda>_. read_server_init))))"

text \<open>\<open>handshake\<close> also says whether the error is soft: only the very first read gives a soft error.\<close>

definition handshake ::
  "(u8 list \<Rightarrow> u8 list \<Rightarrow> u8 list) \<Rightarrow> client_config \<Rightarrow> 'z client_scheme \<Rightarrow>
    (unit outcome \<times> bool) \<times> 'z client_scheme" where
  "handshake des cfg c =
     (case read_full pvLen c of
        (Ok pv, c') \<Rightarrow> (case handshake_rest des cfg pv c' of (r, c'') \<Rightarrow> ((r, False), c''))
      | (Err e, c') \<Rightarrow> ((Err e, True), c')
      | (Panic p, c') \<Rightarrow> ((Panic p, False), c')
      | (Diverge, c') \<Rightarrow> ((Diverge, False), c'))"

text \<open>\<open>Client\<close>, as the dial loop of a session sees it.\<close>

definition Client :: "(u8 list \<Rightarrow> u8 list \<Rightarrow> u8 list) \<Rightarrow> client_config \<Rightarrow> client \<Rightarrow> attempt outcome" where
  "Client des cfg c =
     (case handshake des cfg c of
        ((Ok _, _), c') \<Rightarrow> Ok (Connected c')
      | ((Err e, soft), c') \<Rightarrow> Ok (Refused e soft)
      | ((Panic p, _), c') \<Rightarrow> Panic p
      | ((Diverge, _), c') \<Rightarrow> Diverge)"

section \<open>Versions\<close>

definition digits3 :: "nat \<Rightarrow> u8 list" where
  "digits3 n = map of_nat [48 + n div 100, 48 + n div 10 mod 10, 48 + n mod 10]"

definition version_msg :: "nat \<Rightarrow> nat \<Rightarrow> u8 list" where
  "version_msg major minor = [82, 70, 66, 32] @ digits3 major @ [46] @ digits3 minor @ [10]"

lemma digits3_unat:
  "n < 1000 \<Longrightarrow> map unat (digits3 n) = [48 + n div 100, 48 + n div 10 mod 10, 48 + n mod 10]"
  by (simp add: digits3_def unat_of_nat_u8 del: of_nat_add of_nat_Suc)

lemma digits3_bounds:
  "n < 1000 \<Longrightarrow> d \<in> set (map unat (digits3 n)) \<Longrightarrow> 48 \<le> d \<and> d \<le> 57"
  by (auto simp: digits3_unat)

lemma digits3_Cons:
  assumes "n < 1000"
  obtains d ds where "map unat (digits3 n) = d # ds" and "48 \<le> d" and "d \<le> 57"
  using digits3_bounds [OF assms] digits3_unat [OF assms] by force

lemma skip_spaces_digit: "48 \<le> d \<Longrightarrow> d \<le> 57 \<Longrightarrow> skip_spaces (d # ds) = d # ds"
  by (simp add: skip_spaces_def is_space_def)

lemma scan_uint_digits3:
  assumes n: "n < 1000" and next_char: "rs \<noteq> []" "\<not> is_digit (hd rs)"
  shows "scan_uint (map unat (digits3 n) @ rs) = Some (n, rs)"
proof -
  let ?d = "map unat (digits3 n)"
  have dig: "\<forall>x \<in> set ?d. is_digit x" using digits3_bounds [OF n] by (simp add: is_digit_def)
  have "skip_spaces (?d @ rs) = ?d @ rs"
    by (rule digits3_Cons [OF n]) (simp add: skip_spaces_digit)
  moreover have "takeWhile is_digit (?d @ rs) = ?d" "dropWhile is_digit (?d @ rs) = rs"
    using dig next_char
    by (simp_all add: takeWhile_append dropWhile_append takeWhile_eq_Nil_iff dropWhile_eq_self_iff)
  moreover have "digits_value ?d = n"
  proof -
    have "n = 10 * (n div 10) + n mod 10" "n div 10 = 10 * (n div 100) + n div 10 mod 10"
      by (simp_all add: div_mult2_eq [of n 10 10, simplified])
    then show ?thesis unfolding digits3_unat [OF n] by (simp add: digits_value_def)
  qed
  moreover have "?d \<noteq> []" by (simp add: digits3_def)
  ultimately show ?thesis using n by (simp add: scan_uint_def Let_def)
qed

lemma scan_blank_digits3:
  assumes "n < 1000"
  shows "scan_blank (32 # map unat (digits3 n) @ rs) = Some (map unat (digits3 n) @ rs)"
proof -
  have "skip_spaces (32 # xs) = skip_spaces xs" for xs by (simp add: skip_spaces_def is_space_def)
  moreover have "skip_spaces (map unat (digits3 n) @ rs) = map unat (digits3 n) @ rs"
    by (rule digits3_Cons [OF assms]) (simp add: skip_spaces_digit)
  ultimately show ?thesis by (simp add: scan_blank_def is_space_def)
qed

lemma version_runes:
  assumes "major < 1000" and "minor < 1000"
  shows "runes (version_msg major minor) =
    [82, 70, 66, 32] @ map unat (digits3 major) @ [46] @ map unat (digits3 minor) @ [10]"
proof -
  have "b < 0x80" if "b \<in> set (digits3 n)" and "n < 1000" for b n
    using digits3_bounds [OF that(2), of "unat b"] that(1)
    by (simp add: word_less_nat_alt)
  with assms have "\<forall>b \<in> set (version_msg major minor). b < 0x80" by (auto simp: version_msg_def)
  from runes_all_ascii [OF this] show ?thesis by (simp add: version_msg_def)
qed

lemma version_msg_parsed:
  assumes "major < 1000" and "minor < 1000"
  shows "ParseProtocolVersion (version_msg major minor) = Ok (major, minor)"
proof -
  have "scan_numbers (runes (version_msg major minor)) = Some (major, minor, [10])"
    using scan_uint_digits3 [OF assms(1), of "46 # map unat (digits3 minor) @ [10]"]
      scan_uint_digits3 [OF assms(2), of "[10]"]
    by (simp add: version_runes assms scan_blank_digits3 scan_numbers_def scan_letter_def is_digit_def)
  moreover have "length (version_msg major minor) = 12" by (simp add: version_msg_def digits3_def)
  ultimately show ?thesis
    by (simp add: ParseProtocolVersion_def pvLen_def scan_newline_def skip_spaces_def)
qed

section \<open>Bits of the key\<close>

lemma reverse_table_revbits: "reverse_table = reverseByte"
  unfolding reverse_table_def reverseByte_def by (rule refl)

text \<open>\<open>reverseBits\<close> turns the byte around: bit \<open>i\<close> of the result is bit \<open>7 - i\<close> of the argument.\<close>

lemma reverseBits_turns: "bit (reverseBits b) i \<longleftrightarrow> i < 8 \<and> bit b (7 - i)"
proof -
  have "unat b < 256" using unsigned_less [of b] by simp
  then have t: "reverse_table ! unat b = revbits 8 (unat b)"
    by (simp add: reverse_table_revbits reverseByte_nth)
  have "bit (reverseBits b) i \<longleftrightarrow> bit (unat (reverseBits b)) i" "bit (unat b) j \<longleftrightarrow> bit b j" for j
    by (simp_all add: bit_unsigned_iff)
  moreover have "unat (reverseBits b) = take_bit 8 (revbits 8 (unat b))"
    by (simp add: reverseBits_def t unsigned_of_nat)
  ultimately show ?thesis by (auto simp: bit_take_bit_iff bit_revbits)
qed

section \<open>A handshake that succeeds\<close>

text \<open>What an authentication method expects from the server, and what it answers.\<close>

fun challenge_ok :: "client_auth \<Rightarrow> u8 list \<Rightarrow> bool" where
  "challenge_ok ClientAuthNone chal \<longleftrightarrow> chal = []"
| "challenge_ok (PasswordAuth pw) chal \<longleftrightarrow> length chal = 16"

fun auth_reply :: "(u8 list \<Rightarrow> u8 list \<Rightarrow> u8 list) \<Rightarrow> client_auth \<Rightarrow> u8 list \<Rightarrow> u8 list" where
  "auth_reply des ClientAuthNone chal = []"
| "auth_reply des (PasswordAuth pw) chal = auth_encrypt des pw chal"

lemma write_conn_run [wire_simps]: "wres c = [] \<Longrightarrow> write_conn bs c = (Ok (), c\<lparr>sent := sent c @ bs\<rparr>)"
  by (simp add: write_conn_def)

lemma auth_Handshake_run:
  assumes "wres c = []" and "rbytes c = chal @ rest" and "challenge_ok a chal"
  shows "auth_Handshake des a c = (Ok (), c\<lparr>rbytes := rest, sent := sent c @ auth_reply des a chal\<rparr>)"
proof (cases a)
  case ClientAuthNone
  then show ?thesis using assms by simp
next
  case (PasswordAuth pw)
  with assms have "read_full 16 c = (Ok chal, c\<lparr>rbytes := rest\<rparr>)"
    by (intro read_full_append) simp_all
  then show ?thesis using assms(1) PasswordAuth by (simp add: bindM_Ok write_conn_run)
qed

definition server_init_bytes :: "u16 \<Rightarrow> u16 \<Rightarrow> pixel_format \<Rightarrow> u8 list \<Rightarrow> u8 list" where
  "server_init_bytes w h pf nm = be16 w @ be16 h @ pf_bytes pf @ be32 (of_nat (length nm)) @ nm"

lemma read_server_init_run:
  assumes "rbytes c = server_init_bytes w h pf nm @ rest" and "length nm < 2 ^ 32"
  shows "read_server_init c =
    (Ok (), c\<lparr>rbytes := rest, FramebufferWidth := w, FramebufferHeight := h,
              PixelFormat := merge_pf (PixelFormat c) pf, DesktopName := nm\<rparr>)"
proof -
  have len: "unat (of_nat (length nm) :: u32) = length nm" by (rule unat_of_nat_u32) (use assms(2) in simp)
  show ?thesis
    unfolding read_server_init_def using assms(1)
    by (cases c)
      (simp add: server_init_bytes_def u16_codec.dec_bind [OF TrueI] u32_codec.dec_bind [OF TrueI]
        bindM_Ok [OF ReadPixelFormat_run] bindM_Ok [OF read_full_append] len bindM_def [of "modifyS _"]
        bindM_def [of getS])
qed

lemma security8_run:
  assumes "wres c = []" and "types \<noteq> []" and "length types < 256"
    and auth: "List.find (\<lambda>a. SecurityType a \<in> set types) (client_auths cfg) = Some a"
    and "challenge_ok a chal"
    and c: "rbytes c = [of_nat (length types)] @ types @ chal @ rest"
  shows "securityHandshakeVersion8 des cfg c =
    (Ok (), c\<lparr>rbytes := rest,
      sent := sent c @ version_string 8 @ [SecurityType a] @ auth_reply des a chal\<rparr>)"
proof -
  have n: "unat (of_nat (length types) :: u8) = length types" using assms(3) by (simp add: unat_of_nat_u8)
  then have "(of_nat (length types) :: u8) \<noteq> 0" using assms(2) by (metis length_0_conv unat_0)
  moreover have types: "read_full (length types) s = (Ok types, s\<lparr>rbytes := chal @ rest\<rparr>)"
    if "rbytes s = types @ chal @ rest" for s :: "'z conn_scheme"
    using that by (intro read_full_append) simp_all
  ultimately show ?thesis
    using assms(1) c auth
    by (simp add: auth_Handshake_run [where chal = chal and rest = rest, OF _ _ assms(5)] securityHandshakeVersion8_def
        bindM_Ok [OF write_conn_run] u8_codec.dec_bind [OF TrueI]
        n bindM_Ok [OF types] del: of_nat_eq_0_iff)
qed

lemma security3_run:
  assumes "wres c = []"
    and auth: "List.find (\<lambda>a. SecurityType a = ucast t) (client_auths cfg) = Some a"
    and "challenge_ok a chal" and c: "rbytes c = be32 t @ chal @ rest"
  shows "securityHandshakeVersion3 des cfg c =
    (Ok (), c\<lparr>rbytes := rest, sent := sent c @ version_string 3 @ auth_reply des a chal\<rparr>)"
  using assms(1) c auth
  by (simp add: auth_Handshake_run [where chal = chal and rest = rest, OF _ _ assms(3)]
      securityHandshakeVersion3_def bindM_Ok [OF write_conn_run] u32_codec.dec_bind [OF TrueI])

text \<open>What remains after the security handshake is the same for both versions.\<close>

definition after_init ::
  "client_config \<Rightarrow> u16 \<Rightarrow> u16 \<Rightarrow> pixel_format \<Rightarrow> u8 list \<Rightarrow> u8 list \<Rightarrow> u8 list \<Rightarrow>
    'z client_scheme \<Rightarrow> 'z client_scheme" where
  "after_init cfg w h pf nm out rest c =
     c\<lparr>rbytes := rest, sent := sent c @ out @ [bool_byte (\<not> Exclusive cfg)], FramebufferWidth := w,
       FramebufferHeight := h, PixelFormat := merge_pf (PixelFormat c) pf, DesktopName := nm\<rparr>"

lemma handshake_run:
  assumes v: "3 \<le> minor" "minor < 1000" and "wres c = []" and r: "result \<noteq> 1"
    and "length nm < 2 ^ 32"
    and c: "rbytes c = version_msg 3 minor @ sec @ be32 result @ server_init_bytes w h pf nm @ rest"
    and sec: "\<And>s :: 'z client_scheme. wres s = [] \<Longrightarrow>
      rbytes s = sec @ be32 result @ server_init_bytes w h pf nm @ rest \<Longrightarrow>
      (if minor = 8 then securityHandshakeVersion8 des cfg else securityHandshakeVersion3 des cfg) s =
        (Ok (), s\<lparr>rbytes := be32 result @ server_init_bytes w h pf nm @ rest, sent := sent s @ out\<rparr>)"
  shows "handshake des cfg (c :: 'z client_scheme) = ((Ok (), False), after_init cfg w h pf nm out rest c)"
proof -
  let ?m = "sec @ be32 result @ server_init_bytes w h pf nm @ rest"
  have "length (version_msg 3 minor) = pvLen" by (simp add: version_msg_def digits3_def pvLen_def)
  with c have "read_full pvLen c = (Ok (version_msg 3 minor), c\<lparr>rbytes := ?m\<rparr>)"
    by (intro read_full_append) simp_all
  moreover have "handshake_rest des cfg (version_msg 3 minor) (c\<lparr>rbytes := ?m\<rparr>) =
      (Ok (), after_init cfg w h pf nm out rest c)"
    using v r assms(3,5) version_msg_parsed [of 3 minor]
    by (simp add: handshake_rest_def bindM_Ok [OF sec] u32_codec.dec_bind [OF TrueI]
        bindM_Ok [OF write_conn_run] read_server_init_run after_init_def)
  ultimately show ?thesis by (simp add: handshake_def)
qed

section \<open>A handshake always ends\<close>

definition safe :: "('s, 'a) prog \<Rightarrow> bool" where
  "safe m \<longleftrightarrow> hoare (\<lambda>_. True) m (\<lambda>_ _. True) (\<lambda>_. True)"

lemma safe_bindM: "safe m \<Longrightarrow> (\<And>a. safe (f a)) \<Longrightarrow> safe (bindM m f)"
  unfolding safe_def by (rule hoare_bindM [where R = "\<lambda>_ _. True"])

lemma safe_if: "safe m \<Longrightarrow> safe n \<Longrightarrow> safe (if c then m else n)"
  by simp

lemma safe_option: "safe m \<Longrightarrow> (\<And>a. safe (f a)) \<Longrightarrow> safe (case r of None \<Rightarrow> m | Some a \<Rightarrow> f a)"
  by (cases r) simp_all

lemma safe_leaf:
  "safe (ret a)" "safe (fail e)" "safe getS" "safe (modifyS f)" "safe (read_full n)"
  "safe (write_conn bs)" "safe read_u8" "safe read_u16" "safe read_u32"
  by (auto simp: safe_def hoare_def read_full_def write_conn_def read_u8_def read_u16_def read_u32_def bindM_def
      split: option.splits list.splits)

lemma safe_drop_error:
  assumes "safe m"
  shows "safe (drop_error m)"
  unfolding safe_def
proof (rule hoareI)
  fix s
  obtain r s' where m: "m s = (r, s')" by (cases "m s")
  with assms have "post (\<lambda>_ _. True) (\<lambda>_. True) (r, s')" by (metis safe_def hoare_def)
  with m show "post (\<lambda>_ _. True) (\<lambda>_. True) (drop_error m s)" by (cases r) (simp_all add: drop_error_def)
qed

lemma safe_lift_fst: "safe m \<Longrightarrow> safe (lift (fst (m s)))"
  by (simp add: safe_def hoare_def lift_def post_case)

lemmas safe_rules = safe_bindM safe_if safe_option safe_leaf safe_drop_error

lemma safe_ReadPixelFormat: "safe (ReadPixelFormat pf)"
  unfolding ReadPixelFormat_def
  by (intro safe_bindM safe_lift_fst safe_leaf)
    (auto simp: read_pf_fields_def read_pf_color_def Let_def intro!: safe_rules)

lemma safe_auth_Handshake: "safe (auth_Handshake des a)"
  by (cases a) (simp_all add: safe_rules)

lemma safe_ParseProtocolVersion: "safe (lift (ParseProtocolVersion pv))"
  by (auto simp: safe_def hoare_def lift_def ParseProtocolVersion_def split: option.splits)

lemma safe_readErrorReason: "safe readErrorReason"
  unfolding readErrorReason_def by (intro safe_rules)

lemma safe_handshake_rest: "safe (handshake_rest des cfg pv)"
proof -
  have "safe (securityHandshakeVersion8 des cfg)" "safe (securityHandshakeVersion3 des cfg)"
    unfolding securityHandshakeVersion8_def securityHandshakeVersion3_def
    by (intro safe_rules safe_readErrorReason safe_auth_Handshake)+
  moreover have "safe read_server_init"
    unfolding read_server_init_def by (intro safe_rules safe_ReadPixelFormat)
  ultimately show ?thesis
    unfolding handshake_rest_def case_prod_unfold
    by (intro safe_rules safe_ParseProtocolVersion safe_readErrorReason)
qed

section \<open>What the handshake guarantees\<close>

lemma handshake_soft:
  "handshake des cfg c = ((Err e, soft), c') \<Longrightarrow>
    soft \<longleftrightarrow> length (rbytes c) < pvLen"
  by (auto simp: handshake_def read_full_def split: prod.splits if_splits outcome.splits)

lemma handshake_first_read:
  "length (rbytes c) < pvLen \<Longrightarrow>
    handshake des cfg c = ((Err (short_err c), True), c\<lparr>rbytes := []\<rparr>)"
  by (simp add: handshake_def read_full_def)

text \<open>
  (C22) Only a server that has not yet said its version makes an error that may be retried: the
  handshake's error is soft exactly when fewer than the twelve bytes of the version message came,
  and then nothing has been sent and the connection's fields are as they were. In every case the handshake
  ends, with success or an error, and never panics, whatever the server sends and however the cipher
  behaves.
\<close>

theorem handshake_soft_errors:
  "case handshake des cfg c of
     ((Ok _, soft), c') \<Rightarrow> \<not> soft \<and> pvLen \<le> length (rbytes c)
   | ((Err e, soft), c') \<Rightarrow>
       if length (rbytes c) < pvLen then soft \<and> e = short_err c \<and> c' = c\<lparr>rbytes := []\<rparr> else \<not> soft
   | _ \<Rightarrow> False"
proof (cases "length (rbytes c) < pvLen")
  case True
  then show ?thesis by (simp add: handshake_first_read)
next
  case False
  define t where "t = c\<lparr>rbytes := drop pvLen (rbytes c)\<rparr>"
  obtain r u where m: "handshake_rest des cfg (take pvLen (rbytes c)) t = (r, u)"
    by (cases "handshake_rest des cfg (take pvLen (rbytes c)) t")
  have "post (\<lambda>_ _. True) (\<lambda>_. True) (r, u)"
    using safe_handshake_rest [of des cfg "take pvLen (rbytes c)"] m
    by (metis (no_types) safe_def hoare_def)
  moreover have "handshake des cfg c = ((r, False), u)"
    using False m by (simp add: handshake_def read_full_def t_def)
  ultimately show ?thesis using False by (cases r) simp_all
qed

text \<open>
  (C20) A server of version 3.8: the client answers with its own version, takes the first of its
  authentication methods the server offers, answers the challenge, asks for an exclusive or a shared
  session and takes over the size of the screen, the pixel format and the name of the desktop, and leaves the
  bytes that follow. Every result of the security handshake except one counts as success.
\<close>

theorem handshake_version8:
  assumes "wres c = []" and "types \<noteq> []" and "length types < 256"
    and "List.find (\<lambda>a. SecurityType a \<in> set types) (client_auths cfg) = Some a"
    and "challenge_ok a chal" and "result \<noteq> 1" and "length nm < 2 ^ 32"
    and "rbytes c = version_msg 3 8 @ ([of_nat (length types)] @ types @ chal) @ be32 result @
      server_init_bytes w h pf nm @ rest"
  shows "handshake des cfg (c :: 'z client_scheme) =
    ((Ok (), False),
     after_init cfg w h pf nm
       (version_msg 3 8 @ [SecurityType a] @ auth_reply des a chal) rest c)"
proof (rule handshake_run [OF _ _ assms(1,6,7,8)])
  have v: "version_string 8 = version_msg 3 8"
    by (simp add: version_string_def version_msg_def digits3_def)
  fix s :: "'z client_scheme"
  assume "wres s = []"
    and "rbytes s = ([of_nat (length types)] @ types @ chal) @ be32 result @ server_init_bytes w h pf nm @ rest"
  then show "(if (8::nat) = 8 then securityHandshakeVersion8 des cfg else securityHandshakeVersion3 des cfg) s =
      (Ok (), s\<lparr>rbytes := be32 result @ server_init_bytes w h pf nm @ rest,
        sent := sent s @ version_msg 3 8 @ [SecurityType a] @ auth_reply des a chal\<rparr>)"
    using security8_run [OF _ assms(2,3,4,5)] v by simp
qed simp_all

definition demo_pf :: pixel_format where
  "demo_pf = \<lparr>BPP = 32, Depth = 24, BigEndian = False, TrueColor = True, RedMax = 255, GreenMax = 255,
     BlueMax = 255, RedShift = 16, GreenShift = 8, BlueShift = 0\<rparr>"

definition demo_client :: "u8 list \<Rightarrow> client" where
  "demo_client bs =
     \<lparr>rbytes = bs, rend = EOF, sent = [], wres = [], ColorMap = [], Encs = [], FramebufferWidth = 0,
      FramebufferHeight = 0, DesktopName = [], PixelFormat = zero_pf\<rparr>"

theorem handshake_version8_witness:
  "handshake (\<lambda>k b. b) \<lparr>Auth = Some [PasswordAuth [1], ClientAuthNone], Exclusive = True\<rparr>
     (demo_client (version_msg 3 8 @ ([2] @ [1, 2] @ replicate 16 5) @ be32 2 @
       server_init_bytes 4 3 demo_pf [120] @ [7])) =
   ((Ok (), False),
    after_init \<lparr>Auth = Some [PasswordAuth [1], ClientAuthNone], Exclusive = True\<rparr> 4 3 demo_pf [120]
      (version_msg 3 8 @ [2] @ replicate 16 5) [7]
      (demo_client (version_msg 3 8 @ ([2] @ [1, 2] @ replicate 16 5) @ be32 2 @
       server_init_bytes 4 3 demo_pf [120] @ [7])))"
proof -
  have "auth_encrypt (\<lambda>k b. b) [1] (replicate 16 5) = (replicate 16 5 :: u8 list)"
    by (simp add: auth_encrypt_def Let_def numeral_eq_Suc)
  then show ?thesis
    using handshake_version8 [where des = "\<lambda>k b. b" and types = "[1, 2]" and a = "PasswordAuth [1]"
        and cfg = "\<lparr>Auth = Some [PasswordAuth [1], ClientAuthNone], Exclusive = True\<rparr>"
        and chal = "replicate 16 5" and result = 2 and nm = "[120]" and w = 4 and h = 3
        and pf = demo_pf and rest = "[7]"
        and c = "demo_client (version_msg 3 8 @ ([2] @ [1, 2] @ replicate 16 5) @ be32 2 @
       server_init_bytes 4 3 demo_pf [120] @ [7])"]
    by (simp add: demo_client_def client_auths_def)
qed

text \<open>
  Any other server from version 3.3 on is answered as a 3.3 server: it names the method itself, in 32 bits of
  which the client looks at eight, and a security result is awaited also without authentication.
\<close>

lemma handshake_version3:
  assumes "3 \<le> minor" and "minor < 1000" and "minor \<noteq> 8" and "wres c = []"
    and "List.find (\<lambda>a. SecurityType a = ucast t) (client_auths cfg) = Some a"
    and "challenge_ok a chal" and "result \<noteq> 1" and "length nm < 2 ^ 32"
    and "rbytes c = version_msg 3 minor @ (be32 t @ chal) @ be32 result @
      server_init_bytes w h pf nm @ rest"
  shows "handshake des cfg (c :: 'z client_scheme) =
    ((Ok (), False),
     after_init cfg w h pf nm (version_msg 3 3 @ auth_reply des a chal) rest c)"
proof (rule handshake_run [OF assms(1,2,4,7,8,9)])
  have v: "version_string 3 = version_msg 3 3"
    by (simp add: version_string_def version_msg_def digits3_def)
  fix s :: "'z client_scheme"
  assume "wres s = []"
    and "rbytes s = (be32 t @ chal) @ be32 result @ server_init_bytes w h pf nm @ rest"
  then show "(if minor = 8 then securityHandshakeVersion8 des cfg else securityHandshakeVersion3 des cfg) s =
      (Ok (), s\<lparr>rbytes := be32 result @ server_init_bytes w h pf nm @ rest,
        sent := sent s @ version_msg 3 3 @ auth_reply des a chal\<rparr>)"
    using security3_run [OF _ assms(5,6)] v assms(3) by simp
qed

lemma handshake_version3_witness:
  "handshake (\<lambda>k b. b) \<lparr>Auth = None, Exclusive = False\<rparr>
     (demo_client (version_msg 3 7 @ (be32 257 @ []) @ be32 0 @ server_init_bytes 4 3 demo_pf [] @ [])) =
   ((Ok (), False),
    after_init \<lparr>Auth = None, Exclusive = False\<rparr> 4 3 demo_pf [] (version_msg 3 3 @ []) []
      (demo_client (version_msg 3 7 @ (be32 257 @ []) @ be32 0 @ server_init_bytes 4 3 demo_pf [] @ [])))"
  using handshake_version3 [where des = "\<lambda>k b. b" and minor = 7 and t = 257 and a = ClientAuthNone
      and cfg = "\<lparr>Auth = None, Exclusive = False\<rparr>" and chal = "[]" and result = 0 and nm = "[]"
      and w = 4 and h = 3 and pf = demo_pf and rest = "[]"
      and c = "demo_client (version_msg 3 7 @ (be32 257 @ []) @ be32 0 @
        server_init_bytes 4 3 demo_pf [] @ [])"]
  by (simp add: demo_client_def client_auths_def)

end
