(* ===== verification/Huffman.thy ===== *)
theory Huffman
  imports BitIO
begin

text \<open>
  The decoding tables of the inflator: \<open>huffmanDecoder\<close> of \<^verbatim>\<open>flexflate/inflate.go\<close> and its \<open>init\<close>, against
  the canonical prefix code that the lengths of RFC 1951 stand for.
\<close>

section \<open>The tables\<close>

text \<open>
  An entry holds the number of bits in its lowest four bits and the symbol, or the number of a link table,
  above them: \<open>16 * v + n\<close>, for \<open>v\<close> below 512 and \<open>n\<close> below 16.
\<close>

record huffman =
  hmin :: nat
  hchunks :: "nat list"
  hlinks :: "nat list list"
  hlinkMask :: nat

definition zero_huffman :: huffman where
  "zero_huffman = \<lparr>hmin = 0, hchunks = replicate 512 0, hlinks = [], hlinkMask = 0\<rparr>"

text \<open>\<open>return false\<close> of \<open>init\<close>.\<close>

definition init_false :: goerr where
  "init_false = Errorf ''false''"

definition reverse16 :: "nat \<Rightarrow> nat outcome" where
  "reverse16 code =
     bindO (index_go reverseByte (code div 2 ^ 8)) (\<lambda>lo.
     bindO (index_go reverseByte (code mod 2 ^ 8)) (\<lambda>hi. Ok (lo + hi * 2 ^ 8)))"

text \<open>The lengths counted, the smallest and the largest that occur.\<close>

definition len_count :: "nat list \<Rightarrow> nat list" where
  "len_count bits = foldl (\<lambda>c n. if n = 0 then c else c[n := c ! n + 1]) (replicate 16 0) bits"

definition len_min :: "nat list \<Rightarrow> nat" where
  "len_min bits = foldl (\<lambda>m n. if n = 0 then m else if m = 0 \<or> n < m then n else m) 0 bits"

definition len_max :: "nat list \<Rightarrow> nat" where
  "len_max bits = foldl (\<lambda>m n. if m < n then n else m) 0 bits"

definition make_link :: "nat \<Rightarrow> nat \<Rightarrow> nat \<Rightarrow> (huffman, unit) prog" where
  "make_link linkBits link j =
     bindM (lift (reverse16 j)) (\<lambda>r.
     modifyS (\<lambda>h. h\<lparr>hchunks := (hchunks h)[r div 2 ^ 7 := 16 * (j - link) + 10],
                    hlinks := (hlinks h)[j - link := replicate (2 ^ linkBits) 0]\<rparr>))"

definition make_links :: "nat \<Rightarrow> nat \<Rightarrow> (huffman, unit) prog" where
  "make_links linkBits link =
     (if 512 < link then fail init_false
      else
        bindM (modifyS (\<lambda>h. h\<lparr>hlinks := replicate (512 - link) []\<rparr>)) (\<lambda>_.
        forM [link..<512] (make_link linkBits link)))"

text \<open>The loop over the lengths, with the running \<open>code\<close> and the first codes found so far.\<close>

fun assign_codes ::
  "nat \<Rightarrow> nat list \<Rightarrow> nat list \<Rightarrow> nat \<Rightarrow> nat list \<Rightarrow> (huffman, nat list) prog" where
  "assign_codes linkBits count [] code nextcode = ret nextcode"
| "assign_codes linkBits count (i # is) code nextcode =
     bindM (if i = 10 then make_links linkBits (code div 2) else ret ()) (\<lambda>_.
     assign_codes linkBits count is (2 * (code + count ! i)) (nextcode[i := code]))"

text \<open>\<open>for off := reverse; off < bound; off += 1 << n\<close>.\<close>

function fill_slots :: "nat \<Rightarrow> nat \<Rightarrow> nat \<Rightarrow> nat \<Rightarrow> nat list \<Rightarrow> nat list" where
  "fill_slots off n bound chunk tab =
     (if off < bound then fill_slots (off + 2 ^ n) n bound chunk (tab[off := chunk]) else tab)"
  by pat_completeness auto
termination
  by (relation "measure (\<lambda>(off, n, bound, chunk, tab). bound - off)") (auto intro: diff_less_mono2)

definition put_symbol :: "nat \<Rightarrow> nat \<times> nat \<Rightarrow> nat list \<Rightarrow> (huffman, nat list) prog" where
  "put_symbol numLinks s nextcode =
     (case s of (i, n) \<Rightarrow>
      if n = 0 then ret nextcode
      else
        let code = nextcode ! n; chunk = 16 * i + n in
        bindM (lift (reverse16 code)) (\<lambda>r.
        let reverse = r div 2 ^ (16 - n) in
        bindM
          (if n \<le> 9 then modifyS (\<lambda>h. h\<lparr>hchunks := fill_slots reverse n 512 chunk (hchunks h)\<rparr>)
           else
             bindM getS (\<lambda>h.
             let v = hchunks h ! (reverse mod 512) div 16 in
             if length (hlinks h) \<le> v then fail init_false
             else modifyS (\<lambda>h. h\<lparr>hlinks := (hlinks h)[v :=
                    fill_slots (reverse div 512) (n - 9) numLinks chunk (hlinks h ! v)]\<rparr>)))
          (\<lambda>_. ret (nextcode[n := code + 1]))))"

fun put_symbols :: "nat \<Rightarrow> (nat \<times> nat) list \<Rightarrow> nat list \<Rightarrow> (huffman, unit) prog" where
  "put_symbols numLinks [] nextcode = ret ()"
| "put_symbols numLinks (s # ss) nextcode =
     bindM (put_symbol numLinks s nextcode) (put_symbols numLinks ss)"

definition huff_init :: "nat list \<Rightarrow> (huffman, unit) prog" where
  "huff_init bits =
     bindM (modifyS (\<lambda>h. if hmin h \<noteq> 0 then zero_huffman else h)) (\<lambda>_.
     if list_ex (\<lambda>n. 16 \<le> n) bits then panic IndexOutOfRange
     else if len_max bits = 0 then fail init_false
     else
       let count = len_count bits; mx = len_max bits;
           linkBits = mx - 9; numLinks = (if 9 < mx then 2 ^ linkBits else 0) in
       bindM (modifyS (\<lambda>h. h\<lparr>hmin := len_min bits,
                              hlinkMask := (if 9 < mx then numLinks - 1 else hlinkMask h)\<rparr>)) (\<lambda>_.
       bindM (assign_codes linkBits count [len_min bits..<mx + 1] 0 (replicate 16 0)) (\<lambda>nextcode.
       put_symbols numLinks (enumerate 0 bits) nextcode)))"

text \<open>
  The entry for the bits that come next, the first of them lowest; a link table may have no entry for
  them.
\<close>

definition table_entry :: "huffman \<Rightarrow> nat \<Rightarrow> nat option outcome" where
  "table_entry h w =
     bindO (index_go (hchunks h) (w mod 512)) (\<lambda>chunk.
     if 9 < chunk mod 16
     then bindO (index_go (hlinks h) (chunk div 16)) (\<lambda>linktab.
          bindO (index_go linktab ((w div 512) AND hlinkMask h)) (\<lambda>chunk'.
          Ok (if chunk' mod 16 = 0 then None else Some chunk')))
     else Ok (Some chunk))"

section \<open>The canonical code\<close>

text \<open>
  RFC 1951, section 3.2.2: the codes of one length are consecutive, in the order of the symbols, and follow
  the codes of the shorter lengths.
\<close>

definition ncount :: "nat list \<Rightarrow> nat \<Rightarrow> nat" where
  "ncount lens n = (if n = 0 then 0 else length (filter (\<lambda>m. m = n) lens))"

fun first_code :: "nat list \<Rightarrow> nat \<Rightarrow> nat" where
  "first_code lens 0 = 0"
| "first_code lens (Suc n) = 2 * (first_code lens n + ncount lens n)"

definition rank :: "nat list \<Rightarrow> nat \<Rightarrow> nat" where
  "rank lens i = length (filter (\<lambda>m. m = lens ! i) (take i lens))"

definition sym_code :: "nat list \<Rightarrow> nat \<Rightarrow> nat" where
  "sym_code lens i = first_code lens (lens ! i) + rank lens i"

text \<open>There is room for all codes.\<close>

definition kraft :: "nat list \<Rightarrow> bool" where
  "kraft lens \<longleftrightarrow> first_code lens 15 + ncount lens 15 \<le> 2 ^ 15"

definition is_sym :: "nat list \<Rightarrow> nat \<Rightarrow> bool" where
  "is_sym lens i \<longleftrightarrow> i < length lens \<and> 0 < lens ! i \<and> lens ! i \<le> 15"

lemma first_code_mono_Suc: "(first_code lens n + ncount lens n) * 2 ^ Suc k \<le> first_code lens (n + Suc k)"
proof (induction k)
  case (Suc k)
  have "(first_code lens n + ncount lens n) * 2 ^ Suc (Suc k) \<le> 2 * first_code lens (n + Suc k)"
    using Suc by simp
  then show ?case by simp
qed simp

lemma first_code_mono:
  assumes "n < m"
  shows "(first_code lens n + ncount lens n) * 2 ^ (m - n) \<le> first_code lens m"
proof -
  obtain k where "m = n + Suc k" using assms less_iff_Suc_add by auto
  with first_code_mono_Suc [of lens n k] show ?thesis by simp
qed

lemma kraft_fits:
  assumes "kraft lens" and "n \<le> 15"
  shows "first_code lens n + ncount lens n \<le> 2 ^ n"
proof (cases "n = 15")
  case False
  with assms(2) have "n < 15" by simp
  from first_code_mono [OF this, of lens] assms(1)
  have "(first_code lens n + ncount lens n) * 2 ^ (15 - n) \<le> 2 ^ n * 2 ^ (15 - n)"
    using \<open>n < 15\<close> by (simp add: kraft_def flip: power_add)
  then show ?thesis by simp
qed (use assms in \<open>simp add: kraft_def\<close>)

lemma rank_less: "is_sym lens i \<Longrightarrow> rank lens i < ncount lens (lens ! i)"
proof -
  assume i: "is_sym lens i"
  then have "lens = take i lens @ lens ! i # drop (Suc i) lens" by (simp add: is_sym_def id_take_nth_drop)
  then have "filter (\<lambda>m. m = lens ! i) lens =
      filter (\<lambda>m. m = lens ! i) (take i lens) @ lens ! i # filter (\<lambda>m. m = lens ! i) (drop (Suc i) lens)"
    by (metis (mono_tags, lifting) filter.simps(2) filter_append)
  with i show ?thesis by (simp add: rank_def ncount_def is_sym_def)
qed

lemma rank_mono: "i < j \<Longrightarrow> j < length lens \<Longrightarrow> lens ! i = lens ! j \<Longrightarrow> rank lens i < rank lens j"
proof -
  assume ij: "i < j" "j < length lens" "lens ! i = lens ! j"
  have "take j lens = take i lens @ lens ! i # take (j - Suc i) (drop (Suc i) lens)"
    using ij by (metis (no_types) Suc_diff_Suc id_take_nth_drop less_trans take_Suc_Cons take_add
        append_take_drop_id Cons_nth_drop_Suc le_add_diff_inverse less_imp_le_nat)
  with ij show ?thesis by (simp add: rank_def)
qed

lemma sym_code_bounds:
  assumes "is_sym lens i"
  shows "first_code lens (lens ! i) \<le> sym_code lens i"
    and "sym_code lens i < first_code lens (lens ! i) + ncount lens (lens ! i)"
  using rank_less [OF assms] by (simp_all add: sym_code_def)

lemma sym_code_less: "kraft lens \<Longrightarrow> is_sym lens i \<Longrightarrow> sym_code lens i < 2 ^ (lens ! i)"
  using sym_code_bounds(2) [of lens i] kraft_fits [of lens "lens ! i"] by (simp add: is_sym_def)

lemma sym_code_inj:
  assumes "is_sym lens i" and "is_sym lens j" and "lens ! i = lens ! j" and "sym_code lens i = sym_code lens j"
  shows "i = j"
  using rank_mono [of i j lens] rank_mono [of j i lens] assms
  by (cases i j rule: linorder_cases) (simp_all add: sym_code_def is_sym_def)

section \<open>Codes in a stream of bits\<close>

text \<open>The code of a symbol comes with its highest bit first.\<close>

definition matches :: "nat list \<Rightarrow> nat \<Rightarrow> nat \<Rightarrow> bool" where
  "matches lens i w \<longleftrightarrow> w mod 2 ^ (lens ! i) = revbits (lens ! i) (sym_code lens i)"

lemma matches_bits:
  "matches lens i w \<longleftrightarrow> (\<forall>t < lens ! i. bit w t \<longleftrightarrow> bit (sym_code lens i) (lens ! i - 1 - t))"
proof -
  have "matches lens i w \<longleftrightarrow> take_bit (lens ! i) w = revbits (lens ! i) (sym_code lens i)"
    by (simp add: matches_def take_bit_eq_mod)
  also have "\<dots> \<longleftrightarrow> (\<forall>t. bit (take_bit (lens ! i) w) t = bit (revbits (lens ! i) (sym_code lens i)) t)"
    by (simp add: bit_eq_iff)
  finally show ?thesis by (auto simp: bit_take_bit_iff bit_revbits)
qed

lemma matches_div:
  assumes "kraft lens" and "is_sym lens i" and "is_sym lens j" and "matches lens i w" and "matches lens j w"
    and "lens ! i \<le> lens ! j"
  shows "sym_code lens j div 2 ^ (lens ! j - lens ! i) = sym_code lens i"
proof (rule bit_eqI)
  fix t
  let ?n = "lens ! i" and ?m = "lens ! j"
  have div: "bit (sym_code lens j div 2 ^ (?m - ?n)) t = bit (sym_code lens j) (?m - ?n + t)"
    by (simp add: bit_drop_bit_eq flip: drop_bit_eq_div)
  show "bit (sym_code lens j div 2 ^ (?m - ?n)) t = bit (sym_code lens i) t"
  proof (cases "t < ?n")
    case True
    have "bit w (?n - 1 - t) = bit (sym_code lens i) t"
      using assms(4) True by (auto simp: matches_bits)
    moreover have "bit w (?n - 1 - t) = bit (sym_code lens j) (?m - 1 - (?n - 1 - t))"
      using assms(5,6) True by (auto simp: matches_bits)
    moreover have "?m - 1 - (?n - 1 - t) = ?m - ?n + t" using True assms(6) by simp
    ultimately show ?thesis using div by simp
  next
    case False
    then have "\<not> bit (sym_code lens i) t" "\<not> bit (sym_code lens j) (?m - ?n + t)"
      using nat_bit_less [OF sym_code_less [OF assms(1,2)]] nat_bit_less [OF sym_code_less [OF assms(1,3)]] assms(6)
      by fastforce+
    with div show ?thesis by simp
  qed
qed

text \<open>The code is prefix free.\<close>

lemma matches_unique_le:
  assumes "kraft lens" and "is_sym lens i" and "is_sym lens j" and "matches lens i w" and "matches lens j w"
    and "lens ! i \<le> lens ! j"
  shows "i = j"
proof -
  let ?n = "lens ! i" and ?m = "lens ! j"
  note div = matches_div [OF assms]
  show ?thesis
  proof (cases "?n = ?m")
    case True
    with div sym_code_inj [OF assms(2,3)] show ?thesis by simp
  next
    case False
    with assms(6) have "(first_code lens ?n + ncount lens ?n) * 2 ^ (?m - ?n) \<le> sym_code lens j"
      using first_code_mono [of ?n ?m lens] sym_code_bounds(1) [OF assms(3)] by simp
    then have "first_code lens ?n + ncount lens ?n \<le> sym_code lens j div 2 ^ (?m - ?n)"
      by (simp add: less_eq_div_iff_mult_less_eq)
    with div sym_code_bounds(2) [OF assms(2)] show ?thesis by simp
  qed
qed

lemma matches_unique:
  assumes "kraft lens" and "is_sym lens i" and "is_sym lens j" and "matches lens i w" and "matches lens j w"
  shows "i = j"
  using matches_unique_le [OF assms] matches_unique_le [OF assms(1,3,2,5,4)] by (cases "lens ! i \<le> lens ! j") auto

section \<open>Filling the tables\<close>

declare fill_slots.simps [simp del]

lemma length_fill_slots [simp]: "length (fill_slots off n bound chunk tab) = length tab"
  by (induction off n bound chunk tab rule: fill_slots.induct) (simp add: fill_slots.simps)

lemma fill_slots_nth:
  assumes "x < length tab" and "bound \<le> length tab"
  shows "fill_slots off n bound chunk tab ! x =
    (if off \<le> x \<and> x < bound \<and> (x - off) mod 2 ^ n = 0 then chunk else tab ! x)"
  using assms
proof (induction off n bound chunk tab rule: fill_slots.induct)
  case (1 off n bound chunk tab)
  show ?case
  proof (cases "off < bound")
    case False
    then show ?thesis by (auto simp: fill_slots.simps)
  next
    case True
    have split: "off \<le> x \<and> (x - off) mod 2 ^ n = 0 \<longleftrightarrow>
        x = off \<or> off + 2 ^ n \<le> x \<and> (x - (off + 2 ^ n)) mod 2 ^ n = 0"
    proof (cases "off + 2 ^ n \<le> x")
      case True
      have "(x - off) mod 2 ^ n = (x - (off + 2 ^ n)) mod 2 ^ n"
        using True mod_add_self2 [of "x - (off + 2 ^ n)" "2 ^ n"] by simp
      moreover have "(x - off) mod 2 ^ n = 0" if "x = off" using that by simp
      ultimately show ?thesis using True by auto
    next
      case False
      then show ?thesis by (auto simp: mod_eq_0_iff_dvd dest: dvd_imp_le)
    qed
    have "fill_slots off n bound chunk tab ! x = fill_slots (off + 2 ^ n) n bound chunk (tab[off := chunk]) ! x"
      using True by (simp add: fill_slots.simps [of off])
    also have "\<dots> = (if off + 2 ^ n \<le> x \<and> x < bound \<and> (x - (off + 2 ^ n)) mod 2 ^ n = 0 then chunk
        else tab[off := chunk] ! x)"
      using 1 True by simp
    also have "\<dots> = (if off \<le> x \<and> x < bound \<and> (x - off) mod 2 ^ n = 0 then chunk else tab ! x)"
      using split True 1(2,3) by (auto simp: nth_list_update)
    finally show ?thesis .
  qed
qed

lemma fill_slots_mod:
  assumes "x < length tab" and "length tab = bound" and "off < 2 ^ n"
  shows "fill_slots off n bound chunk tab ! x = (if x mod 2 ^ n = off then chunk else tab ! x)"
proof -
  have "off \<le> x \<and> (x - off) mod 2 ^ n = 0 \<longleftrightarrow> x mod 2 ^ n = off"
  proof
    assume h: "off \<le> x \<and> (x - off) mod 2 ^ n = 0"
    then obtain k where "x - off = 2 ^ n * k" by (auto simp: mod_eq_0_iff_dvd dvd_def)
    with h have "x = off + 2 ^ n * k" by simp
    then show "x mod 2 ^ n = off" using assms(3) by simp
  next
    assume h: "x mod 2 ^ n = off"
    then show "off \<le> x \<and> (x - off) mod 2 ^ n = 0" by (auto simp: mod_less_eq_dividend minus_mod_eq_mult_div)
  qed
  with assms show ?thesis by (simp add: fill_slots_nth)
qed

lemma revbits_mod: "k \<le> n \<Longrightarrow> revbits n x mod 2 ^ k = revbits k (x div 2 ^ (n - k))"
  by (rule bit_eqI)
    (auto simp: bit_revbits bit_take_bit_iff bit_drop_bit_eq simp flip: take_bit_eq_mod drop_bit_eq_div)

lemma revbits_div_2: "revbits n x div 2 ^ k = revbits (n - k) x"
  by (rule bit_eqI)
    (auto simp: bit_revbits bit_drop_bit_eq less_diff_conv add.commute simp flip: drop_bit_eq_div)

lemma revbits_take: "n \<le> k \<Longrightarrow> revbits n (x mod 2 ^ k) = revbits n x"
  by (rule bit_eqI) (auto simp: bit_revbits bit_take_bit_iff simp flip: take_bit_eq_mod)

lemma reverse16_run:
  assumes "code < 2 ^ 16"
  shows "reverse16 code = Ok (revbits 16 code)"
proof -
  have "revbits 16 code = revbits 16 code mod 2 ^ 8 + revbits 16 code div 2 ^ 8 * 2 ^ 8"
    by (simp only: mod_div_mult_eq)
  also have "\<dots> = revbits 8 (code div 2 ^ 8) + revbits 8 (code mod 2 ^ 8) * 2 ^ 8"
    using revbits_mod [of 8 16 code] revbits_div_2 [of 16 code 8] revbits_take [of 8 8 code] by simp
  finally have "revbits 16 code = revbits 8 (code div 2 ^ 8) + revbits 8 (code mod 2 ^ 8) * 2 ^ 8" .
  moreover have "code div 2 ^ 8 < 256" "code mod 2 ^ 8 < 256" using assms by simp_all
  ultimately show ?thesis by (simp add: reverse16_def reverseByte_nth)
qed

section \<open>The counts\<close>

lemma len_count_foldl:
  "list_all (\<lambda>m. m < 16) bits \<Longrightarrow> length c = 16 \<Longrightarrow> n < 16 \<Longrightarrow>
    foldl (\<lambda>c n. if n = 0 then c else c[n := c ! n + 1]) c bits ! n = c ! n + ncount bits n"
  by (induction bits arbitrary: c) (auto simp: ncount_def nth_list_update)

lemma len_count_nth: "list_all (\<lambda>m. m < 16) bits \<Longrightarrow> n < 16 \<Longrightarrow> len_count bits ! n = ncount bits n"
  using len_count_foldl [of bits "replicate 16 0" n] by (simp add: len_count_def)

lemma len_max_foldl:
  fixes bits :: "nat list"
  shows "(\<forall>m \<in> set bits. m \<le> foldl (\<lambda>m n. if m < n then n else m) a bits) \<and>
    a \<le> foldl (\<lambda>m n. if m < n then n else m) a bits \<and>
    foldl (\<lambda>m n. if m < n then n else m) a bits \<in> insert a (set bits)"
proof (induction bits arbitrary: a)
  case (Cons b bits)
  from Cons.IH [of "if a < b then b else a"] show ?case by (auto split: if_splits)
qed simp

lemma len_max_ge: "m \<in> set bits \<Longrightarrow> m \<le> len_max bits"
  using len_max_foldl [of bits 0] by (simp add: len_max_def)

lemma len_max_less: "list_all (\<lambda>m. m < 16) bits \<Longrightarrow> len_max bits < 16"
  using len_max_foldl [of bits 0] by (auto simp: len_max_def list_all_iff)

definition least :: "nat \<Rightarrow> nat \<Rightarrow> nat" where
  "least m n = (if n = 0 then m else if m = 0 \<or> n < m then n else m)"

lemma len_min_foldl:
  "(\<forall>m \<in> set bits. m \<noteq> 0 \<longrightarrow> foldl least a bits \<noteq> 0 \<and> foldl least a bits \<le> m) \<and>
    (a \<noteq> 0 \<longrightarrow> foldl least a bits \<noteq> 0 \<and> foldl least a bits \<le> a)"
proof (induction bits arbitrary: a)
  case (Cons b bits)
  from Cons.IH [of "least a b"] show ?case
    by (auto simp: least_def split: if_splits intro: le_trans less_imp_le)
qed simp

lemma len_min_le: "m \<in> set bits \<Longrightarrow> m \<noteq> 0 \<Longrightarrow> len_min bits \<noteq> 0 \<and> len_min bits \<le> m"
  using len_min_foldl [of bits 0] by (simp add: len_min_def least_def [abs_def])

lemma len_min_in: "len_min bits \<in> insert 0 (set bits)"
proof -
  have "foldl least a bits \<in> insert a (set bits)" for a
    by (induction bits arbitrary: a) (auto simp: least_def)
  then show ?thesis unfolding len_min_def least_def [abs_def] by blast
qed

lemma ncount_below_min: "n < len_min bits \<Longrightarrow> ncount bits n = 0"
  using len_min_le [of n bits] by (auto simp: ncount_def filter_empty_conv)

lemma first_code_below_min: "n \<le> len_min bits \<Longrightarrow> first_code bits n = 0"
  by (induction n) (simp_all add: ncount_below_min)

section \<open>The link tables\<close>

lemma make_link_run:
  assumes "j < 512"
  shows "make_link lb link j h =
    (Ok (), h\<lparr>hchunks := (hchunks h)[revbits 9 j := 16 * (j - link) + 10],
              hlinks := (hlinks h)[j - link := replicate (2 ^ lb) 0]\<rparr>)"
  using assms revbits_div_2 [of 16 j 7]
  by (simp add: make_link_def reverse16_run bindM_def lift_def modifyS_def)

lemma revbits_inj: "x < 2 ^ n \<Longrightarrow> y < 2 ^ n \<Longrightarrow> revbits n x = revbits n y \<Longrightarrow> x = y"
  by (metis revbits_revbits)

definition links_ok :: "nat \<Rightarrow> nat \<Rightarrow> nat \<Rightarrow> huffman \<Rightarrow> bool" where
  "links_ok lb link a h \<longleftrightarrow> length (hchunks h) = 512 \<and> length (hlinks h) = 512 - link \<and>
     (\<forall>j. a \<le> j \<and> j < 512 \<longrightarrow> hchunks h ! revbits 9 j = 16 * (j - link) + 10 \<and>
        length (hlinks h ! (j - link)) = 2 ^ lb)"

lemma make_link_loop:
  assumes "link \<le> a" "a \<le> 512" "length (hchunks h) = 512" "length (hlinks h) = 512 - link"
    and "\<forall>j. link \<le> j \<and> j < a \<longrightarrow> hchunks h ! revbits 9 j = 16 * (j - link) + 10 \<and>
        length (hlinks h ! (j - link)) = 2 ^ lb"
  shows "\<exists>h'. forM [a..<512] (make_link lb link) h = (Ok (), h') \<and> links_ok lb link link h' \<and>
    hmin h' = hmin h \<and> hlinkMask h' = hlinkMask h"
  using assms
proof (induction "512 - a" arbitrary: a h)
  case 0
  then show ?case by (simp add: links_ok_def)
next
  case (Suc k)
  then have a: "a < 512" by simp
  let ?h = "h\<lparr>hchunks := (hchunks h)[revbits 9 a := 16 * (a - link) + 10],
              hlinks := (hlinks h)[a - link := replicate (2 ^ lb) 0]\<rparr>"
  have "hchunks ?h ! revbits 9 j = 16 * (j - link) + 10 \<and> length (hlinks ?h ! (j - link)) = 2 ^ lb"
    if "link \<le> j" "j < Suc a" for j
  proof (cases "j = a")
    case True
    then show ?thesis using that Suc.prems a revbits_less [of 9 j] by simp
  next
    case False
    then have "revbits 9 j \<noteq> revbits 9 a" using revbits_inj [of j 9 a] that a by auto
    moreover have "j < a" "a - link \<noteq> j - link" using that False by auto
    ultimately show ?thesis using that Suc.prems by simp
  qed
  with Suc.hyps(1) [of "Suc a" ?h] Suc.hyps(2) Suc.prems a
  have "\<exists>h'. forM [Suc a..<512] (make_link lb link) ?h = (Ok (), h') \<and> links_ok lb link link h' \<and>
    hmin h' = hmin ?h \<and> hlinkMask h' = hlinkMask ?h" by simp
  with a show ?case by (simp add: upt_conv_Cons bindM_def make_link_run)
qed

lemma make_links_run:
  assumes "link \<le> 512" "length (hchunks h) = 512"
  shows "\<exists>h'. make_links lb link h = (Ok (), h') \<and> links_ok lb link link h' \<and>
    hmin h' = hmin h \<and> hlinkMask h' = hlinkMask h"
  using make_link_loop [of link link "h\<lparr>hlinks := replicate (512 - link) []\<rparr>" lb] assms
  by (simp add: make_links_def bindM_def modifyS_def)

section \<open>The first codes\<close>

lemma assign_codes_run:
  assumes "\<forall>n < 16. count ! n = ncount lens n" and "kraft lens" and "mx \<le> 15" and "i \<le> mx + 1"
    and "length nextcode = 16" and "length (hchunks h) = 512"
  shows "\<exists>next' h'. assign_codes lb count [i..<mx + 1] (first_code lens i) nextcode h = (Ok next', h') \<and>
    length next' = 16 \<and> (\<forall>n. i \<le> n \<and> n \<le> mx \<longrightarrow> next' ! n = first_code lens n) \<and>
    (\<forall>n < i. next' ! n = nextcode ! n) \<and>
    (if i \<le> 10 \<and> 10 \<le> mx then links_ok lb (first_code lens 10 div 2) (first_code lens 10 div 2) h' else h' = h) \<and>
    length (hchunks h') = 512 \<and> hmin h' = hmin h \<and> hlinkMask h' = hlinkMask h"
  using assms(4-6)
proof (induction "mx + 1 - i" arbitrary: i nextcode h)
  case 0
  then show ?case by auto
next
  case (Suc k)
  then have i: "i \<le> mx" by simp
  have first: "first_code lens (Suc i) = 2 * (first_code lens i + count ! i)" using assms(1,3) i by simp
  have "\<exists>h1. (if i = 10 then make_links lb (first_code lens i div 2) else ret ()) h = (Ok (), h1) \<and>
      (if i = 10 then links_ok lb (first_code lens 10 div 2) (first_code lens 10 div 2) h1 else h1 = h) \<and>
      length (hchunks h1) = 512 \<and> hmin h1 = hmin h \<and> hlinkMask h1 = hlinkMask h"
  proof (cases "i = 10")
    case True
    have "first_code lens 10 \<le> 2 ^ 10" using kraft_fits [OF assms(2), of 10] by simp
    then have "first_code lens 10 div 2 \<le> 512" by simp
    from make_links_run [OF this Suc.prems(3), of lb] obtain h1 where
      "make_links lb (first_code lens 10 div 2) h = (Ok (), h1)"
      "links_ok lb (first_code lens 10 div 2) (first_code lens 10 div 2) h1"
      "hmin h1 = hmin h" "hlinkMask h1 = hlinkMask h" by blast
    moreover from this(2) have "length (hchunks h1) = 512" by (simp add: links_ok_def)
    ultimately show ?thesis using True by auto
  qed (use Suc.prems in simp)
  then obtain h1 where h1: "(if i = 10 then make_links lb (first_code lens i div 2) else ret ()) h = (Ok (), h1)"
    "if i = 10 then links_ok lb (first_code lens 10 div 2) (first_code lens 10 div 2) h1 else h1 = h"
    "length (hchunks h1) = 512" "hmin h1 = hmin h" "hlinkMask h1 = hlinkMask h" by blast
  have "k = mx + 1 - Suc i" "Suc i \<le> mx + 1" "length (nextcode[i := first_code lens i]) = 16"
    using Suc.hyps(2) Suc.prems i by simp_all
  from Suc.hyps(1) [OF this h1(3)]
  obtain next' h' where r: "assign_codes lb count [Suc i..<mx + 1] (first_code lens (Suc i))
      (nextcode[i := first_code lens i]) h1 = (Ok next', h')"
    "length next' = 16" "\<forall>n. Suc i \<le> n \<and> n \<le> mx \<longrightarrow> next' ! n = first_code lens n"
    "\<forall>n < Suc i. next' ! n = nextcode[i := first_code lens i] ! n"
    "if Suc i \<le> 10 \<and> 10 \<le> mx then links_ok lb (first_code lens 10 div 2) (first_code lens 10 div 2) h' else h' = h1"
    "length (hchunks h') = 512" "hmin h' = hmin h1" "hlinkMask h' = hlinkMask h1" by blast
  have "[i..<mx + 1] = i # [Suc i..<mx + 1]" using i by (simp add: upt_conv_Cons)
  then have "assign_codes lb count [i..<mx + 1] (first_code lens i) nextcode h = (Ok next', h')"
    using r(1) unfolding first by (simp only: assign_codes.simps bindM_def h1(1) prod.case outcome.case)
  moreover have "\<forall>n. i \<le> n \<and> n \<le> mx \<longrightarrow> next' ! n = first_code lens n"
  proof (intro allI impI)
    fix n assume "i \<le> n \<and> n \<le> mx"
    then show "next' ! n = first_code lens n"
      using r(3,4) Suc.prems i assms(3) by (cases "n = i") auto
  qed
  moreover have "\<forall>n < i. next' ! n = nextcode ! n" using r(4) by auto
  moreover have "if i \<le> 10 \<and> 10 \<le> mx then links_ok lb (first_code lens 10 div 2) (first_code lens 10 div 2) h' else h' = h"
    using r(5) h1(2) i by (cases "i = 10") (auto simp: not_less_eq_eq split: if_splits)
  ultimately show ?case using r h1 by auto
qed

section \<open>The symbols\<close>

definition link_start :: "nat list \<Rightarrow> nat" where
  "link_start lens = first_code lens 10 div 2"

lemma link_start: "link_start lens = first_code lens 9 + ncount lens 9"
  using first_code.simps(2) [of lens 9] by (simp add: link_start_def del: first_code.simps)

lemma short_code_below_link:
  assumes "is_sym lens i" and "lens ! i \<le> 9" and "link_start lens \<le> j"
  shows "sym_code lens i < j div 2 ^ (9 - lens ! i)"
proof -
  let ?n = "lens ! i"
  have "(first_code lens ?n + ncount lens ?n) * 2 ^ (9 - ?n) \<le> link_start lens"
  proof (cases "?n = 9")
    case False
    then show ?thesis using first_code_mono [of ?n 9 lens] assms(2) by (simp add: link_start)
  qed (simp add: link_start)
  with assms(3) have "first_code lens ?n + ncount lens ?n \<le> j div 2 ^ (9 - ?n)"
    by (simp add: less_eq_div_iff_mult_less_eq)
  with sym_code_bounds(2) [OF assms(1)] show ?thesis by simp
qed

lemma link_not_short:
  assumes "kraft lens" and "is_sym lens i" and "lens ! i \<le> 9" and "link_start lens \<le> j" and "j < 512"
  shows "\<not> matches lens i (revbits 9 j)"
proof
  assume "matches lens i (revbits 9 j)"
  then have "revbits (lens ! i) (j div 2 ^ (9 - lens ! i)) = revbits (lens ! i) (sym_code lens i)"
    using assms(3) by (simp add: matches_def revbits_mod)
  moreover have "j div 2 ^ (9 - lens ! i) < 2 ^ (lens ! i)"
    using assms(3,5) by (simp add: less_mult_imp_div_less flip: power_add)
  ultimately have "j div 2 ^ (9 - lens ! i) = sym_code lens i"
    using revbits_inj sym_code_less [OF assms(1,2)] by blast
  with short_code_below_link [OF assms(2-4)] show False by simp
qed

lemma long_code_link:
  assumes "kraft lens" and "is_sym lens i" and "9 < lens ! i"
  shows "link_start lens \<le> sym_code lens i div 2 ^ (lens ! i - 9)"
    and "sym_code lens i div 2 ^ (lens ! i - 9) < 512"
proof -
  have "link_start lens * 2 ^ (lens ! i - 9) \<le> sym_code lens i"
    using first_code_mono [OF assms(3), of lens] sym_code_bounds(1) [OF assms(2)] by (simp add: link_start)
  then show "link_start lens \<le> sym_code lens i div 2 ^ (lens ! i - 9)"
    by (simp add: less_eq_div_iff_mult_less_eq)
  have "(2 :: nat) ^ (lens ! i) = 512 * 2 ^ (lens ! i - 9)"
    using assms(3) power_add [of "2 :: nat" 9 "lens ! i - 9"] by simp
  with sym_code_less [OF assms(1,2)] show "sym_code lens i div 2 ^ (lens ! i - 9) < 512"
    by (simp add: less_mult_imp_div_less)
qed

lemma two_digits: "b < 512 \<Longrightarrow> d < 512 \<Longrightarrow> 512 * a + b = 512 * c + d \<longleftrightarrow> b = d \<and> a = c"
  for a b c d :: nat
proof -
  assume "b < 512" "d < 512"
  then have "(512 * a + b) mod 512 = b" "(512 * c + d) mod 512 = d"
    "(512 * a + b) div 512 = a" "(512 * c + d) div 512 = c" by simp_all
  then show ?thesis by metis
qed

lemma matches_split:
  assumes "9 < lens ! i"
  shows "matches lens i w \<longleftrightarrow>
    w mod 512 = revbits 9 (sym_code lens i div 2 ^ (lens ! i - 9)) \<and>
    w div 512 mod 2 ^ (lens ! i - 9) = revbits (lens ! i - 9) (sym_code lens i)"
proof -
  let ?n = "lens ! i" and ?r = "revbits (lens ! i) (sym_code lens i)"
  have n: "(2 :: nat) ^ ?n = 512 * 2 ^ (?n - 9)" using assms power_add [of "2 :: nat" 9 "?n - 9"] by simp
  have "w mod 2 ^ ?n = 512 * (w div 512 mod 2 ^ (?n - 9)) + w mod 512"
    unfolding n by (rule mod_mult2_eq)
  then have "w mod 2 ^ ?n = ?r \<longleftrightarrow>
      512 * (w div 512 mod 2 ^ (?n - 9)) + w mod 512 = 512 * (?r div 512) + ?r mod 512" by simp
  also have "\<dots> \<longleftrightarrow> w mod 512 = ?r mod 512 \<and> w div 512 mod 2 ^ (?n - 9) = ?r div 512"
    by (rule two_digits) simp_all
  finally have "w mod 2 ^ ?n = ?r \<longleftrightarrow> w mod 512 = ?r mod 512 \<and> w div 512 mod 2 ^ (?n - 9) = ?r div 512" .
  moreover have "?r mod 512 = revbits 9 (sym_code lens i div 2 ^ (?n - 9))"
    using revbits_mod [of 9 ?n "sym_code lens i"] assms by simp
  moreover have "?r div 512 = revbits (?n - 9) (sym_code lens i)"
    using revbits_div_2 [of ?n "sym_code lens i" 9] by simp
  ultimately show ?thesis by (simp add: matches_def)
qed

definition tab_ok :: "nat list \<Rightarrow> nat \<Rightarrow> huffman \<Rightarrow> bool" where
  "tab_ok lens k h \<longleftrightarrow>
     length (hchunks h) = 512 \<and>
     (\<forall>i x. i < k \<and> is_sym lens i \<and> lens ! i \<le> 9 \<and> x < 512 \<and> matches lens i x \<longrightarrow>
        hchunks h ! x = 16 * i + lens ! i) \<and>
     (9 < len_max lens \<longrightarrow> links_ok (len_max lens - 9) (link_start lens) (link_start lens) h \<and>
        hlinkMask h = 2 ^ (len_max lens - 9) - 1) \<and>
     (\<forall>i w. i < k \<and> is_sym lens i \<and> 9 < lens ! i \<and> w < 2 ^ len_max lens \<and> matches lens i w \<longrightarrow>
        hlinks h ! (sym_code lens i div 2 ^ (lens ! i - 9) - link_start lens) ! (w div 512) = 16 * i + lens ! i)"

definition next_ok :: "nat list \<Rightarrow> nat \<Rightarrow> nat list \<Rightarrow> bool" where
  "next_ok lens k next \<longleftrightarrow> length next = 16 \<and>
     (\<forall>n. len_min lens \<le> n \<and> n \<le> len_max lens \<longrightarrow>
        next ! n = first_code lens n + length (filter (\<lambda>m. m = n) (take k lens)))"

lemma next_ok_sym: "next_ok lens k next \<Longrightarrow> is_sym lens k \<Longrightarrow> next ! (lens ! k) = sym_code lens k"
  using len_min_le [of "lens ! k" lens] len_max_ge [of "lens ! k" lens]
  by (simp add: next_ok_def is_sym_def sym_code_def rank_def)

lemma next_ok_Suc:
  assumes "next_ok lens k next" and "is_sym lens k"
  shows "next_ok lens (Suc k) (next[lens ! k := sym_code lens k + 1])"
  using assms next_ok_sym [OF assms]
  by (auto simp: next_ok_def is_sym_def take_Suc_conv_app_nth nth_list_update)

lemma next_ok_skip: "next_ok lens k next \<Longrightarrow> k < length lens \<Longrightarrow> lens ! k = 0 \<Longrightarrow> 0 < len_min lens \<Longrightarrow>
    next_ok lens (Suc k) next"
  by (auto simp: next_ok_def take_Suc_conv_app_nth)

lemma tab_ok_skip:
  assumes "tab_ok lens k h" and "lens ! k = 0"
  shows "tab_ok lens (Suc k) h"
proof -
  have "\<not> is_sym lens k" using assms(2) by (simp add: is_sym_def)
  with assms(1) show ?thesis unfolding tab_ok_def by (auto simp: less_Suc_eq)
qed

lemma tab_ok_short:
  assumes "tab_ok lens k h" and "kraft lens" and "is_sym lens k" and "lens ! k \<le> 9"
  shows "tab_ok lens (Suc k) (h\<lparr>hchunks :=
    fill_slots (revbits (lens ! k) (sym_code lens k)) (lens ! k) 512 (16 * k + lens ! k) (hchunks h)\<rparr>)"
proof -
  let ?new = "fill_slots (revbits (lens ! k) (sym_code lens k)) (lens ! k) 512 (16 * k + lens ! k) (hchunks h)"
  have new: "?new ! x = (if matches lens k x then 16 * k + lens ! k else hchunks h ! x)" if "x < 512" for x
    using that assms(1) by (simp add: fill_slots_mod revbits_less matches_def tab_ok_def)
  have "?new ! x = 16 * i + lens ! i"
    if "i < Suc k" "is_sym lens i" "lens ! i \<le> 9" "x < 512" "matches lens i x" for i x
  proof (cases "i = k")
    case True
    then show ?thesis using new that by simp
  next
    case False
    then have "\<not> matches lens k x" using matches_unique [OF assms(2,3) that(2) _ that(5)] by auto
    moreover have "i < k" using that(1) False by simp
    ultimately show ?thesis using new that assms(1) unfolding tab_ok_def by simp
  qed
  moreover have "links_ok lb link link (h\<lparr>hchunks := ?new\<rparr>)"
    if "links_ok lb link link h" "link = link_start lens" for lb link
    using that new link_not_short [OF assms(2-4)] revbits_less [of 9]
    by (simp add: links_ok_def)
  ultimately show ?thesis using assms(1,4) unfolding tab_ok_def by (auto simp: less_Suc_eq)
qed

lemma tab_ok_long:
  assumes "tab_ok lens k h" and "kraft lens" and "is_sym lens k" and "9 < lens ! k"
    and "v = sym_code lens k div 2 ^ (lens ! k - 9) - link_start lens"
  shows "tab_ok lens (Suc k) (h\<lparr>hlinks := (hlinks h)[v :=
    fill_slots (revbits (lens ! k - 9) (sym_code lens k)) (lens ! k - 9) (2 ^ (len_max lens - 9))
      (16 * k + lens ! k) (hlinks h ! v)]\<rparr>)" (is "tab_ok lens (Suc k) (h\<lparr>hlinks := (hlinks h)[v := ?new]\<rparr>)")
proof -
  let ?lb = "len_max lens - 9" and ?link = "link_start lens"
  have mx: "9 < len_max lens" "lens ! k \<le> len_max lens"
    using assms(3,4) len_max_ge [of "lens ! k" lens] by (simp_all add: is_sym_def)
  then have links: "links_ok ?lb ?link ?link h" using assms(1) by (simp add: tab_ok_def)
  note link = long_code_link [OF assms(2-4)]
  have len: "length (hlinks h ! v) = 2 ^ ?lb" "v < length (hlinks h)"
    using links link by (auto simp: links_ok_def assms(5))
  have new: "?new ! y = (if y mod 2 ^ (lens ! k - 9) = revbits (lens ! k - 9) (sym_code lens k)
      then 16 * k + lens ! k else hlinks h ! v ! y)" if "y < 2 ^ ?lb" for y
    using that len by (simp add: fill_slots_mod revbits_less)
  have entry: "(hlinks h)[v := ?new] ! (sym_code lens i div 2 ^ (lens ! i - 9) - ?link) ! (w div 512) = 16 * i + lens ! i"
    if i: "i < Suc k" "is_sym lens i" "9 < lens ! i" and w: "w < 2 ^ len_max lens" "matches lens i w" for i w
  proof -
    let ?j = "sym_code lens i div 2 ^ (lens ! i - 9)"
    have y: "w div 512 < 2 ^ ?lb"
      using w(1) mx(1) power_add [of "2 :: nat" 9 ?lb] by (simp add: less_mult_imp_div_less mult.commute)
    show ?thesis
    proof (cases "i = k")
      case True
      have "w div 512 mod 2 ^ (lens ! k - 9) = revbits (lens ! k - 9) (sym_code lens k)"
        using w(2) matches_split [OF assms(4)] True by blast
      with True new [OF y] len(2) show ?thesis by (simp add: assms(5))
    next
      case False
      with i(1) have ik: "i < k" by simp
      have old: "hlinks h ! (?j - ?link) ! (w div 512) = 16 * i + lens ! i"
        using assms(1) ik i w unfolding tab_ok_def by blast
      show ?thesis
      proof (cases "?j - ?link = v")
        case False
        with old show ?thesis by simp
      next
        case True
        then have j: "?j = sym_code lens k div 2 ^ (lens ! k - 9)"
          using eq_diff_iff [OF long_code_link(1) [OF assms(2) i(2,3)] link(1)] assms(5) by simp
        have "w div 512 mod 2 ^ (lens ! k - 9) \<noteq> revbits (lens ! k - 9) (sym_code lens k)"
        proof
          assume h: "w div 512 mod 2 ^ (lens ! k - 9) = revbits (lens ! k - 9) (sym_code lens k)"
          have "w mod 512 = revbits 9 ?j" using w(2) matches_split [OF i(3)] by blast
          with h j have "matches lens k w" using matches_split [OF assms(4)] by simp
          with matches_unique [OF assms(2) i(2) assms(3) w(2)] \<open>i \<noteq> k\<close> show False by blast
        qed
        with old new [OF y] True len(2) show ?thesis by simp
      qed
    qed
  qed
  moreover have "links_ok ?lb ?link ?link (h\<lparr>hlinks := (hlinks h)[v := ?new]\<rparr>)"
    using links len by (auto simp: links_ok_def nth_list_update)
  ultimately show ?thesis using assms(1,4) mx(1) unfolding tab_ok_def by (auto simp: less_Suc_eq)
qed

lemma put_symbol_run:
  assumes "tab_ok lens k h" and "next_ok lens k nextcode" and "kraft lens" and "k < length lens"
    and "lens ! k \<le> 15" and "0 < len_min lens"
    and num: "numLinks = (if 9 < len_max lens then 2 ^ (len_max lens - 9) else 0)"
  shows "\<exists>next' h'. put_symbol numLinks (k, lens ! k) nextcode h = (Ok next', h') \<and> tab_ok lens (Suc k) h' \<and>
    next_ok lens (Suc k) next' \<and> hmin h' = hmin h"
proof (cases "lens ! k = 0")
  case True
  with assms show ?thesis by (auto simp: put_symbol_def intro: tab_ok_skip next_ok_skip)
next
  case False
  let ?n = "lens ! k" and ?c = "sym_code lens k"
  have sym: "is_sym lens k" using assms(4,5) False by (simp add: is_sym_def)
  have code: "nextcode ! ?n = ?c" by (rule next_ok_sym [OF assms(2) sym])
  have c: "?c < 2 ^ ?n" by (rule sym_code_less [OF assms(3) sym])
  also have "(2 :: nat) ^ ?n \<le> 2 ^ 16" using assms(5) by (intro power_increasing) simp_all
  finally have r: "reverse16 ?c = Ok (revbits 16 ?c)" by (rule reverse16_run)
  have rev: "revbits 16 ?c div 2 ^ (16 - ?n) = revbits ?n ?c" by (rule revbits_div) (use assms(5) c in simp_all)
  have nxt: "next_ok lens (Suc k) (nextcode[?n := ?c + 1])" by (rule next_ok_Suc [OF assms(2) sym])
  show ?thesis
  proof (cases "?n \<le> 9")
    case True
    with tab_ok_short [OF assms(1,3) sym True] nxt False show ?thesis
      by (simp add: put_symbol_def code r rev bindM_def lift_def modifyS_def ret_def Let_def)
  next
    case long: False
    then have n: "9 < ?n" by simp
    have mx: "9 < len_max lens" using n len_max_ge [of ?n lens] assms(4) by simp
    let ?j = "?c div 2 ^ (?n - 9)" and ?link = "link_start lens"
    note link = long_code_link [OF assms(3) sym n]
    have links: "links_ok (len_max lens - 9) ?link ?link h" using assms(1) mx by (simp add: tab_ok_def)
    have low: "revbits ?n ?c mod 512 = revbits 9 ?j" using revbits_mod [of 9 ?n ?c] n by simp
    have high: "revbits ?n ?c div 512 = revbits (?n - 9) ?c" using revbits_div_2 [of ?n ?c 9] by simp
    have "hchunks h ! revbits 9 ?j = 16 * (?j - ?link) + 10"
      using links link by (simp add: links_ok_def)
    then have v: "hchunks h ! (revbits ?n ?c mod 512) div 16 = ?j - ?link" by (simp add: low)
    have "\<not> length (hlinks h) \<le> ?j - ?link" using links link by (simp add: links_ok_def)
    with tab_ok_long [OF assms(1,3) sym n refl] nxt False long num mx show ?thesis
      by (simp add: put_symbol_def code r rev v high bindM_def lift_def modifyS_def getS_def ret_def Let_def)
  qed
qed

lemma put_symbols_run:
  assumes "tab_ok lens k h" and "next_ok lens k nextcode" and "kraft lens" and "k \<le> length lens"
    and "list_all (\<lambda>n. n < 16) lens" and "0 < len_min lens"
    and num: "numLinks = (if 9 < len_max lens then 2 ^ (len_max lens - 9) else 0)"
  shows "\<exists>h'. put_symbols numLinks (enumerate k (drop k lens)) nextcode h = (Ok (), h') \<and>
    tab_ok lens (length lens) h' \<and> hmin h' = hmin h"
  using assms(1,2,4)
proof (induction "length lens - k" arbitrary: k nextcode h)
  case 0
  then show ?case by simp
next
  case (Suc d)
  then have k: "k < length lens" by simp
  then have "lens ! k \<le> 15" using assms(5) by (auto simp: list_all_length)
  from put_symbol_run [OF Suc.prems(1,2) assms(3) k this assms(6) num] obtain next' h1 where
    h1: "put_symbol numLinks (k, lens ! k) nextcode h = (Ok next', h1)" "tab_ok lens (Suc k) h1"
      "next_ok lens (Suc k) next'" "hmin h1 = hmin h" by blast
  have "d = length lens - Suc k" "Suc k \<le> length lens" using Suc.hyps(2) k by simp_all
  from Suc.hyps(1) [OF this(1) h1(2,3) this(2)] obtain h' where
    "put_symbols numLinks (enumerate (Suc k) (drop (Suc k) lens)) next' h1 = (Ok (), h')"
    "tab_ok lens (length lens) h'" "hmin h' = hmin h1" by blast
  moreover have "drop k lens = lens ! k # drop (Suc k) lens" using k by (simp add: Cons_nth_drop_Suc)
  ultimately show ?case using h1 by (simp add: bindM_Ok)
qed

section \<open>A table that decodes\<close>

definition decodes :: "nat list \<Rightarrow> huffman \<Rightarrow> bool" where
  "decodes lens h \<longleftrightarrow> hmin h = len_min lens \<and>
     (\<forall>i w. is_sym lens i \<and> matches lens i w \<longrightarrow> table_entry h w = Ok (Some (16 * i + lens ! i)))"

lemma matches_mod: "lens ! i \<le> k \<Longrightarrow> matches lens i (w mod 2 ^ k) \<longleftrightarrow> matches lens i w"
  by (simp add: matches_def mod_mod_cancel le_imp_power_dvd)

lemma tab_ok_decodes:
  assumes "tab_ok lens (length lens) h" and "kraft lens" and "is_sym lens i" and "matches lens i w"
  shows "table_entry h w = Ok (Some (16 * i + lens ! i))"
proof (cases "lens ! i \<le> 9")
  case True
  then have "matches lens i (w mod 512)" using matches_mod [of lens i 9 w] assms(4) by simp
  with assms True have "hchunks h ! (w mod 512) = 16 * i + lens ! i" "length (hchunks h) = 512"
    unfolding tab_ok_def by (simp_all add: is_sym_def)
  with True show ?thesis by (simp add: table_entry_def)
next
  case False
  then have n: "9 < lens ! i" by simp
  let ?mx = "len_max lens" and ?j = "sym_code lens i div 2 ^ (lens ! i - 9)" and ?link = "link_start lens"
  have mx: "lens ! i \<le> ?mx" "9 < ?mx" using n len_max_ge [of "lens ! i" lens] assms(3) by (simp_all add: is_sym_def)
  have links: "links_ok (?mx - 9) ?link ?link h" "hlinkMask h = 2 ^ (?mx - 9) - 1"
    using assms(1) mx(2) by (simp_all add: tab_ok_def)
  note link = long_code_link [OF assms(2,3) n]
  have low: "w mod 512 = revbits 9 ?j" using assms(4) matches_split [OF n] by blast
  have chunk: "index_go (hchunks h) (w mod 512) = Ok (16 * (?j - ?link) + 10)"
    using links(1) link revbits_less [of 9 ?j] by (simp add: links_ok_def low)
  have "w mod 2 ^ ?mx div 512 = (w div 512) mod 2 ^ (?mx - 9)"
  proof -
    have "(2 :: nat) ^ ?mx = 512 * 2 ^ (?mx - 9)" using mx(2) power_add [of "2 :: nat" 9 "?mx - 9"] by simp
    then show ?thesis by (simp add: mod_mult2_eq)
  qed
  moreover have "(w div 512) AND hlinkMask h = (w div 512) mod 2 ^ (?mx - 9)"
    unfolding links(2) take_bit_eq_mod [symmetric] take_bit_eq_mask mask_eq_exp_minus_1 by (rule refl)
  moreover have "hlinks h ! (?j - ?link) ! (w mod 2 ^ ?mx div 512) = 16 * i + lens ! i"
    using assms mx n matches_mod [of lens i ?mx w] unfolding tab_ok_def by (simp add: is_sym_def)
  moreover have "?j - ?link < length (hlinks h)" "length (hlinks h ! (?j - ?link)) = 2 ^ (?mx - 9)"
    using links(1) link by (auto simp: links_ok_def)
  moreover have "(16 * i + lens ! i) mod 16 \<noteq> 0" using assms(3) n by (simp add: is_sym_def)
  ultimately show ?thesis
    using chunk by (simp add: table_entry_def)
qed

lemma huff_init_run:
  assumes "kraft lens" and "list_all (\<lambda>n. n < 16) lens" and "list_ex (\<lambda>n. n \<noteq> 0) lens" and "hmin h \<noteq> 0 \<or> h = zero_huffman"
    and "len_min lens \<le> 10"
  shows "\<exists>h'. huff_init lens h = (Ok (), h') \<and> decodes lens h'"
proof -
  have h0: "(if hmin h \<noteq> 0 then zero_huffman else h) = zero_huffman" using assms(4) by auto
  obtain m where m: "m \<in> set lens" "m \<noteq> 0" using assms(3) by (auto simp: list_ex_iff)
  have mx: "len_max lens \<noteq> 0" "len_max lens \<le> 15" using len_max_ge [OF m(1)] m(2) len_max_less [OF assms(2)] by simp_all
  have mn: "0 < len_min lens" "len_min lens \<le> len_max lens"
    using len_min_le [OF m] len_max_ge [OF m(1)] by simp_all
  let ?num = "if 9 < len_max lens then 2 ^ (len_max lens - 9) else (0 :: nat)"
  let ?h1 = "zero_huffman\<lparr>hmin := len_min lens, hlinkMask := (if 9 < len_max lens then ?num - 1 else hlinkMask zero_huffman)\<rparr>"
  have cnt: "\<forall>n < 16. len_count lens ! n = ncount lens n" using len_count_nth [OF assms(2)] by blast
  have "length (hchunks ?h1) = 512" by (simp add: zero_huffman_def)
  from assign_codes_run [where i = "len_min lens" and lb = "len_max lens - 9" and nextcode = "replicate 16 0",
      OF cnt assms(1) mx(2) _ _ this] mn(2)
  obtain next' h2 where a: "assign_codes (len_max lens - 9) (len_count lens) [len_min lens..<len_max lens + 1] 0
      (replicate 16 0) ?h1 = (Ok next', h2)"
    "length next' = 16" "\<forall>n. len_min lens \<le> n \<and> n \<le> len_max lens \<longrightarrow> next' ! n = first_code lens n"
    "if len_min lens \<le> 10 \<and> 10 \<le> len_max lens then links_ok (len_max lens - 9) (link_start lens) (link_start lens) h2 else h2 = ?h1"
    "length (hchunks h2) = 512" "hmin h2 = hmin ?h1" "hlinkMask h2 = hlinkMask ?h1"
    unfolding first_code_below_min [OF order_refl] link_start_def by (auto simp only: length_replicate trans_le_add1)
  have tab: "tab_ok lens 0 h2"
    using a(4,5,7) assms(5) by (simp add: tab_ok_def split: if_splits)
  have nxt: "next_ok lens 0 next'" using a(2,3) by (simp add: next_ok_def)
  from put_symbols_run [OF tab nxt assms(1) _ assms(2) mn(1) refl] obtain h' where
    h': "put_symbols ?num (enumerate 0 lens) next' h2 = (Ok (), h')" "tab_ok lens (length lens) h'" "hmin h' = hmin h2"
    by auto
  have "list_ex (\<lambda>n. 16 \<le> n) lens = False" using assms(2) by (auto simp: list_ex_iff list_all_iff)
  moreover have "(len_max lens = 0) = False" using mx(1) by simp
  ultimately have "huff_init lens h = (Ok (), h')"
    by (simp only: huff_init_def bindM_def modifyS_def h0 Let_def prod.case outcome.case if_False a(1) h'(1))
  moreover have "decodes lens h'"
    using h'(3) a(6) tab_ok_decodes [OF h'(2) assms(1)] by (simp add: decodes_def)
  ultimately show ?thesis by blast
qed

section \<open>Codes seen from their front\<close>

text \<open>
  With the lengths of a code scaled to fifteen bits the codes lie one behind the other from zero on. So bits
  that begin a code, followed by zeros, belong to a symbol that is no longer.
\<close>

lemma sym_of_rank: "0 < n \<Longrightarrow> r < ncount lens n \<Longrightarrow> \<exists>j < length lens. lens ! j = n \<and> rank lens j = r"
proof (induction lens rule: rev_induct)
  case (snoc m lens)
  have rank: "rank (lens @ [m]) j = rank lens j" if "j < length lens" for j
    using that by (simp add: rank_def nth_append)
  show ?case
  proof (cases "r < ncount lens n")
    case True
    with snoc rank show ?thesis by (metis length_append_singleton less_SucI nth_append)
  next
    case False
    with snoc.prems have "m = n" "r = ncount lens n" by (auto simp: ncount_def split: if_splits)
    then have "rank (lens @ [m]) (length lens) = r" using snoc.prems(1) by (simp add: rank_def ncount_def nth_append)
    with \<open>m = n\<close> show ?thesis by (intro exI [of _ "length lens"]) simp
  qed
qed (simp add: ncount_def)

definition code_end :: "nat list \<Rightarrow> nat \<Rightarrow> nat" where
  "code_end lens n = (first_code lens n + ncount lens n) * 2 ^ (15 - n)"

lemma code_end_Suc: "n < 15 \<Longrightarrow> first_code lens (Suc n) * 2 ^ (15 - Suc n) = code_end lens n"
proof -
  assume "n < 15"
  then have "(2 :: nat) ^ (15 - n) = 2 * 2 ^ (15 - Suc n)" by (simp add: Suc_diff_Suc flip: power_Suc)
  then show ?thesis by (simp add: code_end_def)
qed

lemma code_covered:
  assumes "v < code_end lens n" and "n \<le> 15"
  shows "\<exists>j. is_sym lens j \<and> lens ! j \<le> n \<and> v div 2 ^ (15 - lens ! j) = sym_code lens j"
proof -
  define k where "k = (LEAST k. v < code_end lens k)"
  have k: "v < code_end lens k" "k \<le> n" unfolding k_def using assms(1) by (auto intro: LeastI Least_le)
  then have "k \<noteq> 0" by (auto simp: code_end_def ncount_def intro: ccontr)
  then obtain k' where k': "k = Suc k'" using not0_implies_Suc by blast
  have "\<not> v < code_end lens k'" using not_less_Least [of k' "\<lambda>k. v < code_end lens k"] by (simp add: k_def [symmetric] k')
  then have "first_code lens k * 2 ^ (15 - k) \<le> v" using code_end_Suc [of k' lens] k(2) assms(2) k' by simp
  then have "first_code lens k \<le> v div 2 ^ (15 - k)" by (simp add: less_eq_div_iff_mult_less_eq)
  moreover have "v div 2 ^ (15 - k) < first_code lens k + ncount lens k"
    using k(1) by (simp add: code_end_def less_mult_imp_div_less)
  ultimately have "v div 2 ^ (15 - k) - first_code lens k < ncount lens k" by linarith
  from sym_of_rank [OF _ this] \<open>k \<noteq> 0\<close>
  obtain j where j: "j < length lens" "lens ! j = k" "rank lens j = v div 2 ^ (15 - k) - first_code lens k"
    by auto
  with \<open>first_code lens k \<le> v div 2 ^ (15 - k)\<close> k(2) assms(2) \<open>k \<noteq> 0\<close> show ?thesis
    by (intro exI [of _ j]) (simp add: is_sym_def sym_code_def)
qed

lemma matches_rev15:
  assumes "kraft lens" and "is_sym lens i" and "w < 2 ^ 15"
  shows "matches lens i w \<longleftrightarrow> revbits 15 w div 2 ^ (15 - lens ! i) = sym_code lens i"
proof -
  have n: "lens ! i \<le> 15" using assms(2) by (simp add: is_sym_def)
  have "revbits 15 w div 2 ^ (15 - lens ! i) = revbits (lens ! i) w" using revbits_div_2 [of 15 w "15 - lens ! i"] n by simp
  then have "revbits 15 w div 2 ^ (15 - lens ! i) = sym_code lens i \<longleftrightarrow>
      revbits (lens ! i) (w mod 2 ^ (lens ! i)) = revbits (lens ! i) (revbits (lens ! i) (sym_code lens i))"
    using revbits_take [of "lens ! i" "lens ! i" w] revbits_revbits [OF sym_code_less [OF assms(1,2)]] by simp
  also have "\<dots> \<longleftrightarrow> w mod 2 ^ (lens ! i) = revbits (lens ! i) (sym_code lens i)"
    using revbits_inj [of "w mod 2 ^ (lens ! i)" "lens ! i"] revbits_less by auto
  finally show ?thesis by (simp add: matches_def)
qed

lemma partial_match:
  assumes "kraft lens" and "is_sym lens i" and "matches lens i w" and "w < 2 ^ 15"
  shows "\<exists>j. is_sym lens j \<and> matches lens j (w mod 2 ^ m) \<and> lens ! j \<le> lens ! i"
proof -
  let ?v = "revbits 15 w" and ?v' = "revbits 15 (w mod 2 ^ m)"
  have "?v div 2 ^ (15 - lens ! i) < first_code lens (lens ! i) + ncount lens (lens ! i)"
    using matches_rev15 [OF assms(1,2,4)] assms(3) sym_code_bounds(2) [OF assms(2)] by simp
  then have "?v < code_end lens (lens ! i)" by (simp add: code_end_def div_less_iff_less_mult)
  moreover have "?v' \<le> ?v"
  proof -
    have "?v' = ?v AND ?v'"
      by (rule bit_eqI) (auto simp: bit_and_iff bit_revbits bit_take_bit_iff simp flip: take_bit_eq_mod)
    then show ?thesis by (metis and_nat_def of_nat_0_le_iff AND_upper1 nat_le_iff nat_int)
  qed
  ultimately have "?v' < code_end lens (lens ! i)" by simp
  with code_covered [of ?v' lens "lens ! i"] assms(2) obtain j where
    j: "is_sym lens j" "lens ! j \<le> lens ! i" "?v' div 2 ^ (15 - lens ! j) = sym_code lens j"
    by (auto simp: is_sym_def)
  have "w mod 2 ^ m < 2 ^ 15" using assms(4) by (rule le_less_trans [OF mod_less_eq_dividend])
  with j matches_rev15 [OF assms(1) j(1)] show ?thesis by blast
qed

end
