(* ===== verification/FixedHuff.thy ===== *)
theory FixedHuff
  imports Huffman
begin

text \<open>
  The generated decoding table of \<^verbatim>\<open>flexflate/fixedhuff.go\<close> and the code it stands for.
\<close>

definition fixed_chunks :: "nat list" where
  "fixed_chunks = [
     4103, 1288, 264, 4488, 4359, 1800, 776, 3081, 4231, 1544, 520, 2569, 8, 2056, 1032, 3593,
     4167, 1416, 392, 2313, 4423, 1928, 904, 3337, 4295, 1672, 648, 2825, 136, 2184, 1160, 3849,
     4135, 1352, 328, 4552, 4391, 1864, 840, 3209, 4263, 1608, 584, 2697, 72, 2120, 1096, 3721,
     4199, 1480, 456, 2441, 4455, 1992, 968, 3465, 4327, 1736, 712, 2953, 200, 2248, 1224, 3977,
     4119, 1320, 296, 4520, 4375, 1832, 808, 3145, 4247, 1576, 552, 2633, 40, 2088, 1064, 3657,
     4183, 1448, 424, 2377, 4439, 1960, 936, 3401, 4311, 1704, 680, 2889, 168, 2216, 1192, 3913,
     4151, 1384, 360, 4584, 4407, 1896, 872, 3273, 4279, 1640, 616, 2761, 104, 2152, 1128, 3785,
     4215, 1512, 488, 2505, 4471, 2024, 1000, 3529, 4343, 1768, 744, 3017, 232, 2280, 1256, 4041,
     4103, 1304, 280, 4504, 4359, 1816, 792, 3113, 4231, 1560, 536, 2601, 24, 2072, 1048, 3625,
     4167, 1432, 408, 2345, 4423, 1944, 920, 3369, 4295, 1688, 664, 2857, 152, 2200, 1176, 3881,
     4135, 1368, 344, 4568, 4391, 1880, 856, 3241, 4263, 1624, 600, 2729, 88, 2136, 1112, 3753,
     4199, 1496, 472, 2473, 4455, 2008, 984, 3497, 4327, 1752, 728, 2985, 216, 2264, 1240, 4009,
     4119, 1336, 312, 4536, 4375, 1848, 824, 3177, 4247, 1592, 568, 2665, 56, 2104, 1080, 3689,
     4183, 1464, 440, 2409, 4439, 1976, 952, 3433, 4311, 1720, 696, 2921, 184, 2232, 1208, 3945,
     4151, 1400, 376, 4600, 4407, 1912, 888, 3305, 4279, 1656, 632, 2793, 120, 2168, 1144, 3817,
     4215, 1528, 504, 2537, 4471, 2040, 1016, 3561, 4343, 1784, 760, 3049, 248, 2296, 1272, 4073,
     4103, 1288, 264, 4488, 4359, 1800, 776, 3097, 4231, 1544, 520, 2585, 8, 2056, 1032, 3609,
     4167, 1416, 392, 2329, 4423, 1928, 904, 3353, 4295, 1672, 648, 2841, 136, 2184, 1160, 3865,
     4135, 1352, 328, 4552, 4391, 1864, 840, 3225, 4263, 1608, 584, 2713, 72, 2120, 1096, 3737,
     4199, 1480, 456, 2457, 4455, 1992, 968, 3481, 4327, 1736, 712, 2969, 200, 2248, 1224, 3993,
     4119, 1320, 296, 4520, 4375, 1832, 808, 3161, 4247, 1576, 552, 2649, 40, 2088, 1064, 3673,
     4183, 1448, 424, 2393, 4439, 1960, 936, 3417, 4311, 1704, 680, 2905, 168, 2216, 1192, 3929,
     4151, 1384, 360, 4584, 4407, 1896, 872, 3289, 4279, 1640, 616, 2777, 104, 2152, 1128, 3801,
     4215, 1512, 488, 2521, 4471, 2024, 1000, 3545, 4343, 1768, 744, 3033, 232, 2280, 1256, 4057,
     4103, 1304, 280, 4504, 4359, 1816, 792, 3129, 4231, 1560, 536, 2617, 24, 2072, 1048, 3641,
     4167, 1432, 408, 2361, 4423, 1944, 920, 3385, 4295, 1688, 664, 2873, 152, 2200, 1176, 3897,
     4135, 1368, 344, 4568, 4391, 1880, 856, 3257, 4263, 1624, 600, 2745, 88, 2136, 1112, 3769,
     4199, 1496, 472, 2489, 4455, 2008, 984, 3513, 4327, 1752, 728, 3001, 216, 2264, 1240, 4025,
     4119, 1336, 312, 4536, 4375, 1848, 824, 3193, 4247, 1592, 568, 2681, 56, 2104, 1080, 3705,
     4183, 1464, 440, 2425, 4439, 1976, 952, 3449, 4311, 1720, 696, 2937, 184, 2232, 1208, 3961,
     4151, 1400, 376, 4600, 4407, 1912, 888, 3321, 4279, 1656, 632, 2809, 120, 2168, 1144, 3833,
     4215, 1528, 504, 2553, 4471, 2040, 1016, 3577, 4343, 1784, 760, 3065, 248, 2296, 1272, 4089]"

definition fixedHuffmanDecoder :: huffman where
  "fixedHuffmanDecoder = \<lparr>hmin = 7, hchunks = fixed_chunks, hlinks = [], hlinkMask = 0\<rparr>"

text \<open>RFC 1951, section 3.2.6.\<close>

definition fixed_lens :: "nat list" where
  "fixed_lens = replicate 144 8 @ replicate 112 9 @ replicate 24 7 @ replicate 8 8"

text \<open>The entry for nine bits whose value, the first bit highest, is \<open>v\<close>.\<close>

definition fixed_entry :: "nat \<Rightarrow> nat" where
  "fixed_entry v =
     (if v < 96 then 16 * (256 + v div 4) + 7
      else if v < 384 then 16 * (v div 2 - 48) + 8
      else if v < 400 then 16 * (v div 2 + 88) + 8
      else 16 * (v - 256) + 9)"

lemma revbits_Suc: "revbits (Suc n) y = of_bool (bit y n) + 2 * revbits n y"
  by (simp add: revbits_def)

lemma revbits9:
  "x < 256 \<Longrightarrow> revbits 9 x = 2 * (reverseByte ! x)"
  "x < 256 \<Longrightarrow> revbits 9 (256 + x) = 2 * (reverseByte ! x) + 1"
proof -
  have step: "revbits 9 y = 2 * revbits 8 y + of_bool (bit y 8)" for y
    using revbits_Suc [of 8 y] by simp
  have "\<not> bit x 8" if "x < 256" using nat_bit_less [of x 8 8] that by auto
  moreover have "revbits 8 (256 + x) = revbits 8 x"
    using revbits_take [of 8 8 "256 + x"] revbits_take [of 8 8 x] by simp
  moreover have "bit (256 + x) 8" if "x < 256" using that by (simp add: bit_iff_odd div_add_self1)
  ultimately show "x < 256 \<Longrightarrow> revbits 9 x = 2 * (reverseByte ! x)"
    "x < 256 \<Longrightarrow> revbits 9 (256 + x) = 2 * (reverseByte ! x) + 1"
    by (simp_all add: step reverseByte_nth)
qed

lemma fixed_chunks_halves:
  "map (\<lambda>r. fixed_entry (2 * r)) reverseByte @ map (\<lambda>r. fixed_entry (2 * r + 1)) reverseByte = fixed_chunks"
  unfolding reverseByte_def fixed_chunks_def by (simp add: fixed_entry_def)

lemma fixed_chunks_nth: "x < 512 \<Longrightarrow> fixed_chunks ! x = fixed_entry (revbits 9 x)"
  unfolding fixed_chunks_halves [symmetric]
  using revbits9(1) [of x] revbits9(2) [of "x - 256"] by (auto simp: nth_append)

lemma fixed_ncount:
  "ncount fixed_lens n = (if n = 7 then 24 else if n = 8 then 152 else if n = 9 then 112 else 0)"
  by (simp add: ncount_def fixed_lens_def filter_replicate)

lemma first_code_pred: "0 < n \<Longrightarrow> first_code lens n = 2 * (first_code lens (n - 1) + ncount lens (n - 1))"
  by (cases n) simp_all

lemma fixed_first_code: "first_code fixed_lens 7 = 0" "first_code fixed_lens 8 = 48" "first_code fixed_lens 9 = 400"
  "first_code fixed_lens 15 = 32768"
  by (simp_all add: fixed_ncount first_code_pred)

lemma fixed_kraft: "kraft fixed_lens"
  by (simp add: kraft_def fixed_ncount fixed_first_code)

lemma fixed_nth:
  "i < 288 \<Longrightarrow> fixed_lens ! i = (if i < 144 then 8 else if i < 256 then 9 else if i < 280 then 7 else 8)"
  by (auto simp: fixed_lens_def nth_append)

lemma fixed_sym_code:
  "i < 288 \<Longrightarrow> sym_code fixed_lens i =
    (if i < 144 then 48 + i else if i < 256 then 256 + i else if i < 280 then i - 256 else i - 88)"
  by (auto simp: sym_code_def rank_def fixed_nth fixed_first_code)
    (auto simp: fixed_lens_def filter_replicate)

lemma length_fixed_chunks: "length fixed_chunks = 512"
  unfolding fixed_chunks_halves [symmetric] by simp

lemma fixed_entry_code:
  assumes "i < 288" and "v div 2 ^ (9 - fixed_lens ! i) = sym_code fixed_lens i"
  shows "fixed_entry v = 16 * i + fixed_lens ! i"
proof -
  consider "i < 144" | "144 \<le> i" "i < 256" | "256 \<le> i" "i < 280" | "280 \<le> i" by linarith
  then show ?thesis
  proof cases
    case 1
    with assms have "v div 2 = 48 + i" by (simp add: fixed_nth fixed_sym_code)
    with 1 assms(1) show ?thesis by (simp add: fixed_nth fixed_entry_def) linarith
  next
    case 2
    with assms have "v = 256 + i" by (simp add: fixed_nth fixed_sym_code)
    with 2 show ?thesis by (simp add: fixed_nth fixed_entry_def)
  next
    case 3
    with assms have "v div 4 = i - 256" by (simp add: fixed_nth fixed_sym_code)
    with 3 show ?thesis by (simp add: fixed_nth fixed_entry_def) linarith
  next
    case 4
    with assms have "v div 2 = i - 88" by (simp add: fixed_nth fixed_sym_code)
    with 4 assms(1) show ?thesis by (simp add: fixed_nth fixed_entry_def) linarith
  qed
qed

text \<open>The generated table decodes the fixed code.\<close>

lemma fixed_decodes: "decodes fixed_lens fixedHuffmanDecoder"
  unfolding decodes_def
proof (intro conjI allI impI)
  have "set fixed_lens = {7, 8, 9}" by (auto simp: fixed_lens_def)
  then show "hmin fixedHuffmanDecoder = len_min fixed_lens"
    using len_min_in [of fixed_lens] len_min_le [of 7 fixed_lens] by (auto simp: fixedHuffmanDecoder_def)
next
  fix i w assume "is_sym fixed_lens i \<and> matches fixed_lens i w"
  then have i: "is_sym fixed_lens i" "i < 288" and m: "matches fixed_lens i w"
    by (simp_all add: is_sym_def fixed_lens_def)
  then have n: "fixed_lens ! i \<le> 9" by (simp add: fixed_nth)
  have "revbits 9 (w mod 512) div 2 ^ (9 - fixed_lens ! i) = revbits (fixed_lens ! i) (w mod 512)"
    using revbits_div_2 [of 9 "w mod 512" "9 - fixed_lens ! i"] n by simp
  also have "\<dots> = revbits (fixed_lens ! i) (w mod 2 ^ (fixed_lens ! i))"
    using revbits_take [OF n, of w] revbits_take [of "fixed_lens ! i" "fixed_lens ! i" w] by simp
  also have "\<dots> = sym_code fixed_lens i"
    using m revbits_revbits [OF sym_code_less [OF fixed_kraft i(1)]] by (simp add: matches_def)
  finally have "fixed_entry (revbits 9 (w mod 512)) = 16 * i + fixed_lens ! i"
    by (rule fixed_entry_code [OF i(2)])
  moreover have "(16 * i + fixed_lens ! i) mod 16 = fixed_lens ! i" using n by simp
  ultimately show "table_entry fixedHuffmanDecoder w = Ok (Some (16 * i + fixed_lens ! i))"
    using n by (simp add: table_entry_def fixedHuffmanDecoder_def length_fixed_chunks fixed_chunks_nth)
qed

end
