(* ===== verification/ForwardCopy.thy ===== *)
theory ForwardCopy
  imports Prelude
begin

text \<open>
  \<open>forwardCopy\<close> of \<^verbatim>\<open>flexflate/copy.go\<close>: a copy inside one slice that goes forward byte by byte even when the
  two ranges overlap, made of calls of \<open>copy\<close>, which does not.
\<close>

definition copy_within :: "'a list \<Rightarrow> nat \<Rightarrow> nat \<Rightarrow> nat \<Rightarrow> 'a list outcome" where
  "copy_within mem dst src n =
     (if length mem < src + n then Panic SliceOutOfRange
      else copy_go mem dst n (take n (drop src mem)))"

text \<open>The loop; it is entered with \<open>src < dst\<close>.\<close>

function forward_loop :: "'a list \<Rightarrow> nat \<Rightarrow> nat \<Rightarrow> nat \<Rightarrow> 'a list outcome" where
  "forward_loop mem dst src n =
     (if dst \<le> src \<or> src + n \<le> dst then copy_within mem dst src n
      else
        let k = dst - src in
        (case copy_within mem dst src k of
           Ok mem' \<Rightarrow> forward_loop mem' (dst + k) src (n - k)
         | r \<Rightarrow> r))"
  by pat_completeness auto
termination
  by (relation "measure (\<lambda>(mem, dst, src, n). n)") auto

definition forwardCopy :: "'a list \<Rightarrow> nat \<Rightarrow> nat \<Rightarrow> nat \<Rightarrow> 'a list outcome" where
  "forwardCopy mem dst src n =
     (if dst \<le> src then copy_within mem dst src n else forward_loop mem dst src n)"

declare forward_loop.simps [simp del]

section \<open>The loop the comment gives\<close>

text \<open>\<open>for i := 0; i < n; i++ { mem[dst+i] = mem[src+i] }\<close>.\<close>

fun copy_bytes :: "'a list \<Rightarrow> nat \<Rightarrow> nat \<Rightarrow> nat \<Rightarrow> 'a list" where
  "copy_bytes mem dst src 0 = mem"
| "copy_bytes mem dst src (Suc n) = copy_bytes (mem[dst := mem ! src]) (dst + 1) (src + 1) n"

lemma length_copy_bytes [simp]: "length (copy_bytes mem dst src n) = length mem"
  by (induction n arbitrary: mem dst src) simp_all

lemma copy_bytes_snoc:
  "copy_bytes mem dst src (Suc n) =
    (copy_bytes mem dst src n)[dst + n := copy_bytes mem dst src n ! (src + n)]"
proof (induction n arbitrary: mem dst src)
  case (Suc n)
  let ?m = "mem[dst := mem ! src]"
  have "copy_bytes mem dst src (Suc (Suc n)) = copy_bytes ?m (dst + 1) (src + 1) (Suc n)"
    by (rule copy_bytes.simps)
  also have "\<dots> = (copy_bytes ?m (dst + 1) (src + 1) n)[dst + 1 + n := copy_bytes ?m (dst + 1) (src + 1) n ! (src + 1 + n)]"
    by (rule Suc.IH)
  also have "copy_bytes ?m (dst + 1) (src + 1) n = copy_bytes mem dst src (Suc n)"
    by (rule copy_bytes.simps(2) [symmetric])
  finally show ?case by simp
qed simp

lemma copy_bytes_add:
  "copy_bytes mem dst src (a + b) = copy_bytes (copy_bytes mem dst src a) (dst + a) (src + a) b"
proof (induction a arbitrary: mem dst src)
  case (Suc a)
  then show ?case by simp
qed simp

text \<open>What \<open>copy\<close> writes.\<close>

lemma copy_within_run:
  assumes "src + n \<le> length mem" and "dst + n \<le> length mem"
  shows "\<exists>mem'. copy_within mem dst src n = Ok mem' \<and> length mem' = length mem \<and>
    (\<forall>x < length mem. mem' ! x = (if dst \<le> x \<and> x < dst + n then mem ! (src + (x - dst)) else mem ! x))"
proof -
  let ?m = "take dst mem @ take n (drop src mem) @ drop (dst + n) mem"
  have "copy_within mem dst src n = Ok ?m"
    using assms by (simp add: copy_within_def copy_go_Ok)
  moreover have "length ?m = length mem" using assms by simp
  moreover have "?m ! x = (if dst \<le> x \<and> x < dst + n then mem ! (src + (x - dst)) else mem ! x)"
    if "x < length mem" for x
  proof -
    consider "x < dst" | "dst \<le> x" "x < dst + n" "x - dst < n" | "dst + n \<le> x" "\<not> x - dst < n" by linarith
    then show ?thesis using that assms by cases (simp_all add: nth_append)
  qed
  ultimately show ?thesis by blast
qed

text \<open>Going forward is the same when the destination does not run into the source.\<close>

lemma copy_bytes_back:
  assumes "dst \<le> src" and "src + n \<le> length mem"
  shows "\<forall>x < length mem.
    copy_bytes mem dst src n ! x = (if dst \<le> x \<and> x < dst + n then mem ! (src + (x - dst)) else mem ! x)"
  using assms(2)
proof (induction n)
  case (Suc n)
  then have IH: "\<forall>x < length mem. copy_bytes mem dst src n ! x =
      (if dst \<le> x \<and> x < dst + n then mem ! (src + (x - dst)) else mem ! x)" by simp
  then have "copy_bytes mem dst src n ! (src + n) = mem ! (src + n)" using Suc.prems assms(1) by simp
  with IH show ?case
    unfolding copy_bytes_snoc using Suc.prems assms(1) by (auto simp: nth_list_update)
qed auto

text \<open>Otherwise the bytes between source and destination are repeated.\<close>

lemma copy_bytes_repeat:
  assumes "src < dst" and "dst + n \<le> length mem"
  shows "\<forall>x < length mem.
    copy_bytes mem dst src n ! x =
      (if dst \<le> x \<and> x < dst + n then mem ! (src + (x - dst) mod (dst - src)) else mem ! x)"
  using assms(2)
proof (induction n)
  case (Suc n)
  then have IH: "\<forall>x < length mem. copy_bytes mem dst src n ! x =
      (if dst \<le> x \<and> x < dst + n then mem ! (src + (x - dst) mod (dst - src)) else mem ! x)" by simp
  have new: "copy_bytes mem dst src n ! (src + n) = mem ! (src + n mod (dst - src))"
  proof (cases "src + n < dst")
    case True
    then have "n mod (dst - src) = n" by simp
    with True IH Suc.prems show ?thesis by simp
  next
    case False
    then have "n mod (dst - src) = (src + n - dst) mod (dst - src)"
      using assms(1) by (subst le_mod_geq) (simp_all add: diff_diff_right add.commute)
    with False IH Suc.prems assms(1) show ?thesis by simp
  qed
  with IH show ?case
    unfolding copy_bytes_snoc using Suc.prems assms(1) by (auto simp: nth_list_update)
qed auto

lemma mod_double: "r < 2 * k \<Longrightarrow> r mod k = (if r < k then r else r - k)" for r k :: nat
  by (simp add: le_mod_geq)

lemma forward_loop_run:
  assumes "src < dst" and "dst + n \<le> length mem"
  shows "\<exists>mem'. forward_loop mem dst src n = Ok mem' \<and> length mem' = length mem \<and>
    (\<forall>x < length mem. mem' ! x =
      (if dst \<le> x \<and> x < dst + n then mem ! (src + (x - dst) mod (dst - src)) else mem ! x))"
  using assms
proof (induction mem dst src n rule: forward_loop.induct)
  case (1 mem dst src n)
  let ?k = "dst - src"
  show ?case
  proof (cases "src + n \<le> dst")
    case True
    then have "(x - dst) mod ?k = x - dst" if "dst \<le> x \<and> x < dst + n" for x using that by auto
    with True copy_within_run [of src n mem dst] "1.prems" show ?thesis
      by (subst forward_loop.simps) auto
  next
    case False
    have "src + ?k \<le> length mem" "dst + ?k \<le> length mem" using False "1.prems" by auto
    from copy_within_run [OF this] obtain mem1 where
      m: "copy_within mem dst src ?k = Ok mem1" "length mem1 = length mem"
        "\<forall>x < length mem. mem1 ! x = (if dst \<le> x \<and> x < dst + ?k then mem ! (src + (x - dst)) else mem ! x)"
      by blast
    have "\<not> (dst \<le> src \<or> src + n \<le> dst)" "src < dst + ?k" "dst + ?k + (n - ?k) \<le> length mem1"
      using False "1.prems" m(2) by auto
    from "1.IH" [OF this(1) refl m(1) this(2,3)] obtain mem' where
      r: "forward_loop mem1 (dst + ?k) src (n - ?k) = Ok mem'" "length mem' = length mem1"
      "\<forall>x < length mem1. mem' ! x = (if dst + ?k \<le> x \<and> x < dst + ?k + (n - ?k)
          then mem1 ! (src + (x - (dst + ?k)) mod (dst + ?k - src)) else mem1 ! x)" by blast
    have "mem' ! x = (if dst \<le> x \<and> x < dst + n then mem ! (src + (x - dst) mod ?k) else mem ! x)"
      if x: "x < length mem" for x
    proof (cases "dst + ?k \<le> x \<and> x < dst + n")
      case True
      define q where "q = (x - (dst + ?k)) mod (2 * ?k)"
      have two: "dst + ?k - src = 2 * ?k" using "1.prems"(1) by simp
      have r2: "q < 2 * ?k" using "1.prems"(1) by (simp add: q_def)
      have "(x - dst) mod ?k = q mod ?k"
      proof -
        have "x - dst = ?k + (x - (dst + ?k))" using True by simp
        then have "(x - dst) mod ?k = (x - (dst + ?k)) mod ?k" by (metis mod_add_self1)
        also have "\<dots> = q mod ?k" by (simp add: q_def mod_mod_cancel)
        finally show ?thesis .
      qed
      moreover have "q mod ?k = (if q < ?k then q else q - ?k)"
        by (rule mod_double [OF r2])
      moreover have "mem1 ! (src + q) = mem ! (src + (if q < ?k then q else q - ?k))"
      proof (cases "q < ?k")
        case True
        then have "\<not> dst \<le> src + q" using "1.prems"(1) by linarith
        with True m(3) x "1.prems" show ?thesis by simp
      next
        case False
        then have "dst \<le> src + q" "src + q < dst + ?k" "src + q - dst = q - ?k"
          using r2 "1.prems"(1) by simp_all
        moreover have "src + q < length mem" using calculation(2) True x by linarith
        ultimately show ?thesis using m(3) False by simp
      qed
      ultimately show ?thesis using r(3) m(2) x True two by (simp add: q_def)
    next
      case False
      have "(x - dst) mod ?k = x - dst" if "dst \<le> x" "x < dst + ?k" using that by simp
      with False r(3) m(2,3) x \<open>\<not> (dst \<le> src \<or> src + n \<le> dst)\<close> show ?thesis by auto
    qed
    moreover have "forward_loop mem dst src n = Ok mem'"
      using \<open>\<not> (dst \<le> src \<or> src + n \<le> dst)\<close> m(1) r(1) by (subst forward_loop.simps) (simp add: Let_def)
    ultimately show ?thesis using r(2) m(2) by auto
  qed
qed

lemma forwardCopy_run:
  assumes "src + n \<le> length mem" and "dst + n \<le> length mem"
  shows "forwardCopy mem dst src n = Ok (copy_bytes mem dst src n)"
proof (cases "dst \<le> src")
  case True
  from copy_within_run [OF assms] obtain mem' where
    m: "copy_within mem dst src n = Ok mem'" "length mem' = length mem"
      "\<forall>x < length mem. mem' ! x = (if dst \<le> x \<and> x < dst + n then mem ! (src + (x - dst)) else mem ! x)" by blast
  have "mem' = copy_bytes mem dst src n"
    using m(2,3) copy_bytes_back [OF True assms(1)] by (intro nth_equalityI) simp_all
  with m(1) True show ?thesis by (simp add: forwardCopy_def)
next
  case False
  then have "src < dst" by simp
  from forward_loop_run [OF this assms(2)] obtain mem' where
    m: "forward_loop mem dst src n = Ok mem'" "length mem' = length mem"
      "\<forall>x < length mem. mem' ! x =
        (if dst \<le> x \<and> x < dst + n then mem ! (src + (x - dst) mod (dst - src)) else mem ! x)" by blast
  have "mem' = copy_bytes mem dst src n"
    using m(2,3) copy_bytes_repeat [OF \<open>src < dst\<close> assms(2)] by (intro nth_equalityI) simp_all
  with m(1) False show ?thesis by (simp add: forwardCopy_def)
qed

text \<open>
  (C35) \<open>forwardCopy\<close> is the loop its comment gives, byte by byte from the front, for every position of the two
  ranges, also when they overlap.
\<close>

theorem forwardCopy_bytewise:
  assumes "src + n \<le> length mem" and "dst + n \<le> length mem"
  shows "forwardCopy mem dst src n = Ok (copy_bytes mem dst src n)"
  by (rule forwardCopy_run [OF assms])

theorem forwardCopy_bytewise_witness:
  "forwardCopy [1, 2, 3, 0, 0, 0, 0, 0, 9 :: nat] 3 1 5 = Ok [1, 2, 3, 2, 3, 2, 3, 2, 9]"
  using forwardCopy_bytewise [of 1 5 "[1, 2, 3, 0, 0, 0, 0, 0, 9 :: nat]" 3] by (simp add: eval_nat_numeral)

end
