(* ===== verification/Inflate.thy ===== *)
theory Inflate
  imports FixedHuff ForwardCopy
begin

text \<open>
  The inflator of \<^verbatim>\<open>flexflate/inflate.go\<close>: its state, the steps of its state machine, \<open>Read\<close>, and the
  operation it was copied from the Go library for, \<open>SwapReader\<close>.
\<close>

section \<open>The state\<close>

text \<open>
  The history is an array of 32768 bytes. \<open>hl\<close> and \<open>hd\<close> point to one of the decoders; a missing \<open>hd\<close> is the fixed
  distance code. \<open>toRead\<close> is a slice of the history; it is read before the history changes. The step to be
  taken next is one of four methods. The scratch bytes \<open>buf\<close> do not outlive the method that fills
  them. Offsets only occur in messages and are kept as integers.
\<close>

datatype flate_step = NextBlock | HuffmanBlock | CopyHuff | CopyData

datatype decoder = FixedDecoder | H1 | H2

record decompressor = reader +
  roffset :: int
  woffset :: int
  bbuf :: u32
  nb :: nat
  h1 :: huffman
  h2 :: huffman
  bits :: "nat list"
  codebits :: "nat list"
  hist :: "u8 list"
  hp :: nat
  hw :: nat
  hfull :: bool
  flstep :: flate_step
  final :: bool
  derr :: "goerr option"
  toRead :: "u8 list"
  hl :: decoder
  hd :: "decoder option"
  copyLen :: nat
  copyDist :: nat

definition maxHist :: nat where
  "maxHist = 32768"

definition corrupt :: "decompressor \<Rightarrow> goerr" where
  "corrupt f = CorruptInput (roffset f)"

text \<open>A call whose error is stored in \<open>f.err\<close>, after which the method returns (with \<open>d\<close>).\<close>

definition set_err ::
  "'b \<Rightarrow> (decompressor, 'a) prog \<Rightarrow> ('a \<Rightarrow> (decompressor, 'b) prog) \<Rightarrow> (decompressor, 'b) prog" where
  "set_err d m k f =
     (case m f of
        (Ok a, f') \<Rightarrow> k a f'
      | (Err e, f') \<Rightarrow> (Ok d, f'\<lparr>derr := Some e\<rparr>)
      | (Panic p, f') \<Rightarrow> (Panic p, f')
      | (Diverge, f') \<Rightarrow> (Diverge, f'))"

section \<open>Bits\<close>

definition moreBits :: "(decompressor, unit) prog" where
  "moreBits f =
     (case read_byte f of
        (Ok c, f') \<Rightarrow>
          (Ok (), f'\<lparr>roffset := roffset f' + 1, bbuf := bbuf f' OR push_bit (nb f') (ucast c), nb := nb f' + 8\<rparr>)
      | (Err e, f') \<Rightarrow> (Err (if e = EOF then UnexpectedEOF else e), f')
      | (Panic p, f') \<Rightarrow> (Panic p, f')
      | (Diverge, f') \<Rightarrow> (Diverge, f'))"

lemma moreBits_nb: "moreBits f = (Ok (), f') \<Longrightarrow> nb f' = nb f + 8"
  by (auto simp: moreBits_def read_byte_def split: list.splits)

text \<open>\<open>for f.nb < n { f.moreBits() }\<close>.\<close>

function needBits :: "nat \<Rightarrow> (decompressor, unit) prog" where
  "needBits n f =
     (if nb f < n
      then (case moreBits f of
              (Ok _, f') \<Rightarrow> needBits n f'
            | r \<Rightarrow> r)
      else (Ok (), f))"
  by pat_completeness auto
termination
  by (relation "measure (\<lambda>(n, f). n - nb f)") (auto dest!: moreBits_nb [OF sym])

definition peekBits :: "nat \<Rightarrow> decompressor \<Rightarrow> nat" where
  "peekBits n f = unat (bbuf f) mod 2 ^ n"

definition dropBits :: "nat \<Rightarrow> decompressor \<Rightarrow> decompressor" where
  "dropBits n f = f\<lparr>bbuf := drop_bit n (bbuf f), nb := nb f - n\<rparr>"

definition takeBits :: "nat \<Rightarrow> (decompressor, nat) prog" where
  "takeBits n f = (Ok (peekBits n f), dropBits n f)"

lemma needBits_nb:
  "needBits n f = (Ok u, f') \<Longrightarrow> n \<le> nb f' \<and> nb f \<le> nb f' \<and> (nb f < n \<longrightarrow> nb f < nb f')"
proof (induction n f rule: needBits.induct)
  case (1 n f)
  show ?case
  proof (cases "nb f < n")
    case True
    with 1(2) obtain f1 where f1: "moreBits f = (Ok (), f1)" "needBits n f1 = (Ok u, f')"
      by (auto split: prod.splits outcome.splits)
    from 1(1) [OF True f1(1) [symmetric] refl f1(2)] moreBits_nb [OF f1(1)] show ?thesis by linarith
  next
    case False
    with 1(2) show ?thesis by simp
  qed
qed

declare needBits.simps [simp del]

section \<open>Symbols\<close>

definition decoder_of :: "decompressor \<Rightarrow> decoder \<Rightarrow> huffman" where
  "decoder_of f d = (case d of FixedDecoder \<Rightarrow> fixedHuffmanDecoder | H1 \<Rightarrow> h1 f | H2 \<Rightarrow> h2 f)"

lemma huffSym_loop_less:
  assumes "(Ok u, f1) = needBits n f" and "\<not> chunk mod 16 \<le> nb f1"
  shows "2 * (16 - nb f1) + (if chunk mod 16 \<le> nb f1 then 1 else 0) <
    2 * (16 - nb f) + (if n \<le> nb f then 1 else 0 :: nat)"
proof -
  have "chunk mod 16 < 16" by simp
  with needBits_nb [OF assms(1) [symmetric]] assms(2) show ?thesis by auto
qed

text \<open>The loop of \<open>huffSym\<close>: \<open>n\<close> is the number of bits the code is known to have at least.\<close>

function huffSym_loop :: "huffman \<Rightarrow> nat \<Rightarrow> (decompressor, nat) prog" where
  "huffSym_loop h n f =
     (case needBits n f of
        (Ok _, f1) \<Rightarrow>
          (case table_entry h (unat (bbuf f1)) of
             Ok None \<Rightarrow> (Err (corrupt f1), f1\<lparr>derr := Some (corrupt f1)\<rparr>)
           | Ok (Some chunk) \<Rightarrow>
               if chunk mod 16 \<le> nb f1 then (Ok (chunk div 16), dropBits (chunk mod 16) f1)
               else huffSym_loop h (chunk mod 16) f1
           | Err e \<Rightarrow> (Err e, f1)
           | Panic p \<Rightarrow> (Panic p, f1)
           | Diverge \<Rightarrow> (Diverge, f1))
      | (Err e, f1) \<Rightarrow> (Err e, f1)
      | (Panic p, f1) \<Rightarrow> (Panic p, f1)
      | (Diverge, f1) \<Rightarrow> (Diverge, f1))"
  by pat_completeness auto
termination
  by (relation "measure (\<lambda>(h, n, f). 2 * (16 - nb f) + (if n \<le> nb f then 1 else 0))")
    (use huffSym_loop_less in \<open>auto simp only: in_measure split_conv wf_measure\<close>)

definition huffSym :: "decoder \<Rightarrow> (decompressor, nat) prog" where
  "huffSym d f = huffSym_loop (decoder_of f d) (hmin (decoder_of f d)) f"

section \<open>The header of a block with its own codes\<close>

definition codeOrder :: "nat list" where
  "codeOrder = [16, 17, 18, 0, 8, 7, 9, 6, 10, 5, 11, 4, 12, 3, 13, 2, 14, 1, 15]"

definition init_table ::
  "(decompressor \<Rightarrow> huffman) \<Rightarrow> (huffman \<Rightarrow> decompressor \<Rightarrow> decompressor) \<Rightarrow> nat list \<Rightarrow> (decompressor, unit) prog" where
  "init_table get put lens f =
     (case huff_init lens (get f) of
        (Ok _, h) \<Rightarrow> (Ok (), put h f)
      | (Err _, h) \<Rightarrow> (Err (corrupt f), put h f)
      | (Panic p, h) \<Rightarrow> (Panic p, put h f)
      | (Diverge, h) \<Rightarrow> (Diverge, put h f))"

abbreviation init_h1 :: "nat list \<Rightarrow> (decompressor, unit) prog" where
  "init_h1 \<equiv> init_table h1 (\<lambda>h f. f\<lparr>h1 := h\<rparr>)"

abbreviation init_h2 :: "nat list \<Rightarrow> (decompressor, unit) prog" where
  "init_h2 \<equiv> init_table h2 (\<lambda>h f. f\<lparr>h2 := h\<rparr>)"

text \<open>One turn of the loop over the code lengths; the result is the next index.\<close>

definition read_length :: "nat \<Rightarrow> nat \<Rightarrow> (decompressor, nat) prog" where
  "read_length n i =
     bindM (huffSym H1) (\<lambda>x.
     if x < 16 then bindM (modifyS (\<lambda>f. f\<lparr>bits := (bits f)[i := x]\<rparr>)) (\<lambda>_. ret (i + 1))
     else if 18 < x then fail (InternalError ''unexpected length code'')
     else
       bindM getS (\<lambda>f.
       if x = 16 \<and> i = 0 then fail (corrupt f)
       else
         let (rep, k, b) = (if x = 16 then (3, 2, bits f ! (i - 1)) else if x = 17 then (3, 3, 0) else (11, 7, 0)) in
         bindM (needBits k) (\<lambda>_. bindM (takeBits k) (\<lambda>e.
         bindM getS (\<lambda>f.
         if n < i + (rep + e) then fail (corrupt f)
         else
           bindM (modifyS (\<lambda>f. f\<lparr>bits := fold (\<lambda>j bs. bs[j := b]) [i..<i + (rep + e)] (bits f)\<rparr>)) (\<lambda>_.
           ret (i + (rep + e))))))))"

lemma read_length_more: "read_length n i f = (Ok i', f') \<Longrightarrow> i < i'"
  by (auto simp: read_length_def Let_def elim!: bindM_OkE split: if_splits)

function read_lengths :: "nat \<Rightarrow> nat \<Rightarrow> (decompressor, unit) prog" where
  "read_lengths n i f =
     (if i < n
      then (case read_length n i f of
              (Ok i', f') \<Rightarrow> read_lengths n i' f'
            | (Err e, f') \<Rightarrow> (Err e, f')
            | (Panic p, f') \<Rightarrow> (Panic p, f')
            | (Diverge, f') \<Rightarrow> (Diverge, f'))
      else (Ok (), f))"
  by pat_completeness auto
termination
  by (relation "measure (\<lambda>(n, i, f). n - i)") (auto dest!: read_length_more [OF sym])

text \<open>The bits of one length of the code for the lengths.\<close>

definition read_codebit :: "nat \<Rightarrow> (decompressor, unit) prog" where
  "read_codebit i =
     bindM (needBits 3) (\<lambda>_. bindM (takeBits 3) (\<lambda>v.
     modifyS (\<lambda>f. f\<lparr>codebits := (codebits f)[codeOrder ! i := v]\<rparr>)))"

definition readHuffman :: "(decompressor, unit) prog" where
  "readHuffman =
     bindM (needBits 14) (\<lambda>_. bindM getS (\<lambda>f.
     let nlit = peekBits 5 f + 257 in
     if 286 < nlit then fail (corrupt f)
     else
       bindM (takeBits 5) (\<lambda>_. bindM (takeBits 5) (\<lambda>d. bindM (takeBits 4) (\<lambda>c.
       let ndist = d + 1; nclen = c + 4 in
       bindM (forM [0..<nclen] read_codebit) (\<lambda>_.
       bindM (forM [nclen..<19] (\<lambda>i. modifyS (\<lambda>f. f\<lparr>codebits := (codebits f)[codeOrder ! i := 0]\<rparr>))) (\<lambda>_.
       bindM getS (\<lambda>f. bindM (init_h1 (codebits f)) (\<lambda>_.
       bindM (read_lengths (nlit + ndist) 0) (\<lambda>_.
       bindM getS (\<lambda>f. bindM (init_h1 (take nlit (bits f))) (\<lambda>_.
       init_h2 (take ndist (drop nlit (bits f)))))))))))))))"

section \<open>Output\<close>

text \<open>\<open>f.flush(step)\<close>.\<close>

definition flush :: "flate_step \<Rightarrow> (decompressor, unit) prog" where
  "flush st f =
     (if hp f < hw f \<or> maxHist < hp f then (Panic SliceOutOfRange, f)
      else
        let f1 = f\<lparr>toRead := take (hp f - hw f) (drop (hw f) (hist f)), woffset := woffset f + int (hp f - hw f),
                   hw := hp f\<rparr>;
            f2 = (if hp f1 = maxHist then f1\<lparr>hp := 0, hw := 0, hfull := True\<rparr> else f1)
        in (Ok (), f2\<lparr>flstep := st\<rparr>))"

text \<open>The loop of \<open>copyHist\<close> from position \<open>p\<close>; the result tells whether the history is full.\<close>

function copy_loop :: "nat \<Rightarrow> (decompressor, bool) prog" where
  "copy_loop p f =
     (if copyLen f = 0 then (Ok False, f)
      else if maxHist < hp f \<or> maxHist < p then (Panic SliceOutOfRange, f)
      else
        let n = min (copyLen f) (min (maxHist - hp f) (maxHist - p)) in
        (case forwardCopy (hist f) (hp f) p n of
           Ok mem \<Rightarrow>
             if hp f + n = maxHist
             then bindM (flush CopyHuff) (\<lambda>_. ret True) (f\<lparr>hist := mem, hp := hp f + n, copyLen := copyLen f - n\<rparr>)
             else copy_loop (if p + n = maxHist then 0 else p + n)
                    (f\<lparr>hist := mem, hp := hp f + n, copyLen := copyLen f - n\<rparr>)
         | Err e \<Rightarrow> (Err e, f)
         | Panic q \<Rightarrow> (Panic q, f)
         | Diverge \<Rightarrow> (Diverge, f)))"
  by pat_completeness auto
termination
  by (relation "measure (\<lambda>(p, f). 2 * copyLen f + (if p = maxHist then 1 else 0))") (auto simp: maxHist_def min_def)

definition copyHist :: "(decompressor, bool) prog" where
  "copyHist f = copy_loop (if copyDist f \<le> hp f then hp f - copyDist f else hp f + maxHist - copyDist f) f"

section \<open>What reading input leaves alone\<close>

definition same_output :: "decompressor \<Rightarrow> decompressor \<Rightarrow> bool" where
  "same_output f f' \<longleftrightarrow> hist f' = hist f \<and> hp f' = hp f \<and> hw f' = hw f \<and> hfull f' = hfull f \<and>
     toRead f' = toRead f \<and> copyLen f' = copyLen f \<and> copyDist f' = copyDist f \<and> flstep f' = flstep f \<and>
     hl f' = hl f \<and> hd f' = hd f \<and> rend f' = rend f \<and> final f' = final f"

interpretation outputs: frame same_output
  by unfold_locales (auto simp: same_output_def)

lemma same_output_more: "keeps same_output moreBits"
  by (auto simp: keeps_def moreBits_def read_byte_def same_output_def split: list.split)

lemma same_output_need: "keeps same_output (needBits n)"
  unfolding keeps_def
proof
  fix f
  show "same_output f (snd (needBits n f))"
  proof (induction n f rule: needBits.induct)
    case (1 n f)
    obtain r f1 where m: "moreBits f = (r, f1)" by (cases "moreBits f")
    have "same_output f f1" using keepsD [OF same_output_more m] .
    with 1 m show ?case
      by (subst needBits.simps) (auto intro: outputs.trans outputs.refl split: outcome.split)
  qed
qed

lemma same_output_drop: "same_output f (dropBits n f)"
  by (simp add: same_output_def dropBits_def)

lemma same_output_take: "keeps same_output (takeBits n)"
  by (simp add: keeps_def takeBits_def same_output_drop)

lemma same_output_err: "same_output f (f\<lparr>derr := e\<rparr>)"
  by (simp add: same_output_def)

lemma same_output_sym_loop: "same_output f (snd (huffSym_loop h n f))"
proof (induction h n f rule: huffSym_loop.induct)
  case (1 h n f)
  obtain r f1 where m: "needBits n f = (r, f1)" by (cases "needBits n f")
  have "same_output f f1" using keepsD [OF same_output_need m] .
  with 1 m show ?case
    by (subst huffSym_loop.simps)
      (auto intro: outputs.trans same_output_drop same_output_err
        split: outcome.split option.split)
qed

declare huffSym_loop.simps [simp del]

lemma same_output_sym: "keeps same_output (huffSym d)"
  by (simp add: keeps_def huffSym_def same_output_sym_loop)

section \<open>A compressed block\<close>

text \<open>The base and the number of extra bits of a length symbol.\<close>

definition length_code :: "nat \<Rightarrow> nat \<times> nat" where
  "length_code v =
     (if v < 265 then (v - (257 - 3), 0)
      else if v < 269 then (v * 2 - (265 * 2 - 11), 1)
      else if v < 273 then (v * 4 - (269 * 4 - 19), 2)
      else if v < 277 then (v * 8 - (273 * 8 - 35), 3)
      else if v < 281 then (v * 16 - (277 * 16 - 67), 4)
      else if v < 285 then (v * 32 - (281 * 32 - 131), 5)
      else (258, 0))"

definition read_dist_sym :: "(decompressor, nat) prog" where
  "read_dist_sym =
     bindM getS (\<lambda>f.
     case hd f of
       None \<Rightarrow> bindM (needBits 5) (\<lambda>_. bindM (takeBits 5) (\<lambda>x. ret (reverseByte ! (x * 2 ^ 3))))
     | Some d \<Rightarrow> huffSym d)"

definition read_dist :: "(decompressor, nat) prog" where
  "read_dist =
     bindM read_dist_sym (\<lambda>d.
     if d < 4 then ret (d + 1)
     else if 30 \<le> d then bindM getS (\<lambda>f. fail (corrupt f))
     else
       let k = (d - 2) div 2 in
       bindM (needBits k) (\<lambda>_. bindM (takeBits k) (\<lambda>e.
       ret (2 ^ (k + 1) + 1 + (d mod 2 * 2 ^ k + e)))))"

lemma same_output_dist: "keeps same_output read_dist"
  unfolding read_dist_def read_dist_sym_def Let_def
  by (intro outputs.keeps_prog keeps_case_option same_output_need same_output_take same_output_sym)

definition copy_match :: "nat \<Rightarrow> nat \<Rightarrow> (decompressor, bool) prog" where
  "copy_match len dist =
     bindM (modifyS (\<lambda>f. f\<lparr>copyLen := len, copyDist := dist\<rparr>)) (\<lambda>_.
     bindM copyHist (\<lambda>full. ret (\<not> full)))"

text \<open>One turn of the loop of \<open>huffmanBlock\<close>; the result tells whether there is another.\<close>

definition put_literal :: "nat \<Rightarrow> (decompressor, bool) prog" where
  "put_literal v =
     bindM getS (\<lambda>f.
     if maxHist \<le> hp f then panic IndexOutOfRange
     else
       bindM (modifyS (\<lambda>f. f\<lparr>hist := (hist f)[hp f := of_nat v], hp := hp f + 1\<rparr>)) (\<lambda>_.
       if hp f + 1 = maxHist then bindM (flush HuffmanBlock) (\<lambda>_. ret False) else ret True))"

text \<open>The checks of the distance; the length may run past what has been written.\<close>

definition copy_checked :: "nat \<Rightarrow> nat \<Rightarrow> (decompressor, bool) prog" where
  "copy_checked len dist =
     bindM getS (\<lambda>f.
     if maxHist < dist
     then bindM (modifyS (\<lambda>f. f\<lparr>derr := Some (InternalError ''bad history distance'')\<rparr>)) (\<lambda>_. ret False)
     else if \<not> hfull f \<and> hp f < dist
     then bindM (modifyS (\<lambda>f. f\<lparr>derr := Some (corrupt f)\<rparr>)) (\<lambda>_. ret False)
     else copy_match len dist)"

definition huff_match :: "nat \<Rightarrow> (decompressor, bool) prog" where
  "huff_match v =
     (case length_code v of (base, n) \<Rightarrow>
      set_err False (bindM (needBits n) (\<lambda>_. takeBits n)) (\<lambda>e.
      set_err False read_dist (copy_checked (base + e))))"

definition huff_item :: "(decompressor, bool) prog" where
  "huff_item =
     set_err False (bindM getS (\<lambda>f. huffSym (hl f))) (\<lambda>v.
     if v < 256 then put_literal v
     else if v = 256 then bindM (modifyS (\<lambda>f. f\<lparr>flstep := NextBlock\<rparr>)) (\<lambda>_. ret False)
     else huff_match v)"

lemma copy_loop_grows:
  "copy_loop p f = (Ok False, f') \<Longrightarrow> hp f' = hp f + copyLen f \<and> (copyLen f = 0 \<or> hp f < maxHist)"
proof (induction p f rule: copy_loop.induct)
  case (1 p f)
  show ?case
  proof (cases "copyLen f = 0 \<or> maxHist < hp f \<or> maxHist < p")
    case True
    with "1.prems" show ?thesis by (subst (asm) copy_loop.simps) (auto split: if_splits)
  next
    case False
    let ?n = "min (copyLen f) (min (maxHist - hp f) (maxHist - p))"
    let ?f = "\<lambda>mem. f\<lparr>hist := mem, hp := hp f + ?n, copyLen := copyLen f - ?n\<rparr>"
    from False "1.prems" obtain mem where mem: "forwardCopy (hist f) (hp f) p ?n = Ok mem"
      by (subst (asm) copy_loop.simps) (auto simp: Let_def split: outcome.splits)
    show ?thesis
    proof (cases "hp f + ?n = maxHist")
      case True
      with False "1.prems" mem show ?thesis
        by (subst (asm) copy_loop.simps) (auto simp: Let_def bindM_def ret_def split: outcome.splits prod.splits)
    next
      case next_turn: False
      with False "1.prems" mem
      have "copy_loop (if p + ?n = maxHist then 0 else p + ?n) (?f mem) = (Ok False, f')"
        by (subst (asm) copy_loop.simps) (simp add: Let_def)
      from "1.IH" [OF _ _ refl mem next_turn this] False
      have "hp f' = hp (?f mem) + copyLen (?f mem)" by simp
      moreover have "hp f < maxHist" using False next_turn by (auto simp: min_def split: if_splits)
      ultimately show ?thesis by simp
    qed
  qed
qed

declare copy_loop.simps [simp del]

lemma length_code_pos: "256 < v \<Longrightarrow> 0 < fst (length_code v)"
  by (auto simp: length_code_def)

lemma set_err_OkE:
  assumes "set_err d m k f = (Ok b, f')" and "b \<noteq> d"
  obtains a f1 where "m f = (Ok a, f1)" and "k a f1 = (Ok b, f')"
  using assms by (auto simp: set_err_def split: prod.splits outcome.splits)

lemma put_literal_grows:
  "put_literal v f = (Ok True, f') \<Longrightarrow> hp f' = hp f + 1 \<and> hp f < maxHist"
  by (auto simp: put_literal_def bindM_def getS_def modifyS_def ret_def panic_def flush_def Let_def
      split: if_splits)

lemma copy_match_grows:
  "copy_match len dist f = (Ok True, f') \<Longrightarrow> 0 < len \<Longrightarrow> hp f' = hp f + len \<and> hp f < maxHist"
  by (auto simp: copy_match_def copyHist_def modifyS_def elim!: bindM_OkE dest!: copy_loop_grows)

lemma copy_checked_grows:
  "copy_checked len dist f = (Ok True, f') \<Longrightarrow> 0 < len \<Longrightarrow> hp f < hp f' \<and> hp f < maxHist"
  by (auto simp: copy_checked_def bindM_def modifyS_def getS_def ret_def dest: copy_match_grows split: if_splits)

lemma huff_match_grows:
  assumes "huff_match v f = (Ok True, f')" and "256 < v"
  shows "hp f < hp f' \<and> hp f < maxHist"
proof -
  obtain base n where len: "length_code v = (base, n)" by (cases "length_code v")
  have "set_err False (bindM (needBits n) (\<lambda>_. takeBits n)) (\<lambda>e. set_err False read_dist (copy_checked (base + e))) f =
      (Ok True, f')" using assms(1) len by (simp add: huff_match_def)
  then obtain e f2 where e: "bindM (needBits n) (\<lambda>_. takeBits n) f = (Ok e, f2)"
    and k2: "set_err False read_dist (copy_checked (base + e)) f2 = (Ok True, f')"
    by (rule set_err_OkE) simp
  from k2 obtain dist f3 where d: "read_dist f2 = (Ok dist, f3)" and m: "copy_checked (base + e) dist f3 = (Ok True, f')"
    by (rule set_err_OkE) simp
  have "hp f2 = hp f" "hp f3 = hp f2"
    using keepsD [OF outputs.keeps_bindM [OF same_output_need same_output_take] e] keepsD [OF same_output_dist d]
    by (simp_all add: same_output_def)
  with copy_checked_grows [OF m] length_code_pos [OF assms(2)] len show ?thesis by simp
qed

lemma huff_item_grows:
  assumes "huff_item f = (Ok True, f')"
  shows "hp f < hp f' \<and> hp f < maxHist"
proof -
  from assms obtain v f1 where v: "bindM getS (\<lambda>f. huffSym (hl f)) f = (Ok v, f1)"
    and k: "(if v < 256 then put_literal v
     else if v = 256 then bindM (modifyS (\<lambda>f. f\<lparr>flstep := NextBlock\<rparr>)) (\<lambda>_. ret False)
     else huff_match v) f1 = (Ok True, f')"
    unfolding huff_item_def by (rule set_err_OkE) simp
  have hp1: "hp f1 = hp f"
    using keepsD [OF outputs.keeps_bindM [OF outputs.keeps_getS same_output_sym] v] by (simp add: same_output_def)
  consider "v < 256" | "v = 256" | "256 < v" by linarith
  then show ?thesis
  proof cases
    case 1
    with k hp1 put_literal_grows [of v f1 f'] show ?thesis by simp
  next
    case 2
    with k show ?thesis by (simp add: bindM_def modifyS_def)
  next
    case 3
    with k hp1 huff_match_grows [of v f1 f'] show ?thesis by simp
  qed
qed

function huffmanBlock :: "(decompressor, unit) prog" where
  "huffmanBlock f =
     (case huff_item f of
        (Ok True, f') \<Rightarrow> huffmanBlock f'
      | (Ok False, f') \<Rightarrow> (Ok (), f')
      | (Err e, f') \<Rightarrow> (Err e, f')
      | (Panic p, f') \<Rightarrow> (Panic p, f')
      | (Diverge, f') \<Rightarrow> (Diverge, f'))"
  by pat_completeness auto
termination
  by (relation "measure (\<lambda>f. maxHist - hp f)") (auto dest!: huff_item_grows [OF sym])

declare huffmanBlock.simps [simp del]

definition copyHuff :: "(decompressor, unit) prog" where
  "copyHuff = bindM copyHist (\<lambda>full. if full then ret () else huffmanBlock)"

section \<open>An uncompressed block\<close>

text \<open>
  \<open>io.ReadFull\<close> of \<open>n\<close> bytes with the count added to \<open>f.roffset\<close>, whether it fails or not; the error is wrapped
  with the offset.
\<close>

definition read_counted :: "nat \<Rightarrow> (decompressor, u8 list) prog" where
  "read_counted n f =
     (case read_full n f of
        (Ok bs, f') \<Rightarrow> (Ok bs, f'\<lparr>roffset := roffset f' + int n\<rparr>)
      | (Err e, f') \<Rightarrow>
          (let off = roffset f' + int (length (rbytes f)) in (Err (ReadError off e), f'\<lparr>roffset := off\<rparr>))
      | (Panic p, f') \<Rightarrow> (Panic p, f')
      | (Diverge, f') \<Rightarrow> (Diverge, f'))"

text \<open>What \<open>io.ReadFull\<close> could read stays in the history also when it fails.\<close>

definition read_hist :: "nat \<Rightarrow> (decompressor, unit) prog" where
  "read_hist m f =
     (let put = (\<lambda>bs h. take (hp f) h @ bs @ drop (hp f + length bs) h) in
      case read_counted m f of
        (Ok bs, f') \<Rightarrow> (Ok (), f'\<lparr>hist := put bs (hist f'), hp := hp f' + m\<rparr>)
      | (Err e, f') \<Rightarrow> (Err e, f'\<lparr>hist := put (rbytes f) (hist f')\<rparr>)
      | (Panic p, f') \<Rightarrow> (Panic p, f')
      | (Diverge, f') \<Rightarrow> (Diverge, f'))"

text \<open>The loop of \<open>copyData\<close>: \<open>n\<close> bytes are left.\<close>

function copy_data :: "nat \<Rightarrow> (decompressor, unit) prog" where
  "copy_data n f =
     (if n = 0 then (Ok (), f\<lparr>flstep := NextBlock\<rparr>)
      else if maxHist < hp f then (Panic SliceOutOfRange, f)
      else
        let m = min n (maxHist - hp f) in
        set_err () (read_hist m) (\<lambda>_ f'.
          if hp f + m = maxHist then flush CopyData (f'\<lparr>copyLen := n - m\<rparr>)
          else copy_data (n - m) f') f)"
  by pat_completeness auto
termination
  by (relation "measure fst") (auto simp: min_def)

declare copy_data.simps [simp del]

definition copyData :: "(decompressor, unit) prog" where
  "copyData f = copy_data (copyLen f) f"

definition le16 :: "u8 \<Rightarrow> u8 \<Rightarrow> nat" where
  "le16 a b = unat a + unat b * 2 ^ 8"

definition dataBlock :: "(decompressor, unit) prog" where
  "dataBlock =
     bindM (modifyS (\<lambda>f. f\<lparr>nb := 0, bbuf := 0\<rparr>)) (\<lambda>_.
     set_err () (read_counted 4) (\<lambda>buf.
     let n = le16 (buf ! 0) (buf ! 1); nn = le16 (buf ! 2) (buf ! 3) in
     if nn \<noteq> 2 ^ 16 - 1 - n then modifyS (\<lambda>f. f\<lparr>derr := Some (corrupt f)\<rparr>)
     else if n = 0 then flush NextBlock
     else bindM (modifyS (\<lambda>f. f\<lparr>copyLen := n\<rparr>)) (\<lambda>_. copyData)))"

section \<open>Steps\<close>

definition nextBlock :: "(decompressor, unit) prog" where
  "nextBlock =
     bindM getS (\<lambda>f.
     if final f
     then if hw f \<noteq> hp f then flush NextBlock else modifyS (\<lambda>f. f\<lparr>derr := Some EOF\<rparr>)
     else
       set_err () (needBits 3) (\<lambda>_.
       bindM (takeBits 1) (\<lambda>b. bindM (modifyS (\<lambda>f. f\<lparr>final := (b = 1)\<rparr>)) (\<lambda>_.
       bindM (takeBits 2) (\<lambda>typ.
       if typ = 0 then dataBlock
       else if typ = 1
       then bindM (modifyS (\<lambda>f. f\<lparr>hl := FixedDecoder, hd := None\<rparr>)) (\<lambda>_. huffmanBlock)
       else if typ = 2
       then set_err () readHuffman (\<lambda>_.
            bindM (modifyS (\<lambda>f. f\<lparr>hl := H1, hd := Some H2\<rparr>)) (\<lambda>_. huffmanBlock))
       else modifyS (\<lambda>f. f\<lparr>derr := Some (corrupt f)\<rparr>))))))"

definition flate_do :: "(decompressor, unit) prog" where
  "flate_do f =
     (case flstep f of
        NextBlock \<Rightarrow> nextBlock f
      | HuffmanBlock \<Rightarrow> huffmanBlock f
      | CopyHuff \<Rightarrow> copyHuff f
      | CopyData \<Rightarrow> copyData f)"

text \<open>
  \<open>Read\<close> into a slice of \<open>n\<close> bytes. A step may produce nothing, so that the loop need not end; then the result is
  \<open>None\<close>.
\<close>

partial_function (option) flate_read :: "nat \<Rightarrow> decompressor \<Rightarrow> (u8 list outcome \<times> decompressor) option" where
  "flate_read n f =
     (if toRead f \<noteq> [] then Some (Ok (take n (toRead f)), f\<lparr>toRead := drop n (toRead f)\<rparr>)
      else
        case derr f of
          Some e \<Rightarrow> Some (Err e, f)
        | None \<Rightarrow>
            (case flate_do f of
               (Ok _, f') \<Rightarrow> flate_read n f'
             | (Err e, f') \<Rightarrow> Some (Err e, f')
             | (Panic p, f') \<Rightarrow> Some (Panic p, f')
             | (Diverge, f') \<Rightarrow> None))"

section \<open>Making, resetting and resuming\<close>

definition new_flate :: "reader \<Rightarrow> decompressor" where
  "new_flate r =
     \<lparr>rbytes = rbytes r, rend = rend r, roffset = 0, woffset = 0, bbuf = 0, nb = 0, h1 = zero_huffman,
      h2 = zero_huffman, bits = replicate 318 0, codebits = replicate 19 0, hist = replicate maxHist 0, hp = 0, hw = 0,
      hfull = False, flstep = NextBlock, final = False, derr = None, toRead = [], hl = FixedDecoder, hd = None,
      copyLen = 0, copyDist = 0\<rparr>"

definition setDict :: "u8 list \<Rightarrow> decompressor \<Rightarrow> decompressor" where
  "setDict dict f =
     (let dict' = (if maxHist < length dict then drop (length dict - maxHist) dict else dict);
          n = length dict';
          f1 = f\<lparr>hist := dict' @ drop n (hist f), hp := n\<rparr>;
          f2 = (if n = maxHist then f1\<lparr>hp := 0, hfull := True\<rparr> else f1)
      in f2\<lparr>hw := hp f2\<rparr>)"

definition new_flate_dict :: "reader \<Rightarrow> u8 list \<Rightarrow> decompressor" where
  "new_flate_dict r dict = setDict dict (new_flate r)"

definition flate_Reset :: "reader \<Rightarrow> u8 list option \<Rightarrow> decompressor \<Rightarrow> decompressor" where
  "flate_Reset r dict f =
     (let f1 = (new_flate r)\<lparr>bits := bits f, codebits := codebits f, hist := hist f\<rparr> in
      case dict of None \<Rightarrow> f1 | Some d \<Rightarrow> setDict d f1)"

definition flate_SwapReader :: "reader \<Rightarrow> decompressor \<Rightarrow> decompressor" where
  "flate_SwapReader r f = f\<lparr>rbytes := rbytes r, rend := rend r, derr := None\<rparr>"

definition flate_Close :: "decompressor \<Rightarrow> goerr option" where
  "flate_Close f = (if derr f = Some EOF then None else derr f)"

end
