(* ===== verification/Zlib.thy ===== *)
theory Zlib
  imports Inflate
begin

text \<open>
  The zlib reader of \<^verbatim>\<open>flexzlib/reader.go\<close>, whose source can be exchanged while it reads, and the inflator of
  a connection, \<^verbatim>\<open>flexzlib/inflator.go\<close>, which is fed with one packet at a time.
\<close>

section \<open>The reader\<close>

text \<open>
  \<open>z.r\<close> and the source of the decompressor are one object; both copies are kept equal. The digest is written to but
  never looked at (the comparison stands behind a \<open>return\<close>), so it is left out.
\<close>

record zreader =
  zr :: reader
  zdec :: "decompressor option"
  zerr :: "goerr option"

definition new_zreader :: zreader where
  "new_zreader = \<lparr>zr = \<lparr>rbytes = [], rend = EOF\<rparr>, zdec = None, zerr = None\<rparr>"

definition zlib_SwapReader :: "reader \<Rightarrow> zreader \<Rightarrow> zreader" where
  "zlib_SwapReader r z = z\<lparr>zr := r, zdec := map_option (flate_SwapReader r) (zdec z), zerr := None\<rparr>"

text \<open>A read of the header, seen by the decompressor too.\<close>

definition on_source :: "(reader, 'a) prog \<Rightarrow> (zreader, 'a) prog" where
  "on_source m z =
     (case m (zr z) of
        (r, s) \<Rightarrow> (r, z\<lparr>zr := s, zdec := map_option (\<lambda>d. d\<lparr>rbytes := rbytes s, rend := rend s\<rparr>) (zdec z)\<rparr>))"

definition adler32 :: "u8 list \<Rightarrow> nat" where
  "adler32 bs =
     (case foldl (\<lambda>(a, b) x. let a' = (a + unat x) mod 65521 in (a', (b + a') mod 65521)) (1, 0) bs of
        (a, b) \<Rightarrow> b * 2 ^ 16 + a)"

definition zlib_Reset :: "reader \<Rightarrow> u8 list option \<Rightarrow> (zreader, unit) prog" where
  "zlib_Reset r dict =
     bindM (modifyS (zlib_SwapReader r)) (\<lambda>_.
     bindM (on_source (read_full 2)) (\<lambda>s.
     let h = unat (s ! 0) * 2 ^ 8 + unat (s ! 1) in
     if s ! 0 AND 0x0f \<noteq> 8 \<or> h mod 31 \<noteq> 0 then fail ErrHeader
     else
       let haveDict = (s ! 1 AND 0x20 \<noteq> 0) in
       bindM (if haveDict
              then bindM (on_source (read_full 4)) (\<lambda>b.
                   if unat (get_be32 b) \<noteq> adler32 (case dict of None \<Rightarrow> [] | Some d \<Rightarrow> d)
                   then fail ErrDictionary else ret ())
              else ret ()) (\<lambda>_.
       modifyS (\<lambda>z. z\<lparr>zdec := Some
         (case zdec z of
            None \<Rightarrow> if haveDict then new_flate_dict (zr z) (case dict of None \<Rightarrow> [] | Some d \<Rightarrow> d)
                    else new_flate (zr z)
          | Some d \<Rightarrow> flate_Reset (zr z) dict d)\<rparr>))))"

definition source_of :: "decompressor \<Rightarrow> reader" where
  "source_of d = \<lparr>rbytes = rbytes d, rend = rend d\<rparr>"

text \<open>\<open>Read\<close> into a slice of \<open>n\<close> bytes; an error at the end of the input is not kept.\<close>

definition zlib_read :: "nat \<Rightarrow> zreader \<Rightarrow> (u8 list outcome \<times> zreader) option" where
  "zlib_read n z =
     (case zerr z of
        Some e \<Rightarrow> Some (Err e, z)
      | None \<Rightarrow>
          if n = 0 then Some (Ok [], z)
          else
            (case zdec z of
               None \<Rightarrow> Some (Panic NilDereference, z)
             | Some d \<Rightarrow>
                 (case flate_read n d of
                    None \<Rightarrow> None
                  | Some (r, d') \<Rightarrow>
                      let z' = z\<lparr>zr := source_of d', zdec := Some d'\<rparr> in
                      (case r of
                         Err e \<Rightarrow>
                           if e = EOF \<or> e = UnexpectedEOF then Some (Err EOF, z')
                           else Some (Err e, z'\<lparr>zerr := Some e\<rparr>)
                       | _ \<Rightarrow> Some (r, z')))))"

definition zlib_Close :: "(zreader, goerr option) prog" where
  "zlib_Close z =
     (case zerr z of
        Some e \<Rightarrow> (Ok (Some e), z)
      | None \<Rightarrow> (case zdec z of
           None \<Rightarrow> (Panic NilDereference, z)
         | Some d \<Rightarrow> (Ok (flate_Close d), z\<lparr>zerr := flate_Close d\<rparr>)))"

section \<open>The inflator\<close>

text \<open>
  \<open>ioutil.ReadAll\<close>: \<open>room k\<close> is the size of the slice its buffer offers in turn \<open>k\<close>, which the library leaves open.
\<close>

partial_function (option) read_all ::
  "(nat \<Rightarrow> nat) \<Rightarrow> nat \<Rightarrow> u8 list \<Rightarrow> zreader \<Rightarrow> (u8 list outcome \<times> zreader) option" where
  "read_all room k acc z =
     Option.bind (zlib_read (room k) z) (\<lambda>(r, z').
     case r of
       Ok bs \<Rightarrow> read_all room (k + 1) (acc @ bs) z'
     | Err e \<Rightarrow> Some (if e = EOF then Ok acc else Err e, z')
     | Panic p \<Rightarrow> Some (Panic p, z')
     | Diverge \<Rightarrow> None)"

type_synonym inflator = "zreader option"

definition Inflate :: "(nat \<Rightarrow> nat) \<Rightarrow> inflator \<Rightarrow> u8 list \<Rightarrow> u8 list outcome \<times> inflator" where
  "Inflate room i p =
     (let buf = \<lparr>rbytes = p, rend = EOF\<rparr>;
          all = (\<lambda>z. case read_all room 0 [] z of None \<Rightarrow> (Diverge, Some z) | Some (r, z') \<Rightarrow> (r, Some z')) in
      case i of
        None \<Rightarrow>
          (case zlib_Reset buf None new_zreader of
             (Ok _, z) \<Rightarrow> all z
           | (Err e, z) \<Rightarrow> (Err e, None)
           | (Panic q, z) \<Rightarrow> (Panic q, None)
           | (Diverge, z) \<Rightarrow> (Diverge, None))
      | Some z \<Rightarrow> all (zlib_SwapReader buf z))"

definition inflator_Read :: "nat \<Rightarrow> inflator \<Rightarrow> (u8 list outcome \<times> inflator) option" where
  "inflator_Read n i =
     (case i of
        None \<Rightarrow> Some (Panic NilDereference, None)
      | Some z \<Rightarrow> map_option (map_prod id Some) (zlib_read n z))"

end
