(* ===== verification/InflateBits.thy ===== *)
theory InflateBits
  imports Inflate
begin

text \<open>
  The bits of the inflator: the buffer of bits and the bytes of the source are one stream of bits, from which
  numbers and the symbols of a prefix code are taken. Nothing is read ahead beyond the byte with the last bit needed.
\<close>

section \<open>The stream\<close>

definition byte_bits :: "u8 \<Rightarrow> bool list" where
  "byte_bits c = map (bit c) [0..<8]"

definition bytes_bits :: "u8 list \<Rightarrow> bool list" where
  "bytes_bits cs = concat (map byte_bits cs)"

definition stream :: "decompressor \<Rightarrow> bool list" where
  "stream f = map (bit (bbuf f)) [0..<nb f] @ bytes_bits (rbytes f)"

definition bits_val :: "bool list \<Rightarrow> nat" where
  "bits_val xs = horner_sum of_bool 2 xs"

lemma length_byte_bits [simp]: "length (byte_bits c) = 8"
  by (simp add: byte_bits_def)

lemma length_bytes_bits [simp]: "length (bytes_bits cs) = 8 * length cs"
  by (induction cs) (simp_all add: bytes_bits_def)

lemma length_stream: "length (stream f) = nb f + 8 * length (rbytes f)"
  by (simp add: stream_def)

lemma bit_bits_val: "bit (bits_val xs) k \<longleftrightarrow> k < length xs \<and> xs ! k"
  by (simp add: bits_val_def bit_horner_sum_bit_iff)

text \<open>Above its \<open>nb\<close> bits the buffer is zero.\<close>

definition clean :: "decompressor \<Rightarrow> bool" where
  "clean f \<longleftrightarrow> (\<forall>k \<ge> nb f. \<not> bit (bbuf f) k)"

definition tidy :: "decompressor \<Rightarrow> bool" where
  "tidy f \<longleftrightarrow> clean f \<and> nb f < 8"

text \<open>What taking bits changes.\<close>

definition only_input :: "decompressor \<Rightarrow> decompressor \<Rightarrow> bool" where
  "only_input f f' \<longleftrightarrow> (\<exists>r off b n. f' = f\<lparr>rbytes := r, roffset := off, bbuf := b, nb := n\<rparr>)"

lemma only_inputI: "f' = f\<lparr>rbytes := r, roffset := off, bbuf := b, nb := n\<rparr> \<Longrightarrow> only_input f f'"
  unfolding only_input_def by blast

lemma only_input_refl [simp]: "only_input f f"
  by (rule only_inputI [where r = "rbytes f" and off = "roffset f" and b = "bbuf f" and n = "nb f"]) simp

lemma only_input_trans: "only_input f g \<Longrightarrow> only_input g h \<Longrightarrow> only_input f h"
  unfolding only_input_def by (elim exE) (simp, (rule exI)+, rule refl)

lemma nth_stream_buffer: "k < nb f \<Longrightarrow> stream f ! k = bit (bbuf f) k"
  by (simp add: stream_def nth_append)

lemma moreBits_run:
  assumes "rbytes f = c # cs" and "clean f" and "nb f \<le> 24"
  shows "\<exists>f'. moreBits f = (Ok (), f') \<and> only_input f f' \<and> stream f' = stream f \<and> clean f' \<and> nb f' = nb f + 8"
proof -
  let ?f = "f\<lparr>rbytes := cs, roffset := roffset f + 1, bbuf := bbuf f OR push_bit (nb f) (ucast c), nb := nb f + 8\<rparr>"
  have "moreBits f = (Ok (), ?f)"
    using assms(1) by (simp add: moreBits_def read_byte_def)
  moreover have "only_input f ?f" by (rule only_inputI) (rule refl)
  moreover have b: "bit (bbuf f OR push_bit (nb f) (ucast c)) k \<longleftrightarrow>
      (if k < nb f then bit (bbuf f) k else bit c (k - nb f))" for k
  proof (cases "k < nb f")
    case True
    then show ?thesis by (simp add: bit_simps)
  next
    case False
    then have "\<not> bit (bbuf f) k" using assms(2) by (simp add: clean_def)
    moreover have "k - nb f < 8" if "bit c (k - nb f)" using that bit_u8_ge [of "k - nb f" c] by force
    ultimately show ?thesis using False assms(3) by (auto simp: bit_simps)
  qed
  have "stream ?f = stream f"
  proof -
    have "[0..<nb f + 8] = [0..<nb f] @ map (\<lambda>k. k + nb f) [0..<8]"
      by (simp add: upt_add_eq_append [of 0] map_add_upt add.commute)
    then have "map (bit (bbuf f OR push_bit (nb f) (ucast c))) [0..<nb f + 8] =
        map (bit (bbuf f)) [0..<nb f] @ byte_bits c"
      by (simp add: b byte_bits_def)
    then show ?thesis using assms(1) by (simp add: stream_def bytes_bits_def)
  qed
  moreover have "clean ?f" using bit_u8_ge [of _ c] by (auto simp: clean_def b)
  ultimately show ?thesis by (intro exI [of _ ?f]) simp
qed

lemma moreBits_end: "rbytes f = [] \<Longrightarrow> moreBits f = (Err (if rend f = EOF then UnexpectedEOF else rend f), f)"
  by (simp add: moreBits_def read_byte_def)

lemma needBits_run:
  assumes "clean f" and "n \<le> length (stream f)" and "n \<le> 16"
  shows "\<exists>f'. needBits n f = (Ok (), f') \<and> only_input f f' \<and> stream f' = stream f \<and> clean f' \<and> n \<le> nb f' \<and>
    nb f' < max (nb f + 1) (n + 8)"
  using assms(1,2)
proof (induction "n - nb f" arbitrary: f rule: less_induct)
  case less
  show ?case
  proof (cases "nb f < n")
    case False
    then show ?thesis using less.prems by (subst needBits.simps) auto
  next
    case True
    with less.prems(2) have "rbytes f \<noteq> []" by (auto simp: length_stream)
    then obtain c cs where r: "rbytes f = c # cs" by (cases "rbytes f") auto
    have "nb f \<le> 24" using True assms(3) by simp
    from moreBits_run [OF r less.prems(1) this] obtain f1 where
      f1: "moreBits f = (Ok (), f1)" "only_input f f1" "stream f1 = stream f" "clean f1" "nb f1 = nb f + 8" by blast
    have "n - nb f1 < n - nb f" "n \<le> length (stream f1)" using f1(3,5) True less.prems(2) by simp_all
    from less.hyps [OF this(1) f1(4) this(2)] obtain f' where
      f': "needBits n f1 = (Ok (), f')" "only_input f1 f'" "stream f' = stream f1" "clean f'" "n \<le> nb f'"
        "nb f' < max (nb f1 + 1) (n + 8)" by blast
    have "needBits n f = (Ok (), f')" using True f1(1) f'(1) by (subst needBits.simps) simp
    moreover have "nb f' < max (nb f + 1) (n + 8)" using f'(6) f1(5) True by auto
    moreover have "only_input f f'" using f1(2) f'(2) by (rule only_input_trans)
    moreover have "stream f' = stream f" using f1(3) f'(3) by simp
    ultimately show ?thesis using f'(4,5) by blast
  qed
qed

section \<open>Numbers\<close>

lemma stream_dropBits:
  assumes "n \<le> nb f"
  shows "stream (dropBits n f) = drop n (stream f)"
proof -
  have "map (bit (drop_bit n (bbuf f))) [0..<nb f - n] = drop n (map (bit (bbuf f)) [0..<nb f])"
    by (rule nth_equalityI) (auto simp: bit_drop_bit_eq add.commute)
  then show ?thesis using assms by (simp add: stream_def dropBits_def)
qed

lemma clean_dropBits: "clean f \<Longrightarrow> clean (dropBits n f)"
  by (auto simp: clean_def dropBits_def bit_drop_bit_eq)

lemma only_input_dropBits: "only_input f (dropBits n f)"
  by (rule only_inputI [where r = "rbytes f" and off = "roffset f"]) (simp add: dropBits_def)

lemma unat_bbuf:
  assumes "clean f"
  shows "unat (bbuf f) = bits_val (take (nb f) (stream f))"
proof (rule bit_eqI)
  fix k
  show "bit (unat (bbuf f)) k = bit (bits_val (take (nb f) (stream f))) k"
    using assms nth_stream_buffer [of k f]
    by (cases "k < nb f") (simp_all add: bit_bits_val bit_unsigned_iff length_stream clean_def)
qed

lemma peekBits_val:
  assumes "clean f" and "n \<le> nb f"
  shows "peekBits n f = bits_val (take n (stream f))"
proof -
  have "peekBits n f = take_bit n (bits_val (take (nb f) (stream f)))"
    using unat_bbuf [OF assms(1)] by (simp add: peekBits_def take_bit_eq_mod)
  also have "\<dots> = bits_val (take n (stream f))"
    using assms(2) by (intro bit_eqI) (auto simp: bit_take_bit_iff bit_bits_val)
  finally show ?thesis .
qed

text \<open>Asking for \<open>n\<close> bits and taking them.\<close>

lemma getBits_run:
  assumes "tidy f" and "stream f = xs @ rest" and "length xs = n" and "n \<le> 16"
  shows "\<exists>f1 f'. needBits n f = (Ok (), f1) \<and> takeBits n f1 = (Ok (bits_val xs), f') \<and> only_input f f' \<and>
    stream f' = rest \<and> tidy f'"
proof -
  have "clean f" "n \<le> length (stream f)" using assms by (simp_all add: tidy_def)
  from needBits_run [OF this assms(4)] obtain f1 where
    f1: "needBits n f = (Ok (), f1)" "only_input f f1" "stream f1 = stream f" "clean f1" "n \<le> nb f1"
      "nb f1 < max (nb f + 1) (n + 8)" by blast
  have nb: "nb f1 < n + 8" using f1(6) assms(1) by (auto simp: tidy_def)
  have "peekBits n f1 = bits_val xs"
    using peekBits_val [OF f1(4,5)] assms(2,3) f1(3) by simp
  then have "takeBits n f1 = (Ok (bits_val xs), dropBits n f1)" by (simp add: takeBits_def)
  moreover have "stream (dropBits n f1) = rest"
    using stream_dropBits [OF f1(5)] f1(3) assms(2,3) by simp
  moreover have "tidy (dropBits n f1)"
    using clean_dropBits [OF f1(4)] nb f1(5) by (simp add: tidy_def dropBits_def)
  moreover have "only_input f (dropBits n f1)" using f1(2) only_input_dropBits only_input_trans by blast
  ultimately show ?thesis using f1(1) by blast
qed

section \<open>Symbols\<close>

definition code_bits :: "nat list \<Rightarrow> nat \<Rightarrow> bool list" where
  "code_bits lens i = rev (map (bit (sym_code lens i)) [0..<lens ! i])"

lemma length_code_bits [simp]: "length (code_bits lens i) = lens ! i"
  by (simp add: code_bits_def)

lemma bits_val_code: "bits_val (code_bits lens i) = revbits (lens ! i) (sym_code lens i)"
  by (simp add: bits_val_def code_bits_def revbits_def)

lemma bits_val_take: "bits_val (take n xs) = bits_val xs mod 2 ^ n"
  by (rule bit_eqI) (auto simp: bit_bits_val bit_take_bit_iff simp flip: take_bit_eq_mod)

lemma bits_val_less: "bits_val xs < 2 ^ length xs"
  using horner_sum_of_bool_2_less [of xs] by (simp add: bits_val_def)

lemma matches_front:
  assumes "length xs = lens ! i" and "bits_val xs = revbits (lens ! i) (sym_code lens i)"
  shows "matches lens i (bits_val (xs @ ys))"
proof -
  have "bits_val (xs @ ys) mod 2 ^ (lens ! i) = bits_val xs"
    using bits_val_take [of "lens ! i" "xs @ ys"] assms(1) by simp
  with assms(2) show ?thesis by (simp add: matches_def)
qed

lemma huffSym_loop_run:
  assumes "decodes lens h" and "kraft lens" and i: "is_sym lens i"
    and "clean f" and "stream f = code_bits lens i @ rest" and "n \<le> lens ! i" and "nb f < lens ! i + 8"
  shows "\<exists>f'. huffSym_loop h n f = (Ok i, f') \<and> only_input f f' \<and> stream f' = rest \<and> tidy f'"
  using assms(4-7)
proof (induction "2 * (16 - nb f) + (if n \<le> nb f then 1 else 0)" arbitrary: n f rule: less_induct)
  case less
  let ?l = "lens ! i"
  have l: "0 < ?l" "?l \<le> 15" using i by (simp_all add: is_sym_def)
  have "n \<le> length (stream f)" "n \<le> 16" using less.prems(2,3) l(2) by simp_all
  from needBits_run [OF less.prems(1) this] obtain f1 where
    f1: "needBits n f = (Ok (), f1)" "only_input f f1" "stream f1 = stream f" "clean f1" "n \<le> nb f1"
      "nb f1 < max (nb f + 1) (n + 8)" by blast
  have nb1: "nb f1 < ?l + 8" using f1(6) less.prems(3,4) by auto
  have w: "unat (bbuf f1) = bits_val (take (nb f1) (stream f1))" by (rule unat_bbuf [OF f1(4)])
  show ?case
  proof (cases "?l \<le> nb f1")
    case True
    have "take (nb f1) (stream f1) = code_bits lens i @ take (nb f1 - ?l) rest"
      using True f1(3) less.prems(2) by simp
    then have "matches lens i (unat (bbuf f1))"
      unfolding w by (simp add: matches_front bits_val_code)
    then have entry: "table_entry h (unat (bbuf f1)) = Ok (Some (16 * i + ?l))"
      using assms(1) i by (simp add: decodes_def)
    have "(16 * i + ?l) mod 16 = ?l" "(16 * i + ?l) div 16 = i" using l(2) by simp_all
    with entry f1(1) True have "huffSym_loop h n f = (Ok i, dropBits ?l f1)"
      by (subst huffSym_loop.simps) simp
    moreover have "only_input f (dropBits ?l f1)"
      using f1(2) only_input_dropBits by (rule only_input_trans)
    moreover have "stream (dropBits ?l f1) = rest"
      using stream_dropBits [OF True] f1(3) less.prems(2) by simp
    moreover have "tidy (dropBits ?l f1)"
      using clean_dropBits [OF f1(4)] nb1 True by (simp add: tidy_def dropBits_def)
    ultimately show ?thesis by blast
  next
    case False
    let ?W = "revbits ?l (sym_code lens i)"
    have "take (nb f1) (stream f1) = take (nb f1) (code_bits lens i)"
      using False f1(3) less.prems(2) by simp
    then have w': "unat (bbuf f1) = ?W mod 2 ^ nb f1"
      unfolding w by (simp add: bits_val_take bits_val_code)
    have mW: "matches lens i ?W" using revbits_less [of ?l "sym_code lens i"] by (simp add: matches_def)
    have W15: "?W < 2 ^ 15"
      using revbits_less [of ?l "sym_code lens i"] power_increasing [OF l(2), of "2 :: nat"] by linarith
    from partial_match [OF assms(2) i mW W15, of "nb f1"] obtain j where
      j: "is_sym lens j" "matches lens j (?W mod 2 ^ nb f1)" "lens ! j \<le> ?l" by blast
    have lj: "nb f1 < lens ! j"
    proof (rule ccontr)
      assume "\<not> nb f1 < lens ! j"
      then have "matches lens j ?W" using j(2) matches_mod [of lens j "nb f1" ?W] by simp
      with matches_unique [OF assms(2) i j(1) mW] have "j = i" by simp
      with \<open>\<not> nb f1 < lens ! j\<close> False show False by simp
    qed
    have entry: "table_entry h (unat (bbuf f1)) = Ok (Some (16 * j + lens ! j))"
      using assms(1) j(1,2) w' by (simp add: decodes_def)
    have c: "(16 * j + lens ! j) mod 16 = lens ! j" using j(1) by (simp add: is_sym_def)
    from entry f1(1) c lj have eq: "huffSym_loop h n f = huffSym_loop h (lens ! j) f1"
      by (subst huffSym_loop.simps) simp
    have "2 * (16 - nb f1) + (if lens ! j \<le> nb f1 then 1 else 0) < 2 * (16 - nb f) + (if n \<le> nb f then 1 else (0 :: nat))"
      using huffSym_loop_less [OF f1(1) [symmetric], of "16 * j + lens ! j"] lj c by simp
    moreover have "stream f1 = code_bits lens i @ rest" using f1(3) less.prems(2) by simp
    ultimately obtain f' where "huffSym_loop h (lens ! j) f1 = (Ok i, f')" "only_input f1 f'" "stream f' = rest" "tidy f'"
      using less.hyps [of f1 "lens ! j"] f1(4) j(3) nb1 by blast
    then show ?thesis using eq only_input_trans [OF f1(2)] by auto
  qed
qed

lemma decodes_min: "decodes lens h \<Longrightarrow> is_sym lens i \<Longrightarrow> hmin h \<le> lens ! i"
  using len_min_le [of "lens ! i" lens] by (simp add: decodes_def is_sym_def)

text \<open>
  A symbol is decoded from exactly its code: with a table that decodes the lengths, the next symbol of a stream
  that begins with its code is found, and nothing behind the code is taken.
\<close>

lemma huffSym_run:
  assumes "decodes lens (decoder_of f d)" and "kraft lens" and "is_sym lens i"
    and "tidy f" and "stream f = code_bits lens i @ rest"
  shows "\<exists>f'. huffSym d f = (Ok i, f') \<and> only_input f f' \<and> stream f' = rest \<and> tidy f'"
  unfolding huffSym_def
  by (rule huffSym_loop_run [OF assms(1-3) _ assms(5) decodes_min [OF assms(1,3)]])
    (use assms(4) in \<open>simp_all add: tidy_def\<close>)

end
