(* ===== verification/InflateHist.thy ===== *)
theory InflateHist
  imports Inflate
begin

text \<open>
  The history of the inflator against the output it stands for: the array of 32768 bytes is a window on the
  end of everything produced so far, and copying inside it is copying inside the output.
\<close>

section \<open>The window\<close>

definition window :: "u8 list \<Rightarrow> u8 list \<Rightarrow> bool" where
  "window out h \<longleftrightarrow> length h = maxHist \<and>
     (\<forall>i. length out \<le> i + maxHist \<and> i < length out \<longrightarrow> h ! (i mod maxHist) = out ! i)"

lemma maxHist_pos [simp]: "0 < maxHist"
  by (simp add: maxHist_def)

lemma mod_offset: "a mod M + k < M \<Longrightarrow> (a + k) mod M = a mod M + k" for a k M :: nat
  by (metis mod_add_left_eq mod_less)

lemma mod_apart:
  fixes i j M :: nat
  assumes "i < j" and "j < i + M"
  shows "i mod M \<noteq> j mod M"
proof
  assume "i mod M = j mod M"
  then have "M dvd j - i" using assms(1) by (metis less_imp_le mod_eq_dvd_iff_nat)
  with assms show False by (auto dest: dvd_imp_le)
qed

lemma window_append:
  assumes "window out h" and "length out mod maxHist + length bs \<le> maxHist" and "p = length out mod maxHist"
  shows "window (out @ bs) (take p h @ bs @ drop (p + length bs) h)"
proof -
  let ?h = "take p h @ bs @ drop (p + length bs) h"
  have len: "length h = maxHist" using assms(1) by (simp add: window_def)
  have nth: "?h ! j = (if p \<le> j \<and> j < p + length bs then bs ! (j - p) else h ! j)" if "j < maxHist" for j
  proof -
    consider "j < p" | "p \<le> j" "j < p + length bs" "j - p < length bs" | "p + length bs \<le> j" "\<not> j - p < length bs"
      by linarith
    then show ?thesis using that len assms(2,3) by cases (simp_all add: nth_append)
  qed
  have "?h ! (i mod maxHist) = (out @ bs) ! i"
    if i: "length (out @ bs) \<le> i + maxHist" "i < length (out @ bs)" for i
  proof (cases "i < length out")
    case False
    then obtain k where k: "i = length out + k" "k < length bs" using i(2) by (metis add_less_cancel_left le_Suc_ex length_append not_less)
    then have "i mod maxHist = p + k" using mod_offset [of "length out" maxHist k] assms(2,3) by simp
    with k nth [of "p + k"] assms(2,3) show ?thesis by (simp add: nth_append)
  next
    case True
    have "\<not> (p \<le> i mod maxHist \<and> i mod maxHist < p + length bs)"
    proof
      assume h: "p \<le> i mod maxHist \<and> i mod maxHist < p + length bs"
      define k where "k = i mod maxHist - p"
      with h have k: "i mod maxHist = p + k" "k < length bs" by auto
      then have "(length out + k) mod maxHist = i mod maxHist"
        using mod_offset [of "length out" maxHist k] assms(2,3) by simp
      moreover have "i < length out + k" "length out + k < i + maxHist" using True i(1) k(2) by simp_all
      ultimately show False using mod_apart [of i "length out + k" maxHist] by simp
    qed
    with nth [of "i mod maxHist"] have "?h ! (i mod maxHist) = h ! (i mod maxHist)" by simp
    also have "\<dots> = out ! i" using assms(1) True i(1) by (simp add: window_def)
    finally show ?thesis using True by (simp add: nth_append)
  qed
  moreover have "length ?h = maxHist" using len assms(2,3) by simp
  ultimately show ?thesis unfolding window_def by blast
qed

lemma window_put:
  assumes "window out h" and "p = length out mod maxHist"
  shows "window (out @ [b]) (h[p := b])"
proof -
  have p: "p < maxHist" using assms(2) by simp
  then have "h[p := b] = take p h @ [b] @ drop (p + length [b]) h"
    using assms(1) by (simp add: window_def upd_conv_take_nth_drop)
  with window_append [OF assms(1) _ assms(2), of "[b]"] p assms(2) show ?thesis by simp
qed

text \<open>A stretch of the array is the end of the output.\<close>

lemma window_slice:
  assumes "window out h" and "length out = q * maxHist + e" and "w \<le> e" and "e \<le> maxHist"
  shows "take (e - w) (drop w h) = drop (length out - (e - w)) out"
proof (rule nth_equalityI)
  have len: "length h = maxHist" using assms(1) by (simp add: window_def)
  show "length (take (e - w) (drop w h)) = length (drop (length out - (e - w)) out)"
    using len assms by simp
  fix k assume "k < length (take (e - w) (drop w h))"
  then have k: "w + k < e" using len assms by simp
  let ?i = "q * maxHist + (w + k)"
  have "?i mod maxHist = w + k" using k assms(4) by simp
  moreover have "h ! (?i mod maxHist) = out ! ?i"
  proof -
    have "length out \<le> ?i + maxHist \<and> ?i < length out" using assms(2,4) k by simp
    with assms(1) show ?thesis unfolding window_def by blast
  qed
  moreover have "length out - (e - w) + k = ?i" using assms(2,3) by simp
  ultimately show "take (e - w) (drop w h) ! k = drop (length out - (e - w)) out ! k"
    using k len assms by (simp add: add.assoc)
qed

section \<open>Copies of earlier output\<close>

fun lz_copy :: "nat \<Rightarrow> nat \<Rightarrow> u8 list \<Rightarrow> u8 list" where
  "lz_copy dist 0 out = out"
| "lz_copy dist (Suc n) out = lz_copy dist n (out @ [out ! (length out - dist)])"

lemma length_lz_copy [simp]: "length (lz_copy dist n out) = length out + n"
  by (induction n arbitrary: out) simp_all

lemma lz_copy_add: "lz_copy dist (a + b) out = lz_copy dist b (lz_copy dist a out)"
  by (induction a arbitrary: out) simp_all

lemma lz_copy_prefix: "\<exists>xs. lz_copy dist n out = out @ xs \<and> length xs = n"
proof (induction n arbitrary: out)
  case (Suc n)
  from Suc.IH [of "out @ [out ! (length out - dist)]"] show ?case by auto
qed simp

lemma window_copy:
  assumes "window out h" and "d = length out mod maxHist" and "e = (length out - dist) mod maxHist"
    and "d + n \<le> maxHist" and "e + n \<le> maxHist" and "0 < dist" and "dist \<le> length out" and "dist \<le> maxHist"
  shows "window (lz_copy dist n out) (copy_bytes h d e n)"
  using assms
proof (induction n arbitrary: out h d e)
  case (Suc n)
  have "length out \<le> length out - dist + maxHist \<and> length out - dist < length out"
    using Suc.prems(6-8) by linarith
  then have "h ! e = out ! (length out - dist)"
    using Suc.prems(1,3) unfolding window_def by blast
  then have win: "window (out @ [out ! (length out - dist)]) (h[d := h ! e])"
    using window_put [OF Suc.prems(1,2)] by simp
  show ?case
  proof (cases n)
    case 0
    with win show ?thesis by simp
  next
    case (Suc m)
    have "d + 1 = (length out + 1) mod maxHist"
      using mod_offset [of "length out" maxHist 1] Suc.prems(2,4) Suc by simp
    moreover have "e + 1 = (length out + 1 - dist) mod maxHist"
      using mod_offset [of "length out - dist" maxHist 1] Suc.prems(3,5,7) Suc by (simp add: Suc_diff_le)
    ultimately show ?thesis
      using Suc.IH [OF win, of "d + 1" "e + 1"] Suc.prems(4-8) by simp
  qed
qed simp

section \<open>The state and its output\<close>

text \<open>
  \<open>holds out f\<close>: the inflator has produced \<open>out\<close>; the bytes from \<open>hw\<close> to \<open>hp\<close> are the last of it and still to be flushed.
\<close>

definition holds :: "u8 list \<Rightarrow> decompressor \<Rightarrow> bool" where
  "holds out f \<longleftrightarrow> window out (hist f) \<and> hp f = length out mod maxHist \<and>
     (hfull f \<longleftrightarrow> maxHist \<le> length out) \<and> hw f \<le> hp f"

definition pending :: "decompressor \<Rightarrow> u8 list" where
  "pending f = take (hp f - hw f) (drop (hw f) (hist f))"

lemma length_quotient: "length out = (length out div maxHist) * maxHist + length out mod maxHist"
  by simp

lemma pending_out:
  "holds out f \<Longrightarrow> pending f = drop (length out - (hp f - hw f)) out"
  unfolding pending_def holds_def
  using window_slice [of out "hist f" "length out div maxHist" "hp f" "hw f"] length_quotient [of out]
  by simp

lemma pending_append:
  assumes "holds out f" and "out' = out @ xs" and "window out' h" and "length out' = length out div maxHist * maxHist + e"
    and "hp f \<le> e" and "e \<le> maxHist"
  shows "take (e - hw f) (drop (hw f) h) = pending f @ xs"
proof -
  have w: "hw f \<le> hp f" "hp f = length out mod maxHist" using assms(1) by (simp_all add: holds_def)
  have x: "length xs = e - hp f"
    using assms(2,4) w(2) length_quotient [of out] unfolding assms(2) length_append by linarith
  have "take (e - hw f) (drop (hw f) h) = drop (length out' - (e - hw f)) out'"
    using window_slice [OF assms(3,4) _ assms(6), of "hw f"] w(1) assms(5) by simp
  also have "\<dots> = drop (length out - (hp f - hw f)) out @ xs"
  proof -
    have "length out' - (e - hw f) = length out - (hp f - hw f)"
      using assms(2,5) x w by simp
    moreover have "length out - (hp f - hw f) \<le> length out" by simp
    ultimately show ?thesis using assms(2) by simp
  qed
  finally show ?thesis using pending_out [OF assms(1)] by simp
qed

text \<open>What writing output keeps.\<close>

definition only_output :: "decompressor \<Rightarrow> decompressor \<Rightarrow> bool" where
  "only_output f f' \<longleftrightarrow> rbytes f' = rbytes f \<and> rend f' = rend f \<and> roffset f' = roffset f \<and> bbuf f' = bbuf f \<and>
     nb f' = nb f \<and> h1 f' = h1 f \<and> h2 f' = h2 f \<and> hl f' = hl f \<and> hd f' = hd f \<and> final f' = final f \<and>
     derr f' = derr f \<and> bits f' = bits f \<and> codebits f' = codebits f \<and> copyDist f' = copyDist f"

text \<open>
  Output up to the end of the array: either there is room left, or the array is full and what is pending has
  been flushed.
\<close>

definition advanced :: "u8 list \<Rightarrow> u8 list \<Rightarrow> decompressor \<Rightarrow> decompressor \<Rightarrow> bool" where
  "advanced out xs f f' \<longleftrightarrow> only_output f f' \<and> holds (out @ xs) f' \<and>
     (if hp f + length xs < maxHist
      then toRead f' = toRead f \<and> pending f' = pending f @ xs \<and> flstep f' = flstep f
      else hp f + length xs = maxHist \<and> toRead f' = pending f @ xs \<and> pending f' = [])"

lemma flush_full:
  assumes "holds out f" and "window (out @ xs) h" and "hp f + length xs = maxHist"
  shows "\<exists>f'. flush st (f\<lparr>hist := h, hp := maxHist, copyLen := n\<rparr>) = (Ok (), f') \<and> advanced out xs f f' \<and>
    flstep f' = st \<and> copyLen f' = n \<and> hp f' = 0"
proof -
  let ?g = "f\<lparr>hist := h, hp := maxHist, copyLen := n\<rparr>"
  let ?f' = "?g\<lparr>toRead := take (maxHist - hw f) (drop (hw f) h), woffset := woffset f + int (maxHist - hw f),
    hw := 0, hp := 0, hfull := True, flstep := st\<rparr>"
  have hp: "hp f = length out mod maxHist" "hw f \<le> hp f" using assms(1) by (simp_all add: holds_def)
  then have "hp f < maxHist" by simp
  then have "flush st ?g = (Ok (), ?f')" using hp(2) by (simp add: flush_def Let_def)
  moreover have len: "length (out @ xs) = length out div maxHist * maxHist + maxHist"
    using length_quotient [of out] hp(1) assms(3) unfolding length_append by linarith
  moreover have "take (maxHist - hw f) (drop (hw f) h) = pending f @ xs"
    by (rule pending_append [OF assms(1) refl assms(2) len]) (use \<open>hp f < maxHist\<close> in simp_all)
  moreover have "holds (out @ xs) ?f'" using assms(2) len by (simp add: holds_def)
  ultimately show ?thesis
    using assms(3) by (intro exI [of _ ?f']) (simp add: advanced_def only_output_def pending_def)
qed

lemma advance_room:
  assumes "holds out f" and "window (out @ xs) h" and "hp f + length xs < maxHist"
  shows "advanced out xs f (f\<lparr>hist := h, hp := hp f + length xs, copyLen := n\<rparr>)"
proof -
  let ?f' = "f\<lparr>hist := h, hp := hp f + length xs, copyLen := n\<rparr>"
  have hp: "hp f = length out mod maxHist" "hw f \<le> hp f" using assms(1) by (simp_all add: holds_def)
  have len: "length (out @ xs) = length out div maxHist * maxHist + (hp f + length xs)"
    using length_quotient [of out] hp(1) unfolding length_append by linarith
  then have m: "length (out @ xs) mod maxHist = hp f + length xs"
    using assms(3) by (simp add: hp(1) mod_offset)
  have "pending ?f' = pending f @ xs"
    using pending_append [OF assms(1) refl assms(2) len] assms(3) by (simp add: pending_def)
  moreover have "hfull f \<longleftrightarrow> maxHist \<le> length (out @ xs)"
  proof -
    have "maxHist \<le> length out" if "maxHist \<le> length (out @ xs)"
    proof (rule ccontr)
      assume "\<not> maxHist \<le> length out"
      then have "hp f = length out" using hp(1) by simp
      with that assms(3) show False by simp
    qed
    then show ?thesis using assms(1) by (auto simp: holds_def)
  qed
  ultimately show ?thesis
    using assms(2,3) hp(2) m by (simp add: advanced_def only_output_def holds_def)
qed

end
