(* ===== verification/InflateBlocks.thy ===== *)
theory InflateBlocks
  imports InflateBits InflateHist
begin

text \<open>
  Compressed blocks: the items of a block as RFC 1951 writes them, and \<open>huffmanBlock\<close> against them. A block can be
  left in the middle when the history is full; \<open>serves\<close> is the view of the caller of \<open>Read\<close>, who calls the steps
  again until they are through.
\<close>

section \<open>Steps until a goal\<close>

text \<open>
  \<open>serves Q m f ps\<close>: running \<open>m\<close> from \<open>f\<close>, and after it the steps \<open>f.step\<close>, reaches a state with \<open>Q\<close>; \<open>ps\<close> are the bytes
  handed out on the way, with what that state still holds back.
\<close>

inductive serves ::
  "(decompressor \<Rightarrow> bool) \<Rightarrow> (decompressor, unit) prog \<Rightarrow> decompressor \<Rightarrow> u8 list \<Rightarrow> bool" for Q where
  serves_stop: "m f = (Ok (), g) \<Longrightarrow> toRead g = [] \<Longrightarrow> Q g \<Longrightarrow> serves Q m f (pending g)"
| serves_go: "m f = (Ok (), g) \<Longrightarrow> derr g = None \<Longrightarrow> serves Q flate_do (g\<lparr>toRead := []\<rparr>) ps \<Longrightarrow>
    serves Q m f (toRead g @ ps)"

lemma serves_cong: "m f = m' f' \<Longrightarrow> serves Q m' f' ps \<Longrightarrow> serves Q m f ps"
  by (erule serves.cases) (auto intro: serves.intros)

lemma toRead_empty: "toRead g = [] \<Longrightarrow> g\<lparr>toRead := []\<rparr> = g"
  by (cases g) simp

lemma serves_trans:
  assumes "serves Q m f ps"
    and "\<And>g. Q g \<Longrightarrow> derr g = None \<and> serves R flate_do g (pending g @ xs)"
  shows "serves R m f (ps @ xs)"
  using assms(1)
proof induction
  case (serves_stop m f g)
  have "serves R flate_do (g\<lparr>toRead := []\<rparr>) (pending g @ xs)" "derr g = None"
    unfolding toRead_empty [OF serves_stop(2)] using assms(2) [OF serves_stop(3)] by simp_all
  from serves_go [where m = m and f = f, OF serves_stop(1) this(2,1)] serves_stop(2) show ?case by simp
next
  case (serves_go m f g ps)
  from serves.serves_go [where m = m and f = f, OF serves_go(1,2,4)] show ?case by simp
qed

lemma pending_toRead [simp]: "pending (f\<lparr>toRead := x\<rparr>) = pending f"
  by (simp add: pending_def)

section \<open>The items of a block\<close>

definition num_bits :: "nat \<Rightarrow> nat \<Rightarrow> bool list" where
  "num_bits n x = map (bit x) [0..<n]"

lemma length_num_bits [simp]: "length (num_bits n x) = n"
  by (simp add: num_bits_def)

lemma bits_val_num [simp]: "x < 2 ^ n \<Longrightarrow> bits_val (num_bits n x) = x"
  by (rule bit_eqI) (auto simp: bit_bits_val num_bits_def dest: nat_bit_less)

text \<open>Base and extra bits of the length symbols from 257 and of the distance symbols: RFC 1951, section 3.2.5.\<close>

definition len_table :: "(nat \<times> nat) list" where
  "len_table = [(3, 0), (4, 0), (5, 0), (6, 0), (7, 0), (8, 0), (9, 0), (10, 0), (11, 1), (13, 1), (15, 1), (17, 1),
     (19, 2), (23, 2), (27, 2), (31, 2), (35, 3), (43, 3), (51, 3), (59, 3), (67, 4), (83, 4), (99, 4), (115, 4),
     (131, 5), (163, 5), (195, 5), (227, 5), (258, 0)]"

definition dist_table :: "(nat \<times> nat) list" where
  "dist_table = [(1, 0), (2, 0), (3, 0), (4, 0), (5, 1), (7, 1), (9, 2), (13, 2), (17, 3), (25, 3), (33, 4), (49, 4),
     (65, 5), (97, 5), (129, 6), (193, 6), (257, 7), (385, 7), (513, 8), (769, 8), (1025, 9), (1537, 9), (2049, 10),
     (3073, 10), (4097, 11), (6145, 11), (8193, 12), (12289, 12), (16385, 13), (24577, 13)]"

text \<open>A match has a length symbol (less 257) with the value of its extra bits, and the same of its distance.\<close>

datatype item = Lit u8 | Match nat nat nat nat

definition len_of :: "nat \<Rightarrow> nat \<Rightarrow> nat" where
  "len_of v e = fst (len_table ! v) + e"

definition dist_of :: "nat \<Rightarrow> nat \<Rightarrow> nat" where
  "dist_of d x = fst (dist_table ! d) + x"

fun item_bits :: "nat list \<Rightarrow> nat list \<Rightarrow> item \<Rightarrow> bool list" where
  "item_bits ll dl (Lit c) = code_bits ll (unat c)"
| "item_bits ll dl (Match v e d x) =
     code_bits ll (257 + v) @ num_bits (snd (len_table ! v)) e @ code_bits dl d @ num_bits (snd (dist_table ! d)) x"

fun item_out :: "u8 list \<Rightarrow> item \<Rightarrow> u8 list" where
  "item_out out (Lit c) = out @ [c]"
| "item_out out (Match v e d x) = lz_copy (dist_of d x) (len_of v e) out"

fun item_ok :: "nat list \<Rightarrow> nat list \<Rightarrow> u8 list \<Rightarrow> item \<Rightarrow> bool" where
  "item_ok ll dl out (Lit c) \<longleftrightarrow> is_sym ll (unat c)"
| "item_ok ll dl out (Match v e d x) \<longleftrightarrow> v < 29 \<and> is_sym ll (257 + v) \<and> e < 2 ^ snd (len_table ! v) \<and>
     d < 30 \<and> is_sym dl d \<and> x < 2 ^ snd (dist_table ! d) \<and> dist_of d x \<le> length out"

fun items_ok :: "nat list \<Rightarrow> nat list \<Rightarrow> u8 list \<Rightarrow> item list \<Rightarrow> bool" where
  "items_ok ll dl out [] \<longleftrightarrow> True"
| "items_ok ll dl out (t # ts) \<longleftrightarrow> item_ok ll dl out t \<and> items_ok ll dl (item_out out t) ts"

lemma list_all_uptD: "list_all P [a..<b] \<Longrightarrow> a \<le> i \<Longrightarrow> i < b \<Longrightarrow> P i"
  by (simp add: list_all_iff)

lemma length_code_table: "v < 29 \<Longrightarrow> length_code (257 + v) = len_table ! v"
proof -
  have "list_all (\<lambda>v. length_code (257 + v) = len_table ! v) [0..<29]"
    by (simp add: length_code_def len_table_def upt_rec)
  from list_all_uptD [OF this, of v] show "v < 29 \<Longrightarrow> length_code (257 + v) = len_table ! v" by blast
qed

lemma dist_table_small: "d < 4 \<Longrightarrow> dist_table ! d = (d + 1, 0)"
proof -
  have "list_all (\<lambda>d. dist_table ! d = (d + 1, 0)) [0..<4]" by (simp add: dist_table_def upt_rec)
  from list_all_uptD [OF this, of d] show "d < 4 \<Longrightarrow> dist_table ! d = (d + 1, 0)" by blast
qed

lemma dist_table_large:
  assumes "4 \<le> d" and "d < 30"
  shows "dist_table ! d = (2 ^ ((d - 2) div 2 + 1) + 1 + d mod 2 * 2 ^ ((d - 2) div 2), (d - 2) div 2)"
proof -
  have "list_all (\<lambda>d. dist_table ! d = (2 ^ ((d - 2) div 2 + 1) + 1 + d mod 2 * 2 ^ ((d - 2) div 2), (d - 2) div 2)) [4..<30]"
    by (simp add: dist_table_def upt_rec)
  from list_all_uptD [OF this assms] show ?thesis .
qed

lemma extra_bits: "v < 29 \<Longrightarrow> snd (len_table ! v) \<le> 5" "d < 30 \<Longrightarrow> snd (dist_table ! d) \<le> 13"
proof -
  have "list_all (\<lambda>v. snd (len_table ! v) \<le> 5) [0..<29]" by (simp add: len_table_def upt_rec)
  from list_all_uptD [OF this, of v] show "v < 29 \<Longrightarrow> snd (len_table ! v) \<le> 5" by blast
  have "list_all (\<lambda>d. snd (dist_table ! d) \<le> 13) [0..<30]" by (simp add: dist_table_def upt_rec)
  from list_all_uptD [OF this, of d] show "d < 30 \<Longrightarrow> snd (dist_table ! d) \<le> 13" by blast
qed

lemma dist_of_bounds:
  assumes "d < 30" and "x < 2 ^ snd (dist_table ! d)"
  shows "0 < dist_of d x" "dist_of d x \<le> maxHist"
proof -
  have "list_all (\<lambda>d. 0 < fst (dist_table ! d) \<and> fst (dist_table ! d) + 2 ^ snd (dist_table ! d) \<le> maxHist + 1) [0..<30]"
    by (simp add: dist_table_def maxHist_def upt_rec)
  from list_all_uptD [OF this _ assms(1)]
  have "0 < fst (dist_table ! d) \<and> fst (dist_table ! d) + 2 ^ snd (dist_table ! d) \<le> maxHist + 1" by blast
  with assms(2) show "0 < dist_of d x" "dist_of d x \<le> maxHist" unfolding dist_of_def by linarith+
qed

section \<open>Reading an item\<close>

lemma set_err_Ok: "m f = (Ok a, g) \<Longrightarrow> set_err d m k f = k a g"
  by (simp add: set_err_def)

text \<open>\<open>reads m f xs a\<close>: \<open>m\<close> takes exactly the bits \<open>xs\<close> of the stream, whatever follows, and returns \<open>a\<close>.\<close>

definition reads :: "(decompressor, 'a) prog \<Rightarrow> decompressor \<Rightarrow> bool list \<Rightarrow> 'a \<Rightarrow> bool" where
  "reads m f xs a \<longleftrightarrow> (\<forall>rest. tidy f \<and> stream f = xs @ rest \<longrightarrow>
     (\<exists>g. m f = (Ok a, g) \<and> only_input f g \<and> stream g = rest \<and> tidy g))"

lemma readsD:
  assumes "reads m f xs a" and "tidy f" and "stream f = xs @ rest"
  obtains g where "m f = (Ok a, g)" "only_input f g" "stream g = rest" "tidy g"
  using assms unfolding reads_def by blast

lemma reads_bind:
  assumes "reads m f xs a" and "\<And>g. only_input f g \<Longrightarrow> reads (k a) g ys b"
  shows "reads (bindM m k) f (xs @ ys) b"
  unfolding reads_def
proof (intro allI impI)
  fix rest assume f: "tidy f \<and> stream f = (xs @ ys) @ rest"
  then have "tidy f" "stream f = xs @ (ys @ rest)" by simp_all
  from readsD [OF assms(1) this] obtain g where
    g: "m f = (Ok a, g)" "only_input f g" "stream g = ys @ rest" "tidy g" .
  from readsD [OF assms(2) [OF g(2)] g(4,3)] obtain h where
    "k a g = (Ok b, h)" "only_input g h" "stream h = rest" "tidy h" .
  with g(1,2) show "\<exists>h. bindM m k f = (Ok b, h) \<and> only_input f h \<and> stream h = rest \<and> tidy h"
    using only_input_trans by (auto simp: bindM_Ok)
qed

lemma reads_ret: "reads (ret a) f [] a"
  by (simp add: reads_def ret_def)

lemma reads_bind_ret: "reads m f xs a \<Longrightarrow> reads (bindM m (\<lambda>a. ret (h a))) f xs (h a)"
  using reads_bind [of m f xs a "\<lambda>a. ret (h a)" "[]" "h a"] reads_ret [of "h a"] by simp

lemma reads_getS: "reads (k f) f xs a \<Longrightarrow> reads (bindM getS k) f xs a"
  by (simp add: reads_def bindM_def getS_def)

lemma reads_bits: "n \<le> 16 \<Longrightarrow> length xs = n \<Longrightarrow> reads (bindM (needBits n) (\<lambda>_. takeBits n)) f xs (bits_val xs)"
  unfolding reads_def using getBits_run [of f xs _ n] by (auto simp: bindM_Ok)

lemma reads_bits_then:
  assumes "n \<le> 16" and "length xs = n" and "\<And>g. only_input f g \<Longrightarrow> reads (k (bits_val xs)) g ys b"
  shows "reads (bindM (needBits n) (\<lambda>_. bindM (takeBits n) k)) f (xs @ ys) b"
  using reads_bind [where k = k, OF reads_bits [OF assms(1,2), of f] assms(3)] by (simp add: bindM_assoc)

lemma only_input_same:
  "only_input f g \<Longrightarrow> h1 g = h1 f \<and> h2 g = h2 f \<and> hl g = hl f \<and> hd g = hd f \<and> hist g = hist f \<and> hp g = hp f \<and>
     hw g = hw f \<and> hfull g = hfull f \<and> toRead g = toRead f \<and> derr g = derr f \<and> final g = final f \<and>
     flstep g = flstep f \<and> rend g = rend f \<and> bits g = bits f \<and> codebits g = codebits f \<and> copyLen g = copyLen f \<and>
     copyDist g = copyDist f \<and> woffset g = woffset f"
  by (auto simp: only_input_def)

lemma only_input_decoder: "only_input f g \<Longrightarrow> decoder_of g d = decoder_of f d"
  by (auto simp: only_input_def decoder_of_def split: decoder.split)

lemma reads_sym:
  "decodes lens (decoder_of f d) \<Longrightarrow> kraft lens \<Longrightarrow> is_sym lens i \<Longrightarrow> reads (huffSym d) f (code_bits lens i) i"
  unfolding reads_def using huffSym_run by blast

text \<open>The distances of a fixed block are five bits, the highest first.\<close>

definition fixed_dists :: "nat list" where
  "fixed_dists = replicate 32 5"

definition dist_decodes :: "nat list \<Rightarrow> decompressor \<Rightarrow> bool" where
  "dist_decodes dl f \<longleftrightarrow>
     (case hd f of None \<Rightarrow> dl = fixed_dists | Some d \<Rightarrow> decodes dl (decoder_of f d) \<and> kraft dl)"

lemma fixed_dist_code: "d < 32 \<Longrightarrow> sym_code fixed_dists d = d"
proof -
  assume "d < 32"
  then have "rank fixed_dists d = d" by (simp add: rank_def fixed_dists_def)
  moreover have "first_code fixed_dists 5 = 0" by (simp add: numeral_eq_Suc ncount_def fixed_dists_def)
  ultimately show ?thesis using \<open>d < 32\<close> by (simp add: sym_code_def fixed_dists_def)
qed

lemma reverseByte_five: "d < 32 \<Longrightarrow> reverseByte ! (revbits 5 d * 2 ^ 3) = d"
proof -
  assume d: "d < 32"
  have "revbits 5 d * 2 ^ 3 < 256" using revbits_less [of 5 d] by simp
  then have "reverseByte ! (revbits 5 d * 2 ^ 3) = revbits 8 (push_bit 3 (revbits 5 d))"
    by (simp add: reverseByte_nth push_bit_eq_mult)
  also have "\<dots> = d"
    using d by (intro bit_eqI) (auto simp: bit_revbits bit_push_bit_iff dest: nat_bit_less [of d 5, simplified])
  finally show ?thesis .
qed

lemma reads_dist_sym:
  assumes "dist_decodes dl f" and "is_sym dl d"
  shows "reads read_dist_sym f (code_bits dl d) d"
proof (cases "hd f")
  case None
  with assms have dl: "dl = fixed_dists" "d < 32" by (simp_all add: dist_decodes_def is_sym_def fixed_dists_def)
  then have len: "length (code_bits dl d) = 5" by (simp add: fixed_dists_def)
  have "reverseByte ! (bits_val (code_bits dl d) * 2 ^ 3) = d"
    using len by (simp only: bits_val_code length_code_bits dl fixed_dist_code reverseByte_five)
  with reads_bind_ret [where h = "\<lambda>x. reverseByte ! (x * 2 ^ 3)", OF reads_bits [OF _ len, of f]]
  show ?thesis unfolding read_dist_sym_def by (intro reads_getS) (simp add: None bindM_assoc)
next
  case (Some h)
  with assms show ?thesis
    unfolding read_dist_sym_def by (intro reads_getS) (simp add: dist_decodes_def reads_sym)
qed

lemma reads_dist:
  assumes "dist_decodes dl f" and "is_sym dl d" and "d < 30" and "x < 2 ^ snd (dist_table ! d)"
  shows "reads read_dist f (code_bits dl d @ num_bits (snd (dist_table ! d)) x) (dist_of d x)"
  unfolding read_dist_def
proof (rule reads_bind [OF reads_dist_sym [OF assms(1,2)]])
  fix g assume "only_input f g"
  show "reads (if d < 4 then ret (d + 1)
     else if 30 \<le> d then bindM getS (\<lambda>f. fail (corrupt f))
     else
       let k = (d - 2) div 2 in
       bindM (needBits k) (\<lambda>_. bindM (takeBits k) (\<lambda>e. ret (2 ^ (k + 1) + 1 + (d mod 2 * 2 ^ k + e)))))
     g (num_bits (snd (dist_table ! d)) x) (dist_of d x)"
  proof (cases "d < 4")
    case True
    with assms(4) dist_table_small [OF True] reads_ret [of "d + 1" g] show ?thesis
      by (simp add: num_bits_def dist_of_def)
  next
    case False
    let ?k = "(d - 2) div 2"
    have t: "dist_table ! d = (2 ^ (?k + 1) + 1 + d mod 2 * 2 ^ ?k, ?k)" using dist_table_large False assms(3) by simp
    have k: "?k \<le> 16" using assms(3) by simp
    have "reads (bindM (bindM (needBits ?k) (\<lambda>_. takeBits ?k)) (\<lambda>e. ret (2 ^ (?k + 1) + 1 + (d mod 2 * 2 ^ ?k + e))))
        g (num_bits ?k x) (2 ^ (?k + 1) + 1 + (d mod 2 * 2 ^ ?k + bits_val (num_bits ?k x)))"
      by (rule reads_bind_ret [OF reads_bits [OF k]]) simp
    then show ?thesis
      using False assms(3,4) t by (simp add: bindM_assoc Let_def dist_of_def add.assoc)
  qed
qed

section \<open>Writing an item\<close>

lemma holds_hp: "holds out f \<Longrightarrow> hp f < maxHist"
  by (simp add: holds_def)

lemma advanced_trans:
  assumes "holds out f" and "advanced out xs f f1" and "hp f + length xs < maxHist" and "advanced (out @ xs) ys f1 f2"
  shows "advanced out (xs @ ys) f f2"
proof -
  have "hp f1 = hp f + length xs"
    using assms(1-3) mod_offset [of "length out" maxHist "length xs"] by (simp add: advanced_def holds_def)
  with assms(2-4) show ?thesis by (auto simp: advanced_def only_output_def add.assoc)
qed

lemma put_literal_run:
  assumes "holds out f"
  shows "\<exists>f'. put_literal (unat c) f = (Ok (hp f + 1 < maxHist), f') \<and> advanced out [c] f f' \<and>
    (hp f + 1 = maxHist \<longrightarrow> flstep f' = HuffmanBlock)"
proof -
  have win: "window (out @ [c]) ((hist f)[hp f := c])"
    using window_put [of out "hist f"] assms by (simp add: holds_def)
  have lit: "put_literal (unat c) f = (if hp f + 1 = maxHist then bindM (flush HuffmanBlock) (\<lambda>_. ret False) else ret True)
      (f\<lparr>hist := (hist f)[hp f := c], hp := hp f + 1, copyLen := copyLen f\<rparr>)"
    using holds_hp [OF assms] by (simp add: put_literal_def bindM_def getS_def modifyS_def)
  show ?thesis
  proof (cases "hp f + 1 = maxHist")
    case True
    with flush_full [OF assms win, of HuffmanBlock "copyLen f"] lit show ?thesis
      by (auto simp: bindM_Ok ret_def)
  next
    case False
    then have "hp f + length [c] < maxHist" using holds_hp [OF assms] by simp
    with advance_room [OF assms win this, of "copyLen f"] lit False show ?thesis by (simp add: ret_def)
  qed
qed

lemma copy_loop_run:
  assumes "holds out f" and "p = (length out - dist) mod maxHist" and "0 < dist" and "dist \<le> length out" and "dist \<le> maxHist"
    and "k = min (copyLen f) (maxHist - hp f)"
  shows "\<exists>f' xs. copy_loop p f = (Ok (hp f + k = maxHist), f') \<and> lz_copy dist k out = out @ xs \<and> advanced out xs f f' \<and>
    copyLen f' = copyLen f - k \<and> (hp f + k = maxHist \<longrightarrow> flstep f' = CopyHuff)"
  using assms
proof (induction "copyLen f" arbitrary: out f p k rule: less_induct)
  case less
  have hpM: "hp f < maxHist" "hp f = length out mod maxHist" using less.prems(1) by (simp_all add: holds_def)
  have pM: "p < maxHist" using less.prems(2) by simp
  have len: "length (hist f) = maxHist" and win: "window out (hist f)" using less.prems(1) by (simp_all add: holds_def window_def)
  show ?case
  proof (cases "copyLen f = 0")
    case True
    then have "advanced out [] f f" using hpM(1) less.prems(1) by (simp add: advanced_def only_output_def)
    with True hpM(1) less.prems(6) show ?thesis by (subst copy_loop.simps) simp
  next
    case False
    define n where "n = min (copyLen f) (min (maxHist - hp f) (maxHist - p))"
    have n: "0 < n" "n \<le> copyLen f" "hp f + n \<le> maxHist" "p + n \<le> maxHist" using False hpM(1) pM by (simp_all add: n_def)
    let ?h = "copy_bytes (hist f) (hp f) p n"
    obtain xs where xs: "lz_copy dist n out = out @ xs" "length xs = n" using lz_copy_prefix by blast
    have fc: "forwardCopy (hist f) (hp f) p n = Ok ?h" by (rule forwardCopy_run) (use n(3,4) len in simp_all)
    have win': "window (out @ xs) ?h"
      using window_copy [OF win hpM(2) less.prems(2) n(3,4) less.prems(3-5)] xs(1) by simp
    have eq: "copy_loop p f = (if hp f + n = maxHist
       then bindM (flush CopyHuff) (\<lambda>_. ret True) (f\<lparr>hist := ?h, hp := hp f + n, copyLen := copyLen f - n\<rparr>)
       else copy_loop (if p + n = maxHist then 0 else p + n) (f\<lparr>hist := ?h, hp := hp f + n, copyLen := copyLen f - n\<rparr>))"
      using False hpM(1) pM fc by (subst copy_loop.simps) (simp add: Let_def flip: n_def)
    show ?thesis
    proof (cases "hp f + n = maxHist")
      case True
      then have k: "k = n" using n less.prems(6) by simp
      from flush_full [OF less.prems(1) win', of CopyHuff "copyLen f - n"] True xs(2) obtain f' where
        "flush CopyHuff (f\<lparr>hist := ?h, hp := maxHist, copyLen := copyLen f - n\<rparr>) = (Ok (), f')"
        "advanced out xs f f'" "flstep f' = CopyHuff" "copyLen f' = copyLen f - n" by auto
      with True k eq xs(1) show ?thesis by (auto simp: bindM_Ok ret_def)
    next
      case room: False
      let ?f1 = "f\<lparr>hist := ?h, hp := hp f + n, copyLen := copyLen f - n\<rparr>"
      have adv: "advanced out xs f ?f1"
        using advance_room [OF less.prems(1) win', of "copyLen f - n"] room n(3) xs(2) by simp
      have "(if p + n = maxHist then 0 else p + n) = (length (out @ xs) - dist) mod maxHist"
      proof -
        have "(length (out @ xs) - dist) mod maxHist = (p + n) mod maxHist"
          using less.prems(2,4) xs(2) by (simp add: mod_add_left_eq)
        then show ?thesis using n(4) by auto
      qed
      moreover have "k - n = min (copyLen ?f1) (maxHist - hp ?f1)" using less.prems(6) by auto
      moreover have "holds (out @ xs) ?f1" using adv by (simp add: advanced_def)
      ultimately obtain f' ys where rec:
        "copy_loop (if p + n = maxHist then 0 else p + n) ?f1 = (Ok (hp ?f1 + (k - n) = maxHist), f')"
        "lz_copy dist (k - n) (out @ xs) = (out @ xs) @ ys" "advanced (out @ xs) ys ?f1 f'"
        "copyLen f' = copyLen ?f1 - (k - n)" "hp ?f1 + (k - n) = maxHist \<longrightarrow> flstep f' = CopyHuff"
        using less.hyps [of ?f1 "out @ xs" "if p + n = maxHist then 0 else p + n" "k - n"] n(1,2) less.prems(3-5) by auto
      have kn: "n \<le> k" using less.prems(6) n by simp
      have "lz_copy dist k out = out @ (xs @ ys)"
        using lz_copy_add [of dist n "k - n" out] kn rec(2) xs(1) by simp
      moreover have "advanced out (xs @ ys) f f'"
        by (rule advanced_trans [OF less.prems(1) adv _ rec(3)]) (use room n(3) xs(2) in simp)
      moreover have "copy_loop p f = (Ok (hp f + k = maxHist), f')" using eq room rec(1) kn by simp
      moreover have "copyLen f' = copyLen f - k" "hp f + k = maxHist \<longrightarrow> flstep f' = CopyHuff"
        using rec(4,5) kn by simp_all
      ultimately show ?thesis by blast
    qed
  qed
qed

lemma copyHist_run:
  assumes "holds out f" and "0 < copyDist f" and "copyDist f \<le> length out" and "copyDist f \<le> maxHist"
    and "k = min (copyLen f) (maxHist - hp f)"
  shows "\<exists>f' xs. copyHist f = (Ok (hp f + k = maxHist), f') \<and> lz_copy (copyDist f) k out = out @ xs \<and> advanced out xs f f' \<and>
    copyLen f' = copyLen f - k \<and> (hp f + k = maxHist \<longrightarrow> flstep f' = CopyHuff)"
proof -
  have hp: "hp f = length out mod maxHist" "hp f < maxHist" using assms(1) by (simp_all add: holds_def)
  have "(if copyDist f \<le> hp f then hp f - copyDist f else hp f + maxHist - copyDist f) = (length out - copyDist f) mod maxHist"
  proof -
    let ?p = "if copyDist f \<le> hp f then hp f - copyDist f else hp f + maxHist - copyDist f"
    have len: "length out = length out div maxHist * maxHist + hp f" using hp(1) length_quotient by metis
    have "length out div maxHist \<noteq> 0 \<or> copyDist f \<le> hp f" using len assms(3) by (metis add_0 mult_0)
    then have "\<exists>q. length out - copyDist f = q * maxHist + ?p"
    proof (cases "copyDist f \<le> hp f")
      case True
      then show ?thesis using len by (intro exI [of _ "length out div maxHist"]) simp
    next
      case False
      then obtain q where "length out div maxHist = Suc q" using \<open>_ \<or> _\<close> not0_implies_Suc by blast
      with len False assms(4) show ?thesis by (intro exI [of _ q]) simp
    qed
    then obtain q where q: "length out - copyDist f = q * maxHist + ?p" by blast
    have "?p < maxHist" using hp(2) assms(2,4) by auto
    with q show ?thesis by simp
  qed
  from copy_loop_run [OF assms(1) this assms(2-5)] show ?thesis unfolding copyHist_def .
qed

section \<open>A block\<close>

text \<open>What reading and writing inside a block leave alone.\<close>

definition kept :: "decompressor \<Rightarrow> decompressor \<Rightarrow> bool" where
  "kept f g \<longleftrightarrow> rend g = rend f \<and> h1 g = h1 f \<and> h2 g = h2 f \<and> hl g = hl f \<and> hd g = hd f \<and> final g = final f \<and>
     bits g = bits f \<and> codebits g = codebits f"

lemma kept_input: "only_input f g \<Longrightarrow> kept f g"
  by (auto simp: kept_def only_input_def)

text \<open>Ready to decode items; and the state a block ends in.\<close>

definition inside :: "nat list \<Rightarrow> nat list \<Rightarrow> u8 list \<Rightarrow> decompressor \<Rightarrow> bool" where
  "inside ll dl out f \<longleftrightarrow> holds out f \<and> toRead f = [] \<and> derr f = None \<and> tidy f \<and>
     decodes ll (decoder_of f (hl f)) \<and> kraft ll \<and> is_sym ll 256 \<and> dist_decodes dl f"

definition after :: "u8 list \<Rightarrow> bool list \<Rightarrow> decompressor \<Rightarrow> decompressor \<Rightarrow> bool" where
  "after out rest f g \<longleftrightarrow> holds out g \<and> toRead g = [] \<and> derr g = None \<and> tidy g \<and> stream g = rest \<and>
     flstep g = NextBlock \<and> kept f g"

lemma after_kept: "kept f g \<Longrightarrow> after out rest g = after out rest f"
  by (rule ext) (simp add: after_def kept_def)

lemma inside_input: "inside ll dl out f \<Longrightarrow> only_input f g \<Longrightarrow> tidy g \<Longrightarrow> inside ll dl out g"
  using only_input_decoder [of f g]
  by (auto simp: inside_def holds_def dist_decodes_def dest!: only_input_same split: option.splits)

lemma advanced_inside:
  assumes "inside ll dl out f" and "advanced out xs f g"
  shows "inside ll dl (out @ xs) (g\<lparr>toRead := []\<rparr>)" "kept f (g\<lparr>toRead := []\<rparr>)" "stream (g\<lparr>toRead := []\<rparr>) = stream f"
    "derr g = None"
proof -
  have o: "only_output f g" "holds (out @ xs) g" using assms(2) by (simp_all add: advanced_def)
  have "decoder_of (g\<lparr>toRead := []\<rparr>) d = decoder_of f d" for d
    using o(1) by (simp add: decoder_of_def only_output_def split: decoder.split)
  then show "inside ll dl (out @ xs) (g\<lparr>toRead := []\<rparr>)"
    using assms(1) o by (auto simp: inside_def only_output_def holds_def tidy_def clean_def dist_decodes_def split: option.splits)
  show "kept f (g\<lparr>toRead := []\<rparr>)" "stream (g\<lparr>toRead := []\<rparr>) = stream f" "derr g = None"
    using o(1) assms(1) by (simp_all add: kept_def stream_def only_output_def inside_def)
qed

lemma item_out_prefix: "\<exists>xs. item_out out t = out @ xs"
  using lz_copy_prefix by (cases t) (auto, blast)

lemma items_out_prefix: "\<exists>xs. foldl item_out out ts = out @ xs"
proof (induction ts arbitrary: out)
  case (Cons t ts)
  from item_out_prefix [of out t] obtain xs where "item_out out t = out @ xs" by blast
  moreover from Cons [of "out @ xs"] obtain ys where "foldl item_out (out @ xs) ts = out @ xs @ ys" by auto
  ultimately show ?case by simp
qed simp

text \<open>After a write the work goes on: at once, or in the next step when the history was full.\<close>

lemma serves_advanced:
  assumes "toRead f = []" and "derr f = None" and "advanced out xs f g"
    and "if hp f + length xs < maxHist then m f = m' g
         else m f = (Ok (), g) \<and> flate_do (g\<lparr>toRead := []\<rparr>) = m' (g\<lparr>toRead := []\<rparr>)"
    and "serves Q m' (g\<lparr>toRead := []\<rparr>) (pending g @ ys)"
  shows "serves Q m f (pending f @ xs @ ys)"
proof (cases "hp f + length xs < maxHist")
  case True
  then have g: "toRead g = []" "pending g = pending f @ xs" using assms(1,3) by (simp_all add: advanced_def)
  have "serves Q m' g (pending g @ ys)"
    using assms(5) unfolding toRead_empty [OF g(1)] .
  then show ?thesis using assms(4) True g(2) by (intro serves_cong [of m f m' g]) simp_all
next
  case False
  then have g: "toRead g = pending f @ xs" "pending g = []" "derr g = None"
    using assms(2,3) by (auto simp: advanced_def only_output_def)
  have "serves Q flate_do (g\<lparr>toRead := []\<rparr>) ys"
    using assms(4,5) False g(2) by (intro serves_cong [of flate_do "g\<lparr>toRead := []\<rparr>" m']) simp_all
  from serves_go [where m = m and f = f and g = g, OF _ g(3) this] False assms(4) g(1)
  show ?thesis by simp
qed

lemma serves_copyHuff:
  assumes "inside ll dl out f" and "0 < copyDist f" and "copyDist f \<le> length out" and "copyDist f \<le> maxHist"
    and "lz_copy (copyDist f) (copyLen f) out = out @ xs"
    and "\<And>g. inside ll dl (out @ xs) g \<Longrightarrow> kept f g \<Longrightarrow> stream g = stream f \<Longrightarrow> serves Q huffmanBlock g (pending g @ ys)"
  shows "serves Q copyHuff f (pending f @ xs @ ys)"
  using assms
proof (induction "copyLen f" arbitrary: out f xs rule: less_induct)
  case less
  let ?k = "min (copyLen f) (maxHist - hp f)"
  have h: "holds out f" using less.prems(1) by (simp add: inside_def)
  from copyHist_run [OF h less.prems(2-4) refl] obtain g zs where
    g: "copyHist f = (Ok (hp f + ?k = maxHist), g)" "lz_copy (copyDist f) ?k out = out @ zs" "advanced out zs f g"
      "copyLen g = copyLen f - ?k" "hp f + ?k = maxHist \<longrightarrow> flstep g = CopyHuff" by blast
  have zs: "length zs = ?k" using arg_cong [OF g(2), of length] by simp
  have hpM: "hp f < maxHist" using holds_hp [OF h] .
  note ins = advanced_inside [OF less.prems(1) g(3)]
  have tr: "toRead f = []" "derr f = None" using less.prems(1) by (simp_all add: inside_def)
  show ?case
  proof (cases "hp f + ?k = maxHist")
    case False
    then have "xs = zs" using less.prems(5) g(2) hpM by (simp add: min_def split: if_splits)
    have "copyHuff f = huffmanBlock g" using g(1) False by (simp add: copyHuff_def bindM_Ok)
    moreover have room: "hp f + length zs < maxHist" using False zs hpM by simp
    moreover have "serves Q huffmanBlock (g\<lparr>toRead := []\<rparr>) (pending g @ ys)"
      using less.prems(6) [OF _ ins(2,3)] ins(1) \<open>xs = zs\<close> by simp
    ultimately show ?thesis
      unfolding \<open>xs = zs\<close> by (intro serves_advanced [where m' = huffmanBlock, OF tr g(3)]) simp_all
  next
    case True
    let ?f1 = "g\<lparr>toRead := []\<rparr>"
    have full: "\<not> hp f + length zs < maxHist" "copyDist g = copyDist f" using True zs g(3) by (simp_all add: advanced_def only_output_def)
    obtain ws where ws: "lz_copy (copyDist f) (copyLen g) (out @ zs) = (out @ zs) @ ws" using lz_copy_prefix by blast
    have "copyLen f = ?k + copyLen g" using g(4) by simp
    then have "lz_copy (copyDist f) (copyLen f) out = lz_copy (copyDist f) (copyLen g) (out @ zs)"
      using lz_copy_add [of "copyDist f" ?k "copyLen g" out] g(2) by (simp only:)
    then have xs: "xs = zs @ ws" using less.prems(5) ws by simp
    have "copyHuff f = (Ok (), g)" using g(1) True by (simp add: copyHuff_def bindM_Ok ret_def)
    moreover have "serves Q copyHuff ?f1 (pending ?f1 @ ws @ ys)"
    proof (rule less.hyps [OF _ ins(1)])
      show "copyLen ?f1 < copyLen f" using True g(4) hpM by simp
      show "0 < copyDist ?f1" "copyDist ?f1 \<le> length (out @ zs)" "copyDist ?f1 \<le> maxHist"
        using full(2) less.prems(2-4) by simp_all
      show "lz_copy (copyDist ?f1) (copyLen ?f1) (out @ zs) = (out @ zs) @ ws" using ws full(2) by simp
      fix g' assume "inside ll dl ((out @ zs) @ ws) g'" "kept ?f1 g'" "stream g' = stream ?f1"
      with less.prems(6) [of g'] ins(2,3) xs show "serves Q huffmanBlock g' (pending g' @ ys)"
        by (simp add: kept_def)
    qed
    ultimately show ?thesis
      using serves_advanced [OF tr g(3), of copyHuff copyHuff Q "ws @ ys"] full(1) g(5) True xs by (simp add: flate_do_def)
  qed
qed

lemma huffmanBlock_item:
  assumes "tidy f" and "stream f = code_bits ll i @ rest" and "decodes ll (decoder_of f (hl f))" and "kraft ll" and "is_sym ll i"
  obtains g where "huff_item f = (if i < 256 then put_literal i
     else if i = 256 then bindM (modifyS (\<lambda>f. f\<lparr>flstep := NextBlock\<rparr>)) (\<lambda>_. ret False) else huff_match i) g"
    "only_input f g" "stream g = rest" "tidy g"
proof -
  have "reads (bindM getS (\<lambda>f. huffSym (hl f))) f (code_bits ll i) i"
    by (rule reads_getS) (rule reads_sym [OF assms(3-5)])
  from readsD [OF this assms(1,2)] obtain g where
    g: "bindM getS (\<lambda>f. huffSym (hl f)) f = (Ok i, g)" "only_input f g" "stream g = rest" "tidy g" .
  show ?thesis by (rule that [of g]) (use g in \<open>simp_all add: huff_item_def set_err_Ok\<close>)
qed

lemma serves_end:
  assumes "inside ll dl out f" and "stream f = code_bits ll 256 @ rest"
  shows "serves (after out rest f) huffmanBlock f (pending f)"
proof -
  have f: "tidy f" "decodes ll (decoder_of f (hl f))" "kraft ll" "is_sym ll 256" using assms(1) by (simp_all add: inside_def)
  obtain g where g: "huff_item f = bindM (modifyS (\<lambda>f. f\<lparr>flstep := NextBlock\<rparr>)) (\<lambda>_. ret False) g"
    "only_input f g" "stream g = rest" "tidy g"
    by (rule huffmanBlock_item [OF f(1) assms(2) f(2-4)]) simp
  let ?g = "g\<lparr>flstep := NextBlock\<rparr>"
  have "huffmanBlock f = (Ok (), ?g)" using g(1) by (subst huffmanBlock.simps) (simp add: bindM_def modifyS_def ret_def)
  moreover have "pending ?g = pending f" "toRead ?g = []" "after out rest f ?g"
    using g(2-4) only_input_same [OF g(2)] assms(1)
    by (simp_all add: pending_def inside_def after_def kept_def holds_def stream_def tidy_def clean_def)
  ultimately show ?thesis using serves_stop [of huffmanBlock f ?g] by metis
qed

lemma serves_literal:
  assumes "inside ll dl out f" and "item_ok ll dl out (Lit c)" and "stream f = item_bits ll dl (Lit c) @ rest"
    and "\<And>g. inside ll dl (out @ [c]) g \<Longrightarrow> kept f g \<Longrightarrow> stream g = rest \<Longrightarrow> serves Q huffmanBlock g (pending g @ ys)"
  shows "serves Q huffmanBlock f (pending f @ [c] @ ys)"
proof -
  have f: "tidy f" "decodes ll (decoder_of f (hl f))" "kraft ll" "is_sym ll (unat c)" "stream f = code_bits ll (unat c) @ rest"
    using assms(1-3) by (simp_all add: inside_def)
  have "unat c < 256" using unsigned_less [of c, where 'a = nat] by simp
  obtain g where g: "huff_item f = put_literal (unat c) g" "only_input f g" "stream g = rest" "tidy g"
    by (rule huffmanBlock_item [OF f(1,5,2-4)]) (use \<open>unat c < 256\<close> in simp)
  have ins: "inside ll dl out g" using inside_input [OF assms(1) g(2,4)] .
  then have h: "holds out g" by (simp add: inside_def)
  from put_literal_run [OF this, of c] obtain k where
    k: "put_literal (unat c) g = (Ok (hp g + 1 < maxHist), k)" "advanced out [c] g k" "hp g + 1 = maxHist \<longrightarrow> flstep k = HuffmanBlock"
    by blast
  note adv = advanced_inside [OF ins k(2)]
  have kf: "kept f (k\<lparr>toRead := []\<rparr>)" using kept_input [OF g(2)] adv(2) by (simp add: kept_def)
  have "serves Q huffmanBlock (k\<lparr>toRead := []\<rparr>) (pending k @ ys)"
    using assms(4) [OF adv(1) kf] adv(3) g(3) by simp
  moreover have "huffmanBlock f = (if hp g + 1 < maxHist then huffmanBlock k else (Ok (), k))"
    using g(1) k(1) by (subst huffmanBlock.simps) simp
  moreover have "pending g = pending f" using only_input_same [OF g(2)] by (simp add: pending_def)
  moreover have "\<not> hp g + 1 < maxHist \<Longrightarrow> flstep k = HuffmanBlock" using k(3) holds_hp [OF h] by simp
  ultimately have "serves Q (\<lambda>_. huffmanBlock f) g (pending g @ [c] @ ys)"
    using ins by (intro serves_advanced [where m' = huffmanBlock, OF _ _ k(2)]) (simp_all add: flate_do_def inside_def split: if_splits)
  then show ?thesis using \<open>pending g = pending f\<close> by (auto intro: serves_cong)
qed

lemma reads_extra_then_dist:
  assumes "inside ll dl out f" and "item_ok ll dl out (Match v e d x)"
    and "stream f = num_bits (snd (len_table ! v)) e @ code_bits dl d @ num_bits (snd (dist_table ! d)) x @ rest"
  obtains g where "huff_match (257 + v) f = copy_match (len_of v e) (dist_of d x) g" "only_input f g" "stream g = rest" "tidy g"
proof -
  have f: "tidy f" "dist_decodes dl f" "holds out f" using assms(1) by (simp_all add: inside_def)
  have m: "v < 29" "e < 2 ^ snd (len_table ! v)" "is_sym dl d" "d < 30" "x < 2 ^ snd (dist_table ! d)" "dist_of d x \<le> length out"
    using assms(2) by simp_all
  let ?n = "snd (len_table ! v)"
  have "reads (bindM (needBits ?n) (\<lambda>_. takeBits ?n)) f (num_bits ?n e) e"
    using reads_bits [of ?n "num_bits ?n e" f] extra_bits(1) [OF m(1)] m(2) by simp
  from readsD [OF this f(1) assms(3)] obtain f1 where
    f1: "bindM (needBits ?n) (\<lambda>_. takeBits ?n) f = (Ok e, f1)" "only_input f f1" "tidy f1"
      "stream f1 = (code_bits dl d @ num_bits (snd (dist_table ! d)) x) @ rest" by auto
  have "dist_decodes dl f1" using inside_input [OF assms(1) f1(2,3)] by (simp add: inside_def)
  from readsD [OF reads_dist [OF this m(3-5)] f1(3,4)] obtain g where
    g: "read_dist f1 = (Ok (dist_of d x), g)" "only_input f1 g" "stream g = rest" "tidy g" .
  have o: "only_input f g" using f1(2) g(2) by (rule only_input_trans)
  have "holds out g" using only_input_same [OF o] f(3) by (simp add: holds_def)
  then have "\<not> (\<not> hfull g \<and> hp g < dist_of d x)" using m(6) by (auto simp: holds_def)
  then have "copy_checked (len_of v e) (dist_of d x) g = copy_match (len_of v e) (dist_of d x) g"
    using dist_of_bounds(2) [OF m(4,5)] by (auto simp: copy_checked_def bindM_def getS_def)
  moreover have "huff_match (257 + v) f = copy_checked (len_of v e) (dist_of d x) g"
    using f1(1) g(1) by (simp add: huff_match_def length_code_table [OF m(1)] split_beta set_err_Ok len_of_def)
  ultimately show ?thesis using that o g(3,4) by metis
qed

lemma serves_match:
  assumes "inside ll dl out f" and "item_ok ll dl out (Match v e d x)" and "stream f = item_bits ll dl (Match v e d x) @ rest"
    and "item_out out (Match v e d x) = out @ xs"
    and "\<And>g. inside ll dl (out @ xs) g \<Longrightarrow> kept f g \<Longrightarrow> stream g = rest \<Longrightarrow> serves Q huffmanBlock g (pending g @ ys)"
  shows "serves Q huffmanBlock f (pending f @ xs @ ys)"
proof -
  have f: "tidy f" "decodes ll (decoder_of f (hl f))" "kraft ll" using assms(1) by (simp_all add: inside_def)
  have m: "is_sym ll (257 + v)" "d < 30" "x < 2 ^ snd (dist_table ! d)" "dist_of d x \<le> length out" using assms(2) by simp_all
  have st: "stream f = code_bits ll (257 + v) @ (num_bits (snd (len_table ! v)) e @ code_bits dl d @
      num_bits (snd (dist_table ! d)) x @ rest)" using assms(3) by simp
  obtain f1 where f1: "huff_item f = huff_match (257 + v) f1" "only_input f f1" "tidy f1"
      "stream f1 = num_bits (snd (len_table ! v)) e @ code_bits dl d @ num_bits (snd (dist_table ! d)) x @ rest"
    by (rule huffmanBlock_item [OF f(1) st f(2,3) m(1)]) auto
  from reads_extra_then_dist [OF inside_input [OF assms(1) f1(2,3)] assms(2) f1(4)] obtain g where
    g: "huff_match (257 + v) f1 = copy_match (len_of v e) (dist_of d x) g" "only_input f1 g" "stream g = rest" "tidy g" .
  let ?g = "g\<lparr>copyLen := len_of v e, copyDist := dist_of d x\<rparr>"
  have o: "only_input f g" using f1(2) g(2) by (rule only_input_trans)
  have eq: "huffmanBlock f = copyHuff ?g"
    using f1(1) g(1) by (subst huffmanBlock.simps)
      (simp add: copy_match_def bindM_def modifyS_def copyHuff_def ret_def split: prod.split outcome.split bool.split)
  have "inside ll dl out ?g"
    using inside_input [OF assms(1) o g(4)]
    by (auto simp: inside_def holds_def tidy_def clean_def dist_decodes_def decoder_of_def split: option.splits decoder.splits)
  then have "serves Q copyHuff ?g (pending ?g @ xs @ ys)"
  proof (rule serves_copyHuff)
    show "lz_copy (copyDist ?g) (copyLen ?g) out = out @ xs" using assms(4) by simp
    fix k assume "inside ll dl (out @ xs) k" "kept ?g k" "stream k = stream ?g"
    moreover from this kept_input [OF o] have "kept f k" by (simp add: kept_def)
    moreover have "stream ?g = rest" using g(3) by (simp add: stream_def)
    ultimately show "serves Q huffmanBlock k (pending k @ ys)" using assms(5) by simp
  qed (use dist_of_bounds [OF m(2,3)] m(4) in simp_all)
  moreover have "pending ?g = pending f" using only_input_same [OF o] by (simp add: pending_def)
  ultimately show ?thesis using eq by (auto intro: serves_cong)
qed

text \<open>A whole block: what it stands for is appended to the output and handed out, or kept for the next flush.\<close>

lemma serves_block:
  assumes "inside ll dl out f" and "items_ok ll dl out ts" and "foldl item_out out ts = out @ xs"
    and "stream f = concat (map (item_bits ll dl) ts) @ code_bits ll 256 @ rest"
  shows "serves (after (out @ xs) rest f) huffmanBlock f (pending f @ xs)"
  using assms
proof (induction ts arbitrary: out f xs)
  case Nil
  then show ?case using serves_end by simp
next
  case (Cons t ts)
  obtain ys where ys: "item_out out t = out @ ys" using item_out_prefix by blast
  obtain zs where zs: "foldl item_out (out @ ys) ts = (out @ ys) @ zs" using items_out_prefix by blast
  have xs: "xs = ys @ zs" using Cons.prems(3) ys zs by simp
  let ?rest = "concat (map (item_bits ll dl) ts) @ code_bits ll 256 @ rest"
  have st: "stream f = item_bits ll dl t @ ?rest" using Cons.prems(4) by simp
  have ok: "item_ok ll dl out t" "items_ok ll dl (out @ ys) ts" using Cons.prems(2) ys by simp_all
  have rec: "serves (after (out @ xs) rest f) huffmanBlock g (pending g @ zs)"
    if "inside ll dl (out @ ys) g" "kept f g" "stream g = ?rest" for g
    using Cons.IH [OF that(1) ok(2) zs that(3)] after_kept [OF that(2)] xs by simp
  show ?case
  proof (cases t)
    case (Lit c)
    then have "ys = [c]" using ys by simp
    with serves_literal [OF Cons.prems(1) ok(1) [unfolded Lit] st [unfolded Lit], of _ zs] rec xs show ?thesis by simp
  next
    case (Match v e d x)
    from serves_match [OF Cons.prems(1) ok(1) [unfolded Match] st [unfolded Match] ys [unfolded Match], of _ zs] rec xs
    show ?thesis by simp
  qed
qed

end
