(* ===== verification/InflateHeader.thy ===== *)
theory InflateHeader
  imports InflateBlocks
begin

text \<open>
  The header of a block with its own codes: RFC 1951, section 3.2.7, as bits, and \<open>readHuffman\<close>, which makes the two
  tables from them.
\<close>

section \<open>The lengths of the codes\<close>

text \<open>A length, a repetition of the last one (\<open>3 + e\<close> times), a few zeros (\<open>3 + e\<close>), many zeros (\<open>11 + e\<close>).\<close>

datatype cl_item = CLen nat | CRepeat nat | CZeros nat | CManyZeros nat

fun cl_bits :: "nat list \<Rightarrow> cl_item \<Rightarrow> bool list" where
  "cl_bits cls (CLen x) = code_bits cls x"
| "cl_bits cls (CRepeat e) = code_bits cls 16 @ num_bits 2 e"
| "cl_bits cls (CZeros e) = code_bits cls 17 @ num_bits 3 e"
| "cl_bits cls (CManyZeros e) = code_bits cls 18 @ num_bits 7 e"

fun cl_out :: "nat list \<Rightarrow> cl_item \<Rightarrow> nat list" where
  "cl_out acc (CLen x) = acc @ [x]"
| "cl_out acc (CRepeat e) = acc @ replicate (3 + e) (last acc)"
| "cl_out acc (CZeros e) = acc @ replicate (3 + e) 0"
| "cl_out acc (CManyZeros e) = acc @ replicate (11 + e) 0"

fun cl_ok :: "nat list \<Rightarrow> nat list \<Rightarrow> cl_item \<Rightarrow> bool" where
  "cl_ok cls acc (CLen x) \<longleftrightarrow> x < 16 \<and> is_sym cls x"
| "cl_ok cls acc (CRepeat e) \<longleftrightarrow> e < 4 \<and> is_sym cls 16 \<and> acc \<noteq> []"
| "cl_ok cls acc (CZeros e) \<longleftrightarrow> e < 8 \<and> is_sym cls 17"
| "cl_ok cls acc (CManyZeros e) \<longleftrightarrow> e < 128 \<and> is_sym cls 18"

fun cls_ok :: "nat list \<Rightarrow> nat list \<Rightarrow> cl_item list \<Rightarrow> bool" where
  "cls_ok cls acc [] \<longleftrightarrow> True"
| "cls_ok cls acc (c # cs) \<longleftrightarrow> cl_ok cls acc c \<and> cls_ok cls (cl_out acc c) cs"

text \<open>Lengths from which \<open>init\<close> makes a table.\<close>

definition codes_ok :: "nat list \<Rightarrow> bool" where
  "codes_ok lens \<longleftrightarrow> kraft lens \<and> list_all (\<lambda>n. n < 16) lens \<and> list_ex (\<lambda>n. n \<noteq> 0) lens \<and> len_min lens \<le> 10"

record header =
  h_ncl :: nat
  h_cls :: "nat list"
  h_items :: "cl_item list"
  h_lits :: "nat list"
  h_dists :: "nat list"

definition header_ok :: "header \<Rightarrow> bool" where
  "header_ok h \<longleftrightarrow> 4 \<le> h_ncl h \<and> h_ncl h \<le> 19 \<and> length (h_cls h) = 19 \<and>
     list_all (\<lambda>i. h_cls h ! (codeOrder ! i) = 0) [h_ncl h..<19] \<and> list_all (\<lambda>n. n < 8) (h_cls h) \<and> codes_ok (h_cls h) \<and>
     257 \<le> length (h_lits h) \<and> length (h_lits h) \<le> 286 \<and> 1 \<le> length (h_dists h) \<and> length (h_dists h) \<le> 32 \<and>
     cls_ok (h_cls h) [] (h_items h) \<and> foldl cl_out [] (h_items h) = h_lits h @ h_dists h \<and>
     codes_ok (h_lits h) \<and> codes_ok (h_dists h) \<and> is_sym (h_lits h) 256"

definition header_bits :: "header \<Rightarrow> bool list" where
  "header_bits h =
     num_bits 5 (length (h_lits h) - 257) @ num_bits 5 (length (h_dists h) - 1) @ num_bits 4 (h_ncl h - 4) @
     concat (map (\<lambda>i. num_bits 3 (h_cls h ! (codeOrder ! i))) [0..<h_ncl h]) @ concat (map (cl_bits (h_cls h)) (h_items h))"

section \<open>What reading a header changes\<close>

definition header_input :: "decompressor \<Rightarrow> decompressor \<Rightarrow> bool" where
  "header_input f g \<longleftrightarrow> hist g = hist f \<and> hp g = hp f \<and> hw g = hw f \<and> hfull g = hfull f \<and> toRead g = toRead f \<and>
     derr g = derr f \<and> final g = final f \<and> flstep g = flstep f \<and> rend g = rend f"

lemma header_input_only: "only_input f g \<Longrightarrow> header_input f g"
  by (auto simp: only_input_def header_input_def)

lemma header_input_trans: "header_input f g \<Longrightarrow> header_input g h \<Longrightarrow> header_input f h"
  by (simp add: header_input_def)

lemma header_input_upd:
  "header_input f (f\<lparr>codebits := cb\<rparr>)" "header_input f (f\<lparr>bits := bs\<rparr>)" "header_input f (f\<lparr>h1 := x\<rparr>)" "header_input f (f\<lparr>h2 := y\<rparr>)"
  by (simp_all add: header_input_def)

lemma take_run:
  assumes "clean f" and "stream f = xs @ rest" and "length xs \<le> nb f"
  obtains g where "takeBits (length xs) f = (Ok (bits_val xs), g)" "only_input f g" "stream g = rest" "clean g"
    "nb g = nb f - length xs"
proof
  have "peekBits (length xs) f = bits_val xs" using peekBits_val [OF assms(1,3)] assms(2) by simp
  then show "takeBits (length xs) f = (Ok (bits_val xs), dropBits (length xs) f)" by (simp add: takeBits_def)
  show "stream (dropBits (length xs) f) = rest" using stream_dropBits [OF assms(3)] assms(2) by simp
qed (simp_all add: only_input_dropBits clean_dropBits assms(1), simp add: dropBits_def)

section \<open>The code of the lengths\<close>

lemma put_order:
  assumes "j < length cb" and "\<And>i. i \<in> set is \<Longrightarrow> p i < length cb"
  shows "fold (\<lambda>i cb. cb[p i := v ! p i]) is cb ! j = (if j \<in> p ` set is then v ! j else cb ! j)"
  using assms
proof (induction "is" arbitrary: cb)
  case (Cons i "is")
  then show ?case by (auto simp: nth_list_update)
qed simp

lemma length_fold_put: "length (fold (\<lambda>i cb. cb[p i := v i]) is cb) = length cb"
  by (induction "is" arbitrary: cb) simp_all

lemma codeOrder_perm: "(!) codeOrder ` {0..<19} = {0..<19}"
proof -
  have "map ((!) codeOrder) [0..<19] = codeOrder" by (rule nth_equalityI) (simp_all add: codeOrder_def)
  then have "(!) codeOrder ` {0..<19} = set codeOrder" by (metis set_map set_upt)
  moreover have "set codeOrder = {0..<19}" by (rule card_subset_eq) (simp_all add: codeOrder_def)
  ultimately show ?thesis by simp
qed

lemma order_less: "i < 19 \<Longrightarrow> codeOrder ! i < 19"
  using codeOrder_perm by (metis atLeastLessThan_iff imageI zero_le)

lemma read_codebit_run:
  assumes "tidy f" and "stream f = num_bits 3 x @ rest" and "x < 8"
  shows "\<exists>g. read_codebit i f = (Ok (), g) \<and> header_input f g \<and> codebits g = (codebits f)[codeOrder ! i := x] \<and>
    bits g = bits f \<and> h1 g = h1 f \<and> h2 g = h2 f \<and> stream g = rest \<and> tidy g"
proof -
  have "reads (bindM (needBits 3) (\<lambda>_. takeBits 3)) f (num_bits 3 x) x"
    using reads_bits [of 3 "num_bits 3 x" f] assms(3) by simp
  from readsD [OF this assms(1,2)] obtain f1 where
    f1: "bindM (needBits 3) (\<lambda>_. takeBits 3) f = (Ok x, f1)" "only_input f f1" "stream f1 = rest" "tidy f1" .
  let ?g = "f1\<lparr>codebits := (codebits f1)[codeOrder ! i := x]\<rparr>"
  have "read_codebit i = bindM (bindM (needBits 3) (\<lambda>_. takeBits 3)) (\<lambda>x. modifyS (\<lambda>f. f\<lparr>codebits := (codebits f)[codeOrder ! i := x]\<rparr>))"
    by (simp add: read_codebit_def bindM_assoc)
  then have "read_codebit i f = (Ok (), ?g)" 
    using bindM_Ok [where m = "bindM (needBits 3) (\<lambda>_. takeBits 3)" and s = f and f = "\<lambda>x. modifyS (\<lambda>f. f\<lparr>codebits := (codebits f)[codeOrder ! i := x]\<rparr>)", OF f1(1)]
    by (simp add: modifyS_def)
  moreover have "header_input f ?g" using header_input_only [OF f1(2)] header_input_upd(1) by (rule header_input_trans)
  ultimately show ?thesis using f1(3,4) only_input_same [OF f1(2)]
    by (intro exI [of _ ?g]) (simp add: tidy_def clean_def stream_def)
qed

lemma read_cls_run:
  assumes "tidy f" and "stream f = concat (map (\<lambda>i. num_bits 3 (v ! (codeOrder ! i))) is) @ rest"
    and "\<forall>i \<in> set is. v ! (codeOrder ! i) < 8"
  shows "\<exists>g. forM is read_codebit f = (Ok (), g) \<and> header_input f g \<and>
      codebits g = fold (\<lambda>i cb. cb[codeOrder ! i := v ! (codeOrder ! i)]) is (codebits f) \<and> bits g = bits f \<and>
      h1 g = h1 f \<and> h2 g = h2 f \<and> stream g = rest \<and> tidy g"
  using assms
proof (induction "is" arbitrary: f)
  case Nil
  then show ?case by (intro exI [of _ f]) (simp add: ret_def header_input_only)
next
  case (Cons i "is")
  let ?rest = "concat (map (\<lambda>i. num_bits 3 (v ! (codeOrder ! i))) is) @ rest"
  have "stream f = num_bits 3 (v ! (codeOrder ! i)) @ ?rest" "v ! (codeOrder ! i) < 8" using Cons.prems(2,3) by simp_all
  from read_codebit_run [OF Cons.prems(1) this, of i] obtain f1 where
    f1: "read_codebit i f = (Ok (), f1)" "header_input f f1" "codebits f1 = (codebits f)[codeOrder ! i := v ! (codeOrder ! i)]"
      "bits f1 = bits f" "h1 f1 = h1 f" "h2 f1 = h2 f" "stream f1 = ?rest" "tidy f1" by blast
  from Cons.IH [OF f1(8,7)] Cons.prems(3) obtain g where
    g: "forM is read_codebit f1 = (Ok (), g)" "header_input f1 g"
      "codebits g = fold (\<lambda>i cb. cb[codeOrder ! i := v ! (codeOrder ! i)]) is (codebits f1)"
      "bits g = bits f1" "h1 g = h1 f1" "h2 g = h2 f1" "stream g = rest" "tidy g" by (meson list.set_intros(2))
  have "forM (i # is) read_codebit f = (Ok (), g)" using f1(1) g(1) by (simp add: bindM_Ok)
  with header_input_trans [OF f1(2) g(2)] f1(3-6) g(3-8) show ?case by (intro exI [of _ g]) simp
qed

lemma zero_cls_run:
  "forM is (\<lambda>i. modifyS (\<lambda>f. f\<lparr>codebits := (codebits f)[codeOrder ! i := 0]\<rparr>)) f =
     (Ok (), f\<lparr>codebits := fold (\<lambda>i cb. cb[codeOrder ! i := 0]) is (codebits f)\<rparr>)"
proof (induction "is" arbitrary: f)
  case Nil
  then show ?case by (simp add: ret_def)
next
  case (Cons i "is")
  then show ?case by (simp add: bindM_def)
qed

section \<open>The lengths\<close>

lemma fold_fill:
  "i + r \<le> length bs \<Longrightarrow> fold (\<lambda>j bs. bs[j := b]) [i..<i + r] bs = take i bs @ replicate r b @ drop (i + r) bs"
proof (induction r)
  case (Suc r)
  then have "drop (i + r) bs = bs ! (i + r) # drop (Suc (i + r)) bs" by (simp add: Cons_nth_drop_Suc)
  with Suc show ?case by (simp add: list_update_append replicate_append_same [symmetric])
qed simp

text \<open>\<open>f\<close> has read the lengths \<open>acc\<close> with the code \<open>cls\<close>.\<close>

definition got_lens :: "nat list \<Rightarrow> nat list \<Rightarrow> decompressor \<Rightarrow> bool" where
  "got_lens cls acc f \<longleftrightarrow> tidy f \<and> decodes cls (h1 f) \<and> take (length acc) (bits f) = acc \<and> length acc \<le> length (bits f)"

definition lens_input :: "decompressor \<Rightarrow> decompressor \<Rightarrow> bool" where
  "lens_input f g \<longleftrightarrow> header_input f g \<and> h1 g = h1 f \<and> h2 g = h2 f \<and> codebits g = codebits f \<and> length (bits g) = length (bits f)"

lemma lens_input_trans: "lens_input f g \<Longrightarrow> lens_input g h \<Longrightarrow> lens_input f h"
  using header_input_trans by (auto simp: lens_input_def)

lemma lens_input_only: "only_input f g \<Longrightarrow> lens_input f (g\<lparr>bits := bs\<rparr>) \<longleftrightarrow> length bs = length (bits f)"
  by (auto simp: lens_input_def header_input_def dest: only_input_same)

lemma read_length_sym:
  assumes "got_lens cls acc f" and "kraft cls" and "is_sym cls x" and "stream f = code_bits cls x @ rest"
  obtains g where "huffSym H1 f = (Ok x, g)" "only_input f g" "stream g = rest" "tidy g"
proof -
  have "decodes cls (decoder_of f H1)" "tidy f" using assms(1) by (simp_all add: got_lens_def decoder_of_def)
  from readsD [OF reads_sym [OF this(1) assms(2,3)] this(2) assms(4)] show ?thesis using that .
qed

lemma got_lens_after:
  assumes "got_lens cls acc f" and "only_input f g" and "tidy g" and "length acc + length bs \<le> length (bits f)"
  shows "got_lens cls (acc @ bs) (g\<lparr>bits := take (length acc) (bits f) @ bs @ drop (length acc + length bs) (bits f)\<rparr>)"
    "lens_input f (g\<lparr>bits := take (length acc) (bits f) @ bs @ drop (length acc + length bs) (bits f)\<rparr>)"
  using assms only_input_same [OF assms(2)]
  by (simp_all add: got_lens_def tidy_def clean_def lens_input_only)

text \<open>The three ways of repeating differ in the symbol, its extra bits, the least number and the length repeated.\<close>

lemma read_length_repeat:
  assumes "got_lens cls acc f" and "kraft cls" and "is_sym cls x" and "stream f = code_bits cls x @ num_bits k e @ rest"
    and "(x, k, rep, b) \<in> {(16, 2, 3, last acc), (17, 3, 3, 0), (18, 7, 11, 0)}" and "x = 16 \<longrightarrow> acc \<noteq> []" and "e < 2 ^ k"
    and "length acc + (rep + e) \<le> n" and "n \<le> length (bits f)"
  shows "\<exists>g. read_length n (length acc) f = (Ok (length acc + (rep + e)), g) \<and> lens_input f g \<and>
    got_lens cls (acc @ replicate (rep + e) b) g \<and> stream g = rest"
proof -
  let ?i = "length acc"
  from read_length_sym [OF assms(1-4)] obtain f1 where
    f1: "huffSym H1 f = (Ok x, f1)" "only_input f f1" "stream f1 = num_bits k e @ rest" "tidy f1" .
  have k: "k \<le> 16" using assms(5) by auto
  have xb: "\<not> x < 16" "\<not> 18 < x" "\<not> (x = 16 \<and> ?i = 0)" using assms(5,6) by auto
  have b1: "bits f1 = bits f" using only_input_same [OF f1(2)] by simp
  have "acc \<noteq> [] \<Longrightarrow> bits f ! (?i - 1) = last acc"
    using assms(1) unfolding got_lens_def by (metis diff_less last_conv_nth length_greater_0_conv nth_take zero_less_one)
  then have par: "(if x = 16 then (3, 2, bits f1 ! (?i - 1)) else if x = 17 then (3, 3, 0) else (11, 7, 0)) = (rep, k, b)"
    using assms(5,6) b1 by auto
  have "reads (bindM (needBits k) (\<lambda>_. takeBits k)) f1 (num_bits k e) e"
    using reads_bits [OF k, of "num_bits k e" f1] assms(7) by simp
  from readsD [OF this f1(4,3)] obtain f2 where
    f2: "bindM (needBits k) (\<lambda>_. takeBits k) f1 = (Ok e, f2)" "only_input f1 f2" "stream f2 = rest" "tidy f2" .
  have o: "only_input f f2" using f1(2) f2(2) by (rule only_input_trans)
  have room: "?i + (rep + e) \<le> length (bits f)" using assms(8,9) by simp
  let ?bs = "take ?i (bits f) @ replicate (rep + e) b @ drop (?i + (rep + e)) (bits f)"
  have fill: "fold (\<lambda>j bs. bs[j := b]) [?i..<?i + (rep + e)] (bits f2) = ?bs"
    using fold_fill [OF room, of b] only_input_same [OF o] by simp
  have rd: "bindM (needBits k) (\<lambda>_. bindM (takeBits k) K) f1 = K e f2" for K :: "nat \<Rightarrow> (decompressor, nat) prog"
    using bindM_Ok [where m = "bindM (needBits k) (\<lambda>_. takeBits k)" and s = f1 and f = K, OF f2(1)] by (simp add: bindM_assoc)
  have "read_length n ?i f = (Ok (?i + (rep + e)), f2\<lparr>bits := ?bs\<rparr>)"
    unfolding read_length_def
    using xb assms(8)
    by (simp only: bindM_Ok [where m = "huffSym H1" and s = f, OF f1(1)] if_False bindM_def [of getS] getS_def prod.case
        outcome.case par Let_def rd) (simp add: bindM_def modifyS_def ret_def fill)
  with got_lens_after [OF assms(1) o f2(4), of "replicate (rep + e) b"] room f2(3) show ?thesis
    by (intro exI [of _ "f2\<lparr>bits := ?bs\<rparr>"]) (simp add: stream_def)
qed

lemma read_length_run:
  assumes "got_lens cls acc f" and "kraft cls" and "cl_ok cls acc c" and "stream f = cl_bits cls c @ rest"
    and "length (cl_out acc c) \<le> n" and "n \<le> length (bits f)"
  shows "\<exists>g. read_length n (length acc) f = (Ok (length (cl_out acc c)), g) \<and> lens_input f g \<and>
    got_lens cls (cl_out acc c) g \<and> stream g = rest"
proof (cases c)
  case (CLen x)
  with assms(3,4) have x: "is_sym cls x" "x < 16" "stream f = code_bits cls x @ rest" by simp_all
  from read_length_sym [OF assms(1,2) x(1,3)] obtain g where
    g: "huffSym H1 f = (Ok x, g)" "only_input f g" "stream g = rest" "tidy g" .
  have i: "length acc < length (bits f)" using assms(5,6) CLen by simp
  let ?bs = "take (length acc) (bits f) @ [x] @ drop (length acc + length [x]) (bits f)"
  have "bits g = bits f" using only_input_same [OF g(2)] by simp
  then have "read_length n (length acc) f = (Ok (length acc + 1), g\<lparr>bits := ?bs\<rparr>)"
    using g(1) x(2) i by (simp add: read_length_def bindM_def modifyS_def ret_def upd_conv_take_nth_drop)
  with got_lens_after [OF assms(1) g(2,4), of "[x]"] i g(3) CLen show ?thesis
    by (intro exI [of _ "g\<lparr>bits := ?bs\<rparr>"]) (simp add: stream_def)
next
  case (CRepeat e)
  with read_length_repeat [OF assms(1,2), of 16 2 e rest 3 "last acc" n] assms(3-6) show ?thesis by (simp add: add.assoc)
next
  case (CZeros e)
  with read_length_repeat [OF assms(1,2), of 17 3 e rest 3 0 n] assms(3-6) show ?thesis by (simp add: add.assoc)
next
  case (CManyZeros e)
  with read_length_repeat [OF assms(1,2), of 18 7 e rest 11 0 n] assms(3-6) show ?thesis by (simp add: add.assoc)
qed

lemma cl_out_length: "length acc < length (cl_out acc c)" "length acc \<le> length (foldl cl_out acc cs)"
proof -
  show one: "length acc < length (cl_out acc c)" for acc c by (cases c) simp_all
  show "length acc \<le> length (foldl cl_out acc cs)"
    by (induction cs arbitrary: acc) (simp, metis foldl_Cons le_trans less_imp_le one)
qed

lemma read_lengths_run:
  assumes "got_lens cls acc f" and "kraft cls" and "cls_ok cls acc cs" and "stream f = concat (map (cl_bits cls) cs) @ rest"
    and "foldl cl_out acc cs = lens" and "length lens \<le> length (bits f)"
  shows "\<exists>g. read_lengths (length lens) (length acc) f = (Ok (), g) \<and> lens_input f g \<and> got_lens cls lens g \<and> stream g = rest"
  using assms
proof (induction cs arbitrary: acc f)
  case Nil
  then show ?case by (subst read_lengths.simps) (auto simp: lens_input_def header_input_def)
next
  case (Cons c cs)
  have le: "length (cl_out acc c) \<le> length lens" using Cons.prems(5) cl_out_length(2) [of "cl_out acc c" cs] by simp
  have "stream f = cl_bits cls c @ (concat (map (cl_bits cls) cs) @ rest)" using Cons.prems(4) by simp
  from read_length_run [OF Cons.prems(1,2) _ this le Cons.prems(6)] Cons.prems(3) obtain g where
    g: "read_length (length lens) (length acc) f = (Ok (length (cl_out acc c)), g)" "lens_input f g"
      "got_lens cls (cl_out acc c) g" "stream g = concat (map (cl_bits cls) cs) @ rest" by auto
  have "length (bits g) = length (bits f)" using g(2) by (simp add: lens_input_def)
  with Cons.IH [OF g(3) Cons.prems(2) _ g(4)] Cons.prems(3,5,6) obtain k where
    k: "read_lengths (length lens) (length (cl_out acc c)) g = (Ok (), k)" "lens_input g k" "got_lens cls lens k" "stream k = rest"
    by auto
  have "length acc < length lens" using cl_out_length(1) [of acc c] le by simp
  then have "read_lengths (length lens) (length acc) f = (Ok (), k)" using g(1) k(1) by (subst read_lengths.simps) simp
  with lens_input_trans [OF g(2) k(2)] k(3,4) show ?case by blast
qed

section \<open>The whole header\<close>

definition usable :: "huffman \<Rightarrow> bool" where
  "usable h \<longleftrightarrow> hmin h \<noteq> 0 \<or> h = zero_huffman"

lemma decodes_usable: "decodes lens h \<Longrightarrow> codes_ok lens \<Longrightarrow> usable h"
  using len_min_le [of _ lens] by (fastforce simp: decodes_def usable_def codes_ok_def list_ex_iff)

lemma init_table_run:
  assumes "codes_ok lens" and "usable (get f)"
  obtains h where "init_table get put lens f = (Ok (), put h f)" "decodes lens h" "huff_init lens (get f) = (Ok (), h)"
  using huff_init_run [of lens "get f"] assms by (auto simp: codes_ok_def usable_def init_table_def)

text \<open>Between two blocks the arrays have their sizes and the tables are fresh or made by \<open>init\<close>.\<close>

definition tables_ok :: "decompressor \<Rightarrow> bool" where
  "tables_ok f \<longleftrightarrow> usable (h1 f) \<and> usable (h2 f) \<and> length (bits f) = 318 \<and> length (codebits f) = 19"

lemma header_sizes_run:
  assumes "tidy f" and "stream f = num_bits 5 a @ num_bits 5 b @ num_bits 4 c @ rest" and "a < 2 ^ 5" and "b < 2 ^ 5" and "c < 2 ^ 4"
  obtains f1 f2 f3 f4 where "needBits 14 f = (Ok (), f1)" "peekBits 5 f1 = a" "takeBits 5 f1 = (Ok a, f2)"
    "takeBits 5 f2 = (Ok b, f3)" "takeBits 4 f3 = (Ok c, f4)" "only_input f f4" "stream f4 = rest" "tidy f4"
proof -
  have "clean f" "14 \<le> length (stream f)" "(14 :: nat) \<le> 16" using assms(1,2) by (simp_all add: tidy_def)
  from needBits_run [OF this] obtain f1 where
    f1: "needBits 14 f = (Ok (), f1)" "only_input f f1" "stream f1 = stream f" "clean f1" "14 \<le> nb f1" "nb f1 < max (nb f + 1) 22"
    by auto
  have s1: "stream f1 = num_bits 5 a @ (num_bits 5 b @ num_bits 4 c @ rest)" using f1(3) assms(2) by simp
  have p: "peekBits 5 f1 = a" using peekBits_val [OF f1(4), of 5] f1(5) s1 assms(3) by simp
  from take_run [OF f1(4) s1] f1(5) assms(3) obtain f2 where
    f2: "takeBits 5 f1 = (Ok a, f2)" "only_input f1 f2" "stream f2 = num_bits 5 b @ (num_bits 4 c @ rest)" "clean f2" "nb f2 = nb f1 - 5"
    by auto
  have "length (num_bits 5 b) \<le> nb f2" using f1(5) f2(5) by simp
  from take_run [OF f2(4,3) this] assms(4) obtain f3 where
    f3: "takeBits 5 f2 = (Ok b, f3)" "only_input f2 f3" "stream f3 = num_bits 4 c @ rest" "clean f3" "nb f3 = nb f2 - 5"
    by auto
  have "length (num_bits 4 c) \<le> nb f3" using f1(5) f2(5) f3(5) by simp
  from take_run [OF f3(4,3) this] assms(5) obtain f4 where
    f4: "takeBits 4 f3 = (Ok c, f4)" "only_input f3 f4" "stream f4 = rest" "clean f4" "nb f4 = nb f3 - 4"
    by auto
  have "tidy f4" using f4(4,5) f3(5) f2(5) f1(5,6) assms(1) by (auto simp: tidy_def)
  moreover have "only_input f f4" using f1(2) f2(2) f3(2) f4(2) only_input_trans by blast
  ultimately show ?thesis using that f1(1) p f2(1) f3(1) f4(1,3) by blast
qed

lemma put_all_order:
  assumes "length cb = 19" and "length v = 19" and "k \<le> 19" and "list_all (\<lambda>i. v ! (codeOrder ! i) = 0) [k..<19]"
  shows "fold (\<lambda>i cb. cb[codeOrder ! i := 0]) [k..<19] (fold (\<lambda>i cb. cb[codeOrder ! i := v ! (codeOrder ! i)]) [0..<k] cb) = v"
proof -
  let ?put = "\<lambda>i cb. cb[codeOrder ! i := v ! (codeOrder ! i)]"
  have zero: "fold (\<lambda>i cb. cb[codeOrder ! i := 0]) [k..<19] x = fold ?put [k..<19] x" for x
    using assms(4) by (intro fold_cong) (simp_all add: list_all_iff)
  have "[0..<19] = [0..<k] @ [k..<19]" using assms(3) upt_add_eq_append [of 0 k "19 - k"] by simp
  then have eq: "fold ?put [k..<19] (fold ?put [0..<k] cb) = fold ?put [0..<19] cb" by simp
  have "fold ?put [0..<19] cb = v"
  proof (rule nth_equalityI)
    show "length (fold ?put [0..<19] cb) = length v" using assms(1,2) length_fold_put by metis
    fix j assume "j < length (fold ?put [0..<19] cb)"
    then have j: "j < 19" using length_fold_put assms(1) by metis
    have "fold ?put [0..<19] cb ! j = (if j \<in> (!) codeOrder ` set [0..<19] then v ! j else cb ! j)"
      by (rule put_order) (use j assms(1) order_less in simp_all)
    with j codeOrder_perm show "fold ?put [0..<19] cb ! j = v ! j" by simp
  qed
  with zero eq show ?thesis by simp
qed

text \<open>The header is read from exactly its bits, and the two tables decode the two codes it describes.\<close>

lemma readHuffman_run:
  assumes "header_ok h" and "tables_ok f" and "tidy f" and "stream f = header_bits h @ rest"
  shows "\<exists>g. readHuffman f = (Ok (), g) \<and> header_input f g \<and> tables_ok g \<and> decodes (h_lits h) (h1 g) \<and>
    decodes (h_dists h) (h2 g) \<and> stream g = rest \<and> tidy g \<and> (\<exists>t. usable t \<and> huff_init (h_lits h) t = (Ok (), h1 g))"
proof -
  let ?nl = "length (h_lits h)" and ?nd = "length (h_dists h)" and ?nc = "h_ncl h" and ?cls = "h_cls h"
  have h: "4 \<le> ?nc" "?nc \<le> 19" "length ?cls = 19" "list_all (\<lambda>i. ?cls ! (codeOrder ! i) = 0) [?nc..<19]"
    "list_all (\<lambda>n. n < 8) ?cls" "codes_ok ?cls" "257 \<le> ?nl" "?nl \<le> 286" "1 \<le> ?nd" "?nd \<le> 32" "cls_ok ?cls [] (h_items h)"
    "foldl cl_out [] (h_items h) = h_lits h @ h_dists h" "codes_ok (h_lits h)" "codes_ok (h_dists h)"
    using assms(1) by (simp_all add: header_ok_def)
  have t: "usable (h1 f)" "usable (h2 f)" "length (bits f) = 318" "length (codebits f) = 19"
    using assms(2) by (simp_all add: tables_ok_def)
  let ?items = "concat (map (cl_bits ?cls) (h_items h))"
  let ?lens = "concat (map (\<lambda>i. num_bits 3 (?cls ! (codeOrder ! i))) [0..<?nc])"
  have st: "stream f = num_bits 5 (?nl - 257) @ num_bits 5 (?nd - 1) @ num_bits 4 (?nc - 4) @ (?lens @ (?items @ rest))"
    using assms(4) by (simp add: header_bits_def)
  have sizes: "?nl - 257 < 2 ^ 5" "?nd - 1 < 2 ^ 5" "?nc - 4 < 2 ^ 4" using h by simp_all
  from header_sizes_run [OF assms(3) st sizes] obtain f1 f2 f3 f4 where
    s: "needBits 14 f = (Ok (), f1)" "peekBits 5 f1 = ?nl - 257" "takeBits 5 f1 = (Ok (?nl - 257), f2)"
      "takeBits 5 f2 = (Ok (?nd - 1), f3)" "takeBits 4 f3 = (Ok (?nc - 4), f4)" "only_input f f4" "stream f4 = ?lens @ (?items @ rest)" "tidy f4" .
  note o4 = only_input_same [OF s(6)]
  have lt8: "\<forall>i \<in> set [0..<?nc]. ?cls ! (codeOrder ! i) < 8" using h(2,3,5) order_less by (simp add: list_all_length)
  from read_cls_run [OF s(8,7) lt8] obtain f5 where
    f5: "forM [0..<?nc] read_codebit f4 = (Ok (), f5)" "header_input f4 f5"
      "codebits f5 = fold (\<lambda>i cb. cb[codeOrder ! i := ?cls ! (codeOrder ! i)]) [0..<?nc] (codebits f4)"
      "bits f5 = bits f4" "h1 f5 = h1 f4" "h2 f5 = h2 f4" "stream f5 = ?items @ rest" "tidy f5" by blast
  have cb: "fold (\<lambda>i cb. cb[codeOrder ! i := 0]) [?nc..<19] (codebits f5) = ?cls"
    unfolding f5(3) using put_all_order [OF _ h(3,2,4), of "codebits f4"] t(4) o4 by simp
  let ?f6 = "f5\<lparr>codebits := ?cls\<rparr>"
  have z6: "forM [?nc..<19] (\<lambda>i. modifyS (\<lambda>f. f\<lparr>codebits := (codebits f)[codeOrder ! i := 0]\<rparr>)) f5 = (Ok (), ?f6)"
    unfolding zero_cls_run cb ..
  have u6: "usable (h1 ?f6)" using t(1) f5(5) o4 by simp
  from init_table_run [where get = h1 and put = "\<lambda>h f. f\<lparr>h1 := h\<rparr>" and f = ?f6, OF h(6) u6] obtain t1 where
    t1: "init_h1 ?cls ?f6 = (Ok (), ?f6\<lparr>h1 := t1\<rparr>)" "decodes ?cls t1" by blast
  let ?f7 = "?f6\<lparr>h1 := t1\<rparr>"
  have g7: "got_lens ?cls [] ?f7" using t1(2) f5(8) by (simp add: got_lens_def tidy_def clean_def)
  have s7: "stream ?f7 = ?items @ rest" using f5(7) by (simp add: stream_def)
  have k7: "kraft ?cls" using h(6) by (simp add: codes_ok_def)
  have l7: "length (h_lits h @ h_dists h) \<le> length (bits ?f7)" using h(8,10) t(3) f5(4) o4 by simp
  from read_lengths_run [OF g7 k7 h(11) s7 h(12) l7] obtain f8 where
    f8: "read_lengths (?nl + ?nd) 0 ?f7 = (Ok (), f8)" "lens_input ?f7 f8" "got_lens ?cls (h_lits h @ h_dists h) f8" "stream f8 = rest"
    by auto
  have b8: "take ?nl (bits f8) = h_lits h" "take ?nd (drop ?nl (bits f8)) = h_dists h"
  proof -
    have tk: "take (?nl + ?nd) (bits f8) = h_lits h @ h_dists h" using f8(3) by (simp add: got_lens_def)
    from arg_cong [OF tk, of "take ?nl"] show "take ?nl (bits f8) = h_lits h" by (simp add: min_absorb1)
    from arg_cong [OF tk, of "drop ?nl"] show "take ?nd (drop ?nl (bits f8)) = h_dists h" by (simp add: drop_take)
  qed
  have u8: "usable (h1 f8)" "usable (h2 f8)"
    using f8(2) decodes_usable [OF t1(2) h(6)] t(2) f5(6) o4 by (simp_all add: lens_input_def)
  from init_table_run [where get = h1 and put = "\<lambda>h f. f\<lparr>h1 := h\<rparr>" and f = f8, OF h(13) u8(1)] obtain t2 where
    t2: "init_h1 (h_lits h) f8 = (Ok (), f8\<lparr>h1 := t2\<rparr>)" "decodes (h_lits h) t2" "huff_init (h_lits h) (h1 f8) = (Ok (), t2)" .
  have "usable (h2 (f8\<lparr>h1 := t2\<rparr>))" using u8(2) by simp
  from init_table_run [where get = h2 and put = "\<lambda>h f. f\<lparr>h2 := h\<rparr>" and f = "f8\<lparr>h1 := t2\<rparr>", OF h(14) this] obtain t3 where
    t3: "init_h2 (h_dists h) (f8\<lparr>h1 := t2\<rparr>) = (Ok (), f8\<lparr>h1 := t2, h2 := t3\<rparr>)" "decodes (h_dists h) t3" by auto
  let ?g = "f8\<lparr>h1 := t2, h2 := t3\<rparr>"
  have n1: "?nl - 257 + 257 = ?nl" "?nd - 1 + 1 = ?nd" "?nc - 4 + 4 = ?nc" "\<not> 286 < ?nl" using h by simp_all
  have c6: "codebits ?f6 = ?cls" by simp
  have "readHuffman f = (Ok (), ?g)"
    unfolding readHuffman_def
    by (simp only: bindM_def getS_def prod.case outcome.case s(1-5) Let_def n1 if_False f5(1) z6 c6 t1(1)
        f8(1) b8 t2(1) t3(1))
  moreover have "header_input f ?g"
    using header_input_only [OF s(6)] f5(2) f8(2) by (simp add: lens_input_def header_input_def)
  moreover have "tables_ok ?g"
    using decodes_usable [OF t2(2) h(13)] decodes_usable [OF t3(2) h(14)] f8(2) h(3) t(3) f5(4) o4
    by (simp add: tables_ok_def lens_input_def)
  moreover have "stream ?g = rest" "tidy ?g" using f8(3,4) by (simp_all add: stream_def tidy_def clean_def got_lens_def)
  ultimately show ?thesis using t2(2,3) t3(2) u8(1) by (intro exI [of _ ?g]) (simp, blast)
qed

section \<open>A header\<close>

text \<open>Two symbols, the byte 97 and the end, with codes of one bit.\<close>

definition demo_header :: header where
  "demo_header = \<lparr>h_ncl = 18, h_cls = [0, 1] @ replicate 16 0 @ [1],
     h_items = [CManyZeros 86, CLen 1, CManyZeros 127, CManyZeros 9, CLen 1, CLen 1],
     h_lits = replicate 97 0 @ [1] @ replicate 158 0 @ [1], h_dists = [1]\<rparr>"

lemma codes_ok_ones:
  assumes "set lens \<subseteq> {0, 1}" and "0 < ncount lens 1" and "ncount lens 1 \<le> 2"
  shows "codes_ok lens"
proof -
  have z: "ncount lens n = 0" if "n \<noteq> 1" for n
    using assms(1) that by (auto simp: ncount_def filter_empty_conv)
  have f: "first_code lens (Suc (Suc n)) = ncount lens 1 * 2 ^ Suc n" for n
    by (induction n) (simp_all add: z)
  from f [of 13] have "first_code lens 15 = ncount lens 1 * 2 ^ 14" by simp
  then have "kraft lens" using assms(3) z [of 15] by (simp add: kraft_def)
  moreover have "1 \<in> set lens" using assms(2) by (auto simp: ncount_def filter_empty_conv)
  moreover have "len_min lens \<le> 1" using len_min_le [OF \<open>1 \<in> set lens\<close>] by simp
  ultimately show ?thesis using assms(1) by (auto simp: codes_ok_def list_all_iff list_ex_iff)
qed

lemma demo_header_ok: "header_ok demo_header"
proof -
  have r: "[18..<19] = [18 :: nat]" by (simp add: upt_rec)
  have z: "replicate 138 0 @ replicate 20 0 = replicate 158 (0 :: nat)" by (simp add: replicate_add [symmetric])
  have cls: "codes_ok (h_cls demo_header)" "codes_ok (h_lits demo_header)" "codes_ok (h_dists demo_header)"
    by (rule codes_ok_ones; auto simp: demo_header_def ncount_def filter_replicate)+
  have "is_sym (h_cls demo_header) 1" "is_sym (h_cls demo_header) 18" "is_sym (h_lits demo_header) 256"
    by (simp_all add: is_sym_def demo_header_def nth_append)
  moreover have "foldl cl_out [] (h_items demo_header) = h_lits demo_header @ h_dists demo_header"
    using z by (simp add: demo_header_def)
  ultimately show ?thesis using cls by (simp add: header_ok_def demo_header_def r codeOrder_def list_all_iff nth_append)
qed

end
