(* ===== verification/InflateStream.thy ===== *)
theory InflateStream
  imports InflateHeader
begin

text \<open>
  The blocks of a deflate stream, RFC 1951, section 3.2.3, as bits, and the steps of the inflator against them: a
  packet of blocks that ends with an empty stored block (what a server sends after each rectangle) is
  inflated to what its blocks stand for, and leaves nothing behind.
\<close>

section \<open>The format\<close>

datatype dblock = Stored "u8 list" | Fixed "item list" | Dynamic header "item list"

definition pad :: "nat \<Rightarrow> bool list" where
  "pad pos = replicate ((8 - pos mod 8) mod 8) False"

definition le16_bytes :: "nat \<Rightarrow> u8 list" where
  "le16_bytes n = [of_nat (n mod 256), of_nat (n div 256)]"

definition items_bits :: "nat list \<Rightarrow> nat list \<Rightarrow> item list \<Rightarrow> bool list" where
  "items_bits ll dl ts = concat (map (item_bits ll dl) ts) @ code_bits ll 256"

text \<open>No block is marked as the last one; \<open>pos\<close> is the position of the block in its packet.\<close>

fun block_bits :: "nat \<Rightarrow> dblock \<Rightarrow> bool list" where
  "block_bits pos (Stored ds) =
     [False] @ num_bits 2 0 @ pad (pos + 3) @ bytes_bits (le16_bytes (length ds) @ le16_bytes (65535 - length ds) @ ds)"
| "block_bits pos (Fixed ts) = [False] @ num_bits 2 1 @ items_bits fixed_lens fixed_dists ts"
| "block_bits pos (Dynamic h ts) = [False] @ num_bits 2 2 @ header_bits h @ items_bits (h_lits h) (h_dists h) ts"

fun block_out :: "u8 list \<Rightarrow> dblock \<Rightarrow> u8 list" where
  "block_out out (Stored ds) = out @ ds"
| "block_out out (Fixed ts) = foldl item_out out ts"
| "block_out out (Dynamic h ts) = foldl item_out out ts"

fun block_ok :: "u8 list \<Rightarrow> dblock \<Rightarrow> bool" where
  "block_ok out (Stored ds) \<longleftrightarrow> length ds < 65536"
| "block_ok out (Fixed ts) \<longleftrightarrow> items_ok fixed_lens fixed_dists out ts"
| "block_ok out (Dynamic h ts) \<longleftrightarrow> header_ok h \<and> items_ok (h_lits h) (h_dists h) out ts"

fun blocks_bits :: "nat \<Rightarrow> dblock list \<Rightarrow> bool list" where
  "blocks_bits pos [] = []"
| "blocks_bits pos (b # bs) = block_bits pos b @ blocks_bits (pos + length (block_bits pos b)) bs"

fun blocks_ok :: "u8 list \<Rightarrow> dblock list \<Rightarrow> bool" where
  "blocks_ok out [] \<longleftrightarrow> True"
| "blocks_ok out (b # bs) \<longleftrightarrow> block_ok out b \<and> blocks_ok (block_out out b) bs"

section \<open>Between blocks\<close>

definition boundary :: "u8 list \<Rightarrow> decompressor \<Rightarrow> bool" where
  "boundary out f \<longleftrightarrow> holds out f \<and> toRead f = [] \<and> derr f = None \<and> tidy f \<and> flstep f = NextBlock \<and> \<not> final f \<and>
     tables_ok f \<and> rend f = EOF"

text \<open>The packet is used up and everything it stands for has been handed out.\<close>

definition idle :: "u8 list \<Rightarrow> decompressor \<Rightarrow> bool" where
  "idle out f \<longleftrightarrow> holds out f \<and> toRead f = [] \<and> pending f = [] \<and> derr f = Some UnexpectedEOF \<and> tidy f \<and> nb f = 0 \<and>
     rbytes f = [] \<and> flstep f = NextBlock \<and> \<not> final f \<and> tables_ok f"

lemma boundary_input: "boundary out f \<Longrightarrow> only_input f g \<Longrightarrow> tidy g \<Longrightarrow> boundary out g"
  by (auto simp: boundary_def holds_def tables_ok_def dest!: only_input_same)

lemma boundary_after:
  assumes "boundary out f" and "kept f f'" and "after out' rest f' g"
  shows "boundary out' g" "stream g = rest"
  using assms by (auto simp: boundary_def after_def kept_def tables_ok_def)

lemma reads_head:
  assumes "boundary out f" and "stream f = [False] @ num_bits 2 t @ rest" and "t < 4"
  obtains g where "nextBlock f = (if t = 0 then dataBlock
       else if t = 1
       then bindM (modifyS (\<lambda>f. f\<lparr>hl := FixedDecoder, hd := None\<rparr>)) (\<lambda>_. huffmanBlock)
       else if t = 2
       then set_err () readHuffman (\<lambda>_.
            bindM (modifyS (\<lambda>f. f\<lparr>hl := H1, hd := Some H2\<rparr>)) (\<lambda>_. huffmanBlock))
       else modifyS (\<lambda>f. f\<lparr>derr := Some (corrupt f)\<rparr>)) g"
    "only_input f g" "stream g = rest" "tidy g"
proof -
  have "clean f" "3 \<le> length (stream f)" "(3 :: nat) \<le> 16" using assms by (simp_all add: boundary_def tidy_def)
  from needBits_run [OF this] obtain f1 where
    f1: "needBits 3 f = (Ok (), f1)" "only_input f f1" "stream f1 = stream f" "clean f1" "3 \<le> nb f1" "nb f1 < max (nb f + 1) 11"
    by auto
  have s1: "stream f1 = [False] @ (num_bits 2 t @ rest)" using f1(3) assms(2) by simp
  have "length [False] \<le> nb f1" using f1(5) by simp
  from take_run [OF f1(4) s1 this] obtain f2 where
    f2: "takeBits 1 f1 = (Ok 0, f2)" "only_input f1 f2" "stream f2 = num_bits 2 t @ rest" "clean f2" "nb f2 = nb f1 - 1"
    by (auto simp: bits_val_def)
  have "length (num_bits 2 t) \<le> nb f2" using f1(5) f2(5) by simp
  from take_run [OF f2(4,3) this] assms(3) obtain g where
    g: "takeBits 2 f2 = (Ok t, g)" "only_input f2 g" "stream g = rest" "clean g" "nb g = nb f2 - 2" by auto
  have o: "only_input f g" "only_input f f2" using f1(2) f2(2) g(2) only_input_trans by blast+
  have "\<not> final f" using assms(1) by (simp add: boundary_def)
  then have nf: "f2\<lparr>final := (0 = (1 :: nat))\<rparr> = f2" using only_input_same [OF o(2)] by (cases f2) simp
  have "tidy g" using g(4,5) f2(5) f1(5,6) assms(1) by (auto simp: tidy_def boundary_def)
  with o(1) g(3) show ?thesis
  proof (rule that [rotated])
    show "nextBlock f = (if t = 0 then dataBlock
       else if t = 1
       then bindM (modifyS (\<lambda>f. f\<lparr>hl := FixedDecoder, hd := None\<rparr>)) (\<lambda>_. huffmanBlock)
       else if t = 2
       then set_err () readHuffman (\<lambda>_.
            bindM (modifyS (\<lambda>f. f\<lparr>hl := H1, hd := Some H2\<rparr>)) (\<lambda>_. huffmanBlock))
       else modifyS (\<lambda>f. f\<lparr>derr := Some (corrupt f)\<rparr>)) g"
      unfolding nextBlock_def
      by (simp only: bindM_def [of getS] getS_def prod.case outcome.case \<open>\<not> final f\<close> if_False set_err_Ok [where m = "needBits 3", OF f1(1)]
          bindM_Ok [where m = "takeBits 1" and s = f1, OF f2(1)] bindM_def [of "modifyS (\<lambda>f. f\<lparr>final := (0 = (1 :: nat))\<rparr>)"] modifyS_def [of _ f2] nf
          bindM_Ok [where m = "takeBits 2" and s = f2, OF g(1)])
  qed
qed

section \<open>Compressed blocks\<close>

lemma inside_fixed:
  assumes "boundary out f"
  shows "inside fixed_lens fixed_dists out (f\<lparr>hl := FixedDecoder, hd := None\<rparr>)"
proof -
  have "is_sym fixed_lens 256" by (simp add: is_sym_def fixed_lens_def nth_append)
  then show ?thesis
    using assms fixed_decodes fixed_kraft
    by (simp add: boundary_def inside_def holds_def tidy_def clean_def decoder_of_def dist_decodes_def)
qed

lemma inside_dynamic:
  assumes "boundary out f" and "header_ok h" and "decodes (h_lits h) (h1 f)" and "decodes (h_dists h) (h2 f)"
  shows "inside (h_lits h) (h_dists h) out (f\<lparr>hl := H1, hd := Some H2\<rparr>)"
  using assms
  by (simp add: boundary_def inside_def holds_def tidy_def clean_def decoder_of_def dist_decodes_def header_ok_def codes_ok_def)

lemma boundary_header: "boundary out f \<Longrightarrow> header_input f g \<Longrightarrow> tables_ok g \<Longrightarrow> tidy g \<Longrightarrow> boundary out g"
  by (simp add: boundary_def header_input_def holds_def)

lemma serves_items:
  assumes "boundary out f" and "inside ll dl out (f\<lparr>hl := l, hd := d\<rparr>)" and "items_ok ll dl out ts"
    and "stream f = items_bits ll dl ts @ rest" and "foldl item_out out ts = out @ xs"
    and "\<And>g. boundary (out @ xs) g \<Longrightarrow> stream g = rest \<Longrightarrow> serves Q flate_do g (pending g @ ys)"
  shows "serves Q (bindM (modifyS (\<lambda>f. f\<lparr>hl := l, hd := d\<rparr>)) (\<lambda>_. huffmanBlock)) f (pending f @ xs @ ys)"
proof -
  let ?f = "f\<lparr>hl := l, hd := d\<rparr>"
  have "stream ?f = concat (map (item_bits ll dl) ts) @ code_bits ll 256 @ rest"
    using assms(4) by (simp add: stream_def items_bits_def)
  from serves_block [OF assms(2,3,5) this] have "serves (after (out @ xs) rest ?f) huffmanBlock ?f (pending ?f @ xs)" .
  then have "serves Q huffmanBlock ?f ((pending ?f @ xs) @ ys)"
  proof (rule serves_trans)
    fix g assume g: "after (out @ xs) rest ?f g"
    have b: "boundary out ?f" using assms(1) by (auto simp: boundary_def holds_def tidy_def clean_def tables_ok_def)
    have "kept ?f ?f" by (simp add: kept_def)
    from boundary_after [OF b this g] assms(6) show "derr g = None \<and> serves Q flate_do g (pending g @ ys)"
      by (simp add: boundary_def)
  qed
  moreover have "pending ?f = pending f" by (simp add: pending_def)
  ultimately show ?thesis
    by (intro serves_cong [of _ f huffmanBlock ?f]) (simp_all add: bindM_def modifyS_def)
qed

section \<open>Stored blocks\<close>

lemma flush_run:
  assumes "holds out f"
  obtains g where "flush st f = (Ok (), g)" "only_output f g" "holds out g" "toRead g = pending f" "pending g = []" "flstep g = st"
    "copyLen g = copyLen f"
proof -
  let ?g = "f\<lparr>toRead := pending f, woffset := woffset f + int (hp f - hw f), hw := hp f, flstep := st\<rparr>"
  have hp: "hw f \<le> hp f" "hp f < maxHist" using assms by (simp_all add: holds_def)
  then have "flush st f = (Ok (), ?g)" by (simp add: flush_def pending_def Let_def)
  moreover have "pending ?g = []" "holds out ?g" "only_output f ?g"
    using assms by (simp_all add: pending_def holds_def only_output_def)
  ultimately show ?thesis using that by simp
qed

lemma serves_copy_data:
  assumes "holds out f" and "toRead f = []" and "derr f = None" and "nb f = 0" and "bbuf f = 0" and "rbytes f = ds @ later"
  shows "serves (after (out @ ds) (bytes_bits later) f) (copy_data (length ds)) f (pending f @ ds)"
  using assms
proof (induction "length ds" arbitrary: ds out f rule: less_induct)
  case less
  have hpM: "hp f < maxHist" "hp f = length out mod maxHist" using less.prems(1) by (simp_all add: holds_def)
  have tr: "toRead f = []" "derr f = None" by (rule less.prems)+
  show ?case
  proof (cases "ds = []")
    case True
    let ?g = "f\<lparr>flstep := NextBlock\<rparr>"
    have "copy_data (length ds) f = (Ok (), ?g)" using True by (subst copy_data.simps) simp
    moreover have "after (out @ ds) (bytes_bits later) f ?g"
      using less.prems True by (simp add: after_def holds_def tidy_def clean_def stream_def kept_def)
    moreover have "pending ?g = pending f" by (simp add: pending_def)
    ultimately show ?thesis
      using True tr serves_stop [of "copy_data (length ds)" f ?g "after (out @ ds) (bytes_bits later) f"] by simp
  next
    case False
    define m where "m = min (length ds) (maxHist - hp f)"
    have m: "0 < m" "m \<le> length ds" "hp f + m \<le> maxHist" using False hpM(1) by (auto simp: m_def)
    let ?xs = "take m ds" and ?ys = "drop m ds"
    have len: "length ?xs = m" "length ?ys = length ds - m" using m(2) by simp_all
    let ?h = "take (hp f) (hist f) @ ?xs @ drop (hp f + length ?xs) (hist f)"
    have win: "window (out @ ?xs) ?h"
      using window_append [of out "hist f" ?xs "hp f"] less.prems(1) m(3) len(1) hpM(2) by (simp add: holds_def)
    let ?f0 = "f\<lparr>rbytes := ?ys @ later, roffset := roffset f + int m\<rparr>"
    let ?f1 = "?f0\<lparr>hist := ?h, hp := hp f + m\<rparr>"
    have h0: "holds out ?f0" using less.prems(1) by (simp add: holds_def)
    have tr0: "toRead ?f0 = []" "derr ?f0 = None" using tr by simp_all
    have "read_hist m f = (Ok (), ?f1)"
      using less.prems(6) m(2) by (simp add: read_hist_def read_counted_def read_full_def Let_def)
    then have eq: "copy_data (length ds) f = (if hp f + m = maxHist then flush CopyData (?f1\<lparr>copyLen := length ds - m\<rparr>)
        else copy_data (length ds - m) ?f1)"
      using False hpM(1) by (subst copy_data.simps) (simp add: Let_def set_err_Ok flip: m_def)
    have rec: "serves (after (out @ ds) (bytes_bits later) f) (copy_data (length ?ys)) g (pending g @ ?ys)"
      if g: "holds (out @ ?xs) g" "toRead g = []" "only_output ?f0 (g\<lparr>derr := None\<rparr>)" "derr g = None" for g
    proof -
      have "nb g = 0" "bbuf g = 0" "rbytes g = ?ys @ later" "kept f g"
        using g(3) less.prems(4,5) by (simp_all add: only_output_def kept_def)
      from less.hyps [OF _ g(1,2,4) this(1-3)] after_kept [OF this(4)] m(1,2) False show ?thesis by simp
    qed
    have "serves (after (out @ ds) (bytes_bits later) f) (\<lambda>_. copy_data (length ds) f) ?f0 (pending ?f0 @ ?xs @ ?ys)"
    proof (cases "hp f + m = maxHist")
      case True
      then have full: "hp ?f0 + length ?xs = maxHist" using len(1) by simp
      from flush_full [OF h0 win full, of CopyData "length ds - m"] obtain g where
        g: "flush CopyData (?f0\<lparr>hist := ?h, hp := maxHist, copyLen := length ds - m\<rparr>) = (Ok (), g)"
          "advanced out ?xs ?f0 g" "flstep g = CopyData" "copyLen g = length ds - m" by blast
      have "copy_data (length ds) f = (Ok (), g)" using eq True g(1) by simp
      moreover have "flate_do (g\<lparr>toRead := []\<rparr>) = copy_data (length ?ys) (g\<lparr>toRead := []\<rparr>)"
        using g(3,4) len(2) by (simp add: flate_do_def copyData_def)
      moreover have "serves (after (out @ ds) (bytes_bits later) f) (copy_data (length ?ys)) (g\<lparr>toRead := []\<rparr>)
          (pending (g\<lparr>toRead := []\<rparr>) @ ?ys)"
        by (rule rec) (use g(2) tr in \<open>simp_all add: advanced_def holds_def only_output_def\<close>)
      ultimately show ?thesis
        using full by (intro serves_advanced [where m' = "copy_data (length ?ys)", OF tr0 g(2)]) simp_all
    next
      case room: False
      have lt: "hp ?f0 + length ?xs < maxHist" using room m(3) len(1) by simp
      have f1: "?f1 = ?f0\<lparr>hist := ?h, hp := hp ?f0 + length ?xs, copyLen := copyLen f\<rparr>" using len(1) by (cases f) simp
      have adv: "advanced out ?xs ?f0 ?f1" using advance_room [OF h0 win lt, of "copyLen f"] unfolding f1 .
      have tr1: "toRead ?f1 = []" using tr(1) by simp
      have "serves (after (out @ ds) (bytes_bits later) f) (copy_data (length ?ys)) ?f1 (pending ?f1 @ ?ys)"
        by (rule rec) (use adv tr in \<open>simp_all add: advanced_def holds_def only_output_def\<close>)
      then have "serves (after (out @ ds) (bytes_bits later) f) (copy_data (length ?ys)) (?f1\<lparr>toRead := []\<rparr>) (pending ?f1 @ ?ys)"
        unfolding toRead_empty [OF tr1] .
      with lt eq room len(2) show ?thesis
        by (intro serves_advanced [where m' = "copy_data (length ?ys)", OF tr0 adv]) simp_all
    qed
    moreover have "pending ?f0 = pending f" by (simp add: pending_def)
    ultimately show ?thesis by (auto intro: serves_cong)
  qed
qed

lemma byte_bits_inj: "byte_bits a = byte_bits b \<Longrightarrow> a = b"
proof (rule bit_eqI)
  fix n assume e: "byte_bits a = byte_bits b" and n: "possible_bit TYPE(8 word) n"
  have "byte_bits a ! n = byte_bits b ! n" using e by simp
  moreover have "n < 8" using n by (simp add: possible_bit_def)
  ultimately show "bit a n = bit b n" by (simp add: byte_bits_def)
qed

lemma bytes_bits_Cons: "bytes_bits (c # cs) = byte_bits c @ bytes_bits cs"
  by (simp add: bytes_bits_def)

lemma bytes_bits_append: "bytes_bits (xs @ ys) = bytes_bits xs @ bytes_bits ys"
  by (simp add: bytes_bits_def)

lemma bytes_bits_prefix: "bytes_bits xs = bytes_bits ys @ rest \<Longrightarrow> \<exists>zs. xs = ys @ zs \<and> rest = bytes_bits zs"
proof (induction ys arbitrary: xs)
  case Nil
  then show ?case by (simp add: bytes_bits_def)
next
  case (Cons y ys)
  have "length (bytes_bits xs) = length (bytes_bits (y # ys) @ rest)" using Cons.prems by simp
  then have "xs \<noteq> []" by auto
  then obtain x xs' where xs: "xs = x # xs'" by (cases xs) auto
  with Cons.prems have "byte_bits x @ bytes_bits xs' = byte_bits y @ (bytes_bits ys @ rest)" by (simp add: bytes_bits_Cons)
  then have "byte_bits x = byte_bits y" "bytes_bits xs' = bytes_bits ys @ rest" by simp_all
  with Cons.IH [of xs'] byte_bits_inj xs show ?case by auto
qed

lemma le16_bytes: "n < 65536 \<Longrightarrow> le16 (le16_bytes n ! 0) (le16_bytes n ! 1) = n"
  by (simp add: le16_def le16_bytes_def unat_of_nat take_bit_eq_mod)

lemma length_le16_bytes [simp]: "length (le16_bytes n) = 2"
  by (simp add: le16_bytes_def)

text \<open>What remains in the bit buffer after the three bits of the header is the padding.\<close>

lemma pad_rest:
  fixes p n :: nat
  assumes "(p + n) mod 8 = 0" and "n < 8"
  shows "n = (8 - p mod 8) mod 8"
proof -
  have r: "(p mod 8 + n) mod 8 = 0" "p mod 8 < 8" using assms(1) by (simp_all add: mod_add_left_eq)
  show ?thesis
  proof (cases "p mod 8 + n < 8")
    case True
    with r(1) show ?thesis by simp
  next
    case False
    then have "(p mod 8 + n) mod 8 = p mod 8 + n - 8" using r(2) assms(2) by (simp add: le_mod_geq)
    with r False assms(2) show ?thesis by simp
  qed
qed

lemma stored_bytes:
  assumes "tidy f" and "stream f = pad pos @ bytes_bits bs @ rest" and "8 dvd pos + length (stream f)"
  obtains later where "rbytes f = bs @ later" "rest = bytes_bits later"
proof -
  have "(pos + nb f) mod 8 = 0"
  proof -
    have "pos + length (stream f) = pos + nb f + 8 * length (rbytes f)" by (simp add: length_stream)
    with assms(3) have "8 dvd pos + nb f + 8 * length (rbytes f)" by simp
    then have "8 dvd pos + nb f" by presburger
    then show ?thesis by simp
  qed
  moreover have "nb f < 8" using assms(1) by (simp add: tidy_def)
  ultimately have nb: "nb f = length (pad pos)" unfolding pad_def length_replicate by (rule pad_rest)
  have "drop (nb f) (stream f) = bytes_bits (rbytes f)" by (simp add: stream_def)
  then have "bytes_bits (rbytes f) = bytes_bits bs @ rest" using nb assms(2) by simp
  with bytes_bits_prefix that show ?thesis by blast
qed

lemma dataBlock_run:
  assumes "tidy f" and "rbytes f = le16_bytes n @ le16_bytes (65535 - n) @ ds @ later" and "length ds = n" and "n < 65536"
  obtains g where "dataBlock f = (if n = 0 then flush NextBlock else copy_data n) g"
    "g = f\<lparr>rbytes := ds @ later, roffset := roffset f + 4, bbuf := 0, nb := 0, copyLen := copyLen g\<rparr>"
proof -
  let ?f0 = "f\<lparr>nb := 0, bbuf := 0\<rparr>" and ?buf = "le16_bytes n @ le16_bytes (65535 - n)"
  let ?f1 = "?f0\<lparr>rbytes := ds @ later, roffset := roffset f + 4\<rparr>"
  have rd: "read_counted 4 ?f0 = (Ok ?buf, ?f1)"
    using assms(2) by (simp add: read_counted_def read_full_def)
  have b: "?buf ! 0 = le16_bytes n ! 0" "?buf ! 1 = le16_bytes n ! 1" "?buf ! 2 = le16_bytes (65535 - n) ! 0"
    "?buf ! 3 = le16_bytes (65535 - n) ! 1" by (simp_all add: le16_bytes_def)
  have v: "le16 (?buf ! 0) (?buf ! 1) = n" "le16 (?buf ! 2) (?buf ! 3) = 65535 - n"
    unfolding b using le16_bytes assms(4) by simp_all
  have "dataBlock f = (if n = 0 then flush NextBlock ?f1 else copy_data n (?f1\<lparr>copyLen := n\<rparr>))"
    unfolding dataBlock_def
    by (simp only: bindM_def [of "modifyS (\<lambda>f. f\<lparr>nb := 0, bbuf := 0\<rparr>)"] modifyS_def prod.case outcome.case
        set_err_Ok [where m = "read_counted 4", OF rd] Let_def v)
      (simp add: bindM_def modifyS_def copyData_def)
  moreover have "?f1 = f\<lparr>rbytes := ds @ later, roffset := roffset f + 4, bbuf := 0, nb := 0, copyLen := copyLen ?f1\<rparr>"
    by (cases f) simp
  moreover have "?f1\<lparr>copyLen := n\<rparr> =
      f\<lparr>rbytes := ds @ later, roffset := roffset f + 4, bbuf := 0, nb := 0, copyLen := copyLen (?f1\<lparr>copyLen := n\<rparr>)\<rparr>"
    by (cases f) simp
  ultimately show ?thesis using that [of ?f1] that [of "?f1\<lparr>copyLen := n\<rparr>"] by (cases "n = 0") simp_all
qed

text \<open>\<open>dataBlock\<close> flushes at an empty block, and only then.\<close>

lemma serves_stored:
  assumes "boundary out f" and "length ds < 65536" and "stream f = pad pos @ bytes_bits (le16_bytes (length ds) @
      le16_bytes (65535 - length ds) @ ds) @ rest" and "8 dvd pos + length (stream f)"
    and "\<And>g. boundary (out @ ds) g \<Longrightarrow> stream g = rest \<Longrightarrow> (ds = [] \<Longrightarrow> pending g = [] \<and> nb g = 0) \<Longrightarrow>
      serves Q flate_do g (pending g @ ys)"
  shows "serves Q dataBlock f (pending f @ ds @ ys)"
proof -
  have t: "tidy f" "holds out f" using assms(1) by (simp_all add: boundary_def)
  from stored_bytes [OF t(1) assms(3,4)] obtain later where
    r: "rbytes f = le16_bytes (length ds) @ le16_bytes (65535 - length ds) @ ds @ later" "rest = bytes_bits later" by auto
  from dataBlock_run [OF t(1) r(1) refl assms(2)] obtain g where
    g: "dataBlock f = (if length ds = 0 then flush NextBlock else copy_data (length ds)) g"
      "g = f\<lparr>rbytes := ds @ later, roffset := roffset f + 4, bbuf := 0, nb := 0, copyLen := copyLen g\<rparr>" .
  have g': "holds out g" "toRead g = []" "derr g = None" "nb g = 0" "bbuf g = 0" "rbytes g = ds @ later" "kept f g"
      "pending g = pending f" "tidy g" "flstep g = NextBlock" "stream g = bytes_bits (ds @ later)"
    using assms(1) by (subst g(2), simp add: boundary_def holds_def kept_def pending_def tidy_def clean_def stream_def)+
  have bg: "boundary out g" using assms(1) g' by (auto simp: boundary_def kept_def tables_ok_def)
  show ?thesis
  proof (cases "ds = []")
    case True
    from flush_run [OF g'(1), of NextBlock] obtain k where
      k: "flush NextBlock g = (Ok (), k)" "only_output g k" "holds out k" "toRead k = pending g" "pending k = []" "flstep k = NextBlock" .
    let ?k = "k\<lparr>toRead := []\<rparr>"
    have "boundary (out @ ds) ?k"
      using bg k True by (simp add: boundary_def only_output_def holds_def tidy_def clean_def tables_ok_def)
    moreover have "stream ?k = rest" "nb ?k = 0" using k(2) g'(4-6) r(2) True by (simp_all add: stream_def only_output_def)
    ultimately have "serves Q flate_do ?k ys" using assms(5) [of ?k] k(5) by simp
    moreover have "dataBlock f = (Ok (), k)" using g(1) k(1) True by simp
    moreover have "derr k = None" using k(2) g'(3) by (simp add: only_output_def)
    ultimately show ?thesis using serves_go [where m = dataBlock and f = f and g = k] k(4) g'(8) True by simp
  next
    case False
    have "serves (after (out @ ds) (bytes_bits later) g) (copy_data (length ds)) g (pending g @ ds)"
      by (rule serves_copy_data [OF g'(1-6)])
    then have "serves Q (copy_data (length ds)) g ((pending g @ ds) @ ys)"
    proof (rule serves_trans)
      fix k assume k: "after (out @ ds) (bytes_bits later) g k"
      have "kept g g" by (simp add: kept_def)
      from boundary_after [OF bg this k] assms(5) [of k] r(2) False
      show "derr k = None \<and> serves Q flate_do k (pending k @ ys)" by (simp add: boundary_def)
    qed
    with g(1) g'(8) False show ?thesis by (intro serves_cong [of dataBlock f "copy_data (length ds)" g]) simp_all
  qed
qed

section \<open>A block, a packet\<close>

lemma serves_dynamic:
  assumes "boundary out f" and "header_ok h" and "items_ok (h_lits h) (h_dists h) out ts"
    and "stream f = header_bits h @ items_bits (h_lits h) (h_dists h) ts @ rest" and "foldl item_out out ts = out @ xs"
    and "\<And>g. boundary (out @ xs) g \<Longrightarrow> stream g = rest \<Longrightarrow> serves Q flate_do g (pending g @ ys)"
  shows "serves Q (set_err () readHuffman (\<lambda>_. bindM (modifyS (\<lambda>f. f\<lparr>hl := H1, hd := Some H2\<rparr>)) (\<lambda>_. huffmanBlock)))
    f (pending f @ xs @ ys)"
proof -
  have f: "tables_ok f" "tidy f" using assms(1) by (simp_all add: boundary_def)
  from readHuffman_run [OF assms(2) f assms(4)] obtain g where
    g: "readHuffman f = (Ok (), g)" "header_input f g" "tables_ok g" "decodes (h_lits h) (h1 g)"
      "decodes (h_dists h) (h2 g)" "stream g = items_bits (h_lits h) (h_dists h) ts @ rest" "tidy g" by blast
  have b: "boundary out g" using boundary_header [OF assms(1) g(2,3,7)] .
  have "pending g = pending f" using g(2) by (simp add: pending_def header_input_def)
  with serves_items [OF b inside_dynamic [OF b assms(2) g(4,5)] assms(3) g(6) assms(5,6)]
  show ?thesis by (intro serves_cong [of _ f "bindM (modifyS (\<lambda>f. f\<lparr>hl := H1, hd := Some H2\<rparr>)) (\<lambda>_. huffmanBlock)" g])
      (simp_all add: set_err_Ok [where m = readHuffman, OF g(1)])
qed

lemma block_out_prefix: "\<exists>xs. block_out out b = out @ xs"
  using items_out_prefix by (cases b) auto

lemma serves_block_step:
  assumes "boundary out f" and "block_ok out b" and "stream f = block_bits pos b @ rest" and "8 dvd pos + length (stream f)"
    and "block_out out b = out @ xs"
    and "\<And>g. boundary (out @ xs) g \<Longrightarrow> stream g = rest \<Longrightarrow> (b = Stored [] \<Longrightarrow> pending g = [] \<and> nb g = 0) \<Longrightarrow>
      serves Q flate_do g (pending g @ ys)"
  shows "serves Q flate_do f (pending f @ xs @ ys)"
proof -
  have fd: "flate_do f = nextBlock f" using assms(1) by (simp add: flate_do_def boundary_def)
  have pend: "pending g = pending f" if "only_input f g" for g using only_input_same [OF that] by (simp add: pending_def)
  show ?thesis
  proof (cases b)
    case (Stored ds)
    let ?bs = "le16_bytes (length ds) @ le16_bytes (65535 - length ds) @ ds"
    have st: "stream f = [False] @ num_bits 2 0 @ (pad (pos + 3) @ bytes_bits ?bs @ rest)" using assms(3) Stored by simp
    obtain g where g: "nextBlock f = dataBlock g" "only_input f g" "stream g = pad (pos + 3) @ bytes_bits ?bs @ rest" "tidy g"
      by (rule reads_head [OF assms(1) st]) simp_all
    have al: "8 dvd pos + 3 + length (stream g)" using assms(4) st g(3) by (simp add: add.assoc)
    have "xs = ds" "length ds < 65536" using assms(2,5) Stored by simp_all
    then have "serves Q dataBlock g (pending g @ xs @ ys)"
      using serves_stored [OF boundary_input [OF assms(1) g(2,4)] _ g(3) al, of Q ys] assms(6) Stored by simp
    with fd g(1) pend [OF g(2)] show ?thesis by (auto intro: serves_cong)
  next
    case (Fixed ts)
    have st: "stream f = [False] @ num_bits 2 1 @ (items_bits fixed_lens fixed_dists ts @ rest)" using assms(3) Fixed by simp
    obtain g where g: "nextBlock f = bindM (modifyS (\<lambda>f. f\<lparr>hl := FixedDecoder, hd := None\<rparr>)) (\<lambda>_. huffmanBlock) g"
        "only_input f g" "stream g = items_bits fixed_lens fixed_dists ts @ rest" "tidy g"
      by (rule reads_head [OF assms(1) st]) simp_all
    have b': "boundary out g" using boundary_input [OF assms(1) g(2,4)] .
    have "serves Q (bindM (modifyS (\<lambda>f. f\<lparr>hl := FixedDecoder, hd := None\<rparr>)) (\<lambda>_. huffmanBlock)) g (pending g @ xs @ ys)"
      by (rule serves_items [OF b' inside_fixed [OF b'] _ g(3)]) (use assms(2,5,6) Fixed in simp_all)
    with fd g(1) pend [OF g(2)] show ?thesis by (auto intro: serves_cong)
  next
    case (Dynamic h ts)
    let ?m = "set_err () readHuffman (\<lambda>_. bindM (modifyS (\<lambda>f. f\<lparr>hl := H1, hd := Some H2\<rparr>)) (\<lambda>_. huffmanBlock))"
    have st: "stream f = [False] @ num_bits 2 2 @ (header_bits h @ items_bits (h_lits h) (h_dists h) ts @ rest)"
      using assms(3) Dynamic by simp
    obtain g where g: "nextBlock f = ?m g" "only_input f g"
        "stream g = header_bits h @ items_bits (h_lits h) (h_dists h) ts @ rest" "tidy g"
      by (rule reads_head [OF assms(1) st]) simp_all
    have "serves Q ?m g (pending g @ xs @ ys)"
      by (rule serves_dynamic [OF boundary_input [OF assms(1) g(2,4)] _ _ g(3)]) (use assms(2,5,6) Dynamic in simp_all)
    with fd g(1) pend [OF g(2)] show ?thesis by (auto intro: serves_cong)
  qed
qed

lemma idle_end:
  assumes "boundary out f" and "rbytes f = []" and "nb f = 0" and "pending f = []"
  shows "serves (idle out) flate_do f []"
proof -
  let ?g = "f\<lparr>derr := Some UnexpectedEOF\<rparr>"
  have "moreBits f = (Err UnexpectedEOF, f)" using assms(1,2) moreBits_end [of f] by (simp add: boundary_def)
  then have "needBits 3 f = (Err UnexpectedEOF, f)" using assms(3) by (subst needBits.simps) simp
  then have "flate_do f = (Ok (), ?g)"
    using assms(1) by (simp add: flate_do_def boundary_def nextBlock_def bindM_def getS_def set_err_def)
  moreover have "pending ?g = []" using assms(4) by (simp add: pending_def)
  moreover have "idle out ?g"
    using assms calculation(2) by (simp add: idle_def boundary_def holds_def tidy_def clean_def tables_ok_def)
  moreover have "toRead ?g = []" using assms(1) by (simp add: boundary_def)
  ultimately show ?thesis using serves_stop [of flate_do f ?g "idle out"] by simp
qed

text \<open>A packet: blocks, and an empty stored block at the end.\<close>

lemma serves_packet:
  assumes "boundary out f" and "blocks_ok out bs" and "stream f = blocks_bits pos (bs @ [Stored []])"
    and "8 dvd pos + length (stream f)" and "foldl block_out out bs = out @ xs"
  shows "serves (idle (out @ xs)) flate_do f (pending f @ xs)"
  using assms
proof (induction bs arbitrary: out f pos xs)
  case Nil
  have xs: "xs = []" using Nil.prems(5) by simp
  have st: "stream f = block_bits pos (Stored []) @ []" using Nil.prems(3) by simp
  have "serves (idle out) flate_do f (pending f @ [] @ [])"
  proof (rule serves_block_step [OF Nil.prems(1) _ st Nil.prems(4)])
    fix g assume g: "boundary (out @ []) g" "stream g = []" "Stored [] = Stored [] \<Longrightarrow> pending g = [] \<and> nb g = 0"
    have "rbytes g = []" using arg_cong [OF g(2), of length] by (simp add: length_stream)
    with idle_end [of out g] g show "serves (idle out) flate_do g (pending g @ [])" by simp
  qed simp_all
  with xs show ?case by simp
next
  case (Cons b bs)
  obtain ys where ys: "block_out out b = out @ ys" using block_out_prefix by blast
  have "\<exists>zs. foldl block_out o1 bs = o1 @ zs" for o1
  proof (induction bs arbitrary: o1)
    case (Cons c cs)
    from block_out_prefix [of o1 c] obtain us where "block_out o1 c = o1 @ us" by blast
    with Cons.IH [of "o1 @ us"] show ?case by auto
  qed simp
  then obtain zs where zs: "foldl block_out (out @ ys) bs = (out @ ys) @ zs" by blast
  have xs: "xs = ys @ zs" using Cons.prems(5) ys zs by simp
  let ?rest = "blocks_bits (pos + length (block_bits pos b)) (bs @ [Stored []])"
  have st: "stream f = block_bits pos b @ ?rest" using Cons.prems(3) by simp
  have ok: "block_ok out b" "blocks_ok (out @ ys) bs" using Cons.prems(2) ys by simp_all
  have "serves (idle (out @ xs)) flate_do f (pending f @ ys @ zs)"
  proof (rule serves_block_step [OF Cons.prems(1) ok(1) st Cons.prems(4) ys])
    fix g assume g: "boundary (out @ ys) g" "stream g = ?rest"
    have "8 dvd pos + length (block_bits pos b) + length (stream g)" using Cons.prems(4) st g(2) by (simp add: add.assoc)
    from Cons.IH [OF g(1) ok(2) g(2) this zs] xs show "serves (idle (out @ xs)) flate_do g (pending g @ zs)" by simp
  qed
  with xs show ?case by simp
qed

end
