(* ===== verification/ZlibPackets.thy ===== *)
theory ZlibPackets
  imports Zlib InflateStream
begin

text \<open>
  A zlib stream sofar in packets: each packet is given to \<open>Inflate\<close> when it arrives, and \<open>Inflate\<close> returns what the
  packet stands for, with copies that may reach back into the packets before it. This is what the inflator was
  changed for: its source is exchanged between the packets.
\<close>

section \<open>Packets\<close>

function pack_bits :: "bool list \<Rightarrow> u8 list" where
  "pack_bits xs = (if xs = [] then [] else of_nat (bits_val (take 8 xs)) # pack_bits (drop 8 xs))"
  by pat_completeness auto
termination
  by (relation "measure length") simp_all

declare pack_bits.simps [simp del]

definition packet :: "dblock list \<Rightarrow> u8 list" where
  "packet bs = pack_bits (blocks_bits 0 (bs @ [Stored []]))"

definition zlib_header :: "u8 list \<Rightarrow> bool" where
  "zlib_header h \<longleftrightarrow> length h = 2 \<and> h ! 0 AND 0x0f = 8 \<and> (unat (h ! 0) * 256 + unat (h ! 1)) mod 31 = 0 \<and> h ! 1 AND 0x20 = 0"

fun packets_ok :: "u8 list \<Rightarrow> dblock list list \<Rightarrow> bool" where
  "packets_ok out [] \<longleftrightarrow> True"
| "packets_ok out (bs # bss) \<longleftrightarrow> blocks_ok out bs \<and> packets_ok (foldl block_out out bs) bss"

fun contents :: "u8 list \<Rightarrow> dblock list list \<Rightarrow> u8 list list" where
  "contents out [] = []"
| "contents out (bs # bss) = drop (length out) (foldl block_out out bs) # contents (foldl block_out out bs) bss"

text \<open>The header stands before the first packet.\<close>

fun zlib_packets :: "u8 list \<Rightarrow> dblock list list \<Rightarrow> u8 list list" where
  "zlib_packets h [] = []"
| "zlib_packets h (bs # bss) = (h @ packet bs) # map packet bss"

fun feed :: "(nat \<Rightarrow> nat) \<Rightarrow> inflator \<Rightarrow> u8 list list \<Rightarrow> u8 list outcome list \<times> inflator" where
  "feed room i [] = ([], i)"
| "feed room i (p # ps) = (case Inflate room i p of (r, i') \<Rightarrow> (case feed room i' ps of (rs, i'') \<Rightarrow> (r # rs, i'')))"

lemma bytes_bits_pack: "8 dvd length xs \<Longrightarrow> bytes_bits (pack_bits xs) = xs"
proof (induction xs rule: pack_bits.induct)
  case (1 xs)
  show ?case
  proof (cases "xs = []")
    case True
    then show ?thesis by (simp add: pack_bits.simps bytes_bits_def)
  next
    case False
    with 1(2) have len: "8 \<le> length xs" by (cases xs) (auto dest: dvd_imp_le)
    have "byte_bits (of_nat (bits_val (take 8 xs))) = take 8 xs"
      using len by (intro nth_equalityI) (simp_all add: byte_bits_def bit_of_nat_iff bit_bits_val)
    moreover have "8 dvd length (drop 8 xs)" using 1(2) len by (simp add: dvd_diff_nat)
    ultimately show ?thesis using 1(1) [OF False] False by (subst pack_bits.simps) (simp add: bytes_bits_Cons)
  qed
qed

lemma blocks_bits_append: "blocks_bits pos (bs @ cs) = blocks_bits pos bs @ blocks_bits (pos + length (blocks_bits pos bs)) cs"
  by (induction bs arbitrary: pos) (simp_all add: add.assoc)

lemma stored_aligned: "8 dvd pos + length (block_bits pos (Stored ds))"
proof -
  have "8 dvd p + length (pad p)" for p :: nat
  proof -
    have "p + length (pad p) = 8 * (p div 8) + (p mod 8 + (8 - p mod 8) mod 8)"
      unfolding pad_def length_replicate using mult_div_mod_eq [of 8 p] by linarith
    moreover have "8 dvd p mod 8 + (8 - p mod 8) mod 8" by (cases "p mod 8 = 0") simp_all
    ultimately show ?thesis by (simp only: dvd_add dvd_triv_left)
  qed
  from this [of "pos + 3"] have "8 dvd pos + 3 + length (pad (pos + 3)) + 8 * (4 + length ds)" by (simp only: dvd_add dvd_triv_left)
  moreover have "pos + length (block_bits pos (Stored ds)) = pos + 3 + length (pad (pos + 3)) + 8 * (4 + length ds)" by simp
  ultimately show ?thesis by (simp only:)
qed

lemma packet_bits: "bytes_bits (packet bs) = blocks_bits 0 (bs @ [Stored []])"
proof -
  have "8 dvd length (blocks_bits 0 (bs @ [Stored []]))"
    using stored_aligned [of "length (blocks_bits 0 bs)" "[]"] by (simp add: blocks_bits_append)
  then show ?thesis unfolding packet_def by (rule bytes_bits_pack)
qed

lemma length_packet: "8 * length (packet bs) = length (blocks_bits 0 (bs @ [Stored []]))"
  unfolding packet_bits [symmetric] by simp

section \<open>Reading to the end of a packet\<close>

definition zreader_of :: "reader \<Rightarrow> decompressor \<Rightarrow> zreader" where
  "zreader_of s f = \<lparr>zr = s, zdec = Some f, zerr = None\<rparr>"

lemma zlib_read_given:
  assumes "toRead f \<noteq> []" and "0 < n"
  shows "zlib_read n (zreader_of s f) =
    Some (Ok (take n (toRead f)), zreader_of (source_of f) (f\<lparr>toRead := drop n (toRead f)\<rparr>))"
  using assms by (simp add: zlib_read_def zreader_of_def flate_read.simps source_of_def)

lemma zlib_read_step:
  assumes "toRead f = []" and "derr f = None" and "flate_do f = (Ok (), g)" and "0 < n"
  shows "zlib_read n (zreader_of s f) = zlib_read n (zreader_of s g)"
  using assms by (simp add: zlib_read_def zreader_of_def flate_read.simps [of n f] split: option.split prod.split outcome.split)

lemma zlib_read_end:
  assumes "toRead f = []" and "derr f = Some UnexpectedEOF" and "0 < n"
  shows "zlib_read n (zreader_of s f) = Some (Err EOF, zreader_of (source_of f) f)"
  using assms by (simp add: zlib_read_def zreader_of_def flate_read.simps)

lemma read_all_given:
  assumes "\<forall>k. 0 < room k"
  shows "\<exists>k' s'. read_all room k acc (zreader_of s f) = read_all room k' (acc @ toRead f) (zreader_of s' (f\<lparr>toRead := []\<rparr>))"
proof (induction "length (toRead f)" arbitrary: k acc s f rule: less_induct)
  case less
  show ?case
  proof (cases "toRead f = []")
    case True
    with toRead_empty [OF True] show ?thesis by (intro exI [of _ k] exI [of _ s]) (simp only: append_Nil2)
  next
    case False
    let ?f = "f\<lparr>toRead := drop (room k) (toRead f)\<rparr>"
    have r: "0 < room k" using assms by blast
    then have "length (toRead ?f) < length (toRead f)" using False by simp
    from less.hyps [OF this, of "k + 1" "acc @ take (room k) (toRead f)" "source_of f"] obtain k' s' where
      "read_all room (k + 1) (acc @ take (room k) (toRead f)) (zreader_of (source_of f) ?f) =
        read_all room k' ((acc @ take (room k) (toRead f)) @ toRead ?f) (zreader_of s' (?f\<lparr>toRead := []\<rparr>))" by blast
    then have "read_all room (k + 1) (acc @ take (room k) (toRead f)) (zreader_of (source_of f) ?f) =
        read_all room k' (acc @ toRead f) (zreader_of s' (f\<lparr>toRead := []\<rparr>))" by simp
    moreover have "read_all room k acc (zreader_of s f) =
        read_all room (k + 1) (acc @ take (room k) (toRead f)) (zreader_of (source_of f) ?f)"
      by (subst read_all.simps) (simp add: zlib_read_given [OF False r])
    ultimately show ?thesis by auto
  qed
qed

lemma read_all_step:
  assumes "toRead f = []" and "derr f = None" and "flate_do f = (Ok (), g)" and "0 < room k"
  shows "read_all room k acc (zreader_of s f) = read_all room k acc (zreader_of s g)"
  by (subst (1 2) read_all.simps) (simp add: zlib_read_step [OF assms])

text \<open>\<open>ReadAll\<close> collects what the steps hand out, whatever the sizes of its slices.\<close>

lemma read_all_serves:
  assumes "serves (idle out) m f ps" and "m = flate_do" and "toRead f = []" and "derr f = None" and "\<forall>k. 0 < room k"
  shows "\<exists>g s'. idle out g \<and> read_all room k acc (zreader_of s f) = Some (Ok (acc @ ps), zreader_of s' g)"
  using assms
proof (induction arbitrary: k acc s)
  case (serves_stop m f g)
  have g: "toRead g = []" "derr g = Some UnexpectedEOF" "pending g = []" using serves_stop(3) by (simp_all add: idle_def)
  have room: "0 < room k" using serves_stop.prems(4) by blast
  have "read_all room k acc (zreader_of s g) = Some (Ok acc, zreader_of (source_of g) g)"
    by (subst read_all.simps) (simp add: zlib_read_end [OF g(1,2) room])
  then have "read_all room k acc (zreader_of s f) = Some (Ok acc, zreader_of (source_of g) g)"
    using read_all_step [where k = k and room = room and g = g, OF serves_stop.prems(2,3) _ room] serves_stop(1) serves_stop.prems(1) by simp
  with g(3) serves_stop(3) show ?case by auto
next
  case (serves_go m f g ps)
  have room: "0 < room k" using serves_go.prems(4) by blast
  have "read_all room k acc (zreader_of s f) = read_all room k acc (zreader_of s g)"
    using read_all_step [where k = k and room = room and g = g, OF serves_go.prems(2,3) _ room] serves_go(1) serves_go.prems(1) by simp
  moreover obtain k' s' where
    "read_all room k acc (zreader_of s g) = read_all room k' (acc @ toRead g) (zreader_of s' (g\<lparr>toRead := []\<rparr>))"
    using read_all_given [OF serves_go.prems(4)] by blast
  moreover have "toRead (g\<lparr>toRead := []\<rparr>) = []" "derr (g\<lparr>toRead := []\<rparr>) = None" using serves_go(2) by simp_all
  from serves_go.IH [OF refl this serves_go.prems(4), of k' "acc @ toRead g" s'] obtain k s'' where
    "idle out k" "read_all room k' (acc @ toRead g) (zreader_of s' (g\<lparr>toRead := []\<rparr>)) = Some (Ok ((acc @ toRead g) @ ps), zreader_of s'' k)"
    by blast
  ultimately show ?case by auto
qed

section \<open>One packet\<close>

text \<open>The inflator after packets that stand for \<open>out\<close>; \<open>None\<close> before the first one.\<close>

definition inflated :: "u8 list option \<Rightarrow> inflator \<Rightarrow> bool" where
  "inflated sofar i \<longleftrightarrow>
     (case sofar of None \<Rightarrow> i = None | Some out \<Rightarrow> (\<exists>s f. i = Some (zreader_of s f) \<and> idle out f))"

definition sofar_out :: "u8 list option \<Rightarrow> u8 list" where
  "sofar_out sofar = (case sofar of None \<Rightarrow> [] | Some out \<Rightarrow> out)"

definition zlib_packet :: "u8 list option \<Rightarrow> u8 list \<Rightarrow> dblock list \<Rightarrow> u8 list" where
  "zlib_packet sofar h bs = (if sofar = None then h else []) @ packet bs"

lemma boundary_new: "boundary [] (new_flate \<lparr>rbytes = p, rend = EOF\<rparr>)" "pending (new_flate r) = []"
  "stream (new_flate \<lparr>rbytes = p, rend = EOF\<rparr>) = bytes_bits p"
  by (simp_all add: boundary_def new_flate_def holds_def window_def tidy_def clean_def tables_ok_def usable_def stream_def
      pending_def)

lemma boundary_swap:
  assumes "idle out f"
  shows "boundary out (flate_SwapReader \<lparr>rbytes = p, rend = EOF\<rparr> f)" "pending (flate_SwapReader \<lparr>rbytes = p, rend = EOF\<rparr> f) = []"
    "stream (flate_SwapReader \<lparr>rbytes = p, rend = EOF\<rparr> f) = bytes_bits p"
proof -
  show "boundary out (flate_SwapReader \<lparr>rbytes = p, rend = EOF\<rparr> f)" "stream (flate_SwapReader \<lparr>rbytes = p, rend = EOF\<rparr> f) = bytes_bits p"
    using assms by (simp_all add: boundary_def idle_def flate_SwapReader_def holds_def tidy_def clean_def tables_ok_def stream_def)
  have "pending (flate_SwapReader \<lparr>rbytes = p, rend = EOF\<rparr> f) = pending f" by (simp add: flate_SwapReader_def pending_def)
  with assms show "pending (flate_SwapReader \<lparr>rbytes = p, rend = EOF\<rparr> f) = []" by (simp add: idle_def)
qed

lemma read_all_packet:
  assumes "boundary out f" and "pending f = []" and "stream f = bytes_bits (packet bs)" and "blocks_ok out bs"
    and "foldl block_out out bs = out @ xs" and "\<forall>k. 0 < room k"
  shows "\<exists>g s'. idle (out @ xs) g \<and> read_all room 0 [] (zreader_of s f) = Some (Ok xs, zreader_of s' g)"
proof -
  have "8 dvd (0 :: nat) + length (stream f)" using assms(3) by simp
  from serves_packet [OF assms(1,4) _ this assms(5)] assms(2,3) packet_bits
  have "serves (idle (out @ xs)) flate_do f xs" by simp
  from read_all_serves [OF this refl _ _ assms(6), of 0 "[]" s] assms(1) show ?thesis by (simp add: boundary_def)
qed

lemma zlib_Reset_new:
  assumes "zlib_header h"
  shows "zlib_Reset \<lparr>rbytes = h @ p, rend = EOF\<rparr> None new_zreader =
    (Ok (), zreader_of \<lparr>rbytes = p, rend = EOF\<rparr> (new_flate \<lparr>rbytes = p, rend = EOF\<rparr>))"
proof -
  let ?r = "\<lparr>rbytes = h @ p, rend = EOF\<rparr>" and ?z = "zlib_SwapReader \<lparr>rbytes = h @ p, rend = EOF\<rparr> new_zreader"
  let ?z1 = "?z\<lparr>zr := \<lparr>rbytes = p, rend = EOF\<rparr>\<rparr>"
  have h: "length h = 2" "h ! 0 AND 0x0f = 8" "(unat (h ! 0) * 2 ^ 8 + unat (h ! 1)) mod 31 = 0" "h ! 1 AND 0x20 = 0"
    using assms by (simp_all add: zlib_header_def)
  have "read_full 2 (zr ?z) = (Ok h, \<lparr>rbytes = p, rend = EOF\<rparr>)"
    using h(1) by (simp add: zlib_SwapReader_def new_zreader_def read_full_def)
  then have on: "on_source (read_full 2) ?z = (Ok h, ?z1)"
    by (simp add: on_source_def zlib_SwapReader_def new_zreader_def)
  have z: "zdec ?z1 = None" "zerr ?z1 = None" "zr ?z1 = \<lparr>rbytes = p, rend = EOF\<rparr>"
    by (simp_all add: zlib_SwapReader_def new_zreader_def)
  have "zlib_Reset ?r None new_zreader = (Ok (), ?z1\<lparr>zdec := Some (new_flate (zr ?z1))\<rparr>)"
    unfolding zlib_Reset_def
    by (simp only: bindM_def [of "modifyS (zlib_SwapReader ?r)"] modifyS_def prod.case outcome.case
        bindM_Ok [where m = "on_source (read_full 2)" and s = ?z, OF on] Let_def) (use h z in simp)
  then show ?thesis using z by (simp add: zreader_of_def)
qed

text \<open>A packet given to the inflator gives its contents, and the inflator is ready for the next one.\<close>

lemma Inflate_packet:
  assumes "inflated sofar i" and "zlib_header h" and "blocks_ok (sofar_out sofar) bs"
    and "foldl block_out (sofar_out sofar) bs = sofar_out sofar @ xs" and "\<forall>k. 0 < room k"
  obtains i' where "Inflate room i (zlib_packet sofar h bs) = (Ok xs, i')" "inflated (Some (sofar_out sofar @ xs)) i'"
proof (cases sofar)
  case None
  let ?r = "\<lparr>rbytes = packet bs, rend = EOF\<rparr>"
  from read_all_packet [OF boundary_new(1,2,3), of bs xs room ?r] assms(3-5) None obtain g s' where
    g: "idle xs g" "read_all room 0 [] (zreader_of ?r (new_flate ?r)) = Some (Ok xs, zreader_of s' g)" by (auto simp: sofar_out_def)
  have "Inflate room i (zlib_packet sofar h bs) = (Ok xs, Some (zreader_of s' g))"
    using None assms(1) zlib_Reset_new [OF assms(2)] g(2) by (simp add: Inflate_def inflated_def zlib_packet_def)
  moreover have "inflated (Some (sofar_out sofar @ xs)) (Some (zreader_of s' g))"
    using g(1) None by (auto simp: inflated_def sofar_out_def)
  ultimately show ?thesis by (rule that)
next
  case (Some out)
  let ?r = "\<lparr>rbytes = packet bs, rend = EOF\<rparr>"
  from assms(1) Some obtain s f where f: "i = Some (zreader_of s f)" "idle out f" by (auto simp: inflated_def)
  from read_all_packet [OF boundary_swap [OF f(2)], of bs xs room ?r] assms(3-5) Some obtain g s' where
    g: "idle (out @ xs) g" "read_all room 0 [] (zreader_of ?r (flate_SwapReader ?r f)) = Some (Ok xs, zreader_of s' g)"
    by (auto simp: sofar_out_def)
  have "zlib_SwapReader ?r (zreader_of s f) = zreader_of ?r (flate_SwapReader ?r f)"
    by (simp add: zlib_SwapReader_def zreader_of_def)
  then have "Inflate room i (zlib_packet sofar h bs) = (Ok xs, Some (zreader_of s' g))"
    using Some f(1) g(2) by (simp add: Inflate_def zlib_packet_def)
  moreover have "inflated (Some (sofar_out sofar @ xs)) (Some (zreader_of s' g))"
    using g(1) Some by (auto simp: inflated_def sofar_out_def)
  ultimately show ?thesis by (rule that)
qed

section \<open>All packets\<close>

lemma is_sym_fixed: "i < 288 \<Longrightarrow> is_sym fixed_lens i"
  by (simp add: is_sym_def fixed_nth) (simp add: fixed_lens_def)

lemma blocks_out_prefix: "\<exists>xs. foldl block_out out bs = out @ xs"
proof (induction bs arbitrary: out)
  case (Cons c cs)
  from block_out_prefix [of out c] obtain us where "block_out out c = out @ us" by blast
  with Cons.IH [of "out @ us"] show ?case by auto
qed simp

lemma feed_packets:
  assumes "inflated (Some out) i" and "packets_ok out bss" and "\<forall>k. 0 < room k"
  shows "fst (feed room i (map packet bss)) = map Ok (contents out bss)"
  using assms
proof (induction bss arbitrary: out i)
  case (Cons bs bss)
  obtain xs where xs: "foldl block_out out bs = out @ xs" using blocks_out_prefix by blast
  have h: "zlib_header [0x78, 0x9c]" by (simp add: zlib_header_def)
  from Inflate_packet [OF Cons.prems(1) h, of bs xs room] Cons.prems(2,3) xs obtain i' where
    i': "Inflate room i (packet bs) = (Ok xs, i')" "inflated (Some (out @ xs)) i'"
    by (auto simp: sofar_out_def zlib_packet_def)
  with Cons.IH [OF i'(2)] Cons.prems(2,3) xs show ?case by (simp add: split_beta)
qed simp

text \<open>
  (C4) A zlib stream of any number of packets, each a list of stored, fixed and dynamic blocks and flushed by an
  empty stored block, is inflated packet by packet: the call of \<open>Inflate\<close> for a packet returns exactly what the
  blocks of this packet stand for by RFC 1951, also where they copy from earlier packets and where the history of
  32768 bytes wraps around in the middle of a block, and whatever the sizes of the reads of \<open>ReadAll\<close> are.
\<close>

theorem inflate_packets:
  assumes "\<forall>k. 0 < room k" and "zlib_header h" and "packets_ok [] bss"
  shows "fst (feed room None (zlib_packets h bss)) = map Ok (contents [] bss)"
proof (cases bss)
  case (Cons bs bss')
  obtain xs where xs: "foldl block_out [] bs = [] @ xs" using blocks_out_prefix by blast
  have "inflated None None" by (simp add: inflated_def)
  from Inflate_packet [OF this assms(2), of bs xs room] assms(1,3) xs Cons obtain i' where
    i': "Inflate room None (h @ packet bs) = (Ok xs, i')" "inflated (Some xs) i'"
    by (auto simp: sofar_out_def zlib_packet_def)
  with feed_packets [OF i'(2), of bss' room] assms(1,3) xs Cons show ?thesis by (simp add: split_beta)
qed simp

text \<open>Three packets; the second is a copy that reaches into the first and overlaps itself, the third has its own codes.\<close>

theorem inflate_packets_witness:
  "fst (feed (\<lambda>_. 512) None (zlib_packets [0x78, 0x9c]
       [[Stored [104, 105], Fixed [Lit 33]], [Fixed [Match 3 0 2 0]], [Dynamic demo_header [Lit 97]]])) =
     [Ok [104, 105, 33], Ok [104, 105, 33, 104, 105, 33], Ok [97]]"
proof -
  let ?bss = "[[Stored [104, 105], Fixed [Lit 33]], [Fixed [Match 3 0 2 0]], [Dynamic demo_header [Lit 97]]]"
  have t: "len_table ! 3 = (6, 0)" "dist_table ! 2 = (3, 0)" by (simp_all add: len_table_def dist_table_def)
  have d: "is_sym fixed_dists 2" "is_sym (h_lits demo_header) 97"
    by (simp_all add: is_sym_def fixed_dists_def demo_header_def nth_append)
  have copy: "lz_copy 3 6 [104, 105, 33] = [104, 105, 33, 104, 105, 33, 104, 105, 33]" by (simp add: eval_nat_numeral)
  have "items_ok fixed_lens fixed_dists [104, 105] [Lit 33]" "items_ok fixed_lens fixed_dists [104, 105, 33] [Match 3 0 2 0]"
    by (simp_all add: t d is_sym_fixed dist_of_def)
  then have ok: "packets_ok [] ?bss" using demo_header_ok d(2) by simp
  have "contents [] ?bss = [[104, 105, 33], [104, 105, 33, 104, 105, 33], [97]]"
    using copy by (simp add: dist_of_def len_of_def t)
  with inflate_packets [OF _ _ ok, of "\<lambda>_. 512" "[0x78, 0x9c]"] show ?thesis by (simp add: zlib_header_def)
qed

end
