(* ===== verification/ZrleStream.thy ===== *)
theory ZrleStream
  imports ServerMsg ZlibPackets
begin

text \<open>
  ZRLE rectangles over a connection: all rectangles share one compressed stream, a packet each, and are decoded to
  the pictures the server encoded. What the decoder needs of the inflator is a locale; the zlib
  inflator of \<open>ZlibPackets\<close> is an instance.
\<close>

section \<open>The interface of an inflator\<close>

text \<open>
  \<open>s\<close> is what the server's side of the stream has come to, \<open>b\<close> a way to compress a packet; \<open>ready s i\<close> says that the
  inflator \<open>i\<close> has followed it so far.
\<close>

locale packet_inflator =
  fixes inflate :: "'i \<Rightarrow> u8 list \<Rightarrow> u8 list outcome \<times> 'i"
    and ready :: "'s \<Rightarrow> 'i \<Rightarrow> bool"
    and compressed :: "'s \<Rightarrow> 'b \<Rightarrow> u8 list"
    and plain :: "'s \<Rightarrow> 'b \<Rightarrow> u8 list"
    and follow :: "'s \<Rightarrow> 'b \<Rightarrow> 's"
    and fits :: "'s \<Rightarrow> 'b \<Rightarrow> bool"
  assumes inflate_packet: "ready s i \<Longrightarrow> fits s b \<Longrightarrow>
    \<exists>i'. inflate i (compressed s b) = (Ok (plain s b), i') \<and> ready (follow s b) i'"

text \<open>A rectangle with its picture, the bytes of its tiles, and the way these are compressed.\<close>

type_synonym 'b zrle_rect = "rect \<times> (nat \<Rightarrow> nat \<Rightarrow> color) \<times> (nat \<Rightarrow> nat \<Rightarrow> u8 list) \<times> 'b"

definition zrle_rect_ok ::
  "('s \<Rightarrow> 'b \<Rightarrow> u8 list) \<Rightarrow> ('s \<Rightarrow> 'b \<Rightarrow> u8 list) \<Rightarrow> ('s \<Rightarrow> 'b \<Rightarrow> bool) \<Rightarrow> 's \<Rightarrow> 'b zrle_rect \<Rightarrow> bool" where
  "zrle_rect_ok compressed plain fits s x \<longleftrightarrow> (case x of (r, pic, enc, b) \<Rightarrow>
     encodes_picture pic (unat (rWidth r)) (unat (rHeight r)) enc \<and> unat (rWidth r) \<le> 65472 \<and> unat (rHeight r) \<le> 65472 \<and>
     fits s b \<and> plain s b = picture_bytes enc (unat (rWidth r)) (unat (rHeight r)) \<and> length (compressed s b) < 2 ^ 31)"

definition zrle_picture :: "'b zrle_rect \<Rightarrow> color list" where
  "zrle_picture x = (case x of (r, pic, enc, b) \<Rightarrow> grid (unat (rWidth r)) (unat (rHeight r)) pic)"

text \<open>The bytes of the connection: for each rectangle the length of its packet, and the packet.\<close>

fun zrle_stream :: "('s \<Rightarrow> 'b \<Rightarrow> u8 list) \<Rightarrow> ('s \<Rightarrow> 'b \<Rightarrow> 's) \<Rightarrow> 's \<Rightarrow> 'b zrle_rect list \<Rightarrow> u8 list" where
  "zrle_stream compressed follow s [] = []"
| "zrle_stream compressed follow s ((r, pic, enc, b) # xs) =
     be32 (of_nat (length (compressed s b))) @ compressed s b @ zrle_stream compressed follow (follow s b) xs"

fun zrle_stream_ok ::
  "('s \<Rightarrow> 'b \<Rightarrow> u8 list) \<Rightarrow> ('s \<Rightarrow> 'b \<Rightarrow> u8 list) \<Rightarrow> ('s \<Rightarrow> 'b \<Rightarrow> bool) \<Rightarrow> ('s \<Rightarrow> 'b \<Rightarrow> 's) \<Rightarrow> 's \<Rightarrow>
    'b zrle_rect list \<Rightarrow> bool" where
  "zrle_stream_ok compressed plain fits follow s [] \<longleftrightarrow> True"
| "zrle_stream_ok compressed plain fits follow s ((r, pic, enc, b) # xs) \<longleftrightarrow>
     zrle_rect_ok compressed plain fits s (r, pic, enc, b) \<and> zrle_stream_ok compressed plain fits follow (follow s b) xs"

definition read_zrle ::
  "('i \<Rightarrow> u8 list \<Rightarrow> u8 list outcome \<times> 'i) \<Rightarrow> rect \<Rightarrow> (('i, 'z, 'm) server_client_scheme, color list) prog" where
  "read_zrle inflate r = bindM (ZRLE_Read inflate r) (\<lambda>(cs, n). ret cs)"

lemma sint_len:
  assumes "n < 2 ^ 31"
  shows "\<not> sint (of_nat n :: u32) < 0" "unat (of_nat n :: u32) = n"
proof -
  have u: "uint (of_nat n :: u32) = int n" using assms by (simp add: unsigned_of_nat take_bit_eq_mod)
  have "sint (of_nat n :: u32) = int n"
    unfolding sint_uint u using assms by (intro signed_take_bit_int_eq_self) simp_all
  then show "\<not> sint (of_nat n :: u32) < 0" by simp
  show "unat (of_nat n :: u32) = n" using assms by (simp add: unsigned_of_nat take_bit_eq_mod)
qed

context packet_inflator
begin

lemma zrle_read_packet:
  fixes c :: "('i, 'z, 'm) server_client_scheme"
  assumes "ready s (inflator c)" and "zrle_rect_ok compressed plain fits s (r, pic, enc, b)"
    and "rbytes c = be32 (of_nat (length (compressed s b))) @ compressed s b @ later" and "24 \<le> BPP (PixelFormat c)"
  obtains i' where "ZRLE_Read inflate r c =
      (Ok (zrle_picture (r, pic, enc, b), of_nat (length (compressed s b))), c\<lparr>rbytes := later, inflator := i'\<rparr>)"
    "ready (follow s b) i'"
proof -
  let ?p = "compressed s b" and ?W = "unat (rWidth r)" and ?H = "unat (rHeight r)"
  let ?px = "picture_bytes enc ?W ?H"
  have ok: "encodes_picture pic ?W ?H enc" "?W \<le> 65472" "?H \<le> 65472" "fits s b" "plain s b = ?px" "length ?p < 2 ^ 31"
    using assms(2) by (simp_all add: zrle_rect_ok_def)
  from inflate_packet [OF assms(1) ok(4)] ok(5) obtain i' where
    i': "inflate (inflator c) ?p = (Ok ?px, i')" "ready (follow s b) i'" by auto
  let ?len = "of_nat (length ?p) :: u32"
  let ?c1 = "c\<lparr>rbytes := ?p @ later\<rparr>" and ?c2 = "c\<lparr>rbytes := later\<rparr>"
  have rd: "read_u32 c = (Ok ?len, ?c1)" using u32_codec.dec_enc [OF _ assms(3)] by simp
  have full: "read_full (unat ?len) ?c1 = (Ok ?p, ?c2)" using sint_len(2) [OF ok(6)] by (simp add: read_full_def)
  have inf: "annotate ''could not inflate'' (run_inflate inflate ?p) ?c2 = (Ok ?px, ?c2\<lparr>inflator := i'\<rparr>)"
    using i'(1) by (simp add: annotate_def run_inflate_def)
  have parse: "ZRLE_parse r (NewQuickBuf ?px) = (Ok (grid ?W ?H pic), qb_at ?px [])"
    using parse_placed [OF ok(1-3), of "[]" "[]"] by (simp add: NewQuickBuf_at)
  have neg: "(sint ?len < 0) = False" using sint_len(1) [OF ok(6)] by simp
  have bpp: "(BPP (PixelFormat (?c2\<lparr>inflator := i'\<rparr>)) < 24) = False" using assms(4) by (simp add: not_less)
  have "ZRLE_Read inflate r c = (Ok (grid ?W ?H pic, ?len), ?c2\<lparr>inflator := i'\<rparr>)"
    unfolding ZRLE_Read_def
    by (simp only: bindM_Ok [where m = read_u32 and s = c, OF rd] neg if_False bindM_Ok [where m = "read_full (unat ?len)" and s = ?c1, OF full]
        bindM_Ok [where m = "annotate ''could not inflate'' (run_inflate inflate ?p)" and s = ?c2, OF inf]
        bindM_def [of getS] getS_def prod.case outcome.case bpp parse)
      (simp add: bindM_def annotate_def lift_def qb_at_def qb_Len_def ret_def)
  with i'(2) that show ?thesis by (simp add: zrle_picture_def)
qed

lemma read_zrle_stream:
  fixes c :: "('i, 'z, 'm) server_client_scheme"
  assumes "ready s (inflator c)" and "zrle_stream_ok compressed plain fits follow s xs"
    and "rbytes c = zrle_stream compressed follow s xs @ later" and "24 \<le> BPP (PixelFormat c)"
  shows "\<exists>c'. mapM (read_zrle inflate) (map fst xs) c = (Ok (map zrle_picture xs), c') \<and> rbytes c' = later"
  using assms
proof (induction xs arbitrary: s c)
  case Nil
  then show ?case by (simp add: ret_def)
next
  case (Cons x xs)
  obtain r pic enc b where x: "x = (r, pic, enc, b)" by (cases x)
  let ?rest = "zrle_stream compressed follow (follow s b) xs @ later"
  have "zrle_rect_ok compressed plain fits s (r, pic, enc, b)"
    "rbytes c = be32 (of_nat (length (compressed s b))) @ compressed s b @ ?rest" using Cons.prems(2,3) x by simp_all
  from zrle_read_packet [OF Cons.prems(1) this Cons.prems(4)] obtain i' where
    i': "ZRLE_Read inflate r c = (Ok (zrle_picture x, of_nat (length (compressed s b))), c\<lparr>rbytes := ?rest, inflator := i'\<rparr>)"
      "ready (follow s b) i'" using x by blast
  let ?c1 = "c\<lparr>rbytes := ?rest, inflator := i'\<rparr>"
  have rd: "read_zrle inflate r c = (Ok (zrle_picture x), ?c1)" using i'(1) by (simp add: read_zrle_def bindM_Ok ret_def)
  obtain c' where c': "mapM (read_zrle inflate) (map fst xs) ?c1 = (Ok (map zrle_picture xs), c')" "rbytes c' = later"
    using Cons.IH [of "follow s b" ?c1] Cons.prems(2,4) i'(2) x by auto
  have "mapM (read_zrle inflate) (map fst (x # xs)) c = (Ok (map zrle_picture (x # xs)), c')"
    using rd c'(1) x by (simp add: bindM_def ret_def)
  with c'(2) show ?case by blast
qed

end

section \<open>The zlib inflator\<close>

text \<open>The state is the output so far, with \<open>None\<close> before the header.\<close>

definition zlib_plain :: "u8 list option \<Rightarrow> dblock list \<Rightarrow> u8 list" where
  "zlib_plain sofar bs = drop (length (sofar_out sofar)) (foldl block_out (sofar_out sofar) bs)"

definition zlib_follow :: "u8 list option \<Rightarrow> dblock list \<Rightarrow> u8 list option" where
  "zlib_follow sofar bs = Some (foldl block_out (sofar_out sofar) bs)"

definition zlib_fits :: "u8 list option \<Rightarrow> dblock list \<Rightarrow> bool" where
  "zlib_fits sofar bs \<longleftrightarrow> blocks_ok (sofar_out sofar) bs"

definition zlib_ready :: "(nat \<Rightarrow> nat) \<Rightarrow> u8 list \<Rightarrow> u8 list option \<Rightarrow> inflator \<Rightarrow> bool" where
  "zlib_ready room h sofar i \<longleftrightarrow> (\<forall>k. 0 < room k) \<and> zlib_header h \<and> inflated sofar i"

interpretation zlib_stream: packet_inflator "Inflate room" "zlib_ready room h" "\<lambda>sofar. zlib_packet sofar h" zlib_plain zlib_follow zlib_fits
  for room h
proof unfold_locales
  fix sofar :: "u8 list option" and i bs
  assume r: "zlib_ready room h sofar i" and f: "zlib_fits sofar bs"
  obtain xs where xs: "foldl block_out (sofar_out sofar) bs = sofar_out sofar @ xs" using blocks_out_prefix by blast
  from r f have "inflated sofar i" "zlib_header h" "blocks_ok (sofar_out sofar) bs" "\<forall>k. 0 < room k"
    by (simp_all add: zlib_ready_def zlib_fits_def)
  from Inflate_packet [OF this(1-3) xs this(4)] obtain i' where
    "Inflate room i (zlib_packet sofar h bs) = (Ok xs, i')" "inflated (Some (sofar_out sofar @ xs)) i'" .
  with r xs show "\<exists>i'. Inflate room i (zlib_packet sofar h bs) = (Ok (zlib_plain sofar bs), i') \<and>
      zlib_ready room h (zlib_follow sofar bs) i'"
    by (simp add: zlib_plain_def zlib_follow_def zlib_ready_def)
qed

text \<open>
  (C3) From the bytes of the connection to the pictures: a server sends any number of ZRLE rectangles on a new
  connection, all of them compressed into one zlib stream with blocks of its choice and copies that reach back into
  earlier rectangles, each rectangle flushed. Reading the rectangles one after the other with \<open>ZRLEEncoding.Read\<close> gives
  exactly their pictures, and consumes exactly their bytes.
\<close>

theorem zrle_stream_pictures:
  fixes c :: "(zreader option, 'z, 'm) server_client_scheme"
  assumes "\<forall>k. 0 < room k" and "zlib_header h" and "inflator c = None"
    and "zrle_stream_ok (\<lambda>sofar. zlib_packet sofar h) zlib_plain zlib_fits zlib_follow None xs"
    and "rbytes c = zrle_stream (\<lambda>sofar. zlib_packet sofar h) zlib_follow None xs @ later" and "24 \<le> BPP (PixelFormat c)"
  shows "\<exists>c'. mapM (read_zrle (Inflate room)) (map fst xs) c = (Ok (map zrle_picture xs), c') \<and> rbytes c' = later"
  by (rule zlib_stream.read_zrle_stream [OF _ assms(4-6)]) (use assms(1-3) in \<open>simp add: zlib_ready_def inflated_def\<close>)

text \<open>The same picture twice, stored the first time and copied from the history the second time.\<close>

definition demo_rects :: "dblock list zrle_rect list" where
  "demo_rects = [(\<lparr>rX = 0, rY = 0, rWidth = 66, rHeight = 1\<rparr>, demo_pic, demo_enc,
       [Stored [1, 1, 2, 3, 130, 1, 2, 3, 4, 5, 6, 0, 129, 0]]),
     (\<lparr>rX = 0, rY = 1, rWidth = 66, rHeight = 1\<rparr>, demo_pic, demo_enc, [Fixed [Match 9 1 7 1]])]"

definition demo_zrle_client :: "u8 list \<Rightarrow> (zreader option, 'z) server_client" where
  "demo_zrle_client bs = tight_client.extend (demo_tight bs) \<lparr>inflator = None\<rparr>"

theorem zrle_stream_pictures_witness:
  "\<exists>c' :: (zreader option, unit) server_client.
     mapM (read_zrle (Inflate (\<lambda>_. 512))) (map fst demo_rects)
       (demo_zrle_client (zrle_stream (\<lambda>sofar. zlib_packet sofar [0x78, 0x9c]) zlib_follow None demo_rects @ [7])) =
       (Ok [grid 66 1 demo_pic, grid 66 1 demo_pic], c') \<and> rbytes c' = [7]"
proof -
  let ?px = "[1, 1, 2, 3, 130, 1, 2, 3, 4, 5, 6, 0, 129, 0] :: u8 list"
  let ?stream = "zrle_stream (\<lambda>sofar. zlib_packet sofar [0x78, 0x9c]) zlib_follow None demo_rects"
  have "[0..<2] = [0, 1 :: nat]" by (simp add: upt_rec)
  then have px: "picture_bytes demo_enc 66 1 = ?px" by (simp add: picture_bytes_def row_bytes_def tiles_def demo_enc_def)
  have t: "len_table ! 9 = (13, 1)" "dist_table ! 7 = (13, 2)" by (simp_all add: len_table_def dist_table_def)
  have d: "is_sym fixed_dists 7" by (simp add: is_sym_def fixed_dists_def)
  have copy: "lz_copy 14 14 ?px = ?px @ ?px" by (simp add: eval_nat_numeral)
  have pad: "length (pad n) < 8" for n by (simp add: pad_def)
  have "8 * length (packet [Stored ?px]) < 8 * 2 ^ 30" "8 * length (packet [Fixed [Match 9 1 7 1]]) < 8 * 2 ^ 30"
    unfolding length_packet using pad [of 3] pad [of "length (block_bits 0 (Stored ?px)) + 3"]
      pad [of "length (block_bits 0 (Fixed [Match 9 1 7 1])) + 3"]
    by (simp_all add: items_bits_def t fixed_nth fixed_dists_def)
  then have len: "length (zlib_packet None [0x78, 0x9c] [Stored ?px]) < 2 ^ 31"
      "length (zlib_packet (Some ?px) [0x78, 0x9c] [Fixed [Match 9 1 7 1]]) < 2 ^ 31"
    by (simp_all add: zlib_packet_def)
  have ok: "zrle_stream_ok (\<lambda>sofar. zlib_packet sofar [0x78, 0x9c]) zlib_plain zlib_fits zlib_follow None demo_rects"
    using demo_encodes copy px len
    by (simp add: demo_rects_def zrle_rect_ok_def zlib_plain_def zlib_fits_def zlib_follow_def sofar_out_def
        dist_of_def len_of_def t d is_sym_fixed)
  let ?c = "demo_zrle_client (?stream @ [7]) :: (zreader option, unit) server_client"
  have c: "inflator ?c = None" "rbytes ?c = ?stream @ [7]" "24 \<le> BPP (PixelFormat ?c)"
    by (simp_all add: demo_zrle_client_def demo_tight_def tight_client.defs gym_pf_def)
  have pics: "map zrle_picture demo_rects = [grid 66 1 demo_pic, grid 66 1 demo_pic]"
    by (simp add: demo_rects_def zrle_picture_def)
  have h: "zlib_header [0x78, 0x9c]" by (simp add: zlib_header_def)
  have room: "\<forall>k :: nat. 0 < (512 :: nat)" by simp
  show ?thesis using zrle_stream_pictures [OF room h c(1) ok c(2,3)] unfolding pics .
qed

end
