(* ===== verification/InflateSpin.thy ===== *)
theory InflateSpin
  imports ZlibPackets
begin

text \<open>
  Where the inflator leaves the format: bits that no code of a block begins with. The table has the entry zero
  for them, which reads as the symbol zero with a code of no bits.
\<close>

section \<open>Symbols without bits\<close>

definition blank_odd :: "huffman \<Rightarrow> bool" where
  "blank_odd h \<longleftrightarrow> hmin h = 1 \<and> length (hchunks h) = 512 \<and> (\<forall>x < 512. odd x \<longrightarrow> hchunks h ! x = 0)"

text \<open>The code has one symbol, with the code \<open>0\<close>, and the next bit is a one.\<close>

definition spins :: "decompressor \<Rightarrow> bool" where
  "spins f \<longleftrightarrow> blank_odd (decoder_of f (hl f)) \<and> clean f \<and> nb f \<le> 8 \<and> (\<exists>r. stream f = True # r) \<and> derr f = None \<and>
     length (hist f) = maxHist \<and> hw f \<le> hp f \<and> hp f < maxHist"

lemma spins_same:
  "spins g \<Longrightarrow> h1 f = h1 g \<Longrightarrow> h2 f = h2 g \<Longrightarrow> hl f = hl g \<Longrightarrow> bbuf f = bbuf g \<Longrightarrow> nb f = nb g \<Longrightarrow>
    rbytes f = rbytes g \<Longrightarrow> derr f = None \<Longrightarrow> length (hist f) = maxHist \<Longrightarrow> hw f \<le> hp f \<Longrightarrow> hp f < maxHist \<Longrightarrow> spins f"
  by (cases "hl g") (simp_all add: spins_def clean_def stream_def decoder_of_def)

lemma spins_sym:
  assumes "spins f"
  shows "\<exists>g. huffSym (hl f) f = (Ok 0, g) \<and> only_input f g \<and> spins g"
proof -
  obtain r where f: "blank_odd (decoder_of f (hl f))" "clean f" "nb f \<le> 8" "stream f = True # r"
    using assms by (auto simp: spins_def)
  have "(1 :: nat) \<le> 16" "1 \<le> length (stream f)" using f(4) by simp_all
  from needBits_run [OF f(2) this(2,1)] obtain g where
    g: "needBits 1 f = (Ok (), g)" "only_input f g" "stream g = stream f" "clean g" "1 \<le> nb g" "nb g < max (nb f + 1) 9" by auto
  have "bit (bbuf g) 0" using nth_stream_buffer [of 0 g] g(3,5) f(4) by simp
  then have "bit (unat (bbuf g)) 0" by (simp add: bit_unsigned_iff)
  then have "odd (unat (bbuf g))" by (simp add: bit_0)
  then have "odd (unat (bbuf g) mod 512)" by (simp add: dvd_mod_iff)
  then have "table_entry (decoder_of f (hl f)) (unat (bbuf g)) = Ok (Some 0)"
    using f(1) by (simp add: table_entry_def blank_odd_def index_go_def)
  moreover have "dropBits 0 g = g" by (simp add: dropBits_def)
  ultimately have "huffSym (hl f) f = (Ok 0, g)"
    using g(1) f(1) by (simp add: huffSym_def huffSym_loop.simps blank_odd_def)
  moreover have "spins g"
    using assms g(3-6) f(3,4) only_input_same [OF g(2)] only_input_decoder [OF g(2)] by (auto simp: spins_def)
  ultimately show ?thesis using g(2) by blast
qed

text \<open>The block never ends: it stops when the history is full, with all of it to be read, and goes on in the same state.\<close>

lemma spins_block:
  assumes "spins f"
  shows "\<exists>g. huffmanBlock f = (Ok (), g) \<and> spins (g\<lparr>toRead := []\<rparr>) \<and> flstep g = HuffmanBlock \<and> toRead g \<noteq> [] \<and> derr g = None"
  using assms
proof (induction "maxHist - hp f" arbitrary: f rule: less_induct)
  case less
  from spins_sym [OF less.prems] obtain g where
    g: "huffSym (hl f) f = (Ok 0, g)" "only_input f g" "spins g" by blast
  have hp: "hp g = hp f" "hp f < maxHist" using only_input_same [OF g(2)] less.prems by (simp_all add: spins_def)
  let ?g = "g\<lparr>hist := (hist g)[hp g := 0], hp := hp g + 1\<rparr>"
  have item: "huff_item f = put_literal 0 g" using g(1) by (simp add: huff_item_def set_err_def bindM_def getS_def)
  show ?case
  proof (cases "hp f + 1 = maxHist")
    case True
    let ?k = "?g\<lparr>toRead := take (maxHist - hw g) (drop (hw g) (hist ?g)), woffset := woffset g + int (maxHist - hw g),
      hw := 0, hp := 0, hfull := True, flstep := HuffmanBlock\<rparr>"
    have "put_literal 0 g = (Ok False, ?k)"
      using True hp g(3) by (simp add: put_literal_def bindM_def getS_def modifyS_def ret_def flush_def Let_def spins_def)
    then have "huffmanBlock f = (Ok (), ?k)" using item by (subst huffmanBlock.simps) simp
    moreover have "spins (?k\<lparr>toRead := []\<rparr>)"
      by (rule spins_same [OF g(3)]) (use g(3) in \<open>simp_all add: spins_def\<close>)
    moreover have "toRead ?k \<noteq> []" "derr ?k = None" using g(3) hp by (simp_all add: spins_def)
    ultimately show ?thesis by (intro exI [of _ ?k]) simp
  next
    case False
    have "put_literal 0 g = (Ok True, ?g)"
      using False hp by (simp add: put_literal_def bindM_def getS_def modifyS_def ret_def)
    then have "huffmanBlock f = huffmanBlock ?g" using item by (subst huffmanBlock.simps) simp
    moreover have "spins ?g"
      by (rule spins_same [OF g(3)]) (use g(3) False hp in \<open>simp_all add: spins_def\<close>)
    moreover have "maxHist - hp ?g < maxHist - hp f" using hp by simp
    ultimately show ?thesis using less.hyps [of ?g] by simp
  qed
qed

section \<open>Reading for ever\<close>

text \<open>The states \<open>ReadAll\<close> goes through: some output to be read, or the next step fills the history again.\<close>

definition spinning :: "decompressor \<Rightarrow> bool" where
  "spinning f \<longleftrightarrow> spins (f\<lparr>toRead := []\<rparr>) \<and> flstep f = HuffmanBlock"

lemma spinning_read:
  assumes "spinning f" and "0 < n"
  shows "\<exists>bs s' g. zlib_read n (zreader_of s f) = Some (Ok bs, zreader_of s' g) \<and> spinning g"
proof (cases "toRead f = []")
  case False
  have "spinning (f\<lparr>toRead := drop n (toRead f)\<rparr>)" using assms(1) by (simp add: spinning_def)
  with zlib_read_given [OF False assms(2)] show ?thesis by blast
next
  case True
  then have "spins f" using assms(1) unfolding spinning_def toRead_empty [OF True] by simp
  from spins_block [OF this] obtain g where
    g: "huffmanBlock f = (Ok (), g)" "spins (g\<lparr>toRead := []\<rparr>)" "flstep g = HuffmanBlock" "toRead g \<noteq> []" by blast
  have "derr f = None" using \<open>spins f\<close> by (simp add: spins_def)
  moreover have "flate_do f = (Ok (), g)" using g(1) assms(1) by (simp add: flate_do_def spinning_def)
  ultimately have "zlib_read n (zreader_of s f) = zlib_read n (zreader_of s g)" using zlib_read_step True assms(2) by blast
  moreover have "spinning (g\<lparr>toRead := drop n (toRead g)\<rparr>)" using g(2,3) by (simp add: spinning_def)
  ultimately show ?thesis using zlib_read_given [OF g(4) assms(2)] by (metis (no_types))
qed

lemma read_all_endless_aux:
  "read_all room k acc z = Some y \<Longrightarrow> (\<forall>k. 0 < room k) \<longrightarrow> (\<forall>s f. z = zreader_of s f \<longrightarrow> \<not> spinning f)"
proof (erule read_all.raw_induct [rotated], intro impI allI notI)
  fix ra :: "(nat \<Rightarrow> nat) \<Rightarrow> nat \<Rightarrow> u8 list \<Rightarrow> zreader \<Rightarrow> (u8 list outcome \<times> zreader) option" and room k acc z y s f
  assume ih: "\<And>room k acc z y. ra room k acc z = Some y \<Longrightarrow>
      (\<forall>k. 0 < room k) \<longrightarrow> (\<forall>s f. z = zreader_of s f \<longrightarrow> \<not> spinning f)"
    and body: "Option.bind (zlib_read (room k) z) (\<lambda>(r, z').
      case r of Ok bs \<Rightarrow> ra room (k + 1) (acc @ bs) z' | Err e \<Rightarrow> Some (if e = EOF then Ok acc else Err e, z')
      | Panic p \<Rightarrow> Some (Panic p, z') | Diverge \<Rightarrow> None) = Some y"
    and room: "\<forall>k. 0 < room k" and z: "z = zreader_of s f" and sp: "spinning f"
  have "0 < room k" using room by blast
  from spinning_read [OF sp this, of s] obtain bs s' g where
    g: "zlib_read (room k) (zreader_of s f) = Some (Ok bs, zreader_of s' g)" "spinning g" by blast
  with body z have "ra room (k + 1) (acc @ bs) (zreader_of s' g) = Some y" by simp
  from ih [OF this] room g(2) show False by blast
qed

lemma read_all_endless: "\<forall>k. 0 < room k \<Longrightarrow> spinning f \<Longrightarrow> read_all room k acc (zreader_of s f) = None"
  using read_all_endless_aux [of room k acc "zreader_of s f"] by (cases "read_all room k acc (zreader_of s f)") auto

section \<open>A packet\<close>

text \<open>A dynamic block whose only symbol is its end, with the code \<open>0\<close>; ones follow.\<close>

definition endless_header :: header where
  "endless_header = \<lparr>h_ncl = 18, h_cls = [0, 1] @ replicate 16 0 @ [1],
     h_items = [CManyZeros 127, CManyZeros 107, CLen 1, CLen 1], h_lits = replicate 256 0 @ [1], h_dists = [1]\<rparr>"

definition endless_packet :: "u8 list" where
  "endless_packet =
     (let hd = [False] @ num_bits 2 2 @ header_bits endless_header in pack_bits (hd @ replicate (16 - length hd mod 8) True))"

lemma endless_header_ok: "header_ok endless_header"
proof -
  have r: "[18..<19] = [18 :: nat]" by (simp add: upt_rec)
  have z: "replicate 138 0 @ replicate 118 0 = replicate 256 (0 :: nat)" by (simp add: replicate_add [symmetric])
  have cls: "codes_ok (h_cls endless_header)" "codes_ok (h_lits endless_header)" "codes_ok (h_dists endless_header)"
    by (rule codes_ok_ones; auto simp: endless_header_def ncount_def filter_replicate)+
  have "is_sym (h_cls endless_header) 1" "is_sym (h_cls endless_header) 18" "is_sym (h_lits endless_header) 256"
    by (simp_all add: is_sym_def endless_header_def nth_append)
  moreover have "foldl cl_out [] (h_items endless_header) = h_lits endless_header @ h_dists endless_header"
    using z by (simp add: endless_header_def)
  ultimately show ?thesis using cls by (simp add: header_ok_def endless_header_def r codeOrder_def list_all_iff nth_append)
qed

lemma put_symbols_zeros:
  "put_symbols m (enumerate k (replicate n 0 @ xs)) nextcode = put_symbols m (enumerate (k + n) xs) nextcode"
proof (induction n arbitrary: k)
  case (Suc n)
  have "put_symbol m (k, 0) nextcode = ret nextcode" by (simp add: put_symbol_def)
  then show ?case using Suc [of "Suc k"] by simp
qed simp

lemma len_foldl_zeros: "foldl (\<lambda>c n. if n = 0 then c else c[n := c ! n + 1]) c (replicate k 0) = c"
  by (induction k) simp_all

lemma endless_table:
  assumes "usable t" and "huff_init (h_lits endless_header) t = (Ok (), h)"
  shows "blank_odd h"
proof -
  let ?lens = "replicate 256 0 @ [1] :: nat list"
  have lens: "h_lits endless_header = ?lens" by (simp add: endless_header_def)
  have "len_min ?lens \<noteq> 0 \<and> len_min ?lens \<le> 1" by (rule len_min_le) simp_all
  then have mn: "len_min ?lens = 1" by simp
  have "foldl (\<lambda>m n. if m < n then n else m) 0 (replicate k 0) = (0 :: nat)" for k by (induction k) simp_all
  then have mx: "len_max ?lens = 1" by (simp add: len_max_def)
  have cnt: "len_count ?lens = (replicate 16 0)[1 := 1]" by (simp add: len_count_def len_foldl_zeros)
  have t0: "(if hmin t \<noteq> 0 then zero_huffman else t) = zero_huffman" using assms(1) by (auto simp: usable_def)
  have small: "list_ex (\<lambda>n. 16 \<le> n) ?lens = False" by (simp add: list_ex_iff)
  have "revbits 16 0 = 0" by (rule bit_eqI) (simp add: bit_revbits)
  then have r: "reverse16 0 = Ok 0" using reverse16_run [of 0] by simp
  let ?h = "zero_huffman\<lparr>hmin := 1, hchunks := fill_slots 0 1 512 (16 * 256 + 1) (replicate 512 0)\<rparr>"
  have "huff_init ?lens t = (Ok (), ?h)"
    unfolding huff_init_def
    by (simp only: bindM_def modifyS_def t0 prod.case outcome.case small if_False mx mn Let_def)
      (simp add: r cnt upt_rec put_symbols_zeros put_symbol_def bindM_def lift_def modifyS_def ret_def zero_huffman_def Let_def)
  then have "h = ?h" using assms(2) lens by simp
  then show ?thesis by (simp add: blank_odd_def fill_slots_mod odd_iff_mod_2_eq_one)
qed

text \<open>
  (C36) A dozen bytes from a server keep the client busy for ever: after the header of a zlib stream, a block whose
  code has one symbol, and then bits that are no code. \<open>huffSym\<close> takes the empty entry of its table for the
  symbol zero, the block writes zeros without end, and \<open>Inflate\<close> collects them in memory.
\<close>

theorem inflate_endless:
  assumes "\<forall>k. 0 < room k" and "zlib_header h"
  shows "fst (Inflate room None (h @ endless_packet)) = Diverge"
proof -
  let ?r = "\<lparr>rbytes = endless_packet, rend = EOF\<rparr>" and ?hd = "[False] @ num_bits 2 2 @ header_bits endless_header"
  define ones where "ones = replicate (16 - length ?hd mod 8) True"
  have "length (?hd @ ones) = length ?hd + (16 - length ?hd mod 8)" by (simp add: ones_def)
  moreover have "8 dvd k + (16 - k mod 8)" for k :: nat
  proof -
    define q r where "q = k div 8" and "r = k mod 8"
    then have "k = 8 * q + r" "r < 8" by simp_all
    then have "k + (16 - r) = 8 * (q + 2)" by simp
    then show ?thesis unfolding r_def by (simp only: dvd_triv_left)
  qed
  ultimately have "8 dvd length (?hd @ ones)" by (simp only:)
  then have "bytes_bits endless_packet = ?hd @ ones"
    unfolding endless_packet_def Let_def ones_def by (rule bytes_bits_pack)
  then have st: "stream (new_flate ?r) = [False] @ num_bits 2 2 @ (header_bits endless_header @ ones)"
    by (simp add: boundary_new(3))
  obtain f where f: "nextBlock (new_flate ?r) =
      set_err () readHuffman (\<lambda>_. bindM (modifyS (\<lambda>f. f\<lparr>hl := H1, hd := Some H2\<rparr>)) (\<lambda>_. huffmanBlock)) f"
    "only_input (new_flate ?r) f" "stream f = header_bits endless_header @ ones" "tidy f"
    by (rule reads_head [OF boundary_new(1) st]) simp_all
  have b: "boundary [] f" using boundary_input [OF boundary_new(1) f(2,4)] .
  then have "tables_ok f" by (simp add: boundary_def)
  from readHuffman_run [OF endless_header_ok this f(4,3)] obtain g t where
    g: "readHuffman f = (Ok (), g)" "header_input f g" "stream g = ones" "tidy g" "usable t"
      "huff_init (h_lits endless_header) t = (Ok (), h1 g)" by blast
  let ?g = "g\<lparr>hl := H1, hd := Some H2\<rparr>"
  have "blank_odd (h1 g)" using endless_table g(5,6) .
  moreover have "\<exists>r. ones = True # r" by (cases "16 - length ?hd mod 8") (simp_all add: ones_def)
  moreover have "length (hist g) = maxHist" "hw g \<le> hp g" "hp g < maxHist" "derr g = None"
    using b g(2) by (auto simp: boundary_def header_input_def holds_def window_def)
  ultimately have "spins ?g" using g(3,4) by (simp add: spins_def decoder_of_def tidy_def clean_def stream_def)
  from spins_block [OF this] obtain k where
    k: "huffmanBlock ?g = (Ok (), k)" "spins (k\<lparr>toRead := []\<rparr>)" "flstep k = HuffmanBlock" by blast
  have "flate_do (new_flate ?r) = (Ok (), k)"
    using f(1) k(1) boundary_new(1) [of endless_packet]
    by (simp add: flate_do_def boundary_def set_err_Ok [where m = readHuffman, OF g(1)] bindM_def modifyS_def)
  moreover have "0 < room 0" using assms(1) by blast
  moreover have "toRead (new_flate ?r) = []" "derr (new_flate ?r) = None" using boundary_new(1) by (simp_all add: boundary_def)
  ultimately have "read_all room 0 [] (zreader_of ?r (new_flate ?r)) = read_all room 0 [] (zreader_of ?r k)"
    using read_all_step by blast
  also have "\<dots> = None" by (rule read_all_endless [OF assms(1)]) (simp add: spinning_def k(2,3))
  finally show ?thesis using zlib_Reset_new [OF assms(2)] by (simp add: Inflate_def)
qed

theorem inflate_endless_witness: "fst (Inflate (\<lambda>_. 512) None ([0x78, 0x9c] @ endless_packet)) = Diverge"
  by (rule inflate_endless) (simp_all add: zlib_header_def)

section \<open>Lengths that the table refuses\<close>

text \<open>A block without matches may send no code of distances at all; \<open>init\<close> refuses it.\<close>

lemma huff_init_empty: "fst (huff_init (replicate n 0) h) = Err init_false"
proof -
  have "foldl (\<lambda>m n. if m < n then n else m) 0 (replicate k 0) = (0 :: nat)" for k by (induction k) simp_all
  then have "len_max (replicate n 0) = 0" by (simp add: len_max_def)
  moreover have "list_ex (\<lambda>n. 16 \<le> n) (replicate n (0 :: nat)) = False" by (simp add: list_ex_iff)
  ultimately show ?thesis by (simp add: huff_init_def bindM_def modifyS_def)
qed

text \<open>Lengths that no code can have: the first code of nine bits lies behind the table of reversed bytes.\<close>

lemma len_foldl_ones:
  "foldl (\<lambda>c n. if n = 0 then c else c[n := c ! n + 1]) c (replicate k 1) = c[1 := c ! 1 + k]" if "1 < length c"
  using that by (induction k arbitrary: c) simp_all

lemma huff_init_oversubscribed: "fst (huff_init (9 # replicate 285 1) zero_huffman) = Panic IndexOutOfRange"
proof -
  let ?lens = "9 # replicate 285 1 :: nat list"
  have "foldl (\<lambda>m n. if n = 0 then m else if m = 0 \<or> n < m then n else m) 1 (replicate k 1) = (1 :: nat)" for k
    by (induction k) simp_all
  moreover have "replicate 285 (1 :: nat) = 1 # replicate 284 1" by (simp add: numeral_eq_Suc)
  ultimately have mn: "len_min ?lens = 1" by (simp add: len_min_def)
  have "foldl (\<lambda>m n. if m < n then n else m) 9 (replicate k 1) = (9 :: nat)" for k by (induction k) simp_all
  then have mx: "len_max ?lens = 9" by (simp add: len_max_def)
  have cnt: "len_count ?lens = (replicate 16 0)[9 := 1, 1 := 285]"
    using len_foldl_ones [of "(replicate 16 0)[9 := 1]" 285] by (simp add: len_count_def)
  have small: "list_ex (\<lambda>n. 16 \<le> n) ?lens = False" by (simp add: list_ex_iff)
  have u: "[1..<9 + 1] = [1, 2, 3, 4, 5, 6, 7, 8, 9 :: nat]" by (simp add: upt_rec)
  have e: "enumerate 0 ?lens = (0, 9) # enumerate 1 (replicate 285 1)" by simp
  have "reverse16 72960 = Panic IndexOutOfRange" by (simp add: reverse16_def index_go_def reverseByte_def)
  then show ?thesis
    unfolding huff_init_def
    by (simp only: bindM_def modifyS_def prod.case outcome.case small if_False mx mn Let_def e cnt u)
      (simp add: put_symbol_def bindM_def lift_def modifyS_def ret_def zero_huffman_def Let_def)
qed

end
