(* ===== verification/Fbs.thy ===== *)
theory Fbs
  imports Wire
begin

text \<open>
  Recordings of a server: the reader of \<^verbatim>\<open>cmd/transcode/main.go\<close> that joins the chunks of an FBS file to one
  stream and remembers the time of the chunk it is in. What a caller of \<open>io.ReadFull\<close> sees of such a reader is
  proved once, for every reader that hands out a stream piece by piece (locale \<open>stamped_reader\<close>).
\<close>

section \<open>io.ReadFull on a reader that gives some bytes at a time\<close>

text \<open>
  The loop of \<open>io.ReadAtLeast\<close>: \<open>acc\<close> are the bytes so far. \<open>None\<close> is a loop that does not end, on a reader that
  gives no bytes and no error for ever.
\<close>

partial_function (option) read_loop ::
  "(nat \<Rightarrow> ('s, u8 list) prog) \<Rightarrow> nat \<Rightarrow> u8 list \<Rightarrow> 's \<Rightarrow> (u8 list outcome \<times> 's) option" where
  "read_loop rd n acc s =
     (if n \<le> length acc then Some (Ok acc, s)
      else case rd (n - length acc) s of
        (Ok bs, s') \<Rightarrow> read_loop rd n (acc @ bs) s'
      | (Err e, s') \<Rightarrow> Some (Err (if e = EOF \<and> acc \<noteq> [] then UnexpectedEOF else e), s')
      | (Panic p, s') \<Rightarrow> Some (Panic p, s')
      | (Diverge, s') \<Rightarrow> Some (Diverge, s'))"

text \<open>
  A reader with a stream: \<open>stamped\<close> is what is still to come, every byte with its stamp, and \<open>ending\<close> is the
  error after it. A call gives a piece that carries one stamp, which the reader then shows.
\<close>

locale stamped_reader =
  fixes rd :: "nat \<Rightarrow> ('s, u8 list) prog"
    and stamped :: "'s \<Rightarrow> (u8 \<times> 't) list"
    and ending :: "'s \<Rightarrow> goerr"
    and stamp :: "'s \<Rightarrow> 't"
  assumes rd_some: "0 < n \<Longrightarrow> stamped s \<noteq> [] \<Longrightarrow>
      \<exists>bs s'. rd n s = (Ok bs, s') \<and> bs \<noteq> [] \<and> length bs \<le> n \<and>
        stamped s = map (\<lambda>b. (b, stamp s')) bs @ stamped s' \<and> ending s' = ending s"
    and rd_end: "0 < n \<Longrightarrow> stamped s = [] \<Longrightarrow>
      \<exists>s'. rd n s = (Err (ending s), s') \<and> stamped s' = [] \<and> ending s' = ending s"
begin

definition strm :: "'s \<Rightarrow> reader" where
  "strm s = \<lparr>rbytes = map fst (stamped s), rend = ending s\<rparr>"

text \<open>The state after a loop: what it took is gone, and the reader shows the stamp of the last byte.\<close>

definition took :: "nat \<Rightarrow> 's \<Rightarrow> 's \<Rightarrow> bool" where
  "took k s s' \<longleftrightarrow> stamped s' = drop k (stamped s) \<and> ending s' = ending s \<and>
     (0 < k \<longrightarrow> k \<le> length (stamped s) \<longrightarrow> stamp s' = snd (stamped s ! (k - 1)))"

lemma read_loop_takes:
  "k = n - length acc \<Longrightarrow> length acc \<le> n \<Longrightarrow> k \<le> length (stamped s) \<Longrightarrow>
    \<exists>s'. read_loop rd n acc s = Some (Ok (acc @ map fst (take k (stamped s))), s') \<and> took k s s' \<and> (k = 0 \<longrightarrow> s' = s)"
proof (induction k arbitrary: acc s rule: less_induct)
  case (less k)
  show ?case
  proof (cases "k = 0")
    case True
    then show ?thesis using less.prems by (simp add: read_loop.simps took_def)
  next
    case False
    then have "0 < n - length acc" "stamped s \<noteq> []" using less.prems by auto
    from rd_some [OF this] obtain bs s' where
      s': "rd (n - length acc) s = (Ok bs, s')" "bs \<noteq> []" "length bs \<le> n - length acc"
        "stamped s = map (\<lambda>b. (b, stamp s')) bs @ stamped s'" "ending s' = ending s" by blast
    have len: "length (stamped s) = length bs + length (stamped s')" "0 < length bs" using s'(2,4) by simp_all
    have "k - length bs < k" "k - length bs = n - length (acc @ bs)" "length (acc @ bs) \<le> n"
      "k - length bs \<le> length (stamped s')"
      using False s'(3) less.prems len unfolding length_append by linarith+
    from less.IH [OF this] obtain t where
      t: "read_loop rd n (acc @ bs) s' = Some (Ok ((acc @ bs) @ map fst (take (k - length bs) (stamped s'))), t)"
        "took (k - length bs) s' t" "k - length bs = 0 \<longrightarrow> t = s'" by (elim exE conjE) (rule that)
    have le: "length bs \<le> k" using s'(3) less.prems by simp
    have "read_loop rd n acc s = read_loop rd n (acc @ bs) s'"
      using False less.prems s'(1) by (subst read_loop.simps) simp
    moreover have "(acc @ bs) @ map fst (take (k - length bs) (stamped s')) = acc @ map fst (take k (stamped s))"
      using le by (simp add: s'(4) comp_def)
    moreover have "took k s t"
    proof (cases "k = length bs")
      case True
      then have "stamped s ! (k - 1) = (bs ! (k - 1), stamp s')" using s'(2) by (simp add: s'(4) nth_append)
      then show ?thesis using True t(3) s'(5) by (simp add: took_def s'(4))
    next
      case False
      then have "k - length bs - 1 = k - 1 - length bs" "\<not> k - 1 < length bs" using le by auto
      then show ?thesis using t(2) s'(5) le False by (auto simp: took_def s'(4) nth_append)
    qed
    ultimately show ?thesis using t(1) False by auto
  qed
qed

lemma read_loop_short:
  "length acc + length (stamped s) < n \<Longrightarrow>
    \<exists>s'. read_loop rd n acc s =
        Some (Err (if ending s = EOF \<and> (acc \<noteq> [] \<or> stamped s \<noteq> []) then UnexpectedEOF else ending s), s') \<and>
      stamped s' = [] \<and> ending s' = ending s"
proof (induction "length (stamped s)" arbitrary: acc s rule: less_induct)
  case less
  have n: "0 < n - length acc" using less.prems by simp
  show ?case
  proof (cases "stamped s = []")
    case True
    from rd_end [OF n True] show ?thesis using True less.prems by (subst read_loop.simps) auto
  next
    case False
    from rd_some [OF n this] obtain bs s' where
      s': "rd (n - length acc) s = (Ok bs, s')" "bs \<noteq> []"
        "stamped s = map (\<lambda>b. (b, stamp s')) bs @ stamped s'" "ending s' = ending s" by blast
    then have "length (stamped s') < length (stamped s)" "length (acc @ bs) + length (stamped s') < n"
      using less.prems by auto
    from less.hyps [OF this] have "\<exists>t. read_loop rd n (acc @ bs) s' =
        Some (Err (if ending s = EOF then UnexpectedEOF else ending s), t) \<and> stamped t = [] \<and> ending t = ending s"
      using s'(2,4) by auto
    moreover have "read_loop rd n acc s = read_loop rd n (acc @ bs) s'"
      using n s'(1) by (subst read_loop.simps) simp
    ultimately show ?thesis using False by simp
  qed
qed

text \<open>So the loop ends, and is \<open>read_full\<close> on the stream.\<close>

lemma read_loop_full:
  "\<exists>s'. read_loop rd n [] s = Some (fst (read_full n (strm s)), s') \<and> strm s' = snd (read_full n (strm s)) \<and>
    (n \<le> length (stamped s) \<longrightarrow> took n s s')"
proof (cases "n \<le> length (stamped s)")
  case True
  with read_loop_takes [of n n "[]" s] show ?thesis
    by (auto simp: strm_def read_full_def took_def take_map drop_map)
next
  case False
  with read_loop_short [of "[]" s n] show ?thesis by (auto simp: strm_def read_full_def short_err_def)
qed

end

section \<open>The reader of a recording\<close>

record fbs =
  ffile :: reader          \<comment> \<open>\<open>r.r\<close>, the file\<close>
  fbuf :: "u8 list"        \<comment> \<open>the unread bytes of the chunk\<close>
  ftime :: "u8 list"
  ferr :: "goerr option"

text \<open>\<open>err == io.EOF\<close> becomes \<open>io.ErrUnexpectedEOF\<close>.\<close>

fun no_eof :: "'a outcome \<Rightarrow> 'a outcome" where
  "no_eof (Err e) = Err (if e = EOF then UnexpectedEOF else e)"
| "no_eof r = r"

definition fbs_file :: "(reader, 'a) prog \<Rightarrow> (fbs, 'a) prog" where
  "fbs_file = zoom ffile (\<lambda>r f. f\<lparr>ffile := r\<rparr>)"

definition read4 :: "(fbs, u8 list) prog" where
  "read4 f = (case fbs_file (read_full 4) f of (r, f') \<Rightarrow> (no_eof r, f'))"

text \<open>\<open>io.Copy\<close> from a limited reader: the bytes are in the buffer even if the file fails after them.\<close>

definition copy_chunk :: "nat \<Rightarrow> (fbs, unit) prog" where
  "copy_chunk l f =
     (let bs = take l (rbytes (ffile f)) in
      (if l \<le> length (rbytes (ffile f)) \<or> rend (ffile f) = EOF then Ok () else Err (rend (ffile f)),
       f\<lparr>ffile := (ffile f)\<lparr>rbytes := drop l (rbytes (ffile f))\<rparr>, fbuf := fbuf f @ bs\<rparr>))"

definition next_chunk :: "(fbs, unit) prog" where
  "next_chunk =
     bindM read4 (\<lambda>b.
     let l = unat (get_be32 b) in
     if l = 0 then fail EOF
     else
       bindM (\<lambda>f. case copy_chunk l f of (r, f') \<Rightarrow> (no_eof r, f')) (\<lambda>_.
       bindM read4 (\<lambda>ts.
       modifyS (\<lambda>f. f\<lparr>ftime := ts\<rparr>))))"

text \<open>\<open>Read\<close> of a \<open>bytes.Buffer\<close>.\<close>

definition buffer_read :: "nat \<Rightarrow> (fbs, u8 list) prog" where
  "buffer_read n f =
     (if fbuf f = [] then (if n = 0 then Ok [] else Err EOF, f)
      else (Ok (take n (fbuf f)), f\<lparr>fbuf := drop n (fbuf f)\<rparr>))"

text \<open>The deferred function keeps an error for the calls to come.\<close>

definition fbs_Read :: "nat \<Rightarrow> (fbs, u8 list) prog" where
  "fbs_Read n f =
     (case ferr f of
        Some e \<Rightarrow> (Err e, f)
      | None \<Rightarrow>
          (case bindM (if fbuf f = [] then next_chunk else ret ()) (\<lambda>_. buffer_read n) f of
             (Err e, f') \<Rightarrow> (Err e, f'\<lparr>ferr := Some e\<rparr>)
           | r \<Rightarrow> r))"

section \<open>The stream of a recording\<close>

text \<open>The chunks of a file and the error they end with.\<close>

function chunks :: "u8 list \<Rightarrow> goerr \<Rightarrow> (u8 list \<times> u8 list) list \<times> goerr" where
  "chunks bs e =
     (let l = unat (get_be32 (take 4 bs)); short = (if e = EOF then UnexpectedEOF else e) in
      if length bs < 4 then ([], short)
      else if l = 0 then ([], EOF)
      else if length bs < 8 + l then ([], short)
      else case chunks (drop (8 + l) bs) e of
        (cs, e') \<Rightarrow> ((take l (drop 4 bs), take 4 (drop (4 + l) bs)) # cs, e'))"
  by pat_completeness auto
termination by (relation "measure (\<lambda>(bs, e). length bs)") auto

declare chunks.simps [simp del]

definition stamp_bytes :: "u8 list \<times> u8 list \<Rightarrow> (u8 \<times> u8 list) list" where
  "stamp_bytes c = map (\<lambda>b. (b, snd c)) (fst c)"

definition fbs_stamped :: "fbs \<Rightarrow> (u8 \<times> u8 list) list" where
  "fbs_stamped f =
     (if ferr f = None
      then stamp_bytes (fbuf f, ftime f) @ concat (map stamp_bytes (fst (chunks (rbytes (ffile f)) (rend (ffile f)))))
      else [])"

definition fbs_ending :: "fbs \<Rightarrow> goerr" where
  "fbs_ending f = (case ferr f of Some e \<Rightarrow> e | None \<Rightarrow> snd (chunks (rbytes (ffile f)) (rend (ffile f))))"

lemma length_stamp_bytes [simp]: "length (stamp_bytes c) = length (fst c)"
  by (simp add: stamp_bytes_def)

lemma read4_Ok:
  "4 \<le> length (rbytes (ffile f)) \<Longrightarrow>
    read4 f = (Ok (take 4 (rbytes (ffile f))), f\<lparr>ffile := (ffile f)\<lparr>rbytes := drop 4 (rbytes (ffile f))\<rparr>\<rparr>)"
  by (simp add: read4_def fbs_file_def zoom_def read_full_def)

lemma read4_short:
  "length (rbytes (ffile f)) < 4 \<Longrightarrow>
    read4 f = (Err (if rend (ffile f) = EOF then UnexpectedEOF else rend (ffile f)),
      f\<lparr>ffile := (ffile f)\<lparr>rbytes := []\<rparr>\<rparr>)"
  by (simp add: read4_def fbs_file_def zoom_def read_full_def short_err_def)

text \<open>What a new chunk leaves: its bytes in the buffer and its time, or the error of the file.\<close>

lemma next_chunk_run:
  assumes "fbuf f = []"
  shows "case chunks (rbytes (ffile f)) (rend (ffile f)) of
      ([], e) \<Rightarrow> \<exists>f'. next_chunk f = (Err e, f')
    | (c # cs, e) \<Rightarrow> fst c \<noteq> [] \<and> (\<exists>r. chunks (rbytes r) (rend r) = (cs, e) \<and>
        next_chunk f = (Ok (), f\<lparr>ffile := r, fbuf := fst c, ftime := snd c\<rparr>))"
proof -
  let ?bs = "rbytes (ffile f)" and ?e = "rend (ffile f)"
  let ?l = "unat (get_be32 (take 4 ?bs))"
  note ch = chunks.simps [of ?bs ?e]
  consider "length ?bs < 4" | "4 \<le> length ?bs" "?l = 0" | "4 \<le> length ?bs" "?l \<noteq> 0" "length ?bs < 8 + ?l"
    | "?l \<noteq> 0" "8 + ?l \<le> length ?bs" by linarith
  then show ?thesis
  proof cases
    case 1
    then show ?thesis by (simp add: ch Let_def next_chunk_def bindM_def read4_short)
  next
    case 2
    then show ?thesis by (simp add: ch Let_def next_chunk_def bindM_def read4_Ok)
  next
    case 3
    then have "chunks ?bs ?e = ([], if ?e = EOF then UnexpectedEOF else ?e)" by (simp add: ch Let_def)
    moreover have "\<exists>f'. next_chunk f = (Err (if ?e = EOF then UnexpectedEOF else ?e), f')"
      using 3 by (auto simp: next_chunk_def bindM_def read4_Ok read4_short Let_def copy_chunk_def)
    ultimately show ?thesis by simp
  next
    case 4
    let ?r = "\<lparr>rbytes = drop (8 + ?l) ?bs, rend = ?e\<rparr>"
    obtain cs e where cs: "chunks (rbytes ?r) ?e = (cs, e)" by (cases "chunks (rbytes ?r) ?e")
    with 4 have "chunks ?bs ?e = ((take ?l (drop 4 ?bs), take 4 (drop (4 + ?l) ?bs)) # cs, e)"
      by (simp add: ch Let_def)
    moreover have "take ?l (drop 4 ?bs) \<noteq> []" using 4 by auto
    moreover have "next_chunk f = (Ok (), f\<lparr>ffile := ?r, fbuf := take ?l (drop 4 ?bs), ftime := take 4 (drop (4 + ?l) ?bs)\<rparr>)"
      using 4 assms le_diff_conv2 [of 4 "length ?bs" ?l]
      by (simp add: next_chunk_def bindM_def read4_Ok Let_def copy_chunk_def add.commute)
    ultimately show ?thesis using cs by (auto intro!: exI [of _ ?r])
  qed
qed

interpretation recording: stamped_reader fbs_Read fbs_stamped fbs_ending ftime
proof unfold_locales
  fix n :: nat and f
  assume n: "0 < n" and "fbs_stamped f \<noteq> []"
  then have err: "ferr f = None" by (auto simp: fbs_stamped_def split: if_splits)
  show "\<exists>bs f'. fbs_Read n f = (Ok bs, f') \<and> bs \<noteq> [] \<and> length bs \<le> n \<and>
      fbs_stamped f = map (\<lambda>b. (b, ftime f')) bs @ fbs_stamped f' \<and> fbs_ending f' = fbs_ending f"
  proof -
    have given: "\<exists>bs f'. buffer_read n g = (Ok bs, f') \<and> bs \<noteq> [] \<and> length bs \<le> n \<and>
        fbs_stamped g = map (\<lambda>b. (b, ftime f')) bs @ fbs_stamped f' \<and> fbs_ending f' = fbs_ending g"
      if "fbuf g \<noteq> []" "ferr g = None" for g
      using that n append_take_drop_id [of n "fbuf g"]
      by (auto simp: buffer_read_def fbs_stamped_def stamp_bytes_def fbs_ending_def simp flip: map_append append_assoc)
    show ?thesis
    proof (cases "fbuf f = []")
      case False
      with given [of f] err show ?thesis by (auto simp: fbs_Read_def)
    next
      case True
      let ?ch = "chunks (rbytes (ffile f)) (rend (ffile f))"
      obtain c cs e where ch: "?ch = (c # cs, e)"
        using \<open>fbs_stamped f \<noteq> []\<close> True err
        by (cases ?ch; cases "fst ?ch") (auto simp: fbs_stamped_def stamp_bytes_def)
      from next_chunk_run [OF True] ch obtain r where
        r: "fst c \<noteq> []" "chunks (rbytes r) (rend r) = (cs, e)"
          "next_chunk f = (Ok (), f\<lparr>ffile := r, fbuf := fst c, ftime := snd c\<rparr>)" by auto
      let ?g = "f\<lparr>ffile := r, fbuf := fst c, ftime := snd c\<rparr>"
      have "fbs_stamped ?g = fbs_stamped f" "fbs_ending ?g = fbs_ending f"
        using r(2) ch err True by (simp_all add: fbs_stamped_def fbs_ending_def stamp_bytes_def)
      moreover have "fbs_Read n f = fbs_Read n ?g"
        using err True r(1,3) by (simp add: fbs_Read_def bindM_def)
      ultimately show ?thesis using given [of ?g] r(1) err by (auto simp: fbs_Read_def)
    qed
  qed
next
  fix n :: nat and f
  assume n: "0 < n" and nil: "fbs_stamped f = []"
  show "\<exists>f'. fbs_Read n f = (Err (fbs_ending f), f') \<and> fbs_stamped f' = [] \<and> fbs_ending f' = fbs_ending f"
  proof (cases "ferr f")
    case (Some e)
    then show ?thesis using nil by (simp add: fbs_Read_def fbs_ending_def)
  next
    case None
    let ?ch = "chunks (rbytes (ffile f)) (rend (ffile f))"
    have b: "fbuf f = []" using nil None by (simp add: fbs_stamped_def stamp_bytes_def)
    have "fst ?ch = []"
      using nil None next_chunk_run [OF b] by (cases ?ch; cases "fst ?ch") (auto simp: fbs_stamped_def stamp_bytes_def)
    with next_chunk_run [OF b] obtain f' where "next_chunk f = (Err (snd ?ch), f')"
      by (cases ?ch) auto
    then show ?thesis using None b by (simp add: fbs_Read_def bindM_def fbs_ending_def fbs_stamped_def)
  qed
qed

text \<open>\<open>io.ReadFull\<close> on a recording.\<close>

definition fbs_full :: "nat \<Rightarrow> (fbs, u8 list) prog" where
  "fbs_full n f = (case read_loop fbs_Read n [] f of Some x \<Rightarrow> x | None \<Rightarrow> (Diverge, f))"

definition fbs_stream :: "fbs \<Rightarrow> reader" where
  "fbs_stream f = \<lparr>rbytes = map fst (fbs_stamped f), rend = fbs_ending f\<rparr>"

text \<open>It is \<open>read_full\<close> on the stream, and the time is the one of the chunk with the last byte.\<close>

lemma fbs_full_run:
  "\<exists>f'. fbs_full n f = (fst (read_full n (fbs_stream f)), f') \<and> fbs_stream f' = snd (read_full n (fbs_stream f)) \<and>
    (n \<le> length (fbs_stamped f) \<longrightarrow> recording.took n f f')"
  using recording.read_loop_full [of n f] by (auto simp: fbs_full_def fbs_stream_def recording.strm_def)

lemma fbs_full_0 [simp]: "fbs_full 0 f = (Ok [], f)"
  by (simp add: fbs_full_def read_loop.simps)

section \<open>Chunks as they are written\<close>

definition fbs_chunk :: "u8 list \<times> u8 list \<Rightarrow> u8 list" where
  "fbs_chunk c = be32 (of_nat (length (fst c))) @ fst c @ snd c"

definition chunk_ok :: "u8 list \<times> u8 list \<Rightarrow> bool" where
  "chunk_ok c \<longleftrightarrow> fst c \<noteq> [] \<and> length (fst c) < 2 ^ 32 \<and> length (snd c) = 4"

lemma chunks_chunk:
  assumes "chunk_ok c"
  shows "chunks (fbs_chunk c @ bs) e = (case chunks bs e of (cs, e') \<Rightarrow> (c # cs, e'))"
proof -
  have "take 4 (fbs_chunk c @ bs) = be32 (of_nat (length (fst c)))" by (simp add: fbs_chunk_def)
  then have "unat (get_be32 (take 4 (fbs_chunk c @ bs))) = length (fst c)"
    using assms get_be32_be32 [of "of_nat (length (fst c))" "[]"]
    by (simp add: chunk_ok_def unat_of_nat take_bit_nat_eq_self)
  moreover have "drop (8 + length (fst c)) (fbs_chunk c @ bs) = bs"
    using assms by (simp add: fbs_chunk_def chunk_ok_def)
  moreover have "drop (4 + length (fst c)) (fbs_chunk c @ bs) = snd c @ bs" by (simp add: fbs_chunk_def)
  moreover have "drop 4 (fbs_chunk c @ bs) = fst c @ snd c @ bs" by (simp add: fbs_chunk_def)
  ultimately show ?thesis
    using assms by (subst chunks.simps) (auto simp: Let_def fbs_chunk_def chunk_ok_def)
qed

lemma chunks_concat:
  "list_all chunk_ok cs \<Longrightarrow> chunks (concat (map fbs_chunk cs) @ bs) e = (case chunks bs e of (ds, e') \<Rightarrow> (cs @ ds, e'))"
  by (induction cs) (auto simp: chunks_chunk split: prod.splits)

lemma chunks_written: "list_all chunk_ok cs \<Longrightarrow> chunks (concat (map fbs_chunk cs)) EOF = (cs, UnexpectedEOF)"
  using chunks_concat [of cs "[]" EOF] by (simp add: chunks.simps)

section \<open>bufio.Writer on a file\<close>

record out_file =
  ofile :: "u8 list"                        \<comment> \<open>what has reached the file\<close>
  ores :: "(goerr \<times> nat) option list"       \<comment> \<open>results of the coming writes of the file\<close>
  obuf :: "u8 list"
  oerr :: "goerr option"

definition bufio_size :: nat where
  "bufio_size = 4096"

text \<open>A write of the file: an error comes after some bytes; when the list is used up every write succeeds.\<close>

definition file_write :: "u8 list \<Rightarrow> out_file \<Rightarrow> (nat \<times> goerr option) \<times> out_file" where
  "file_write bs w =
     (case ores w of
        Some (e, n) # rs \<Rightarrow> ((min n (length bs), Some e), w\<lparr>ofile := ofile w @ take n bs, ores := rs\<rparr>)
      | None # rs \<Rightarrow> ((length bs, None), w\<lparr>ofile := ofile w @ bs, ores := rs\<rparr>)
      | [] \<Rightarrow> ((length bs, None), w\<lparr>ofile := ofile w @ bs\<rparr>))"

definition Flush :: "(out_file, unit) prog" where
  "Flush w =
     (case oerr w of
        Some e \<Rightarrow> (Err e, w)
      | None \<Rightarrow>
          if obuf w = [] then (Ok (), w)
          else (case file_write (obuf w) w of
              ((n, Some e), w') \<Rightarrow> (Err e, w'\<lparr>obuf := drop n (obuf w), oerr := Some e\<rparr>)
            | ((n, None), w') \<Rightarrow> (Ok (), w'\<lparr>obuf := []\<rparr>)))"

text \<open>
  The loop of \<open>Write\<close> while the bytes do not fit: past an empty buffer they go to the file at once, else the
  buffer is filled and flushed. Two rounds are enough, as the buffer is empty after the first.
\<close>

definition write_round :: "u8 list \<Rightarrow> (out_file, u8 list) prog" where
  "write_round p w =
     (case oerr w of
        Some e \<Rightarrow> (Err e, w)
      | None \<Rightarrow>
          if length p \<le> bufio_size - length (obuf w) then (Ok p, w)
          else if obuf w = []
          then (case file_write p w of
              ((n, Some e), w') \<Rightarrow> (Err e, w'\<lparr>oerr := Some e\<rparr>)
            | ((n, None), w') \<Rightarrow> (Ok [], w'))
          else
            let k = bufio_size - length (obuf w) in
            bindM Flush (\<lambda>_. ret (drop k p)) (w\<lparr>obuf := obuf w @ take k p\<rparr>))"

definition bufio_Write :: "u8 list \<Rightarrow> (out_file, unit) prog" where
  "bufio_Write p =
     bindM (write_round p) (\<lambda>p.
     bindM (write_round p) (\<lambda>p.
     bindM getS (\<lambda>w.
     case oerr w of Some e \<Rightarrow> fail e | None \<Rightarrow> modifyS (\<lambda>w. w\<lparr>obuf := obuf w @ p\<rparr>))))"

text \<open>All that has been written, in the file or on the way to it.\<close>

definition written :: "out_file \<Rightarrow> u8 list" where
  "written w = ofile w @ obuf w"

text \<open>
  A writer on a file that takes every write: no error, and nothing reaches the file before the buffer is full.
\<close>

definition calm :: "out_file \<Rightarrow> bool" where
  "calm w \<longleftrightarrow> oerr w = None \<and> ores w = [] \<and> length (obuf w) \<le> bufio_size \<and>
     (ofile w = [] \<or> bufio_size \<le> length (ofile w))"

lemma write_round_calm:
  assumes "calm w"
  shows "\<exists>q w'. write_round p w = (Ok q, w') \<and> calm w' \<and> written w' @ q = written w @ p \<and>
    (if length p \<le> bufio_size - length (obuf w) then q = p \<and> w' = w else obuf w' = []) \<and> (obuf w = [] \<longrightarrow>
      length q \<le> bufio_size - length (obuf w'))"
  using assms
  by (auto simp: calm_def write_round_def Let_def bindM_def Flush_def file_write_def written_def)

lemma bufio_Write_calm:
  assumes "calm w"
  shows "\<exists>w'. bufio_Write p w = (Ok (), w') \<and> calm w' \<and> written w' = written w @ p"
proof -
  from write_round_calm [OF assms, of p] obtain q w1 where
    1: "write_round p w = (Ok q, w1)" "calm w1" "written w1 @ q = written w @ p"
      "if length p \<le> bufio_size - length (obuf w) then q = p \<and> w1 = w else obuf w1 = []" by blast
  from write_round_calm [OF 1(2), of q] obtain q2 w2 where
    2: "write_round q w1 = (Ok q2, w2)" "calm w2" "written w2 @ q2 = written w1 @ q"
      "if length q \<le> bufio_size - length (obuf w1) then q2 = q \<and> w2 = w1 else obuf w2 = []"
      "obuf w1 = [] \<longrightarrow> length q2 \<le> bufio_size - length (obuf w2)" by blast
  have "length q2 \<le> bufio_size - length (obuf w2)"
    using 1(4) 2(4,5) by (auto split: if_splits)
  then have "calm (w2\<lparr>obuf := obuf w2 @ q2\<rparr>)" "written (w2\<lparr>obuf := obuf w2 @ q2\<rparr>) = written w @ p"
    using 2(2,3) 1(3) by (auto simp: calm_def written_def)
  moreover have "bufio_Write p w = (Ok (), w2\<lparr>obuf := obuf w2 @ q2\<rparr>)"
    using 1(1) 2(1,2) by (simp add: bufio_Write_def bindM_def calm_def)
  ultimately show ?thesis by blast
qed

lemma Flush_calm: "calm w \<Longrightarrow> Flush w = (Ok (), w\<lparr>ofile := written w, obuf := []\<rparr>)"
  by (cases w) (simp add: Flush_def calm_def file_write_def written_def)

end
