(* ===== verification/Transcode.thy ===== *)
theory Transcode
  imports Fbs Handshake
begin

text \<open>
  \<^verbatim>\<open>cmd/transcode/main.go\<close>: a recording of a server is rewritten so that its updates use the raw encoding only.
  First the program, from the header of the file to the exit; then what its output is: a recording that a
  client reads as the same messages at the same times, with raw pixels.
\<close>

section \<open>State and ends of the program\<close>

record ('i, 'z) transcoder =
  tin :: fbs
  tout :: out_file
  tconn :: "('i, 'z) server_client"

text \<open>\<open>log.Fatal\<close> and \<open>os.Exit\<close> end the process; deferred calls are not made.\<close>

definition fatal :: "('s, 'a) prog" where
  "fatal = fail (Exited 1)"

definition check :: "('s, 'a) prog \<Rightarrow> ('s, 'a) prog" where
  "check m s = (case m s of (Err e, s') \<Rightarrow> (Err (Exited 1), s') | r \<Rightarrow> r)"

definition from_file :: "(reader, 'a) prog \<Rightarrow> (('i, 'z, 'm) transcoder_scheme, 'a) prog" where
  "from_file m = zoom tin (\<lambda>f t. t\<lparr>tin := f\<rparr>) (fbs_file m)"

definition from_fbs :: "(fbs, 'a) prog \<Rightarrow> (('i, 'z, 'm) transcoder_scheme, 'a) prog" where
  "from_fbs = zoom tin (\<lambda>f t. t\<lparr>tin := f\<rparr>)"

text \<open>\<open>check(w.Write(bs))\<close>\<close>

definition out :: "u8 list \<Rightarrow> (('i, 'z, 'm) transcoder_scheme, unit) prog" where
  "out bs = check (zoom tout (\<lambda>w t. t\<lparr>tout := w\<rparr>) (bufio_Write bs))"

definition next_bytes :: "nat \<Rightarrow> (('i, 'z, 'm) transcoder_scheme, u8 list) prog" where
  "next_bytes n = check (from_fbs (fbs_full n))"

definition nextSafe :: "nat \<Rightarrow> (('i, 'z, 'm) transcoder_scheme, u8 list) prog" where
  "nextSafe n t =
     (case from_fbs (fbs_full n) t of
        (Err e, t') \<Rightarrow> (Err (Exited (if e = EOF \<or> e = UnexpectedEOF then 0 else 1)), t')
      | r \<Rightarrow> r)"

definition emit :: "u8 list \<Rightarrow> (('i, 'z, 'm) transcoder_scheme, unit) prog" where
  "emit bs =
     bindM (out (be32 (of_nat (length bs)))) (\<lambda>_.
     bindM (out bs) (\<lambda>_.
     bindM getS (\<lambda>t. out (ftime (tin t)))))"

section \<open>Header, handshake, ServerInit\<close>

definition fbs_version :: "u8 list" where
  "fbs_version = [70, 66, 83, 32, 48, 48, 49, 46, 48, 48, 50, 10]"

text \<open>\<open>ReadBytes\<close> of \<open>bufio.Reader\<close>: up to the delimiter, with it.\<close>

definition read_until :: "u8 \<Rightarrow> ('z reader_scheme, u8 list) prog" where
  "read_until d s =
     (if d \<in> set (rbytes s)
      then (Ok (takeWhile (\<lambda>b. b \<noteq> d) (rbytes s) @ [d]), s\<lparr>rbytes := tl (dropWhile (\<lambda>b. b \<noteq> d) (rbytes s))\<rparr>)
      else (Err (rend s), s\<lparr>rbytes := []\<rparr>))"

definition copy_header :: "(('i, 'z, 'm) transcoder_scheme, unit) prog" where
  "copy_header =
     bindM (check (from_file (read_full 12))) (\<lambda>version.
     if version \<noteq> fbs_version then fatal
     else
       bindM (out version) (\<lambda>_.
       bindM (check (from_file (read_until 10))) out))"

definition vncAuth :: "(('i, 'z, 'm) transcoder_scheme, unit) prog" where
  "vncAuth =
     bindM (next_bytes 16) (\<lambda>b. bindM (emit b) (\<lambda>_.
     bindM (next_bytes 4) (\<lambda>b. if get_be32 b \<noteq> 0 then fatal else emit b)))"

definition copy_handshake :: "(('i, 'z, 'm) transcoder_scheme, unit) prog" where
  "copy_handshake =
     bindM (next_bytes 12) (\<lambda>version.
     bindM (check (lift (ParseProtocolVersion version))) (\<lambda>(major, minor).
     if major \<noteq> 3 \<or> minor \<noteq> 3 then fatal
     else
       bindM (emit version) (\<lambda>_.
       bindM (if minor = 3
              then bindM (next_bytes 4) (\<lambda>b. if get_be32 b \<noteq> 2 then fatal else bindM (emit b) (\<lambda>_. vncAuth))
              else ret ()) (\<lambda>_.
       if minor = 8
       then bindM (next_bytes 1) (\<lambda>n. bindM (next_bytes (unat (n ! 0))) (\<lambda>bs. bindM (emit (n @ bs)) (\<lambda>_. vncAuth)))
       else ret ()))))"

definition copy_init :: "(('i, 'z, 'm) transcoder_scheme, pixel_format) prog" where
  "copy_init =
     bindM (next_bytes 24) (\<lambda>b.
     bindM (check (lift (fst (ReadPixelFormat zero_pf (\<lparr>rbytes = take 16 (drop 4 b), rend = EOF\<rparr> :: reader))))) (\<lambda>pf.
     if \<not> fbs_pf_ok pf then fatal
     else
       bindM (next_bytes (unat (get_be32 (take 4 (drop 20 b))))) (\<lambda>name.
       bindM (emit (b @ name)) (\<lambda>_. ret pf))))"

text \<open>The connection the decoders work on; \<open>i\<close> is an inflator that no encoding of it uses.\<close>

definition transcode_conn :: "'i \<Rightarrow> pixel_format \<Rightarrow> ('i, 'z) server_client" where
  "transcode_conn i pf =
     \<lparr>rbytes = [], rend = EOF, sent = [], wres = [], ColorMap = replicate 256 zero_color,
      Encs = [TightEncoding, RawEncoding, CursorEncoding], FramebufferWidth = 0, FramebufferHeight = 0,
      DesktopName = [], PixelFormat = pf, tSize = 0, tStreams = replicate 4 None,
      tStreamBufs = replicate 4 [], tReset = 0, tBuf = [], inflator = i\<rparr>"

section \<open>Messages\<close>

text \<open>
  A \<open>Read\<close> of the package run on the recording: it sees the stream, and the recording is moved on by the
  bytes it took (\<open>fbs_full_run\<close>: what the reader shows afterwards does not depend on how they were asked for).
\<close>

definition fbs_message ::
  "(('i, 'z) server_client, 'a) prog \<Rightarrow> (('i, 'z, 'm) transcoder_scheme, 'a) prog" where
  "fbs_message m t =
     (let s = fbs_stream (tin t) in
      case m ((tconn t)\<lparr>rend := rend s, rbytes := rbytes s\<rparr>) of
        (r, c) \<Rightarrow> (r, t\<lparr>tconn := c, tin := snd (fbs_full (length (rbytes s) - length (rbytes c)) (tin t))\<rparr>))"

fun rect_size :: "rectangle \<Rightarrow> nat" where
  "rect_size r = 12 + (case Enc r of CursorData b \<Rightarrow> length b | _ \<Rightarrow> Area r * 4)"

definition update_size :: "rectangle list \<Rightarrow> nat" where
  "update_size rects = 4 + sum_list (map rect_size rects)"

text \<open>The type switch over the encodings it knows; the colours stay nil for any other.\<close>

fun enc_pixels :: "enc_data \<Rightarrow> color list" where
  "enc_pixels (TightData cs _) = cs"
| "enc_pixels (RawData cs) = cs"
| "enc_pixels (CursorData _) = []"
| "enc_pixels (ZRLEData _ _) = []"

fun newEncType :: "enc_data \<Rightarrow> i32" where
  "newEncType (CursorData _) = enc_Type CursorEncoding"
| "newEncType _ = 0"

definition out_rect :: "pixel_format \<Rightarrow> rectangle \<Rightarrow> (('i, 'z, 'm) transcoder_scheme, unit) prog" where
  "out_rect pf r =
     bindM (forM [be16 (rX r), be16 (rY r), be16 (rWidth r), be16 (rHeight r), be32 (newEncType (Enc r))] out) (\<lambda>_.
     bindM (case Enc r of CursorData b \<Rightarrow> out b | _ \<Rightarrow> ret ()) (\<lambda>_.
     forM (enc_pixels (Enc r)) (\<lambda>c. out (transcode_pixel pf c))))"

definition out_update :: "u8 list \<Rightarrow> rectangle list \<Rightarrow> (('i, 'z, 'm) transcoder_scheme, unit) prog" where
  "out_update b rects =
     bindM getS (\<lambda>t.
     bindM (out (be32 (of_nat (update_size rects)))) (\<lambda>_.
     bindM (out b) (\<lambda>_.
     bindM (out [0]) (\<lambda>_.
     bindM (out (be16 (of_nat (length rects)))) (\<lambda>_.
     bindM (forM rects (out_rect (PixelFormat (tconn t)))) (\<lambda>_.
     out (ftime (tin t))))))))"

text \<open>One round of the loop; \<open>False\<close> is the \<open>return\<close> of \<open>main\<close>.\<close>

definition transcode_update :: "('i, 'z) libs \<Rightarrow> u8 list \<Rightarrow> (('i, 'z, 'm) transcoder_scheme, bool) prog" where
  "transcode_update L b t =
     (case fbs_message (FramebufferUpdate_Read L) t of
        (Err e, t') \<Rightarrow> if e = EOF \<or> e = UnexpectedEOF then (Ok False, t') else (Err (Exited 1), t')
      | (Ok (FramebufferUpdateMessage rects), t') \<Rightarrow> bindM (out_update b rects) (\<lambda>_. ret True) t'
      | (Ok _, t') \<Rightarrow> (Panic (PanicMessage ''interface conversion''), t')
      | (Panic p, t') \<Rightarrow> (Panic p, t')
      | (Diverge, t') \<Rightarrow> (Diverge, t'))"

definition transcode_switch :: "('i, 'z) libs \<Rightarrow> u8 list \<Rightarrow> (('i, 'z, 'm) transcoder_scheme, bool) prog" where
  "transcode_switch L b =
     (if b ! 0 = 0 then transcode_update L b
      else if b ! 0 = 1 then fatal
      else if b ! 0 = 2 then bindM (emit b) (\<lambda>_. ret True)
      else if b ! 0 = 3 then
        bindM (nextSafe 7) (\<lambda>b'.
        let h = b @ b' in
        bindM (nextSafe (unat (get_be32 (take 4 (drop 4 h))))) (\<lambda>b''.
        bindM (emit (h @ b'')) (\<lambda>_. ret True)))
      else fatal)"

definition transcode_message :: "('i, 'z) libs \<Rightarrow> (('i, 'z, 'm) transcoder_scheme, bool) prog" where
  "transcode_message L = bindM (nextSafe 1) (transcode_switch L)"

section \<open>What the parts of the program change\<close>

text \<open>Output leaves the recording and the connection alone; reading leaves the output alone.\<close>

definition out_only :: "('i, 'z, 'm) transcoder_scheme \<Rightarrow> ('i, 'z, 'm) transcoder_scheme \<Rightarrow> bool" where
  "out_only t t' \<longleftrightarrow> tin t' = tin t \<and> tconn t' = tconn t"

definition in_only :: "('i, 'z, 'm) transcoder_scheme \<Rightarrow> ('i, 'z, 'm) transcoder_scheme \<Rightarrow> bool" where
  "in_only t t' \<longleftrightarrow> tout t' = tout t \<and>
     (\<exists>k. fbs_stamped (tin t') = drop k (fbs_stamped (tin t))) \<and> fbs_ending (tin t') = fbs_ending (tin t) \<and>
     PixelFormat (tconn t') = PixelFormat (tconn t) \<and> Encs (tconn t') = Encs (tconn t)"

definition moves_on :: "('i, 'z, 'm) transcoder_scheme \<Rightarrow> ('i, 'z, 'm) transcoder_scheme \<Rightarrow> bool" where
  "moves_on t t' \<longleftrightarrow>
     (\<exists>k. fbs_stamped (tin t') = drop k (fbs_stamped (tin t))) \<and> fbs_ending (tin t') = fbs_ending (tin t) \<and>
     PixelFormat (tconn t') = PixelFormat (tconn t) \<and> Encs (tconn t') = Encs (tconn t)"

interpretation outs: frame out_only
  by unfold_locales (simp_all add: out_only_def)

interpretation moving: frame moves_on
proof unfold_locales
  show "moves_on t t" for t :: "('i, 'z, 'm) transcoder_scheme"
    by (auto simp: moves_on_def intro: exI [of _ 0])
qed (auto simp: moves_on_def)

lemma out_only_moves: "out_only t t' \<Longrightarrow> moves_on t t'"
  by (auto simp: out_only_def moves_on_def intro: exI [of _ 0])

lemma in_only_moves: "in_only t t' \<Longrightarrow> moves_on t t'"
  by (simp add: in_only_def moves_on_def)

lemma keeps_check: "keeps R m \<Longrightarrow> keeps R (check m)"
  by (auto simp: keeps_def check_def split: prod.split outcome.split) (metis snd_conv)+

lemma out_keeps: "keeps out_only (out bs)"
  unfolding out_def by (rule keeps_check) (auto simp: keeps_def zoom_def out_only_def split: prod.split)

lemma emit_keeps: "keeps out_only (emit bs)"
  unfolding emit_def by (intro outs.keeps_prog out_keeps)

lemma out_rect_keeps: "keeps out_only (out_rect pf r)"
  unfolding out_rect_def
  by (intro outs.keeps_prog outs.keeps_forM out_keeps) (auto split: enc_data.split intro: outs.keeps_prog out_keeps)

lemma out_update_keeps: "keeps out_only (out_update b rects)"
  unfolding out_update_def by (intro outs.keeps_prog outs.keeps_forM out_keeps out_rect_keeps)

lemma fbs_full_drop:
  "fbs_full n f = (r, f') \<Longrightarrow>
    (\<exists>k. fbs_stamped f' = drop k (fbs_stamped f)) \<and> fbs_ending f' = fbs_ending f"
proof -
  assume r: "fbs_full n f = (r, f')"
  from fbs_full_run [of n f] r have f': "fbs_stream f' = snd (read_full n (fbs_stream f))"
    "n \<le> length (fbs_stamped f) \<longrightarrow> recording.took n f f'" by auto
  show ?thesis
  proof (cases "n \<le> length (fbs_stamped f)")
    case True
    then show ?thesis using f'(2) by (auto simp: recording.took_def)
  next
    case False
    then have "fbs_stamped f' = []" "fbs_ending f' = fbs_ending f"
      using f'(1) by (auto simp: fbs_stream_def read_full_def)
    then show ?thesis by (auto intro: exI [of _ "length (fbs_stamped f)"])
  qed
qed

lemma from_fbs_keeps: "keeps in_only (from_fbs (fbs_full n))"
  unfolding keeps_def from_fbs_def zoom_def by (auto simp: in_only_def split: prod.split dest!: fbs_full_drop)

lemma next_bytes_keeps: "keeps in_only (next_bytes n)"
  unfolding next_bytes_def by (rule keeps_check [OF from_fbs_keeps])

lemma nextSafe_keeps: "keeps in_only (nextSafe n)"
  using from_fbs_keeps [of n, where 'a = 'a and 'b = 'b and 'c = 'c]
  by (auto simp: keeps_def nextSafe_def split: prod.split outcome.split) (metis snd_conv)+

lemma fbs_message_keeps:
  fixes m :: "(('i, 'z) server_client, 'a) prog"
  shows "keeps consumed m \<Longrightarrow> keeps in_only (fbs_message m)"
  unfolding keeps_def
proof
  fix t :: "('i, 'z, 'm) transcoder_scheme"
  assume m: "\<forall>s. consumed s (snd (m s))"
  let ?s = "fbs_stream (tin t)"
  obtain r c where rc: "m ((tconn t)\<lparr>rend := rend ?s, rbytes := rbytes ?s\<rparr>) = (r, c)" by fastforce
  with m have "consumed ((tconn t)\<lparr>rend := rend ?s, rbytes := rbytes ?s\<rparr>) c" by (metis snd_conv)
  moreover obtain x f' where "fbs_full (length (rbytes ?s) - length (rbytes c)) (tin t) = (x, f')" by fastforce
  ultimately show "in_only t (snd (fbs_message m t))"
    using rc by (auto simp: fbs_message_def Let_def in_only_def consumed_def dest: fbs_full_drop)
qed

section \<open>What is written\<close>

text \<open>On a file that takes every write, output adds its bytes and changes nothing else.\<close>

definition puts :: "(('i, 'z, 'm) transcoder_scheme, unit) prog \<Rightarrow> u8 list \<Rightarrow> bool" where
  "puts m bs \<longleftrightarrow> (\<forall>t. calm (tout t) \<longrightarrow>
     (\<exists>w. m t = (Ok (), t\<lparr>tout := w\<rparr>) \<and> calm w \<and> written w = written (tout t) @ bs))"

lemma putsD:
  assumes "puts m bs" and "calm (tout t)"
  obtains w where "m t = (Ok (), t\<lparr>tout := w\<rparr>)" and "calm w" and "written w = written (tout t) @ bs"
  using assms by (auto simp: puts_def)

lemma puts_ret: "puts (ret ()) []"
  unfolding puts_def
proof (intro allI impI)
  fix t :: "('i, 'z, 'm) transcoder_scheme"
  assume "calm (tout t)"
  then show "\<exists>w. ret () t = (Ok (), t\<lparr>tout := w\<rparr>) \<and> calm w \<and> written w = written (tout t) @ []"
    by (intro exI [of _ "tout t"]) simp
qed

lemma puts_out: "puts (out bs) bs"
  unfolding puts_def
proof (intro allI impI)
  fix t :: "('i, 'z, 'm) transcoder_scheme"
  assume "calm (tout t)"
  from bufio_Write_calm [OF this, of bs] show
    "\<exists>w. out bs t = (Ok (), t\<lparr>tout := w\<rparr>) \<and> calm w \<and> written w = written (tout t) @ bs"
    by (auto simp: out_def check_def zoom_def)
qed

lemma puts_bindM:
  fixes m n :: "(('i, 'z, 'm) transcoder_scheme, unit) prog"
  assumes "puts m bs" and "puts n cs"
  shows "puts (bindM m (\<lambda>_. n)) (bs @ cs)"
  unfolding puts_def
proof (intro allI impI)
  fix t :: "('i, 'z, 'm) transcoder_scheme"
  assume "calm (tout t)"
  from putsD [OF assms(1) this] obtain w where
    w: "m t = (Ok (), t\<lparr>tout := w\<rparr>)" "calm w" "written w = written (tout t) @ bs" .
  have "calm (tout (t\<lparr>tout := w\<rparr>))" using w(2) by simp
  from putsD [OF assms(2) this] obtain v where
    "n (t\<lparr>tout := w\<rparr>) = (Ok (), t\<lparr>tout := w\<rparr>\<lparr>tout := v\<rparr>)" "calm v" "written v = written w @ cs" by auto
  then show "\<exists>v. bindM m (\<lambda>_. n) t = (Ok (), t\<lparr>tout := v\<rparr>) \<and> calm v \<and> written v = written (tout t) @ bs @ cs"
    using w(1,3) by (intro exI [of _ v]) (simp add: bindM_def)
qed

lemma puts_forM: "(\<And>x. puts (f x) (g x)) \<Longrightarrow> puts (forM xs f) (concat (map g xs))"
  by (induction xs) (auto intro: puts_ret puts_bindM)

lemma puts_getS: "(\<And>t. calm (tout t) \<Longrightarrow> puts (f t) bs) \<Longrightarrow> puts (bindM getS f) bs"
  by (simp add: puts_def bindM_def)

definition rect_bytes :: "pixel_format \<Rightarrow> rectangle \<Rightarrow> u8 list" where
  "rect_bytes pf r =
     be16 (rX r) @ be16 (rY r) @ be16 (rWidth r) @ be16 (rHeight r) @ be32 (newEncType (Enc r)) @
     (case Enc r of CursorData b \<Rightarrow> b | _ \<Rightarrow> []) @ concat (map (transcode_pixel pf) (enc_pixels (Enc r)))"

definition update_bytes :: "pixel_format \<Rightarrow> rectangle list \<Rightarrow> u8 list" where
  "update_bytes pf rects = [0, 0] @ be16 (of_nat (length rects)) @ concat (map (rect_bytes pf) rects)"

lemma puts_out_rect: "puts (out_rect pf r) (rect_bytes pf r)"
proof -
  let ?head = "[be16 (rX r), be16 (rY r), be16 (rWidth r), be16 (rHeight r), be32 (newEncType (Enc r))]"
  have 1: "puts (forM ?head out) (concat (map id ?head))"
    by (intro puts_forM) (simp add: puts_out)
  have 2: "puts (case Enc r of CursorData b \<Rightarrow> out b | _ \<Rightarrow> ret ()) (case Enc r of CursorData b \<Rightarrow> b | _ \<Rightarrow> [])"
    by (auto split: enc_data.split intro: puts_ret puts_out)
  have 3: "puts (forM (enc_pixels (Enc r)) (\<lambda>c. out (transcode_pixel pf c)))
      (concat (map (transcode_pixel pf) (enc_pixels (Enc r))))"
    by (intro puts_forM puts_out)
  have "rect_bytes pf r = concat (map id ?head) @ (case Enc r of CursorData b \<Rightarrow> b | _ \<Rightarrow> []) @
      concat (map (transcode_pixel pf) (enc_pixels (Enc r)))"
    by (simp add: rect_bytes_def)
  then show ?thesis unfolding out_rect_def by (simp only: puts_bindM [OF 1 puts_bindM [OF 2 3]])
qed

lemma puts_out_rects: "puts (forM rects (out_rect pf)) (concat (map (rect_bytes pf) rects))"
  by (rule puts_forM [OF puts_out_rect])

text \<open>A chunk: the size, the bytes and the time of the recording.\<close>

lemma emit_run:
  assumes "calm (tout t)"
  obtains w where "emit bs t = (Ok (), t\<lparr>tout := w\<rparr>)" and "calm w"
    and "written w = written (tout t) @ fbs_chunk (bs, ftime (tin t))"
proof -
  from putsD [OF puts_bindM [OF puts_out puts_out] assms, of "be32 (of_nat (length bs))" bs] obtain v where
    v: "bindM (out (be32 (of_nat (length bs)))) (\<lambda>_. out bs) t = (Ok (), t\<lparr>tout := v\<rparr>)" "calm v"
      "written v = written (tout t) @ be32 (of_nat (length bs)) @ bs" .
  have "calm (tout (t\<lparr>tout := v\<rparr>))" using v(2) by simp
  from putsD [OF puts_out this, of "ftime (tin t)"] obtain w where
    w: "out (ftime (tin t)) (t\<lparr>tout := v\<rparr>) = (Ok (), t\<lparr>tout := w\<rparr>)" "calm w" "written w = written v @ ftime (tin t)"
    by auto
  have "emit bs t = bindM (bindM (out (be32 (of_nat (length bs)))) (\<lambda>_. out bs)) (\<lambda>_. bindM getS (\<lambda>t. out (ftime (tin t)))) t"
    by (simp add: emit_def bindM_assoc)
  also have "\<dots> = (Ok (), t\<lparr>tout := w\<rparr>)" using w(1) by (simp add: bindM_def v(1) [unfolded bindM_def])
  finally show thesis by (rule that) (simp_all add: v(3) w(2,3) fbs_chunk_def)
qed

lemma out_update_run:
  assumes "calm (tout t)"
  obtains w where "out_update [0] rects t = (Ok (), t\<lparr>tout := w\<rparr>)" and "calm w"
    and "written w = written (tout t) @ be32 (of_nat (update_size rects)) @
      update_bytes (PixelFormat (tconn t)) rects @ ftime (tin t)"
proof -
  let ?pf = "PixelFormat (tconn t)"
  note put = puts_bindM [OF puts_out [of "be32 (of_nat (update_size rects))"] puts_bindM [OF puts_out [of "[0]"]
    puts_bindM [OF puts_out [of "[0]"] puts_bindM [OF puts_out [of "be16 (of_nat (length rects))"]
    puts_bindM [OF puts_out_rects [of rects ?pf] puts_out [of "ftime (tin t)"]]]]]]
  from putsD [OF put assms] that show thesis
    by (auto simp: out_update_def bindM_def [of getS] update_bytes_def)
qed

section \<open>The loop\<close>

lemma from_fbs_Ok:
  assumes "from_fbs (fbs_full n) t = (Ok bs, t')"
  shows "n \<le> length (fbs_stamped (tin t)) \<and> bs = map fst (take n (fbs_stamped (tin t))) \<and>
    recording.took n (tin t) (tin t') \<and> tout t' = tout t \<and> tconn t' = tconn t"
proof -
  obtain f' where f': "fbs_full n (tin t) = (Ok bs, f')" "t' = t\<lparr>tin := f'\<rparr>"
    using assms by (auto simp: from_fbs_def zoom_def split: prod.splits)
  with fbs_full_run [of n "tin t"] have r: "fst (read_full n (fbs_stream (tin t))) = Ok bs"
    "n \<le> length (fbs_stamped (tin t)) \<longrightarrow> recording.took n (tin t) f'" by auto
  have "n \<le> length (fbs_stamped (tin t))" "bs = map fst (take n (fbs_stamped (tin t)))"
    using r(1) by (auto simp: read_full_def fbs_stream_def take_map split: if_splits)
  with r(2) f'(2) show ?thesis by simp
qed

lemma nextSafe_Ok: "nextSafe n t = (Ok bs, t') \<Longrightarrow> from_fbs (fbs_full n) t = (Ok bs, t')"
  by (auto simp: nextSafe_def split: prod.splits outcome.splits)

lemma out_update_moves: "keeps moves_on (out_update b rects)"
  using out_update_keeps out_only_moves unfolding keeps_def by blast

lemma transcode_update_moves:
  fixes L :: "('i, 'z) libs"
  shows "keeps moves_on (transcode_update L b)"
  unfolding keeps_def
proof
  fix t :: "('i, 'z, 'm) transcoder_scheme"
  have c: "keeps consumed (FramebufferUpdate_Read L :: (('i, 'z) server_client, server_msg) prog)"
    by (rule consumed_server_Read [of L 0]) (simp add: server_Read.simps)
  have m: "moves_on t t1" if "fbs_message (FramebufferUpdate_Read L) t = (r, t1)" for r t1
    by (rule in_only_moves [OF keepsD [OF fbs_message_keeps [OF c] that]])
  have "moves_on t1 (snd (bindM (out_update b rects) (\<lambda>_. ret True) t1))"
    for rects and t1 :: "('i, 'z, 'm) transcoder_scheme"
  proof -
    have "keeps moves_on (bindM (out_update b rects) (\<lambda>_. ret True) :: (('i, 'z, 'm) transcoder_scheme, bool) prog)"
      by (intro moving.keeps_prog out_update_moves)
    then show ?thesis by (simp add: keeps_def)
  qed
  moreover obtain r t1 where r: "fbs_message (FramebufferUpdate_Read L) t = (r, t1)" by fastforce
  moreover note m [OF r]
  ultimately show "moves_on t (snd (transcode_update L b t))"
    unfolding transcode_update_def
    by (cases r) (auto split: server_msg.split intro: moving.trans [OF m [OF r]])
qed

lemma nextSafe_moves: "keeps moves_on (nextSafe n)"
  using nextSafe_keeps in_only_moves unfolding keeps_def by blast

lemma emit_moves: "keeps moves_on (emit b)"
  using emit_keeps out_only_moves unfolding keeps_def by blast

lemma transcode_switch_moves: "keeps moves_on (transcode_switch L b)"
  unfolding transcode_switch_def fatal_def Let_def
  by (intro moving.keeps_prog nextSafe_moves emit_moves transcode_update_moves)

lemma transcode_message_moves: "keeps moves_on (transcode_message L)"
  unfolding transcode_message_def by (intro moving.keeps_prog nextSafe_moves transcode_switch_moves)

lemma transcode_message_eats:
  assumes "transcode_message L t = (Ok b, t')"
  shows "length (fbs_stamped (tin t')) < length (fbs_stamped (tin t))"
proof -
  obtain x t1 where r: "nextSafe 1 t = (Ok x, t1)" "transcode_switch L x t1 = (Ok b, t')"
    using assms unfolding transcode_message_def by (elim bindM_OkE)
  have "moves_on t1 t'" by (rule keepsD [OF transcode_switch_moves r(2)])
  then have "length (fbs_stamped (tin t')) \<le> length (fbs_stamped (tin t1))" by (auto simp: moves_on_def)
  moreover from from_fbs_Ok [OF nextSafe_Ok [OF r(1)]]
  have "length (fbs_stamped (tin t1)) < length (fbs_stamped (tin t))" by (auto simp: recording.took_def)
  ultimately show ?thesis by simp
qed

text \<open>Every round takes bytes from the recording, so the loop ends.\<close>

function transcode_loop :: "('i, 'z) libs \<Rightarrow> (('i, 'z, 'm) transcoder_scheme, unit) prog" where
  "transcode_loop L t =
     (case transcode_message L t of
        (Ok True, t') \<Rightarrow> transcode_loop L t'
      | (Ok False, t') \<Rightarrow> (Ok (), t')
      | (Err e, t') \<Rightarrow> (Err e, t')
      | (Panic p, t') \<Rightarrow> (Panic p, t')
      | (Diverge, t') \<Rightarrow> (Diverge, t'))"
  by pat_completeness auto
termination
  by (relation "measure (\<lambda>(L, t). length (fbs_stamped (tin t)))") (auto intro: transcode_message_eats sym)

declare transcode_loop.simps [simp del]

section \<open>The program\<close>

definition transcode_main :: "('i, 'z) libs \<Rightarrow> 'i \<Rightarrow> (('i, 'z) transcoder, unit) prog" where
  "transcode_main L i =
     bindM copy_header (\<lambda>_.
     bindM copy_handshake (\<lambda>_.
     bindM copy_init (\<lambda>pf.
     bindM (modifyS (\<lambda>t. t\<lparr>tconn := transcode_conn i pf\<rparr>)) (\<lambda>_.
     transcode_loop L))))"

definition transcode_start :: "'i \<Rightarrow> reader \<Rightarrow> (goerr \<times> nat) option list \<Rightarrow> ('i, 'z) transcoder" where
  "transcode_start i file rs =
     \<lparr>tin = \<lparr>ffile = file, fbuf = [], ftime = [0, 0, 0, 0], ferr = None\<rparr>,
      tout = \<lparr>ofile = [], ores = rs, obuf = [], oerr = None\<rparr>,
      tconn = transcode_conn i zero_pf\<rparr>"

text \<open>
  The code of the process and what is in the output file. A \<open>return\<close> and a panic run the deferred \<open>Flush\<close>, an
  exit does not.
\<close>

definition transcode :: "('i, 'z) libs \<Rightarrow> 'i \<Rightarrow> reader \<Rightarrow> (goerr \<times> nat) option list \<Rightarrow> nat option \<times> u8 list" where
  "transcode L i file rs =
     (case transcode_main L i (transcode_start i file rs) of
        (Ok _, t) \<Rightarrow> (Some 0, ofile (snd (Flush (tout t))))
      | (Err e, t) \<Rightarrow> (Some (case e of Exited n \<Rightarrow> n | _ \<Rightarrow> 1), ofile (tout t))
      | (Panic p, t) \<Rightarrow> (Some 2, ofile (snd (Flush (tout t))))
      | (Diverge, t) \<Rightarrow> (None, ofile (tout t)))"

end
