(* ===== verification/TranscodeEnds.thy ===== *)
theory TranscodeEnds
  imports Transcode
begin

text \<open>
  How the transcoder ends: it always does, with an exit code, and what of its output is in the file then.
\<close>

section \<open>It ends\<close>

text \<open>No call waits for ever, and every error value has become an exit.\<close>

fun ending_ok :: "'a outcome \<Rightarrow> bool" where
  "ending_ok (Err e) = (\<exists>n. e = Exited n)"
| "ending_ok Diverge = False"
| "ending_ok _ = True"

definition exits :: "('s, 'a) prog \<Rightarrow> bool" where
  "exits m \<longleftrightarrow> (\<forall>s. ending_ok (fst (m s)))"

lemma exitsI: "(\<And>s r s'. m s = (r, s') \<Longrightarrow> ending_ok r) \<Longrightarrow> exits m"
  by (simp add: exits_def) (metis prod.collapse)

lemma exitsD: "exits m \<Longrightarrow> m s = (r, s') \<Longrightarrow> ending_ok r"
  by (metis exits_def fst_conv)

lemma exits_prog:
  "exits (ret a)" "exits fatal" "exits getS" "exits (modifyS f)"
  by (simp_all add: exits_def fatal_def)

lemma exits_bindM:
  assumes "exits m" and "\<And>a. exits (f a)"
  shows "exits (bindM m f)"
proof (rule exitsI)
  fix s r s' assume b: "bindM m f s = (r, s')"
  obtain r1 s1 where m: "m s = (r1, s1)" by (cases "m s")
  show "ending_ok r" using b exitsD [OF assms(1) m] exitsD [OF assms(2)] by (cases r1) (auto simp: bindM_def m)
qed

lemma exits_if: "exits m \<Longrightarrow> exits n \<Longrightarrow> exits (if b then m else n)"
  by simp

lemma exits_prod: "(\<And>a b. exits (f a b)) \<Longrightarrow> exits (case p of (a, b) \<Rightarrow> f a b)"
  by (cases p) simp

lemma exits_forM: "(\<And>x. exits (f x)) \<Longrightarrow> exits (forM xs f)"
  by (induction xs) (auto intro: exits_prog exits_bindM)

lemma returns_cases: "returns m \<Longrightarrow> m s = (r, s') \<Longrightarrow> r \<noteq> Diverge"
  by (auto dest: returnsD)

lemma exits_check:
  assumes "returns m"
  shows "exits (check m)"
proof (rule exitsI)
  fix s r s' assume c: "check m s = (r, s')"
  obtain r1 s1 where m: "m s = (r1, s1)" by (cases "m s")
  show "ending_ok r" using c returns_cases [OF assms m] by (cases r1) (auto simp: check_def m)
qed

lemma returns_zoom: "returns m \<Longrightarrow> returns (zoom g u m)"
  by (simp add: gives_def zoom_def split: prod.split) (metis fst_conv)

lemma returns_bufio: "returns (bufio_Write bs)"
proof -
  have r: "returns (write_round p)" for p
    by (auto simp: gives_def write_round_def Let_def bindM_def Flush_def split: option.split prod.split)
  show ?thesis
    unfolding bufio_Write_def
    by (intro gives_then [OF r] gives_then [OF returns_state(1)]) (simp add: gives_def split: option.split)
qed

lemma returns_fbs_full: "returns (fbs_full n)"
proof -
  have "fst (fbs_full n f) \<noteq> Diverge" for f
  proof -
    from fbs_full_run [of n f] have "fst (fbs_full n f) = fst (read_full n (fbs_stream f))" by auto
    then show ?thesis by (simp add: read_full_def)
  qed
  then show ?thesis by (simp add: gives_def yields_True)
qed

lemma exits_out: "exits (out bs)"
  unfolding out_def by (rule exits_check [OF returns_zoom [OF returns_bufio]])

lemma exits_emit: "exits (emit bs)"
  unfolding emit_def by (intro exits_bindM exits_prog exits_out)

lemma returns_from_fbs: "returns (from_fbs (fbs_full n))"
  unfolding from_fbs_def by (rule returns_zoom [OF returns_fbs_full])

lemma exits_next: "exits (next_bytes n)"
  unfolding next_bytes_def by (rule exits_check [OF returns_from_fbs])

lemma exits_nextSafe: "exits (nextSafe n)"
proof (rule exitsI)
  fix s r s' assume c: "nextSafe n s = (r, s')"
  obtain r1 s1 where m: "from_fbs (fbs_full n) s = (r1, s1)" by fastforce
  show "ending_ok r" using c returns_cases [OF returns_from_fbs m] by (cases r1) (auto simp: nextSafe_def m)
qed

lemma exits_out_update: "exits (out_update b rects)"
proof -
  have "exits (out_rect pf r)" for pf r
    unfolding out_rect_def
    by (intro exits_bindM exits_forM exits_out) (auto split: enc_data.split intro: exits_prog exits_out)
  then show ?thesis
    unfolding out_update_def by (intro exits_bindM exits_prog exits_forM exits_out)
qed

lemma exits_update:
  fixes L :: "('i, 'z) libs"
  assumes "libs_return L"
  shows "exits (transcode_update L b)"
proof (rule exitsI)
  fix t t' :: "('i, 'z, 'm) transcoder_scheme" and r
  assume u: "transcode_update L b t = (r, t')"
  have "gives msg_sane (FramebufferUpdate_Read L :: (('i, 'z) server_client, server_msg) prog)"
    by (rule server_Read_gives [OF assms, of 0]) (simp add: server_Read.simps)
  then have rd: "returns (FramebufferUpdate_Read L :: (('i, 'z) server_client, server_msg) prog)"
    by (rule gives_returns)
  obtain r1 t1 where r1: "fbs_message (FramebufferUpdate_Read L) t = (r1, t1)" by fastforce
  have "r1 \<noteq> Diverge"
    using r1 returns_cases [OF rd] by (auto simp: fbs_message_def Let_def split: prod.splits)
  moreover have "exits (bindM (out_update b rects) (\<lambda>_. ret True))" for rects
    by (intro exits_bindM exits_prog exits_out_update)
  ultimately show "ending_ok r"
    using u r1 by (cases r1) (auto simp: transcode_update_def dest: exitsD split: server_msg.splits if_splits)
qed

lemma exits_message:
  assumes "libs_return L"
  shows "exits (transcode_message L)"
proof -
  have "exits (transcode_switch L b)" for b
    unfolding transcode_switch_def Let_def
    by (intro exits_if exits_bindM exits_prog exits_emit exits_nextSafe exits_update [OF assms])
  then show ?thesis unfolding transcode_message_def by (intro exits_bindM exits_nextSafe)
qed

lemma exits_loop_aux: "libs_return L \<Longrightarrow> ending_ok (fst (transcode_loop L t))"
proof (induction L t rule: transcode_loop.induct)
  case (1 L t)
  obtain r t1 where r: "transcode_message L t = (r, t1)" by fastforce
  have e: "ending_ok r" by (rule exitsD [OF exits_message [OF "1.prems"] r])
  show ?case
  proof (cases "r = Ok True")
    case True
    with "1.IH" [OF _ refl refl "1.prems"] r show ?thesis by (subst transcode_loop.simps) auto
  next
    case False
    then show ?thesis using e r by (subst transcode_loop.simps) (cases r; auto split: bool.split)
  qed
qed

lemma exits_loop: "libs_return L \<Longrightarrow> exits (transcode_loop L)"
  by (simp add: exits_def exits_loop_aux)

lemma exits_main:
  assumes "libs_return L"
  shows "exits (transcode_main L i)"
proof -
  have src: "exits (check (from_file m))" if "returns m" for m
    unfolding from_file_def fbs_file_def by (intro exits_check returns_zoom that)
  have until: "returns (read_until d)" for d
    by (simp add: gives_def read_until_def)
  have parse: "returns (lift (ParseProtocolVersion v))" for v
    by (auto simp: gives_def lift_def ParseProtocolVersion_def split: option.split)
  have fields: "returns (lift (fst (ReadPixelFormat zero_pf r)))" for r :: reader
  proof -
    have f: "returns (read_pf_fields res)" for res
      unfolding read_pf_fields_def read_pf_color_def Let_def
      by (intro gives_then [OF gives_reads(3)] gives_then [OF gives_reads(4)] gives_if gives_ret) simp_all
    have "returns (ReadPixelFormat zero_pf :: (reader, pixel_format) prog)"
      unfolding ReadPixelFormat_def
      by (intro gives_then [OF gives_reads(1)]) (use f in \<open>simp add: gives_def lift_def\<close>)
    then show ?thesis by (simp add: gives_def lift_def)
  qed
  show ?thesis
    unfolding transcode_main_def copy_header_def copy_handshake_def copy_init_def vncAuth_def
    by (intro exits_bindM exits_if exits_prod exits_prog exits_next exits_emit exits_out exits_loop [OF assms]
        src until gives_reads exits_check parse fields)
qed

section \<open>What is in the file at the end\<close>

definition calms :: "('i, 'z, 'm) transcoder_scheme \<Rightarrow> ('i, 'z, 'm) transcoder_scheme \<Rightarrow> bool" where
  "calms t t' \<longleftrightarrow> (calm (tout t) \<longrightarrow> calm (tout t'))"

interpretation calming: frame calms
  by unfold_locales (simp_all add: calms_def)

lemma calm_out: "calm (tout t) \<Longrightarrow> calm (tout (snd (out bs t)))"
  by (rule putsD [where t = t, OF puts_out [of bs]]) simp_all

lemma calms_out: "keeps calms (out bs)"
  by (simp add: keeps_def calms_def calm_out)

lemma keeps_prod: "(\<And>a b. keeps R (f a b)) \<Longrightarrow> keeps R (case p of (a, b) \<Rightarrow> f a b)"
  by (cases p) simp

lemma calms_in: "keeps in_only m \<Longrightarrow> keeps calms m"
  by (simp add: keeps_def in_only_def calms_def)

lemmas calms_reads = calms_in [OF next_bytes_keeps] calms_in [OF nextSafe_keeps]

lemma calms_file: "keeps calms (check (from_file m))"
  unfolding from_file_def
  by (rule keeps_check) (auto simp: keeps_def zoom_def calms_def split: prod.split)

lemma calms_emit: "keeps calms (emit bs)"
  unfolding emit_def by (intro calming.keeps_prog calms_out)

lemma calms_out_update: "keeps calms (out_update b rects)"
proof -
  have "keeps calms (out_rect pf r)" for pf r
    unfolding out_rect_def
    by (intro calming.keeps_prog calming.keeps_forM calms_out) (auto split: enc_data.split intro: calming.keeps_prog calms_out)
  then show ?thesis
    unfolding out_update_def by (intro calming.keeps_prog calming.keeps_forM calms_out)
qed

lemma calms_written: "keeps calms (bindM (out_update b rects) (\<lambda>_. ret True))"
  by (intro calming.keeps_prog calms_out_update)

lemma calms_update: "keeps calms (transcode_update L b)"
  unfolding keeps_def
proof
  fix t
  obtain r t1 where r: "fbs_message (FramebufferUpdate_Read L) t = (r, t1)" by fastforce
  have "tout t1 = tout t" using r by (auto simp: fbs_message_def Let_def split: prod.splits)
  then show "calms t (snd (transcode_update L b t))"
    using r by (cases r) (auto simp: transcode_update_def calms_def split: server_msg.split
        intro!: calms_written [unfolded keeps_def calms_def, rule_format])
qed

lemma calms_message: "keeps calms (transcode_message L)"
  unfolding transcode_message_def transcode_switch_def fatal_def Let_def
  by (intro calming.keeps_prog calms_reads calms_emit calms_update)

lemma calms_loop: "calms t (snd (transcode_loop L t))"
proof (induction L t rule: transcode_loop.induct)
  case (1 L t)
  obtain r t1 where r: "transcode_message L t = (r, t1)" by fastforce
  have c: "calms t t1" by (rule keepsD [OF calms_message r])
  show ?case
  proof (cases "r = Ok True")
    case True
    with "1.IH" r c show ?thesis by (subst transcode_loop.simps) (auto intro: calming.trans)
  next
    case False
    then show ?thesis using c r by (subst transcode_loop.simps) (cases r; auto split: bool.split)
  qed
qed

lemma calms_conn: "keeps calms (modifyS (\<lambda>t. t\<lparr>tconn := c\<rparr>))"
  by (simp add: keeps_def calms_def)

lemma calms_loop': "keeps calms (transcode_loop L)"
  by (simp add: keeps_def calms_loop)

lemma calms_main: "keeps calms (transcode_main L i)"
  unfolding transcode_main_def copy_header_def copy_handshake_def copy_init_def vncAuth_def fatal_def
  by (intro calming.keeps_ret calming.keeps_fail calming.keeps_lift calming.keeps_bindM keeps_if keeps_prod
      calms_conn calms_loop' calms_reads calms_emit calms_out calms_file keeps_check)

text \<open>
  (C37) The transcoder always ends, whatever recording it is given and however writing its output fails, if the
  libraries come back from their calls: it reaches an exit code, 0, 1 or that of a panic.
\<close>

theorem transcode_ends:
  assumes "libs_return L"
  shows "\<exists>code out_bytes. transcode L i file rs = (Some code, out_bytes)"
proof -
  obtain r t where r: "transcode_main L i (transcode_start i file rs) = (r, t)"
    by (cases "transcode_main L i (transcode_start i file rs)")
  have "ending_ok r" by (rule exitsD [OF exits_main [OF assms] r])
  then show ?thesis using r by (cases r) (simp_all add: transcode_def)
qed

theorem transcode_ends_witness:
  "\<exists>code out_bytes. transcode demo_libs () \<lparr>rbytes = fbs_version @ [123, 125], rend = EOF\<rparr> [Some (NetError 28, 7)] =
     (Some code, out_bytes)"
  by (rule transcode_ends [OF demo_libs_return])

text \<open>
  (C38) An exit loses what is still in the buffer, even the exit with code 0 that is the regular end of a recording:
  when the output is shorter than the buffer the file stays empty, and else its last part is missing.
\<close>

theorem transcode_loses_tail:
  assumes "transcode_main L i (transcode_start i file []) = (Err (Exited n), t)"
  shows "\<exists>lost. transcode L i file [] = (Some n, ofile (tout t)) \<and>
    written (tout t) = ofile (tout t) @ lost \<and> length lost \<le> 4096 \<and>
    (length (written (tout t)) < 4096 \<longrightarrow> snd (transcode L i file []) = [])"
proof -
  have "calm (tout t)"
    using keepsD [OF calms_main assms] by (simp add: calms_def transcode_start_def calm_def)
  then show ?thesis
    using assms by (intro exI [of _ "obuf (tout t)"]) (auto simp: transcode_def written_def calm_def bufio_size_def)
qed

end
