(* ===== verification/TranscodeRun.thy ===== *)
theory TranscodeRun
  imports TranscodeEnds "HOL-Library.Sublist"
begin

text \<open>
  What the transcoder writes for a recording: chunk by chunk the same messages at the same times, every update in
  the raw encoding. First how a client reads the bytes that are written, then the run of the program.
\<close>

section \<open>Raw updates are read back\<close>

definition cursor_size :: "rectangle \<Rightarrow> nat" where
  "cursor_size r = Area r * 4 + unat (rWidth r + 7) div 8 * unat (rHeight r)"

text \<open>A rectangle as the decoders of the transcoder return it.\<close>

definition rect_read :: "rectangle \<Rightarrow> bool" where
  "rect_read r \<longleftrightarrow> \<not> excessive_rect r \<and>
     (case Enc r of
        RawData cs \<Rightarrow> length cs = Area r
      | TightData cs _ \<Rightarrow> length cs = Area r
      | CursorData b \<Rightarrow> length b = cursor_size r
      | ZRLEData _ _ \<Rightarrow> False)"

definition raw_rect :: "rectangle \<Rightarrow> rectangle" where
  "raw_rect r = r\<lparr>Enc := (case Enc r of CursorData b \<Rightarrow> CursorData b | e \<Rightarrow> RawData (enc_pixels e))\<rparr>"

definition transcode_encs :: "i32 \<Rightarrow> encoding option" where
  "transcode_encs = encMap [TightEncoding, RawEncoding, CursorEncoding]"

lemma transcode_encs_simps:
  "transcode_encs 0 = Some RawEncoding" "transcode_encs (- 239) = Some CursorEncoding"
  by (simp_all add: transcode_encs_def encMap_def)

lemma transcode_encs_dom:
  "transcode_encs n = Some e \<Longrightarrow> e = TightEncoding \<or> e = RawEncoding \<or> e = CursorEncoding"
  by (auto simp: transcode_encs_def encMap_def split: if_splits)

lemma Area_same: "rWidth r = rWidth q \<Longrightarrow> rHeight r = rHeight q \<Longrightarrow> Area r = Area q"
  by (simp add: Area_def)

text \<open>The size the code computes is the size of what it writes.\<close>

lemma rect_size_bytes: "rect_read r \<Longrightarrow> length (rect_bytes pf r) = rect_size r"
  by (auto simp: rect_read_def rect_bytes_def length_transcode split: enc_data.splits)

lemma update_size_bytes:
  "list_all rect_read rects \<Longrightarrow> length (update_bytes pf rects) = update_size rects"
  by (induction rects) (auto simp: update_bytes_def update_size_def rect_size_bytes)

lemma read_raw_rect:
  fixes s :: "('i, 'z, 'm) server_client_scheme"
  assumes "rect_read r" and "fbs_pf_ok (PixelFormat s)" and "rbytes s = rect_bytes (PixelFormat s) r @ rest"
  shows "read_rectangle L transcode_encs s = (Ok (raw_rect r), s\<lparr>rbytes := rest\<rparr>)"
proof -
  let ?r = "\<lparr>rX = rX r, rY = rY r, rWidth = rWidth r, rHeight = rHeight r\<rparr>"
  let ?tail = "(case Enc r of CursorData b \<Rightarrow> b | _ \<Rightarrow> []) @
    concat (map (transcode_pixel (PixelFormat s)) (enc_pixels (Enc r)))"
  have small: "\<not> excessive_rect ?r" using assms(1) by (simp add: rect_read_def excessive_rect_def)
  have bpp: "BPP (PixelFormat s) = 32" using assms(2) by (simp add: fbs_pf_ok_def)
  have body: "\<exists>e. transcode_encs (newEncType (Enc r)) = Some e \<and>
      Encoding_Read L e ?r (s\<lparr>rbytes := ?tail @ rest\<rparr>) = (Ok (Enc (raw_rect r)), s\<lparr>rbytes := rest\<rparr>)"
  proof (cases "\<exists>b. Enc r = CursorData b")
    case True
    then obtain b where b: "Enc r = CursorData b" by blast
    then have "length b = Area ?r * 4 + unat (rWidth r + 7) div 8 * unat (rHeight r)"
      using assms(1) by (simp add: rect_read_def cursor_size_def Area_def)
    then show ?thesis
      using b bpp by (simp add: transcode_encs_simps Cursor_Read_def bindM_def read_full_append raw_rect_def Area_def)
  next
    case False
    then have nb: "(case Enc r of CursorData b \<Rightarrow> b | _ \<Rightarrow> []) = []" "newEncType (Enc r) = 0"
      "Enc (raw_rect r) = RawData (enc_pixels (Enc r))" "length (enc_pixels (Enc r)) = Area ?r"
      using assms(1) by (auto simp: rect_read_def raw_rect_def Area_def split: enc_data.splits)
    have "Raw_Read (PixelFormat s) (ColorMap s) ?r (s\<lparr>rbytes := ?tail @ rest\<rparr>) =
        (Ok (enc_pixels (Enc r)), s\<lparr>rbytes := rest\<rparr>)"
      using Raw_Read_run [OF fbs_pf_rgb32 [OF assms(2)] nb(4), of "s\<lparr>rbytes := ?tail @ rest\<rparr>" rest] nb(1) by simp
    then show ?thesis using nb by (simp add: transcode_encs_simps bindM_def)
  qed
  define tail where "tail = ?tail"
  from body obtain e where e: "transcode_encs (newEncType (Enc r)) = Some e"
    "Encoding_Read L e ?r (s\<lparr>rbytes := tail @ rest\<rparr>) = (Ok (Enc (raw_rect r)), s\<lparr>rbytes := rest\<rparr>)"
    unfolding tail_def by blast
  have same: "\<lparr>rX = rX r, rY = rY r, rWidth = rWidth r, rHeight = rHeight r, Enc = Enc (raw_rect r)\<rparr> = raw_rect r"
    by (cases r) (simp add: raw_rect_def)
  have bytes: "rbytes s = be16 (rX r) @ be16 (rY r) @ be16 (rWidth r) @ be16 (rHeight r) @
      be32 (newEncType (Enc r)) @ tail @ rest"
    using assms(3) by (simp add: rect_bytes_def tail_def)
  show ?thesis
    unfolding read_rectangle_def
    by (simp add: u16_codec.dec_bind [OF TrueI] u32_codec.dec_bind [OF TrueI] bytes Let_def small e(1)
        bindM_Ok [where m = "Encoding_Read L e ?r" and s = "s\<lparr>rbytes := tail @ rest\<rparr>", OF e(2)] same)
qed

lemma read_raw_rects:
  fixes s :: "('i, 'z, 'm) server_client_scheme"
  assumes "list_all rect_read rects" and "fbs_pf_ok (PixelFormat s)"
    and "rbytes s = concat (map (rect_bytes (PixelFormat s)) rects) @ rest" and "length ns = length rects"
  shows "mapM (\<lambda>_. read_rectangle L transcode_encs) ns s = (Ok (map raw_rect rects), s\<lparr>rbytes := rest\<rparr>)"
  using assms
proof (induction rects arbitrary: ns s)
  case Nil
  then show ?case by simp
next
  case (Cons r rects)
  obtain n ns' where ns: "ns = n # ns'" "length ns' = length rects" using Cons.prems(4) by (cases ns) auto
  let ?s = "s\<lparr>rbytes := concat (map (rect_bytes (PixelFormat s)) rects) @ rest\<rparr>"
  have 1: "read_rectangle L transcode_encs s = (Ok (raw_rect r), ?s)"
    using Cons.prems(1-3) by (intro read_raw_rect) auto
  have 2: "mapM (\<lambda>_. read_rectangle L transcode_encs) ns' ?s = (Ok (map raw_rect rects), ?s\<lparr>rbytes := rest\<rparr>)"
    using Cons.prems(1,2) ns(2) by (intro Cons.IH) auto
  show ?case by (simp add: ns(1) bindM_def 1 2)
qed

section \<open>What the decoders return\<close>

lemma read_rectangle_read:
  fixes s :: "('i, 'z, 'm) server_client_scheme"
  assumes "libs_return L" and "BPP (PixelFormat s) = 32"
    and "read_rectangle L transcode_encs s = (Ok r, s')"
  shows "rect_read r"
proof -
  obtain n d s1 e where small: "\<not> excessive_rect r" and e: "transcode_encs n = Some e"
    and read: "Encoding_Read L e \<lparr>rX = rX r, rY = rY r, rWidth = rWidth r, rHeight = rHeight r\<rparr> s1 = (Ok (Enc r), s')"
    and pf: "PixelFormat s1 = PixelFormat s"
  proof -
    from assms(3) obtain x s1 y s2 w s3 h s4 n s5 where
      r: "read_u16 s = (Ok x, s1)" "read_u16 s1 = (Ok y, s2)" "read_u16 s2 = (Ok w, s3)" "read_u16 s3 = (Ok h, s4)"
        "read_u32 s4 = (Ok n, s5)"
        "(let rect = \<lparr>rX = x, rY = y, rWidth = w, rHeight = h\<rparr> in
          if excessive_rect rect then fail (Errorf ''excessive rectangle'')
          else case transcode_encs n of None \<Rightarrow> fail (Errorf ''unsupported encoding type'')
            | Some enc \<Rightarrow> bindM (Encoding_Read L enc rect) (\<lambda>d.
                ret \<lparr>rX = x, rY = y, rWidth = w, rHeight = h, Enc = d\<rparr>)) s5 = (Ok r, s')"
      unfolding read_rectangle_def by (elim bindM_OkE)
    have "consumed s s1" "consumed s1 s2" "consumed s2 s3" "consumed s3 s4" "consumed s4 s5"
      using keepsD [OF consumed_reads(2)] keepsD [OF consumed_reads(3)] r(1-5) by blast+
    then have "PixelFormat s5 = PixelFormat s" by (simp add: consumed_def)
    with r(6) that show thesis
      by (auto simp: Let_def excessive_rect_def split: if_splits option.splits elim!: bindM_OkE)
  qed
  let ?r = "\<lparr>rX = rX r, rY = rY r, rWidth = rWidth r, rHeight = rHeight r\<rparr>"
  have small': "\<not> excessive_rect ?r" using small by (simp add: excessive_rect_def)
  have "yields (data_ok ?r) (Ok (Enc r))"
    by (rule givesD [OF Encoding_Read_gives [OF assms(1) small'] read])
  then have ok: "data_ok ?r (Enc r)" by simp
  from transcode_encs_dom [OF e] show ?thesis
  proof (elim disjE)
    assume "e = CursorEncoding"
    with read obtain b where "Cursor_Read ?r s1 = (Ok b, s')" "Enc r = CursorData b" by (auto elim!: bindM_OkE)
    then show ?thesis
      using small pf assms(2)
      by (auto simp: rect_read_def cursor_size_def Cursor_Read_def Area_def dest!: read_full_OkD elim!: bindM_OkE)
  qed (use read ok small in \<open>cases "Enc r"; auto simp: rect_read_def data_ok_def Area_def elim!: bindM_OkE\<close>)+
qed

lemma read_rectangles_read:
  fixes s :: "('i, 'z, 'm) server_client_scheme"
  assumes "libs_return L" and "BPP (PixelFormat s) = 32"
    and "mapM (\<lambda>_. read_rectangle L transcode_encs) ns s = (Ok rects, s')"
  shows "list_all rect_read rects"
  using assms(2,3)
proof (induction ns arbitrary: s rects)
  case (Cons n ns)
  then obtain r s1 rs where r: "read_rectangle L transcode_encs s = (Ok r, s1)"
    "mapM (\<lambda>_. read_rectangle L transcode_encs) ns s1 = (Ok rs, s')" "rects = r # rs"
    by (auto elim!: bindM_OkE)
  have "PixelFormat s1 = PixelFormat s"
    using keepsD [OF consumed_read_rectangle r(1)] by (simp add: consumed_def)
  then show ?case using Cons.IH [OF _ r(2)] read_rectangle_read [OF assms(1) _ r(1)] Cons.prems(1) r(3) by simp
qed simp

definition transcoding :: "('i, 'z, 'm) server_client_scheme \<Rightarrow> bool" where
  "transcoding c \<longleftrightarrow> encMap (Encs c) = transcode_encs \<and> fbs_pf_ok (PixelFormat c)"

lemma update_read:
  fixes s :: "('i, 'z, 'm) server_client_scheme"
  assumes "libs_return L" and "transcoding s" and "FramebufferUpdate_Read L s = (Ok m, s')"
  shows "\<exists>rects. m = FramebufferUpdateMessage rects \<and> list_all rect_read rects \<and> length rects \<le> 1000"
proof -
  from assms(3) obtain p s1 n s2 where
    r: "read_full 1 s = (Ok p, s1)" "read_u16 s1 = (Ok n, s2)"
      "(if 1000 < n then fail (Errorf ''excessive rectangle count'') else
         bindM getS (\<lambda>c. bindM (mapM (\<lambda>_. read_rectangle L (encMap (Encs c))) [0..<unat n]) (\<lambda>rects.
         ret (FramebufferUpdateMessage rects)))) s2 = (Ok m, s')"
    unfolding FramebufferUpdate_Read_def by (elim bindM_OkE)
  have "consumed s s1" "consumed s1 s2"
    using keepsD [OF consumed_read_full r(1)] keepsD [OF consumed_reads(2) r(2)] .
  then have c: "Encs s2 = Encs s" "PixelFormat s2 = PixelFormat s" by (simp_all add: consumed_def)
  with r(3) assms(2) obtain rects where
    rects: "mapM (\<lambda>_. read_rectangle L transcode_encs) [0..<unat n] s2 = (Ok rects, s')"
      "m = FramebufferUpdateMessage rects" "\<not> 1000 < n"
    by (auto simp: transcoding_def split: if_splits elim!: bindM_OkE)
  have "BPP (PixelFormat s2) = 32" using c(2) assms(2) by (simp add: transcoding_def fbs_pf_ok_def)
  then have "list_all rect_read rects" using read_rectangles_read [OF assms(1) _ rects(1)] by blast
  moreover have "length rects \<le> 1000"
    using mapM_length [OF rects(1)] rects(3) by (simp add: word_less_nat_alt)
  ultimately show ?thesis using rects(2) by blast
qed

section \<open>A session as a client reads it\<close>

definition message_read :: "('i, 'z) libs \<Rightarrow> (('i, 'z, 'm) server_client_scheme, server_msg) prog" where
  "message_read L =
     bindM read_u8 (\<lambda>b. case server_Read L b of None \<Rightarrow> fail (Errorf ''no such message type'') | Some m \<Rightarrow> m)"

text \<open>The client reads these messages and nothing is left over.\<close>

inductive reads_session ::
  "('i, 'z) libs \<Rightarrow> ('i, 'z, 'm) server_client_scheme \<Rightarrow> server_msg list \<Rightarrow> bool" for L where
  over: "rbytes c = [] \<Longrightarrow> reads_session L c []"
| message: "message_read L c = (Ok m, c') \<Longrightarrow> reads_session L c' ms \<Longrightarrow> reads_session L c (m # ms)"

inductive_cases reads_session_ConsE: "reads_session L c (m # ms)"

lemma message_read_eats:
  assumes "message_read L c = (Ok m, c')"
  shows "consumed c c' \<and> length (rbytes c') < length (rbytes c)"
proof -
  from assms obtain b c1 rd where r: "read_u8 c = (Ok b, c1)" "server_Read L b = Some rd" "rd c1 = (Ok m, c')"
    unfolding message_read_def by (auto elim!: bindM_OkE split: option.splits)
  have "consumed c c1" "consumed c1 c'"
    using keepsD [OF consumed_reads(1) r(1)] keepsD [OF consumed_server_Read [OF r(2)] r(3)] .
  moreover have "length (rbytes c1) < length (rbytes c)" using read_u8_OkD [OF r(1)] by simp
  moreover have "length (rbytes c') \<le> length (rbytes c1)" by (rule keeps_length [OF consumed_server_Read [OF r(2)] r(3)])
  ultimately show ?thesis using reading.trans by fastforce
qed

text \<open>\<open>mainLoop\<close> delivers the messages of such a session.\<close>

lemma main_loop_session:
  assumes "reads_session L c ms"
  shows "length (rbytes c) \<le> fuel \<Longrightarrow> fst (main_loop L fuel c) = ms"
  using assms
proof (induction arbitrary: fuel rule: reads_session.induct)
  case (over c)
  then show ?case by (subst main_loop.simps) (simp add: annotate_def u8_codec.dec_short)
next
  case (message c m c' ms)
  from message(1) obtain b c1 rd where r: "read_u8 c = (Ok b, c1)" "server_Read L b = Some rd" "rd c1 = (Ok m, c')"
    unfolding message_read_def by (auto elim!: bindM_OkE split: option.splits)
  have less: "length (rbytes c') < length (rbytes c)" using message_read_eats [OF message(1)] by blast
  then obtain n where n: "fuel = Suc n" using message.prems by (cases fuel) auto
  then have "fst (main_loop L n c') = ms" using less message.prems by (intro message.IH) simp
  then show ?case using r n by (subst main_loop.simps) (cases "main_loop L n c'"; simp add: annotate_def)
qed

text \<open>Bytes that a client, whatever follows them, reads as one message, itself unchanged.\<close>

definition reads_as :: "('i, 'z) libs \<Rightarrow> ('i, 'z) server_client \<Rightarrow> u8 list \<Rightarrow> server_msg \<Rightarrow> bool" where
  "reads_as L c d m \<longleftrightarrow> (\<forall>rest e. message_read L (c\<lparr>rend := e, rbytes := d @ rest\<rparr>) = (Ok m, c\<lparr>rend := e, rbytes := rest\<rparr>))"

lemma reads_session_concat:
  "list_all2 (reads_as L c) ds ms \<Longrightarrow> reads_session L (c\<lparr>rend := e, rbytes := concat ds\<rparr>) ms"
proof (induction rule: list_all2_induct)
  case Nil
  then show ?case by (simp add: over)
next
  case (Cons d ds m ms)
  then show ?case by (auto simp: reads_as_def intro: message)
qed

fun raw_msg :: "server_msg \<Rightarrow> server_msg" where
  "raw_msg (FramebufferUpdateMessage rects) = FramebufferUpdateMessage (map raw_rect rects)"
| "raw_msg m = m"

lemma reads_as_update:
  assumes "transcoding c" and "list_all rect_read rects" and "length rects \<le> 1000"
  shows "reads_as L c (update_bytes (PixelFormat c) rects) (raw_msg (FramebufferUpdateMessage rects))"
  unfolding reads_as_def
proof (intro allI)
  fix rest e
  let ?body = "concat (map (rect_bytes (PixelFormat c)) rects) @ rest"
  let ?c = "\<lambda>b. c\<lparr>rend := e, rbytes := b\<rparr>"
  have enc: "encMap (Encs c) = transcode_encs" and pf: "fbs_pf_ok (PixelFormat c)"
    using assms(1) by (simp_all add: transcoding_def)
  have n: "unat (of_nat (length rects) :: u16) = length rects" "\<not> 1000 < (of_nat (length rects) :: u16)"
    using assms(3) by (simp_all add: unat_of_nat take_bit_nat_eq_self word_less_nat_alt)
  have "mapM (\<lambda>_. read_rectangle L transcode_encs) [0..<length rects] (?c ?body) =
      (Ok (map raw_rect rects), ?c ?body\<lparr>rbytes := rest\<rparr>)"
    by (rule read_raw_rects) (use assms(2) pf in simp_all)
  moreover have "read_u16 (?c (be16 (of_nat (length rects)) @ ?body)) = (Ok (of_nat (length rects)), ?c ?body)"
    by (simp add: u16_codec.dec_enc)
  ultimately have "FramebufferUpdate_Read L (?c (0 # be16 (of_nat (length rects)) @ ?body)) =
      (Ok (FramebufferUpdateMessage (map raw_rect rects)), ?c rest)"
    by (simp add: FramebufferUpdate_Read_def read_full_append [where bs = "[0]"] bindM_def enc n)
  then show "message_read L (?c (update_bytes (PixelFormat c) rects @ rest)) =
      (Ok (raw_msg (FramebufferUpdateMessage rects)), ?c rest)"
    by (simp add: message_read_def update_bytes_def u8_codec.dec_bind [of _ _ "0 # be16 (of_nat (length rects)) @ ?body"]
        server_Read.simps)
qed

lemma reads_as_bell: "reads_as L c [2] BellMessage"
  by (simp add: reads_as_def message_read_def u8_codec.dec_bind server_Read.simps)

lemma reads_as_cut_text:
  assumes "length pad = 3" and "length text = unat n"
  shows "reads_as L c ([3] @ pad @ be32 n @ text) (ServerCutTextMessage text)"
  using assms
  by (simp add: reads_as_def message_read_def u8_codec.dec_enc server_Read.simps ServerCutText_Read_def
      bindM_def read_full_append u32_codec.dec_enc)

section \<open>The run of the program\<close>

definition took_bytes :: "nat \<Rightarrow> fbs \<Rightarrow> fbs \<Rightarrow> bool" where
  "took_bytes n f f' \<longleftrightarrow> n \<le> length (fbs_stamped f) \<and> fbs_stamped f' = drop n (fbs_stamped f) \<and>
     fbs_ending f' = fbs_ending f \<and> ftime f' = (if n = 0 then ftime f else snd (fbs_stamped f ! (n - 1)))"

lemma took_bytes_add:
  assumes "took_bytes m f g" and "took_bytes n g h"
  shows "took_bytes (m + n) f h"
proof (cases "n = 0")
  case True
  then show ?thesis using assms by (simp add: took_bytes_def)
next
  case False
  then have "fbs_stamped g ! (n - 1) = fbs_stamped f ! (m + n - 1)"
    using assms by (simp add: took_bytes_def)
  then show ?thesis using assms False by (auto simp: took_bytes_def add.commute)
qed

lemma fbs_full_take:
  assumes "n \<le> length (fbs_stamped f)"
  obtains f' where "fbs_full n f = (Ok (map fst (take n (fbs_stamped f))), f')" and "took_bytes n f f'"
proof (cases "n = 0")
  case True
  then show thesis using that [of f] by (simp add: took_bytes_def)
next
  case False
  from fbs_full_run [of n f] assms obtain f' where
    "fbs_full n f = (Ok (map fst (take n (fbs_stamped f))), f')" "recording.took n f f'"
    by (auto simp: read_full_def fbs_stream_def take_map)
  then show thesis using that assms False by (simp add: took_bytes_def recording.took_def)
qed

lemma from_fbs_run:
  assumes "n \<le> length (fbs_stamped (tin t))"
  obtains f' where "from_fbs (fbs_full n) t = (Ok (map fst (take n (fbs_stamped (tin t)))), t\<lparr>tin := f'\<rparr>)"
    and "took_bytes n (tin t) f'"
proof -
  from fbs_full_take [OF assms] obtain f' where
    f: "fbs_full n (tin t) = (Ok (map fst (take n (fbs_stamped (tin t)))), f')" "took_bytes n (tin t) f'" .
  show thesis by (rule that [OF _ f(2)]) (simp add: from_fbs_def zoom_def f(1))
qed

lemma nextSafe_run:
  assumes "n \<le> length (fbs_stamped (tin t))"
  obtains f' where "nextSafe n t = (Ok (map fst (take n (fbs_stamped (tin t)))), t\<lparr>tin := f'\<rparr>)"
    and "took_bytes n (tin t) f'"
proof -
  from from_fbs_run [OF assms] obtain f' where
    f: "from_fbs (fbs_full n) t = (Ok (map fst (take n (fbs_stamped (tin t)))), t\<lparr>tin := f'\<rparr>)" "took_bytes n (tin t) f'" .
  then show thesis using that [of f'] by (simp add: nextSafe_def)
qed

lemma next_bytes_run:
  assumes "n \<le> length (fbs_stamped (tin t))"
  obtains f' where "next_bytes n t = (Ok (map fst (take n (fbs_stamped (tin t)))), t\<lparr>tin := f'\<rparr>)"
    and "took_bytes n (tin t) f'"
proof -
  from from_fbs_run [OF assms] obtain f' where
    f: "from_fbs (fbs_full n) t = (Ok (map fst (take n (fbs_stamped (tin t)))), t\<lparr>tin := f'\<rparr>)" "took_bytes n (tin t) f'" .
  then show thesis using that [of f'] by (simp add: next_bytes_def check_def)
qed

text \<open>The connection as the decoders see it: the rest of the recording is what the server sends.\<close>

definition stream_conn :: "('i, 'z, 'm) transcoder_scheme \<Rightarrow> ('i, 'z) server_client" where
  "stream_conn t = (tconn t)\<lparr>rend := fbs_ending (tin t), rbytes := map fst (fbs_stamped (tin t))\<rparr>"

fun msg_fits :: "server_msg \<Rightarrow> bool" where
  "msg_fits (FramebufferUpdateMessage rects) \<longleftrightarrow> update_size rects < 2 ^ 32"
| "msg_fits (SetColorMapEntriesMessage _ _) \<longleftrightarrow> False"
| "msg_fits BellMessage \<longleftrightarrow> True"
| "msg_fits (ServerCutTextMessage text) \<longleftrightarrow> length text + 8 < 2 ^ 32"

text \<open>A message has been transcoded: taken from the recording, and written as one chunk at its time.\<close>

definition transcoded ::
  "('i, 'z) libs \<Rightarrow> ('i, 'z) server_client \<Rightarrow> server_msg \<Rightarrow> ('i, 'z, 'm) transcoder_scheme \<Rightarrow>
    ('i, 'z, 'm) transcoder_scheme \<Rightarrow> bool" where
  "transcoded L c m t t' \<longleftrightarrow> (\<exists>k d. took_bytes (Suc k) (tin t) (tin t') \<and> calm (tout t') \<and>
     written (tout t') = written (tout t) @ fbs_chunk (d, ftime (tin t')) \<and> d \<noteq> [] \<and> length d < 2 ^ 32 \<and>
     reads_as L c d (raw_msg m))"

lemma stream_conn_took:
  assumes "took_bytes n (tin t) (tin t')" and "tconn t' = tconn t"
  shows "stream_conn t' = (stream_conn t)\<lparr>rbytes := drop n (rbytes (stream_conn t))\<rparr>"
  using assms by (simp add: stream_conn_def took_bytes_def drop_map)

lemma run_update:
  fixes t :: "('i, 'z, 'm) transcoder_scheme"
  assumes "libs_return L" and "calm (tout t)" and "transcoding (tconn t)"
    and "FramebufferUpdate_Read L (stream_conn t) = (Ok m, c)" and "msg_fits m"
    and "transcoding c0" and "PixelFormat c0 = PixelFormat (tconn t)"
  shows "\<exists>t' k d. transcode_update L [0] t = (Ok True, t') \<and> stream_conn t' = c \<and> took_bytes k (tin t) (tin t') \<and>
    calm (tout t') \<and> written (tout t') = written (tout t) @ fbs_chunk (d, ftime (tin t')) \<and> d \<noteq> [] \<and> length d < 2 ^ 32 \<and>
    reads_as L c0 d (raw_msg m)"
proof -
  have "transcoding (stream_conn t)" using assms(3) by (simp add: stream_conn_def transcoding_def)
  from update_read [OF assms(1) this assms(4)] obtain rects where
    rects: "m = FramebufferUpdateMessage rects" "list_all rect_read rects" "length rects \<le> 1000" by blast
  have "keeps consumed (FramebufferUpdate_Read L :: (('i, 'z) server_client, server_msg) prog)"
    by (rule consumed_server_Read [of L 0]) (simp add: server_Read.simps)
  from keepsD [OF this assms(4)] obtain j where
    j: "rbytes c = drop j (rbytes (stream_conn t))" "rend c = rend (stream_conn t)" "PixelFormat c = PixelFormat (tconn t)"
    by (auto simp: consumed_def stream_conn_def)
  define k where "k = length (rbytes (stream_conn t)) - length (rbytes c)"
  have k: "k \<le> length (fbs_stamped (tin t))" "rbytes c = drop k (rbytes (stream_conn t))"
    using j(1) by (cases "j \<le> length (fbs_stamped (tin t))"; simp add: k_def stream_conn_def)+
  from fbs_full_take [OF k(1)] obtain f' where
    f': "fbs_full k (tin t) = (Ok (map fst (take k (fbs_stamped (tin t)))), f')" "took_bytes k (tin t) f'" .
  let ?t1 = "t\<lparr>tconn := c, tin := f'\<rparr>"
  have "stream_conn t = (tconn t)\<lparr>rend := rend (fbs_stream (tin t)), rbytes := rbytes (fbs_stream (tin t))\<rparr>"
    by (simp add: stream_conn_def fbs_stream_def)
  then have 1: "fbs_message (FramebufferUpdate_Read L) t = (Ok m, ?t1)"
    using assms(4) f'(1) by (simp add: fbs_message_def Let_def k_def stream_conn_def fbs_stream_def)
  have "calm (tout ?t1)" using assms(2) by simp
  from out_update_run [OF this, of rects] obtain w where
    w: "out_update [0] rects ?t1 = (Ok (), ?t1\<lparr>tout := w\<rparr>)" "calm w"
      "written w = written (tout t) @ be32 (of_nat (update_size rects)) @ update_bytes (PixelFormat c) rects @ ftime f'"
    by auto
  let ?t2 = "?t1\<lparr>tout := w\<rparr>" and ?d = "update_bytes (PixelFormat c0) rects"
  have "transcode_update L [0] t = (Ok True, ?t2)"
    using 1 w(1) rects(1) by (simp add: transcode_update_def bindM_def)
  moreover have "stream_conn ?t2 = c"
    using k(2) j(2) f'(2) by (simp add: stream_conn_def took_bytes_def drop_map)
  moreover have len: "length ?d = update_size rects" by (rule update_size_bytes [OF rects(2)])
  then have "written w = written (tout t) @ fbs_chunk (?d, ftime f')"
    using w(3) j(3) assms(7) by (simp add: fbs_chunk_def)
  moreover have "reads_as L c0 ?d (raw_msg m)"
    using reads_as_update [OF assms(6) rects(2,3)] rects(1) by simp
  moreover have "length ?d < 2 ^ 32" using len assms(5) rects(1) by simp
  moreover have "?d \<noteq> []" by (simp add: update_bytes_def)
  ultimately show ?thesis using f'(2) w(2) by (intro exI [of _ ?t2] exI [of _ k] exI [of _ ?d]) simp
qed

lemma run_cut_text:
  fixes t :: "('i, 'z, 'm) transcoder_scheme" and c0 :: "('i, 'z) server_client"
  assumes "calm (tout t)" and "ServerCutText_Read (stream_conn t) = (Ok m, c)" and "msg_fits m"
  shows "\<exists>t' k d. transcode_switch L [3] t = (Ok True, t') \<and> stream_conn t' = c \<and> took_bytes k (tin t) (tin t') \<and>
    calm (tout t') \<and> written (tout t') = written (tout t) @ fbs_chunk (d, ftime (tin t')) \<and> d \<noteq> [] \<and> length d < 2 ^ 32 \<and>
    reads_as L c0 d (raw_msg m) \<and> tconn t' = tconn t"
proof -
  let ?S = "fbs_stamped (tin t)"
  from assms(2) obtain pad c1 n c2 tx where
    r: "read_full 3 (stream_conn t) = (Ok pad, c1)" "read_u32 c1 = (Ok n, c2)" "read_full (unat n) c2 = (Ok tx, c)"
      "m = ServerCutTextMessage tx"
    unfolding ServerCutText_Read_def by (auto elim!: bindM_OkE)
  have pad: "rbytes (stream_conn t) = pad @ rbytes c1" "length pad = 3" "c1 = (stream_conn t)\<lparr>rbytes := rbytes c1\<rparr>"
    using read_full_OkD [OF r(1)] by auto
  have n: "rbytes c1 = be32 n @ rbytes c2" "c2 = c1\<lparr>rbytes := rbytes c2\<rparr>"
    using u32_codec.dec_OkD [OF r(2)] u32_codec.dec_takes [OF r(2)] by (auto simp del: length_be)
  have tx: "rbytes c2 = tx @ rbytes c" "length tx = unat n" "c = c2\<lparr>rbytes := rbytes c\<rparr>"
    using read_full_OkD [OF r(3)] by auto
  have S: "map fst ?S = pad @ be32 n @ tx @ rbytes c"
    using pad(1) n(1) tx(1) by (simp add: stream_conn_def)
  have len: "length ?S = 7 + unat n + length (rbytes c)"
    using arg_cong [OF S, of length] pad(2) tx(2) by simp
  have "7 \<le> length ?S" using len by simp
  from nextSafe_run [OF this] obtain f1 where
    f1: "nextSafe 7 t = (Ok (map fst (take 7 ?S)), t\<lparr>tin := f1\<rparr>)" "took_bytes 7 (tin t) f1" .
  have b1: "map fst (take 7 ?S) = pad @ be32 n" using S pad(2) by (simp flip: take_map)
  let ?t1 = "t\<lparr>tin := f1\<rparr>"
  have "unat n \<le> length (fbs_stamped (tin ?t1))" using f1(2) len by (simp add: took_bytes_def)
  from nextSafe_run [OF this] obtain f2 where
    f2: "nextSafe (unat n) ?t1 = (Ok (map fst (take (unat n) (fbs_stamped f1))), ?t1\<lparr>tin := f2\<rparr>)" "took_bytes (unat n) f1 f2"
    by auto
  have b2: "map fst (take (unat n) (fbs_stamped f1)) = tx"
    using S f1(2) pad(2) tx(2) by (simp add: took_bytes_def flip: take_map drop_map)
  let ?t2 = "t\<lparr>tin := f2\<rparr>" and ?d = "[3] @ pad @ be32 n @ tx"
  have "calm (tout ?t2)" using assms(1) by simp
  from emit_run [OF this, of ?d] obtain w where
    w: "emit ?d ?t2 = (Ok (), ?t2\<lparr>tout := w\<rparr>)" "calm w" "written w = written (tout t) @ fbs_chunk (?d, ftime f2)" by auto
  have hd: "take 4 (drop 4 ([3] @ pad @ be32 n)) = be32 n" using pad(2) by simp
  have "transcode_switch L [3] t = (Ok True, ?t2\<lparr>tout := w\<rparr>)"
    using f1(1) f2(1) w(1) hd b1 b2 get_be32_be32 [of n "[]"] by (simp add: transcode_switch_def Let_def bindM_def)
  moreover have took: "took_bytes (7 + unat n) (tin t) f2" using took_bytes_add [OF f1(2) f2(2)] .
  moreover have "stream_conn (?t2\<lparr>tout := w\<rparr>) = c"
  proof -
    have "stream_conn (?t2\<lparr>tout := w\<rparr>) = (stream_conn t)\<lparr>rbytes := rbytes c\<rparr>"
      using stream_conn_took [of "7 + unat n" t "?t2\<lparr>tout := w\<rparr>"] took S pad(2) tx(2) by (simp add: stream_conn_def)
    moreover have "c = (stream_conn t)\<lparr>rbytes := rbytes c\<rparr>"
      by (subst tx(3), subst n(2), subst pad(3)) simp
    ultimately show ?thesis by simp
  qed
  moreover have "reads_as L c0 ?d (raw_msg m)" using reads_as_cut_text [OF pad(2) tx(2)] r(4) by simp
  moreover have "length ?d < 2 ^ 32" using assms(3) r(4) pad(2) by simp
  ultimately show ?thesis using w(2,3) by (intro exI [of _ "?t2\<lparr>tout := w\<rparr>"] exI [of _ "7 + unat n"] exI [of _ ?d]) simp
qed

lemma run_message:
  fixes t :: "('i, 'z, 'm) transcoder_scheme" and c0 :: "('i, 'z) server_client"
  assumes "libs_return L" and "calm (tout t)" and "transcoding (tconn t)"
    and "message_read L (stream_conn t) = (Ok m, c)" and "msg_fits m"
    and "transcoding c0" and "PixelFormat c0 = PixelFormat (tconn t)"
  shows "\<exists>t'. transcode_message L t = (Ok True, t') \<and> stream_conn t' = c \<and> transcoded L c0 m t t' \<and>
    transcoding (tconn t') \<and> PixelFormat (tconn t') = PixelFormat (tconn t)"
proof -
  from assms(4) obtain b c1 rd where
    r: "read_u8 (stream_conn t) = (Ok b, c1)" "server_Read L b = Some rd" "rd c1 = (Ok m, c)"
    unfolding message_read_def by (auto elim!: bindM_OkE split: option.splits)
  have b: "rbytes (stream_conn t) = b # rbytes c1" "c1 = (stream_conn t)\<lparr>rbytes := rbytes c1\<rparr>"
    using read_u8_OkD [OF r(1)] by auto
  then have "1 \<le> length (fbs_stamped (tin t))" by (cases "fbs_stamped (tin t)") (simp_all add: stream_conn_def)
  from nextSafe_run [OF this] obtain f1 where
    f1: "nextSafe 1 t = (Ok (map fst (take 1 (fbs_stamped (tin t)))), t\<lparr>tin := f1\<rparr>)" "took_bytes 1 (tin t) f1" .
  let ?t1 = "t\<lparr>tin := f1\<rparr>"
  have b1: "map fst (take 1 (fbs_stamped (tin t))) = [b]"
    using b(1) by (cases "fbs_stamped (tin t)") (simp_all add: stream_conn_def)
  have c1: "stream_conn ?t1 = c1"
    using stream_conn_took [of 1 t ?t1] f1(2) b by simp
  have t1: "calm (tout ?t1)" "transcoding (tconn ?t1)" "PixelFormat c0 = PixelFormat (tconn ?t1)"
    using assms(2,3,7) by simp_all
  have "\<exists>t' k d. transcode_switch L [b] ?t1 = (Ok True, t') \<and> stream_conn t' = c \<and> took_bytes k f1 (tin t') \<and>
    calm (tout t') \<and> written (tout t') = written (tout t) @ fbs_chunk (d, ftime (tin t')) \<and> d \<noteq> [] \<and> length d < 2 ^ 32 \<and>
    reads_as L c0 d (raw_msg m)"
  proof -
    consider "b = 0" "rd = FramebufferUpdate_Read L" | "b = 1" "rd = SetColorMapEntries_Read"
      | "b = 2" "rd = ret BellMessage" | "b = 3" "rd = ServerCutText_Read"
      using r(2) by (auto simp: server_Read.simps split: if_splits)
    then show ?thesis
    proof cases
      case 1
      then have "transcode_switch L [b] ?t1 = transcode_update L [0] ?t1" by (simp add: transcode_switch_def)
      with run_update [OF assms(1) t1(1,2) _ assms(5,6) t1(3)] r(3) c1 1 show ?thesis by simp
    next
      case 2
      then show ?thesis using r(3) assms(5) by (auto simp: SetColorMapEntries_Read_def elim!: bindM_OkE)
    next
      case 3
      from emit_run [OF t1(1), of "[2]"] obtain w where
        w: "emit [2] ?t1 = (Ok (), ?t1\<lparr>tout := w\<rparr>)" "calm w" "written w = written (tout t) @ fbs_chunk ([2], ftime f1)" by auto
      have "transcode_switch L [b] ?t1 = (Ok True, ?t1\<lparr>tout := w\<rparr>)"
        using 3(1) w(1) by (simp add: transcode_switch_def bindM_def)
      moreover have "m = BellMessage" "c = c1" using 3(2) r(3) by simp_all
      moreover have "stream_conn (?t1\<lparr>tout := w\<rparr>) = c1" using c1 by (simp add: stream_conn_def)
      ultimately show ?thesis
        using w(2,3) reads_as_bell [of L c0]
        by (intro exI [of _ "?t1\<lparr>tout := w\<rparr>"] exI [of _ 0] exI [of _ "[2]"]) (simp add: took_bytes_def)
    next
      case 4
      with run_cut_text [OF t1(1), of m c L c0] r(3) c1 assms(5) show ?thesis by auto
    qed
  qed
  then obtain t' k d where t': "transcode_switch L [b] ?t1 = (Ok True, t')" "stream_conn t' = c" "took_bytes k f1 (tin t')"
    "calm (tout t')" "written (tout t') = written (tout t) @ fbs_chunk (d, ftime (tin t'))" "d \<noteq> []" "length d < 2 ^ 32"
    "reads_as L c0 d (raw_msg m)" by blast
  have msg: "transcode_message L t = (Ok True, t')" using f1(1) b1 t'(1) by (simp add: transcode_message_def bindM_def)
  have "transcoded L c0 m t t'"
    unfolding transcoded_def using took_bytes_add [OF f1(2) t'(3)] t'(4-8) by (intro exI [of _ k] exI [of _ d]) simp
  moreover have "transcoding (tconn t')" "PixelFormat (tconn t') = PixelFormat (tconn t)"
    using keepsD [OF transcode_message_moves msg] assms(3) by (simp_all add: moves_on_def transcoding_def)
  ultimately show ?thesis using msg t'(2) by blast
qed

section \<open>The loop to the end of the recording\<close>

text \<open>What a stretch of the run has written: chunks in order, with times from the stretch of the recording it read.\<close>

definition timed :: "nat \<Rightarrow> fbs \<Rightarrow> (u8 list \<times> u8 list) list \<Rightarrow> bool" where
  "timed n f cs \<longleftrightarrow> subseq (map snd cs) (map snd (take n (fbs_stamped f)))"

lemma timed_one:
  assumes "took_bytes (Suc k) f g"
  shows "timed (Suc k) f [(d, ftime g)]"
proof -
  have "ftime g \<in> set (map snd (take (Suc k) (fbs_stamped f)))"
    using assms by (simp add: took_bytes_def take_Suc_conv_app_nth)
  then show ?thesis by (simp add: timed_def subseq_singleton_left)
qed

lemma timed_add:
  assumes "took_bytes m f g" and "timed m f cs" and "timed n g ds"
  shows "timed (m + n) f (cs @ ds)"
  using assms by (simp add: timed_def took_bytes_def take_add list_emb_append_mono)

lemma run_end:
  assumes "fbs_stamped (tin t) = []" and "fbs_ending (tin t) = EOF \<or> fbs_ending (tin t) = UnexpectedEOF"
  obtains f' where "transcode_loop L t = (Err (Exited 0), t\<lparr>tin := f'\<rparr>)"
proof -
  from fbs_full_run [of 1 "tin t"] obtain f' where
    f': "fbs_full 1 (tin t) = (fst (read_full 1 (fbs_stream (tin t))), f')" by auto
  then have "fbs_full 1 (tin t) = (Err (fbs_ending (tin t)), f')"
    using assms(1) by (simp add: read_full_def fbs_stream_def short_err_def)
  then have "nextSafe 1 t = (Err (Exited 0), t\<lparr>tin := f'\<rparr>)"
    using assms(2) by (auto simp: nextSafe_def from_fbs_def zoom_def)
  then have "transcode_loop L t = (Err (Exited 0), t\<lparr>tin := f'\<rparr>)"
    by (subst transcode_loop.simps) (simp add: transcode_message_def bindM_def)
  then show thesis by (rule that)
qed

lemma run_loop:
  fixes t :: "('i, 'z, 'm) transcoder_scheme" and c0 :: "('i, 'z) server_client"
  assumes "reads_session L (stream_conn t) ms" and "libs_return L" and "list_all msg_fits ms"
    and "calm (tout t)" and "transcoding (tconn t)" and "transcoding c0" and "PixelFormat c0 = PixelFormat (tconn t)"
    and "fbs_ending (tin t) = EOF \<or> fbs_ending (tin t) = UnexpectedEOF"
  shows "\<exists>t' cs. transcode_loop L t = (Err (Exited 0), t') \<and> calm (tout t') \<and>
    written (tout t') = written (tout t) @ concat (map fbs_chunk cs) \<and>
    list_all2 (reads_as L c0) (map fst cs) (map raw_msg ms) \<and>
    list_all (\<lambda>c. fst c \<noteq> [] \<and> length (fst c) < 2 ^ 32) cs \<and> timed (length (fbs_stamped (tin t))) (tin t) cs"
  using assms
proof (induction ms arbitrary: t rule: list.induct)
  case Nil
  then have "fbs_stamped (tin t) = []" by (auto simp: stream_conn_def elim: reads_session.cases)
  from run_end [OF this Nil.prems(8)] obtain f' where "transcode_loop L t = (Err (Exited 0), t\<lparr>tin := f'\<rparr>)" .
  then show ?case using Nil.prems(4) by (intro exI [of _ "t\<lparr>tin := f'\<rparr>"] exI [of _ "[]"]) (simp add: timed_def)
next
  case (Cons m ms)
  from Cons.prems(1) obtain c where c: "message_read L (stream_conn t) = (Ok m, c)" "reads_session L c ms"
    by (rule reads_session_ConsE)
  have "msg_fits m" "list_all msg_fits ms" using Cons.prems(3) by simp_all
  from run_message [OF Cons.prems(2,4,5) c(1) this(1) Cons.prems(6,7)] obtain t1 where
    t1: "transcode_message L t = (Ok True, t1)" "stream_conn t1 = c" "transcoded L c0 m t t1" "transcoding (tconn t1)"
      "PixelFormat (tconn t1) = PixelFormat (tconn t)" by blast
  from t1(3) obtain k d where d: "took_bytes (Suc k) (tin t) (tin t1)" "calm (tout t1)"
    "written (tout t1) = written (tout t) @ fbs_chunk (d, ftime (tin t1))" "d \<noteq> []" "length d < 2 ^ 32"
    "reads_as L c0 d (raw_msg m)" unfolding transcoded_def by blast
  have "fbs_ending (tin t1) = EOF \<or> fbs_ending (tin t1) = UnexpectedEOF"
    using d(1) Cons.prems(8) by (simp add: took_bytes_def)
  then obtain t' cs where t': "transcode_loop L t1 = (Err (Exited 0), t')" "calm (tout t')"
    "written (tout t') = written (tout t1) @ concat (map fbs_chunk cs)"
    "list_all2 (reads_as L c0) (map fst cs) (map raw_msg ms)"
    "list_all (\<lambda>c. fst c \<noteq> [] \<and> length (fst c) < 2 ^ 32) cs" "timed (length (fbs_stamped (tin t1))) (tin t1) cs"
    using Cons.IH [of t1] c(2) t1(2,4,5) d(2) Cons.prems(2,6,7) \<open>list_all msg_fits ms\<close> by auto
  have "transcode_loop L t = (Err (Exited 0), t')"
    using t1(1) t'(1) by (subst transcode_loop.simps) simp
  moreover have "timed (Suc k + length (fbs_stamped (tin t1))) (tin t) ([(d, ftime (tin t1))] @ cs)"
    by (rule timed_add [OF d(1) timed_one [OF d(1)] t'(6)])
  moreover have "Suc k + length (fbs_stamped (tin t1)) = length (fbs_stamped (tin t))"
    using d(1) by (auto simp: took_bytes_def)
  ultimately show ?case
    using t'(2-5) d(3-6) by (intro exI [of _ t'] exI [of _ "(d, ftime (tin t1)) # cs"]) simp
qed

section \<open>The beginning of a recording\<close>

text \<open>Bytes of the recording that went into chunks as they are.\<close>

definition copied ::
  "(u8 list \<times> u8 list) list \<Rightarrow> ('i, 'z, 'm) transcoder_scheme \<Rightarrow> ('i, 'z, 'm) transcoder_scheme \<Rightarrow> bool" where
  "copied cs t t' \<longleftrightarrow> (let n = length (concat (map fst cs)) in
     took_bytes n (tin t) (tin t') \<and> concat (map fst cs) = map fst (take n (fbs_stamped (tin t))) \<and>
     timed n (tin t) cs \<and> tconn t' = tconn t \<and> calm (tout t') \<and>
     written (tout t') = written (tout t) @ concat (map fbs_chunk cs))"

lemma copied_add:
  assumes "copied cs t u" and "copied ds u v"
  shows "copied (cs @ ds) t v"
proof -
  let ?m = "length (concat (map fst cs))" and ?n = "length (concat (map fst ds))"
  have t: "took_bytes ?m (tin t) (tin u)" "took_bytes ?n (tin u) (tin v)"
    and c: "concat (map fst cs) = map fst (take ?m (fbs_stamped (tin t)))"
      "concat (map fst ds) = map fst (take ?n (fbs_stamped (tin u)))"
    and m: "timed ?m (tin t) cs" "timed ?n (tin u) ds"
    using assms by (simp_all only: copied_def Let_def)
  have "concat (map fst (cs @ ds)) = map fst (take (?m + ?n) (fbs_stamped (tin t)))"
    using c t(1) unfolding take_add map_append concat_append by (simp only: took_bytes_def)
  moreover have "length (concat (map fst (cs @ ds))) = ?m + ?n" by simp
  ultimately show ?thesis
    using took_bytes_add [OF t] timed_add [OF t(1) m] assms
    unfolding copied_def Let_def by (simp only: map_append concat_append append_assoc simp_thms)
qed

lemma copied_rest:
  assumes "copied cs t u" and "map fst (fbs_stamped (tin t)) = concat (map fst cs) @ rest"
  shows "map fst (fbs_stamped (tin u)) = rest"
  using assms by (simp add: copied_def Let_def took_bytes_def flip: drop_map)

lemma copy_run:
  assumes "calm (tout t)" and "map fst (fbs_stamped (tin t)) = bs @ rest" and "bs \<noteq> []"
  shows "\<exists>t1 t2. next_bytes (length bs) t = (Ok bs, t1) \<and> emit bs t1 = (Ok (), t2) \<and> copied [(bs, ftime (tin t2))] t t2"
proof -
  have "length bs \<le> length (fbs_stamped (tin t))" using arg_cong [OF assms(2), of length] by simp
  from next_bytes_run [OF this] obtain f where
    f: "next_bytes (length bs) t = (Ok (map fst (take (length bs) (fbs_stamped (tin t)))), t\<lparr>tin := f\<rparr>)"
      "took_bytes (length bs) (tin t) f" .
  have bs: "map fst (take (length bs) (fbs_stamped (tin t))) = bs" using assms(2) by (simp flip: take_map)
  have "calm (tout (t\<lparr>tin := f\<rparr>))" using assms(1) by simp
  from emit_run [OF this, of bs] obtain w where
    w: "emit bs (t\<lparr>tin := f\<rparr>) = (Ok (), t\<lparr>tin := f, tout := w\<rparr>)" "calm w"
      "written w = written (tout t) @ fbs_chunk (bs, ftime f)" by auto
  obtain k where k: "length bs = Suc k" using assms(3) by (cases bs) auto
  have "copied [(bs, ftime f)] t (t\<lparr>tin := f, tout := w\<rparr>)"
    using f(2) w(2,3) bs timed_one [of k "tin t" f bs] k by (simp add: copied_def Let_def)
  then show ?thesis using f(1) bs w(1) by auto
qed

text \<open>What a server sends up to the first message: version 3.3, password authentication, \<open>ServerInit\<close>.\<close>

definition server_hello :: "u8 list \<Rightarrow> u8 list \<Rightarrow> pixel_format \<Rightarrow> u8 list \<Rightarrow> u8 list list" where
  "server_hello challenge dims pf name =
     [version_string 3, [0, 0, 0, 2], challenge, [0, 0, 0, 0], dims @ pf_bytes pf @ be32 (of_nat (length name)) @ name]"

lemma check_ret: "check (ret x) = ret x"
  by (rule ext) (simp add: check_def)

lemma bindM_emit: "emit bs t = (Ok (), u) \<Longrightarrow> bindM (emit bs) f t = f () u"
  by (simp add: bindM_def)

lemma bindM_next: "next_bytes n t = (Ok bs, u) \<Longrightarrow> bindM (next_bytes n) f t = f bs u"
  by (simp add: bindM_def)

lemma copy_next:
  assumes "copied cs s t" and "map fst (fbs_stamped (tin s)) = concat (map fst cs) @ bs @ rest" and "bs \<noteq> []"
  obtains t1 t2 where "next_bytes (length bs) t = (Ok bs, t1)" and "emit bs t1 = (Ok (), t2)"
    and "copied (cs @ [(bs, ftime (tin t2))]) s t2"
proof -
  have "calm (tout t)" using assms(1) by (simp add: copied_def Let_def)
  from copy_run [OF this copied_rest [OF assms(1,2)] assms(3)] obtain t1 t2 where
    t: "next_bytes (length bs) t = (Ok bs, t1)" "emit bs t1 = (Ok (), t2)" "copied [(bs, ftime (tin t2))] t t2" by blast
  show thesis by (rule that [OF t(1,2) copied_add [OF assms(1) t(3)]])
qed

lemma run_handshake:
  assumes "calm (tout s)" and "length challenge = 16"
    and "map fst (fbs_stamped (tin s)) = version_string 3 @ [0, 0, 0, 2] @ challenge @ [0, 0, 0, 0] @ rest"
  shows "\<exists>t cs. copy_handshake s = (Ok (), t) \<and> copied cs s t \<and>
    map fst cs = [version_string 3, [0, 0, 0, 2], challenge, [0, 0, 0, 0]]"
proof -
  have 0: "copied [] s s" using assms(1) by (simp add: copied_def Let_def took_bytes_def timed_def)
  have ne: "version_string 3 \<noteq> []" "challenge \<noteq> []" using assms(2) by (auto simp: version_string_def)
  from copy_next [OF 0 _ ne(1), of "[0, 0, 0, 2] @ challenge @ [0, 0, 0, 0] @ rest"] assms(3) obtain t1 t2 where
    1: "next_bytes (length (version_string 3)) s = (Ok (version_string 3), t1)" "emit (version_string 3) t1 = (Ok (), t2)"
      "copied ([] @ [(version_string 3, ftime (tin t2))]) s t2" by auto
  from copy_next [OF 1(3), of "[0, 0, 0, 2]" "challenge @ [0, 0, 0, 0] @ rest"] assms(3) obtain t3 t4 where
    2: "next_bytes (length [0, 0, 0, 2 :: u8]) t2 = (Ok [0, 0, 0, 2], t3)" "emit [0, 0, 0, 2] t3 = (Ok (), t4)"
      "copied (([] @ [(version_string 3, ftime (tin t2))]) @ [([0, 0, 0, 2], ftime (tin t4))]) s t4" by auto
  from copy_next [OF 2(3) _ ne(2), of "[0, 0, 0, 0] @ rest"] assms(3) obtain t5 t6 where
    3: "next_bytes (length challenge) t4 = (Ok challenge, t5)" "emit challenge t5 = (Ok (), t6)"
      "copied ((([] @ [(version_string 3, ftime (tin t2))]) @ [([0, 0, 0, 2], ftime (tin t4))]) @
        [(challenge, ftime (tin t6))]) s t6" by auto
  from copy_next [OF 3(3), of "[0, 0, 0, 0]" rest] assms(3) obtain t7 t8 where
    4: "next_bytes (length [0, 0, 0, 0 :: u8]) t6 = (Ok [0, 0, 0, 0], t7)" "emit [0, 0, 0, 0] t7 = (Ok (), t8)"
      "copied (((([] @ [(version_string 3, ftime (tin t2))]) @ [([0, 0, 0, 2], ftime (tin t4))]) @
        [(challenge, ftime (tin t6))]) @ [([0, 0, 0, 0], ftime (tin t8))]) s t8" by auto
  have v: "ParseProtocolVersion (version_string 3) = Ok (3, 3)"
    using version_msg_parsed [of 3 3] by (simp add: version_msg_def digits3_def version_string_def)
  have l: "length (version_string 3) = 12" "length [0, 0, 0, 2 :: u8] = 4" "length [0, 0, 0, 0 :: u8] = 4"
    by (simp_all add: version_string_def)
  note n = 1(1) [unfolded l] 2(1) [unfolded l] 3(1) [unfolded assms(2)] 4(1) [unfolded l]
  have g: "get_be32 [0, 0, 0, 2] = 2" "get_be32 [0, 0, 0, 0] = 0" by (simp_all add: get_be32_def)
  have auth: "vncAuth t4 = (Ok (), t8)"
    by (simp add: vncAuth_def bindM_next [OF n(3)] bindM_next [OF n(4)] bindM_emit [OF 3(2)] 4(2) g)
  have sec: "bindM (next_bytes 4) (\<lambda>b. if get_be32 b \<noteq> 2 then fatal else bindM (emit b) (\<lambda>_. vncAuth)) t2 = (Ok (), t8)"
    by (simp add: bindM_next [OF n(2)] bindM_emit [OF 2(2)] auth g)
  note then_sec = bindM_Ok [where m = "bindM (next_bytes 4) (\<lambda>b. if get_be32 b \<noteq> 2 then fatal else bindM (emit b) (\<lambda>_. vncAuth))"
      and s = t2, OF sec]
  have "copy_handshake s = (Ok (), t8)"
    by (simp add: copy_handshake_def bindM_next [OF n(1)] v check_ret bindM_emit [OF 1(2)] then_sec sec)
  then show ?thesis using 4(3) by (intro exI conjI) auto
qed

lemma run_init:
  assumes "copied cs s t" and "length dims = 4" and "fbs_pf_ok pf" and "length name < 2 ^ 32"
    and "map fst (fbs_stamped (tin s)) = concat (map fst cs) @ (dims @ pf_bytes pf @ be32 (of_nat (length name)) @ name) @ rest"
  shows "\<exists>u ts. copy_init t = (Ok pf, u) \<and>
    copied (cs @ [(dims @ pf_bytes pf @ be32 (of_nat (length name)) @ name, ts)]) s u"
proof -
  let ?b = "dims @ pf_bytes pf @ be32 (of_nat (length name))"
  have S: "map fst (fbs_stamped (tin t)) = ?b @ name @ rest" using copied_rest [OF assms(1,5)] by simp
  have c: "calm (tout t)" using assms(1) by (simp add: copied_def Let_def)
  have len: "length ?b = 24" using assms(2) by simp
  have "length (fbs_stamped (tin t)) = 24 + length name + length rest"
    using arg_cong [OF S, of length] assms(2) by simp
  then have "24 \<le> length (fbs_stamped (tin t))" "24 + length name \<le> length (fbs_stamped (tin t))" by simp_all
  from next_bytes_run [OF this(1)] obtain f where
    f: "next_bytes 24 t = (Ok (map fst (take 24 (fbs_stamped (tin t)))), t\<lparr>tin := f\<rparr>)" "took_bytes 24 (tin t) f" .
  have b: "map fst (take 24 (fbs_stamped (tin t))) = ?b" using S assms(2) by (simp flip: take_map)
  have "length name \<le> length (fbs_stamped (tin (t\<lparr>tin := f\<rparr>)))"
    using f(2) \<open>24 + length name \<le> length (fbs_stamped (tin t))\<close> by (simp add: took_bytes_def)
  from next_bytes_run [OF this] obtain g where
    g: "next_bytes (length name) (t\<lparr>tin := f\<rparr>) = (Ok (map fst (take (length name) (fbs_stamped f))), t\<lparr>tin := g\<rparr>)"
      "took_bytes (length name) f g" by auto
  have nm: "map fst (take (length name) (fbs_stamped f)) = name"
    using f(2) S assms(2) by (simp add: took_bytes_def flip: take_map drop_map)
  have "calm (tout (t\<lparr>tin := g\<rparr>))" using c by simp
  from emit_run [OF this, of "?b @ name"] obtain w where
    w: "emit (?b @ name) (t\<lparr>tin := g\<rparr>) = (Ok (), t\<lparr>tin := g, tout := w\<rparr>)" "calm w"
      "written w = written (tout t) @ fbs_chunk (?b @ name, ftime g)" by auto
  have pf: "fst (ReadPixelFormat zero_pf (\<lparr>rbytes = take 16 (drop 4 ?b), rend = EOF\<rparr> :: reader)) = Ok pf"
    using pf_codec.dec_enc [of pf "\<lparr>rbytes = pf_bytes pf, rend = EOF\<rparr> :: reader" "[]"] assms(2,3)
    by (simp add: plain_pf_def fbs_pf_ok_def)
  have n: "unat (get_be32 (take 4 (drop 20 ?b))) = length name"
    using assms(2,4) get_be32_be32 [of "of_nat (length name)" "[]"] by (simp add: unat_of_nat take_bit_nat_eq_self)
  have "copy_init t = (Ok pf, t\<lparr>tin := g, tout := w\<rparr>)"
    unfolding copy_init_def bindM_next [OF f(1) [unfolded b]] pf n
    using assms(3) g(1) nm w(1) by (simp add: check_def bindM_def)
  moreover have "copied [(?b @ name, ftime g)] t (t\<lparr>tin := g, tout := w\<rparr>)"
  proof -
    have t: "took_bytes (24 + length name) (tin t) g" by (rule took_bytes_add [OF f(2) g(2)])
    then have "timed (Suc (23 + length name)) (tin t) [(?b @ name, ftime g)]" by (intro timed_one) simp
    moreover have "map fst (take (24 + length name) (fbs_stamped (tin t))) = ?b @ name"
      using S assms(2) by (simp flip: take_map)
    ultimately show ?thesis using t w(2,3) assms(2) by (simp add: copied_def Let_def)
  qed
  from copied_add [OF assms(1) this] have "copied (cs @ [(?b @ name, ftime g)]) s (t\<lparr>tin := g, tout := w\<rparr>)" .
  ultimately show ?thesis by (intro exI conjI) simp_all
qed

section \<open>The whole program\<close>

definition recording_bytes :: "u8 list \<Rightarrow> (u8 list \<times> u8 list) list \<Rightarrow> u8 list" where
  "recording_bytes line cs = fbs_version @ line @ [10] @ concat (map fbs_chunk cs)"

text \<open>The header is copied, and the recording begins after it.\<close>

lemma run_header:
  assumes "10 \<notin> set line" and "list_all chunk_ok cs"
  shows "\<exists>t. copy_header (transcode_start i \<lparr>rbytes = recording_bytes line cs, rend = EOF\<rparr> [] :: ('i, 'z) transcoder) = (Ok (), t) \<and>
    calm (tout t) \<and> written (tout t) = fbs_version @ line @ [10] \<and> tconn t = transcode_conn i zero_pf \<and>
    fbs_stamped (tin t) = concat (map stamp_bytes cs) \<and> fbs_ending (tin t) = UnexpectedEOF"
proof -
  let ?rest = "concat (map fbs_chunk cs)" 
    and ?s = "transcode_start i \<lparr>rbytes = recording_bytes line cs, rend = EOF\<rparr> [] :: ('i, 'z) transcoder"
  let ?in = "\<lambda>b. \<lparr>ffile = \<lparr>rbytes = b, rend = EOF\<rparr>, fbuf = [], ftime = [0, 0, 0, 0], ferr = None\<rparr>"
  have 12: "length fbs_version = 12" by (simp add: fbs_version_def)
  have v: "check (from_file (read_full 12)) ?s = (Ok fbs_version, ?s\<lparr>tin := ?in (line @ [10] @ ?rest)\<rparr>)"
    using 12 by (simp add: check_def from_file_def fbs_file_def zoom_def read_full_def transcode_start_def recording_bytes_def)
  let ?t = "?s\<lparr>tin := ?in (line @ [10] @ ?rest)\<rparr>"
  have "calm (tout ?t)" by (simp add: transcode_start_def calm_def)
  from putsD [OF puts_out this] obtain w where
    w: "out fbs_version ?t = (Ok (), ?t\<lparr>tout := w\<rparr>)" "calm w" "written w = fbs_version"
    by (auto simp: transcode_start_def written_def)
  have "read_until 10 \<lparr>rbytes = line @ [10] @ ?rest, rend = EOF\<rparr> = (Ok (line @ [10]), \<lparr>rbytes = ?rest, rend = EOF\<rparr>)"
    using assms(1) by (auto simp: read_until_def takeWhile_append dropWhile_append)
  then have l: "check (from_file (read_until 10)) (?t\<lparr>tout := w\<rparr>) = (Ok (line @ [10]), ?t\<lparr>tin := ?in ?rest, tout := w\<rparr>)"
    by (simp add: check_def from_file_def fbs_file_def zoom_def)
  let ?u = "?t\<lparr>tin := ?in ?rest, tout := w\<rparr>"
  have "calm (tout ?u)" using w(2) by simp
  from putsD [OF puts_out [of "line @ [10]"] this] obtain w2 where
    w2: "out (line @ [10]) ?u = (Ok (), ?u\<lparr>tout := w2\<rparr>)" "calm w2" "written w2 = fbs_version @ line @ [10]"
    using w(3) by auto
  have "copy_header ?s = (Ok (), ?u\<lparr>tout := w2\<rparr>)"
    unfolding copy_header_def using v w(1) l w2(1) by (simp add: bindM_def)
  then show ?thesis
    using w2(2,3) chunks_written [OF assms(2)]
    by (intro exI [of _ "?u\<lparr>tout := w2\<rparr>"])
      (simp add: transcode_start_def fbs_stamped_def fbs_ending_def stamp_bytes_def)
qed

definition recording_hello :: "u8 list \<Rightarrow> u8 list \<Rightarrow> pixel_format \<Rightarrow> u8 list \<Rightarrow> bool" where
  "recording_hello challenge dims pf name \<longleftrightarrow>
     length challenge = 16 \<and> length dims = 4 \<and> fbs_pf_ok pf \<and> length name < 2 ^ 32 - 24"

definition transcode_client :: "'i \<Rightarrow> pixel_format \<Rightarrow> u8 list \<Rightarrow> ('i, 'z) server_client" where
  "transcode_client i pf bs = (transcode_conn i pf)\<lparr>rend := UnexpectedEOF, rbytes := bs\<rparr>"

lemma transcoding_conn: "fbs_pf_ok pf \<Longrightarrow> transcoding (transcode_conn i pf)"
  by (simp add: transcoding_def transcode_conn_def transcode_encs_def)

text \<open>The chunks a recording is made of, with the times in order taken from the times of another.\<close>

lemma transcode_main_run:
  fixes L :: "('i, 'z) libs"
  assumes "libs_return L" and "10 \<notin> set line" and "list_all chunk_ok cs" and "recording_hello challenge dims pf name"
    and "concat (map fst cs) = concat (server_hello challenge dims pf name) @ bs"
    and "reads_session L (transcode_client i pf bs) ms" and "list_all msg_fits ms"
  shows "\<exists>t ds. transcode_main L i (transcode_start i \<lparr>rbytes = recording_bytes line cs, rend = EOF\<rparr> []) = (Err (Exited 0), t) \<and>
    written (tout t) = recording_bytes line ds \<and> list_all chunk_ok ds \<and>
    subseq (map snd ds) (concat (map (\<lambda>c. replicate (length (fst c)) (snd c)) cs)) \<and>
    (\<exists>es. map fst ds = server_hello challenge dims pf name @ es \<and>
      list_all2 (reads_as L (transcode_conn i pf)) es (map raw_msg ms))"
proof -
  have ok: "length challenge = 16" "length dims = 4" "fbs_pf_ok pf" "length name < 2 ^ 32" "length name < 2 ^ 32 - 24"
    using assms(4) by (simp_all add: recording_hello_def)
  from run_header [OF assms(2,3), where 'z = 'z, of i] obtain s :: "('i, 'z) transcoder" where
    s: "copy_header (transcode_start i \<lparr>rbytes = recording_bytes line cs, rend = EOF\<rparr> []) = (Ok (), s)" "calm (tout s)"
      "written (tout s) = fbs_version @ line @ [10]" "fbs_stamped (tin s) = concat (map stamp_bytes cs)"
      "fbs_ending (tin s) = UnexpectedEOF" by blast
  have fst_S: "map fst (concat (map stamp_bytes cs)) = concat (map fst cs)"
    by (simp add: map_concat comp_def stamp_bytes_def)
  have snd_S: "map snd (concat (map stamp_bytes cs)) = concat (map (\<lambda>c. replicate (length (fst c)) (snd c)) cs)"
    by (simp add: map_concat comp_def stamp_bytes_def map_replicate_const)
  have S: "map fst (fbs_stamped (tin s)) = version_string 3 @ [0, 0, 0, 2] @ challenge @ [0, 0, 0, 0] @
      (dims @ pf_bytes pf @ be32 (of_nat (length name)) @ name) @ bs"
    using assms(5) s(4) fst_S by (simp add: server_hello_def)
  from run_handshake [OF s(2) ok(1) S] obtain t cs1 where
    t: "copy_handshake s = (Ok (), t)" "copied cs1 s t" "map fst cs1 = [version_string 3, [0, 0, 0, 2], challenge, [0, 0, 0, 0]]"
    by (elim exE conjE) (rule that)
  have "map fst (fbs_stamped (tin s)) = concat (map fst cs1) @ (dims @ pf_bytes pf @ be32 (of_nat (length name)) @ name) @ bs"
    using S t(3) by simp
  from run_init [OF t(2) ok(2,3,4) this] obtain u ts where
    u: "copy_init t = (Ok pf, u)" "copied (cs1 @ [(dims @ pf_bytes pf @ be32 (of_nat (length name)) @ name, ts)]) s u" by blast
  let ?cs = "cs1 @ [(dims @ pf_bytes pf @ be32 (of_nat (length name)) @ name, ts)]"
  have hello: "map fst ?cs = server_hello challenge dims pf name" using t(3) by (simp add: server_hello_def)
  let ?u = "u\<lparr>tconn := transcode_conn i pf\<rparr>"
  have took: "took_bytes (length (concat (map fst ?cs))) (tin s) (tin u)" and timed: "timed (length (concat (map fst ?cs))) (tin s) ?cs"
    and uw: "calm (tout u)" "written (tout u) = written (tout s) @ concat (map fbs_chunk ?cs)"
    using u(2) by (simp_all only: copied_def Let_def)
  have "map fst (fbs_stamped (tin u)) = bs"
  proof (rule copied_rest [OF u(2)])
    show "map fst (fbs_stamped (tin s)) = concat (map fst ?cs) @ bs" unfolding hello s(4) fst_S by (rule assms(5))
  qed
  moreover have ue: "fbs_ending (tin u) = UnexpectedEOF" using took s(5) by (simp add: took_bytes_def)
  ultimately have "stream_conn ?u = transcode_client i pf bs" by (simp add: stream_conn_def transcode_client_def)
  then have "reads_session L (stream_conn ?u) ms" using assms(6) by simp
  moreover have "calm (tout ?u)" "transcoding (tconn ?u)" "fbs_ending (tin ?u) = EOF \<or> fbs_ending (tin ?u) = UnexpectedEOF"
    using uw(1) ue by (simp_all add: transcoding_conn [OF ok(3)])
  moreover have "transcoding (transcode_conn i pf :: ('i, 'z) server_client)" by (rule transcoding_conn [OF ok(3)])
  moreover have "PixelFormat (transcode_conn i pf :: ('i, 'z) server_client) = PixelFormat (tconn ?u)" by simp
  ultimately obtain t' ds where
    loop: "transcode_loop L ?u = (Err (Exited 0), t')" "written (tout t') = written (tout u) @ concat (map fbs_chunk ds)"
      "list_all2 (reads_as L (transcode_conn i pf)) (map fst ds) (map raw_msg ms)"
      "list_all (\<lambda>c. fst c \<noteq> [] \<and> length (fst c) < 2 ^ 32) ds" "timed (length (fbs_stamped (tin u))) (tin u) ds"
    using run_loop [OF _ assms(1,7), of ?u "transcode_conn i pf"] by auto
  have "transcode_main L i (transcode_start i \<lparr>rbytes = recording_bytes line cs, rend = EOF\<rparr> []) = (Err (Exited 0), t')"
    using s(1) t(1) u(1) loop(1) by (simp add: transcode_main_def bindM_def)
  moreover have "written (tout t') = recording_bytes line (?cs @ ds)"
    using loop(2) uw(2) s(3) by (simp add: recording_bytes_def)
  moreover have sub: "subseq (map snd (?cs @ ds)) (concat (map (\<lambda>c. replicate (length (fst c)) (snd c)) cs))"
  proof -
    have "timed (length (concat (map fst ?cs)) + length (fbs_stamped (tin u))) (tin s) (?cs @ ds)"
      by (rule timed_add [OF took timed loop(5)])
    moreover have "length (concat (map fst ?cs)) + length (fbs_stamped (tin u)) = length (fbs_stamped (tin s))"
      using took by (auto simp: took_bytes_def)
    ultimately have "subseq (map snd (?cs @ ds)) (map snd (fbs_stamped (tin s)))"
      unfolding timed_def by (simp only: take_all order_refl)
    then show ?thesis using s(4) snd_S by simp
  qed
  moreover have "list_all chunk_ok (?cs @ ds)"
  proof -
    have "set (map snd (?cs @ ds)) \<subseteq> set (concat (map (\<lambda>c. replicate (length (fst c)) (snd c)) cs))"
      using list_emb_set [OF sub] by blast
    moreover have "\<forall>x \<in> set (concat (map (\<lambda>c. replicate (length (fst c)) (snd c)) cs)). length x = 4"
      using assms(3) by (auto simp: list_all_iff chunk_ok_def)
    ultimately have "\<forall>x \<in> set (map snd (?cs @ ds)). length x = 4" by blast
    then have "\<forall>c \<in> set (?cs @ ds). length (snd c) = 4" unfolding set_map by blast
    moreover have "\<forall>d \<in> set (map fst ?cs). d \<noteq> [] \<and> length d < 2 ^ 32"
      using hello ok(1,2,5) by (auto simp: server_hello_def version_string_def)
    then have "\<forall>c \<in> set ?cs. fst c \<noteq> [] \<and> length (fst c) < 2 ^ 32" unfolding set_map by blast
    moreover have "\<forall>c \<in> set ds. fst c \<noteq> [] \<and> length (fst c) < 2 ^ 32" using loop(4) by (simp only: list_all_iff)
    ultimately show ?thesis unfolding list_all_iff chunk_ok_def set_append by blast
  qed
  moreover have "map fst (?cs @ ds) = server_hello challenge dims pf name @ map fst ds" using hello by simp
  ultimately show ?thesis using loop(3) by blast
qed


definition demo_fbs_pf :: pixel_format where
  "demo_fbs_pf = \<lparr>BPP = 32, Depth = 24, BigEndian = False, TrueColor = True, RedMax = 255,
     GreenMax = 255, BlueMax = 255, RedShift = 16, GreenShift = 8, BlueShift = 0\<rparr>"

abbreviation demo_hello :: "u8 list list" where
  "demo_hello \<equiv> server_hello (replicate 16 7) [4, 0, 3, 0] demo_fbs_pf []"

definition demo_rects :: "rectangle list" where
  "demo_rects = [\<lparr>rX = 1, rY = 2, rWidth = 1, rHeight = 2, Enc = RawData [rgb 1 2 3, rgb 4 5 6]\<rparr>]"

lemma demo_hello_ok: "recording_hello (replicate 16 7) [4, 0, 3, 0] demo_fbs_pf []"
  by (simp add: recording_hello_def fbs_pf_ok_def demo_fbs_pf_def)

lemma demo_hello_chunks: "list_all chunk_ok (map (\<lambda>d. (d, [0, 0, 0, 1])) demo_hello)"
  by (simp add: server_hello_def chunk_ok_def version_string_def)

lemma demo_rects_read: "list_all rect_read demo_rects"
  by (simp add: demo_rects_def rect_read_def excessive_rect_def Area_def)

lemma demo_session:
  "reads_session demo_libs (transcode_client () demo_fbs_pf (concat
      [[2], [3] @ [0, 0, 0] @ be32 2 @ [104, 105], update_bytes demo_fbs_pf demo_rects]))
    [BellMessage, ServerCutTextMessage [104, 105], FramebufferUpdateMessage demo_rects]"
proof -
  let ?c = "transcode_conn () demo_fbs_pf"
  have "transcoding ?c" by (rule transcoding_conn) (simp add: fbs_pf_ok_def demo_fbs_pf_def)
  from reads_as_update [OF this demo_rects_read, of demo_libs]
  have "reads_as demo_libs ?c (update_bytes demo_fbs_pf demo_rects) (FramebufferUpdateMessage demo_rects)"
    by (simp add: transcode_conn_def demo_rects_def raw_rect_def)
  moreover have "reads_as demo_libs ?c ([3] @ [0, 0, 0] @ be32 2 @ [104, 105]) (ServerCutTextMessage [104, 105])"
    by (rule reads_as_cut_text) simp_all
  ultimately have "list_all2 (reads_as demo_libs ?c)
      [[2], [3] @ [0, 0, 0] @ be32 2 @ [104, 105], update_bytes demo_fbs_pf demo_rects]
      [BellMessage, ServerCutTextMessage [104, 105], FramebufferUpdateMessage demo_rects]"
    using reads_as_bell [of demo_libs ?c] by (simp only: list_all2_Cons list_all2_Nil simp_thms)
  then show ?thesis unfolding transcode_client_def by (rule reads_session_concat)
qed


text \<open>The regular end of a recording without messages: nothing of the output is in the file.\<close>

theorem transcode_loses_tail_witness:
  "transcode demo_libs () \<lparr>rbytes = recording_bytes [] (map (\<lambda>d. (d, [0, 0, 0, 1])) demo_hello), rend = EOF\<rparr> [] = (Some 0, [])"
proof -
  let ?cs = "map (\<lambda>d. (d, [0, 0, 0, 1 :: u8])) demo_hello"
  have "concat (map fst ?cs) = concat demo_hello @ []" by (simp add: comp_def)
  moreover have "reads_session demo_libs (transcode_client () demo_fbs_pf []) []"
    by (rule over) (simp add: transcode_client_def)
  ultimately obtain t ds where t: "transcode_main demo_libs ()
      (transcode_start () \<lparr>rbytes = recording_bytes [] ?cs, rend = EOF\<rparr> []) = (Err (Exited 0), t)"
    "written (tout t) = recording_bytes [] ds" "list_all chunk_ok ds" "map fst ds = demo_hello"
    using transcode_main_run [OF demo_libs_return, of "[]" ?cs "replicate 16 7" "[4, 0, 3, 0]" demo_fbs_pf "[]" "[]" "()" "[]",
        OF _ demo_hello_chunks demo_hello_ok] by auto
  have "length (fbs_chunk c) = 8 + length (fst c)" if "c \<in> set ds" for c
    using t(3) that by (auto simp: list_all_iff chunk_ok_def fbs_chunk_def)
  then have "length (concat (map fbs_chunk ds)) = sum_list (map ((\<lambda>d. 8 + length d) \<circ> fst) ds)"
    by (simp add: length_concat comp_def cong: map_cong)
  also have "\<dots> = sum_list (map (\<lambda>d. 8 + length d) demo_hello)" using t(4) by (metis map_map)
  finally have "length (written (tout t)) < 4096"
    using t(2) by (simp add: recording_bytes_def fbs_version_def server_hello_def version_string_def)
  with transcode_loses_tail [OF t(1)] show ?thesis by (auto simp: prod_eq_iff)
qed

end
