(* ===== verification/PyBinding.thy ===== *)
theory PyBinding
  imports Batch
begin

text \<open>
  The extension module for Python: \<^verbatim>\<open>main.go\<close> and \<^verbatim>\<open>gl.go\<close>. The C API of Python is a parameter, the record
  \<open>pyapi\<close> over a type \<open>'o\<close> of objects: each function that can raise gives the name of the exception
  (\<open>Inl\<close>) or its result (\<open>Inr\<close>). Calls that fail only when Python has no memory left are taken to succeed,
  and the reference counts are left out. A method gives \<open>None\<close> where the code returns a null pointer
  to report an exception; a null pointer passed to the C API ends the process, which is a panic here.
\<close>

section \<open>The C API of Python\<close>

datatype pyerr =
    PyExc string      \<comment> \<open>raised by Python\<close>
  | PyGo goerr        \<comment> \<open>\<open>go_vncdriver.Error\<close>, set by \<open>setError\<close>\<close>

record 'o pyapi =
  TupleItem :: "'o \<Rightarrow> nat \<Rightarrow> string + 'o"             \<comment> \<open>\<open>PyTuple_GetItem\<close>\<close>
  AsUnicode :: "'o \<Rightarrow> string + 'o"                   \<comment> \<open>\<open>PyUnicode_FromObject\<close>\<close>
  AsASCII :: "'o \<Rightarrow> string + 'o"                     \<comment> \<open>\<open>PyUnicode_AsASCIIString\<close>\<close>
  AsBytes :: "'o \<Rightarrow> string + string"                 \<comment> \<open>\<open>PyBytes_AsString\<close>\<close>
  ObjectRepr :: "'o \<Rightarrow> string + 'o"                  \<comment> \<open>\<open>PyObject_Repr\<close>\<close>
  AsLong :: "'o \<Rightarrow> string + int"                     \<comment> \<open>\<open>PyLong_AsLong\<close>\<close>
  IsTrue :: "'o \<Rightarrow> string + bool"                    \<comment> \<open>\<open>PyObject_IsTrue\<close>\<close>
  DictItem :: "'o \<Rightarrow> string \<Rightarrow> string + 'o option"   \<comment> \<open>\<open>PyDict_GetItemString\<close>\<close>
  ObjectIter :: "'o \<Rightarrow> string + 'o list \<times> string option"
    \<comment> \<open>\<open>PyObject_GetIter\<close>: the items \<open>PyIter_Next\<close> gives, and the exception it ends with\<close>
  FromUTF8 :: "goerr \<Rightarrow> string + string"            \<comment> \<open>\<open>PyUnicode_FromString\<close> of the text of an error\<close>

text \<open>
  The state of a conversion is the exception that is pending. A conversion that fails gives \<open>None\<close>.
\<close>

type_synonym 'a conversion = "(pyerr option, 'a option) prog"

definition pycall :: "string + 'a \<Rightarrow> 'a conversion" where
  "pycall r e = (case r of Inl x \<Rightarrow> (Ok None, Some (PyExc x)) | Inr a \<Rightarrow> (Ok (Some a), e))"

definition bindP :: "('s, 'a option) prog \<Rightarrow> ('a \<Rightarrow> ('s, 'b option) prog) \<Rightarrow> ('s, 'b option) prog" where
  "bindP m f = bindM m (\<lambda>r. case r of None \<Rightarrow> ret None | Some a \<Rightarrow> f a)"

definition setError :: "goerr \<Rightarrow> (pyerr option, unit) prog" where
  "setError e = modifyS (\<lambda>_. Some (PyGo e))"

text \<open>A step that failed is reported as an error of the driver, whatever Python had raised.\<close>

definition or_error :: "goerr \<Rightarrow> 'a conversion \<Rightarrow> 'a conversion" where
  "or_error e m =
     bindM m (\<lambda>r. case r of None \<Rightarrow> bindM (setError e) (\<lambda>_. ret None) | Some a \<Rightarrow> ret (Some a))"

section \<open>Conversions\<close>

text \<open>A C string ends at its first zero byte.\<close>

definition GoString :: "string \<Rightarrow> string" where
  "GoString s = takeWhile (\<lambda>ch. ch \<noteq> CHR 0x00) s"

definition GoString_FromPyString :: "'o pyapi \<Rightarrow> 'o \<Rightarrow> string conversion" where
  "GoString_FromPyString api t =
     bindP (or_error (Errorf ''could not convert to unicode'') (pycall (AsUnicode api t))) (\<lambda>u.
     bindP (or_error (Errorf ''could not encode to ascii'') (pycall (AsASCII api u))) (\<lambda>b.
     bindP (or_error (Errorf ''could not convert bytes to cstring'') (pycall (AsBytes api b))) (\<lambda>s.
     ret (Some (GoString s)))))"

definition PyObject_Repr :: "'o pyapi \<Rightarrow> 'o \<Rightarrow> string conversion" where
  "PyObject_Repr api obj =
     bindP (pycall (ObjectRepr api obj)) (\<lambda>res.
     bindP (pycall (AsUnicode api res)) (\<lambda>u.
     bindP (pycall (AsASCII api u)) (\<lambda>b.
     bindP (pycall (AsBytes api b)) (\<lambda>s. ret (Some (GoString s))))))"

text \<open>
  \<open>PyLong_AsLong\<close> gives \<open>-1\<close> when it fails; the code then asks whether any exception is pending.
\<close>

definition getIntFromTuple :: "'o pyapi \<Rightarrow> 'o \<Rightarrow> nat \<Rightarrow> int conversion" where
  "getIntFromTuple api tuple i =
     bindP (pycall (TupleItem api tuple i)) (\<lambda>item.
     bindM (pycall (AsLong api item)) (\<lambda>l.
     let tup = (case l of None \<Rightarrow> -1 | Some n \<Rightarrow> n) in
     bindM getS (\<lambda>e. if tup = -1 \<and> e \<noteq> None then ret None else ret (Some tup))))"

definition getBoolFromTuple :: "'o pyapi \<Rightarrow> 'o \<Rightarrow> nat \<Rightarrow> bool conversion" where
  "getBoolFromTuple api tuple i =
     bindP (pycall (TupleItem api tuple i)) (\<lambda>item. pycall (IsTrue api item))"

text \<open>
  An event is an interface value, \<open>None\<close> when it is nil. For an event of no known type the exception
  is set, but the conversion still counts as a success.
\<close>

definition convertEventPy :: "'o pyapi \<Rightarrow> 'o \<Rightarrow> vnc_event option conversion" where
  "convertEventPy api ev =
     bindM (pycall (TupleItem api ev 0)) (\<lambda>t.
     case t of
       None \<Rightarrow>
         bindM (modifyS (\<lambda>_. None)) (\<lambda>_.
         bindP (PyObject_Repr api ev) (\<lambda>_.
         bindM (setError (Errorf ''Expected non-empty tuple'')) (\<lambda>_. ret None)))
     | Some t \<Rightarrow>
         bindP (GoString_FromPyString api t) (\<lambda>eventType.
         if eventType = ''PointerEvent'' then
           bindP (getIntFromTuple api ev 1) (\<lambda>x.
           bindP (getIntFromTuple api ev 2) (\<lambda>y.
           bindP (getIntFromTuple api ev 3) (\<lambda>m.
           ret (Some (Some (PointerEvent (of_int m) (of_int x) (of_int y)))))))
         else if eventType = ''KeyEvent'' then
           bindP (getIntFromTuple api ev 1) (\<lambda>keysym.
           bindP (getBoolFromTuple api ev 2) (\<lambda>down.
           ret (Some (Some (KeyEvent (of_int keysym) down)))))
         else
           bindM (setError (Errorf ''invalid event type'')) (\<lambda>_. ret (Some None))))"

text \<open>What \<open>PyIter_Next\<close> does after the last item.\<close>

definition iter_end :: "string option \<Rightarrow> (pyerr option, unit) prog" where
  "iter_end fin = modifyS (\<lambda>e. case fin of None \<Rightarrow> e | Some x \<Rightarrow> Some (PyExc x))"

text \<open>
  The loops ask the iterator for the next item before they look at \<open>ok\<close>, and both add the item that
  failed to their result.
\<close>

definition convert_region :: "'o pyapi \<Rightarrow> 'o \<Rightarrow> (pyerr option, rect \<times> bool) prog" where
  "convert_region api item =
     (let region = (\<lambda>x width y height. \<lparr>rX = of_int x, rY = of_int y, rWidth = of_int width, rHeight = of_int height\<rparr>) in
      bindM (getIntFromTuple api item 0) (\<lambda>r. case r of None \<Rightarrow> ret (region 0 0 0 0, False) | Some x \<Rightarrow>
      bindM (getIntFromTuple api item 1) (\<lambda>r. case r of None \<Rightarrow> ret (region x 0 0 0, False) | Some width \<Rightarrow>
      bindM (getIntFromTuple api item 2) (\<lambda>r. case r of None \<Rightarrow> ret (region x width 0 0, False) | Some y \<Rightarrow>
      bindM (getIntFromTuple api item 3) (\<lambda>r. case r of None \<Rightarrow> ret (region x width y 0, False) | Some height \<Rightarrow>
      ret (region x width y height, True))))))"

fun region_loop ::
  "'o pyapi \<Rightarrow> 'o list \<Rightarrow> string option \<Rightarrow> rect list option \<Rightarrow> (pyerr option, rect list option \<times> bool) prog" where
  "region_loop api [] fin regions = bindM (iter_end fin) (\<lambda>_. ret (regions, True))"
| "region_loop api (item # items) fin regions =
     bindM (convert_region api item) (\<lambda>(r, ok).
     let regions' = Some (case_option [] id regions @ [r]) in
     if ok then region_loop api items fin regions'
     else bindM (if items = [] then iter_end fin else ret ()) (\<lambda>_. ret (regions', False)))"

definition convertSubscriptionPy ::
  "'o pyapi \<Rightarrow> 'o option \<Rightarrow> (pyerr option, rect list option \<times> bool) prog" where
  "convertSubscriptionPy api sub =
     (case sub of
        None \<Rightarrow> ret (None, True)
      | Some s \<Rightarrow>
          bindM (pycall (ObjectIter api s)) (\<lambda>it.
          case it of
            None \<Rightarrow> ret (None, False)
          | Some (items, fin) \<Rightarrow> region_loop api items fin None))"

section \<open>Steps with events that may be nil\<close>

text \<open>
  The events are interface values. \<open>Execute\<close> on a nil one is a nil dereference; without one these are \<open>Step\<close>
  of the session and of the batch.
\<close>

definition exec_event :: "vnc_event option \<Rightarrow> (client, unit) prog" where
  "exec_event ev = (case ev of None \<Rightarrow> panic NilDereference | Some e \<Rightarrow> Execute e)"

definition Step_events :: "vnc_event option list \<Rightarrow> (session, (nat option \<times> update list) option) prog" where
  "Step_events events =
     bindM getS (\<lambda>c.
     case serr c of
       Some e \<Rightarrow> fail e
     | None \<Rightarrow>
         if sconn c = None then ret None
         else
           bindM (forM events (\<lambda>ev. annotate ''could not step'' (on_conn (exec_event ev)))) (\<lambda>_.
           bindM Flip (\<lambda>r. ret (Some r))))"

fun batch_Step_events ::
  "(string \<times> vnc_event option list) list \<Rightarrow> (batch, (string \<times> step_result) list) prog" where
  "batch_Step_events [] = ret []"
| "batch_Step_events ((name, events) # actions) =
     bindM (on_session name (Step_events events)) (\<lambda>r.
     bindM (batch_Step_events actions) (\<lambda>rs. ret ((name, r) # rs)))"

lemma forM_map: "forM (map g xs) f = forM xs (\<lambda>x. f (g x))"
  by (induction xs) simp_all

lemma Step_events_Some [simp]: "Step_events (map Some es) = Step es"
  unfolding Step_events_def Step_def forM_map exec_event_def option.case by (rule refl)

lemma batch_Step_events_Some:
  "batch_Step_events (map (\<lambda>(n, es). (n, map Some es)) acts) = batch_Step acts"
  by (induction acts rule: batch_Step.induct) simp_all

section \<open>The state of a Python object\<close>

text \<open>
  An array of numpy is a view: its shape is \<open>(height, width, 3)\<close>, and its data are those of a screen of
  the session. The code keeps one for each screen it has handed out.
\<close>

record ndarray =
  nHeight :: u16
  nWidth :: u16
  nScreen :: nat

record session_info =
  vbatch :: batch
  names :: "string set"
  screenPyDict :: "string \<rightharpoonup> ndarray option"    \<comment> \<open>\<open>None\<close> inside is \<open>Py_None\<close>\<close>
  infoPyDict :: "string \<rightharpoonup> (string \<rightharpoonup> int)"
  errPyDict :: "string \<rightharpoonup> string"
  screenNumpy :: "string \<rightharpoonup> (nat \<rightharpoonup> ndarray)"
  rendererSet :: bool

definition new_info :: session_info where
  "new_info =
     \<lparr>vbatch = NewVNCBatch, names = {}, screenPyDict = Map.empty, infoPyDict = Map.empty,
      errPyDict = Map.empty, screenNumpy = Map.empty, rendererSet = False\<rparr>"

definition on_batch :: "(batch, 'a) prog \<Rightarrow> (session_info, 'a) prog" where
  "on_batch = zoom vbatch (\<lambda>b i. i\<lparr>vbatch := b\<rparr>)"

definition info_open :: "string \<Rightarrow> (session_info, unit) prog" where
  "info_open name =
     modifyS (\<lambda>i. i\<lparr>names := insert name (names i), screenNumpy := (screenNumpy i)(name \<mapsto> Map.empty)\<rparr>)"

definition info_close :: "string \<Rightarrow> (session_info, unit) prog" where
  "info_close name =
     bindM (drop_error (on_batch (batch_Close name))) (\<lambda>_.
     modifyS (\<lambda>i. i\<lparr>names := names i - {name}, screenNumpy := (screenNumpy i)(name := None)\<rparr>))"

text \<open>\<open>gl\<close> tells which of \<^verbatim>\<open>gl.go\<close> and \<^verbatim>\<open>no_gl.go\<close> is compiled in.\<close>

definition initRenderer :: "bool \<Rightarrow> string \<Rightarrow> (session_info, unit) prog" where
  "initRenderer gl name =
     (if \<not> gl then ret ()
      else
        bindM getS (\<lambda>i.
        if rendererSet i then ret ()
        else
          bindM (modifyS (\<lambda>i. i\<lparr>rendererSet := True\<rparr>)) (\<lambda>_.
          on_batch (batch_SetRenderer name True))))"

section \<open>The dictionaries of a step\<close>

text \<open>A key that is not one of the names is a null pointer for the C API.\<close>

definition with_key :: "string \<Rightarrow> (session_info \<Rightarrow> session_info) \<Rightarrow> (session_info, unit) prog" where
  "with_key name f = bindM getS (\<lambda>i. if name \<in> names i then modifyS f else panic NilDereference)"

text \<open>A new array takes the address of the first pixel, and a screen without pixels has none.\<close>

definition screen_array :: "string \<Rightarrow> nat \<Rightarrow> (session_info, ndarray) prog" where
  "screen_array name k =
     bindM getS (\<lambda>i.
     let arrays = screenNumpy i name in
     case (case arrays of None \<Rightarrow> None | Some m \<Rightarrow> m k) of
       Some a \<Rightarrow> ret a
     | None \<Rightarrow>
         (case sessions (vbatch i) name of
            None \<Rightarrow> panic NilDereference
          | Some s \<Rightarrow>
              let scr = screens s ! k;
                  a = \<lparr>nHeight = sHeight scr, nWidth = sWidth scr, nScreen = k\<rparr> in
              if sData scr = [] then panic IndexOutOfRange
              else
                (case arrays of
                   None \<Rightarrow> panic (PanicMessage ''assignment to entry in nil map'')
                 | Some m \<Rightarrow>
                     bindM (modifyS (\<lambda>i. i\<lparr>screenNumpy := (screenNumpy i)(name \<mapsto> m(k \<mapsto> a))\<rparr>)) (\<lambda>_. ret a))))"

definition screen_entry :: "string \<Rightarrow> nat option \<Rightarrow> (session_info, ndarray option) prog" where
  "screen_entry name scr =
     (case scr of None \<Rightarrow> ret None | Some k \<Rightarrow> bindM (screen_array name k) (\<lambda>a. ret (Some a)))"

definition put_screen :: "string \<times> nat option \<Rightarrow> (session_info, unit) prog" where
  "put_screen x =
     (case x of (name, scr) \<Rightarrow>
      bindM (screen_entry name scr) (\<lambda>ary.
      with_key name (\<lambda>i. i\<lparr>screenPyDict := (screenPyDict i)(name \<mapsto> ary)\<rparr>)))"

definition populateScreenPyDict :: "(string \<times> nat option) list \<Rightarrow> (session_info, unit) prog" where
  "populateScreenPyDict scrs =
     bindM (modifyS (\<lambda>i. i\<lparr>screenPyDict := Map.empty\<rparr>)) (\<lambda>_.
     forM scrs put_screen)"

definition count_rect :: "rectangle \<Rightarrow> int \<times> int \<times> int \<Rightarrow> int \<times> int \<times> int" where
  "count_rect r st = (case st of (pixels, rectangles, bytes) \<Rightarrow>
     (pixels + int (unat (rWidth r)) * int (unat (rHeight r)), rectangles + 1, bytes + (enc_Size (Enc r) + 8)))"

definition update_stats :: "update list \<Rightarrow> string \<rightharpoonup> int" where
  "update_stats us =
     (case fold (fold count_rect) us (0, 0, 0) of (pixels, rectangles, bytes) \<Rightarrow>
      [''stats.vnc.updates.n'' \<mapsto> int (length us), ''stats.vnc.updates.pixels'' \<mapsto> pixels,
       ''stats.vnc.updates.rectangles'' \<mapsto> rectangles, ''stats.vnc.updates.bytes'' \<mapsto> bytes])"

definition put_info :: "string \<times> update list \<Rightarrow> (session_info, unit) prog" where
  "put_info x =
     (case x of (name, us) \<Rightarrow> with_key name (\<lambda>i. i\<lparr>infoPyDict := (infoPyDict i)(name \<mapsto> update_stats us)\<rparr>))"

definition populateInfoPyDict :: "(string \<times> update list) list \<Rightarrow> (session_info, unit) prog" where
  "populateInfoPyDict updateN =
     bindM (modifyS (\<lambda>i. i\<lparr>infoPyDict := Map.empty\<rparr>)) (\<lambda>_.
     forM updateN put_info)"

text \<open>The text of an error need not be UTF-8; then the exception is pending and the loop is left.\<close>

fun error_loop :: "'o pyapi \<Rightarrow> (string \<times> goerr option) list \<Rightarrow> (session_info, string option) prog" where
  "error_loop api [] = ret None"
| "error_loop api ((name, err) # errs) =
     (case err of
        None \<Rightarrow> error_loop api errs
      | Some e \<Rightarrow>
          (case FromUTF8 api e of
             Inl x \<Rightarrow> ret (Some x)
           | Inr s \<Rightarrow>
               bindM (with_key name (\<lambda>i. i\<lparr>errPyDict := (errPyDict i)(name \<mapsto> s)\<rparr>)) (\<lambda>_. error_loop api errs)))"

definition populateErrorPyDict :: "'o pyapi \<Rightarrow> (string \<times> goerr option) list \<Rightarrow> (session_info, string option) prog" where
  "populateErrorPyDict api errN =
     bindM (modifyS (\<lambda>i. i\<lparr>errPyDict := Map.empty\<rparr>)) (\<lambda>_. error_loop api errN)"

section \<open>The methods\<close>

text \<open>
  All objects of the module share one table and one lock, so that a method is one program over the table
  and the pending exception. The arguments are what \<open>PyArg_ParseTupleAndKeywords\<close> gives, or the exception it raises.
  \<open>range\<close> over the names takes them in any order, which is the parameter \<open>ns\<close>; what the later loops build
  does not depend on the order.
\<close>

record binding =
  batchMgr :: "nat \<rightharpoonup> session_info"
  pyError :: "pyerr option"

definition on_py :: "(pyerr option, 'a) prog \<Rightarrow> (binding, 'a) prog" where
  "on_py = zoom pyError (\<lambda>e v. v\<lparr>pyError := e\<rparr>)"

definition on_info :: "nat \<Rightarrow> (session_info, 'a) prog \<Rightarrow> (binding, 'a) prog" where
  "on_info ptr m v =
     (case batchMgr v ptr of
        None \<Rightarrow> (Panic NilDereference, v)
      | Some i \<Rightarrow> (case m i of (r, i') \<Rightarrow> (r, v\<lparr>batchMgr := (batchMgr v)(ptr \<mapsto> i')\<rparr>)))"

text \<open>An error of the driver becomes the pending exception.\<close>

definition raising :: "(binding, 'a) prog \<Rightarrow> (binding, 'a option) prog" where
  "raising m v =
     (case m v of
        (Ok a, v') \<Rightarrow> (Ok (Some a), v')
      | (Err e, v') \<Rightarrow> (Ok None, v'\<lparr>pyError := Some (PyGo e)\<rparr>)
      | (Panic p, v') \<Rightarrow> (Panic p, v')
      | (Diverge, v') \<Rightarrow> (Diverge, v'))"

definition raise_go :: "goerr \<Rightarrow> (binding, 'a option) prog" where
  "raise_go e = bindM (on_py (setError e)) (\<lambda>_. ret None)"

definition with_info :: "nat \<Rightarrow> string \<Rightarrow> (session_info \<Rightarrow> (binding, 'a option) prog) \<Rightarrow> (binding, 'a option) prog" where
  "with_info ptr msg f =
     bindM getS (\<lambda>v. case batchMgr v ptr of None \<Rightarrow> raise_go (Errorf msg) | Some i \<Rightarrow> f i)"

record 'o connect_args =
  argName :: string
  argAddress :: string
  argPassword :: string
  argEncoding :: string
  argQualityLevel :: int
  argCompressLevel :: int
  argFineQualityLevel :: int
  argSubsampleLevel :: int
  argStartTimeout :: int
  argSubscription :: "'o option"

definition connect_config :: "'o connect_args \<Rightarrow> rect list option \<Rightarrow> vnc_config" where
  "connect_config a subscription =
     \<lparr>cfgAddress = argAddress a,
      cfgPassword = map of_char (if argPassword a = [] then ''openai'' else argPassword a),
      cfgEncoding = argEncoding a, cfgQualityLevel = argQualityLevel a, cfgCompressLevel = argCompressLevel a,
      cfgFineQualityLevel = argFineQualityLevel a, cfgSubsampleLevel = argSubsampleLevel a,
      cfgStartTimeout = signed_take_bit 63 (signed_take_bit 63 (argStartTimeout a) * second),
      cfgSubscription = subscription\<rparr>"

definition GoVNCDriver_c_init :: "nat \<Rightarrow> (binding, int) prog" where
  "GoVNCDriver_c_init ptr =
     bindM (modifyS (\<lambda>v. v\<lparr>batchMgr := (batchMgr v)(ptr \<mapsto> new_info)\<rparr>)) (\<lambda>_. ret 0)"

definition GoVNCDriver_connect ::
  "'o pyapi \<Rightarrow> nat \<Rightarrow> string + 'o connect_args \<Rightarrow> (binding, unit option) prog" where
  "GoVNCDriver_connect api ptr args =
     with_info ptr ''VNCSession is already closed'' (\<lambda>i.
     bindP (on_py (pycall args)) (\<lambda>a.
     bindM (on_py (convertSubscriptionPy api (argSubscription a))) (\<lambda>(subscription, ok).
     if \<not> ok then ret None
     else
       bindM (if argName a \<in> names i then on_info ptr (info_close (argName a)) else ret ()) (\<lambda>_.
       bindP (raising (on_info ptr (on_batch (batch_Open (argName a) (connect_config a subscription))))) (\<lambda>_.
       bindM (on_info ptr (info_open (argName a))) (\<lambda>_. ret (Some ())))))))"

text \<open>The actions of the sessions, converted; \<open>None\<close> when the method has to return.\<close>

fun event_loop ::
  "'o pyapi \<Rightarrow> 'o list \<Rightarrow> string option \<Rightarrow> vnc_event option list \<Rightarrow>
    (pyerr option, vnc_event option list \<times> bool) prog" where
  "event_loop api [] fin events = bindM (iter_end fin) (\<lambda>_. ret (events, True))"
| "event_loop api (item # items) fin events =
     bindM (convertEventPy api item) (\<lambda>r.
     case r of
       Some ev \<Rightarrow> event_loop api items fin (events @ [ev])
     | None \<Rightarrow> bindM (if items = [] then iter_end fin else ret ()) (\<lambda>_. ret (events @ [None], False)))"

definition action_events :: "'o pyapi \<Rightarrow> 'o option \<Rightarrow> (pyerr option, vnc_event option list \<times> bool) prog" where
  "action_events api action =
     (case action of
        None \<Rightarrow> ret ([], True)
      | Some a \<Rightarrow>
          bindM (pycall (ObjectIter api a)) (\<lambda>it.
          case it of
            None \<Rightarrow> panic NilDereference
          | Some (items, fin) \<Rightarrow> event_loop api items fin []))"

fun collect_events ::
  "'o pyapi \<Rightarrow> 'o \<Rightarrow> string list \<Rightarrow> (string \<times> vnc_event option list) list conversion" where
  "collect_events api dict [] = ret (Some [])"
| "collect_events api dict (name # ns) =
     bindM (pycall (DictItem api dict name)) (\<lambda>action.
     bindM getS (\<lambda>e.
     if e \<noteq> None then ret None
     else
       bindM (action_events api (case action of None \<Rightarrow> None | Some a \<Rightarrow> a)) (\<lambda>(events, ok).
       if \<not> ok then
         bindM getS (\<lambda>e.
         if e = None then bindM (setError (Errorf ''BUG: unpacking actions failed, but no Python error was set'')) (\<lambda>_. ret None)
         else ret None)
       else bindP (collect_events api dict ns) (\<lambda>acts. ret (Some ((name, events) # acts))))))"

definition observation :: "step_result \<Rightarrow> nat option" where
  "observation r = (case r of Ok (Some (scr, us)) \<Rightarrow> scr | _ \<Rightarrow> None)"

definition step_updates :: "step_result \<Rightarrow> update list" where
  "step_updates r = (case r of Ok (Some (scr, us)) \<Rightarrow> us | _ \<Rightarrow> [])"

definition step_error :: "step_result \<Rightarrow> goerr option" where
  "step_error r = (case r of Err e \<Rightarrow> Some e | _ \<Rightarrow> None)"

definition GoVNCDriver_step :: "'o pyapi \<Rightarrow> nat \<Rightarrow> string list \<Rightarrow> 'o \<Rightarrow> (binding, unit option) prog" where
  "GoVNCDriver_step api ptr ns dict =
     with_info ptr ''VNCSession is closed'' (\<lambda>i.
     bindP (on_py (collect_events api dict ns)) (\<lambda>acts.
     bindM (on_info ptr (on_batch (batch_Step_events acts))) (\<lambda>rs.
     bindM (on_info ptr (populateScreenPyDict (map (map_prod id observation) rs))) (\<lambda>_.
     bindM (on_info ptr (populateInfoPyDict (map (map_prod id step_updates) rs))) (\<lambda>_.
     bindM (on_info ptr (populateErrorPyDict api (map (map_prod id step_error) rs))) (\<lambda>x.
     case x of None \<Rightarrow> ret (Some ()) | Some e \<Rightarrow> on_py (pycall (Inl e))))))))"

definition GoVNCDriver_update :: "'o pyapi \<Rightarrow> nat \<Rightarrow> string + string \<times> 'o \<Rightarrow> (binding, unit option) prog" where
  "GoVNCDriver_update api ptr args =
     with_info ptr ''VNCSession is closed'' (\<lambda>i.
     bindP (on_py (pycall args)) (\<lambda>(name, sub).
     bindM (on_py (convertSubscriptionPy api (Some sub))) (\<lambda>(subscription, ok).
     if \<not> ok then ret None
     else raising (on_info ptr (on_batch (batch_SetSubscription name subscription))))))"

text \<open>\<open>ini\<close> is what \<open>Init\<close> of the renderer returns.\<close>

definition GoVNCDriver_render ::
  "bool \<Rightarrow> goerr option \<Rightarrow> nat \<Rightarrow> string + string \<times> int \<Rightarrow> (binding, unit option) prog" where
  "GoVNCDriver_render compiledWithGL ini ptr args =
     (if \<not> compiledWithGL then raise_go (Errorf ''go_vncdriver was installed without OpenGL support'')
      else
        bindP (on_py (pycall args)) (\<lambda>(name, close).
        with_info ptr ''VNCSession is already closed'' (\<lambda>i.
        bindP (raising (on_info ptr (initRenderer compiledWithGL name))) (\<lambda>_.
        raising (on_info ptr (on_batch (batch_Render name ini (close \<noteq> 0))))))))"

definition GoVNCDriver_c_dealloc :: "nat \<Rightarrow> string list \<Rightarrow> (binding, unit) prog" where
  "GoVNCDriver_c_dealloc ptr ns =
     bindM getS (\<lambda>v.
     case batchMgr v ptr of
       None \<Rightarrow> ret ()
     | Some i \<Rightarrow>
         bindM (forM ns (\<lambda>name. on_info ptr (info_close name))) (\<lambda>_.
         modifyS (\<lambda>v. v\<lparr>batchMgr := (batchMgr v)(ptr := None)\<rparr>)))"

definition GoVNCDriver_close :: "nat \<Rightarrow> string list \<Rightarrow> string + string \<Rightarrow> (binding, unit option) prog" where
  "GoVNCDriver_close ptr ns args =
     bindP (on_py (pycall args)) (\<lambda>name.
     if name = [] then bindM (GoVNCDriver_c_dealloc ptr ns) (\<lambda>_. ret (Some ()))
     else
       with_info ptr ''VNCSession is already closed'' (\<lambda>i.
       bindM (on_info ptr (info_close name)) (\<lambda>_. ret (Some ()))))"

end
