(* ===== verification/Goroutines.thy ===== *)
theory Goroutines
  imports SessionSystem
begin

text \<open>
  The steps of the goroutines of one session as a relation between its states, for the programs that own a
  session (the extension module, the viewer) and see it change between their calls.
\<close>

text \<open>The steps of the goroutines of one session.\<close>

inductive working :: "session \<Rightarrow> session \<Rightarrow> bool" where
  fails: "working s (report e s)"
| takes_error: "working s (take_error s)"
| maintains: "maintain_update u s = (r, s') \<Longrightarrow> working s s'"
| flips: "flip_goroutine s = (r, s') \<Longrightarrow> working s s'"
| rerequests: "rerequest s = (r, s') \<Longrightarrow> working s s'"

inductive goroutine :: "session \<Rightarrow> session \<Rightarrow> bool" where
  connects: "connect_setup conn s = (r, s') \<Longrightarrow> goroutine s s'"
| works: "working s s' \<Longrightarrow> goroutine s s'"

section \<open>Events on the wire\<close>

definition events_bytes :: "vnc_event list \<Rightarrow> u8 list" where
  "events_bytes es = concat (map (\<lambda>e. msg_bytes (event_msg e)) es)"

lemma events_written:
  assumes "sconn c = Some conn" and "wres conn = []"
  shows "forM es (\<lambda>ev. annotate ''could not step'' (on_conn (Execute ev))) c =
    (Ok (), c\<lparr>sconn := Some (conn\<lparr>sent := sent conn @ events_bytes es\<rparr>)\<rparr>)"
  using assms
proof (induction es arbitrary: c conn)
  case (Cons e es)
  let ?conn = "conn\<lparr>sent := sent conn @ msg_bytes (event_msg e)\<rparr>"
  let ?c = "c\<lparr>sconn := Some ?conn\<rparr>"
  have "annotate ''could not step'' (on_conn (Execute e)) c = (Ok (), ?c)"
    using Cons.prems by (simp add: annotate_def on_conn_def Execute_writes write_conn_ok)
  moreover have "forM es (\<lambda>ev. annotate ''could not step'' (on_conn (Execute ev))) ?c =
      (Ok (), ?c\<lparr>sconn := Some (?conn\<lparr>sent := sent ?conn @ events_bytes es\<rparr>)\<rparr>)"
    using Cons.prems by (intro Cons.IH) simp_all
  ultimately show ?case by (simp add: bindM_def events_bytes_def)
qed (simp add: events_bytes_def)

lemma Step_written:
  assumes "sconn c = Some conn" and "wres conn = []" and "serr c = None"
  shows "\<exists>x c'. Step es c = (Ok (Some x), c') \<and> sconn c' = Some (conn\<lparr>sent := sent conn @ events_bytes es\<rparr>)"
  using assms events_written [OF assms(1,2), of es]
  by (simp add: Step_def bindM_def Flip_def Let_def)

lemma events_bytes_parsed:
  assumes "rbytes r = events_bytes es @ rest"
  shows "mapM (\<lambda>_. parse_msg) es (r :: reader) = (Ok (map event_msg es), r\<lparr>rbytes := rest\<rparr>)"
  using assms unfolding events_bytes_def by (intro msg_codec.dec_list) (simp_all add: list_all_iff comp_def)

end
