(* ===== verification/PyInvariant.thy ===== *)
theory PyInvariant
  imports PyBinding Goroutines
begin

text \<open>
  What holds between the calls of the extension module: the names it keeps, the sessions of the batch and
  the arrays it has handed out belong together, whatever the goroutines of the sessions do meanwhile.
\<close>

section \<open>Screens stay where they are\<close>

text \<open>
  A screen that exists keeps its place and its size, and the pointers of the session stay valid. This is
  what an array that views a screen relies on.
\<close>

definition pointers_ok :: "session \<Rightarrow> bool" where
  "pointers_ok s \<longleftrightarrow> (\<forall>k. frontScreen s = Some k \<or> backScreen s = Some k \<longrightarrow> k < length (screens s))"

definition same_shape :: "screen \<Rightarrow> screen \<Rightarrow> bool" where
  "same_shape a b \<longleftrightarrow> sWidth b = sWidth a \<and> sHeight b = sHeight a \<and> length (sData b) = length (sData a)"

definition grows :: "session \<Rightarrow> session \<Rightarrow> bool" where
  "grows s s' \<longleftrightarrow>
     length (screens s) \<le> length (screens s') \<and>
     (\<forall>k < length (screens s). same_shape (screens s ! k) (screens s' ! k)) \<and>
     (pointers_ok s \<longrightarrow> pointers_ok s')"

interpretation growing: frame grows
proof
  show "grows s s" for s by (simp add: grows_def same_shape_def)
  show "grows s u" if "grows s t" "grows t u" for s t u
    using that by (auto simp: grows_def same_shape_def)
qed

lemma grows_same:
  "screens s' = screens s \<Longrightarrow> frontScreen s' = frontScreen s \<Longrightarrow> backScreen s' = backScreen s \<Longrightarrow> grows s s'"
  by (simp add: grows_def same_shape_def pointers_ok_def)

lemma grows_swap:
  "screens s' = screens s \<Longrightarrow> frontScreen s' = backScreen s \<Longrightarrow> backScreen s' = frontScreen s \<Longrightarrow> grows s s'"
  by (auto simp: grows_def same_shape_def pointers_ok_def)

lemma copy_go_length: "copy_go xs i n src = Ok ys \<Longrightarrow> length ys = length xs"
  by (auto simp: copy_go_def Let_def min_def split: if_splits)

lemma apply_row_length: "apply_row fbw r colors y (data, b) = Ok (data', b') \<Longrightarrow> length data' = length data"
  by (auto simp: apply_row_def Let_def split: if_splits elim!: bindO_OkE dest: copy_go_length)

lemma apply_rows_length:
  "foldO (\<lambda>y. apply_row fbw r colors (of_nat y)) ys (data, b) = Ok (data', b') \<Longrightarrow> length data' = length data"
proof (induction ys arbitrary: data b)
  case (Cons y ys)
  from Cons.prems obtain data1 b1 where "apply_row fbw r colors (of_nat y) (data, b) = Ok (data1, b1)"
    "foldO (\<lambda>y. apply_row fbw r colors (of_nat y)) ys (data1, b1) = Ok (data', b')"
    by (auto elim!: bindO_OkE)
  with Cons.IH apply_row_length show ?case by metis
qed simp

lemma grows_apply_to_back: "keeps grows (apply_to_back r)"
proof -
  have *: "grows c (c\<lparr>screens := (screens c)[b := (screens c ! b)\<lparr>sData := data\<rparr>]\<rparr>)"
    if "applyRect fbw r colors (sData (screens c ! b)) = Ok (data, n)" for c b data n fbw colors
    using apply_rows_length [OF that [unfolded applyRect_def]]
    by (cases "b < length (screens c)") (auto simp: grows_def same_shape_def pointers_ok_def nth_list_update)
  show ?thesis
    by (auto simp: keeps_def apply_to_back_def Let_def growing.refl * split: option.split outcome.split)
qed

lemma grows_applyDeferred: "keeps grows applyDeferred"
  unfolding applyDeferred_def applyUpdate_def
  by (intro growing.keeps_prog growing.keeps_forM keeps_drop_error grows_apply_to_back) (simp_all add: grows_same)

lemma grows_maintain_update: "keeps grows (maintain_update u)"
  unfolding maintain_update_def applyUpdate_def
  by (intro growing.keeps_prog growing.keeps_forM grows_applyDeferred grows_apply_to_back)
    (simp_all add: grows_same Let_def)

lemma grows_on_conn: "keeps grows (on_conn m)"
  by (auto simp: keeps_def on_conn_def growing.refl grows_same split: option.split prod.split)

lemma grows_requestUpdate: "keeps grows requestUpdate"
  unfolding requestUpdate_def
  by (intro growing.keeps_bindM growing.keeps_getS keeps_case_option growing.keeps_forM grows_on_conn)

lemma grows_report: "grows c (report e c)"
  by (simp add: report_def grows_same growing.refl)

lemma grows_reporting: "keeps grows m \<Longrightarrow> keeps grows (reporting m)"
  unfolding keeps_def
proof
  fix s assume m: "\<forall>s. grows s (snd (m s))"
  obtain r s' where r: "m s = (r, s')" by (cases "m s")
  with m have "grows s s'" by (metis snd_conv)
  then show "grows s (snd (reporting m s))"
    using growing.trans [OF _ grows_report] by (cases r) (auto simp: reporting_def r)
qed

lemma grows_resume_updates: "keeps grows resume_updates"
  unfolding resume_updates_def
  by (intro growing.keeps_prog grows_reporting grows_requestUpdate) (simp_all add: grows_same)

lemma grows_flip_goroutine: "keeps grows flip_goroutine"
  unfolding flip_goroutine_def
  by (intro growing.keeps_prog grows_applyDeferred grows_resume_updates) (simp_all add: grows_same)

lemma grows_rerequest: "keeps grows rerequest"
  unfolding rerequest_def by (intro growing.keeps_prog grows_reporting grows_requestUpdate)

lemma grows_Flip: "keeps grows Flip"
  by (auto simp: keeps_def Flip_def Let_def growing.refl grows_swap)

lemma grows_Step_events: "keeps grows (Step_events es)"
  unfolding Step_events_def
  by (intro growing.keeps_prog growing.keeps_forM grows_on_conn grows_Flip keeps_case_option)

lemma grows_SetRenderer: "keeps grows (SetRenderer b)"
  unfolding SetRenderer_def by (intro growing.keeps_prog) (simp add: grows_same)

lemma grows_Render: "keeps grows (Render ini close)"
  unfolding Render_def Render_init_def
  by (intro growing.keeps_prog keeps_case_option) (simp_all add: grows_same)

lemma grows_on_local: "keeps grows (on_local m conn)"
  by (auto simp: keeps_def on_local_def growing.refl split: prod.split outcome.split)

lemma grows_publish: "keeps grows (publish_conn conn)"
  unfolding keeps_def
proof
  fix c
  obtain r c' where r: "requestUpdate (c\<lparr>sconn := Some conn\<rparr>) = (r, c')" by fastforce
  have "grows c (c\<lparr>sconn := Some conn\<rparr>)" by (simp add: grows_same)
  from growing.trans [OF this keepsD [OF grows_requestUpdate r]] have g: "grows c c'" .
  moreover have "grows c (c'\<lparr>sconn := None\<rparr>)" by (rule growing.trans [OF g]) (simp add: grows_same)
  ultimately show "grows c (snd (publish_conn conn c))"
    by (cases r) (simp_all add: publish_conn_def r)
qed

lemma grows_new_screens: "grows c (new_screens conn c)"
  by (auto simp: grows_def new_screens_def same_shape_def pointers_ok_def nth_append)

lemma grows_connect_setup: "keeps grows (connect_setup conn)"
  unfolding keeps_def
proof
  fix c
  obtain r c' where r: "connect_body conn c = (r, c')" by fastforce
  have "keeps grows (connect_body conn)" unfolding connect_body_def
    by (intro growing.keeps_prog grows_on_local grows_publish) (rule grows_new_screens)
  from keepsD [OF this r] have g: "grows c c'" .
  moreover have "grows c (c'\<lparr>connClosed := connClosed c' + 1\<rparr>)"
    by (rule growing.trans [OF g]) (simp add: grows_same)
  ultimately show "grows c (snd (connect_setup conn c))"
    by (cases r) (simp_all add: connect_setup_def r)
qed

lemma grows_working: "working s s' \<Longrightarrow> grows s s'"
proof (induction rule: working.induct)
  case (takes_error s)
  show ?case by (simp add: take_error_def grows_same growing.refl split: list.split)
qed (auto intro: grows_report keepsD [OF grows_maintain_update] keepsD [OF grows_flip_goroutine] keepsD [OF grows_rerequest])

lemma grows_goroutine: "goroutine s s' \<Longrightarrow> grows s s'"
  by (induction rule: goroutine.induct) (auto intro: keepsD [OF grows_connect_setup] grows_working)

section \<open>Names, sessions and arrays\<close>

definition batch_grows :: "batch \<Rightarrow> batch \<Rightarrow> bool" where
  "batch_grows b b' \<longleftrightarrow>
     dom (sessions b') = dom (sessions b) \<and>
     (\<forall>n s s'. sessions b n = Some s \<longrightarrow> sessions b' n = Some s' \<longrightarrow> grows s s')"

interpretation batching: frame batch_grows
proof
  show "batch_grows b b" for b by (simp add: batch_grows_def growing.refl)
  show "batch_grows a c" if ab: "batch_grows a b" and bc: "batch_grows b c" for a b c
    unfolding batch_grows_def
  proof (intro conjI allI impI)
    show "dom (sessions c) = dom (sessions a)" using ab bc by (simp add: batch_grows_def)
    fix n s t assume s: "sessions a n = Some s" and t: "sessions c n = Some t"
    then have "n \<in> dom (sessions b)" using ab by (auto simp: batch_grows_def)
    then obtain u where "sessions b n = Some u" by blast
    with ab bc s t have "grows s u" "grows u t" by (auto simp: batch_grows_def)
    then show "grows s t" by (rule growing.trans)
  qed
qed

lemma batch_grows_update:
  "sessions b n = Some s \<Longrightarrow> grows s s' \<Longrightarrow> batch_grows b (b\<lparr>sessions := (sessions b)(n \<mapsto> s')\<rparr>)"
  by (auto simp: batch_grows_def growing.refl)

lemma grows_on_session:
  assumes "keeps grows m"
  shows "keeps batch_grows (on_session name m)"
  unfolding keeps_def
proof
  fix b
  show "batch_grows b (snd (on_session name m b))"
  proof (cases "sessions b name")
    case (Some s)
    obtain r s' where m: "m s = (r, s')" by (cases "m s")
    from batch_grows_update [OF Some keepsD [OF assms m]] show ?thesis
      by (cases r) (simp_all add: on_session_def Some m batching.refl)
  qed (simp add: on_session_def batching.refl)
qed

lemma grows_for_session:
  assumes "keeps grows m"
  shows "keeps batch_grows (for_session name m)"
  unfolding keeps_def
proof
  fix b
  show "batch_grows b (snd (for_session name m b))"
  proof (cases "sessions b name")
    case (Some s)
    obtain r s' where m: "m s = (r, s')" by (cases "m s")
    from batch_grows_update [OF Some keepsD [OF assms m]] show ?thesis
      by (simp add: for_session_def Some m)
  qed (simp add: for_session_def batching.refl)
qed

lemma grows_batch_Step_events: "keeps batch_grows (batch_Step_events acts)"
proof (induction acts rule: batch_Step_events.induct)
  case (2 name events actions)
  then show ?case unfolding batch_Step_events.simps
    by (intro batching.keeps_prog grows_on_session grows_Step_events)
qed (simp only: batch_Step_events.simps batching.keeps_ret)

lemma grows_batch_calls:
  "keeps batch_grows (batch_SetSubscription name subs)"
  "keeps batch_grows (batch_SetRenderer name b)"
  "keeps batch_grows (batch_Render name ini close)"
  unfolding batch_SetSubscription_def batch_SetRenderer_def batch_Render_def
  by (intro grows_for_session grows_SetRenderer grows_Render keeps_modifyS; simp add: SetSubscription_def grows_same)+

definition array_of :: "session \<Rightarrow> nat \<Rightarrow> ndarray" where
  "array_of s k = \<lparr>nHeight = sHeight (screens s ! k), nWidth = sWidth (screens s ! k), nScreen = k\<rparr>"

definition arrays_ok :: "session \<Rightarrow> (nat \<rightharpoonup> ndarray) \<Rightarrow> bool" where
  "arrays_ok s m \<longleftrightarrow> (\<forall>k a. m k = Some a \<longrightarrow> k < length (screens s) \<and> a = array_of s k)"

definition info_ok :: "session_info \<Rightarrow> bool" where
  "info_ok i \<longleftrightarrow>
     finite (names i) \<and> dom (sessions (vbatch i)) = names i \<and> dom (screenNumpy i) = names i \<and>
     (\<forall>n s m. sessions (vbatch i) n = Some s \<longrightarrow> screenNumpy i n = Some m \<longrightarrow> pointers_ok s \<and> arrays_ok s m)"

definition still_ok :: "session_info \<Rightarrow> session_info \<Rightarrow> bool" where
  "still_ok i i' \<longleftrightarrow> names i' = names i \<and> (info_ok i \<longrightarrow> info_ok i')"

interpretation ok: frame still_ok
  by unfold_locales (auto simp: still_ok_def)

lemma arrays_ok_grows: "arrays_ok s m \<Longrightarrow> grows s s' \<Longrightarrow> arrays_ok s' m"
  by (fastforce simp: arrays_ok_def grows_def same_shape_def array_of_def)

lemma still_ok_batch:
  assumes "batch_grows (vbatch i) b"
  shows "still_ok i (i\<lparr>vbatch := b\<rparr>)"
proof -
  have "pointers_ok s' \<and> arrays_ok s' m"
    if i: "info_ok i" and s': "sessions b n = Some s'" and m: "screenNumpy i n = Some m" for n s' m
  proof -
    have "n \<in> dom (sessions (vbatch i))" using assms s' by (auto simp: batch_grows_def)
    then obtain s where s: "sessions (vbatch i) n = Some s" by blast
    have g: "grows s s'" using assms s s' unfolding batch_grows_def by blast
    have "pointers_ok s \<and> arrays_ok s m" using i s m unfolding info_ok_def by blast
    with arrays_ok_grows [OF _ g] g show ?thesis unfolding grows_def by blast
  qed
  then have arrays: "info_ok i \<Longrightarrow> \<forall>n s m. sessions b n = Some s \<longrightarrow> screenNumpy i n = Some m \<longrightarrow> pointers_ok s \<and> arrays_ok s m"
    by blast
  have "dom (sessions b) = dom (sessions (vbatch i))" using assms unfolding batch_grows_def by blast
  then have "info_ok (i\<lparr>vbatch := b\<rparr>)" if "info_ok i"
    using that arrays [OF that] unfolding info_ok_def by (cases i) (simp only: session_info.simps)
  then show ?thesis by (simp add: still_ok_def)
qed

lemma ok_on_batch:
  assumes "keeps batch_grows m"
  shows "keeps still_ok (on_batch m)"
  unfolding keeps_def
proof
  fix i :: session_info
  obtain r b where m: "m (vbatch i) = (r, b)" by fastforce
  from still_ok_batch [OF keepsD [OF assms m]] show "still_ok i (snd (on_batch m i))"
    by (simp add: on_batch_def zoom_def m)
qed

lemma ok_initRenderer: "keeps still_ok (initRenderer gl name)"
  unfolding initRenderer_def
  by (intro ok.keeps_prog ok_on_batch grows_batch_calls) (simp add: still_ok_def info_ok_def)

lemma ok_dicts: "still_ok i (i\<lparr>screenPyDict := d\<rparr>)" "still_ok i (i\<lparr>infoPyDict := e\<rparr>)"
  "still_ok i (i\<lparr>errPyDict := f\<rparr>)"
  by (simp_all add: still_ok_def info_ok_def)

lemma ok_with_key: "(\<And>i. still_ok i (f i)) \<Longrightarrow> keeps still_ok (with_key name f)"
  unfolding with_key_def by (intro ok.keeps_prog)

lemma ok_infos: "keeps still_ok (populateInfoPyDict us)"
  unfolding populateInfoPyDict_def put_info_def split_def
  by (intro ok.keeps_prog ok.keeps_forM ok_with_key) (rule ok_dicts)+

lemma ok_error_loop: "keeps still_ok (error_loop api es)"
proof (induction es)
  case (Cons e es)
  obtain name err where e: "e = (name, err)" by (cases e)
  have "keeps still_ok (case FromUTF8 api x of
      Inl y \<Rightarrow> ret (Some y)
    | Inr str \<Rightarrow> bindM (with_key name (\<lambda>i. i\<lparr>errPyDict := (errPyDict i)(name \<mapsto> str)\<rparr>)) (\<lambda>_. error_loop api es))" for x
    by (cases "FromUTF8 api x")
      (simp_all only: sum.case, intro ok.keeps_ret, intro ok.keeps_bindM ok_with_key ok_dicts Cons.IH)
  then show ?case unfolding e error_loop.simps by (intro keeps_case_option Cons.IH)
qed (simp only: error_loop.simps ok.keeps_ret)

lemma ok_errors: "keeps still_ok (populateErrorPyDict api es)"
  unfolding populateErrorPyDict_def by (intro ok.keeps_prog ok_error_loop) (rule ok_dicts)

text \<open>
  The entry for one session: the array of the screen, new or from before. It fails for a screen without
  pixels only.
\<close>

definition no_pixels :: "session \<Rightarrow> nat option \<Rightarrow> bool" where
  "no_pixels s scr \<longleftrightarrow> (\<exists>k. scr = Some k \<and> sData (screens s ! k) = [])"

lemma ok_screen_entry:
  fixes i :: session_info
  assumes i: "info_ok i" and n: "sessions (vbatch i) n = Some s" and scr: "\<And>k. scr = Some k \<Longrightarrow> k < length (screens s)"
  obtains r i' m where "screen_entry n scr i = (r, i')" "i' = i\<lparr>screenNumpy := m\<rparr>" "info_ok i'"
    "r = Ok (map_option (array_of s) scr) \<or> r = Panic IndexOutOfRange \<and> no_pixels s scr"
proof (cases scr)
  case None
  show thesis by (rule that [of "Ok None" i "screenNumpy i"]) (simp_all add: screen_entry_def None i)
next
  case (Some k)
  have "n \<in> dom (screenNumpy i)" using i n unfolding info_ok_def by blast
  then obtain m where m: "screenNumpy i n = Some m" by blast
  with i n have m_ok: "arrays_ok s m" unfolding info_ok_def by blast
  note run = screen_entry_def screen_array_def bindM_def getS_def ret_def Some m n Let_def
  show thesis
  proof (cases "m k")
    case (Some a)
    with m_ok have "a = array_of s k" by (simp add: arrays_ok_def)
    then show thesis
      by (intro that [of "Ok (Some a)" i "screenNumpy i"]) (simp_all add: run Some \<open>scr = Some k\<close> i)
  next
    case None
    let ?m = "(screenNumpy i)(n \<mapsto> m(k \<mapsto> array_of s k))"
    have "arrays_ok s (m(k \<mapsto> array_of s k))"
      using m_ok scr [OF \<open>scr = Some k\<close>] by (simp add: arrays_ok_def)
    then have ok: "info_ok (i\<lparr>screenNumpy := ?m\<rparr>)"
      using i m n by (auto simp: info_ok_def split: if_splits)
    show thesis
    proof (cases "sData (screens s ! k) = []")
      case True
      then show thesis
        by (intro that [of "Panic IndexOutOfRange" i "screenNumpy i"])
          (simp_all add: run None \<open>scr = Some k\<close> i panic_def no_pixels_def)
    next
      case False
      then show thesis
        by (intro that [of "Ok (Some (array_of s k))" "i\<lparr>screenNumpy := ?m\<rparr>" ?m])
          (simp_all add: run None \<open>scr = Some k\<close> ok [unfolded array_of_def] modifyS_def array_of_def)
    qed
  qed
qed

definition screen_of :: "batch \<Rightarrow> string \<times> nat option \<Rightarrow> string \<times> ndarray option" where
  "screen_of b x = (fst x, map_option (array_of (the (sessions b (fst x)))) (snd x))"

definition screen_known :: "batch \<Rightarrow> string \<times> nat option \<Rightarrow> bool" where
  "screen_known b x \<longleftrightarrow> (\<exists>s. sessions b (fst x) = Some s \<and> (\<forall>k. snd x = Some k \<longrightarrow> k < length (screens s)))"

definition screen_blank :: "batch \<Rightarrow> string \<times> nat option \<Rightarrow> bool" where
  "screen_blank b x \<longleftrightarrow> no_pixels (the (sessions b (fst x))) (snd x)"

text \<open>What filling the dictionary of the screens does, a loop body at a time.\<close>

definition screens_put :: "(session_info, unit) prog \<Rightarrow> (string \<times> nat option) list \<Rightarrow> session_info \<Rightarrow> bool" where
  "screens_put p xs i \<longleftrightarrow>
     (\<exists>r d m. p i = (r, i\<lparr>screenPyDict := d, screenNumpy := m\<rparr>) \<and> info_ok (i\<lparr>screenPyDict := d, screenNumpy := m\<rparr>) \<and>
       (r = Ok () \<and> d = screenPyDict i ++ map_of (rev (map (screen_of (vbatch i)) xs)) \<or>
        r = Panic IndexOutOfRange \<and> (\<exists>x \<in> set xs. screen_blank (vbatch i) x)))"

lemma put_screen_run:
  assumes i: "info_ok i" and x: "screen_known (vbatch i) x"
  shows "screens_put (put_screen x) [x] i"
proof -
  obtain n scr where x_eq: "x = (n, scr)" by (cases x)
  with x obtain s where n: "sessions (vbatch i) n = Some s"
    and scr: "\<And>k. scr = Some k \<Longrightarrow> k < length (screens s)" by (auto simp: screen_known_def)
  obtain r i1 m where e: "screen_entry n scr i = (r, i1)" and i1: "i1 = i\<lparr>screenNumpy := m\<rparr>" "info_ok i1"
    and r: "r = Ok (map_option (array_of s) scr) \<or> r = Panic IndexOutOfRange \<and> no_pixels s scr"
    by (rule ok_screen_entry [OF i n scr])
  have "n \<in> names i" using i n unfolding info_ok_def by auto
  have ok: "info_ok (i\<lparr>screenPyDict := d, screenNumpy := m\<rparr>)" for d
    using i1 by (simp add: info_ok_def)
  from r show ?thesis
  proof
    assume "r = Ok (map_option (array_of s) scr)"
    let ?d = "(screenPyDict i)(n \<mapsto> map_option (array_of s) scr)"
    have "put_screen x i = (Ok (), i\<lparr>screenPyDict := ?d, screenNumpy := m\<rparr>)"
      using e i1 \<open>n \<in> names i\<close> \<open>r = _\<close> by (cases i) (simp add: put_screen_def x_eq bindM_def with_key_def)
    with ok [of ?d] n show ?thesis unfolding screens_put_def
      by (intro exI [of _ "Ok ()"] exI [of _ ?d] exI [of _ m]) (simp add: screen_of_def x_eq)
  next
    assume "r = Panic IndexOutOfRange \<and> no_pixels s scr"
    with e i1 n ok [of "screenPyDict i"] show ?thesis
      unfolding screens_put_def
      by (intro exI [of _ "Panic IndexOutOfRange"] exI [of _ "screenPyDict i"] exI [of _ m])
        (auto simp: put_screen_def x_eq bindM_def screen_blank_def)
  qed
qed

lemma screens_put_then:
  assumes p: "screens_put p [x] i"
    and q: "\<And>d m. info_ok (i\<lparr>screenPyDict := d, screenNumpy := m\<rparr>) \<Longrightarrow> screens_put q xs (i\<lparr>screenPyDict := d, screenNumpy := m\<rparr>)"
  shows "screens_put (bindM p (\<lambda>_. q)) (x # xs) i"
proof -
  from p obtain r d m where run: "p i = (r, i\<lparr>screenPyDict := d, screenNumpy := m\<rparr>)"
    and ok: "info_ok (i\<lparr>screenPyDict := d, screenNumpy := m\<rparr>)"
    and r: "r = Ok () \<and> d = screenPyDict i ++ map_of [screen_of (vbatch i) x] \<or>
      r = Panic IndexOutOfRange \<and> screen_blank (vbatch i) x"
    unfolding screens_put_def by auto
  from r show ?thesis
  proof
    assume r: "r = Ok () \<and> d = screenPyDict i ++ map_of [screen_of (vbatch i) x]"
    from q [OF ok] obtain r' d' m' where q':
      "q (i\<lparr>screenPyDict := d, screenNumpy := m\<rparr>) = (r', i\<lparr>screenPyDict := d', screenNumpy := m'\<rparr>)"
      "info_ok (i\<lparr>screenPyDict := d', screenNumpy := m'\<rparr>)"
      "r' = Ok () \<and> d' = d ++ map_of (rev (map (screen_of (vbatch i)) xs)) \<or>
       r' = Panic IndexOutOfRange \<and> (\<exists>x \<in> set xs. screen_blank (vbatch i) x)"
      unfolding screens_put_def by auto
    have "bindM p (\<lambda>_. q) i = (r', i\<lparr>screenPyDict := d', screenNumpy := m'\<rparr>)"
      using run r q'(1) by (simp add: bindM_def)
    with q'(2,3) r show ?thesis unfolding screens_put_def
      by (intro exI [of _ r'] exI [of _ d'] exI [of _ m']) auto
  next
    assume r: "r = Panic IndexOutOfRange \<and> screen_blank (vbatch i) x"
    then have "bindM p (\<lambda>_. q) i = (r, i\<lparr>screenPyDict := d, screenNumpy := m\<rparr>)"
      using run by (simp add: bindM_def)
    with ok r show ?thesis unfolding screens_put_def
      by (intro exI [of _ r] exI [of _ d] exI [of _ m]) auto
  qed
qed

lemma screen_loop:
  assumes "info_ok i" and "list_all (screen_known (vbatch i)) scrs"
  shows "screens_put (forM scrs put_screen) scrs i"
  using assms
proof (induction scrs arbitrary: i)
  case Nil
  then show ?case unfolding screens_put_def
    by (intro exI [of _ "Ok ()"] exI [of _ "screenPyDict i"] exI [of _ "screenNumpy i"]) simp
next
  case (Cons x scrs)
  from Cons.prems have x: "screen_known (vbatch i) x" and xs: "list_all (screen_known (vbatch i)) scrs" by simp_all
  show ?case unfolding forM.simps
    by (rule screens_put_then [OF put_screen_run [OF Cons.prems(1) x]], rule Cons.IH) (simp_all add: xs)
qed

section \<open>A step hands out screens of its sessions\<close>

lemma bindM_getS: "bindM getS f s = f s s"
  by (simp add: bindM_def)

lemma Step_events_front:
  assumes "Step_events es s = (r, s')" and "observation r = Some k"
  shows "frontScreen s' = Some k"
proof -
  from assms(2) obtain us where r: "r = Ok (Some (Some k, us))"
    by (auto simp: observation_def split: outcome.splits option.splits)
  have "\<exists>t. Flip t = (Ok (Some k, us), s')"
  proof (cases "serr s")
    case None
    with assms(1) r have "sconn s \<noteq> None" by (auto simp: Step_events_def bindM_getS split: if_splits)
    with None assms(1) r have "bindM (forM es (\<lambda>ev. annotate ''could not step'' (on_conn (exec_event ev))))
        (\<lambda>_. bindM Flip (\<lambda>r. ret (Some r))) s = (Ok (Some (Some k, us)), s')"
      by (simp add: Step_events_def bindM_getS)
    then show ?thesis by (auto elim!: bindM_OkE)
  qed (use assms(1) r in \<open>simp add: Step_events_def bindM_getS\<close>)
  then show ?thesis using Flip_parts(2) by metis
qed

lemma screen_known_grows: "screen_known b x \<Longrightarrow> batch_grows b b' \<Longrightarrow> screen_known b' x"
proof -
  assume x: "screen_known b x" and g: "batch_grows b b'"
  then obtain s where s: "sessions b (fst x) = Some s" "\<forall>k. snd x = Some k \<longrightarrow> k < length (screens s)"
    unfolding screen_known_def by blast
  then have "fst x \<in> dom (sessions b')" using g unfolding batch_grows_def by blast
  then obtain s' where s': "sessions b' (fst x) = Some s'" by blast
  with g s(1) have "grows s s'" unfolding batch_grows_def by blast
  then have "length (screens s) \<le> length (screens s')" by (simp add: grows_def)
  with s(2) s' show ?thesis unfolding screen_known_def by fastforce
qed

definition pointers_good :: "batch \<Rightarrow> bool" where
  "pointers_good b \<longleftrightarrow> (\<forall>n s. sessions b n = Some s \<longrightarrow> pointers_ok s)"

lemma pointers_good_grows: "pointers_good b \<Longrightarrow> batch_grows b b' \<Longrightarrow> pointers_good b'"
  unfolding pointers_good_def batch_grows_def grows_def by (metis domD domI)

lemma info_ok_pointers: "info_ok i \<Longrightarrow> pointers_good (vbatch i)"
  unfolding info_ok_def pointers_good_def by (metis domD domI)

lemma on_session_known:
  assumes "on_session n (Step_events es) b = (Ok r, b')" and "pointers_good b"
  shows "screen_known b' (n, observation r)"
proof -
  from assms(1) obtain s s' where s: "sessions b n = Some s" "Step_events es s = (r, s')"
    "b' = b\<lparr>sessions := (sessions b)(n \<mapsto> s')\<rparr>"
    by (auto simp: on_session_def split: option.splits prod.splits outcome.splits)
  have "pointers_ok s'" using keepsD [OF grows_Step_events s(2)] assms(2) s(1)
    by (simp add: grows_def pointers_good_def)
  with Step_events_front [OF s(2)] show ?thesis
    by (auto simp: screen_known_def s(3) pointers_ok_def)
qed

lemma batch_Step_known:
  assumes "batch_Step_events acts b = (Ok rs, b')" and "pointers_good b"
  shows "list_all (screen_known b') (map (map_prod id observation) rs) \<and> map fst rs = map fst acts"
  using assms
proof (induction acts arbitrary: b rs)
  case (Cons act acts)
  obtain n es where act: "act = (n, es)" by (cases act)
  from Cons.prems(1) obtain r b1 rs' where r: "on_session n (Step_events es) b = (Ok r, b1)"
    and rest: "batch_Step_events acts b1 = (Ok rs', b')" and rs: "rs = (n, r) # rs'"
    by (auto simp: act elim!: bindM_OkE)
  have "pointers_good b1" using pointers_good_grows [OF Cons.prems(2)] keepsD [OF grows_on_session [OF grows_Step_events] r] by blast
  from Cons.IH [OF rest this] screen_known_grows [OF on_session_known [OF r Cons.prems(2)] keepsD [OF grows_batch_Step_events rest]]
  show ?case by (simp add: rs act)
qed simp

lemma collect_events_names: "collect_events api dict ns e = (Ok (Some acts), e') \<Longrightarrow> map fst acts = ns"
  by (induction ns arbitrary: acts e e')
    (auto simp: bindP_def elim!: bindM_OkE split: if_splits option.splits prod.splits)

section \<open>Calls from Python\<close>

datatype 'o py_method =
    CallInit nat
  | CallConnect nat "string + 'o connect_args"
  | CallStep nat "string list" 'o
  | CallUpdate nat "string + string \<times> 'o"
  | CallRender bool "goerr option" nat "string + string \<times> int"
  | CallClose nat "string list" "string + string"
  | CallDealloc nat "string list"

fun py_call :: "'o pyapi \<Rightarrow> 'o py_method \<Rightarrow> (binding, unit option) prog" where
  "py_call api (CallInit p) = bindM (GoVNCDriver_c_init p) (\<lambda>_. ret (Some ()))"
| "py_call api (CallConnect p args) = GoVNCDriver_connect api p args"
| "py_call api (CallStep p ns dict) = GoVNCDriver_step api p ns dict"
| "py_call api (CallUpdate p args) = GoVNCDriver_update api p args"
| "py_call api (CallRender gl ini p args) = GoVNCDriver_render gl ini p args"
| "py_call api (CallClose p ns args) = GoVNCDriver_close p ns args"
| "py_call api (CallDealloc p ns) = bindM (GoVNCDriver_c_dealloc p ns) (\<lambda>_. ret (Some ()))"

text \<open>The order in which a method walks the names is some order of all of them.\<close>

fun walks :: "binding \<Rightarrow> 'o py_method \<Rightarrow> bool" where
  "walks v (CallStep p ns dict) = (\<forall>i. batchMgr v p = Some i \<longrightarrow> distinct ns \<and> set ns = names i)"
| "walks v (CallClose p ns args) = (\<forall>i. batchMgr v p = Some i \<longrightarrow> distinct ns \<and> set ns = names i)"
| "walks v (CallDealloc p ns) = (\<forall>i. batchMgr v p = Some i \<longrightarrow> distinct ns \<and> set ns = names i)"
| "walks v _ = True"

text \<open>
  What a Python program can reach: calls that return, Python taking the pending exception, and steps of the
  goroutines of the sessions in between.
\<close>

inductive py_reach :: "'o pyapi \<Rightarrow> binding \<Rightarrow> bool" for api where
  start: "py_reach api \<lparr>batchMgr = Map.empty, pyError = None\<rparr>"
| calls: "py_reach api v \<Longrightarrow> walks v c \<Longrightarrow> py_call api c v = (Ok r, v') \<Longrightarrow> py_reach api v'"
| taken: "py_reach api v \<Longrightarrow> py_reach api (v\<lparr>pyError := None\<rparr>)"
| meanwhile: "py_reach api v \<Longrightarrow> batchMgr v p = Some i \<Longrightarrow> sessions (vbatch i) n = Some s \<Longrightarrow> goroutine s s' \<Longrightarrow>
    py_reach api (v\<lparr>batchMgr := (batchMgr v)(p \<mapsto>
      i\<lparr>vbatch := (vbatch i)\<lparr>sessions := (sessions (vbatch i))(n \<mapsto> s')\<rparr>\<rparr>)\<rparr>)"

section \<open>Every call keeps the invariant\<close>

definition binding_ok :: "binding \<Rightarrow> bool" where
  "binding_ok v \<longleftrightarrow> (\<forall>p i. batchMgr v p = Some i \<longrightarrow> info_ok i)"

definition sound :: "binding \<Rightarrow> binding \<Rightarrow> bool" where
  "sound v v' \<longleftrightarrow> (binding_ok v \<longrightarrow> binding_ok v')"

interpretation sounding: frame sound
  by unfold_locales (auto simp: sound_def)

definition info_sound :: "(session_info, 'a) prog \<Rightarrow> bool" where
  "info_sound m \<longleftrightarrow> (\<forall>i. info_ok i \<longrightarrow> info_ok (snd (m i)))"

lemma still_sound: "keeps still_ok m \<Longrightarrow> info_sound m"
  by (simp add: info_sound_def keeps_def still_ok_def)

lemma binding_ok_pyError [simp]: "binding_ok (v\<lparr>pyError := e\<rparr>) = binding_ok v"
  by (simp add: binding_ok_def)

lemma sound_on_py: "keeps sound (on_py m)"
  by (simp add: keeps_def on_py_def zoom_def sound_def split: prod.split)

lemma binding_ok_info: "binding_ok v \<Longrightarrow> info_ok i \<Longrightarrow> binding_ok (v\<lparr>batchMgr := (batchMgr v)(p \<mapsto> i)\<rparr>)"
  by (simp add: binding_ok_def)

lemma sound_on_info:
  assumes "info_sound m"
  shows "keeps sound (on_info p m)"
  unfolding keeps_def sound_def
proof (intro allI impI)
  fix v assume v: "binding_ok v"
  show "binding_ok (snd (on_info p m v))"
  proof (cases "batchMgr v p")
    case (Some i)
    with v have "info_ok i" by (simp add: binding_ok_def)
    with assms have "info_ok (snd (m i))" by (simp add: info_sound_def)
    then show ?thesis using binding_ok_info [OF v] by (simp add: on_info_def Some split_beta)
  qed (simp add: on_info_def v)
qed

lemma sound_raising:
  assumes "keeps sound m"
  shows "keeps sound (raising m)"
  unfolding keeps_def
proof
  fix v
  obtain r v' where m: "m v = (r, v')" by (cases "m v")
  from keepsD [OF assms m] show "sound v (snd (raising m v))"
    by (cases r) (simp_all add: raising_def m sound_def)
qed

lemma sound_bindP: "keeps sound m \<Longrightarrow> (\<And>a. keeps sound (f a)) \<Longrightarrow> keeps sound (bindP m f)"
  unfolding bindP_def by (intro sounding.keeps_bindM keeps_case_option sounding.keeps_ret)

lemma sound_with_info: "(\<And>i. keeps sound (f i)) \<Longrightarrow> keeps sound (with_info p msg f)"
  unfolding with_info_def raise_go_def
  by (intro sounding.keeps_bindM sounding.keeps_getS keeps_case_option sound_on_py sounding.keeps_ret)

lemmas sound_prog = sounding.keeps_bindM sounding.keeps_getS sounding.keeps_ret keeps_if sound_on_py sound_on_info
  sound_raising sound_bindP sound_with_info

lemma close_dropped_run:
  "close_dropped n b = (r, b') \<Longrightarrow> r = Ok () \<and> sessions b' = (sessions b)(n := None) \<or> b' = b \<and> (\<forall>e. r \<noteq> Err e) \<and> r \<noteq> Ok ()"
  by (auto simp: close_dropped_def split: option.splits prod.splits outcome.splits)

lemma info_close_sound: "info_sound (info_close n)"
  unfolding info_sound_def
proof (intro allI impI)
  fix i assume i: "info_ok i"
  obtain r b where b: "close_dropped n (vbatch i) = (r, b)" by fastforce
  from close_dropped_run [OF this] show "info_ok (snd (info_close n i))"
  proof
    assume "r = Ok () \<and> sessions b = (sessions (vbatch i))(n := None)"
    with i b show ?thesis
      by (auto simp: info_close_def bindM_def drop_error_def on_batch_def zoom_def batch_Close_def info_ok_def)
  next
    assume "b = vbatch i \<and> (\<forall>e. r \<noteq> Err e) \<and> r \<noteq> Ok ()"
    with i b show ?thesis
      by (cases r) (simp_all add: info_close_def bindM_def drop_error_def on_batch_def zoom_def batch_Close_def)
  qed
qed

lemma info_opened:
  assumes "info_ok i" and "sessions b = (sessions (vbatch i))(n \<mapsto> NewVNCSession cfg)"
  shows "info_ok (i\<lparr>vbatch := b, names := insert n (names i), screenNumpy := (screenNumpy i)(n \<mapsto> Map.empty)\<rparr>)"
  using assms by (auto simp: info_ok_def arrays_ok_def pointers_ok_def NewVNCSession_def)

lemma sound_open:
  "keeps sound (bindP (raising (on_info p (on_batch (batch_Open n cfg))))
     (\<lambda>_. bindM (on_info p (info_open n)) (\<lambda>_. ret (Some ()))))"
  unfolding keeps_def sound_def
proof (intro allI impI)
  fix v assume v: "binding_ok v"
  show "binding_ok (snd (bindP (raising (on_info p (on_batch (batch_Open n cfg))))
     (\<lambda>_. bindM (on_info p (info_open n)) (\<lambda>_. ret (Some ()))) v))"
  proof (cases "batchMgr v p")
    case (Some i)
    with v have i: "info_ok i" by (simp add: binding_ok_def)
    obtain r b where b: "close_dropped n (vbatch i) = (r, b)" by fastforce
    note run = bindP_def bindM_def raising_def on_info_def on_batch_def zoom_def batch_Open_def Some b info_open_def
    from close_dropped_run [OF b] show ?thesis
    proof
      assume r: "r = Ok () \<and> sessions b = (sessions (vbatch i))(n := None)"
      then show ?thesis
        using binding_ok_info [OF v info_opened [OF i, of "b\<lparr>sessions := (sessions b)(n \<mapsto> NewVNCSession cfg)\<rparr>"]]
        by (simp add: run)
    next
      assume "b = vbatch i \<and> (\<forall>e. r \<noteq> Err e) \<and> r \<noteq> Ok ()"
      then show ?thesis using binding_ok_info [OF v i] by (cases r) (simp_all add: run)
    qed
  qed (simp add: bindP_def bindM_def raising_def on_info_def v)
qed

lemma sound_connect: "keeps sound (GoVNCDriver_connect api p args)"
  unfolding GoVNCDriver_connect_def split_def
  by (intro sound_prog sound_open info_close_sound)

lemma sound_update: "keeps sound (GoVNCDriver_update api p args)"
  unfolding GoVNCDriver_update_def split_def
  by (intro sound_prog still_sound ok_on_batch grows_batch_calls)

lemma sound_render: "keeps sound (GoVNCDriver_render gl ini p args)"
  unfolding GoVNCDriver_render_def raise_go_def split_def
  by (intro sound_prog still_sound ok_on_batch grows_batch_calls ok_initRenderer)

lemma sound_dealloc: "keeps sound (GoVNCDriver_c_dealloc p ns)"
  unfolding GoVNCDriver_c_dealloc_def
  by (intro sound_prog keeps_case_option sounding.keeps_forM info_close_sound keeps_modifyS)
    (auto simp: sound_def binding_ok_def split: if_splits)

lemma sound_close: "keeps sound (GoVNCDriver_close p ns args)"
  unfolding GoVNCDriver_close_def by (intro sound_prog sound_dealloc info_close_sound)

lemma sound_init: "keeps sound (GoVNCDriver_c_init p)"
  unfolding GoVNCDriver_c_init_def
  by (intro sound_prog keeps_modifyS) (simp add: sound_def binding_ok_def new_info_def NewVNCBatch_def info_ok_def)

text \<open>Stepping: the screens that are handed out are those of the sessions just stepped.\<close>

lemma on_info_run: "batchMgr v p = Some i \<Longrightarrow> m i = (r, i') \<Longrightarrow>
    on_info p m v = (r, v\<lparr>batchMgr := (batchMgr v)(p \<mapsto> i')\<rparr>)"
  by (simp add: on_info_def)

lemma on_info_OkE:
  assumes "on_info p m v = (Ok a, v')"
  obtains i i' where "batchMgr v p = Some i" and "m i = (Ok a, i')" and "v' = v\<lparr>batchMgr := (batchMgr v)(p \<mapsto> i')\<rparr>"
  using assms by (auto simp: on_info_def split: option.splits prod.splits)

lemma populateScreen_sound:
  assumes "info_ok i" and "list_all (screen_known (vbatch i)) scrs"
  shows "screens_put (populateScreenPyDict scrs) scrs (i\<lparr>screenPyDict := Map.empty\<rparr>)"
proof -
  let ?i = "i\<lparr>screenPyDict := Map.empty\<rparr>"
  have "info_ok ?i" using assms(1) by (simp add: info_ok_def)
  from screen_loop [OF this, of scrs] assms(2) show ?thesis
    by (simp add: populateScreenPyDict_def screens_put_def bindM_def)
qed

lemma batch_step_sound:
  assumes "info_ok i" and "batch_Step_events acts (vbatch i) = (Ok rs, b)"
  shows "info_ok (i\<lparr>vbatch := b\<rparr>) \<and> list_all (screen_known b) (map (map_prod id observation) rs) \<and> map fst rs = map fst acts"
  using batch_Step_known [OF assms(2) info_ok_pointers [OF assms(1)]] assms(1)
    still_ok_batch [OF keepsD [OF grows_batch_Step_events assms(2)]] by (simp add: still_ok_def)

lemma screens_put_OkD: "screens_put p xs i \<Longrightarrow> p i = (r, i') \<Longrightarrow> info_ok i'"
  unfolding screens_put_def by auto

lemma sound_step_tail:
  assumes v: "binding_ok v" and run: "bindM (on_info p (on_batch (batch_Step_events acts))) (\<lambda>rs.
     bindM (on_info p (populateScreenPyDict (map (map_prod id observation) rs))) (k rs)) v = (Ok r, v')"
    and rest: "\<And>rs a. keeps sound (k rs a)"
  shows "binding_ok v'"
proof -
  from run obtain rs v1 u v2 where s1: "on_info p (on_batch (batch_Step_events acts)) v = (Ok rs, v1)"
    and s2: "on_info p (populateScreenPyDict (map (map_prod id observation) rs)) v1 = (Ok u, v2)"
    and s3: "k rs u v2 = (Ok r, v')" by (elim bindM_OkE) blast
  from s1 obtain i i1 where i: "batchMgr v p = Some i" "on_batch (batch_Step_events acts) i = (Ok rs, i1)"
    "v1 = v\<lparr>batchMgr := (batchMgr v)(p \<mapsto> i1)\<rparr>" by (rule on_info_OkE)
  from i(2) obtain b where b: "batch_Step_events acts (vbatch i) = (Ok rs, b)" "i1 = i\<lparr>vbatch := b\<rparr>"
    by (auto simp: on_batch_def zoom_def split: prod.splits)
  have "info_ok i" using v i(1) by (simp add: binding_ok_def)
  from batch_step_sound [OF this b(1)] have ok: "info_ok i1" "list_all (screen_known b) (map (map_prod id observation) rs)"
    by (simp_all add: b(2))
  from s2 obtain i1' i2 where i2: "batchMgr v1 p = Some i1'" "populateScreenPyDict (map (map_prod id observation) rs) i1' = (Ok u, i2)"
    "v2 = v1\<lparr>batchMgr := (batchMgr v1)(p \<mapsto> i2)\<rparr>" by (rule on_info_OkE)
  have "i1' = i1" using i2(1) i(3) by simp
  with i2(2) populateScreen_sound [OF ok(1), of "map (map_prod id observation) rs"] ok(2) b(2) have "info_ok i2"
    by (auto simp: populateScreenPyDict_def bindM_def dest: screens_put_OkD)
  then have "binding_ok v2" using v by (simp add: i2(3) i(3) binding_ok_info)
  with keepsD [OF rest s3] show ?thesis by (simp add: sound_def)
qed

lemma sound_step:
  assumes v: "binding_ok v" and run: "GoVNCDriver_step api p ns dict v = (Ok r, v')"
  shows "binding_ok v'"
proof (cases "batchMgr v p")
  case None
  then have "GoVNCDriver_step api p ns dict v = (Ok None, v\<lparr>pyError := Some (PyGo (Errorf ''VNCSession is closed''))\<rparr>)"
    by (simp add: GoVNCDriver_step_def with_info_def bindM_getS raise_go_def bindM_def on_py_def zoom_def setError_def)
  with run v show ?thesis by auto
next
  case (Some i)
  let ?tail = "\<lambda>acts. bindM (on_info p (on_batch (batch_Step_events acts))) (\<lambda>rs.
     bindM (on_info p (populateScreenPyDict (map (map_prod id observation) rs))) (\<lambda>_.
     bindM (on_info p (populateInfoPyDict (map (map_prod id step_updates) rs))) (\<lambda>_.
     bindM (on_info p (populateErrorPyDict api (map (map_prod id step_error) rs))) (\<lambda>x.
     case x of None \<Rightarrow> ret (Some ()) | Some e \<Rightarrow> on_py (pycall (Inl e))))))"
  from run Some obtain acts v1 where 1: "on_py (collect_events api dict ns) v = (Ok acts, v1)"
    and 2: "(case acts of None \<Rightarrow> ret None | Some a \<Rightarrow> ?tail a) v1 = (Ok r, v')"
    by (simp add: GoVNCDriver_step_def with_info_def bindM_getS bindP_def) (elim bindM_OkE, blast)
  have v1: "binding_ok v1" using keepsD [OF sound_on_py 1] v by (simp add: sound_def)
  show ?thesis
  proof (cases acts)
    case None
    with 2 v1 show ?thesis by auto
  next
    case (Some a)
    with 2 have "?tail a v1 = (Ok r, v')" by simp
    then show ?thesis
      by (rule sound_step_tail [OF v1])
        (intro sound_prog still_sound ok_infos ok_errors keeps_case_option)
  qed
qed

lemma sound_other_calls: "(\<forall>p ns dict. c \<noteq> CallStep p ns dict) \<Longrightarrow> keeps sound (py_call api c)"
  by (cases c) (simp_all only: py_call.simps sound_connect sound_update sound_render sound_close
      sound_init sound_dealloc sounding.keeps_bindM sounding.keeps_ret py_method.inject, blast)

lemma sound_call:
  assumes "binding_ok v" and "py_call api c v = (Ok r, v')"
  shows "binding_ok v'"
proof (cases "\<forall>p ns dict. c \<noteq> CallStep p ns dict")
  case True
  from keepsD [OF sound_other_calls [OF this] assms(2)] assms(1) show ?thesis by (simp add: sound_def)
next
  case False
  with assms sound_step show ?thesis by auto
qed

lemma py_reach_ok: "py_reach api v \<Longrightarrow> binding_ok v"
proof (induction rule: py_reach.induct)
  case (meanwhile v p i n s s')
  then have "info_ok i" by (simp add: binding_ok_def)
  moreover have "batch_grows (vbatch i) ((vbatch i)\<lparr>sessions := (sessions (vbatch i))(n \<mapsto> s')\<rparr>)"
    by (rule batch_grows_update [OF meanwhile.hyps(3) grows_goroutine [OF meanwhile.hyps(4)]])
  ultimately have "info_ok (i\<lparr>vbatch := (vbatch i)\<lparr>sessions := (sessions (vbatch i))(n \<mapsto> s')\<rparr>\<rparr>)"
    using still_ok_batch unfolding still_ok_def by blast
  with meanwhile.IH show ?case by (rule binding_ok_info)
qed (auto simp: binding_ok_def intro: sound_call [unfolded binding_ok_def, THEN spec, THEN spec, THEN mp])

section \<open>A step never panics in a session\<close>

definition connected :: "session \<Rightarrow> bool" where
  "connected c \<longleftrightarrow> sconn c \<noteq> None"

lemma hoare_on_conn_event:
  "hoare connected (annotate msg (on_conn (Execute e))) (\<lambda>_. connected) (\<lambda>_. True)"
proof (rule hoareI)
  fix c assume "connected c"
  then obtain conn where c: "sconn c = Some conn" by (auto simp: connected_def)
  obtain r conn' where "write_conn (msg_bytes (event_msg e)) conn = (r, conn')" by fastforce
  with c write_conn_no_panic [of "msg_bytes (event_msg e)" conn]
  show "post (\<lambda>_. connected) (\<lambda>_. True) (annotate msg (on_conn (Execute e)) c)"
    by (cases r) (auto simp: annotate_def on_conn_def Execute_writes connected_def write_conn_def split: list.splits option.splits)
qed

lemma Step_no_panic: "no_panic (fst (Step es c))"
proof (cases "serr c = None \<and> connected c")
  case True
  have "hoare connected (forM es (\<lambda>ev. annotate ''could not step'' (on_conn (Execute ev)))) (\<lambda>_. connected) (\<lambda>_. True)"
    by (rule hoare_forM) (rule hoare_on_conn_event)
  then have events: "post (\<lambda>_. connected) (\<lambda>_. True) (forM es (\<lambda>ev. annotate ''could not step'' (on_conn (Execute ev))) c)"
    using True by (simp add: hoare_def)
  obtain r c' where r: "forM es (\<lambda>ev. annotate ''could not step'' (on_conn (Execute ev))) c = (r, c')" by fastforce
  have "\<exists>x c''. Flip c' = (Ok x, c'')" by (simp add: Flip_def Let_def)
  then obtain x c'' where "Flip c' = (Ok x, c'')" by (elim exE)
  with events r True show ?thesis
    by (cases r) (simp_all add: Step_def bindM_def connected_def no_panic_def)
qed (auto simp: Step_def bindM_getS connected_def no_panic_def split: option.split)

lemma can_step_known: "sessions b (fst a) \<noteq> None \<Longrightarrow> can_step b a"
  by (auto simp: can_step_def Step_no_panic)

end
