(* ===== verification/PyStep.thy ===== *)
theory PyStep
  imports PyInvariant
begin

text \<open>
  What \<open>step\<close> of the extension module gives to Python: for actions that convert, the dictionaries hold
  for each name what stepping the session of that name gives, and the pictures are views of the front screens.
\<close>

section \<open>Actions that convert\<close>

definition converts :: "'o pyapi \<Rightarrow> 'o \<Rightarrow> vnc_event \<Rightarrow> bool" where
  "converts api item ev \<longleftrightarrow> convertEventPy api item None = (Ok (Some (Some ev)), None)"

definition action_converts :: "'o pyapi \<Rightarrow> 'o \<Rightarrow> string \<Rightarrow> vnc_event list \<Rightarrow> bool" where
  "action_converts api dict n es \<longleftrightarrow>
     DictItem api dict n = Inr None \<and> es = [] \<or>
     (\<exists>a items. DictItem api dict n = Inr (Some a) \<and> ObjectIter api a = Inr (items, None) \<and>
        list_all2 (converts api) items es)"

lemma event_loop_converts:
  "list_all2 (converts api) items es \<Longrightarrow>
    event_loop api items None pre None = (Ok (pre @ map Some es, True), None)"
proof (induction items arbitrary: es pre)
  case (Cons item items)
  then obtain e es' where e: "es = e # es'" "converts api item e" "list_all2 (converts api) items es'"
    by (auto simp: list_all2_Cons1)
  with Cons.IH [OF e(3)] show ?case by (simp add: bindM_def converts_def)
qed (simp add: iter_end_def bindM_def)

lemma action_events_converts:
  assumes "action_converts api dict n es" and "DictItem api dict n = Inr a"
  shows "action_events api a None = (Ok (map Some es, True), None)"
proof (cases a)
  case (Some x)
  with assms obtain items where "ObjectIter api x = Inr (items, None)" "list_all2 (converts api) items es"
    by (auto simp: action_converts_def)
  with event_loop_converts [OF this(2), of "[]"] Some show ?thesis
    by (simp add: action_events_def bindM_def pycall_def)
qed (use assms in \<open>auto simp: action_converts_def action_events_def\<close>)

lemma collect_events_converts:
  "\<forall>n \<in> set ns. action_converts api dict n (acts n) \<Longrightarrow>
    collect_events api dict ns None = (Ok (Some (map (\<lambda>n. (n, map Some (acts n))) ns)), None)"
proof (induction ns)
  case (Cons n ns)
  then have n: "action_converts api dict n (acts n)" by simp
  then obtain a where a: "DictItem api dict n = Inr a" by (auto simp: action_converts_def)
  from Cons action_events_converts [OF n a] show ?case
    by (simp add: bindM_def pycall_def a bindP_def)
qed simp

section \<open>Filling the dictionaries\<close>

lemma with_key_run: "n \<in> names i \<Longrightarrow> with_key n f i = (Ok (), f i)"
  by (simp add: with_key_def bindM_def)

lemma put_infos_run:
  "fst ` set xs \<subseteq> names i \<Longrightarrow>
    forM xs put_info i = (Ok (), i\<lparr>infoPyDict := infoPyDict i ++ map_of (rev (map (map_prod id update_stats) xs))\<rparr>)"
proof (induction xs arbitrary: i)
  case (Cons x xs)
  obtain n us where x: "x = (n, us)" by (cases x)
  let ?i = "i\<lparr>infoPyDict := (infoPyDict i)(n \<mapsto> update_stats us)\<rparr>"
  have put: "put_info x i = (Ok (), ?i)" using Cons.prems by (simp add: x put_info_def with_key_run)
  have "infoPyDict i ++ map_of (rev (map (map_prod id update_stats) (x # xs))) =
      infoPyDict ?i ++ map_of (rev (map (map_prod id update_stats) xs))"
    by (rule ext) (simp add: x map_add_def split: option.split)
  moreover have "forM xs put_info ?i = (Ok (), ?i\<lparr>infoPyDict := infoPyDict ?i ++ map_of (rev (map (map_prod id update_stats) xs))\<rparr>)"
    by (rule Cons.IH) (use Cons.prems in simp)
  moreover have "?i\<lparr>infoPyDict := d\<rparr> = i\<lparr>infoPyDict := d\<rparr>" for d by simp
  ultimately show ?case by (simp only: forM.simps bindM_Ok [where m = "put_info x", OF put])
qed simp

definition error_text :: "'o pyapi \<Rightarrow> goerr \<Rightarrow> string" where
  "error_text api e = (case FromUTF8 api e of Inr t \<Rightarrow> t | Inl x \<Rightarrow> [])"

definition readable :: "'o pyapi \<Rightarrow> goerr option \<Rightarrow> bool" where
  "readable api err \<longleftrightarrow> (\<forall>e. err = Some e \<longrightarrow> (\<exists>t. FromUTF8 api e = Inr t))"

lemma error_loop_run:
  "fst ` set xs \<subseteq> names i \<Longrightarrow> list_all (readable api \<circ> snd) xs \<Longrightarrow>
    \<exists>d. error_loop api xs i = (Ok None, i\<lparr>errPyDict := d\<rparr>) \<and>
      (distinct (map fst xs) \<longrightarrow>
        d = (\<lambda>n. case map_of xs n of Some (Some e) \<Rightarrow> Some (error_text api e) | _ \<Rightarrow> errPyDict i n))"
proof (induction xs arbitrary: i)
  case Nil
  then show ?case by (intro exI [of _ "errPyDict i"]) simp
next
  case (Cons x xs)
  obtain n err where x: "x = (n, err)" by (cases x)
  have free: "map_of xs n = None" if "distinct (map fst (x # xs))"
    using that by (simp add: x map_of_eq_None_iff)
  show ?case
  proof (cases err)
    case None
    with Cons.IH [of i] Cons.prems obtain d where d: "error_loop api xs i = (Ok None, i\<lparr>errPyDict := d\<rparr>)"
      "distinct (map fst xs) \<longrightarrow> d = (\<lambda>n. case map_of xs n of Some (Some e) \<Rightarrow> Some (error_text api e) | _ \<Rightarrow> errPyDict i n)"
      by auto
    with free show ?thesis
      by (intro exI [of _ d]) (auto simp: x None fun_eq_iff split: option.split)
  next
    case (Some e)
    with Cons.prems obtain t where t: "FromUTF8 api e = Inr t" by (auto simp: x readable_def)
    let ?i = "i\<lparr>errPyDict := (errPyDict i)(n \<mapsto> t)\<rparr>"
    from Cons.IH [of ?i] Cons.prems obtain d where d: "error_loop api xs ?i = (Ok None, i\<lparr>errPyDict := d\<rparr>)"
      "distinct (map fst xs) \<longrightarrow> d = (\<lambda>m. case map_of xs m of Some (Some e) \<Rightarrow> Some (error_text api e) | _ \<Rightarrow> errPyDict ?i m)"
      by auto
    have "n \<in> names i" using Cons.prems by (simp add: x)
    with d t free show ?thesis
      by (intro exI [of _ d]) (auto simp: x Some bindM_def with_key_run error_text_def fun_eq_iff split: option.split)
  qed
qed

lemma populateInfo_run:
  "fst ` set xs \<subseteq> names i \<Longrightarrow>
    populateInfoPyDict xs i = (Ok (), i\<lparr>infoPyDict := map_of (rev (map (map_prod id update_stats) xs))\<rparr>)"
  using put_infos_run [of xs "i\<lparr>infoPyDict := Map.empty\<rparr>"] by (simp add: populateInfoPyDict_def bindM_def)

definition error_texts :: "'o pyapi \<Rightarrow> (string \<times> goerr option) list \<Rightarrow> string \<rightharpoonup> string" where
  "error_texts api xs n = (case map_of xs n of Some err \<Rightarrow> map_option (error_text api) err | None \<Rightarrow> None)"

lemma populateError_run:
  assumes "fst ` set xs \<subseteq> names i" and "list_all (readable api \<circ> snd) xs" and "distinct (map fst xs)"
  shows "populateErrorPyDict api xs i = (Ok None, i\<lparr>errPyDict := error_texts api xs\<rparr>)"
proof -
  let ?i = "i\<lparr>errPyDict := Map.empty\<rparr>"
  from error_loop_run [of xs ?i api] assms obtain d where
    d: "error_loop api xs ?i = (Ok None, ?i\<lparr>errPyDict := d\<rparr>)"
    "distinct (map fst xs) \<longrightarrow>
      d = (\<lambda>n. case map_of xs n of Some (Some e) \<Rightarrow> Some (error_text api e) | _ \<Rightarrow> errPyDict ?i n)"
    by (auto simp del: error_loop.simps)
  from d(2) assms(3) have "d = (\<lambda>n. case map_of xs n of Some (Some e) \<Rightarrow> Some (error_text api e) | _ \<Rightarrow> errPyDict ?i n)"
    by blast
  then have "d = error_texts api xs" unfolding error_texts_def by (auto split: option.split)
  with d(1) show ?thesis by (simp add: populateErrorPyDict_def bindM_def)
qed

section \<open>A whole step\<close>

definition has_pixels :: "session \<Rightarrow> bool" where
  "has_pixels s \<longleftrightarrow> (\<forall>scr \<in> set (screens s). sData scr \<noteq> [])"

lemma map_of_names:
  "map_of (map (\<lambda>n. (n, f n)) ns) n = (if n \<in> set ns then Some (f n) else None)"
  "map_of (rev (map (\<lambda>n. (n, f n)) ns)) n = (if n \<in> set ns then Some (f n) else None)"
  by (simp_all add: rev_map map_of_map_restrict restrict_map_def)

definition results :: "batch \<Rightarrow> (string \<Rightarrow> vnc_event list) \<Rightarrow> string \<Rightarrow> step_result \<times> session" where
  "results b acts n = Step (acts n) (the (sessions b n))"

lemma batch_Step_names:
  assumes "distinct ns" and "set ns = dom (sessions b)"
  obtains b' where "batch_Step_events (map (\<lambda>n. (n, map Some (acts n))) ns) b =
      (Ok (map (\<lambda>n. (n, fst (results b acts n))) ns), b')"
    and "\<And>n. sessions b' n = (if n \<in> set ns then Some (snd (results b acts n)) else None)"
proof -
  let ?acts = "map (\<lambda>n. (n, acts n)) ns"
  have "list_all (can_step b) ?acts" using assms(2) by (auto simp: list_all_iff intro!: can_step_known)
  moreover have "distinct (map fst ?acts)" using assms(1) by (simp add: comp_def)
  ultimately have run: "batch_Step ?acts b = (Ok (map (step_results b) ?acts), b\<lparr>sessions := stepped b (map_of ?acts)\<rparr>)"
    by (rule batch_Step_run)
  show thesis
  proof
    show "batch_Step_events (map (\<lambda>n. (n, map Some (acts n))) ns) b =
        (Ok (map (\<lambda>n. (n, fst (results b acts n))) ns), b\<lparr>sessions := stepped b (map_of ?acts)\<rparr>)"
      using run batch_Step_events_Some [of ?acts] by (simp add: step_results_def results_def comp_def)
    show "sessions (b\<lparr>sessions := stepped b (map_of ?acts)\<rparr>) n = (if n \<in> set ns then Some (snd (results b acts n)) else None)" for n
      using assms(2) by (auto simp: stepped_def map_of_names results_def dom_def split: option.split)
  qed
qed

definition same_screens :: "session \<Rightarrow> session \<Rightarrow> bool" where
  "same_screens s s' \<longleftrightarrow> screens s' = screens s"

interpretation screening: frame same_screens
  by unfold_locales (simp_all add: same_screens_def)

lemma Step_same_screens: "keeps same_screens (Step es)"
proof -
  have "keeps same_screens (on_conn m)" for m :: "(client, 'a) prog"
    by (auto simp: keeps_def on_conn_def same_screens_def split: option.split prod.split)
  moreover have "keeps same_screens Flip"
    by (auto simp: keeps_def Flip_def Let_def same_screens_def)
  ultimately show ?thesis unfolding Step_def
    by (intro screening.keeps_prog screening.keeps_forM keeps_case_option)
qed

lemma not_blank:
  assumes "screen_known b x" and "\<And>s. sessions b (fst x) = Some s \<Longrightarrow> has_pixels s"
  shows "\<not> screen_blank b x"
  using assms by (fastforce simp: screen_known_def screen_blank_def no_pixels_def has_pixels_def)

text \<open>What Python finds in the dictionaries under a name after stepping its session.\<close>

definition shows_step :: "'o pyapi \<Rightarrow> session_info \<Rightarrow> string \<Rightarrow> step_result \<times> session \<Rightarrow> bool" where
  "shows_step api i n x \<longleftrightarrow>
     sessions (vbatch i) n = Some (snd x) \<and>
     screenPyDict i n = Some (map_option (array_of (snd x)) (observation (fst x))) \<and>
     infoPyDict i n = Some (update_stats (step_updates (fst x))) \<and>
     errPyDict i n = map_option (error_text api) (step_error (fst x))"

lemma populateScreen_run:
  assumes "info_ok i" and "list_all (screen_known (vbatch i)) scrs" and "\<forall>x \<in> set scrs. \<not> screen_blank (vbatch i) x"
  shows "\<exists>m. populateScreenPyDict scrs i =
    (Ok (), i\<lparr>screenPyDict := map_of (rev (map (screen_of (vbatch i)) scrs)), screenNumpy := m\<rparr>)"
proof -
  have "populateScreenPyDict scrs (i\<lparr>screenPyDict := Map.empty\<rparr>) = populateScreenPyDict scrs i"
    by (simp add: populateScreenPyDict_def bindM_def)
  moreover obtain r d m where
    "populateScreenPyDict scrs (i\<lparr>screenPyDict := Map.empty\<rparr>) = (r, i\<lparr>screenPyDict := d, screenNumpy := m\<rparr>)"
    and "r = Ok () \<and> d = map_of (rev (map (screen_of (vbatch i)) scrs)) \<or>
      r = Panic IndexOutOfRange \<and> (\<exists>x \<in> set scrs. screen_blank (vbatch i) x)"
    using populateScreen_sound [OF assms(1,2)] unfolding screens_put_def by auto
  moreover from this(2) assms(3) have "r = Ok ()" "d = map_of (rev (map (screen_of (vbatch i)) scrs))" by auto
  ultimately show ?thesis by (intro exI [of _ m]) simp
qed

text \<open>Stepping every session of an object: the results, the batch, and the screens it hands out.\<close>

definition all_stepped ::
  "session_info \<Rightarrow> (string \<Rightarrow> vnc_event list) \<Rightarrow> string list \<Rightarrow> batch \<Rightarrow> bool" where
  "all_stepped i acts ns b \<longleftrightarrow>
     batch_Step_events (map (\<lambda>n. (n, map Some (acts n))) ns) (vbatch i) =
       (Ok (map (\<lambda>n. (n, fst (results (vbatch i) acts n))) ns), b) \<and>
     (\<forall>n \<in> set ns. sessions b n = Some (snd (results (vbatch i) acts n))) \<and>
     info_ok (i\<lparr>vbatch := b\<rparr>) \<and>
     list_all (screen_known b) (map (\<lambda>n. (n, observation (fst (results (vbatch i) acts n)))) ns) \<and>
     (\<forall>n \<in> set ns. \<not> screen_blank b (n, observation (fst (results (vbatch i) acts n))))"

lemma step_sessions:
  assumes i: "info_ok i" and ns: "distinct ns" "set ns = names i"
    and pixels: "\<And>n s. sessions (vbatch i) n = Some s \<Longrightarrow> has_pixels s"
  shows "\<exists>b. all_stepped i acts ns b"
proof -
  let ?R = "results (vbatch i) acts"
  have dom: "set ns = dom (sessions (vbatch i))" using i ns(2) unfolding info_ok_def by simp
  obtain b where b: "batch_Step_events (map (\<lambda>n. (n, map Some (acts n))) ns) (vbatch i) =
      (Ok (map (\<lambda>n. (n, fst (?R n))) ns), b)"
    and s: "\<And>n. sessions b n = (if n \<in> set ns then Some (snd (?R n)) else None)"
    by (rule batch_Step_names [where acts = acts, OF ns(1) dom]) (rule that)
  from batch_step_sound [OF i b] have i1: "info_ok (i\<lparr>vbatch := b\<rparr>)"
    and known: "list_all (screen_known b) (map (\<lambda>n. (n, observation (fst (?R n)))) ns)" by (simp_all add: comp_def)
  have pix: "has_pixels t" if t: "sessions b n = Some t" for n t
  proof -
    have n: "n \<in> set ns" "t = snd (?R n)" using t s by (auto split: if_splits)
    then obtain c where c: "sessions (vbatch i) n = Some c" using dom by blast
    then have "t = snd (Step (acts n) c)" by (simp add: n(2) results_def)
    then have "same_screens c t" using Step_same_screens by (simp add: keeps_def)
    with pixels [OF c] show ?thesis by (simp add: has_pixels_def same_screens_def)
  qed
  have "\<forall>n \<in> set ns. \<not> screen_blank b (n, observation (fst (?R n)))"
  proof
    fix n assume "n \<in> set ns"
    with known have "screen_known b (n, observation (fst (?R n)))" by (simp add: list_all_iff)
    then show "\<not> screen_blank b (n, observation (fst (?R n)))" by (rule not_blank) (rule pix)
  qed
  with b s i1 known show ?thesis unfolding all_stepped_def by auto
qed

lemma fst_set_names: "fst ` set (map (\<lambda>n. (n, g n)) ns) = set ns"
  by (simp add: image_image)

lemma step_populates:
  assumes ns: "distinct ns" "set ns = names i" and b: "all_stepped i acts ns b"
    and texts: "\<forall>n \<in> set ns. readable api (step_error (fst (results (vbatch i) acts n)))"
    and rs: "rs = map (\<lambda>n. (n, fst (results (vbatch i) acts n))) ns"
  shows "\<exists>i2 i3 i4.
    populateScreenPyDict (map (map_prod id observation) rs) (i\<lparr>vbatch := b\<rparr>) = (Ok (), i2) \<and>
    populateInfoPyDict (map (map_prod id step_updates) rs) i2 = (Ok (), i3) \<and>
    populateErrorPyDict api (map (map_prod id step_error) rs) i3 = (Ok None, i4) \<and> names i4 = names i \<and>
    (\<forall>n \<in> set ns. shows_step api i4 n (results (vbatch i) acts n))"
proof -
  let ?R = "results (vbatch i) acts" let ?i1 = "i\<lparr>vbatch := b\<rparr>"
  let ?scrs = "map (\<lambda>n. (n, observation (fst (?R n)))) ns"
  let ?us = "map (\<lambda>n. (n, step_updates (fst (?R n)))) ns" let ?es = "map (\<lambda>n. (n, step_error (fst (?R n)))) ns"
  have lists: "map (map_prod id observation) rs = ?scrs" "map (map_prod id step_updates) rs = ?us"
    "map (map_prod id step_error) rs = ?es" by (simp_all add: rs)
  have i1: "info_ok ?i1" and known: "list_all (screen_known (vbatch ?i1)) ?scrs"
    and blank: "\<forall>x \<in> set ?scrs. \<not> screen_blank (vbatch ?i1) x"
    and s: "\<And>n. n \<in> set ns \<Longrightarrow> sessions b n = Some (snd (?R n))"
    using b unfolding all_stepped_def by auto
  let ?d = "map_of (rev (map (screen_of (vbatch ?i1)) ?scrs))"
  from populateScreen_run [OF i1 known blank] obtain m where
    2: "populateScreenPyDict ?scrs ?i1 = (Ok (), ?i1\<lparr>screenPyDict := ?d, screenNumpy := m\<rparr>)"
    by (elim exE) (rule that)
  let ?i2 = "?i1\<lparr>screenPyDict := ?d, screenNumpy := m\<rparr>"
  let ?e = "map_of (rev (map (map_prod id update_stats) ?us))" let ?i3 = "?i2\<lparr>infoPyDict := ?e\<rparr>"
  have "fst ` set ?us \<subseteq> names ?i2" unfolding fst_set_names by (simp add: ns(2))
  then have 3: "populateInfoPyDict ?us ?i2 = (Ok (), ?i3)" by (rule populateInfo_run)
  have sub: "fst ` set ?es \<subseteq> names ?i3" unfolding fst_set_names by (simp add: ns(2))
  have es: "list_all (readable api \<circ> snd) ?es" using texts by (auto simp: list_all_iff)
  let ?f = "error_texts api ?es"
  have 4: "populateErrorPyDict api ?es ?i3 = (Ok None, ?i3\<lparr>errPyDict := ?f\<rparr>)"
    by (rule populateError_run [OF sub es]) (simp add: comp_def ns(1))
  have "shows_step api (?i3\<lparr>errPyDict := ?f\<rparr>) n (?R n)" if n: "n \<in> set ns" for n
  proof -
    have "map_of ?es n = Some (step_error (fst (?R n)))"
      using map_of_names(1) [of "\<lambda>n. step_error (fst (?R n))" ns n] n by simp
    moreover have "?d n = Some (map_option (array_of (snd (?R n))) (observation (fst (?R n))))"
      using map_of_names(2) [of "\<lambda>n. map_option (array_of (the (sessions b n))) (observation (fst (?R n)))" ns n] n
      by (simp add: comp_def screen_of_def s)
    moreover have "?e n = Some (update_stats (step_updates (fst (?R n))))"
      using map_of_names(2) [of "\<lambda>n. update_stats (step_updates (fst (?R n)))" ns n] n by (simp add: comp_def)
    ultimately show ?thesis using s [OF n] unfolding shows_step_def error_texts_def by (simp split: option.split)
  qed
  moreover have "names (?i3\<lparr>errPyDict := ?f\<rparr>) = names i" by simp
  ultimately show ?thesis using 2 3 4 unfolding lists by blast
qed

lemma GoVNCDriver_step_run:
  assumes i: "batchMgr v p = Some i" and e: "pyError v = None" and ok: "info_ok i"
    and ns: "distinct ns" "set ns = names i"
    and conv: "\<forall>n \<in> set ns. action_converts api dict n (acts n)"
    and pixels: "\<And>n s. sessions (vbatch i) n = Some s \<Longrightarrow> has_pixels s"
    and texts: "\<forall>n \<in> set ns. readable api (step_error (fst (results (vbatch i) acts n)))"
  shows "\<exists>v' i'. GoVNCDriver_step api p ns dict v = (Ok (Some ()), v') \<and>
    v' = v\<lparr>batchMgr := (batchMgr v)(p \<mapsto> i')\<rparr> \<and> names i' = names i \<and>
    (\<forall>n \<in> names i. shows_step api i' n (results (vbatch i) acts n))"
proof -
  let ?a = "map (\<lambda>n. (n, map Some (acts n))) ns"
  have "\<exists>b. all_stepped i acts ns b" by (rule step_sessions [OF ok ns]) (rule pixels)
  then obtain b where b: "all_stepped i acts ns b" by (elim exE)
  define rs where rs: "rs = map (\<lambda>n. (n, fst (results (vbatch i) acts n))) ns"
  have 1: "on_batch (batch_Step_events ?a) i = (Ok rs, i\<lparr>vbatch := b\<rparr>)"
    using b by (simp add: all_stepped_def on_batch_def zoom_def rs)
  obtain i2 i3 i4 where
    2: "populateScreenPyDict (map (map_prod id observation) rs) (i\<lparr>vbatch := b\<rparr>) = (Ok (), i2)" and
    3: "populateInfoPyDict (map (map_prod id step_updates) rs) i2 = (Ok (), i3)" and
    4: "populateErrorPyDict api (map (map_prod id step_error) rs) i3 = (Ok None, i4)" and
    n4: "names i4 = names i" "\<forall>n \<in> set ns. shows_step api i4 n (results (vbatch i) acts n)"
    using step_populates [OF ns b texts rs] by (elim exE conjE) (rule that)
  let ?v = "\<lambda>i. v\<lparr>batchMgr := (batchMgr v)(p \<mapsto> i)\<rparr>"
  have c: "on_py (collect_events api dict ns) v = (Ok (Some ?a), v)"
    using collect_events_converts [OF conv] e by (cases v) (simp add: on_py_def zoom_def)
  have run:
    "on_info p (on_batch (batch_Step_events ?a)) v = (Ok rs, ?v (i\<lparr>vbatch := b\<rparr>))"
    "on_info p (populateScreenPyDict (map (map_prod id observation) rs)) (?v (i\<lparr>vbatch := b\<rparr>)) = (Ok (), ?v i2)"
    "on_info p (populateInfoPyDict (map (map_prod id step_updates) rs)) (?v i2) = (Ok (), ?v i3)"
    "on_info p (populateErrorPyDict api (map (map_prod id step_error) rs)) (?v i3) = (Ok None, ?v i4)"
    by (simp_all add: on_info_def i 1 2 3 4 del: batch_Step_events.simps)
  have "GoVNCDriver_step api p ns dict v = (Ok (Some ()), ?v i4)"
    unfolding GoVNCDriver_step_def with_info_def bindM_getS i option.case bindP_def
    by (simp add: bindM_def c run)
  with n4 ns(2) show ?thesis by (intro exI [of _ "?v i4"] exI [of _ i4]) simp
qed

end
