(* ===== verification/PyCalls.thy ===== *)
theory PyCalls
  imports PyStep
begin

text \<open>
  The properties of the extension module as Python sees it: what a step returns, what it sends, what becomes
  of values that do not fit, and where a call ends the process or stops working.
\<close>

section \<open>Objects to try the module with\<close>

datatype pyobj =
    PInt int
  | PBool bool
  | PStr string
  | PTuple "pyobj list"
  | PList "pyobj list"
  | PDict "(string \<times> pyobj) list"

definition demo_api :: "pyobj pyapi" where
  "demo_api =
     \<lparr>TupleItem = (\<lambda>x k. case x of PTuple xs \<Rightarrow> if k < length xs then Inr (xs ! k) else Inl ''IndexError'' | _ \<Rightarrow> Inl ''SystemError''),
      AsUnicode = (\<lambda>x. case x of PStr s \<Rightarrow> Inr x | _ \<Rightarrow> Inl ''TypeError''),
      AsASCII = (\<lambda>x. Inr x),
      AsBytes = (\<lambda>x. case x of PStr s \<Rightarrow> Inr s | _ \<Rightarrow> Inl ''TypeError''),
      ObjectRepr = (\<lambda>x. Inr (PStr ''object'')),
      AsLong = (\<lambda>x. case x of PInt n \<Rightarrow> Inr n | _ \<Rightarrow> Inl ''TypeError''),
      IsTrue = (\<lambda>x. case x of PBool b \<Rightarrow> Inr b | PInt n \<Rightarrow> Inr (n \<noteq> 0) | _ \<Rightarrow> Inr True),
      DictItem = (\<lambda>x n. case x of PDict d \<Rightarrow> Inr (map_of d n) | _ \<Rightarrow> Inr None),
      ObjectIter = (\<lambda>x. case x of PList xs \<Rightarrow> Inr (xs, None) | PTuple xs \<Rightarrow> Inr (xs, None) | _ \<Rightarrow> Inl ''TypeError''),
      FromUTF8 = (\<lambda>e. Inr ''error'')\<rparr>"

definition demo_args :: "pyobj connect_args" where
  "demo_args =
     \<lparr>argName = ''a'', argAddress = ''localhost:5900'', argPassword = [], argEncoding = ''raw'',
      argQualityLevel = -1, argCompressLevel = -1, argFineQualityLevel = -1, argSubsampleLevel = -1,
      argStartTimeout = 0, argSubscription = None\<rparr>"

section \<open>Tuples and events\<close>

definition text_of :: "'o pyapi \<Rightarrow> 'o \<Rightarrow> string \<Rightarrow> bool" where
  "text_of api x s \<longleftrightarrow> GoString_FromPyString api x None = (Ok (Some s), None)"

definition tuple_text :: "'o pyapi \<Rightarrow> 'o \<Rightarrow> nat \<Rightarrow> string \<Rightarrow> bool" where
  "tuple_text api t k s \<longleftrightarrow> (\<exists>x. TupleItem api t k = Inr x \<and> text_of api x s)"

definition tuple_int :: "'o pyapi \<Rightarrow> 'o \<Rightarrow> nat \<Rightarrow> int \<Rightarrow> bool" where
  "tuple_int api t k n \<longleftrightarrow> (\<exists>x. TupleItem api t k = Inr x \<and> AsLong api x = Inr n)"

definition tuple_bool :: "'o pyapi \<Rightarrow> 'o \<Rightarrow> nat \<Rightarrow> bool \<Rightarrow> bool" where
  "tuple_bool api t k b \<longleftrightarrow> (\<exists>x. TupleItem api t k = Inr x \<and> IsTrue api x = Inr b)"

lemmas conversion_simps = bindP_def bindM_def pycall_def Let_def

lemma getInt_run: "tuple_int api t k n \<Longrightarrow> getIntFromTuple api t k None = (Ok (Some n), None)"
  by (auto simp: tuple_int_def getIntFromTuple_def conversion_simps)

lemma getBool_run: "tuple_bool api t k b \<Longrightarrow> getBoolFromTuple api t k None = (Ok (Some b), None)"
  by (auto simp: tuple_bool_def getBoolFromTuple_def conversion_simps)

lemma convert_pointer:
  assumes "tuple_text api t 0 ''PointerEvent''" and "tuple_int api t 1 x" and "tuple_int api t 2 y" and "tuple_int api t 3 m"
  shows "converts api t (PointerEvent (of_int m) (of_int x) (of_int y))"
  using assms(1) getInt_run [OF assms(2)] getInt_run [OF assms(3)] getInt_run [OF assms(4)]
  by (auto simp: converts_def convertEventPy_def tuple_text_def text_of_def conversion_simps)

lemma convert_key:
  assumes "tuple_text api t 0 ''KeyEvent''" and "tuple_int api t 1 k" and "tuple_bool api t 2 d"
  shows "converts api t (KeyEvent (of_int k) d)"
  using assms(1) getInt_run [OF assms(2)] getBool_run [OF assms(3)]
  by (auto simp: converts_def convertEventPy_def tuple_text_def text_of_def conversion_simps)

lemma convert_unknown:
  assumes "tuple_text api t 0 s" and "s \<noteq> ''PointerEvent''" and "s \<noteq> ''KeyEvent''"
  shows "convertEventPy api t None = (Ok (Some None), Some (PyGo (Errorf ''invalid event type'')))"
  using assms by (auto simp: convertEventPy_def tuple_text_def text_of_def conversion_simps setError_def)

section \<open>A program that has connected\<close>

definition demo_new :: session where
  "demo_new = NewVNCSession (connect_config demo_args None)"

definition demo_linked :: session where
  "demo_linked =
     (new_screens demo_client demo_new)\<lparr>sconn := Some (conn_after_setup (config demo_new) RawEncoding demo_client)\<rparr>"

definition demo_info :: "session \<Rightarrow> session_info" where
  "demo_info s =
     new_info\<lparr>vbatch := \<lparr>sessions = [''a'' \<mapsto> s], dropped = []\<rparr>, names := {''a''},
       screenNumpy := [''a'' \<mapsto> Map.empty]\<rparr>"

definition demo_binding :: "session \<Rightarrow> binding" where
  "demo_binding s = \<lparr>batchMgr = [0 \<mapsto> demo_info s], pyError = None\<rparr>"

lemmas demo_state = demo_binding_def demo_info_def new_info_def NewVNCBatch_def

lemma demo_connect:
  "GoVNCDriver_connect demo_api 0 (Inr demo_args) \<lparr>batchMgr = [0 \<mapsto> new_info], pyError = None\<rparr> =
    (Ok (Some ()), demo_binding demo_new)"
  by (simp add: GoVNCDriver_connect_def with_info_def bindM_getS conversion_simps on_py_def zoom_def
      convertSubscriptionPy_def demo_args_def on_info_def on_batch_def batch_Open_def close_dropped_def raising_def
      info_open_def demo_state demo_new_def)

lemma demo_setup: "connect_setup demo_client demo_new = (Ok (), demo_linked)"
  unfolding demo_linked_def
proof (rule connect_setup_run)
  show "wres demo_client = []" by (simp add: demo_client_def)
  show "base_encoding (cfgEncoding (config demo_new)) = Ok RawEncoding" "\<not> closed demo_new"
    by (simp_all add: demo_new_def NewVNCSession_def clamp_config_def connect_config_def demo_args_def base_encoding_def)
qed

lemma demo_reach: "py_reach demo_api (demo_binding demo_linked)"
proof -
  let ?v0 = "\<lparr>batchMgr = Map.empty, pyError = None\<rparr>" and ?v1 = "\<lparr>batchMgr = [0 \<mapsto> new_info], pyError = None\<rparr>"
  have "py_call demo_api (CallInit 0) ?v0 = (Ok (Some ()), ?v1)"
    by (simp add: GoVNCDriver_c_init_def bindM_def)
  from py_reach.calls [OF py_reach.start _ this] have "py_reach demo_api ?v1" by simp
  from py_reach.calls [OF this, of "CallConnect 0 (Inr demo_args)"] demo_connect
  have 1: "py_reach demo_api (demo_binding demo_new)" by simp
  have "goroutine demo_new demo_linked" by (rule goroutine.connects [OF demo_setup])
  from py_reach.meanwhile [OF 1, of 0 "demo_info demo_new" "''a''", OF _ _ this] show ?thesis
    by (simp add: demo_state)
qed

lemma demo_linked_facts:
  "serr demo_linked = None" "sconn demo_linked = Some (conn_after_setup (config demo_new) RawEncoding demo_client)"
  "wres (conn_after_setup (config demo_new) RawEncoding demo_client) = []"
  "screens demo_linked = [NewScreen 2 2, NewScreen 2 2]" "frontScreen demo_linked = Some 0" "backScreen demo_linked = Some 1"
  "backUpdated demo_linked" "deferredUpdates demo_linked = []"
  by (simp_all add: demo_linked_def new_screens_def demo_new_def NewVNCSession_def conn_after_setup_def demo_client_def)

lemma demo_pixels: "has_pixels demo_linked"
  by (simp add: has_pixels_def demo_linked_facts NewScreen_def)

lemma demo_info_facts:
  "batchMgr (demo_binding s) 0 = Some (demo_info s)" "pyError (demo_binding s) = None" "names (demo_info s) = {''a''}"
  "sessions (vbatch (demo_info s)) = [''a'' \<mapsto> s]" "screenNumpy (demo_info s) = [''a'' \<mapsto> Map.empty]"
  by (simp_all add: demo_state)

section \<open>The state and the results\<close>

text \<open>(C7) Between the calls of a Python program, and whatever the goroutines do meanwhile, the state of
  every object is well formed: the names it keeps are exactly the sessions of its batch and exactly the
  entries of its arrays, and every array it has handed out has the shape of a screen that its session
  still has at that place.\<close>

theorem binding_well_formed:
  assumes "py_reach api v" and "batchMgr v p = Some i"
  shows "finite (names i) \<and> dom (sessions (vbatch i)) = names i \<and> dom (screenNumpy i) = names i \<and>
    (\<forall>n s m k a. sessions (vbatch i) n = Some s \<longrightarrow> screenNumpy i n = Some m \<longrightarrow> m k = Some a \<longrightarrow>
      k < length (screens s) \<and>
      a = \<lparr>nHeight = sHeight (screens s ! k), nWidth = sWidth (screens s ! k), nScreen = k\<rparr>)"
proof -
  have "info_ok i" using py_reach_ok [OF assms(1)] assms(2) unfolding binding_ok_def by blast
  then show ?thesis unfolding info_ok_def arrays_ok_def array_of_def by (elim conjE) (intro conjI, blast+)
qed

theorem binding_well_formed_witness:
  "dom (sessions (vbatch (demo_info demo_linked))) = {''a''} \<and> dom (screenNumpy (demo_info demo_linked)) = {''a''}"
  using binding_well_formed [OF demo_reach demo_info_facts(1)] by (simp only: demo_info_facts)

text \<open>The step as a lemma over \<open>shows_step\<close>, for the properties below.\<close>

lemma step_shows:
  assumes "py_reach api v" and "batchMgr v p = Some i" and "pyError v = None"
    and "distinct ns" and "set ns = names i" and "\<forall>n \<in> names i. action_converts api dict n (acts n)"
    and "\<forall>n s. sessions (vbatch i) n = Some s \<longrightarrow> has_pixels s"
    and "\<forall>n s. sessions (vbatch i) n = Some s \<longrightarrow> readable api (step_error (fst (Step (acts n) s)))"
  shows "\<exists>v' i'. GoVNCDriver_step api p ns dict v = (Ok (Some ()), v') \<and> batchMgr v' p = Some i' \<and>
    pyError v' = None \<and>
    (\<forall>n s. sessions (vbatch i) n = Some s \<longrightarrow> shows_step api i' n (Step (acts n) s))"
proof -
  have ok: "info_ok i" using py_reach_ok [OF assms(1)] assms(2) unfolding binding_ok_def by blast
  then have dom: "dom (sessions (vbatch i)) = names i" by (simp only: info_ok_def)
  have conv: "\<forall>n \<in> set ns. action_converts api dict n (acts n)" using assms(5,6) by simp
  have texts: "\<forall>n \<in> set ns. readable api (step_error (fst (results (vbatch i) acts n)))"
  proof
    fix n assume "n \<in> set ns"
    then obtain s where "sessions (vbatch i) n = Some s" using dom assms(5) by blast
    with assms(8) show "readable api (step_error (fst (results (vbatch i) acts n)))" by (simp add: results_def)
  qed
  have "\<exists>v' i'. GoVNCDriver_step api p ns dict v = (Ok (Some ()), v') \<and>
      v' = v\<lparr>batchMgr := (batchMgr v)(p \<mapsto> i')\<rparr> \<and> names i' = names i \<and>
      (\<forall>n \<in> names i. shows_step api i' n (results (vbatch i) acts n))"
    by (rule GoVNCDriver_step_run [OF assms(2,3) ok assms(4,5) conv _ texts]) (rule assms(7) [rule_format])
  then obtain v' i' where run: "GoVNCDriver_step api p ns dict v = (Ok (Some ()), v')"
    "v' = v\<lparr>batchMgr := (batchMgr v)(p \<mapsto> i')\<rparr>" "\<forall>n \<in> names i. shows_step api i' n (results (vbatch i) acts n)"
    by (elim exE conjE) (rule that)
  have "shows_step api i' n (Step (acts n) s)" if "sessions (vbatch i) n = Some s" for n s
  proof -
    have "n \<in> names i" using dom that by blast
    with run(3) have "shows_step api i' n (results (vbatch i) acts n)" by blast
    with that show ?thesis by (simp add: results_def)
  qed
  with run(1,2) assms(3) show ?thesis by (intro exI [of _ v'] exI [of _ i']) simp
qed


definition demo_key :: pyobj where
  "demo_key = PTuple [PStr ''KeyEvent'', PInt 97, PBool True]"

lemma demo_key_converts: "converts demo_api demo_key (KeyEvent 97 True)"
proof -
  have "tuple_text demo_api demo_key 0 ''KeyEvent''" "tuple_int demo_api demo_key 1 97" "tuple_bool demo_api demo_key 2 True"
    by (simp_all add: tuple_text_def tuple_int_def tuple_bool_def text_of_def GoString_FromPyString_def or_error_def
        GoString_def conversion_simps demo_api_def demo_key_def)
  from convert_key [OF this] show ?thesis by simp
qed

lemma demo_action_converts:
  "action_converts demo_api (PDict [(''a'', PList [demo_key])]) ''a'' [KeyEvent 97 True]"
proof -
  have "list_all2 (converts demo_api) [demo_key] [KeyEvent 97 True]" by (simp add: demo_key_converts)
  then show ?thesis unfolding action_converts_def by (intro disjI2 exI conjI) (auto simp: demo_api_def)
qed

definition demo_sent :: client where
  "demo_sent = (conn_after_setup (config demo_new) RawEncoding demo_client)
     \<lparr>sent := sent (conn_after_setup (config demo_new) RawEncoding demo_client) @ events_bytes [KeyEvent 97 True]\<rparr>"

lemma demo_Step:
  "Step [KeyEvent 97 True] demo_linked =
    (Ok (Some (Some 1, [])), demo_linked\<lparr>sconn := Some demo_sent, frontScreen := Some 1, backScreen := Some 0,
       backUpdated := False, flips := flips demo_linked + 1, rcalls := rcalls demo_linked\<rparr>)"
proof -
  have "\<not> rendererActive demo_linked" by (simp add: demo_linked_def new_screens_def demo_new_def NewVNCSession_def)
  then show ?thesis
    using events_written [OF demo_linked_facts(2,3), of "[KeyEvent 97 True]"]
    by (simp add: Step_def bindM_def Flip_def Let_def demo_linked_facts demo_sent_def [symmetric])
qed


section \<open>What a step sends\<close>

text \<open>(C18) The events of a step reach the server: when the connection of a session writes, stepping sends
  bytes from which a server reads exactly the events that the action converted to, in order, whatever other
  sessions are stepped in the same call.\<close>

theorem python_events_on_wire:
  assumes "py_reach api v" and "batchMgr v p = Some i" and "pyError v = None"
    and "distinct ns" and "set ns = names i" and "\<forall>n \<in> names i. action_converts api dict n (acts n)"
    and "\<forall>n s. sessions (vbatch i) n = Some s \<longrightarrow> has_pixels s"
    and "\<forall>n s. sessions (vbatch i) n = Some s \<longrightarrow> readable api (step_error (fst (Step (acts n) s)))"
    and "sessions (vbatch i) n = Some c" and "serr c = None" and "sconn c = Some conn" and "wres conn = []"
  shows "\<exists>v' i' c' bs. GoVNCDriver_step api p ns dict v = (Ok (Some ()), v') \<and> batchMgr v' p = Some i' \<and>
    sessions (vbatch i') n = Some c' \<and> sconn c' = Some (conn\<lparr>sent := sent conn @ bs\<rparr>) \<and>
    (\<forall>(r :: reader) rest. rbytes r = bs @ rest \<longrightarrow>
       mapM (\<lambda>_. parse_msg) (acts n) r = (Ok (map event_msg (acts n)), r\<lparr>rbytes := rest\<rparr>))"
proof -
  from step_shows [OF assms(1-8)] obtain v' i' where run: "GoVNCDriver_step api p ns dict v = (Ok (Some ()), v')"
    "batchMgr v' p = Some i'" "\<forall>n s. sessions (vbatch i) n = Some s \<longrightarrow> shows_step api i' n (Step (acts n) s)"
    by (elim exE conjE) (rule that)
  from Step_written [OF assms(11,12,10), of "acts n"] obtain x c' where c':
    "Step (acts n) c = (Ok (Some x), c')" "sconn c' = Some (conn\<lparr>sent := sent conn @ events_bytes (acts n)\<rparr>)"
    by (elim exE conjE) (rule that)
  have "shows_step api i' n (Step (acts n) c)" using run(3) assms(9) by blast
  then have "sessions (vbatch i') n = Some c'" by (simp add: shows_step_def c'(1))
  with run(1,2) c'(2) events_bytes_parsed show ?thesis by blast
qed

theorem python_events_on_wire_witness:
  "\<exists>v' i' c' bs. GoVNCDriver_step demo_api 0 [''a''] (PDict [(''a'', PList [demo_key])]) (demo_binding demo_linked) =
      (Ok (Some ()), v') \<and> batchMgr v' 0 = Some i' \<and> sessions (vbatch i') ''a'' = Some c' \<and>
    (\<exists>conn. sconn c' = Some (conn\<lparr>sent := sent conn @ bs\<rparr>)) \<and>
    mapM (\<lambda>_. parse_msg) [()] (\<lparr>rbytes = bs, rend = EOF\<rparr> :: reader) = (Ok [MKey True 97], \<lparr>rbytes = [], rend = EOF\<rparr>)"
proof -
  have 1: "\<forall>n \<in> names (demo_info demo_linked). action_converts demo_api (PDict [(''a'', PList [demo_key])]) n [KeyEvent 97 True]"
    using demo_action_converts by (simp add: demo_info_facts)
  have 2: "\<forall>n s. sessions (vbatch (demo_info demo_linked)) n = Some s \<longrightarrow> has_pixels s"
    by (simp add: demo_info_facts demo_pixels)
  have 3: "\<forall>n s. sessions (vbatch (demo_info demo_linked)) n = Some s \<longrightarrow>
      readable demo_api (step_error (fst (Step [KeyEvent 97 True] s)))"
    by (simp add: demo_info_facts demo_Step step_error_def readable_def)
  have 4: "distinct [''a'']" "set [''a''] = names (demo_info demo_linked)"
    "sessions (vbatch (demo_info demo_linked)) ''a'' = Some demo_linked" by (simp_all add: demo_info_facts)
  from python_events_on_wire [where acts = "\<lambda>_. [KeyEvent 97 True]", OF demo_reach demo_info_facts(1,2) 4(1,2) 1 2 3 4(3)
      demo_linked_facts(1-3)]
  obtain v' i' c' bs where run: "GoVNCDriver_step demo_api 0 [''a''] (PDict [(''a'', PList [demo_key])]) (demo_binding demo_linked) =
      (Ok (Some ()), v')" "batchMgr v' 0 = Some i'" "sessions (vbatch i') ''a'' = Some c'"
      "\<exists>conn. sconn c' = Some (conn\<lparr>sent := sent conn @ bs\<rparr>)"
    and parse: "\<And>(r :: reader) rest. rbytes r = bs @ rest \<Longrightarrow>
       mapM (\<lambda>_. parse_msg) [KeyEvent 97 True] r = (Ok (map event_msg [KeyEvent 97 True]), r\<lparr>rbytes := rest\<rparr>)"
    by blast
  from parse [of "\<lparr>rbytes = bs, rend = EOF\<rparr>" "[]"] run show ?thesis by auto
qed

text \<open>The numbers of an event tuple are C longs that the conversion cuts to the width of the field: an
  \<open>x\<close> or \<open>y\<close> goes out modulo 65536 and a mask modulo 256, a key modulo \<open>2 ^ 32\<close>. So a position outside of the
  screen or a negative one is not refused but sent as another position.\<close>

lemma event_numbers_wrap:
  assumes "tuple_int api t 1 x" and "tuple_int api t 2 y" and "tuple_int api t 3 m" and "tuple_text api t 0 ''PointerEvent''"
  shows "\<exists>b px py. converts api t (PointerEvent b px py) \<and>
    uint px = x mod 65536 \<and> uint py = y mod 65536 \<and> uint b = m mod 256"
proof -
  have "uint (of_int x :: u16) = x mod 65536" "uint (of_int y :: u16) = y mod 65536" "uint (of_int m :: u8) = m mod 256"
    by (simp_all add: uint_word_of_int)
  with convert_pointer [OF assms(4,1,2,3)] show ?thesis by blast
qed

definition demo_pointer :: pyobj where
  "demo_pointer = PTuple [PStr ''PointerEvent'', PInt 65541, PInt (-1), PInt 257]"

lemma event_numbers_wrap_witness:
  "\<exists>b px py. converts demo_api demo_pointer (PointerEvent b px py) \<and> uint px = 5 \<and> uint py = 65535 \<and> uint b = 1"
proof -
  have "tuple_int demo_api demo_pointer 1 65541" "tuple_int demo_api demo_pointer 2 (-1)" "tuple_int demo_api demo_pointer 3 257"
    "tuple_text demo_api demo_pointer 0 ''PointerEvent''"
    by (simp_all add: tuple_text_def tuple_int_def text_of_def GoString_FromPyString_def or_error_def numeral_nat
        GoString_def conversion_simps demo_api_def demo_pointer_def)
  from event_numbers_wrap [OF this] show ?thesis by simp
qed

section \<open>Where a call goes wrong\<close>

lemma event_loop_unknown:
  assumes "list_all2 (converts api) items es" and "convertEventPy api t None = (Ok (Some None), Some e)"
  shows "event_loop api (items @ [t]) None pre None = (Ok (pre @ map Some es @ [None], True), Some e)"
  using assms(1)
proof (induction items arbitrary: es pre)
  case (Cons item items)
  then obtain ev es' where e: "es = ev # es'" "converts api item ev" "list_all2 (converts api) items es'"
    by (auto simp: list_all2_Cons1)
  with Cons.IH [OF e(3)] show ?case by (simp add: bindM_def converts_def)
qed (use assms(2) in \<open>simp add: bindM_def iter_end_def\<close>)

lemma Step_events_nil:
  assumes "sconn c = Some conn" and "wres conn = []" and "serr c = None"
  shows "fst (Step_events (map Some es @ [None]) c) = Panic NilDereference"
proof -
  have 1: "forM (map Some es) (\<lambda>ev. annotate ''could not step'' (on_conn (exec_event ev))) c =
      (Ok (), c\<lparr>sconn := Some (conn\<lparr>sent := sent conn @ events_bytes es\<rparr>)\<rparr>)"
    unfolding forM_map exec_event_def option.case by (rule events_written [OF assms(1,2)])
  show ?thesis using 1 assms
    by (simp add: Step_events_def bindM_def forM_append annotate_def on_conn_def exec_event_def)
qed

lemma collect_one:
  assumes "DictItem api dict n = Inr (Some a)" and "ObjectIter api a = Inr (items, None)"
    and "event_loop api items None [] None = (Ok (evs, True), e)"
  shows "collect_events api dict [n] None = (Ok (Some [(n, evs)]), e)"
  using assms by (simp add: conversion_simps action_events_def)

lemma step_one:
  assumes "batchMgr v p = Some i" and "pyError v = None"
    and "collect_events api dict [n] None = (Ok (Some [(n, evs)]), e)"
    and "sessions (vbatch i) n = Some c" and "fst (Step_events evs c) = Panic x"
  shows "fst (GoVNCDriver_step api p [n] dict v) = Panic x"
proof -
  obtain c' where s: "Step_events evs c = (Panic x, c')" using assms(5) by (cases "Step_events evs c") simp
  have "on_py (collect_events api dict [n]) v = (Ok (Some [(n, evs)]), v\<lparr>pyError := e\<rparr>)"
    using assms(2,3) by (simp add: on_py_def zoom_def del: collect_events.simps)
  moreover have "on_batch (batch_Step_events [(n, evs)]) i = (Panic x, i)"
    using assms(4) s by (simp add: on_batch_def zoom_def on_session_def bindM_def)
  ultimately show ?thesis using assms(1)
    by (simp add: GoVNCDriver_step_def with_info_def bindM_getS bindP_def bindM_def on_info_def
        del: collect_events.simps batch_Step_events.simps)
qed

text \<open>(C39) An event of a type that the module does not know ends the process: the conversion sets an exception
  but reports a success, the nil event is added to the others, and executing it is a nil dereference; this happens for
  a connected session when it is the only one (or the last that is walked), after the events before it
  have been sent.\<close>

theorem unknown_event_crashes:
  assumes "batchMgr v p = Some i" and "pyError v = None" and "sessions (vbatch i) n = Some c"
    and "serr c = None" and "sconn c = Some conn" and "wres conn = []"
    and "DictItem api dict n = Inr (Some a)" and "ObjectIter api a = Inr (items @ [t], None)"
    and "list_all2 (converts api) items es"
    and "tuple_text api t 0 ty" and "ty \<noteq> ''PointerEvent''" and "ty \<noteq> ''KeyEvent''"
  shows "fst (GoVNCDriver_step api p [n] dict v) = Panic NilDereference"
  using step_one [OF assms(1,2) _ assms(3) Step_events_nil [OF assms(5,6,4)]]
    collect_one [OF assms(7,8) event_loop_unknown [OF assms(9) convert_unknown [OF assms(10-12)]]]
  by simp

definition demo_scroll :: pyobj where
  "demo_scroll = PTuple [PStr ''ScrollEvent'', PInt 1]"

theorem unknown_event_crashes_witness:
  "fst (GoVNCDriver_step demo_api 0 [''a''] (PDict [(''a'', PList [demo_key, demo_scroll])]) (demo_binding demo_linked)) =
    Panic NilDereference"
proof (rule unknown_event_crashes [OF demo_info_facts(1,2) _ demo_linked_facts(1-3)])
  show "sessions (vbatch (demo_info demo_linked)) ''a'' = Some demo_linked" by (simp add: demo_info_facts)
  show "DictItem demo_api (PDict [(''a'', PList [demo_key, demo_scroll])]) ''a'' = Inr (Some (PList [demo_key, demo_scroll]))"
    "ObjectIter demo_api (PList [demo_key, demo_scroll]) = Inr ([demo_key] @ [demo_scroll], None)"
    by (simp_all add: demo_api_def)
  show "list_all2 (converts demo_api) [demo_key] [KeyEvent 97 True]" by (simp add: demo_key_converts)
  show "tuple_text demo_api demo_scroll 0 ''ScrollEvent''"
    by (simp add: tuple_text_def text_of_def GoString_FromPyString_def or_error_def
        GoString_def conversion_simps demo_api_def demo_scroll_def)
qed simp_all

text \<open>An action that is not iterable: the result of \<open>PyObject_GetIter\<close> is not looked at.\<close>

lemma not_iterable_crashes:
  assumes "batchMgr v p = Some i" and "pyError v = None"
    and "DictItem api dict n = Inr (Some a)" and "ObjectIter api a = Inl x"
  shows "fst (GoVNCDriver_step api p (n # ns) dict v) = Panic NilDereference"
  using assms
  by (simp add: GoVNCDriver_step_def with_info_def bindM_getS conversion_simps on_py_def zoom_def action_events_def)

section \<open>Rendering\<close>

lemma render_missing:
  assumes "batchMgr v p = Some i" and "rendererSet i" and "sessions (vbatch i) n = Some c" and "\<not> hasRenderer c"
  shows "\<exists>v'. GoVNCDriver_render True ini p (Inr (n, close)) v = (Ok None, v') \<and>
    pyError v' = Some (PyGo (Errorf ''VNCSession has no renderer''))"
  using assms
  by (simp add: GoVNCDriver_render_def conversion_simps on_py_def zoom_def with_info_def bindM_getS initRenderer_def
      raising_def on_info_def on_batch_def batch_Render_def for_session_def Render_def)

lemma for_session_other: "a \<noteq> b \<Longrightarrow> for_session a m v = (r, v') \<Longrightarrow> sessions v' b = sessions v b"
  by (auto simp: for_session_def split: option.splits prod.splits)

lemma initRenderer_sets:
  assumes "a \<noteq> b" and "initRenderer True a i = (r, i')"
  shows "rendererSet i' \<and> sessions (vbatch i') b = sessions (vbatch i) b"
  using assms(2) for_session_other [OF assms(1)]
  by (auto simp: initRenderer_def bindM_def on_batch_def zoom_def batch_SetRenderer_def split: if_splits prod.splits)

lemma batch_Render_other:
  assumes "a \<noteq> b" and "on_batch (batch_Render a ini close) i = (r, i')"
  shows "rendererSet i' = rendererSet i \<and> sessions (vbatch i') b = sessions (vbatch i) b"
  using assms(2) for_session_other [OF assms(1)]
  by (auto simp: on_batch_def zoom_def batch_Render_def split: prod.splits)

lemma raising_OkE:
  assumes "raising m v = (Ok r, v')"
  obtains r1 v1 where "m v = (r1, v1)" and "batchMgr v' = batchMgr v1"
  using assms by (auto simp: raising_def split: prod.splits outcome.splits)

lemma render_sets:
  assumes i: "batchMgr v p = Some i" and ab: "a \<noteq> b" and run: "GoVNCDriver_render True ini p (Inr (a, close)) v = (Ok r, v1)"
  shows "\<exists>i1. batchMgr v1 p = Some i1 \<and> rendererSet i1 \<and> sessions (vbatch i1) b = sessions (vbatch i) b"
proof -
  from run i obtain u v' where 1: "raising (on_info p (initRenderer True a)) v = (Ok u, v')"
    and 2: "(case u of None \<Rightarrow> ret None | Some _ \<Rightarrow> raising (on_info p (on_batch (batch_Render a ini (close \<noteq> 0))))) v' = (Ok r, v1)"
    by (auto simp: GoVNCDriver_render_def on_py_def zoom_def pycall_def with_info_def bindM_getS bindP_def bindM_def
        split: prod.splits outcome.splits)
  obtain r' i' where ini: "initRenderer True a i = (r', i')" by fastforce
  from 1 have v': "batchMgr v' p = Some i'" by (rule raising_OkE) (auto simp: on_info_def i ini)
  note set = initRenderer_sets [OF ab ini]
  show ?thesis
  proof (cases u)
    case None
    with 2 v' set show ?thesis by auto
  next
    case (Some x)
    obtain r2 i2 where R: "on_batch (batch_Render a ini (close \<noteq> 0)) i' = (r2, i2)" by fastforce
    from 2 Some have "raising (on_info p (on_batch (batch_Render a ini (close \<noteq> 0)))) v' = (Ok r, v1)" by simp
    then have "batchMgr v1 p = Some i2" by (rule raising_OkE) (auto simp: on_info_def v' R)
    with set batch_Render_other [OF ab R] show ?thesis by simp
  qed
qed

text \<open>Only the session that is rendered first gets a renderer: whatever rendering one session gives, every
  later call for another session of the object fails with the message that there is no renderer.\<close>

lemma only_first_session_renders:
  assumes "batchMgr v p = Some i" and "a \<noteq> b" and "sessions (vbatch i) b = Some c" and "\<not> hasRenderer c"
    and "GoVNCDriver_render True ini p (Inr (a, close)) v = (Ok r, v1)"
  shows "\<exists>v2. GoVNCDriver_render True ini' p (Inr (b, close')) v1 = (Ok None, v2) \<and>
    pyError v2 = Some (PyGo (Errorf ''VNCSession has no renderer''))"
proof -
  from render_sets [OF assms(1,2,5)] assms(3) obtain i1 where
    "batchMgr v1 p = Some i1" "rendererSet i1" "sessions (vbatch i1) b = Some c" by auto
  then show ?thesis by (rule render_missing) (rule assms(4))
qed

lemma only_first_session_renders_witness:
  "\<exists>v1 v2. GoVNCDriver_render True None 0 (Inr (''b'', 0)) (demo_binding demo_linked) = (Ok None, v1) \<and>
    GoVNCDriver_render True None 0 (Inr (''a'', 0)) v1 = (Ok None, v2) \<and>
    pyError v2 = Some (PyGo (Errorf ''VNCSession has no renderer''))"
proof -
  have 1: "\<exists>v1. GoVNCDriver_render True None 0 (Inr (''b'', 0)) (demo_binding demo_linked) = (Ok None, v1)"
    by (simp add: GoVNCDriver_render_def conversion_simps on_py_def zoom_def with_info_def bindM_getS initRenderer_def
        raising_def on_info_def on_batch_def batch_SetRenderer_def for_session_def demo_state)
  then obtain v1 where v1: "GoVNCDriver_render True None 0 (Inr (''b'', 0)) (demo_binding demo_linked) = (Ok None, v1)" by blast
  have "\<not> hasRenderer demo_linked" by (simp add: demo_linked_def new_screens_def demo_new_def NewVNCSession_def)
  moreover have "sessions (vbatch (demo_info demo_linked)) ''a'' = Some demo_linked" by (simp add: demo_info_facts)
  ultimately show ?thesis
    using only_first_session_renders [OF demo_info_facts(1) _ _ _ v1, of "''a''" demo_linked None 0] v1 by simp
qed

end
