(* ===== verification/VncGL.thy ===== *)
theory VncGL
  imports SessionSystem
begin

text \<open>
  The renderer of a session: \<open>VNCGL\<close> of \<^verbatim>\<open>vncgl/vncgl.go\<close>. A window shows one texture. OpenGL is a parameter:
  what a texture is, the two calls that write to it, and what \<open>glPtr\<close>, which takes the address of the
  pixels, does; whether the window opens and whether the user has closed it are arguments.
\<close>

section \<open>Images\<close>

record rgba_image =
  imX :: int
  imY :: int
  imWidth :: int
  imHeight :: int
  Pix :: "u8 list"

text \<open>
  \<open>image.Rect\<close> exchanges coordinates that are the wrong way round, and \<open>x + width\<close> is computed with sixteen bits.
\<close>

definition span :: "u16 \<Rightarrow> u16 \<Rightarrow> int \<times> int" where
  "span a n = (let p = uint a; q = uint (a + n) in if q < p then (q, p - q) else (p, q - p))"

fun pix_loop :: "color list \<Rightarrow> nat \<Rightarrow> u8 list \<Rightarrow> u8 list outcome" where
  "pix_loop [] i pix = Ok pix"
| "pix_loop (c # cs) i pix =
     (if length pix \<le> 4 * i + 3 then Panic IndexOutOfRange
      else pix_loop cs (i + 1)
        (pix[4 * i := cR c, 4 * i + 1 := cG c, 4 * i + 2 := cB c, 4 * i + 3 := 1]))"

definition colorsToImage :: "u16 \<Rightarrow> u16 \<Rightarrow> u16 \<Rightarrow> u16 \<Rightarrow> color list \<Rightarrow> rgba_image outcome" where
  "colorsToImage x y width height colors =
     (case (span x width, span y height) of ((px, w), (py, h)) \<Rightarrow>
      bindO (pix_loop colors 0 (replicate (nat (4 * w * h)) 0)) (\<lambda>pix.
      Ok \<lparr>imX = px, imY = py, imWidth = w, imHeight = h, Pix = pix\<rparr>))"

section \<open>The window\<close>

record 't gl =
  glPtr :: "u8 list \<Rightarrow> unit outcome"
  texName :: u32                                                   \<comment> \<open>what \<open>glGenTextures\<close> gives\<close>
  texImage :: "int \<Rightarrow> int \<Rightarrow> u8 list \<Rightarrow> 't"                          \<comment> \<open>\<open>glTexImage2D\<close>\<close>
  texSub :: "int \<Rightarrow> int \<Rightarrow> int \<Rightarrow> int \<Rightarrow> u8 list \<Rightarrow> 't \<Rightarrow> 't"              \<comment> \<open>\<open>glTexSubImage2D\<close>\<close>

text \<open>
  \<open>texture\<close> is what the texture of the name \<open>rootTexture\<close> holds, \<open>None\<close> when it is not there. \<open>stray\<close> counts
  calls on a texture that is not there.
\<close>

record 't vncgl =
  rootTexture :: u32
  texture :: "'t option"
  windowOpen :: bool
  windowWidth :: u16
  windowHeight :: u16
  glClosed :: bool
  stray :: nat

definition new_vncgl :: "'t vncgl" where
  "new_vncgl =
     \<lparr>rootTexture = 0, texture = None, windowOpen = False, windowWidth = 0, windowHeight = 0,
      glClosed = False, stray = 0\<rparr>"

definition newTexture :: "'t gl \<Rightarrow> rgba_image \<Rightarrow> ('t vncgl, unit) prog" where
  "newTexture g img =
     bindM (lift (glPtr g (Pix img))) (\<lambda>_.
     modifyS (\<lambda>v. v\<lparr>rootTexture := texName g, texture := Some (texImage g (imWidth img) (imHeight img) (Pix img))\<rparr>))"

definition applyImage :: "'t gl \<Rightarrow> rgba_image \<Rightarrow> ('t vncgl, unit) prog" where
  "applyImage g img =
     bindM getS (\<lambda>v.
     if rootTexture v = 0 then newTexture g img
     else
       bindM (lift (glPtr g (Pix img))) (\<lambda>_.
       modifyS (\<lambda>v. case texture v of
           None \<Rightarrow> v\<lparr>stray := stray v + 1\<rparr>
         | Some t \<Rightarrow> v\<lparr>texture := Some (texSub g (imX img) (imY img) (imWidth img) (imHeight img) (Pix img) t)\<rparr>)))"

text \<open>The errors of creating the window and of starting OpenGL are arguments.\<close>

definition VNCGL_Init ::
  "'t gl \<Rightarrow> goerr option \<Rightarrow> goerr option \<Rightarrow> u16 \<Rightarrow> u16 \<Rightarrow> color list option \<Rightarrow> ('t vncgl, unit) prog" where
  "VNCGL_Init g werr gerr width height screen =
     (case werr of
        Some e \<Rightarrow> fail (Annotated ''couldn't create window'' e)
      | None \<Rightarrow>
          (case gerr of
             Some e \<Rightarrow> fail (Annotated ''could not init opengl'' e)
           | None \<Rightarrow>
               bindM (modifyS (\<lambda>v. v\<lparr>windowOpen := True, windowWidth := width, windowHeight := height\<rparr>)) (\<lambda>_.
               case screen of
                 None \<Rightarrow> ret ()
               | Some cs \<Rightarrow>
                   bindM (lift (colorsToImage 0 0 width height cs)) (\<lambda>img. applyImage g img))))"

definition VNCGL_Close :: "('t vncgl, unit) prog" where
  "VNCGL_Close =
     bindM getS (\<lambda>v.
     if glClosed v then ret ()
     else
       bindM (modifyS (\<lambda>v. v\<lparr>glClosed := True\<rparr>)) (\<lambda>_.
       if \<not> windowOpen v then panic NilDereference
       else modifyS (\<lambda>v. v\<lparr>windowOpen := False, texture := (if rootTexture v \<noteq> 0 then None else texture v)\<rparr>)))"

definition apply_gl_rect :: "'t gl \<Rightarrow> rectangle \<Rightarrow> ('t vncgl, unit) prog" where
  "apply_gl_rect g r =
     (case enc_colors (Enc r) of
        None \<Rightarrow> panic (PanicMessage ''BUG: unrecognized encoding'')
      | Some cs \<Rightarrow>
          bindM (lift (colorsToImage (rX r) (rY r) (rWidth r) (rHeight r) cs)) (\<lambda>img. applyImage g img))"

definition VNCGL_Apply :: "'t gl \<Rightarrow> update list \<Rightarrow> ('t vncgl, unit) prog" where
  "VNCGL_Apply g us = forM us (\<lambda>u. forM u (apply_gl_rect g))"

definition VNCGL_Render :: "bool \<Rightarrow> ('t vncgl, unit) prog" where
  "VNCGL_Render shouldClose =
     bindM getS (\<lambda>v.
     if glClosed v then ret ()
     else if \<not> windowOpen v then panic NilDereference
     else if shouldClose then VNCGL_Close else ret ())"

text \<open>The calls of a session, carried out by this renderer; its windows open and nobody closes them.\<close>

fun gl_call :: "'t gl \<Rightarrow> render_call \<Rightarrow> ('t vncgl, unit) prog" where
  "gl_call g (RInit w h cs) = VNCGL_Init g None None w h (Some cs)"
| "gl_call g (RApply us) = VNCGL_Apply g us"
| "gl_call g RRender = VNCGL_Render False"
| "gl_call g RClose = VNCGL_Close"

section \<open>What OpenGL documents\<close>

text \<open>
  \<open>texel\<close> is the colour of a texture at a place and \<open>texsize\<close> its size. \<open>glTexImage2D\<close> makes a texture of the given
  pixels, \<open>glTexSubImage2D\<close> replaces a part that lies inside. Pixels are four bytes, in rows.
\<close>

definition pixel_at :: "u8 list \<Rightarrow> nat \<Rightarrow> u8 list" where
  "pixel_at pix k = take 4 (drop (4 * k) pix)"

definition tex_made ::
  "('t \<Rightarrow> nat \<Rightarrow> nat \<Rightarrow> u8 list) \<Rightarrow> ('t \<Rightarrow> nat \<times> nat) \<Rightarrow> nat \<Rightarrow> nat \<Rightarrow> u8 list \<Rightarrow> 't \<Rightarrow> bool" where
  "tex_made texel texsize w h pix t \<longleftrightarrow>
     texsize t = (w, h) \<and> (\<forall>x y. x < w \<longrightarrow> y < h \<longrightarrow> texel t x y = pixel_at pix (y * w + x))"

definition tex_changed ::
  "('t \<Rightarrow> nat \<Rightarrow> nat \<Rightarrow> u8 list) \<Rightarrow> ('t \<Rightarrow> nat \<times> nat) \<Rightarrow> nat \<Rightarrow> nat \<Rightarrow> nat \<Rightarrow> nat \<Rightarrow> u8 list \<Rightarrow> 't \<Rightarrow> 't \<Rightarrow> bool" where
  "tex_changed texel texsize x0 y0 w h pix t t' \<longleftrightarrow>
     texsize t' = texsize t \<and>
     (\<forall>x y. x < fst (texsize t) \<longrightarrow> y < snd (texsize t) \<longrightarrow>
        texel t' x y = (if x0 \<le> x \<and> x < x0 + w \<and> y0 \<le> y \<and> y < y0 + h
                        then pixel_at pix ((y - y0) * w + (x - x0)) else texel t x y))"

definition gl_documented :: "'t gl \<Rightarrow> ('t \<Rightarrow> nat \<Rightarrow> nat \<Rightarrow> u8 list) \<Rightarrow> ('t \<Rightarrow> nat \<times> nat) \<Rightarrow> bool" where
  "gl_documented g texel texsize \<longleftrightarrow>
     texName g \<noteq> 0 \<and> (\<forall>pix. pix \<noteq> [] \<longrightarrow> glPtr g pix = Ok ()) \<and>
     (\<forall>w h pix. length pix = 4 * (w * h) \<longrightarrow> tex_made texel texsize w h pix (texImage g (int w) (int h) pix)) \<and>
     (\<forall>x0 y0 w h pix t. length pix = 4 * (w * h) \<longrightarrow> x0 + w \<le> fst (texsize t) \<longrightarrow> y0 + h \<le> snd (texsize t) \<longrightarrow>
        tex_changed texel texsize x0 y0 w h pix t (texSub g (int x0) (int y0) (int w) (int h) pix t))"

section \<open>The texture shows a picture\<close>

definition rgba :: "color \<Rightarrow> u8 list" where
  "rgba c = [cR c, cG c, cB c, 1]"

lemma pix_loop_run:
  "4 * (i + length cs) \<le> length pix \<Longrightarrow>
    \<exists>pix'. pix_loop cs i pix = Ok pix' \<and> length pix' = length pix \<and>
      (\<forall>k. pixel_at pix' k = (if i \<le> k \<and> k < i + length cs then rgba (cs ! (k - i)) else pixel_at pix k))"
proof (induction cs arbitrary: i pix)
  case (Cons c cs)
  let ?p = "pix[4 * i := cR c, 4 * i + 1 := cG c, 4 * i + 2 := cB c, 4 * i + 3 := 1]"
  have len: "4 * i + 3 < length pix" using Cons.prems by simp
  have here: "pixel_at ?p k = (if k = i then rgba c else pixel_at pix k)" for k
  proof (rule nth_equalityI)
    show "length (pixel_at ?p k) = length (if k = i then rgba c else pixel_at pix k)"
      using len by (auto simp: pixel_at_def rgba_def)
    fix j assume "j < length (pixel_at ?p k)"
    then have j: "j < 4" "4 * k + j < length pix" by (auto simp: pixel_at_def)
    show "pixel_at ?p k ! j = (if k = i then rgba c else pixel_at pix k) ! j"
    proof (cases "k = i")
      case True
      have "j = 0 \<or> j = 1 \<or> j = 2 \<or> j = 3" using j(1) by auto
      with True len show ?thesis by (auto simp: pixel_at_def rgba_def nth_list_update)
    next
      case False
      have "4 * k + j \<noteq> 4 * i" "4 * k + j \<noteq> 4 * i + 1" "4 * k + j \<noteq> 4 * i + 2" "4 * k + j \<noteq> 4 * i + 3"
        using False j(1) by presburger+
      with False j show ?thesis by (simp add: pixel_at_def)
    qed
  qed
  have "4 * (i + 1 + length cs) \<le> length ?p" using Cons.prems by simp
  from Cons.IH [OF this] obtain pix' where p: "pix_loop cs (i + 1) ?p = Ok pix'" "length pix' = length ?p"
    "\<forall>k. pixel_at pix' k = (if i + 1 \<le> k \<and> k < i + 1 + length cs then rgba (cs ! (k - (i + 1))) else pixel_at ?p k)"
    by blast
  have "pix_loop (c # cs) i pix = Ok pix'" using p(1) len by simp
  moreover have "pixel_at pix' k = (if i \<le> k \<and> k < i + length (c # cs) then rgba ((c # cs) ! (k - i)) else pixel_at pix k)" for k
    using p(3) [rule_format, of k] here [of k] by (cases "k = i") (auto simp: nth_Cons')
  ultimately show ?case using p(2) by auto
qed auto

lemma span_inside: "unat a + unat n < 65536 \<Longrightarrow> span a n = (int (unat a), int (unat n))"
proof -
  assume "unat a + unat n < 65536"
  then have "unat (a + n) = unat a + unat n" by (simp add: unat_word_ariths(1))
  then have "uint (a + n) = uint a + uint n" by (metis of_nat_add uint_nat)
  then show ?thesis by (simp add: span_def Let_def)
qed

lemma colorsToImage_run:
  assumes "unat x + unat w < 65536" and "unat y + unat h < 65536" and "length cs = unat w * unat h"
  shows "\<exists>pix. colorsToImage x y w h cs =
      Ok \<lparr>imX = int (unat x), imY = int (unat y), imWidth = int (unat w), imHeight = int (unat h), Pix = pix\<rparr> \<and>
    length pix = 4 * (unat w * unat h) \<and> (\<forall>k < unat w * unat h. pixel_at pix k = rgba (cs ! k))"
proof -
  have n: "nat (4 * uint w * uint h) = 4 * (unat w * unat h)"
    by (simp add: nat_mult_distrib)
  from pix_loop_run [of 0 cs "replicate (4 * (unat w * unat h)) 0"] assms(3) obtain pix where
    "pix_loop cs 0 (replicate (4 * (unat w * unat h)) 0) = Ok pix" "length pix = 4 * (unat w * unat h)"
    "\<forall>k. pixel_at pix k = (if k < unat w * unat h then rgba (cs ! k) else pixel_at (replicate (4 * (unat w * unat h)) 0) k)"
    by auto
  then show ?thesis
    by (simp add: colorsToImage_def span_inside [OF assms(1)] span_inside [OF assms(2)] n)
qed

text \<open>
  The renderer shows a picture of \<open>w\<close> by \<open>h\<close> pixels: its window is open, it has a texture of that size, and each
  of its pixels has the colour of the picture.
\<close>

definition gl_shows ::
  "('t \<Rightarrow> nat \<Rightarrow> nat \<Rightarrow> u8 list) \<Rightarrow> ('t \<Rightarrow> nat \<times> nat) \<Rightarrow> u16 \<Rightarrow> u16 \<Rightarrow> color list \<Rightarrow> 't vncgl \<Rightarrow> bool" where
  "gl_shows texel texsize w h pic v \<longleftrightarrow>
     windowOpen v \<and> \<not> glClosed v \<and> rootTexture v \<noteq> 0 \<and> length pic = unat h * unat w \<and>
     (\<exists>t. texture v = Some t \<and> texsize t = (unat w, unat h) \<and>
        (\<forall>x y. x < unat w \<longrightarrow> y < unat h \<longrightarrow> texel t x y = rgba (pic ! (y * unat w + x))))"

text \<open>A rectangle that can be drawn and is not empty.\<close>

definition gl_rect :: "u16 \<Rightarrow> u16 \<Rightarrow> rectangle \<Rightarrow> bool" where
  "gl_rect w h r \<longleftrightarrow> good_rect w h r \<and> 0 < Area r"

lemma gl_rect_colors:
  assumes "gl_rect w h r"
  obtains cs where "enc_colors (Enc r) = Some cs" "length cs = unat (rWidth r) * unat (rHeight r)" "cs \<noteq> []"
    "unat (rX r) + unat (rWidth r) \<le> unat w" "unat (rY r) + unat (rHeight r) \<le> unat h"
proof -
  from assms obtain cs where cs: "enc_colors (Enc r) = Some cs" "length cs = Area r" "0 < Area r" "inside w h r"
    by (auto simp: gl_rect_def good_rect_def split: option.splits)
  then show thesis by (intro that [of cs]) (auto simp: inside_def Area_def)
qed

lemma gl_documented_sub:
  "gl_documented g texel texsize \<Longrightarrow> length pix = 4 * (w * h) \<Longrightarrow> x0 + w \<le> fst (texsize t) \<Longrightarrow> y0 + h \<le> snd (texsize t) \<Longrightarrow>
    tex_changed texel texsize x0 y0 w h pix t (texSub g (int x0) (int y0) (int w) (int h) pix t)"
  by (simp only: gl_documented_def)

lemma gl_documented_image:
  "gl_documented g texel texsize \<Longrightarrow> length pix = 4 * (w * h) \<Longrightarrow>
    tex_made texel texsize w h pix (texImage g (int w) (int h) pix)"
  by (simp only: gl_documented_def)

lemma gl_documented_ptr: "gl_documented g texel texsize \<Longrightarrow> pix \<noteq> [] \<Longrightarrow> glPtr g pix = Ok ()"
  by (simp add: gl_documented_def)

lemma gl_documented_name: "gl_documented g texel texsize \<Longrightarrow> texName g \<noteq> 0"
  by (simp add: gl_documented_def)

lemma apply_gl_rect_shows:
  assumes g: "gl_documented g texel texsize" and v: "gl_shows texel texsize w h pic v" and r: "gl_rect w h r"
  shows "\<exists>v'. apply_gl_rect g r v = (Ok (), v') \<and> gl_shows texel texsize w h (draw_rect w h r pic) v'"
proof -
  from r obtain cs where cs: "enc_colors (Enc r) = Some cs" "length cs = unat (rWidth r) * unat (rHeight r)" "cs \<noteq> []"
    and in_w: "unat (rX r) + unat (rWidth r) \<le> unat w" and in_h: "unat (rY r) + unat (rHeight r) \<le> unat h"
    by (rule gl_rect_colors)
  have "unat (rX r) + unat (rWidth r) < 65536" "unat (rY r) + unat (rHeight r) < 65536"
    using in_w in_h unat_u16_less [of w] unat_u16_less [of h] by linarith+
  from colorsToImage_run [OF this cs(2)] obtain pix where
    img: "colorsToImage (rX r) (rY r) (rWidth r) (rHeight r) cs =
      Ok \<lparr>imX = int (unat (rX r)), imY = int (unat (rY r)), imWidth = int (unat (rWidth r)), imHeight = int (unat (rHeight r)), Pix = pix\<rparr>"
    and len: "length pix = 4 * (unat (rWidth r) * unat (rHeight r))"
    and pix: "\<forall>k < unat (rWidth r) * unat (rHeight r). pixel_at pix k = rgba (cs ! k)" by blast
  have "pix \<noteq> []" using len cs(2,3) by auto
  from gl_documented_ptr [OF g this] have ptr: "glPtr g pix = Ok ()" .
  from v obtain t where t: "texture v = Some t" "texsize t = (unat w, unat h)" "rootTexture v \<noteq> 0"
    "\<forall>x y. x < unat w \<longrightarrow> y < unat h \<longrightarrow> texel t x y = rgba (pic ! (y * unat w + x))"
    unfolding gl_shows_def by blast
  let ?t = "texSub g (int (unat (rX r))) (int (unat (rY r))) (int (unat (rWidth r))) (int (unat (rHeight r))) pix t"
  have "unat (rX r) + unat (rWidth r) \<le> fst (texsize t)" "unat (rY r) + unat (rHeight r) \<le> snd (texsize t)"
    using in_w in_h by (simp_all add: t(2))
  note sub = gl_documented_sub [OF g len this, unfolded tex_changed_def t(2) fst_conv snd_conv]
  have "texel ?t x y = rgba (draw_rect w h r pic ! (y * unat w + x))" if "x < unat w" "y < unat h" for x y
  proof -
    have "draw_rect w h r pic ! (y * unat w + x) = draw r cs (\<lambda>y x. pic ! (y * unat w + x)) y x"
      using that by (simp add: draw_rect_def cs(1) grid_nth)
    moreover have "(y - unat (rY r)) * unat (rWidth r) + (x - unat (rX r)) < unat (rWidth r) * unat (rHeight r)"
      if "unat (rX r) \<le> x" "x < unat (rX r) + unat (rWidth r)" "unat (rY r) \<le> y" "y < unat (rY r) + unat (rHeight r)"
      using cell_less [of "y - unat (rY r)" "unat (rHeight r)" "x - unat (rX r)" "unat (rWidth r)"] that
      by (simp add: mult.commute)
    ultimately show ?thesis using sub that t(4) pix by (auto simp: draw_def)
  qed
  then have "gl_shows texel texsize w h (draw_rect w h r pic) (v\<lparr>texture := Some ?t\<rparr>)"
    using v sub by (auto simp: gl_shows_def draw_rect_def)
  moreover have "apply_gl_rect g r v = (Ok (), v\<lparr>texture := Some ?t\<rparr>)"
    using t(1,3) ptr img by (simp add: apply_gl_rect_def cs(1) applyImage_def bindM_def)
  ultimately show ?thesis by blast
qed

lemma apply_gl_update_shows:
  assumes "gl_documented g texel texsize" and "gl_shows texel texsize w h pic v" and "list_all (gl_rect w h) u"
  shows "\<exists>v'. forM u (apply_gl_rect g) v = (Ok (), v') \<and> gl_shows texel texsize w h (draw_update w h u pic) v'"
  using assms(2,3)
proof (induction u arbitrary: v pic)
  case (Cons r u)
  from apply_gl_rect_shows [OF assms(1) Cons.prems(1)] Cons.prems(2) obtain v1 where
    "apply_gl_rect g r v = (Ok (), v1)" "gl_shows texel texsize w h (draw_rect w h r pic) v1" by auto
  with Cons.IH [OF this(2)] Cons.prems(2) show ?case by (auto simp: bindM_def draw_update_def)
qed (simp add: draw_update_def)

lemma VNCGL_Apply_shows:
  assumes "gl_documented g texel texsize" and "gl_shows texel texsize w h pic v" and "list_all (list_all (gl_rect w h)) us"
  shows "\<exists>v'. VNCGL_Apply g us v = (Ok (), v') \<and> gl_shows texel texsize w h (fold (draw_update w h) us pic) v'"
  using assms(2,3) unfolding VNCGL_Apply_def
proof (induction us arbitrary: v pic)
  case (Cons u us)
  from apply_gl_update_shows [OF assms(1) Cons.prems(1)] Cons.prems(2) obtain v1 where
    "forM u (apply_gl_rect g) v = (Ok (), v1)" "gl_shows texel texsize w h (draw_update w h u pic) v1" by auto
  with Cons.IH [OF this(2)] Cons.prems(2) show ?case by (auto simp: bindM_def)
qed simp

lemma VNCGL_Init_shows:
  assumes g: "gl_documented g texel texsize" and pic: "length pic = unat h * unat w" "pic \<noteq> []"
  shows "\<exists>v. VNCGL_Init g None None w h (Some pic) new_vncgl = (Ok (), v) \<and> gl_shows texel texsize w h pic v"
proof -
  have "unat (0 :: u16) + unat w < 65536" "unat (0 :: u16) + unat h < 65536"
    using unat_u16_less [of w] unat_u16_less [of h] by simp_all
  from colorsToImage_run [OF this, of pic] pic(1) obtain pix where
    img: "colorsToImage 0 0 w h pic =
      Ok \<lparr>imX = int (unat (0 :: u16)), imY = int (unat (0 :: u16)), imWidth = int (unat w), imHeight = int (unat h), Pix = pix\<rparr>"
    and len: "length pix = 4 * (unat w * unat h)" and pix: "\<forall>k < unat w * unat h. pixel_at pix k = rgba (pic ! k)"
    by (auto simp: mult.commute)
  have "pix \<noteq> []" using len pic by (auto simp: mult.commute)
  from gl_documented_ptr [OF g this] have ptr: "glPtr g pix = Ok ()" .
  let ?t = "texImage g (int (unat w)) (int (unat h)) pix"
  let ?v = "new_vncgl\<lparr>windowOpen := True, windowWidth := w, windowHeight := h, rootTexture := texName g, texture := Some ?t\<rparr>"
  have "VNCGL_Init g None None w h (Some pic) new_vncgl = (Ok (), ?v)"
    by (simp add: VNCGL_Init_def bindM_def img applyImage_def newTexture_def new_vncgl_def ptr)
  moreover have "gl_shows texel texsize w h pic ?v"
  proof -
    have "texel ?t x y = rgba (pic ! (y * unat w + x))" if "x < unat w" "y < unat h" for x y
      using gl_documented_image [OF g len] cell_less [OF that(2,1)] pix that
      by (simp add: tex_made_def mult.commute)
    then show ?thesis using gl_documented_image [OF g len] gl_documented_name [OF g] pic(1)
      by (simp add: gl_shows_def tex_made_def new_vncgl_def)
  qed
  ultimately show ?thesis by blast
qed

section \<open>The calls a session makes\<close>

fun call_fine :: "u16 \<Rightarrow> u16 \<Rightarrow> render_call \<Rightarrow> bool" where
  "call_fine w h (RInit w' h' cs) = False"
| "call_fine w h (RApply us) = list_all (list_all (gl_rect w h)) us"
| "call_fine w h _ = True"

definition calls_fine :: "u16 \<Rightarrow> u16 \<Rightarrow> render_call list \<Rightarrow> bool" where
  "calls_fine w h cs \<longleftrightarrow>
     (case cs of [] \<Rightarrow> True | c # cs' \<Rightarrow> (\<exists>pic. c = RInit w h pic \<and> length pic = unat h * unat w) \<and> list_all (call_fine w h) cs')"

lemma gl_calls_show:
  assumes "gl_documented g texel texsize" and "gl_shows texel texsize w h pic v" and "list_all (call_fine w h) cs"
    and "RClose \<notin> set cs"
  shows "\<exists>v' pic'. forM cs (gl_call g) v = (Ok (), v') \<and> fold (call_pic w h) cs (Some pic) = Some pic' \<and>
    gl_shows texel texsize w h pic' v'"
  using assms(2-4)
proof (induction cs arbitrary: v pic)
  case (Cons c cs)
  have "\<exists>v1 pic1. gl_call g c v = (Ok (), v1) \<and> call_pic w h c (Some pic) = Some pic1 \<and> gl_shows texel texsize w h pic1 v1"
  proof (cases c)
    case (RApply us)
    with VNCGL_Apply_shows [OF assms(1) Cons.prems(1), of us] Cons.prems(2) show ?thesis by auto
  next
    case RRender
    with Cons.prems(1) show ?thesis by (auto simp: VNCGL_Render_def bindM_def gl_shows_def)
  qed (use Cons.prems in auto)
  then obtain v1 pic1 where 1: "gl_call g c v = (Ok (), v1)" "call_pic w h c (Some pic) = Some pic1" "gl_shows texel texsize w h pic1 v1"
    by blast
  from Cons.IH [OF 1(3)] Cons.prems(2,3) 1(1,2) show ?case by (auto simp: bindM_def)
qed auto

text \<open>
  In every run of a session the calls of its renderer are in order: \<open>Init\<close> with the front screen first and once,
  then updates that can be drawn, as long as the windows open.
\<close>

definition drawing :: "u16 \<Rightarrow> u16 \<Rightarrow> session \<Rightarrow> bool" where
  "drawing w h c \<longleftrightarrow> calls_fine w h (rcalls c) \<and> (rendererActive c \<longleftrightarrow> rcalls c \<noteq> [])"

lemma calls_fine_snoc:
  "calls_fine w h cs \<Longrightarrow> cs \<noteq> [] \<Longrightarrow> call_fine w h c \<Longrightarrow> calls_fine w h (cs @ [c])"
  by (cases cs) (auto simp: calls_fine_def)

lemma drawing_append:
  assumes "drawing w h c" and "rcalls c' = rcalls c @ (if rendererActive c \<and> b then [x] else [])"
    and "rendererActive c' = rendererActive c" and "b \<Longrightarrow> call_fine w h x"
  shows "drawing w h c'"
  using assms calls_fine_snoc [of w h "rcalls c" x] by (auto simp: drawing_def)

lemma drawing_same: "drawing w h c \<Longrightarrow> rcalls c' = rcalls c \<Longrightarrow> rendererActive c' = rendererActive c \<Longrightarrow> drawing w h c'"
  by (simp add: drawing_def)

lemma drawing_Render:
  assumes "drawing w h c" and "Render None close c = (r, c')" and "session_ready w h c"
  shows "drawing w h c'"
proof -
  obtain conn f b where s: "sconn c = Some conn" "frontScreen c = Some f" "FramebufferWidth conn = w" "FramebufferHeight conn = h"
    "length (sData (screens c ! f)) = unat h * unat w"
    using assms(3) by (auto simp: session_ready_def elim: screens_okE)
  let ?x = "if close then RClose else RRender"
  show ?thesis
  proof (cases "\<not> hasRenderer c \<or> closed c")
    case True
    then have "snd (Render None close c) = c" by (auto simp: Render_def bindM_def)
    with assms(1,2) show ?thesis by simp
  next
    case open_session: False
    show ?thesis
    proof (cases "rendererActive c")
      case True
      have "snd (Render None close c) = c\<lparr>rcalls := rcalls c @ [?x]\<rparr>"
        using open_session True s(1) by (simp add: Render_def bindM_def)
      with assms(2) have c': "c' = c\<lparr>rcalls := rcalls c @ [?x]\<rparr>" by simp
      have "call_fine w h ?x" by simp
      with c' True drawing_append [OF assms(1), of c' True ?x] show ?thesis by simp
    next
      case False
      with assms(1) have none: "rcalls c = []" by (simp add: drawing_def)
      have "snd (Render None close c) = c\<lparr>rcalls := [RInit w h (sData (screens c ! f)), ?x], rendererActive := True\<rparr>"
        using open_session False s none by (simp add: Render_def Render_init_def bindM_def)
      with assms(2) s(5) show ?thesis by (simp add: drawing_def calls_fine_def)
    qed
  qed
qed

lemma drawing_step:
  assumes step: "sys_step s a t" and inv: "delivered w h pic s" "drawing w h (sess s)"
    and good: "list_all (list_all (gl_rect w h)) (received t)" and opens: "\<forall>ini close. a = UserRender ini close \<longrightarrow> ini = None"
  shows "drawing w h (sess t)"
proof (cases "\<exists>ini close subs. a = UserRender ini close \<or> a = UserSubscribe subs \<or> a = UserFlip \<or> a = UserClose")
  case False
  with sys_step_kept [OF step] have "kept (sess s) (sess t)" by blast
  with inv(2) show ?thesis by (intro drawing_same [OF inv(2)]) (simp_all add: kept_def)
next
  case True
  from step show ?thesis
  proof cases
    case (user_close c)
    then have "rcalls c = rcalls (sess s) @ (if rendererActive (sess s) \<and> \<not> closed (sess s) then [RClose] else [])"
      "rendererActive c = rendererActive (sess s)"
      by (auto simp: session_Close_def mgr_Close_def method_simps split: if_splits)
    from drawing_append [OF inv(2) this] user_close(2) show ?thesis by simp
  next
    case (user_render ini close r c)
    have "session_ready w h (sess s)" using inv(1) by (simp add: delivered_def consistent_ready)
    with drawing_Render [OF inv(2)] user_render opens show ?thesis by auto
  next
    case (user_flip p us c)
    then have "rcalls c = rcalls (sess s) @ (if rendererActive (sess s) \<and> backUpdated (sess s) then [RApply us] else [])"
      "rendererActive c = rendererActive (sess s)" "us = (if backUpdated (sess s) then deferredUpdates (sess s) else [])"
      by (auto simp: Flip_def Let_def split: if_splits)
    moreover have "seen s @ us @ chan s = received t"
      using inv(1) user_flip(2) calculation(3) by (simp add: delivered_def session_buffer.unseen_def split: if_splits)
    then have "set us \<subseteq> set (received t)" by (metis set_append Un_upper1 Un_upper2 subset_trans)
    then have "call_fine w h (RApply us)" using good by (auto simp: list_all_iff)
    ultimately have "drawing w h c" using drawing_append [OF inv(2)] by blast
    then show ?thesis by (simp add: user_flip(2))
  next
    case (user_subscribe subs)
    with inv(2) show ?thesis by (simp add: drawing_def SetSubscription_def)
  qed (use True in auto)
qed

lemma drawing_run:
  assumes "sys_run s0 as s" and "sys_inv w h pic s0" and "drawing w h (sess s0)"
    and "list_all (list_all (gl_rect w h)) (received s)" and "\<forall>ini close. UserRender ini close \<in> set as \<longrightarrow> ini = None"
  shows "drawing w h (sess s)"
  using assms
proof (induction rule: sys_run.induct)
  case (run_snoc as t a u)
  have good_t: "list_all (list_all (gl_rect w h)) (received t)"
    using sys_step_received [OF run_snoc.hyps(2)] run_snoc.prems(3) by auto
  then have "list_all (list_all (good_rect w h)) (received t)" by (auto simp: list_all_iff gl_rect_def)
  from sys_inv_run [OF run_snoc.hyps(1) run_snoc.prems(1) this] have inv: "delivered w h pic t" by (simp add: sys_inv_def)
  have "drawing w h (sess t)" using run_snoc.IH [OF run_snoc.prems(1,2) good_t] run_snoc.prems(4) by auto
  from drawing_step [OF run_snoc.hyps(2) inv this run_snoc.prems(3)] run_snoc.prems(4) show ?case by auto
qed simp

lemma window_front:
  assumes run: "session_run conn cfg as s" and wh: "w = FramebufferWidth conn" "h = FramebufferHeight conn"
    and good: "list_all (list_all (gl_rect w h)) (received s)"
    and opens: "\<forall>ini close. UserRender ini close \<in> set as \<longrightarrow> ini = None"
    and act: "rendererActive (sess s)" and keep: "RClose \<notin> set (rcalls (sess s))"
    and pixels: "0 < unat w * unat h" and g: "gl_documented g texel texsize"
  shows "\<exists>v. forM (rcalls (sess s)) (gl_call g) new_vncgl = (Ok (), v) \<and> gl_shows texel texsize w h (front_data (sess s)) v"
proof -
  have good': "list_all (list_all (good_rect w h)) (received s)" using good by (auto simp: list_all_iff gl_rect_def)
  from run obtain c where c: "connect_setup conn (NewVNCSession cfg) = (Ok (), c)" "sys_run (sys_start c) as s"
    by (auto simp: session_run_def)
  from connect_setup_just_connected [OF c(1)] have start: "sys_inv w h (front_data c) (sys_start c)" "\<not> rendererActive c"
    using sys_inv_start [of w h c] wh by (simp_all add: just_connected_def)
  have "rcalls c = []"
    using connect_setup_OkD [OF c(1)] by (auto simp: new_screens_def NewVNCSession_def)
  with start(2) have "drawing w h (sess (sys_start c))" by (simp add: drawing_def calls_fine_def sys_start_def)
  from drawing_run [OF c(2) start(1) this good opens] act obtain pic cs where
    calls: "rcalls (sess s) = RInit w h pic # cs" "length pic = unat h * unat w" "list_all (call_fine w h) cs"
    by (cases "rcalls (sess s)") (auto simp: drawing_def calls_fine_def)
  have "pic \<noteq> []" using calls(2) pixels by auto
  from VNCGL_Init_shows [OF g calls(2) this] obtain v where
    v: "VNCGL_Init g None None w h (Some pic) new_vncgl = (Ok (), v)" "gl_shows texel texsize w h pic v" by blast
  from gl_calls_show [OF g v(2) calls(3)] keep calls(1) obtain v' pic' where
    v': "forM cs (gl_call g) v = (Ok (), v')" "fold (call_pic w h) cs (Some pic) = Some pic'" "gl_shows texel texsize w h pic' v'"
    by auto
  have "rendered w h (sess s) = Some (front_data (sess s))"
    using session_run_inv [OF run wh good'] act by (simp add: sys_inv_def rendering_def)
  with v'(2) have "pic' = front_data (sess s)" by (simp add: rendered_def calls(1))
  with v v' show ?thesis by (auto simp: calls(1) bindM_def)
qed


section \<open>A window\<close>

type_synonym demo_texture = "(nat \<Rightarrow> nat \<Rightarrow> u8 list) \<times> nat \<times> nat"

definition demo_gl :: "demo_texture gl" where
  "demo_gl =
     \<lparr>glPtr = (\<lambda>pix. if pix = [] then Panic IndexOutOfRange else Ok ()), texName = 1,
      texImage = (\<lambda>w h pix. (\<lambda>x y. pixel_at pix (y * nat w + x), (nat w, nat h))),
      texSub = (\<lambda>x0 y0 w h pix t.
        (\<lambda>x y. if nat x0 \<le> x \<and> x < nat x0 + nat w \<and> nat y0 \<le> y \<and> y < nat y0 + nat h
                then pixel_at pix ((y - nat y0) * nat w + (x - nat x0)) else fst t x y, snd t))\<rparr>"

lemma demo_gl_documented: "gl_documented demo_gl fst snd"
  by (simp add: gl_documented_def tex_made_def tex_changed_def demo_gl_def)

lemma demo_window_run:
  "\<exists>s. session_run demo_client demo_config
      [UserSetRenderer True, UserRender None False, Receive demo_update, Maintain, UserFlip] s \<and>
    received s = [demo_update] \<and> rendererActive (sess s) \<and> RClose \<notin> set (rcalls (sess s)) \<and>
    front_data (sess s) = [zero_color, zero_color, rgb 1 2 3, rgb 4 5 6]"
proof -
  let ?w = "FramebufferWidth demo_client" and ?h = "FramebufferHeight demo_client"
  have "wres demo_client = []"
    "base_encoding (cfgEncoding (config (NewVNCSession demo_config))) = Ok TightEncoding"
    "\<not> closed (NewVNCSession demo_config)"
    by (simp_all add: demo_client_def NewVNCSession_def clamp_config_def demo_config_def base_encoding_def)
  from connect_setup_run [OF this] obtain c where c: "connect_setup demo_client (NewVNCSession demo_config) = (Ok (), c)"
    by blast
  from connect_setup_just_connected [OF c]
  have c0: "session_ready ?w ?h c" "backUpdated c" "deferredUpdates c = []" "\<not> rendererActive c" "\<not> closed c"
    by (simp_all add: just_connected_def)
  have calls: "rcalls c = []" using connect_setup_OkD [OF c] by (auto simp: new_screens_def NewVNCSession_def)
  obtain conn f b where v: "sconn c = Some conn" "frontScreen c = Some f"
    using c0(1) by (auto simp: session_ready_def elim: screens_okE)
  let ?c1 = "c\<lparr>hasRenderer := True\<rparr>"
  let ?x = "RInit (FramebufferWidth conn) (FramebufferHeight conn) (sData (screens c ! f))"
  let ?c2 = "?c1\<lparr>rcalls := [?x, RRender], rendererActive := True\<rparr>"
  have 1: "sys_step (sys_start c) (UserSetRenderer True) ((sys_start c)\<lparr>sess := ?c1\<rparr>)"
    using c0(4) by (intro sys_step.user_set_renderer) (simp add: SetRenderer_def bindM_def sys_start_def)
  have "Render None False ?c1 = (Ok (), ?c2)"
    using c0(4,5) v calls by (simp add: Render_def Render_init_def bindM_def)
  then have 2: "sys_step ((sys_start c)\<lparr>sess := ?c1\<rparr>) (UserRender None False) ((sys_start c)\<lparr>sess := ?c2\<rparr>)"
    using sys_step.user_render [of None False "(sys_start c)\<lparr>sess := ?c1\<rparr>" "Ok ()" ?c2] by simp
  let ?s2 = "(sys_start c)\<lparr>sess := ?c2\<rparr>"
  let ?s3 = "?s2\<lparr>chan := [demo_update], again := True, received := [demo_update], requested := False\<rparr>"
  have 3: "sys_step ?s2 (Receive demo_update) ?s3"
    using sys_step.receive [of ?s2 demo_update] by (simp add: sys_start_def)
  have "same_view c ?c2" by (simp add: same_view_def same_size_def option.rel_refl)
  with c0(1) have ready: "session_ready ?w ?h ?c2" using same_viewD(5) by blast
  from maintain_update_pushes [OF ready demo_update_good] c0 obtain c3 where
    c3: "maintain_update demo_update ?c2 = (Ok (), c3)" "session_ready ?w ?h c3" "backUpdated c3"
      "deferredUpdates c3 = [demo_update]" by auto
  have k: "rcalls c3 = [?x, RRender]" "rendererActive c3"
    using keepsD [OF keeps_maintain_update c3(1)] by (simp_all add: kept_def)
  let ?s4 = "?s3\<lparr>sess := c3, chan := []\<rparr>"
  have 4: "sys_step ?s3 Maintain ?s4"
    using c3(1) by (intro sys_step.maintain) (simp_all add: sys_start_def)
  obtain p c4 where c4: "Flip c3 = (Ok (p, [demo_update]), c4)" "rcalls c4 = [?x, RRender, RApply [demo_update]]" "rendererActive c4"
    using c3(3,4) k by (simp add: Flip_def Let_def)
  let ?s5 = "?s4\<lparr>sess := c4, seen := seen ?s4 @ [demo_update]\<rparr>"
  have 5: "sys_step ?s4 UserFlip ?s5" using c4(1) by (intro sys_step.user_flip) simp
  have "sys_run (sys_start c) [UserSetRenderer True, UserRender None False, Receive demo_update, Maintain, UserFlip] ?s5"
    using run_snoc [OF run_snoc [OF run_snoc [OF run_snoc [OF run_snoc [OF run_nil 1] 2] 3] 4] 5] by simp
  with c have run: "session_run demo_client demo_config
      [UserSetRenderer True, UserRender None False, Receive demo_update, Maintain, UserFlip] ?s5"
    unfolding session_run_def by blast
  have rec: "received ?s5 = [demo_update]" and seen: "seen ?s5 = [demo_update]" by (simp_all add: sys_start_def)
  have "front_data c4 = [zero_color, zero_color, rgb 1 2 3, rgb 4 5 6]"
    using session_run_inv [OF run refl refl demo_received [OF rec]] seen demo_picture
    by (simp add: sys_inv_def delivered_def)
  with run rec c4 show ?thesis by (intro exI [of _ ?s5]) simp
qed


section \<open>After the window is closed\<close>

text \<open>
  \<open>Apply\<close> does not look at \<open>closed\<close>: \<open>Render\<close> with \<open>close\<close>, or the user closing the window, leaves the renderer
  active, so that the next flip writes to a texture that has been deleted, without a window.
\<close>

lemma apply_after_close:
  assumes g: "gl_documented g texel texsize" and v: "gl_shows texel texsize w h pic v" and r: "gl_rect w h r"
  shows "\<exists>v1 v2. VNCGL_Close v = (Ok (), v1) \<and> \<not> windowOpen v1 \<and> texture v1 = None \<and>
    apply_gl_rect g r v1 = (Ok (), v2) \<and> stray v2 = stray v1 + 1"
proof -
  let ?v1 = "v\<lparr>glClosed := True, windowOpen := False, texture := None\<rparr>"
  have "VNCGL_Close v = (Ok (), ?v1)" using v by (simp add: VNCGL_Close_def bindM_def gl_shows_def)
  moreover from r obtain cs where cs: "enc_colors (Enc r) = Some cs" "length cs = unat (rWidth r) * unat (rHeight r)" "cs \<noteq> []"
    and i: "unat (rX r) + unat (rWidth r) \<le> unat w" "unat (rY r) + unat (rHeight r) \<le> unat h" by (rule gl_rect_colors)
  have "unat (rX r) + unat (rWidth r) < 65536" "unat (rY r) + unat (rHeight r) < 65536"
    using i unat_u16_less [of w] unat_u16_less [of h] by linarith+
  from colorsToImage_run [OF this cs(2)] obtain pix where
    img: "colorsToImage (rX r) (rY r) (rWidth r) (rHeight r) cs =
      Ok \<lparr>imX = int (unat (rX r)), imY = int (unat (rY r)), imWidth = int (unat (rWidth r)), imHeight = int (unat (rHeight r)), Pix = pix\<rparr>"
    and len: "length pix = 4 * (unat (rWidth r) * unat (rHeight r))" by blast
  have "pix \<noteq> []" using len cs(2,3) by auto
  from gl_documented_ptr [OF g this] img v have "apply_gl_rect g r ?v1 = (Ok (), ?v1\<lparr>stray := stray v + 1\<rparr>)"
    by (simp add: apply_gl_rect_def cs(1) applyImage_def bindM_def gl_shows_def)
  ultimately show ?thesis by (intro exI [of _ ?v1] exI [of _ "?v1\<lparr>stray := stray v + 1\<rparr>"]) simp
qed

end
