(* ===== verification/Viewer.thy ===== *)
theory Viewer
  imports Goroutines
begin

text \<open>
  The viewer of \<^verbatim>\<open>cmd/vncviewer\<close>: the keys and buttons of a window become events, which wait in a slice until the next tick
  steps the session. The toolkit (\<open>gxui\<close>) and the conversion of the image for its texture are outside.
\<close>

section \<open>Keys and buttons\<close>

text \<open>A key is the name of its constant in \<open>gxui\<close>; keys that are not listed give zero.\<close>

definition keysyms :: "(string \<times> u32) list" where
  "keysyms =
    [
     (''KeySpace'', 0xff80), (''KeyApostrophe'', 0x0027), (''KeyComma'', 0x002c), (''KeyMinus'', 0x002d),
     (''KeyPeriod'', 0x002e), (''KeySlash'', 0x002f), (''Key0'', 0x0030), (''Key1'', 0x0031),
     (''Key2'', 0x0032), (''Key3'', 0x0033), (''Key4'', 0x0034), (''Key5'', 0x0035),
     (''Key6'', 0x0036), (''Key7'', 0x0037), (''Key8'', 0x0038), (''Key9'', 0x0039),
     (''KeySemicolon'', 0x003b), (''KeyEqual'', 0x003d), (''KeyA'', 0x0061), (''KeyB'', 0x0062),
     (''KeyC'', 0x0063), (''KeyD'', 0x0064), (''KeyE'', 0x0065), (''KeyF'', 0x0066),
     (''KeyG'', 0x0067), (''KeyH'', 0x0068), (''KeyI'', 0x0069), (''KeyJ'', 0x006a),
     (''KeyK'', 0x006b), (''KeyL'', 0x006c), (''KeyM'', 0x006d), (''KeyN'', 0x006e),
     (''KeyO'', 0x006f), (''KeyP'', 0x0070), (''KeyQ'', 0x0071), (''KeyR'', 0x0072),
     (''KeyS'', 0x0073), (''KeyT'', 0x0074), (''KeyU'', 0x0075), (''KeyV'', 0x0076),
     (''KeyW'', 0x0077), (''KeyX'', 0x0078), (''KeyY'', 0x0079), (''KeyZ'', 0x007a),
     (''KeyLeftBracket'', 0x005b), (''KeyBackslash'', 0x005c), (''KeyRightBracket'', 0x005d), (''KeyGraveAccent'', 0x0060),
     (''KeyEscape'', 0xff1b), (''KeyEnter'', 0xff8d), (''KeyTab'', 0xff89), (''KeyBackspace'', 0xff08),
     (''KeyRight'', 0xff53), (''KeyLeft'', 0xff51), (''KeyDown'', 0xff54), (''KeyUp'', 0xff52)]"

definition mapKey :: "string \<Rightarrow> u32" where
  "mapKey key = (case map_of keysyms key of Some k \<Rightarrow> k | None \<Rightarrow> 0)"

definition mouseMask :: "bool \<Rightarrow> bool \<Rightarrow> bool \<Rightarrow> u8" where
  "mouseMask left middle right =
     (if left then Button 0 else 0) OR (if middle then Button 1 else 0) OR (if right then Button 2 else 0)"

section \<open>The image\<close>

fun rgb_loop :: "color list \<Rightarrow> nat \<Rightarrow> u8 list \<Rightarrow> u8 list outcome" where
  "rgb_loop [] i pix = Ok pix"
| "rgb_loop (c # cs) i pix =
     (if length pix \<le> 3 * i + 2 then Panic IndexOutOfRange
      else rgb_loop cs (i + 1) (pix[3 * i := cR c, 3 * i + 1 := cG c, 3 * i + 2 := cB c]))"

definition toImage :: "screen \<Rightarrow> u8 list outcome" where
  "toImage s = rgb_loop (sData s) 0 (replicate (3 * (unat (sWidth s) * unat (sHeight s))) 0)"

section \<open>The program\<close>

record viewer =
  vsession :: session
  pending :: "vnc_event list"
  shown :: "u8 list option"

definition onEvent :: "vnc_event \<Rightarrow> (viewer, unit) prog" where
  "onEvent e = modifyS (\<lambda>v. v\<lparr>pending := pending v @ [e]\<rparr>)"

definition handleKey :: "string \<Rightarrow> bool \<Rightarrow> (viewer, unit) prog" where
  "handleKey key down = onEvent (KeyEvent (mapKey key) down)"

definition handleMouseEvent :: "bool \<Rightarrow> bool \<Rightarrow> bool \<Rightarrow> int \<Rightarrow> int \<Rightarrow> (viewer, unit) prog" where
  "handleMouseEvent left middle right x y = onEvent (PointerEvent (mouseMask left middle right) (of_int x) (of_int y))"

text \<open>
  A tick steps the session with the events so far and empties the slice; an error ends the program with the
  code 1, and new updates make a new image.
\<close>

definition tick :: "(viewer, unit) prog" where
  "tick v =
     (case Step (pending v) (vsession v) of
        (Panic p, s) \<Rightarrow> (Panic p, v\<lparr>vsession := s\<rparr>)
      | (Diverge, s) \<Rightarrow> (Diverge, v\<lparr>vsession := s\<rparr>)
      | (Err e, s) \<Rightarrow> (Err (Exited 1), v\<lparr>vsession := s, pending := []\<rparr>)
      | (Ok r, s) \<Rightarrow>
          let v' = v\<lparr>vsession := s, pending := []\<rparr> in
          (case r of
             None \<Rightarrow> (Ok (), v')
           | Some (scr, us) \<Rightarrow>
               if us = [] then (Ok (), v')
               else
                 (case scr of
                    None \<Rightarrow> (Panic NilDereference, v')
                  | Some k \<Rightarrow>
                      (case toImage (screens s ! k) of
                         Ok pix \<Rightarrow> (Ok (), v'\<lparr>shown := Some pix\<rparr>)
                       | Err e \<Rightarrow> (Err e, v')
                       | Panic p \<Rightarrow> (Panic p, v')
                       | Diverge \<Rightarrow> (Diverge, v')))))"

section \<open>What goes to the server\<close>

fun user_msg :: "client_msg \<Rightarrow> bool" where
  "user_msg (MKey d k) = True"
| "user_msg (MPointer m x y) = True"
| "user_msg _ = False"

text \<open>
  A step of the session that says \<open>es\<close>: on a connection that writes, it sends messages of which those of the user
  are the events \<open>es\<close>.
\<close>

definition says :: "vnc_event list \<Rightarrow> session \<Rightarrow> session \<Rightarrow> bool" where
  "says es c c' \<longleftrightarrow>
     (\<forall>conn. sconn c = Some conn \<longrightarrow> wres conn = [] \<longrightarrow>
        (\<exists>conn' ms. sconn c' = Some conn' \<and> wres conn' = [] \<and> sent conn' = sent conn @ wire ms \<and>
           list_all msg_ok ms \<and> filter user_msg ms = map event_msg es))"

abbreviation quiet :: "session \<Rightarrow> session \<Rightarrow> bool" where
  "quiet \<equiv> says []"

lemma says_trans:
  assumes "says es a b" and "says fs b c"
  shows "says (es @ fs) a c"
  unfolding says_def
proof (intro allI impI)
  fix conn assume conn: "sconn a = Some conn" "wres conn = []"
  with assms(1) obtain k ms where k: "sconn b = Some k" "wres k = []" "sent k = sent conn @ wire ms"
    "list_all msg_ok ms" "filter user_msg ms = map event_msg es" unfolding says_def by blast
  with assms(2) obtain k' ns where "sconn c = Some k'" "wres k' = []" "sent k' = sent k @ wire ns"
    "list_all msg_ok ns" "filter user_msg ns = map event_msg fs" unfolding says_def by blast
  with k show "\<exists>conn' ms. sconn c = Some conn' \<and> wres conn' = [] \<and> sent conn' = sent conn @ wire ms \<and>
      list_all msg_ok ms \<and> filter user_msg ms = map event_msg (es @ fs)"
    by (intro exI [of _ k'] exI [of _ "ms @ ns"]) simp
qed

lemma quiet_same: "sconn c' = sconn c \<Longrightarrow> quiet c c'"
  unfolding says_def by (intro allI impI, rule exI, rule exI [of _ "[]"]) simp

interpretation quieting: frame quiet
proof
  show "quiet s s" for s by (rule quiet_same) (rule refl)
  show "quiet s u" if "quiet s t" "quiet t u" for s t u using says_trans [OF that] by simp
qed

lemma quiet_requestUpdate:
  assumes "sconn c \<noteq> None"
  shows "quiet c (snd (requestUpdate c))"
  unfolding says_def
proof (intro allI impI)
  fix conn assume conn: "sconn c = Some conn" "wres conn = []"
  have "list_all msg_ok (request_msgs (config c) conn)" "filter user_msg (request_msgs (config c) conn) = []"
    by (simp_all add: request_msgs_def list_all_iff filter_empty_conv split: option.split)
  with requestUpdate_sends [OF conn] conn(2)
  show "\<exists>conn' ms. sconn (snd (requestUpdate c)) = Some conn' \<and> wres conn' = [] \<and> sent conn' = sent conn @ wire ms \<and>
      list_all msg_ok ms \<and> filter user_msg ms = map event_msg []"
    by (intro exI [of _ "conn\<lparr>sent := sent conn @ wire (request_msgs (config c) conn)\<rparr>"] exI [of _ "request_msgs (config c) conn"]) simp
qed

lemma requestUpdate_none: "sconn c = None \<Longrightarrow> quiet c c'"
  by (simp add: says_def)

lemma keeps_quiet_requestUpdate: "keeps quiet requestUpdate"
  unfolding keeps_def using quiet_requestUpdate requestUpdate_none by blast

lemma quiet_report: "quiet c (report e c)"
  by (rule quiet_same) (simp add: report_def)

lemma keeps_quiet_reporting:
  assumes "keeps quiet m"
  shows "keeps quiet (reporting m)"
  unfolding keeps_def
proof
  fix c
  obtain r c' where m: "m c = (r, c')" by (cases "m c")
  have q: "quiet c c'" by (rule keepsD [OF assms m])
  from quieting.trans [OF q quiet_report] q show "quiet c (snd (reporting m c))"
    by (cases r) (simp_all add: reporting_def m)
qed

lemma keeps_quiet_apply: "keeps quiet (apply_to_back r)"
  by (auto simp: keeps_def apply_to_back_def Let_def quieting.refl quiet_same split: option.split outcome.split)

lemma keeps_quiet_deferred: "keeps quiet applyDeferred"
  unfolding applyDeferred_def applyUpdate_def
  by (intro quieting.keeps_prog quieting.keeps_forM keeps_drop_error keeps_quiet_apply) (simp_all add: quiet_same)

lemma keeps_quiet_maintain: "keeps quiet (maintain_update u)"
  unfolding maintain_update_def applyUpdate_def
  by (intro quieting.keeps_prog quieting.keeps_forM keeps_quiet_deferred keeps_quiet_apply)
    (simp_all add: quiet_same Let_def)

lemma keeps_quiet_flip: "keeps quiet flip_goroutine"
  unfolding flip_goroutine_def resume_updates_def
  by (intro quieting.keeps_prog keeps_quiet_deferred keeps_quiet_reporting keeps_quiet_requestUpdate) (simp_all add: quiet_same)

lemma keeps_quiet_rerequest: "keeps quiet rerequest"
  unfolding rerequest_def by (intro quieting.keeps_prog keeps_quiet_reporting keeps_quiet_requestUpdate)

lemma quiet_working: "working s s' \<Longrightarrow> quiet s s'"
proof (induction rule: working.induct)
  case (takes_error s)
  show ?case by (rule quiet_same) (simp add: take_error_def split: list.split)
qed (auto intro: quiet_report keepsD [OF keeps_quiet_maintain] keepsD [OF keeps_quiet_flip] keepsD [OF keeps_quiet_rerequest])

lemma Step_says:
  assumes "Step es c = (Ok r, c')"
  shows "says es c c'"
  unfolding says_def
proof (intro allI impI)
  fix conn assume conn: "sconn c = Some conn" "wres conn = []"
  have "serr c = None" using assms by (cases "serr c") (simp_all add: Step_def bindM_def)
  from Step_written [OF conn this, of es] assms have "sconn c' = Some (conn\<lparr>sent := sent conn @ events_bytes es\<rparr>)" by auto
  moreover have "filter user_msg (map event_msg es) = map event_msg es"
  proof (rule filter_True)
    show "\<forall>m \<in> set (map event_msg es). user_msg m"
    proof
      fix m assume "m \<in> set (map event_msg es)"
      then obtain e where "m = event_msg e" by auto
      then show "user_msg m" by (cases e) simp_all
    qed
  qed
  ultimately show "\<exists>conn' ms. sconn c' = Some conn' \<and> wres conn' = [] \<and> sent conn' = sent conn @ wire ms \<and>
      list_all msg_ok ms \<and> filter user_msg ms = map event_msg es"
    using conn(2) by (intro exI [of _ "conn\<lparr>sent := sent conn @ events_bytes es\<rparr>"] exI [of _ "map event_msg es"])
      (simp add: events_bytes_def comp_def list_all_iff)
qed

section \<open>Runs of the viewer\<close>

inductive viewer_run :: "viewer \<Rightarrow> vnc_event list \<Rightarrow> viewer \<Rightarrow> bool" for v0 where
  begins: "viewer_run v0 [] v0"
| input: "viewer_run v0 es v \<Longrightarrow> onEvent e v = (Ok (), v') \<Longrightarrow> viewer_run v0 (es @ [e]) v'"
| ticks: "viewer_run v0 es v \<Longrightarrow> tick v = (Ok (), v') \<Longrightarrow> viewer_run v0 es v'"
| meanwhile: "viewer_run v0 es v \<Longrightarrow> working (vsession v) s \<Longrightarrow> viewer_run v0 es (v\<lparr>vsession := s\<rparr>)"

lemma tick_steps:
  assumes "tick v = (Ok (), v')"
  shows "(\<exists>r. Step (pending v) (vsession v) = (Ok r, vsession v')) \<and> pending v' = []"
  using assms
  by (auto simp: tick_def Let_def split: prod.splits outcome.splits option.splits if_splits)

lemma viewer_run_says:
  assumes "viewer_run v0 es v" and "pending v0 = []"
  shows "\<exists>done. says done (vsession v0) (vsession v) \<and> done @ pending v = es"
  using assms
proof (induction rule: viewer_run.induct)
  case begins
  then show ?case by (intro exI [of _ "[]"]) (simp add: quieting.refl)
next
  case (input es v e v')
  then show ?case by (auto simp: onEvent_def)
next
  case (ticks es v v')
  from ticks.IH [OF ticks.prems] obtain d where d: "says d (vsession v0) (vsession v)" "d @ pending v = es" by blast
  from tick_steps [OF ticks.hyps(2)] obtain r where r: "Step (pending v) (vsession v) = (Ok r, vsession v')" "pending v' = []" by blast
  from says_trans [OF d(1) Step_says [OF r(1)]] d(2) r(2) show ?case by auto
next
  case (meanwhile es v s)
  from meanwhile.IH [OF meanwhile.prems] obtain d where d: "says d (vsession v0) (vsession v)" "d @ pending v = es" by blast
  from says_trans [OF d(1) quiet_working [OF meanwhile.hyps(2)]] d(2) show ?case by auto
qed


definition demo_viewer :: viewer where
  "demo_viewer =
     \<lparr>vsession = (NewVNCSession demo_config)\<lparr>sconn := Some demo_client, frontScreen := Some 0, backScreen := Some 1,
        screens := [NewScreen 2 2, NewScreen 2 2]\<rparr>, pending = [], shown = None\<rparr>"


section \<open>What the viewer does not do\<close>

text \<open>Events before the connection is there are dropped: the step does nothing and the slice is emptied.\<close>

lemma early_events_lost:
  assumes "serr (vsession v) = None" and "sconn (vsession v) = None"
  shows "tick v = (Ok (), v\<lparr>pending := []\<rparr>)"
  using assms by (simp add: tick_def Step_def bindM_def)

text \<open>The space, enter and tab keys are sent as the keys of the keypad: in \<^verbatim>\<open>keysymdef.h.reference\<close> the space is \<open>0x20\<close>, return
  \<open>0xff0d\<close> and tab \<open>0xff09\<close>.\<close>

lemma keypad_keys:
  "mapKey ''KeySpace'' = 0xff80" "mapKey ''KeyEnter'' = 0xff8d" "mapKey ''KeyTab'' = 0xff89" "mapKey ''KeyLeftShift'' = 0"
  by (simp_all add: mapKey_def keysyms_def)

text \<open>The viewer leaves the levels of its configuration at zero, which is not \<open>-1\<close> for no level: it asks for the
  worst quality.\<close>

definition viewer_config :: "string \<Rightarrow> vnc_config" where
  "viewer_config address =
     \<lparr>cfgAddress = address, cfgPassword = map of_char ''openai'', cfgEncoding = ''tight'', cfgQualityLevel = 0,
      cfgCompressLevel = 0, cfgFineQualityLevel = 0, cfgSubsampleLevel = 0, cfgStartTimeout = 0, cfgSubscription = None\<rparr>"

definition viewer_start :: "string \<Rightarrow> viewer" where
  "viewer_start address = \<lparr>vsession = NewVNCSession (viewer_config address), pending = [], shown = None\<rparr>"

lemma viewer_asks_worst:
  "level_encodings (config (vsession (viewer_start address))) =
    [QualityLevel 0, CompressLevel 0, FineQualityLevel 0, SubsampleLevel 0]"
  by (simp add: level_encodings_def viewer_start_def viewer_config_def NewVNCSession_def clamp_config_def clamp_level_def)

end
