(* ===== verification/HuffCode.thy ===== *)
theory HuffCode
  imports FixedHuff "HOL-Library.Product_Lexorder"
begin

text \<open>
  \<^verbatim>\<open>flexflate/huffman_code.go\<close>: the codes the compressor makes from frequencies. Lengths of at most \<open>maxBits\<close> come
  from \<open>bitCounts\<close>, a lazy form of the package-merge algorithm; \<open>assignEncodingAndSize\<close> gives the codes of each
  length in the order of the symbols.
\<close>

section \<open>Go's arrays and 32 bit arithmetic\<close>

definition put_go :: "'a list \<Rightarrow> nat \<Rightarrow> 'a \<Rightarrow> 'a list outcome" where
  "put_go xs i v = (if i < length xs then Ok (xs[i := v]) else Panic IndexOutOfRange)"

lemma put_go_Ok [simp]: "i < length xs \<Longrightarrow> put_go xs i v = Ok (xs[i := v])"
  by (simp add: put_go_def)

definition maxInt32 :: int where
  "maxInt32 = 2147483647"

text \<open>Addition of \<open>int32\<close> values, wrapping around.\<close>

definition add32 :: "int \<Rightarrow> int \<Rightarrow> int" where
  "add32 a b = signed_take_bit 31 (a + b)"

lemma add32_small: "0 \<le> a + b \<Longrightarrow> a + b \<le> maxInt32 \<Longrightarrow> add32 a b = a + b"
  by (simp add: add32_def maxInt32_def signed_take_bit_int_eq_self_iff)

section \<open>Encoders and the fixed codes\<close>

definition maxLit :: nat where
  "maxLit = 286"

record huffmanEncoder =
  codeBits :: "nat list"
  codeVal :: "nat list"

definition newHuffmanEncoder :: "nat \<Rightarrow> huffmanEncoder" where
  "newHuffmanEncoder n = \<lparr>codeBits = replicate n 0, codeVal = replicate n 0\<rparr>"

text \<open>\<open>reverseBits16\<close> of \<^verbatim>\<open>reverse_bits.go\<close>, on sixteen bits.\<close>

definition reverseBits16 :: "nat \<Rightarrow> nat \<Rightarrow> nat outcome" where
  "reverseBits16 number bitLength = reverse16 (number * 2 ^ (16 - bitLength) mod 2 ^ 16)"

definition fixed_literal :: "nat \<Rightarrow> nat \<times> nat" where
  "fixed_literal ch =
     (if ch < 144 then (ch + 48, 8)
      else if ch < 256 then (ch + 400 - 144, 9)
      else if ch < 280 then (ch - 256, 7)
      else (ch + 192 - 280, 8))"

definition generateFixedLiteralEncoding :: "huffmanEncoder outcome" where
  "generateFixedLiteralEncoding =
     foldO (\<lambda>ch h.
       case fixed_literal ch of (bits, sz) \<Rightarrow>
       bindO (put_go (codeBits h) ch sz) (\<lambda>cb.
       bindO (reverseBits16 bits sz) (\<lambda>r.
       bindO (put_go (codeVal h) ch r) (\<lambda>cv. Ok \<lparr>codeBits = cb, codeVal = cv\<rparr>))))
     [0..<maxLit] (newHuffmanEncoder maxLit)"

definition generateFixedOffsetEncoding :: "huffmanEncoder outcome" where
  "generateFixedOffsetEncoding =
     foldO (\<lambda>ch h.
       bindO (put_go (codeBits h) ch 5) (\<lambda>cb.
       bindO (reverseBits16 ch 5) (\<lambda>r.
       bindO (put_go (codeVal h) ch r) (\<lambda>cv. Ok \<lparr>codeBits = cb, codeVal = cv\<rparr>))))
     [0..<30] (newHuffmanEncoder 30)"

text \<open>The length of the encoding of all symbols; a symbol without a frequency is not looked up.\<close>

definition bitLength :: "huffmanEncoder \<Rightarrow> int list \<Rightarrow> int outcome" where
  "bitLength h freq =
     foldO (\<lambda>(i, f) total.
       if f \<noteq> 0 then bindO (index_go (codeBits h) i) (\<lambda>n. Ok (total + f * int n)) else Ok total)
     (zip [0..<length freq] freq) 0"

section \<open>The numbers of codes of each length\<close>

record literalNode =
  literal :: nat
  freq :: int

definition maxNode :: literalNode where
  "maxNode = \<lparr>literal = 65535, freq = maxInt32\<rparr>"

record levelInfo =
  info_level :: nat
  lastFreq :: int
  nextCharFreq :: int
  nextPairFreq :: int
  needed :: int

definition zero_info :: levelInfo where
  "zero_info = \<lparr>info_level = 0, lastFreq = 0, nextCharFreq = 0, nextPairFreq = 0, needed = 0\<rparr>"

definition maxBitsLimit :: nat where
  "maxBitsLimit = 16"

text \<open>The local variables of the loop of \<open>bitCounts\<close>.\<close>

record counting =
  bc_level :: nat
  bc_levels :: "levelInfo list"
  leafCounts :: "nat list list"

definition init_level :: "literalNode list \<Rightarrow> nat \<Rightarrow> counting \<Rightarrow> counting outcome" where
  "init_level list level s =
     bindO (index_go list 1) (\<lambda>c1.
     bindO (index_go list 2) (\<lambda>c2.
     bindO (index_go list 0) (\<lambda>c0.
     bindO (put_go (bc_levels s) level
       \<lparr>info_level = level, lastFreq = freq c1, nextCharFreq = freq c2,
        nextPairFreq = (if level = 1 then maxInt32 else add32 (freq c0) (freq c1)), needed = 0\<rparr>) (\<lambda>ls.
     bindO (index_go (leafCounts s) level) (\<lambda>row.
     bindO (put_go row level 2) (\<lambda>row.
     Ok (s\<lparr>bc_levels := ls, leafCounts := (leafCounts s)[level := row]\<rparr>)))))))"

text \<open>The next item of the row is a leaf, or a pair of the row below.\<close>

definition take_leaf :: "literalNode list \<Rightarrow> levelInfo \<Rightarrow> counting \<Rightarrow> (levelInfo \<times> counting) outcome" where
  "take_leaf list l s =
     bindO (index_go (leafCounts s) (bc_level s)) (\<lambda>row.
     bindO (index_go row (bc_level s)) (\<lambda>n.
     bindO (index_go list (n + 1)) (\<lambda>c.
     Ok (l\<lparr>lastFreq := nextCharFreq l, nextCharFreq := freq c\<rparr>,
         s\<lparr>leafCounts := (leafCounts s)[bc_level s := row[bc_level s := n + 1]]\<rparr>))))"

definition take_pair :: "levelInfo \<Rightarrow> counting \<Rightarrow> (levelInfo \<times> counting) outcome" where
  "take_pair l s =
     bindO (index_go (leafCounts s) (bc_level s)) (\<lambda>row.
     if bc_level s = 0 then Panic IndexOutOfRange else
     bindO (index_go (leafCounts s) (bc_level s - 1)) (\<lambda>below.
     bindO (copy_go row 0 (bc_level s) below) (\<lambda>row.
     bindO (index_go (bc_levels s) (info_level l - 1)) (\<lambda>b.
     Ok (l\<lparr>lastFreq := nextPairFreq l\<rparr>,
         s\<lparr>leafCounts := (leafCounts s)[bc_level s := row],
           bc_levels := (bc_levels s)[info_level l - 1 := b\<lparr>needed := 2\<rparr>]\<rparr>)))))"

text \<open>Down to the lowest row that has to be replenished.\<close>

fun descend :: "levelInfo list \<Rightarrow> nat \<Rightarrow> nat outcome" where
  "descend ls 0 = Panic IndexOutOfRange"
| "descend ls (Suc k) = bindO (index_go ls k) (\<lambda>b. if 0 < needed b then descend ls k else Ok (Suc k))"

text \<open>One round of the loop; the result says whether it breaks.\<close>

definition bc_round :: "literalNode list \<Rightarrow> nat \<Rightarrow> counting \<Rightarrow> (bool \<times> counting) outcome" where
  "bc_round list maxBits s =
     bindO (index_go (bc_levels s) (bc_level s)) (\<lambda>l.
     if nextPairFreq l = maxInt32 \<and> nextCharFreq l = maxInt32 then
       let ls = (bc_levels s)[bc_level s := l\<lparr>needed := 0\<rparr>] in
       bindO (index_go ls (bc_level s + 1)) (\<lambda>u.
       Ok (False, s\<lparr>bc_levels := ls[bc_level s + 1 := u\<lparr>nextPairFreq := maxInt32\<rparr>], bc_level := bc_level s + 1\<rparr>))
     else
       let prevFreq = lastFreq l in
       bindO (if nextCharFreq l < nextPairFreq l then take_leaf list l s else take_pair l s) (\<lambda>(l, s).
       let l = l\<lparr>needed := needed l - 1\<rparr>; ls = (bc_levels s)[bc_level s := l] in
       if needed l = 0 then
         (if info_level l = maxBits then Ok (True, s\<lparr>bc_levels := ls\<rparr>)
          else
            bindO (index_go ls (info_level l + 1)) (\<lambda>u.
            Ok (False, s\<lparr>bc_levels := ls[info_level l + 1 := u\<lparr>nextPairFreq := add32 prevFreq (lastFreq l)\<rparr>],
              bc_level := bc_level s + 1\<rparr>)))
       else
         bindO (descend ls (bc_level s)) (\<lambda>level. Ok (False, s\<lparr>bc_levels := ls, bc_level := level\<rparr>))))"

partial_function (option) bc_loop :: "literalNode list \<Rightarrow> nat \<Rightarrow> counting \<Rightarrow> counting outcome option" where
  "bc_loop list maxBits s =
     (case bc_round list maxBits s of
        Ok (stop, s') \<Rightarrow> if stop then Some (Ok s') else bc_loop list maxBits s'
      | Err e \<Rightarrow> Some (Err e)
      | Panic p \<Rightarrow> Some (Panic p)
      | Diverge \<Rightarrow> Some Diverge)"

declare bc_loop.simps [code]

text \<open>The list ends with a node of the highest frequency, in the place \<open>generate\<close> has left for it.\<close>

definition bitCounts :: "literalNode list \<Rightarrow> nat \<Rightarrow> int list outcome" where
  "bitCounts nodes limit =
     (if maxBitsLimit \<le> limit then Panic (PanicMessage ''flate: maxBits too large'')
      else
        let n = length nodes; list = nodes @ [maxNode]; maxBits = (if n - 1 < limit then n - 1 else limit) in
        bindO (foldO (init_level list) [1..<maxBits + 1]
          \<lparr>bc_level = maxBits, bc_levels = replicate maxBitsLimit zero_info,
           leafCounts = replicate maxBitsLimit (replicate maxBitsLimit 0)\<rparr>) (\<lambda>s.
        bindO (index_go (bc_levels s) maxBits) (\<lambda>t.
        case bc_loop list maxBits (s\<lparr>bc_levels := (bc_levels s)[maxBits := t\<lparr>needed := 2 * int n - 4\<rparr>]\<rparr>) of
          None \<Rightarrow> Diverge
        | Some r \<Rightarrow>
            bindO r (\<lambda>s.
            bindO (index_go (leafCounts s) maxBits) (\<lambda>counts.
            bindO (index_go counts maxBits) (\<lambda>c.
            if c \<noteq> n then Panic (PanicMessage ''leafCounts[maxBits][maxBits] != n'')
            else Ok (0 # map (\<lambda>level. int (counts ! level) - int (counts ! (level - 1))) (rev [1..<maxBits + 1]))))))))"

end
