(* ===== verification/PackageMerge.thy ===== *)
theory PackageMerge
  imports Prelude
begin

text \<open>
  The package-merge construction of length limited codes, as lists: a row merges the leaves with the pairs of the row
  below. This is what \<open>bitCounts\<close> of \<^verbatim>\<open>flexflate/huffman_code.go\<close> computes lazily. The number of leaves in the first
  \<open>2n - 2\<close> items of the top row, and in the rows below that these need, gives the lengths of a complete code.
\<close>

section \<open>Rows\<close>

fun pairs :: "int list \<Rightarrow> int list" where
  "pairs (a # b # xs) = (a + b) # pairs xs"
| "pairs xs = []"

text \<open>Leaves are marked with \<open>True\<close>; a pair comes before a leaf of the same weight.\<close>

fun weave :: "int list \<Rightarrow> int list \<Rightarrow> (int \<times> bool) list" where
  "weave [] ps = map (\<lambda>p. (p, False)) ps"
| "weave (c # cs) [] = (c, True) # weave cs []"
| "weave (c # cs) (p # ps) = (if c < p then (c, True) # weave cs (p # ps) else (p, False) # weave (c # cs) ps)"

fun row :: "int list \<Rightarrow> nat \<Rightarrow> (int \<times> bool) list" where
  "row cs 0 = []"
| "row cs (Suc l) = weave cs (pairs (map fst (row cs l)))"

definition leaves :: "int list \<Rightarrow> nat \<Rightarrow> nat \<Rightarrow> nat" where
  "leaves cs l k = length (filter snd (take k (row cs l)))"

lemma length_pairs [simp]: "length (pairs xs) = length xs div 2"
  by (induction xs rule: pairs.induct) auto

lemma pairs_nth: "2 * i + 1 < length xs \<Longrightarrow> pairs xs ! i = xs ! (2 * i) + xs ! (2 * i + 1)"
proof (induction xs arbitrary: i rule: pairs.induct)
  case (1 a b xs)
  then show ?case by (cases i) auto
qed auto

lemma length_weave [simp]: "length (weave cs ps) = length cs + length ps"
  by (induction cs ps rule: weave.induct) auto

lemma set_weave: "set (weave cs ps) = (\<lambda>c. (c, True)) ` set cs \<union> (\<lambda>p. (p, False)) ` set ps"
  by (induction cs ps rule: weave.induct) auto

lemma sorted_weave: "sorted cs \<Longrightarrow> sorted ps \<Longrightarrow> sorted (map fst (weave cs ps))"
  by (induction cs ps rule: weave.induct) (auto simp: set_weave comp_def)

lemma sorted_pairs: "sorted xs \<Longrightarrow> sorted (pairs xs)"
proof (induction xs rule: pairs.induct)
  case (1 a b xs)
  have "a + b \<le> y" if "y \<in> set (pairs xs)" for y
  proof -
    from that obtain i where i: "i < length xs div 2" "y = pairs xs ! i" by (auto simp: in_set_conv_nth)
    then have "2 * i + 1 < length xs" by simp
    with 1(2) i show ?thesis
      using nth_mem [of "2 * i" xs] nth_mem [of "2 * i + 1" xs] by (simp add: pairs_nth add_mono)
  qed
  with 1 show ?case by auto
qed auto

lemma sorted_row: "sorted cs \<Longrightarrow> sorted (map fst (row cs l))"
  by (induction l) (auto intro: sorted_weave sorted_pairs)

lemma length_row_Suc: "length (row cs (Suc l)) = length cs + length (row cs l) div 2"
  by simp

lemma leaves_Suc: "k < length (row cs l) \<Longrightarrow> leaves cs l (Suc k) = leaves cs l k + (if snd (row cs l ! k) then 1 else 0)"
  by (simp add: leaves_def take_Suc_conv_app_nth)

lemma leaves_le: "leaves cs l k \<le> k"
  unfolding leaves_def by (rule order.trans [OF length_filter_le]) simp

lemma leaves_mono: "j \<le> k \<Longrightarrow> leaves cs l j \<le> leaves cs l k"
proof -
  assume "j \<le> k"
  then have "take k (row cs l) = take j (row cs l) @ take (k - j) (drop j (row cs l))"
    by (metis le_add_diff_inverse take_add)
  then show ?thesis by (simp add: leaves_def)
qed

text \<open>The next item of a merge.\<close>

lemma weave_nth:
  assumes "k < length cs + length ps"
  shows "let a = length (filter snd (take k (weave cs ps))) in a \<le> length cs \<and> k - a \<le> length ps \<and> a \<le> k \<and>
    weave cs ps ! k = (if a < length cs \<and> (length ps \<le> k - a \<or> cs ! a < ps ! (k - a)) then (cs ! a, True) else (ps ! (k - a), False))"
  using assms
proof (induction cs ps arbitrary: k rule: weave.induct)
  case (1 ps)
  have "filter snd (take k (map (\<lambda>p. (p, False)) ps)) = ([] :: (int \<times> bool) list)" by (auto simp: filter_empty_conv dest: in_set_takeD)
  with 1 show ?case by simp
next
  case (2 c cs)
  then show ?case by (cases k) (auto simp: Let_def)
next
  case (3 c cs p ps)
  show ?case
  proof (cases k)
    case 0
    then show ?thesis by simp
  next
    case (Suc j)
    show ?thesis
    proof (cases "c < p")
      case True
      with 3 Suc show ?thesis by (auto simp: Let_def)
    next
      case False
      let ?a = "length (filter snd (take j (weave (c # cs) ps)))"
      have le: "?a \<le> j" by (rule order.trans [OF length_filter_le]) simp
      from False 3(2) [of j] 3(3) Suc show ?thesis using le by (auto simp: Let_def Suc_diff_le)
    qed
  qed
qed

lemma weave_leaves: "length (filter snd (weave cs ps)) = length cs"
proof (induction cs ps rule: weave.induct)
  case (1 ps)
  then show ?case by (simp add: filter_empty_conv)
qed auto

lemma row_step:
  assumes "k < length (row cs (Suc l))"
  defines "ps \<equiv> pairs (map fst (row cs l))" and "a \<equiv> leaves cs (Suc l) k"
  shows "a \<le> length cs" "k - a \<le> length ps" "a \<le> k"
    and "row cs (Suc l) ! k = (if a < length cs \<and> (length ps \<le> k - a \<or> cs ! a < ps ! (k - a)) then (cs ! a, True)
      else (ps ! (k - a), False))"
proof -
  have "k < length cs + length ps" using assms(1) by (simp add: ps_def)
  from weave_nth [OF this] show "a \<le> length cs" "k - a \<le> length ps" "a \<le> k"
    "row cs (Suc l) ! k = (if a < length cs \<and> (length ps \<le> k - a \<or> cs ! a < ps ! (k - a)) then (cs ! a, True)
      else (ps ! (k - a), False))"
    unfolding a_def leaves_def row.simps ps_def Let_def by blast+
qed

lemma leaves_full: "leaves cs (Suc l) (length (row cs (Suc l))) = length cs"
  by (simp add: leaves_def weave_leaves del: length_weave)

lemma leaves_bound: "leaves cs (Suc l) k \<le> length cs"
proof (cases "k \<le> length (row cs (Suc l))")
  case True
  then show ?thesis using leaves_mono [OF True, of cs "Suc l"] leaves_full [of cs l] by simp
next
  case False
  then show ?thesis using leaves_full [of cs l] by (simp add: leaves_def)
qed

text \<open>Where a leaf and where a pair stands.\<close>

lemma leaf_at:
  "k \<le> length (row cs (Suc l)) \<Longrightarrow> i < leaves cs (Suc l) k \<Longrightarrow>
    \<exists>j < k. leaves cs (Suc l) j = i \<and> row cs (Suc l) ! j = (cs ! i, True)"
proof (induction k)
  case (Suc k)
  let ?a = "leaves cs (Suc l) k"
  have k: "k < length (row cs (Suc l))" using Suc.prems(1) by simp
  show ?case
  proof (cases "i < ?a")
    case True
    with Suc show ?thesis by (auto simp del: row.simps intro: less_SucI)
  next
    case False
    with Suc.prems(2) leaves_Suc [OF k] have "i = ?a" "snd (row cs (Suc l) ! k)"
      by (auto simp del: row.simps split: if_splits)
    with row_step(4) [OF k] show ?thesis
      by (intro exI [of _ k]) (auto simp del: row.simps split: if_splits)
  qed
qed (simp add: leaves_def)

lemma pair_at:
  "k \<le> length (row cs (Suc l)) \<Longrightarrow> q < k - leaves cs (Suc l) k \<Longrightarrow>
    q < length (row cs l) div 2 \<and>
      (\<exists>j < k. j - leaves cs (Suc l) j = q \<and> row cs (Suc l) ! j = (pairs (map fst (row cs l)) ! q, False))"
proof (induction k)
  case (Suc k)
  let ?a = "leaves cs (Suc l) k"
  have k: "k < length (row cs (Suc l))" using Suc.prems(1) by simp
  show ?case
  proof (cases "q < k - ?a")
    case True
    with Suc show ?thesis by (auto simp del: row.simps intro: less_SucI)
  next
    case False
    with Suc.prems(2) leaves_Suc [OF k] row_step(3) [OF k] have "q = k - ?a" "\<not> snd (row cs (Suc l) ! k)"
      by (auto simp del: row.simps split: if_splits)
    moreover have "q < length (row cs l) div 2"
      using calculation row_step [OF k] k unfolding length_row_Suc by (auto simp del: row.simps split: if_splits)
    ultimately show ?thesis
      using row_step(4) [OF k] by (intro conjI exI [of _ k]) (auto simp del: row.simps split: if_splits)
  qed
qed simp

lemma leaf_later:
  assumes "leaves cs (Suc l) k \<le> i" and "i < length cs"
  shows "\<exists>j. k \<le> j \<and> j < length (row cs (Suc l)) \<and> row cs (Suc l) ! j = (cs ! i, True)"
proof -
  have "i < leaves cs (Suc l) (length (row cs (Suc l)))" using assms(2) leaves_full [of cs l] by simp
  from leaf_at [OF order.refl this] obtain j where
    j: "j < length (row cs (Suc l))" "leaves cs (Suc l) j = i" "row cs (Suc l) ! j = (cs ! i, True)" by blast
  have "k \<le> j"
  proof (rule ccontr)
    assume "\<not> k \<le> j"
    then have "leaves cs (Suc l) (Suc j) \<le> leaves cs (Suc l) k" by (intro leaves_mono) simp
    with leaves_Suc [OF j(1)] j assms(1) show False by (simp del: row.simps)
  qed
  with j show ?thesis by blast
qed

lemma row_le: "sorted cs \<Longrightarrow> i \<le> j \<Longrightarrow> j < length (row cs l) \<Longrightarrow> fst (row cs l ! i) \<le> fst (row cs l ! j)"
  using sorted_nth_mono [OF sorted_row [of cs l], of i j] by simp

lemma pairs_row_nth:
  "2 * q + 1 < length (row cs l) \<Longrightarrow> pairs (map fst (row cs l)) ! q = fst (row cs l ! (2 * q)) + fst (row cs l ! (2 * q + 1))"
  by (simp add: pairs_nth)

text \<open>From here on the leaves have positive weights, in order.\<close>

definition weights :: "int list \<Rightarrow> bool" where
  "weights cs \<longleftrightarrow> sorted cs \<and> (\<forall>c \<in> set cs. 1 \<le> c) \<and> 2 \<le> length cs"

lemma row_pos: "weights cs \<Longrightarrow> x \<in> set (row cs l) \<Longrightarrow> 1 \<le> fst x"
proof (induction l arbitrary: x)
  case (Suc l)
  have "1 \<le> p" if p: "p \<in> set (pairs (map fst (row cs l)))" for p
  proof -
    from p obtain i where i: "i < length (row cs l) div 2" "p = pairs (map fst (row cs l)) ! i" by (auto simp: in_set_conv_nth)
    then have b: "2 * i + 1 < length (row cs l)" by simp
    with Suc.IH [OF Suc.prems(1) nth_mem [of "2 * i"]] Suc.IH [OF Suc.prems(1) nth_mem [OF b]] i(2)
    show ?thesis by (simp add: pairs_nth)
  qed
  with Suc.prems show ?case by (auto simp: set_weave weights_def)
qed simp

lemma pair_above:
  assumes "weights cs" and "q < length (row cs l) div 2"
  shows "fst (row cs l ! (2 * q + 1)) < pairs (map fst (row cs l)) ! q"
proof -
  from assms(2) have b: "2 * q + 1 < length (row cs l)" by simp
  then have "1 \<le> fst (row cs l ! (2 * q))" using row_pos [OF assms(1) nth_mem [of "2 * q" "row cs l"]] by simp
  with b show ?thesis by (simp add: pairs_nth)
qed

lemma row_start:
  assumes "weights cs"
  shows "2 \<le> length (row cs (Suc l)) \<and> row cs (Suc l) ! 0 = (cs ! 0, True) \<and> row cs (Suc l) ! 1 = (cs ! 1, True) \<and>
    leaves cs (Suc l) 2 = 2"
proof (induction l)
  case 0
  from assms obtain a b xs where cs: "cs = a # b # xs" by (auto simp: weights_def Suc_le_length_iff numeral_2_eq_2)
  show ?case by (simp add: cs leaves_def numeral_2_eq_2)
next
  case (Suc l)
  let ?r = "row cs (Suc (Suc l))" and ?ps = "pairs (map fst (row cs (Suc l)))"
  have n: "2 \<le> length cs" using assms by (simp add: weights_def)
  have len: "2 \<le> length ?r" unfolding length_row_Suc [of cs "Suc l"] using n by linarith
  then have lens: "0 < length ?r" "1 < length ?r" by linarith+
  have z: "leaves cs (Suc (Suc l)) 0 = 0" by (simp add: leaves_def)
  have p: "?ps ! 0 = cs ! 0 + cs ! 1" "0 < length ?ps"
    using Suc pairs_row_nth [of 0 cs "Suc l"] by (simp_all del: row.simps)
  have le: "cs ! 0 \<le> cs ! 1" "1 \<le> cs ! 0"
    using assms n sorted_nth_mono [of cs 0 1] nth_mem [of 0 cs] unfolding weights_def by (force, fastforce simp: nth_mem)
  have 0: "?r ! 0 = (cs ! 0, True)"
    using row_step(4) [OF lens(1)] p le n z by (auto simp del: row.simps)
  have 1: "leaves cs (Suc (Suc l)) 1 = 1"
    using leaves_Suc [OF lens(1)] 0 z by (simp del: row.simps)
  have 2: "?r ! 1 = (cs ! 1, True)"
    using row_step(4) [OF lens(2)] p le n 1 by (simp del: row.simps)
  have "leaves cs (Suc (Suc l)) 2 = 2"
    using leaves_Suc [OF lens(2)] 1 2 by (simp add: numeral_2_eq_2 del: row.simps)
  with 0 2 len show ?case by simp
qed

text \<open>\<open>l\<close> rows are enough for \<open>2 ^ l\<close> leaves.\<close>

lemma row_deficit: "length cs \<le> 2 ^ l * m \<Longrightarrow> 2 * length cs \<le> length (row cs (Suc l)) + m"
proof (induction l arbitrary: m)
  case 0
  then show ?case by simp
next
  case (Suc l)
  from Suc.IH [of "2 * m"] Suc.prems have "2 * length cs \<le> length (row cs (Suc l)) + 2 * m" by (simp add: mult.assoc)
  then show ?case unfolding length_row_Suc [of cs "Suc l"] by linarith
qed

lemma row_enough: "length cs \<le> 2 ^ l \<Longrightarrow> 0 < l \<Longrightarrow> 2 * length cs - 2 \<le> length (row cs l)"
  using row_deficit [of cs "l - 1" 2] by (cases l) (simp_all del: row.simps add: mult.commute)

text \<open>Few items are lighter than the heaviest leaf, so that leaf is among the items that are needed.\<close>

lemma light_items:
  assumes "weights cs"
  shows "k < length (row cs l) \<Longrightarrow> fst (row cs l ! k) < cs ! (length cs - 1) \<Longrightarrow> k + 4 \<le> 2 * length cs"
proof (induction l arbitrary: k)
  case (Suc l)
  let ?n = "length cs" and ?a = "leaves cs (Suc l) (Suc k)"
  have n: "2 \<le> ?n" and s: "sorted cs" using assms by (simp_all add: weights_def)
  have below: "fst (row cs (Suc l) ! j) < cs ! (?n - 1)" if "j \<le> k" for j
    using row_le [OF s that Suc.prems(1)] Suc.prems(2) by linarith
  have a: "?a \<le> ?n - 1"
  proof (rule ccontr)
    assume "\<not> ?a \<le> ?n - 1"
    then have "?n - 1 < ?a" by simp
    from leaf_at [OF _ this] Suc.prems(1) obtain j where "j < Suc k" "row cs (Suc l) ! j = (cs ! (?n - 1), True)" by auto
    with below [of j] show False by simp
  qed
  have p: "Suc k - ?a \<le> ?n - 2"
  proof (rule ccontr)
    assume c: "\<not> Suc k - ?a \<le> ?n - 2"
    let ?q = "?n - 2"
    have q: "?q < Suc k - ?a" using c by simp
    from pair_at [OF _ q] Suc.prems(1) obtain j where
      j: "j < Suc k" "row cs (Suc l) ! j = (pairs (map fst (row cs l)) ! ?q, False)" and ql: "?q < length (row cs l) div 2"
      by auto
    note above = pair_above [OF assms ql]
    have "fst (row cs l ! (2 * ?q + 1)) < cs ! (?n - 1)" using above below [of j] j by simp
    moreover have "2 * ?q + 1 < length (row cs l)" using ql by simp
    ultimately have "2 * ?q + 1 + 4 \<le> 2 * ?n" using Suc.IH by blast
    with n show False by linarith
  qed
  from a p n show ?case by linarith
qed simp

lemma all_leaves:
  assumes "weights cs" and "length cs \<le> 2 ^ l" and "0 < l"
  shows "leaves cs l (2 * length cs - 2) = length cs"
proof (rule ccontr)
  obtain m where l: "l = Suc m" using assms(3) by (cases l) auto
  let ?n = "length cs" let ?k = "2 * ?n - 2"
  have n: "2 \<le> ?n" and s: "sorted cs" using assms(1) by (simp_all add: weights_def)
  have k: "?k \<le> length (row cs (Suc m))" using row_enough [OF assms(2,3)] l by simp
  assume "leaves cs l ?k \<noteq> ?n"
  then have a: "leaves cs (Suc m) ?k < ?n" using leaves_bound [of cs m ?k] l by simp
  then have "?n - 2 < ?k - leaves cs (Suc m) ?k" using n by linarith
  from pair_at [OF k this] obtain j where ql: "?n - 2 < length (row cs m) div 2" and
    j: "j < ?k" "row cs (Suc m) ! j = (pairs (map fst (row cs m)) ! (?n - 2), False)" by blast
  have "leaves cs (Suc m) ?k \<le> ?n - 1" "?n - 1 < ?n" using a n by linarith+
  from leaf_later [OF this] obtain i where
    i: "?k \<le> i" "i < length (row cs (Suc m))" "row cs (Suc m) ! i = (cs ! (?n - 1), True)" by blast
  have "j \<le> i" using i(1) j(1) by linarith
  from row_le [OF s this i(2)] j(2) i(3) have "pairs (map fst (row cs m)) ! (?n - 2) \<le> cs ! (?n - 1)"
    by (simp del: row.simps)
  with pair_above [OF assms(1) ql] have "fst (row cs m ! (2 * (?n - 2) + 1)) < cs ! (?n - 1)" by linarith
  moreover have "2 * (?n - 2) + 1 < length (row cs m)" using ql by linarith
  ultimately have "2 * (?n - 2) + 1 + 4 \<le> 2 * ?n" using light_items [OF assms(1)] by blast
  with n show False by linarith
qed

text \<open>The items a row needs of the row below, and the leaves among them.\<close>

definition below_need :: "int list \<Rightarrow> nat \<Rightarrow> nat \<Rightarrow> nat" where
  "below_need cs l k = 2 * (k - leaves cs l k)"

lemma below_need_le: "k \<le> length (row cs (Suc l)) \<Longrightarrow> below_need cs (Suc l) k \<le> length (row cs l)"
proof -
  assume k: "k \<le> length (row cs (Suc l))"
  show ?thesis
  proof (cases "k - leaves cs (Suc l) k")
    case (Suc q)
    then have "q < k - leaves cs (Suc l) k" by simp
    from pair_at [OF k this] have "q < length (row cs l) div 2" by blast
    with Suc show ?thesis by (simp add: below_need_def)
  qed (simp add: below_need_def)
qed

lemma leaves_below:
  assumes "weights cs" and "k \<le> length (row cs (Suc l))"
  shows "leaves cs l (below_need cs (Suc l) k) \<le> leaves cs (Suc l) k"
proof (rule ccontr)
  let ?a = "leaves cs (Suc l) k" and ?p = "k - leaves cs (Suc l) k"
  have s: "sorted cs" using assms(1) by (simp add: weights_def)
  assume "\<not> ?thesis"
  then have c: "?a < leaves cs l (2 * ?p)" by (simp add: below_need_def)
  then obtain m where l: "l = Suc m" by (cases l) (auto simp: leaves_def)
  have len: "2 * ?p \<le> length (row cs l)" using below_need_le [OF assms(2)] by (simp add: below_need_def)
  from leaf_at [of "2 * ?p" cs m ?a] len c l obtain j where j: "j < 2 * ?p" "row cs l ! j = (cs ! ?a, True)" by auto
  then have p: "0 < ?p" by linarith
  then have "?p - 1 < ?p" by simp
  from pair_at [OF assms(2) this] obtain i where ql: "?p - 1 < length (row cs l) div 2" and
    i: "i < k" "row cs (Suc l) ! i = (pairs (map fst (row cs l)) ! (?p - 1), False)" by blast
  have an: "?a < length cs" using c leaves_bound [of cs m "2 * ?p"] l by simp
  from leaf_later [OF order.refl an] obtain b where
    b: "k \<le> b" "b < length (row cs (Suc l))" "row cs (Suc l) ! b = (cs ! ?a, True)" by blast
  have "i \<le> b" using i(1) b(1) by linarith
  from row_le [OF s this b(2)] i(2) b(3) have "pairs (map fst (row cs l)) ! (?p - 1) \<le> cs ! ?a" by (simp del: row.simps)
  with pair_above [OF assms(1) ql] have 1: "fst (row cs l ! (2 * (?p - 1) + 1)) < cs ! ?a" by linarith
  have 2: "j \<le> 2 * (?p - 1) + 1" "2 * (?p - 1) + 1 < length (row cs l)" using j(1) ql p by linarith+
  from row_le [OF s 2] j(2) 1 show False by simp
qed

text \<open>The leaves that row \<open>j\<close> gives for the first \<open>k\<close> items of row \<open>l\<close>.\<close>

fun chain :: "int list \<Rightarrow> nat \<Rightarrow> nat \<Rightarrow> nat \<Rightarrow> nat" where
  "chain cs 0 k j = 0"
| "chain cs (Suc l) k j = (if j = Suc l then leaves cs (Suc l) k else chain cs l (below_need cs (Suc l) k) j)"

lemma chain_zero [simp]: "chain cs l k 0 = 0"
  by (induction l arbitrary: k) simp_all

lemma chain_step:
  "weights cs \<Longrightarrow> k \<le> length (row cs l) \<Longrightarrow> j < l \<Longrightarrow> chain cs l k j \<le> chain cs l k (Suc j)"
proof (induction l arbitrary: k)
  case (Suc l)
  let ?k = "below_need cs (Suc l) k"
  have k: "?k \<le> length (row cs l)" using below_need_le Suc.prems(2) by blast
  show ?case
  proof (cases "j = l")
    case True
    have "chain cs l ?k l = leaves cs l ?k" by (cases l) (simp_all add: leaves_def)
    with True leaves_below [OF Suc.prems(1,2)] show ?thesis by simp
  next
    case False
    with Suc.prems Suc.IH [OF Suc.prems(1) k] show ?thesis by simp
  qed
qed simp

text \<open>Kraft's equation.\<close>

lemma chain_sum:
  "k \<le> length (row cs l) \<Longrightarrow> 0 < l \<Longrightarrow>
    (\<Sum>j = 1..l. (int (chain cs l k j) - int (chain cs l k (j - 1))) * 2 ^ j) + int k * 2 ^ l = 2 * 2 ^ l * int (leaves cs l k)"
proof (induction l arbitrary: k)
  case (Suc l)
  let ?k = "below_need cs (Suc l) k" and ?f = "\<lambda>l k j. (int (chain cs l k j) - int (chain cs l k (j - 1))) * 2 ^ j"
  have k: "?k \<le> length (row cs l)" using below_need_le Suc.prems(1) by blast
  have kk: "int ?k = 2 * (int k - int (leaves cs (Suc l) k))" using leaves_le [of cs "Suc l" k] by (simp add: below_need_def)
  have "(\<Sum>j = 1..l. ?f (Suc l) k j) = (\<Sum>j = 1..l. ?f l ?k j)" by (rule sum.cong) auto
  moreover have "chain cs l ?k l = leaves cs l ?k" by (cases l) (simp_all add: leaves_def)
  ultimately have top: "(\<Sum>j = 1..Suc l. ?f (Suc l) k j) =
      (\<Sum>j = 1..l. ?f l ?k j) + (int (leaves cs (Suc l) k) - int (leaves cs l ?k)) * 2 ^ Suc l" by simp
  show ?case
  proof (cases "l = 0")
    case True
    with k kk have "int k = int (leaves cs (Suc l) k)" by simp
    with True show ?thesis unfolding top by (simp add: leaves_def)
  next
    case False
    with Suc.IH [OF k] kk show ?thesis unfolding top by (simp add: algebra_simps)
  qed
qed simp

end
