(* ===== verification/HuffCounts.thy ===== *)
theory HuffCounts
  imports HuffCode PackageMerge
begin

text \<open>
  \<open>bitCounts\<close> of \<^verbatim>\<open>flexflate/huffman_code.go\<close> computes the package-merge rows as far as they are needed: the invariant
  of its loop relates the variables of each level to the row of that level, the loop ends, and the counts it returns
  are those of a complete code of the frequencies.
\<close>

section \<open>The variables of a level\<close>

definition next_char :: "int list \<Rightarrow> nat \<Rightarrow> int" where
  "next_char cs a = (if a < length cs then cs ! a else maxInt32)"

definition next_pair :: "int list \<Rightarrow> nat \<Rightarrow> nat \<Rightarrow> int" where
  "next_pair cs l p = (if p < length (row cs (l - 1)) div 2 then pairs (map fst (row cs (l - 1))) ! p else maxInt32)"

text \<open>\<open>N l\<close> items of row \<open>l\<close> are known; so many of them are pairs.\<close>

definition taken :: "int list \<Rightarrow> (nat \<Rightarrow> nat) \<Rightarrow> nat \<Rightarrow> nat" where
  "taken cs N l = N l - leaves cs l (N l)"

definition level_ok :: "int list \<Rightarrow> nat \<Rightarrow> nat \<Rightarrow> levelInfo \<Rightarrow> nat list \<Rightarrow> bool" where
  "level_ok cs l k info counts \<longleftrightarrow> length counts = 16 \<and> (\<forall>j \<le> l. counts ! j = chain cs l k j) \<and>
     info_level info = l \<and> 2 \<le> k \<and> k \<le> length (row cs l) \<and> lastFreq info = fst (row cs l ! (k - 1)) \<and>
     nextCharFreq info = next_char cs (leaves cs l k)"

definition supplied :: "int list \<Rightarrow> nat \<Rightarrow> (nat \<Rightarrow> nat) \<Rightarrow> nat \<Rightarrow> int \<Rightarrow> bool" where
  "supplied cs L N l nd \<longleftrightarrow>
     (if l = 0 then nd = 0
      else if l = L then int (N l) + nd = 2 * int (length cs) - 2
      else 0 \<le> nd \<and> (int (N l) + nd = 2 * int (taken cs N (l + 1)) + 2 \<or>
        nd = 0 \<and> N l = length (row cs l) \<and> N l < 2 * taken cs N (l + 1) + 2))"

definition counting_ok :: "int list \<Rightarrow> nat \<Rightarrow> (nat \<Rightarrow> nat) \<Rightarrow> levelInfo list \<Rightarrow> nat list list \<Rightarrow> bool" where
  "counting_ok cs L N ls lc \<longleftrightarrow> length ls = 16 \<and> length lc = 16 \<and>
     (\<forall>l. 1 \<le> l \<and> l \<le> L \<longrightarrow> level_ok cs l (N l) (ls ! l) (lc ! l)) \<and>
     (\<forall>l \<le> L. supplied cs L N l (needed (ls ! l))) \<and>
     (\<forall>l. 1 \<le> l \<and> l \<le> L \<and> needed (ls ! (l - 1)) = 0 \<longrightarrow> nextPairFreq (ls ! l) = next_pair cs l (taken cs N l))"

text \<open>The current level lacks something, so do those above; the one below it does not.\<close>

definition at_level :: "nat \<Rightarrow> levelInfo list \<Rightarrow> nat \<Rightarrow> bool" where
  "at_level L ls c \<longleftrightarrow> 1 \<le> c \<and> c \<le> L \<and> needed (ls ! (c - 1)) = 0 \<and> (\<forall>j. c \<le> j \<and> j \<le> L \<longrightarrow> 0 < needed (ls ! j))"

definition counting_inv :: "int list \<Rightarrow> nat \<Rightarrow> (nat \<Rightarrow> nat) \<Rightarrow> counting \<Rightarrow> bool" where
  "counting_inv cs L N s \<longleftrightarrow> counting_ok cs L N (bc_levels s) (leafCounts s) \<and> at_level L (bc_levels s) (bc_level s)"

definition light :: "int list \<Rightarrow> nat \<Rightarrow> bool" where
  "light cs L \<longleftrightarrow> weights cs \<and> 1 \<le> L \<and> L < 16 \<and> length cs \<le> 2 ^ L \<and> (\<forall>c \<in> set cs. c * 2 ^ L < maxInt32)"

section \<open>No sum overflows\<close>

lemma row_light:
  assumes "weights cs" and "\<forall>c \<in> set cs. c \<le> b" and "x \<in> set (row cs (Suc l))"
  shows "fst x \<le> b * 2 ^ l"
  using assms(3)
proof (induction l arbitrary: x)
  case 0
  then have "x \<in> (\<lambda>c. (c, True)) ` set cs" by (auto simp: set_weave)
  with assms(2) show ?case by auto
next
  case (Suc l)
  have b: "1 \<le> b" using assms(1,2) unfolding weights_def by (cases cs) auto
  from Suc.prems consider c where "c \<in> set cs" "x = (c, True)" |
    p where "p \<in> set (pairs (map fst (row cs (Suc l))))" "x = (p, False)"
    unfolding row.simps(2) [of cs "Suc l"] set_weave by blast
  then show ?case
  proof cases
    case 1
    then have "fst x \<le> b * 1" using assms(2) by auto
    also have "\<dots> \<le> b * 2 ^ Suc l" using b by (intro mult_left_mono one_le_power) simp_all
    finally show ?thesis .
  next
    case 2
    then obtain i where i: "i < length (row cs (Suc l)) div 2" "p = pairs (map fst (row cs (Suc l))) ! i"
      by (auto simp: in_set_conv_nth simp del: row.simps)
    then have l: "2 * i + 1 < length (row cs (Suc l))" by linarith
    then have "fst (row cs (Suc l) ! (2 * i)) \<le> b * 2 ^ l" "fst (row cs (Suc l) ! (2 * i + 1)) \<le> b * 2 ^ l"
      using Suc.IH [OF nth_mem [of "2 * i"]] Suc.IH [OF nth_mem [OF l]] by simp_all
    with pairs_row_nth [OF l] i(2) 2(2) show ?thesis by simp
  qed
qed

lemma pair_light:
  assumes "light cs L" and "p < length (row cs l) div 2" and "l < L"
  shows "0 < pairs (map fst (row cs l)) ! p" "pairs (map fst (row cs l)) ! p < maxInt32"
proof -
  have w: "weights cs" using assms(1) by (simp add: light_def)
  have b: "2 * p + 1 < length (row cs l)" using assms(2) by simp
  then obtain m where l: "l = Suc m" by (cases l) auto
  have m: "2 * p < length (row cs l)" using b by simp
  show "0 < pairs (map fst (row cs l)) ! p"
    using row_pos [OF w nth_mem [OF b]] row_pos [OF w nth_mem [OF m]] by (simp only: pairs_row_nth [OF b])
  have s: "sorted cs" "2 \<le> length cs" using w by (simp_all add: weights_def)
  let ?b = "cs ! (length cs - 1)"
  have top: "\<forall>c \<in> set cs. c \<le> ?b"
    using sorted_nth_mono [OF s(1), of _ "length cs - 1"] s(2) by (auto simp: in_set_conv_nth)
  have mem: "?b \<in> set cs" using s(2) by (intro nth_mem) simp
  have "1 \<le> ?b" using w mem by (simp add: weights_def)
  then have "?b * 2 ^ (m + 1) \<le> ?b * 2 ^ L" using assms(3) l by (intro mult_left_mono power_increasing) simp_all
  also have "\<dots> < maxInt32" using assms(1) mem by (simp add: light_def)
  finally have t: "?b * 2 ^ m + ?b * 2 ^ m < maxInt32" by (simp add: algebra_simps)
  show "pairs (map fst (row cs l)) ! p < maxInt32"
    using row_light [OF w top nth_mem [OF b [unfolded l]]] row_light [OF w top nth_mem [OF m [unfolded l]]] t
      pairs_row_nth [OF b [unfolded l]] unfolding l by linarith
qed

lemma leaf_light: "light cs L \<Longrightarrow> a < length cs \<Longrightarrow> cs ! a < maxInt32"
proof -
  assume l: "light cs L" and a: "a < length cs"
  have "cs ! a * 1 \<le> cs ! a * 2 ^ L" using l nth_mem [OF a] by (intro mult_left_mono) (auto simp: light_def weights_def)
  also have "\<dots> < maxInt32" using l nth_mem [OF a] by (simp add: light_def)
  finally show "cs ! a < maxInt32" by simp
qed

text \<open>The item that comes next is a leaf exactly when the code takes one.\<close>

lemma next_item:
  assumes "light cs L" and "1 \<le> l" and "l \<le> L" and "2 \<le> k"
  defines "c \<equiv> next_char cs (leaves cs l k)" and "p \<equiv> next_pair cs l (k - leaves cs l k)"
  assumes "k \<le> length (row cs l)"
  shows "k = length (row cs l) \<longleftrightarrow> c = maxInt32 \<and> p = maxInt32"
    and "c < p \<Longrightarrow> row cs l ! k = (cs ! leaves cs l k, True) \<and> leaves cs l k < length cs"
    and "\<not> c < p \<Longrightarrow> k < length (row cs l) \<Longrightarrow>
      row cs l ! k = (p, False) \<and> k - leaves cs l k < length (row cs (l - 1)) div 2"
proof -
  obtain m where l: "l = Suc m" using assms(2) by (cases l) auto
  let ?a = "leaves cs l k" and ?ps = "pairs (map fst (row cs m))"
  have ml: "m < L" using l assms(3) by simp
  have ale: "?a \<le> length cs" "?a \<le> k" using leaves_bound [of cs m k] leaves_le [of cs l k] l by simp_all
  have len: "length (row cs l) = length cs + length ?ps" using l by simp
  have c: "c = (if ?a < length cs then cs ! ?a else maxInt32)" by (simp add: c_def next_char_def)
  have p: "p = (if k - ?a < length ?ps then ?ps ! (k - ?a) else maxInt32)" by (simp add: p_def next_pair_def l del: row.simps)
  have cl: "c \<le> maxInt32" "c = maxInt32 \<longleftrightarrow> ?a = length cs" using leaf_light [OF assms(1), of ?a] c ale by auto
  have pl: "p \<le> maxInt32" "p = maxInt32 \<longleftrightarrow> length ?ps \<le> k - ?a"
    using pair_light(2) [OF assms(1) _ ml, of "k - ?a"] p by auto
  show "k = length (row cs l) \<longleftrightarrow> c = maxInt32 \<and> p = maxInt32"
  proof
    assume "k = length (row cs l)"
    with leaves_full [of cs m] len l have "?a = length cs" "length ?ps \<le> k - ?a" by simp_all
    with cl pl show "c = maxInt32 \<and> p = maxInt32" by simp
  next
    assume "c = maxInt32 \<and> p = maxInt32"
    with cl pl len assms(7) ale show "k = length (row cs l)" by linarith
  qed
  then have step: "row cs l ! k = (if ?a < length cs \<and> (length ?ps \<le> k - ?a \<or> cs ! ?a < ?ps ! (k - ?a)) then (cs ! ?a, True)
      else (?ps ! (k - ?a), False))" "k - ?a \<le> length ?ps" if "k < length (row cs l)"
    using row_step [of k cs m] that l by simp_all
  show "c < p \<Longrightarrow> row cs l ! k = (cs ! ?a, True) \<and> ?a < length cs"
  proof -
    assume cp: "c < p"
    then have a: "?a < length cs" using cl pl by (metis le_neq_implies_less ale(1) not_less)
    have "k < length (row cs l)"
    proof (rule ccontr)
      assume "\<not> k < length (row cs l)"
      then have "k = length (row cs l)" using assms(7) by simp
      with leaves_full [of cs m] l a show False by simp
    qed
    with step cp a c p show ?thesis by (auto split: if_splits)
  qed
  show "\<not> c < p \<Longrightarrow> k < length (row cs l) \<Longrightarrow> row cs l ! k = (p, False) \<and> k - ?a < length (row cs (l - 1)) div 2"
  proof -
    assume cp: "\<not> c < p" and k: "k < length (row cs l)"
    have q: "k - ?a < length ?ps"
    proof (rule ccontr)
      assume "\<not> k - ?a < length ?ps"
      with k len ale have "?a < length cs" "p = maxInt32" using pl by linarith+
      with cl cp show False by linarith
    qed
    with step [OF k] cp c p l show ?thesis by (auto split: if_splits)
  qed
qed

section \<open>One round\<close>

text \<open>While an item is added, the sum for the level above (\<open>e\<close>) is still to come.\<close>

definition counting_but :: "nat \<Rightarrow> int list \<Rightarrow> nat \<Rightarrow> (nat \<Rightarrow> nat) \<Rightarrow> levelInfo list \<Rightarrow> nat list list \<Rightarrow> bool" where
  "counting_but e cs L N ls lc \<longleftrightarrow> length ls = 16 \<and> length lc = 16 \<and>
     (\<forall>l. 1 \<le> l \<and> l \<le> L \<longrightarrow> level_ok cs l (N l) (ls ! l) (lc ! l)) \<and>
     (\<forall>l \<le> L. supplied cs L N l (needed (ls ! l))) \<and>
     (\<forall>l. 1 \<le> l \<and> l \<le> L \<and> l \<noteq> e \<and> needed (ls ! (l - 1)) = 0 \<longrightarrow> nextPairFreq (ls ! l) = next_pair cs l (taken cs N l))"

lemma counting_but_0: "counting_ok cs L N ls lc = counting_but 0 cs L N ls lc"
  by (auto simp: counting_ok_def counting_but_def)

lemma counting_okD:
  assumes "counting_ok cs L N ls lc" and "1 \<le> l" and "l \<le> L"
  shows "level_ok cs l (N l) (ls ! l) (lc ! l)" "supplied cs L N l (needed (ls ! l))"
    "needed (ls ! (l - 1)) = 0 \<Longrightarrow> nextPairFreq (ls ! l) = next_pair cs l (taken cs N l)"
  using assms by (auto simp: counting_ok_def)

lemma descend_run:
  "c \<le> length ls \<Longrightarrow> 1 \<le> c \<Longrightarrow> needed (ls ! 0) = 0 \<Longrightarrow> \<forall>l < c. 0 \<le> needed (ls ! l) \<Longrightarrow>
    \<exists>d. descend ls c = Ok d \<and> 1 \<le> d \<and> d \<le> c \<and> needed (ls ! (d - 1)) = 0 \<and> (\<forall>j. d \<le> j \<and> j < c \<longrightarrow> 0 < needed (ls ! j))"
proof (induction c)
  case (Suc k)
  show ?case
  proof (cases "0 < needed (ls ! k)")
    case True
    then have "1 \<le> k" using Suc.prems(3) by (cases k) auto
    with Suc obtain d where "descend ls k = Ok d" "1 \<le> d" "d \<le> k" "needed (ls ! (d - 1)) = 0"
        "\<forall>j. d \<le> j \<and> j < k \<longrightarrow> 0 < needed (ls ! j)" by auto
    with True Suc.prems(1) show ?thesis by (intro exI [of _ d]) (auto simp: less_Suc_eq)
  next
    case False
    with Suc.prems show ?thesis by (intro exI [of _ "Suc k"]) (auto simp: dest: spec [of _ k])
  qed
qed simp

lemma supplied_nonneg: "supplied cs L N l nd \<Longrightarrow> l \<noteq> L \<Longrightarrow> 0 \<le> nd"
  by (auto simp: supplied_def split: if_splits)

text \<open>A row that has run out of leaves and pairs is left for good.\<close>

lemma round_exhausted:
  assumes li: "light cs L" and map: "cs = map freq nodes" and inv: "counting_inv cs L N s"
    and ex: "nextPairFreq (bc_levels s ! bc_level s) = maxInt32" "nextCharFreq (bc_levels s ! bc_level s) = maxInt32"
  shows "\<exists>s'. bc_round list L s = Ok (False, s') \<and> counting_inv cs L N s' \<and> bc_level s < bc_level s' \<and> bc_level s' \<le> L"
proof -
  let ?c = "bc_level s" and ?ls = "bc_levels s" and ?lc = "leafCounts s"
  have ok: "counting_ok cs L N ?ls ?lc" and at: "at_level L ?ls ?c" using inv by (simp_all add: counting_inv_def)
  have c: "1 \<le> ?c" "?c \<le> L" "needed (?ls ! (?c - 1)) = 0" "0 < needed (?ls ! ?c)" using at by (auto simp: at_level_def)
  have L: "L < 16" "1 \<le> L" and len: "length ?ls = 16" using li ok by (simp_all add: light_def counting_ok_def)
  note cs = counting_okD [OF ok c(1,2)]
  have lo: "level_ok cs ?c (N ?c) (?ls ! ?c) (?lc ! ?c)" by (rule cs(1))
  have full: "N ?c = length (row cs ?c)"
    using next_item(1) [OF li c(1,2), of "N ?c"] lo ex cs(3) [OF c(3)] by (simp add: level_ok_def taken_def)
  have cL: "?c \<noteq> L"
  proof
    assume e: "?c = L"
    have "2 * length cs - 2 \<le> length (row cs L)" using row_enough [of cs L] li by (simp add: light_def)
    with cs(2) e c full show False by (simp add: supplied_def)
  qed
  let ?u = "(?ls ! (?c + 1))\<lparr>nextPairFreq := maxInt32\<rparr>"
  let ?ls' = "?ls[?c := (?ls ! ?c)\<lparr>needed := 0\<rparr>, ?c + 1 := ?u]"
  have run: "bc_round list L s = Ok (False, s\<lparr>bc_levels := ?ls', bc_level := ?c + 1\<rparr>)"
    using ex len c(2) L cL by (simp add: bc_round_def Let_def)
  have nd: "needed (?ls' ! i) = (if i = ?c then 0 else needed (?ls ! i))" for i
    using len c(2) L cL by (auto simp: nth_list_update)
  have fields: "info_level (?ls' ! i) = info_level (?ls ! i)" "lastFreq (?ls' ! i) = lastFreq (?ls ! i)"
      "nextCharFreq (?ls' ! i) = nextCharFreq (?ls ! i)" for i
    using len c(2) L cL by (auto simp: nth_list_update)
  have np: "nextPairFreq (?ls' ! i) = (if i = ?c + 1 then maxInt32 else nextPairFreq (?ls ! i))" for i
    using len c(2) L cL by (auto simp: nth_list_update)
  have short: "N ?c < 2 * taken cs N (?c + 1) + 2" using cs(2) c cL by (auto simp: supplied_def)
  have "supplied cs L N ?c 0" using c cL full short by (simp add: supplied_def)
  moreover have "\<not> taken cs N (?c + 1) < length (row cs ?c) div 2" using full short by linarith
  then have "next_pair cs (?c + 1) (taken cs N (?c + 1)) = maxInt32" by (simp add: next_pair_def)
  ultimately have "counting_ok cs L N ?ls' ?lc"
    using ok unfolding counting_ok_def level_ok_def fields nd np by (auto simp: len)
  moreover have "at_level L ?ls' (?c + 1)" using at cL c unfolding at_level_def nd by auto
  ultimately show ?thesis using run c cL
    by (intro exI [of _ "s\<lparr>bc_levels := ?ls', bc_level := ?c + 1\<rparr>"]) (auto simp: counting_inv_def)
qed

text \<open>What follows when an item has been added to the current level.\<close>

definition round_tail :: "nat \<Rightarrow> int \<Rightarrow> counting \<Rightarrow> (bool \<times> counting) outcome" where
  "round_tail L prevFreq s =
     (let ls = bc_levels s; l = ls ! bc_level s in
      if needed l = 0 then
        (if info_level l = L then Ok (True, s)
         else
           bindO (index_go ls (info_level l + 1)) (\<lambda>u.
           Ok (False, s\<lparr>bc_levels := ls[info_level l + 1 := u\<lparr>nextPairFreq := add32 prevFreq (lastFreq l)\<rparr>],
             bc_level := bc_level s + 1\<rparr>)))
      else bindO (descend ls (bc_level s)) (\<lambda>level. Ok (False, s\<lparr>bc_level := level\<rparr>)))"

definition finished :: "int list \<Rightarrow> nat \<Rightarrow> counting \<Rightarrow> bool" where
  "finished cs L s \<longleftrightarrow> length (leafCounts s) = 16 \<and> length (leafCounts s ! L) = 16 \<and>
     (\<forall>j \<le> L. leafCounts s ! L ! j = chain cs L (2 * length cs - 2) j)"

lemma next_pair_sum:
  assumes "light cs L" and "1 \<le> c" and "c < L" and "k \<le> length (row cs c)" and "k = 2 * p + 2"
  shows "next_pair cs (c + 1) p = add32 (fst (row cs c ! (k - 2))) (fst (row cs c ! (k - 1)))"
proof -
  have b: "2 * p + 1 < length (row cs c)" "p < length (row cs c) div 2" using assms(4,5) by simp_all
  from pair_light [OF assms(1) b(2) assms(3)] pairs_row_nth [OF b(1)]
  have "0 \<le> fst (row cs c ! (2 * p)) + fst (row cs c ! (2 * p + 1))"
    "fst (row cs c ! (2 * p)) + fst (row cs c ! (2 * p + 1)) \<le> maxInt32" by linarith+
  then show ?thesis using b(2) pairs_row_nth [OF b(1)] assms(5) by (simp add: next_pair_def add32_small)
qed

lemma tail_run:
  assumes li: "light cs L" and ok: "counting_but (bc_level s + 1) cs L N (bc_levels s) (leafCounts s)"
    and c: "1 \<le> bc_level s" "bc_level s \<le> L" and nd: "0 \<le> needed (bc_levels s ! bc_level s)"
    and up: "\<forall>j. bc_level s < j \<and> j \<le> L \<longrightarrow> 0 < needed (bc_levels s ! j)"
    and first: "needed (bc_levels s ! bc_level s) = 0 \<Longrightarrow> bc_level s \<noteq> L \<Longrightarrow>
      N (bc_level s) = 2 * taken cs N (bc_level s + 1) + 2"
    and prev: "prevFreq = fst (row cs (bc_level s) ! (N (bc_level s) - 2))"
  shows "\<exists>b s'. round_tail L prevFreq s = Ok (b, s') \<and> (if b then finished cs L s' else counting_inv cs L N s')"
proof -
  let ?c = "bc_level s" and ?ls = "bc_levels s" and ?lc = "leafCounts s"
  have L: "L < 16" "1 \<le> L" and len: "length ?ls = 16" using li ok by (simp_all add: light_def counting_but_def)
  have lo: "level_ok cs ?c (N ?c) (?ls ! ?c) (?lc ! ?c)" and sup: "supplied cs L N ?c (needed (?ls ! ?c))"
    using ok c by (auto simp: counting_but_def)
  show ?thesis
  proof (cases "needed (?ls ! ?c) = 0")
    case True
    show ?thesis
    proof (cases "?c = L")
      case e: True
      have "int (N L) = 2 * int (length cs) - 2" using sup True e c by (simp add: supplied_def)
      then have "N L = 2 * length cs - 2" by linarith
      with e lo ok have "finished cs L s" by (simp add: finished_def level_ok_def counting_but_def)
      moreover have "round_tail L prevFreq s = Ok (True, s)" using True e lo by (simp add: round_tail_def level_ok_def Let_def)
      ultimately show ?thesis by (intro exI [of _ True] exI [of _ s]) simp
    next
      case False
      let ?v = "add32 prevFreq (lastFreq (?ls ! ?c))"
      let ?ls' = "?ls[?c + 1 := (?ls ! (?c + 1))\<lparr>nextPairFreq := ?v\<rparr>]" and ?p = "taken cs N (?c + 1)"
      have cl: "?c < L" using c False by simp
      have run: "round_tail L prevFreq s = Ok (False, s\<lparr>bc_levels := ?ls', bc_level := ?c + 1\<rparr>)"
        using True False lo L cl len by (simp add: round_tail_def level_ok_def Let_def)
      have k: "N ?c \<le> length (row cs ?c)" "lastFreq (?ls ! ?c) = fst (row cs ?c ! (N ?c - 1))"
        using lo by (simp_all add: level_ok_def)
      have v: "?v = next_pair cs (?c + 1) ?p"
        unfolding prev k(2) using next_pair_sum [OF li c(1) cl k(1)] first [OF True False] by simp
      have fields: "info_level (?ls' ! i) = info_level (?ls ! i)" "lastFreq (?ls' ! i) = lastFreq (?ls ! i)"
        "nextCharFreq (?ls' ! i) = nextCharFreq (?ls ! i)" "needed (?ls' ! i) = needed (?ls ! i)" for i
        using len cl L by (auto simp: nth_list_update)
      have np: "nextPairFreq (?ls' ! i) = (if i = ?c + 1 then ?v else nextPairFreq (?ls ! i))" for i
        using len cl L by (auto simp: nth_list_update)
      have "counting_ok cs L N ?ls' ?lc"
        using ok v unfolding counting_ok_def counting_but_def level_ok_def fields np by auto
      moreover have "at_level L ?ls' (?c + 1)" using up True cl unfolding at_level_def fields by auto
      ultimately show ?thesis using run
        by (intro exI [of _ False] exI [of _ "s\<lparr>bc_levels := ?ls', bc_level := ?c + 1\<rparr>"]) (simp add: counting_inv_def)
    qed
  next
    case False
    have z: "needed (?ls ! 0) = 0" using ok by (auto simp: counting_but_def supplied_def)
    have nn: "\<forall>l < ?c. 0 \<le> needed (?ls ! l)"
    proof (intro allI impI)
      fix l assume "l < ?c"
      then have "supplied cs L N l (needed (?ls ! l))" "l \<noteq> L" using ok c by (auto simp: counting_but_def)
      then show "0 \<le> needed (?ls ! l)" by (rule supplied_nonneg)
    qed
    have cc: "?c \<le> length ?ls" using c L len by simp
    from descend_run [OF cc c(1) z nn] obtain d where
      d: "descend ?ls ?c = Ok d" "1 \<le> d" "d \<le> ?c" "needed (?ls ! (d - 1)) = 0"
        "\<forall>j. d \<le> j \<and> j < ?c \<longrightarrow> 0 < needed (?ls ! j)" by blast
    have "counting_ok cs L N ?ls ?lc" using ok False unfolding counting_ok_def counting_but_def by auto
    moreover have "at_level L ?ls d"
      using d up nd False c unfolding at_level_def by (auto simp: le_less_linear) (metis linorder_neqE_nat order_le_less)
    moreover have "round_tail L prevFreq s = Ok (False, s\<lparr>bc_level := d\<rparr>)"
      using False d by (simp add: round_tail_def Let_def)
    ultimately show ?thesis by (intro exI [of _ False] exI [of _ "s\<lparr>bc_level := d\<rparr>"]) (simp add: counting_inv_def)
  qed
qed

lemma round_takes:
  assumes "length (bc_levels s) = 16" and "bc_level s < 16"
    and "\<not> (nextPairFreq (bc_levels s ! bc_level s) = maxInt32 \<and> nextCharFreq (bc_levels s ! bc_level s) = maxInt32)"
    and "(if nextCharFreq (bc_levels s ! bc_level s) < nextPairFreq (bc_levels s ! bc_level s)
      then take_leaf list (bc_levels s ! bc_level s) s else take_pair (bc_levels s ! bc_level s) s) = Ok (l, s1)"
    and "bc_level s1 = bc_level s" and "length (bc_levels s1) = 16"
  shows "bc_round list L s = round_tail L (lastFreq (bc_levels s ! bc_level s))
    (s1\<lparr>bc_levels := (bc_levels s1)[bc_level s := l\<lparr>needed := needed l - 1\<rparr>]\<rparr>)"
proof -
  have "index_go (bc_levels s) (bc_level s) = Ok (bc_levels s ! bc_level s)" using assms(1,2) by simp
  then show ?thesis
    unfolding bc_round_def Let_def
    using assms(2,5,6) by (simp only: bindO.simps if_not_P [OF assms(3)] assms(4)) (simp add: round_tail_def Let_def)
qed

lemma round_leaf:
  assumes li: "light cs L" and map: "cs = map freq nodes" and inv: "counting_inv cs L N s"
    and lt: "nextCharFreq (bc_levels s ! bc_level s) < nextPairFreq (bc_levels s ! bc_level s)"
  shows "\<exists>b s'. bc_round (nodes @ [maxNode]) L s = Ok (b, s') \<and> N (bc_level s) < length (row cs (bc_level s)) \<and>
    (if b then finished cs L s' else counting_inv cs L (N(bc_level s := Suc (N (bc_level s)))) s')"
proof -
  let ?c = "bc_level s" and ?ls = "bc_levels s" and ?lc = "leafCounts s"
  let ?k = "N ?c" and ?l = "?ls ! ?c" and ?row = "?lc ! ?c" and ?N = "N(?c := Suc (N ?c))"
  let ?a = "leaves cs ?c ?k"
  have ok: "counting_ok cs L N ?ls ?lc" and at: "at_level L ?ls ?c" using inv by (simp_all add: counting_inv_def)
  have c: "1 \<le> ?c" "?c \<le> L" "needed (?ls ! (?c - 1)) = 0" "0 < needed ?l" using at by (auto simp: at_level_def)
  have L: "L < 16" "1 \<le> L" and len: "length ?ls = 16" "length ?lc = 16" using li ok by (simp_all add: light_def counting_ok_def)
  note cok = counting_okD [OF ok c(1,2)]
  have lo: "length ?row = 16" "\<forall>j \<le> ?c. ?row ! j = chain cs ?c ?k j" "info_level ?l = ?c" "2 \<le> ?k" "?k \<le> length (row cs ?c)"
    "lastFreq ?l = fst (row cs ?c ! (?k - 1))" "nextCharFreq ?l = next_char cs ?a"
    using cok(1) by (simp_all add: level_ok_def)
  have np: "nextPairFreq ?l = next_pair cs ?c (?k - ?a)" using cok(3) [OF c(3)] by (simp add: taken_def)
  note item = next_item [OF li c(1,2) lo(4,5)]
  have it: "row cs ?c ! ?k = (cs ! ?a, True)" "?a < length cs" using item(2) lt unfolding lo(7) np by simp_all
  have kl: "?k < length (row cs ?c)" using item(1) lo(5) lt unfolding lo(7) np by linarith
  have lv: "leaves cs ?c (Suc ?k) = Suc ?a" using leaves_Suc [OF kl] it by simp
  have ak: "?a \<le> ?k" by (rule leaves_le)
  have ra: "?row ! ?c = ?a" using lo(2) c(1) by (cases ?c) auto
  let ?f = "freq ((nodes @ [maxNode]) ! Suc ?a)"
  have f: "?f = next_char cs (Suc ?a)"
    using it(2) by (auto simp: next_char_def map nth_append maxNode_def less_Suc_eq)
  let ?l' = "?l\<lparr>lastFreq := nextCharFreq ?l, nextCharFreq := ?f\<rparr>" and ?lc' = "?lc[?c := ?row[?c := Suc ?a]]"
  let ?ls' = "?ls[?c := ?l'\<lparr>needed := needed ?l - 1\<rparr>]"
  let ?s' = "s\<lparr>leafCounts := ?lc', bc_levels := ?ls'\<rparr>"
  have "take_leaf (nodes @ [maxNode]) ?l s = Ok (?l', s\<lparr>leafCounts := ?lc'\<rparr>)"
    using len lo(1) c(2) L ra it(2) by (simp add: take_leaf_def map)
  then have run: "bc_round (nodes @ [maxNode]) L s = round_tail L (lastFreq ?l) ?s'"
    using round_takes [of s "nodes @ [maxNode]" ?l' "s\<lparr>leafCounts := ?lc'\<rparr>" L] len c(2) L lt by simp
  have tk: "taken cs ?N l = taken cs N l" for l using lv ak by (simp add: taken_def)
  have ls: "?ls' ! i = (if i = ?c then ?l'\<lparr>needed := needed ?l - 1\<rparr> else ?ls ! i)" for i
    using len c(2) L by (simp add: nth_list_update)
  have lc: "?lc' ! i = (if i = ?c then ?row[?c := Suc ?a] else ?lc ! i)" for i
    using len c(2) L by (simp add: nth_list_update)
  have ch: "chain cs ?c (Suc ?k) j = (if j = ?c then Suc ?a else chain cs ?c ?k j)" for j
    using lv ak c(1) by (cases ?c) (simp_all add: below_need_def)
  have "level_ok cs ?c (Suc ?k) (?l'\<lparr>needed := needed ?l - 1\<rparr>) (?row[?c := Suc ?a])"
    using lo kl it f lv c(2) L by (auto simp: level_ok_def ch nth_list_update next_char_def simp del: row.simps)
  then have 1: "\<forall>l. 1 \<le> l \<and> l \<le> L \<longrightarrow> level_ok cs l (?N l) (?ls' ! l) (?lc' ! l)"
    using ok unfolding counting_ok_def ls lc by auto
  have 2: "\<forall>l \<le> L. supplied cs L ?N l (needed (?ls' ! l))"
    using ok c unfolding counting_ok_def supplied_def tk ls by auto
  have 3: "\<forall>l. 1 \<le> l \<and> l \<le> L \<and> l \<noteq> ?c + 1 \<and> needed (?ls' ! (l - 1)) = 0 \<longrightarrow>
      nextPairFreq (?ls' ! l) = next_pair cs l (taken cs ?N l)"
    using ok c(3) unfolding counting_ok_def tk ls by auto
  have but: "counting_but (?c + 1) cs L ?N ?ls' ?lc'" using 1 2 3 len by (simp add: counting_but_def)
  have "\<exists>b s'. round_tail L (lastFreq ?l) ?s' = Ok (b, s') \<and> (if b then finished cs L s' else counting_inv cs L ?N s')"
  proof (rule tail_run [OF li])
    show "counting_but (bc_level ?s' + 1) cs L ?N (bc_levels ?s') (leafCounts ?s')" using but by simp
    show "1 \<le> bc_level ?s'" "bc_level ?s' \<le> L" using c by simp_all
    show "0 \<le> needed (bc_levels ?s' ! bc_level ?s')" using c(4) len c(2) L by simp
    show "\<forall>j. bc_level ?s' < j \<and> j \<le> L \<longrightarrow> 0 < needed (bc_levels ?s' ! j)" using at by (auto simp: at_level_def)
    show "lastFreq ?l = fst (row cs (bc_level ?s') ! (?N (bc_level ?s') - 2))" using lo(6) by (simp add: numeral_2_eq_2)
    assume "needed (bc_levels ?s' ! bc_level ?s') = 0" "bc_level ?s' \<noteq> L"
    with cok(2) c len L show "?N (bc_level ?s') = 2 * taken cs ?N (bc_level ?s' + 1) + 2"
      unfolding tk by (simp add: supplied_def)
  qed
  with run kl show ?thesis by simp
qed

lemma supplied_mid:
  "1 \<le> l \<Longrightarrow> l \<noteq> L \<Longrightarrow> supplied cs L N l nd \<longleftrightarrow> 0 \<le> nd \<and> (int (N l) + nd = 2 * int (taken cs N (l + 1)) + 2 \<or>
    nd = 0 \<and> N l = length (row cs l) \<and> N l < 2 * taken cs N (l + 1) + 2)"
  by (simp add: supplied_def)

lemma round_pair:
  assumes li: "light cs L" and inv: "counting_inv cs L N s"
    and ge: "\<not> nextCharFreq (bc_levels s ! bc_level s) < nextPairFreq (bc_levels s ! bc_level s)"
    and more: "\<not> (nextPairFreq (bc_levels s ! bc_level s) = maxInt32 \<and> nextCharFreq (bc_levels s ! bc_level s) = maxInt32)"
  shows "\<exists>b s'. bc_round list L s = Ok (b, s') \<and> N (bc_level s) < length (row cs (bc_level s)) \<and>
    (if b then finished cs L s' else counting_inv cs L (N(bc_level s := Suc (N (bc_level s)))) s')"
proof -
  let ?c = "bc_level s" and ?ls = "bc_levels s" and ?lc = "leafCounts s"
  let ?k = "N ?c" and ?l = "?ls ! ?c" and ?row = "?lc ! ?c" and ?N = "N(?c := Suc (N ?c))"
  let ?a = "leaves cs ?c ?k" and ?b = "?c - 1"
  have ok: "counting_ok cs L N ?ls ?lc" and at: "at_level L ?ls ?c" using inv by (simp_all add: counting_inv_def)
  have c: "1 \<le> ?c" "?c \<le> L" "needed (?ls ! ?b) = 0" "0 < needed ?l" using at by (auto simp: at_level_def)
  have L: "L < 16" "1 \<le> L" and len: "length ?ls = 16" "length ?lc = 16" using li ok by (simp_all add: light_def counting_ok_def)
  note cok = counting_okD [OF ok c(1,2)]
  have lo: "length ?row = 16" "\<forall>j \<le> ?c. ?row ! j = chain cs ?c ?k j" "info_level ?l = ?c" "2 \<le> ?k" "?k \<le> length (row cs ?c)"
    "lastFreq ?l = fst (row cs ?c ! (?k - 1))" "nextCharFreq ?l = next_char cs ?a"
    using cok(1) by (simp_all add: level_ok_def)
  have np: "nextPairFreq ?l = next_pair cs ?c (?k - ?a)" using cok(3) [OF c(3)] by (simp add: taken_def)
  note item = next_item [OF li c(1,2) lo(4,5)]
  have kl: "?k < length (row cs ?c)" using item(1) lo(5) more unfolding lo(7) np by linarith
  have it: "row cs ?c ! ?k = (nextPairFreq ?l, False)" "?k - ?a < length (row cs ?b) div 2"
    using item(3) [OF _ kl] ge unfolding lo(7) np by simp_all
  have lv: "leaves cs ?c (Suc ?k) = ?a" using leaves_Suc [OF kl] it by simp
  have ak: "?a \<le> ?k" by (rule leaves_le)
  have b: "1 \<le> ?b" "?b \<le> L" "?b \<noteq> L" using it(2) c by (cases "?b"; simp)+
  have lb: "level_ok cs ?b (N ?b) (?ls ! ?b) (?lc ! ?b)" using counting_okD(1) [OF ok b(1,2)] .
  have Nb: "N ?b = 2 * (?k - ?a) + 2"
  proof -
    have cb: "?b + 1 = ?c" using c(1) by simp
    have "supplied cs L N ?b 0" using counting_okD(2) [OF ok b(1,2)] c(3) by simp
    then show ?thesis using it(2) unfolding supplied_mid [OF b(1,3)] cb by (auto simp: taken_def)
  qed
  let ?row' = "take ?c (?lc ! ?b) @ drop ?c ?row"
  let ?l' = "?l\<lparr>lastFreq := nextPairFreq ?l\<rparr>" and ?lc' = "?lc[?c := ?row']"
  let ?ls1 = "?ls[?b := (?ls ! ?b)\<lparr>needed := 2\<rparr>]"
  let ?ls' = "?ls1[?c := ?l'\<lparr>needed := needed ?l - 1\<rparr>]"
  let ?s' = "s\<lparr>leafCounts := ?lc', bc_levels := ?ls'\<rparr>"
  have lbl: "length (?lc ! ?b) = 16" using lb by (simp add: level_ok_def)
  have cp: "copy_go ?row 0 ?c (?lc ! ?b) = Ok ?row'" using lo(1) lbl c(2) L by (simp add: copy_go_Ok)
  have tp: "take_pair ?l s = Ok (?l', s\<lparr>leafCounts := ?lc', bc_levels := ?ls1\<rparr>)"
    using len c L b cp lo(3) by (simp add: take_pair_def)
  have run: "bc_round list L s = round_tail L (lastFreq ?l) ?s'"
    using round_takes [of s list ?l' "s\<lparr>leafCounts := ?lc', bc_levels := ?ls1\<rparr>" L] len c(2) L ge more tp by simp
  have tk: "taken cs ?N l = (if l = ?c then Suc (taken cs N l) else taken cs N l)" for l
    using lv ak by (auto simp: taken_def Suc_diff_le)
  have ls: "?ls' ! i = (if i = ?c then ?l'\<lparr>needed := needed ?l - 1\<rparr> else if i = ?b then (?ls ! ?b)\<lparr>needed := 2\<rparr> else ?ls ! i)" for i
    using len c(2) L by (auto simp: nth_list_update)
  have lc: "?lc' ! i = (if i = ?c then ?row' else ?lc ! i)" for i using len c(2) L by (simp add: nth_list_update)
  have bc: "below_need cs ?c (Suc ?k) = N ?b" using lv ak Nb by (simp add: below_need_def Suc_diff_le)
  have ch: "chain cs ?c (Suc ?k) j = (if j = ?c then ?a else chain cs ?b (N ?b) j)" for j
    using lv bc c(1) by (cases ?c) simp_all
  have "?row' ! j = chain cs ?c (Suc ?k) j" if j: "j \<le> ?c" for j
  proof (cases "j = ?c")
    case True
    have "?row ! ?c = ?a" using lo(2) c(1) by (cases ?c) auto
    with True ch lbl lo(1) c(2) L show ?thesis by (simp add: nth_append)
  next
    case False
    with j lb lbl c L have "?row' ! j = chain cs ?b (N ?b) j" by (auto simp: nth_append level_ok_def)
    with False ch show ?thesis by simp
  qed
  then have lk: "level_ok cs ?c (Suc ?k) (?l'\<lparr>needed := needed ?l - 1\<rparr>) ?row'"
    using lo kl it lv lbl c(2) L by (auto simp: level_ok_def simp del: row.simps)
  have lkb: "level_ok cs ?b (N ?b) ((?ls ! ?b)\<lparr>needed := 2\<rparr>) (?lc ! ?b)" using lb by (simp add: level_ok_def)
  have 1: "\<forall>l. 1 \<le> l \<and> l \<le> L \<longrightarrow> level_ok cs l (?N l) (?ls' ! l) (?lc' ! l)"
    using ok lk lkb c(1) unfolding counting_ok_def ls lc by auto
  have sb: "supplied cs L ?N ?b 2" using Nb c(1) unfolding supplied_mid [OF b(1,3)] tk by (auto simp: taken_def)
  have sc: "supplied cs L ?N ?c (needed ?l - 1)" using cok(2) c unfolding supplied_def tk by auto
  have so: "supplied cs L ?N l (needed (?ls ! l))" if "l \<noteq> ?b" "l \<noteq> ?c" "l \<le> L" for l
    using ok that c(1) unfolding counting_ok_def supplied_def tk by auto
  have 2: "\<forall>l \<le> L. supplied cs L ?N l (needed (?ls' ! l))"
    using sb sc so unfolding ls by auto
  have 3: "\<forall>l. 1 \<le> l \<and> l \<le> L \<and> l \<noteq> ?c + 1 \<and> needed (?ls' ! (l - 1)) = 0 \<longrightarrow>
      nextPairFreq (?ls' ! l) = next_pair cs l (taken cs ?N l)"
    using ok c(3) unfolding counting_ok_def tk ls by auto
  have but: "counting_but (?c + 1) cs L ?N ?ls' ?lc'" using 1 2 3 len by (simp add: counting_but_def)
  have "\<exists>b s'. round_tail L (lastFreq ?l) ?s' = Ok (b, s') \<and> (if b then finished cs L s' else counting_inv cs L ?N s')"
  proof (rule tail_run [OF li])
    show "counting_but (bc_level ?s' + 1) cs L ?N (bc_levels ?s') (leafCounts ?s')" using but by simp
    show "1 \<le> bc_level ?s'" "bc_level ?s' \<le> L" using c by simp_all
    show "0 \<le> needed (bc_levels ?s' ! bc_level ?s')" using c(4) len c(2) L by simp
    show "\<forall>j. bc_level ?s' < j \<and> j \<le> L \<longrightarrow> 0 < needed (bc_levels ?s' ! j)" using at by (auto simp: at_level_def)
    show "lastFreq ?l = fst (row cs (bc_level ?s') ! (?N (bc_level ?s') - 2))" using lo(6) by (simp add: numeral_2_eq_2)
    assume "needed (bc_levels ?s' ! bc_level ?s') = 0" "bc_level ?s' \<noteq> L"
    with cok(2) c len L show "?N (bc_level ?s') = 2 * taken cs ?N (bc_level ?s' + 1) + 2"
      unfolding tk by (simp add: supplied_def)
  qed
  with run kl show ?thesis by simp
qed

section \<open>The loop\<close>

lemma counting_bounds: "counting_inv cs L N s \<Longrightarrow> 1 \<le> l \<Longrightarrow> l \<le> L \<Longrightarrow> N l \<le> length (row cs l)"
  unfolding counting_inv_def using counting_okD(1) by (fastforce simp: level_ok_def)

lemma sum_fill:
  fixes f :: "nat \<Rightarrow> nat"
  assumes "1 \<le> c" and "c \<le> L" and "N c < f c"
  shows "(\<Sum>l = 1..L. f l - (N(c := Suc (N c))) l) < (\<Sum>l = 1..L. f l - N l)"
  by (rule sum_strict_mono_ex1) (use assms in auto)

lemma loop_run:
  assumes li: "light cs L" and map: "cs = map freq nodes"
  shows "counting_inv cs L N s \<Longrightarrow> \<exists>s'. bc_loop (nodes @ [maxNode]) L s = Some (Ok s') \<and> finished cs L s'"
proof (induction "(\<Sum>l = 1..L. length (row cs l) - N l) * (L + 1) + (L - bc_level s)" arbitrary: N s rule: less_induct)
  case less
  let ?c = "bc_level s" and ?l = "bc_levels s ! bc_level s" and ?N = "N(bc_level s := Suc (N (bc_level s)))"
  let ?m = "\<lambda>N. \<Sum>l = 1..L. length (row cs l) - N l"
  have c: "1 \<le> ?c" "?c \<le> L" using less.prems by (auto simp: counting_inv_def at_level_def)
  show ?case
  proof (cases "nextPairFreq ?l = maxInt32 \<and> nextCharFreq ?l = maxInt32")
    case True
    with round_exhausted [OF li map less.prems] obtain s1 where
      s1: "bc_round (nodes @ [maxNode]) L s = Ok (False, s1)" "counting_inv cs L N s1" "?c < bc_level s1" "bc_level s1 \<le> L"
      by blast
    then have "?m N * (L + 1) + (L - bc_level s1) < ?m N * (L + 1) + (L - ?c)" by linarith
    from less.hyps [OF this s1(2)] s1(1) show ?thesis by (simp add: bc_loop.simps [of _ _ s])
  next
    case False
    have "\<exists>b s1. bc_round (nodes @ [maxNode]) L s = Ok (b, s1) \<and> N ?c < length (row cs ?c) \<and>
        (if b then finished cs L s1 else counting_inv cs L ?N s1)"
    proof (cases "nextCharFreq ?l < nextPairFreq ?l")
      case True
      then show ?thesis by (rule round_leaf [OF li map less.prems])
    next
      case ge: False
      show ?thesis by (rule round_pair [OF li less.prems ge False])
    qed
    then obtain b s1 where s1: "bc_round (nodes @ [maxNode]) L s = Ok (b, s1)" "N ?c < length (row cs ?c)"
        "if b then finished cs L s1 else counting_inv cs L ?N s1" by blast
    show ?thesis
    proof (cases b)
      case True
      with s1 show ?thesis by (simp add: bc_loop.simps [of _ _ s])
    next
      case b: False
      have "?m ?N < ?m N" by (rule sum_fill [where f = "\<lambda>l. length (row cs l)" and N = N, OF c s1(2)])
      then have "(?m ?N + 1) * (L + 1) \<le> ?m N * (L + 1)" by (intro mult_right_mono) simp_all
      then have "?m ?N * (L + 1) + (L - bc_level s1) < ?m N * (L + 1) + (L - ?c)" by simp
      moreover have "counting_inv cs L ?N s1" using s1(3) b by simp
      ultimately obtain s' where "bc_loop (nodes @ [maxNode]) L s1 = Some (Ok s')" "finished cs L s'"
        using less.hyps by blast
      with s1(1) b show ?thesis by (simp add: bc_loop.simps [of _ _ s])
    qed
  qed
qed

section \<open>The first items\<close>

definition first_info :: "literalNode list \<Rightarrow> nat \<Rightarrow> levelInfo" where
  "first_info list l =
     \<lparr>info_level = l, lastFreq = freq (list ! 1), nextCharFreq = freq (list ! 2),
      nextPairFreq = (if l = 1 then maxInt32 else add32 (freq (list ! 0)) (freq (list ! 1))), needed = 0\<rparr>"

definition first_state :: "literalNode list \<Rightarrow> nat \<Rightarrow> nat \<Rightarrow> counting" where
  "first_state list L m =
     \<lparr>bc_level = L, bc_levels = map (\<lambda>l. if 1 \<le> l \<and> l \<le> m then first_info list l else zero_info) [0..<16],
      leafCounts = map (\<lambda>l. if 1 \<le> l \<and> l \<le> m then (replicate 16 0)[l := 2] else replicate 16 0) [0..<16]\<rparr>"

lemma list_update_map_upt: "l < n \<Longrightarrow> (map f [0..<n])[l := x] = map (\<lambda>i. if i = l then x else f i) [0..<n]"
  by (rule nth_equalityI) (auto simp: nth_list_update)

lemma init_levels_run:
  assumes "3 \<le> length list"
  shows "m < 16 \<Longrightarrow> foldO (init_level list) [1..<m + 1] (first_state list L 0) = Ok (first_state list L m)"
proof (induction m)
  case (Suc m)
  have app: "foldO f (xs @ ys) b = bindO (foldO f xs b) (foldO f ys)" for f :: "nat \<Rightarrow> counting \<Rightarrow> counting outcome" and xs ys b
    by (induction xs arbitrary: b) (simp_all, metis bindO.simps outcome.exhaust)
  have "0 < length list" "1 < length list" "2 < length list" using assms by linarith+
  note ix = this [THEN index_go_Ok]
  have "init_level list (Suc m) (first_state list L m) = Ok (first_state list L (Suc m))"
    using ix Suc.prems unfolding first_state_def
    by (auto simp: init_level_def first_info_def list_update_map_upt intro!: map_cong)
  with Suc show ?case by (simp add: app)
qed (simp add: foldO.simps)

lemma first_inv:
  assumes li: "light cs L" and map: "cs = map freq nodes" and n: "3 \<le> length cs" and list: "list = nodes @ [maxNode]"
  shows "let s = first_state list L L in
    counting_inv cs L (\<lambda>_. 2) (s\<lparr>bc_levels := (bc_levels s)[L := (bc_levels s ! L)\<lparr>needed := 2 * int (length cs) - 4\<rparr>]\<rparr>)"
proof -
  let ?s = "first_state list L L" and ?N = "\<lambda>_ :: nat. 2 :: nat"
  let ?ls = "(bc_levels ?s)[L := (bc_levels ?s ! L)\<lparr>needed := 2 * int (length cs) - 4\<rparr>]"
  have L: "1 \<le> L" "L < 16" and w: "weights cs" using li by (simp_all add: light_def)
  have f: "freq (list ! 0) = cs ! 0" "freq (list ! 1) = cs ! 1" "freq (list ! 2) = next_char cs 2"
    using n by (auto simp: list map next_char_def nth_append maxNode_def)
  have ls: "?ls ! l = (if l = L then (first_info list l)\<lparr>needed := 2 * int (length cs) - 4\<rparr>
      else if l = 0 then zero_info else first_info list l)" if "l \<le> L" for l
    using that L by (auto simp: first_state_def nth_list_update)
  have lc: "leafCounts ?s ! l ! j = (if j = l then 2 else 0)" "length (leafCounts ?s ! l) = 16" if "1 \<le> l" "l \<le> L" "j \<le> l" for l j
    using that L by (auto simp: first_state_def nth_list_update)
  have st: "2 \<le> length (row cs l)" "row cs l ! 0 = (cs ! 0, True)" "row cs l ! 1 = (cs ! 1, True)" "leaves cs l 2 = 2"
    if "1 \<le> l" for l
    using row_start [OF w, of "l - 1"] that by (cases l; simp del: row.simps)+
  have tk: "taken cs ?N l = 0" if "1 \<le> l" for l using st [OF that] by (simp add: taken_def)
  have c0: "chain cs l 0 j = 0" for l j
    by (induction l) (simp_all add: leaves_def below_need_def)
  have ch: "chain cs l 2 j = (if j = l then 2 else 0)" if "1 \<le> l" "j \<le> l" for l j
    using st [OF that(1)] that c0 by (cases l) (auto simp: below_need_def)
  have nn: "nextPairFreq (first_info list l) = next_pair cs l 0" if l: "1 \<le> l" "l \<le> L" for l
  proof (cases "l = 1")
    case True
    then show ?thesis by (simp add: first_info_def next_pair_def)
  next
    case False
    with l have l1: "1 \<le> l - 1" "l - 1 < L" by simp_all
    have b: "2 * 0 + 1 < length (row cs (l - 1))" "0 < length (row cs (l - 1)) div 2" using st(1) [OF l1(1)] by simp_all
    have e: "pairs (map fst (row cs (l - 1))) ! 0 = cs ! 0 + cs ! 1" using pairs_row_nth [OF b(1)] st [OF l1(1)] by simp
    with pair_light [OF li b(2) l1(2)] have "add32 (cs ! 0) (cs ! 1) = cs ! 0 + cs ! 1" by (intro add32_small) simp_all
    with False e b(2) f show ?thesis by (simp add: first_info_def next_pair_def)
  qed
  have "level_ok cs l 2 (?ls ! l) (leafCounts ?s ! l)" if l: "1 \<le> l" "l \<le> L" for l
    using l ls [OF l(2)] lc [OF l] ch [OF l(1)] st [OF l(1)] f by (simp add: level_ok_def first_info_def)
  moreover have "supplied cs L ?N l (needed (?ls ! l))" if l: "l \<le> L" for l
    using ls [OF l] l L tk [of "l + 1"] by (auto simp: supplied_def zero_info_def first_info_def)
  moreover have "nextPairFreq (?ls ! l) = next_pair cs l (taken cs ?N l)" if l: "1 \<le> l" "l \<le> L" for l
    using ls [OF l(2)] nn [OF l] tk [OF l(1)] l by (cases "l = L") simp_all
  moreover have "length ?ls = 16" "length (leafCounts ?s) = 16" by (simp_all add: first_state_def)
  ultimately have "counting_ok cs L ?N ?ls (leafCounts ?s)" by (simp add: counting_ok_def)
  moreover have "at_level L ?ls L"
    using L n ls [of "L - 1"] ls [of L] by (auto simp: at_level_def zero_info_def first_info_def)
  ultimately show ?thesis by (simp add: counting_inv_def Let_def first_state_def)
qed

section \<open>The counts\<close>

text \<open>Counts of code lengths of a complete code of \<open>n\<close> symbols: entry \<open>b\<close> is the number of codes of \<open>b\<close> bits.\<close>

definition complete_counts :: "int list \<Rightarrow> nat \<Rightarrow> nat \<Rightarrow> bool" where
  "complete_counts bc m n \<longleftrightarrow> length bc = m + 1 \<and> bc ! 0 = 0 \<and> list_all (\<lambda>k. 0 \<le> k) bc \<and> sum_list bc = int n \<and>
     (\<Sum>b = 1..m. bc ! b * 2 ^ (m - b)) = 2 ^ m"

lemma rev_upt_nth: "i < L \<Longrightarrow> rev [1..<L + 1] ! i = L - i"
  by (simp add: rev_nth del: upt_Suc)

lemma sum_list_steps:
  fixes f :: "nat \<Rightarrow> int"
  shows "(\<Sum>l\<leftarrow>rev [1..<L + 1]. f l - f (l - 1)) = f L - f 0"
  by (induction L) (simp_all add: rev_map [symmetric])

lemma complete_chain:
  assumes li: "light cs L"
  defines "k \<equiv> 2 * length cs - 2"
  shows "complete_counts (0 # map (\<lambda>l. int (chain cs L k l) - int (chain cs L k (l - 1))) (rev [1..<L + 1])) L (length cs)"
    and "chain cs L k L = length cs"
proof -
  have w: "weights cs" and L: "1 \<le> L" "length cs \<le> 2 ^ L" using li by (simp_all add: light_def)
  have n: "2 \<le> length cs" using w by (simp add: weights_def)
  have k: "k \<le> length (row cs L)" using row_enough [OF L(2)] L(1) by (simp add: k_def)
  have lv: "leaves cs L k = length cs" using all_leaves [OF w L(2)] L(1) by (simp add: k_def)
  have top: "chain cs L k L = leaves cs L k" using L(1) by (cases L) simp_all
  then show "chain cs L k L = length cs" using lv by simp
  let ?f = "\<lambda>l. int (chain cs L k l)"
  let ?bc = "0 # map (\<lambda>l. ?f l - ?f (l - 1)) (rev [1..<L + 1])"
  have nth: "?bc ! b = ?f (L + 1 - b) - ?f (L - b)" if "1 \<le> b" "b \<le> L" for b
    using that rev_upt_nth [of "b - 1" L] by (cases b) (simp_all del: upt_Suc)
  have pos: "0 \<le> ?f l - ?f (l - 1)" if "1 \<le> l" "l \<le> L" for l
    using chain_step [OF w k, of "l - 1"] that by simp
  have "(\<Sum>b = 1..L. ?bc ! b * 2 ^ (L - b)) = (\<Sum>b = 1..L. (?f (L + 1 - b) - ?f (L - b)) * 2 ^ (L - b))"
    by (rule sum.cong) (use nth in \<open>auto simp del: nth_Cons_Suc\<close>)
  also have "\<dots> = (\<Sum>l = 1..L. (?f l - ?f (l - 1)) * 2 ^ (l - 1))"
    by (rule sum.reindex_bij_witness [where i = "\<lambda>l. L + 1 - l" and j = "\<lambda>b. L + 1 - b"]) auto
  finally have s: "(\<Sum>b = 1..L. ?bc ! b * 2 ^ (L - b)) = (\<Sum>l = 1..L. (?f l - ?f (l - 1)) * 2 ^ (l - 1))" .
  have "2 * (\<Sum>l = 1..L. (?f l - ?f (l - 1)) * 2 ^ (l - 1)) = (\<Sum>l = 1..L. (?f l - ?f (l - 1)) * 2 ^ l)"
    unfolding sum_distrib_left by (rule sum.cong) (auto simp: power_eq_if)
  also have "\<dots> = 2 * 2 ^ L"
    using chain_sum [OF k] L(1) lv n by (simp add: k_def of_nat_diff algebra_simps)
  finally have "(\<Sum>b = 1..L. ?bc ! b * 2 ^ (L - b)) = 2 ^ L" unfolding s by simp
  moreover have "sum_list ?bc = int (length cs)" using sum_list_steps [of ?f L] top lv by simp
  moreover have "list_all (\<lambda>k. 0 \<le> k) ?bc" using pos by (auto simp: list_all_iff)
  ultimately show "complete_counts ?bc L (length cs)" by (simp add: complete_counts_def)
qed

lemma bitCounts_run:
  assumes w: "weights (map freq nodes)" and n: "3 \<le> length nodes" "length nodes \<le> 2 ^ limit" and l: "limit < 16"
    and f: "\<forall>nd \<in> set nodes. freq nd < 65536"
  defines "m \<equiv> min (length nodes - 1) limit"
  shows "\<exists>bc. bitCounts nodes limit = Ok bc \<and> complete_counts bc m (length nodes)"
proof -
  let ?cs = "map freq nodes" and ?list = "nodes @ [maxNode]"
  have lm: "1 \<le> limit" using n by (cases limit) simp_all
  have m: "1 \<le> m" "m < 16" using n l lm by (auto simp: m_def)
  have "length nodes \<le> 2 ^ (length nodes - 1)"
    using n(1) by (cases "length nodes") (simp_all add: Suc_leI)
  then have nm: "length nodes \<le> 2 ^ m" using n(2) by (auto simp: m_def min_def)
  have "c * 2 ^ m < maxInt32" if "c \<in> set ?cs" for c
  proof -
    have "c \<le> 65535" using that f by auto
    then have "c * 2 ^ m \<le> 65535 * 2 ^ 15" using m(2) w that
      by (intro mult_mono power_increasing) (auto simp: weights_def)
    then show ?thesis by (simp add: maxInt32_def)
  qed
  then have li: "light ?cs m" using w m nm by (simp add: light_def)
  let ?s = "first_state ?list m m"
  have i0: "\<lparr>bc_level = m, bc_levels = replicate maxBitsLimit zero_info,
      leafCounts = replicate maxBitsLimit (replicate maxBitsLimit 0)\<rparr> = first_state ?list m 0"
    by (auto simp: first_state_def maxBitsLimit_def intro!: nth_equalityI)
  have init: "foldO (init_level ?list) [1..<m + 1] (first_state ?list m 0) = Ok ?s"
    by (rule init_levels_run) (use n m in simp_all)
  let ?s1 = "?s\<lparr>bc_levels := (bc_levels ?s)[m := (bc_levels ?s ! m)\<lparr>needed := 2 * int (length nodes) - 4\<rparr>]\<rparr>"
  have inv: "counting_inv ?cs m (\<lambda>_. 2) ?s1"
    using first_inv [OF li refl _ refl] n(1) by (simp add: Let_def)
  from loop_run [OF li refl inv] obtain s2 where
    s2: "bc_loop ?list m ?s1 = Some (Ok s2)" "finished ?cs m s2" by blast
  have ln: "length (bc_levels ?s) = 16" by (simp add: first_state_def)
  have counts: "leafCounts s2 ! m ! j = chain ?cs m (2 * length nodes - 2) j" if "j \<le> m" for j
    using s2(2) that by (simp add: finished_def)
  have len: "m < length (leafCounts s2)" "m < length (leafCounts s2 ! m)" using s2(2) m by (simp_all add: finished_def)
  note chain = complete_chain [OF li, unfolded length_map]
  have mm: "(if length nodes - 1 < limit then length nodes - 1 else limit) = m" by (simp add: m_def min_def)
  have "map (\<lambda>l. int (leafCounts s2 ! m ! l) - int (leafCounts s2 ! m ! (l - 1))) (rev [1..<m + 1]) =
      map (\<lambda>l. int (chain ?cs m (2 * length nodes - 2) l) - int (chain ?cs m (2 * length nodes - 2) (l - 1))) (rev [1..<m + 1])"
    by (rule map_cong) (auto simp: counts)
  moreover have "bitCounts nodes limit =
      Ok (0 # map (\<lambda>l. int (leafCounts s2 ! m ! l) - int (leafCounts s2 ! m ! (l - 1))) (rev [1..<m + 1]))"
    unfolding bitCounts_def Let_def mm i0 init bindO.simps
    using l m ln len s2(1) counts [of m] chain(2) by (simp add: maxBitsLimit_def)
  ultimately show ?thesis using chain(1) by metis
qed

end
