(* ===== verification/HuffGen.thy ===== *)
theory HuffGen
  imports HuffCounts InflateHeader "HOL-Library.Multiset"
begin

text \<open>
  \<open>assignEncodingAndSize\<close> and \<open>generate\<close> of \<^verbatim>\<open>flexflate/huffman_code.go\<close>: from frequencies to the codes of the
  symbols. The codes are the canonical ones of their lengths, those the inflator makes its tables from.
\<close>

section \<open>Assigning the codes\<close>

text \<open>\<open>sort.Sort\<close> with the two orders of \<open>literalNodeSorter\<close>; the nodes differ in their literals.\<close>

definition sortByFreq :: "literalNode list \<Rightarrow> literalNode list" where
  "sortByFreq a = sort_key (\<lambda>nd. (freq nd, literal nd)) a"

definition sortByLiteral :: "literalNode list \<Rightarrow> literalNode list" where
  "sortByLiteral a = sort_key literal a"

definition assign_node :: "nat \<Rightarrow> literalNode \<Rightarrow> nat \<times> huffmanEncoder \<Rightarrow> (nat \<times> huffmanEncoder) outcome" where
  "assign_node n node = (\<lambda>(c, h).
     bindO (put_go (codeBits h) (literal node) n) (\<lambda>cb.
     bindO (reverseBits16 c n) (\<lambda>r.
     bindO (put_go (codeVal h) (literal node) r) (\<lambda>cv.
     Ok ((c + 1) mod 2 ^ 16, h\<lparr>codeBits := cb, codeVal := cv\<rparr>)))))"

text \<open>The loop over \<open>bitCount\<close>; the nodes of \<open>n\<close> bits are the last ones of the list.\<close>

fun assignEncodingAndSize ::
  "nat \<Rightarrow> int list \<Rightarrow> literalNode list \<Rightarrow> nat \<Rightarrow> huffmanEncoder \<Rightarrow> huffmanEncoder outcome" where
  "assignEncodingAndSize n [] list c h = Ok h"
| "assignEncodingAndSize n (b # bs) list c h =
     (let c = c * 2 mod 2 ^ 16 in
      if n = 0 \<or> b = 0 then assignEncodingAndSize (n + 1) bs list c h
      else if b < 0 \<or> int (length list) < b then Panic SliceOutOfRange
      else
        let k = length list - nat b in
        bindO (foldO (assign_node n) (sortByLiteral (drop k list)) (c, h)) (\<lambda>(c, h).
        assignEncodingAndSize (n + 1) bs (take k list) c h))"

text \<open>The nodes of the symbols that occur; the others get the length 0.\<close>

definition collect :: "nat \<times> int \<Rightarrow> literalNode list \<times> huffmanEncoder \<Rightarrow> (literalNode list \<times> huffmanEncoder) outcome" where
  "collect = (\<lambda>(i, f) (nodes, h).
     if f \<noteq> 0 then Ok (nodes @ [\<lparr>literal = i mod 2 ^ 16, freq = f\<rparr>], h)
     else bindO (put_go (codeBits h) i 0) (\<lambda>cb. Ok (nodes, h\<lparr>codeBits := cb\<rparr>)))"

definition assign_one :: "nat \<times> literalNode \<Rightarrow> huffmanEncoder \<Rightarrow> huffmanEncoder outcome" where
  "assign_one = (\<lambda>(i, node) h.
     bindO (put_go (codeBits h) (literal node) 1) (\<lambda>cb.
     bindO (put_go (codeVal h) (literal node) (i mod 2 ^ 16)) (\<lambda>cv. Ok (h\<lparr>codeBits := cb, codeVal := cv\<rparr>))))"

text \<open>The slice \<open>codeBits\<close> is as long as the frequencies from its first use on, so its capacity plays no part.\<close>

definition generate :: "int list \<Rightarrow> nat \<Rightarrow> huffmanEncoder \<Rightarrow> huffmanEncoder outcome" where
  "generate fs maxBits h =
     bindO (foldO collect (zip [0..<length fs] fs) ([], h)) (\<lambda>(nodes, h).
     if length (codeBits h) < length fs then Panic SliceOutOfRange
     else
       let h = h\<lparr>codeBits := take (length fs) (codeBits h)\<rparr> in
       if length nodes \<le> 2 then foldO assign_one (zip [0..<length nodes] nodes) h
       else
         let list = sortByFreq nodes in
         bindO (bitCounts list maxBits) (\<lambda>bitCount. assignEncodingAndSize 0 bitCount list 0 h))"

section \<open>One length\<close>

lemma reverseBits16_run:
  assumes "x < 2 ^ n" and "n \<le> 16"
  shows "reverseBits16 x n = Ok (revbits n x)"
proof -
  have "x * 2 ^ (16 - n) < 2 ^ n * 2 ^ (16 - n)" using assms(1) by simp
  also have "\<dots> = 2 ^ 16" using assms(2) by (simp flip: power_add)
  finally have l: "x * 2 ^ (16 - n) < 2 ^ 16" .
  have "revbits 16 (x * 2 ^ (16 - n)) = revbits n x"
  proof (rule bit_eqI)
    fix i
    have "bit (x * 2 ^ (16 - n)) (15 - i) \<longleftrightarrow> bit x (n - 1 - i)" if "i < n"
    proof -
      have "15 - i = (16 - n) + (n - 1 - i)" using that assms(2) by simp
      then show ?thesis by (simp add: bit_push_bit_iff flip: push_bit_eq_mult)
    qed
    moreover have "\<not> bit (x * 2 ^ (16 - n)) (15 - i)" if "\<not> i < n" "i < 16"
      using that assms(2) by (auto simp: bit_push_bit_iff simp flip: push_bit_eq_mult)
    ultimately show "bit (revbits 16 (x * 2 ^ (16 - n))) i = bit (revbits n x) i"
      using assms(2) by (auto simp: bit_revbits)
  qed
  with l show ?thesis by (simp add: reverseBits16_def reverse16_run)
qed

definition assigned :: "nat \<Rightarrow> nat \<Rightarrow> literalNode list \<Rightarrow> huffmanEncoder \<Rightarrow> bool" where
  "assigned n c D h \<longleftrightarrow>
     (\<forall>p < length D. codeBits h ! literal (D ! p) = n \<and> codeVal h ! literal (D ! p) = revbits n (c + p))"

text \<open>Nothing changes but the entries of the symbols in \<open>S\<close>.\<close>

definition others_same :: "nat set \<Rightarrow> huffmanEncoder \<Rightarrow> huffmanEncoder \<Rightarrow> bool" where
  "others_same S h h' \<longleftrightarrow> length (codeBits h') = length (codeBits h) \<and> length (codeVal h') = length (codeVal h) \<and>
     (\<forall>i. i \<notin> S \<longrightarrow> codeBits h' ! i = codeBits h ! i \<and> codeVal h' ! i = codeVal h ! i)"

lemma others_same_trans: "others_same S h g \<Longrightarrow> others_same T g g' \<Longrightarrow> others_same (S \<union> T) h g'"
  by (auto simp: others_same_def)

lemma assigned_others: "assigned n c D h \<Longrightarrow> others_same S h h' \<Longrightarrow> S \<inter> literal ` set D = {} \<Longrightarrow> assigned n c D h'"
proof -
  assume a: "assigned n c D h" "others_same S h h'" "S \<inter> literal ` set D = {}"
  have "literal (D ! p) \<notin> S" if "p < length D" for p using nth_mem [OF that] a(3) by blast
  with a(1,2) show ?thesis by (simp add: assigned_def others_same_def)
qed

lemma assign_chunk_run:
  "distinct (map literal D) \<Longrightarrow> \<forall>nd \<in> set D. literal nd < length (codeBits h) \<Longrightarrow> length (codeVal h) = length (codeBits h) \<Longrightarrow>
    c + length D \<le> 2 ^ n \<Longrightarrow> n \<le> 15 \<Longrightarrow>
    \<exists>h'. foldO (assign_node n) D (c, h) = Ok (c + length D, h') \<and> others_same (literal ` set D) h h' \<and> assigned n c D h'"
proof (induction D arbitrary: c h)
  case Nil
  then show ?case by (simp add: others_same_def assigned_def)
next
  case (Cons nd D)
  let ?i = "literal nd"
  let ?h = "h\<lparr>codeBits := (codeBits h)[?i := n], codeVal := (codeVal h)[?i := revbits n c]\<rparr>"
  have c: "c < 2 ^ n" using Cons.prems(4) by simp
  have "(2 :: nat) ^ n \<le> 2 ^ 15" using Cons.prems(5) by (intro power_increasing) simp_all
  then have "(c + 1) mod 2 ^ 16 = c + 1" using c by simp
  then have step: "assign_node n nd (c, h) = Ok (c + 1, ?h)"
    using Cons.prems reverseBits16_run [OF c] by (simp add: assign_node_def)
  obtain h' where h': "foldO (assign_node n) D (c + 1, ?h) = Ok (c + 1 + length D, h')"
      "others_same (literal ` set D) ?h h'" "assigned n (c + 1) D h'"
    using Cons.IH [of ?h "c + 1"] Cons.prems by auto
  have o1: "others_same {?i} h ?h" by (simp add: others_same_def)
  have "others_same (literal ` set (nd # D)) h h'" using others_same_trans [OF o1 h'(2)] by simp
  moreover have "assigned n c (nd # D) h'"
    unfolding assigned_def
  proof (intro allI impI)
    fix p assume p: "p < length (nd # D)"
    show "codeBits h' ! literal ((nd # D) ! p) = n \<and> codeVal h' ! literal ((nd # D) ! p) = revbits n (c + p)"
    proof (cases p)
      case 0
      with h'(2) Cons.prems show ?thesis by (auto simp: others_same_def)
    next
      case (Suc q)
      with h'(3) p show ?thesis by (simp add: assigned_def)
    qed
  qed
  ultimately show ?case using step h'(1) by (simp add: add.assoc)
qed

section \<open>All lengths\<close>

text \<open>The nodes of each length in the order of their codes, and the first code of each length.\<close>

fun chunks_of :: "int list \<Rightarrow> literalNode list \<Rightarrow> literalNode list list" where
  "chunks_of [] list = []"
| "chunks_of (b # bs) list =
     (let k = length list - nat b in sortByLiteral (drop k list) # chunks_of bs (take k list))"

fun starts_of :: "int list \<Rightarrow> nat \<Rightarrow> nat list" where
  "starts_of [] c = []"
| "starts_of (b # bs) c = 2 * c # starts_of bs (2 * c + nat b)"

lemma length_chunks [simp]: "length (chunks_of bs list) = length bs"
  by (induction bs arbitrary: list) (simp_all add: Let_def)

lemma length_starts [simp]: "length (starts_of bs c) = length bs"
  by (induction bs arbitrary: c) simp_all

lemma mset_chunks:
  "list_all (\<lambda>b. 0 \<le> b) bs \<Longrightarrow> sum_list bs = int (length list) \<Longrightarrow> mset (concat (chunks_of bs list)) = mset list"
proof (induction bs arbitrary: list)
  case (Cons b bs)
  let ?k = "length list - nat b"
  have "0 \<le> sum_list bs" using Cons.prems(1) by (intro sum_list_nonneg) (auto simp: list_all_iff)
  then have b: "nat b \<le> length list" "0 \<le> b" using Cons.prems by auto
  then have "sum_list bs = int (length (take ?k list))" using Cons.prems(2) by simp
  with Cons have "mset (concat (chunks_of bs (take ?k list))) = mset (take ?k list)" by simp
  moreover have "mset (drop ?k list) + mset (take ?k list) = mset list"
    by (metis append_take_drop_id mset_append union_commute)
  ultimately show ?case by (simp add: Let_def sortByLiteral_def)
qed simp

lemma chunk_length:
  "list_all (\<lambda>b. 0 \<le> b) bs \<Longrightarrow> sum_list bs = int (length list) \<Longrightarrow> k < length bs \<Longrightarrow> length (chunks_of bs list ! k) = nat (bs ! k)"
proof (induction bs arbitrary: list k)
  case (Cons b bs)
  have "0 \<le> sum_list bs" using Cons.prems(1) by (intro sum_list_nonneg) (auto simp: list_all_iff)
  then have b: "nat b \<le> length list" "0 \<le> b" using Cons.prems by auto
  then have "sum_list bs = int (length (take (length list - nat b) list))" using Cons.prems(2) by simp
  with Cons b show ?case by (cases k) (auto simp: Let_def sortByLiteral_def)
qed simp

lemma chunk_sorted: "k < length bs \<Longrightarrow> sorted (map literal (chunks_of bs list ! k))"
proof (induction bs arbitrary: list k)
  case (Cons b bs)
  then show ?case by (cases k) (auto simp: Let_def sortByLiteral_def)
qed simp

lemma take_sum:
  assumes "list_all (\<lambda>b. 0 \<le> b) (b # bs)" and "sum_list (b # bs) = int (length list)"
  shows "0 \<le> b" "nat b \<le> length list" "list_all (\<lambda>b. 0 \<le> b) bs" "sum_list bs = int (length (take (length list - nat b) list))"
proof -
  have "0 \<le> sum_list bs" using assms(1) by (intro sum_list_nonneg) (auto simp: list_all_iff)
  with assms show "0 \<le> b" "nat b \<le> length list" "list_all (\<lambda>b. 0 \<le> b) bs"
    "sum_list bs = int (length (take (length list - nat b) list))" by auto
qed

lemma set_chunks:
  assumes "list_all (\<lambda>b. 0 \<le> b) bs" and "sum_list bs = int (length list)" and "k < length bs"
  shows "set (chunks_of bs list ! k) \<subseteq> set list"
proof -
  have "set (chunks_of bs list ! k) \<subseteq> set (concat (chunks_of bs list))" using assms(3) by (fastforce simp: in_set_conv_nth)
  also have "\<dots> = set list" using mset_chunks [OF assms(1,2)] by (metis set_mset_mset)
  finally show ?thesis .
qed

text \<open>The room for the codes of each length.\<close>

definition roomy :: "nat \<Rightarrow> int list \<Rightarrow> nat \<Rightarrow> bool" where
  "roomy n bs c \<longleftrightarrow> (\<forall>k < length bs. starts_of bs c ! k + nat (bs ! k) \<le> 2 ^ (n + k))"

lemma roomy_Cons: "roomy n (b # bs) c \<longleftrightarrow> 2 * c + nat b \<le> 2 ^ n \<and> roomy (n + 1) bs (2 * c + nat b)"
proof
  assume r: "roomy n (b # bs) c"
  show "2 * c + nat b \<le> 2 ^ n \<and> roomy (n + 1) bs (2 * c + nat b)"
    using spec [OF r [unfolded roomy_def], of 0] spec [OF r [unfolded roomy_def], of "Suc k" for k]
    by (auto simp: roomy_def)
next
  assume r: "2 * c + nat b \<le> 2 ^ n \<and> roomy (n + 1) bs (2 * c + nat b)"
  show "roomy n (b # bs) c"
    unfolding roomy_def
  proof (intro allI impI)
    fix k assume "k < length (b # bs)"
    with r show "starts_of (b # bs) c ! k + nat ((b # bs) ! k) \<le> 2 ^ (n + k)"
      by (cases k) (auto simp: roomy_def)
  qed
qed

lemma assign_run:
  "list_all (\<lambda>b. 0 \<le> b) bs \<Longrightarrow> sum_list bs = int (length list) \<Longrightarrow> distinct (map literal list) \<Longrightarrow>
    \<forall>nd \<in> set list. literal nd < length (codeBits h) \<Longrightarrow> length (codeVal h) = length (codeBits h) \<Longrightarrow>
    roomy n bs c \<Longrightarrow> n + length bs \<le> 16 \<Longrightarrow> n = 0 \<longrightarrow> bs = [] \<or> bs ! 0 = 0 \<Longrightarrow>
    \<exists>h'. assignEncodingAndSize n bs list c h = Ok h' \<and> others_same (literal ` set list) h h' \<and>
      (\<forall>k < length bs. assigned (n + k) (starts_of bs c ! k) (chunks_of bs list ! k) h')"
proof (induction bs arbitrary: n list c h)
  case Nil
  then show ?case by (simp add: others_same_def)
next
  case (Cons b bs)
  note s = take_sum [OF Cons.prems(1,2)]
  let ?k = "length list - nat b" and ?c = "2 * c + nat b"
  let ?D = "sortByLiteral (drop ?k list)"
  have room: "?c \<le> 2 ^ n" "roomy (n + 1) bs ?c" using Cons.prems(6) by (simp_all add: roomy_Cons)
  have n: "n \<le> 15" using Cons.prems(7) by simp
  then have "(2 :: nat) ^ n \<le> 2 ^ 15" by (intro power_increasing) simp_all
  then have c: "c * 2 mod 2 ^ 16 = 2 * c" using room(1) by simp
  have lD: "length ?D = nat b" using s(2) by (simp add: sortByLiteral_def)
  have split: "set list = set ?D \<union> set (take ?k list)"
    by (metis append_take_drop_id set_append set_sort sortByLiteral_def sup_commute)
  have dis: "distinct (map literal (take ?k list))" "distinct (map literal ?D)"
    "literal ` set ?D \<inter> literal ` set (take ?k list) = {}"
  proof -
    have "distinct (map literal (take ?k list @ drop ?k list))" using Cons.prems(3) by simp
    then show "distinct (map literal (take ?k list))" "distinct (map literal ?D)"
      "literal ` set ?D \<inter> literal ` set (take ?k list) = {}"
      unfolding map_append distinct_append by (auto simp: sortByLiteral_def distinct_map)
  qed
  obtain h1 where h1: "foldO (assign_node n) ?D (2 * c, h) = Ok (?c, h1)" "others_same (literal ` set ?D) h h1"
      "assigned n (2 * c) ?D h1"
    using assign_chunk_run [of ?D h "2 * c" n] dis(2) Cons.prems(4,5) split room(1) n lD by auto
  have len: "length (codeBits h1) = length (codeBits h)" "length (codeVal h1) = length (codeBits h1)"
    using h1(2) Cons.prems(5) by (simp_all add: others_same_def)
  have "\<exists>h'. assignEncodingAndSize (n + 1) bs (take ?k list) ?c h1 = Ok h' \<and> others_same (literal ` set (take ?k list)) h1 h' \<and>
      (\<forall>k < length bs. assigned (n + 1 + k) (starts_of bs ?c ! k) (chunks_of bs (take ?k list) ! k) h')"
    by (rule Cons.IH [OF s(3,4) dis(1) _ len(2) room(2)]) (use Cons.prems split len in auto)
  then obtain h' where h': "assignEncodingAndSize (n + 1) bs (take ?k list) ?c h1 = Ok h'"
      "others_same (literal ` set (take ?k list)) h1 h'"
      "\<forall>k < length bs. assigned (n + 1 + k) (starts_of bs ?c ! k) (chunks_of bs (take ?k list) ! k) h'" by blast
  have run: "assignEncodingAndSize n (b # bs) list c h = Ok h'"
  proof (cases "n = 0 \<or> b = 0")
    case True
    then have b: "b = 0" using Cons.prems(8) by auto
    with h1(1) have "h1 = h" by (simp add: sortByLiteral_def)
    with True b h'(1) c show ?thesis by simp
  next
    case False
    then show ?thesis using h1(1) h'(1) c s(1,2) by (simp add: Let_def)
  qed
  have "others_same (literal ` set list) h h'"
    using others_same_trans [OF h1(2) h'(2)] split by (simp add: image_Un)
  moreover have "assigned n (2 * c) ?D h'" using assigned_others [OF h1(3) h'(2)] dis(3) by blast
  then have "assigned (n + k) (starts_of (b # bs) c ! k) (chunks_of (b # bs) list ! k) h'" if "k < length (b # bs)" for k
    using that h'(3) by (cases k) (auto simp: Let_def)
  ultimately show ?case using run by blast
qed

section \<open>The codes are the canonical ones\<close>

lemma starts_0: "bs \<noteq> [] \<Longrightarrow> starts_of bs c ! 0 = 2 * c"
  by (cases bs) simp_all

lemma starts_Suc: "Suc k < length bs \<Longrightarrow> starts_of bs c ! Suc k = 2 * (starts_of bs c ! k + nat (bs ! k))"
proof (induction bs arbitrary: c k)
  case (Cons b bs)
  show ?case
  proof (cases k)
    case 0
    with Cons.prems show ?thesis by (cases bs) simp_all
  next
    case (Suc j)
    with Cons show ?thesis by simp
  qed
qed simp

lemma starts_sum:
  assumes "length bs = m + 1" and "list_all (\<lambda>b. 0 \<le> b) bs"
  shows "k \<le> m \<Longrightarrow> int (starts_of bs 0 ! k) * 2 ^ (m - k) = (\<Sum>j < k. bs ! j * 2 ^ (m - j))"
proof (induction k)
  case 0
  have "bs \<noteq> []" using assms(1) by auto
  then show ?case by (simp add: starts_0)
next
  case (Suc k)
  have p: "0 \<le> bs ! k" using assms Suc.prems by (simp add: list_all_length)
  have e: "(2 :: int) ^ (m - k) = 2 * 2 ^ (m - Suc k)" using Suc.prems by (simp flip: power_Suc add: Suc_diff_Suc)
  have "int (starts_of bs 0 ! Suc k) * 2 ^ (m - Suc k) = int (starts_of bs 0 ! k) * 2 ^ (m - k) + bs ! k * 2 ^ (m - k)"
    using starts_Suc [of k bs 0] assms(1) Suc.prems p by (simp add: e algebra_simps)
  with Suc show ?case by simp
qed

lemma complete_roomy:
  assumes "complete_counts bs m n"
  shows "roomy 0 bs 0" and "starts_of bs 0 ! m + nat (bs ! m) = 2 ^ m"
proof -
  have len: "length bs = m + 1" and pos: "list_all (\<lambda>b. 0 \<le> b) bs" and z: "bs ! 0 = 0"
    and sum: "(\<Sum>b = 1..m. bs ! b * 2 ^ (m - b)) = 2 ^ m" using assms by (simp_all add: complete_counts_def)
  have p: "0 \<le> bs ! j" if "j \<le> m" for j using pos len that by (simp add: list_all_length)
  have split: "{..<Suc m} = insert 0 {1..m}" by auto
  have total: "(\<Sum>j < Suc m. bs ! j * 2 ^ (m - j)) = 2 ^ m" unfolding split using sum z by simp
  have upto: "(int (starts_of bs 0 ! k) + bs ! k) * 2 ^ (m - k) = (\<Sum>j < Suc k. bs ! j * 2 ^ (m - j))" if "k \<le> m" for k
    using starts_sum [OF len pos that] by (simp add: distrib_right)
  show "roomy 0 bs 0"
    unfolding roomy_def
  proof (intro allI impI)
    fix k assume "k < length bs"
    then have k: "k \<le> m" using len by simp
    have "(\<Sum>j < Suc k. bs ! j * 2 ^ (m - j)) \<le> (\<Sum>j < Suc m. bs ! j * 2 ^ (m - j))"
      by (rule sum_mono2) (use k p in auto)
    with upto [OF k] total have "(int (starts_of bs 0 ! k) + bs ! k) * 2 ^ (m - k) \<le> 2 ^ k * 2 ^ (m - k)"
      using k by (simp flip: power_add)
    then have "int (starts_of bs 0 ! k) + bs ! k \<le> 2 ^ k" by simp
    then have "int (starts_of bs 0 ! k + nat (bs ! k)) \<le> int (2 ^ k)" using p [OF k] by simp
    then show "starts_of bs 0 ! k + nat (bs ! k) \<le> 2 ^ (0 + k)" by (simp only: of_nat_le_iff add_0)
  qed
  have "int (starts_of bs 0 ! m) + bs ! m = 2 ^ m" using upto [of m] total by simp
  then have "int (starts_of bs 0 ! m + nat (bs ! m)) = int (2 ^ m)" using p [of m] by simp
  then show "starts_of bs 0 ! m + nat (bs ! m) = 2 ^ m" by (simp only: of_nat_eq_iff)
qed

definition encodes :: "nat list \<Rightarrow> huffmanEncoder \<Rightarrow> bool" where
  "encodes lens h \<longleftrightarrow> codeBits h = lens \<and> length (codeVal h) = length lens \<and>
     (\<forall>i. is_sym lens i \<longrightarrow> codeVal h ! i = revbits (lens ! i) (sym_code lens i))"

text \<open>What is left after \<open>assignEncodingAndSize\<close>: every length has its chunk of the nodes.\<close>

definition all_assigned :: "int list \<Rightarrow> nat \<Rightarrow> literalNode list \<Rightarrow> huffmanEncoder \<Rightarrow> bool" where
  "all_assigned bs m list h \<longleftrightarrow> complete_counts bs m (length list) \<and> m \<le> 15 \<and> distinct (map literal list) \<and>
     length (codeVal h) = length (codeBits h) \<and> (\<forall>nd \<in> set list. literal nd < length (codeBits h)) \<and>
     (\<forall>k \<le> m. assigned k (starts_of bs 0 ! k) (chunks_of bs list ! k) h) \<and>
     (\<forall>i < length (codeBits h). i \<notin> literal ` set list \<longrightarrow> codeBits h ! i = 0)"

lemma chunk_distinct:
  assumes "complete_counts bs m (length list)" and "distinct (map literal list)" and "k \<le> m"
  shows "distinct (map literal (chunks_of bs list ! k))" "sorted (map literal (chunks_of bs list ! k))"
    "length (chunks_of bs list ! k) = nat (bs ! k)"
proof -
  have bs: "length bs = m + 1" "list_all (\<lambda>b. 0 \<le> b) bs" "sum_list bs = int (length list)"
    using assms(1) by (simp_all add: complete_counts_def)
  have k: "k < length bs" using assms(3) bs(1) by simp
  show "length (chunks_of bs list ! k) = nat (bs ! k)" by (rule chunk_length [OF bs(2,3) k])
  show "sorted (map literal (chunks_of bs list ! k))" by (rule chunk_sorted [OF k])
  have "mset (map literal (concat (chunks_of bs list))) = mset (map literal list)"
    using mset_chunks [OF bs(2,3)] by (simp only: mset_map)
  then have "distinct (map literal (concat (chunks_of bs list)))" using assms(2) mset_eq_imp_distinct_iff by blast
  moreover have "chunks_of bs list ! k \<in> set (chunks_of bs list)" using k by simp
  ultimately show "distinct (map literal (chunks_of bs list ! k))"
    unfolding map_concat by (auto simp: distinct_concat_iff)
qed

lemma in_chunk:
  assumes "complete_counts bs m (length list)" and "nd \<in> set list"
  obtains j where "j \<le> m" and "nd \<in> set (chunks_of bs list ! j)"
proof -
  have bs: "length bs = m + 1" "list_all (\<lambda>b. 0 \<le> b) bs" "sum_list bs = int (length list)"
    using assms(1) by (simp_all add: complete_counts_def)
  have "set list = set (concat (chunks_of bs list))" using mset_chunks [OF bs(2,3)] by (metis set_mset_mset)
  with assms(2) obtain c where c: "c \<in> set (chunks_of bs list)" "nd \<in> set c" by auto
  from c(1) obtain j where "j < length bs" "chunks_of bs list ! j = c" unfolding in_set_conv_nth length_chunks by blast
  with c(2) bs(1) that [of j] show thesis by simp
qed

lemma length_symbols:
  assumes "all_assigned bs m list h" and "1 \<le> k" and "k \<le> m"
  shows "{i. i < length (codeBits h) \<and> codeBits h ! i = k} = literal ` set (chunks_of bs list ! k)"
proof -
  have c: "complete_counts bs m (length list)" using assms(1) by (simp add: all_assigned_def)
  have bs: "length bs = m + 1" "list_all (\<lambda>b. 0 \<le> b) bs" "sum_list bs = int (length list)"
    using c by (simp_all add: complete_counts_def)
  have at: "codeBits h ! literal nd = j" if "nd \<in> set (chunks_of bs list ! j)" "j \<le> m" for nd j
    using assms(1) that unfolding all_assigned_def assigned_def by (metis in_set_conv_nth)
  show ?thesis
  proof (intro set_eqI iffI)
    fix i assume i: "i \<in> {i. i < length (codeBits h) \<and> codeBits h ! i = k}"
    with assms(1,2) have "i \<in> literal ` set list" unfolding all_assigned_def by fastforce
    then obtain nd j where nd: "i = literal nd" "j \<le> m" "nd \<in> set (chunks_of bs list ! j)"
      using in_chunk [OF c] by blast
    with at [of nd j] i have "j = k" by simp
    with nd show "i \<in> literal ` set (chunks_of bs list ! k)" by blast
  next
    fix i assume "i \<in> literal ` set (chunks_of bs list ! k)"
    then obtain nd where nd: "i = literal nd" "nd \<in> set (chunks_of bs list ! k)" by blast
    have "nd \<in> set list" using set_chunks [OF bs(2,3), of k] nd(2) assms(3) bs(1) by auto
    with nd at [of nd k] assms show "i \<in> {i. i < length (codeBits h) \<and> codeBits h ! i = k}"
      by (simp add: all_assigned_def)
  qed
qed

lemma ncount_card: "0 < k \<Longrightarrow> ncount lens k = card {i. i < length lens \<and> lens ! i = k}"
  by (simp add: ncount_def length_filter_conv_card)

lemma assigned_ncount:
  assumes "all_assigned bs m list h"
  shows "k \<le> m \<Longrightarrow> ncount (codeBits h) k = nat (bs ! k)" and "m < k \<Longrightarrow> ncount (codeBits h) k = 0"
proof -
  have c: "complete_counts bs m (length list)" and d: "distinct (map literal list)"
    using assms by (simp_all add: all_assigned_def)
  show "ncount (codeBits h) k = nat (bs ! k)" if k: "k \<le> m"
  proof (cases "k = 0")
    case True
    with c show ?thesis by (simp add: ncount_def complete_counts_def)
  next
    case False
    then have "ncount (codeBits h) k = card (literal ` set (chunks_of bs list ! k))"
      using ncount_card [of k] length_symbols [OF assms _ k] by simp
    also have "\<dots> = length (chunks_of bs list ! k)"
      using chunk_distinct(1) [OF c d k] distinct_card by fastforce
    finally show ?thesis using chunk_distinct(3) [OF c d k] by simp
  qed
  show "ncount (codeBits h) k = 0" if k: "m < k"
  proof -
    have "codeBits h ! i \<noteq> k" if i: "i < length (codeBits h)" for i
    proof
      assume e: "codeBits h ! i = k"
      with assms i k have "i \<in> literal ` set list" unfolding all_assigned_def by fastforce
      then obtain nd j where nd: "i = literal nd" "j \<le> m" "nd \<in> set (chunks_of bs list ! j)"
        using in_chunk [OF c] by blast
      then obtain p where "p < length (chunks_of bs list ! j)" "chunks_of bs list ! j ! p = nd" by (auto simp: in_set_conv_nth)
      with assms nd have "codeBits h ! i = j" unfolding all_assigned_def assigned_def by fastforce
      with e k nd(2) show False by simp
    qed
    then show ?thesis using k by (simp add: ncount_card)
  qed
qed

lemma assigned_first_code: "all_assigned bs m list h \<Longrightarrow> k \<le> m \<Longrightarrow> first_code (codeBits h) k = starts_of bs 0 ! k"
proof (induction k)
  case 0
  then have "bs \<noteq> []" by (auto simp: all_assigned_def complete_counts_def)
  then show ?case by (simp add: starts_0)
next
  case (Suc k)
  then have "Suc k < length bs" by (simp add: all_assigned_def complete_counts_def)
  with Suc assigned_ncount(1) [OF Suc.prems(1), of k] show ?case by (simp add: starts_Suc)
qed

lemma card_below:
  fixes xs :: "nat list"
  assumes "sorted xs" and "distinct xs" and "p < length xs"
  shows "card {x \<in> set xs. x < xs ! p} = p"
proof -
  have "{x \<in> set xs. x < xs ! p} = (!) xs ` {..<p}"
  proof (intro set_eqI iffI)
    fix x assume "x \<in> {x \<in> set xs. x < xs ! p}"
    then obtain q where q: "q < length xs" "x = xs ! q" "xs ! q < xs ! p" by (auto simp: in_set_conv_nth)
    have "q < p"
    proof (rule ccontr)
      assume "\<not> q < p"
      then have "xs ! p \<le> xs ! q" using assms(1) q(1) by (intro sorted_nth_mono) simp_all
      with q(3) show False by simp
    qed
    with q(2) show "x \<in> (!) xs ` {..<p}" by blast
  next
    fix x assume "x \<in> (!) xs ` {..<p}"
    then obtain q where q: "q < p" "x = xs ! q" by blast
    then have "xs ! q \<le> xs ! p" using assms by (intro sorted_nth_mono) simp_all
    moreover have "xs ! q \<noteq> xs ! p" using assms(2,3) q(1) by (simp add: nth_eq_iff_index_eq)
    ultimately show "x \<in> {x \<in> set xs. x < xs ! p}" using q assms(3) by simp
  qed
  moreover have "inj_on ((!) xs) {..<p}" using assms(2,3) by (auto simp: inj_on_def nth_eq_iff_index_eq)
  ultimately show ?thesis by (simp add: card_image)
qed

lemma assigned_encodes:
  assumes "all_assigned bs m list h"
  shows "encodes (codeBits h) h"
proof -
  let ?lens = "codeBits h"
  have c: "complete_counts bs m (length list)" and d: "distinct (map literal list)" and cv: "length (codeVal h) = length ?lens"
    using assms by (simp_all add: all_assigned_def)
  have "codeVal h ! i = revbits (?lens ! i) (sym_code ?lens i)" if i: "is_sym ?lens i" for i
  proof -
    let ?k = "?lens ! i"
    have il: "i < length ?lens" "1 \<le> ?k" using i by (auto simp: is_sym_def)
    have km: "?k \<le> m"
    proof (rule ccontr)
      assume "\<not> ?k \<le> m"
      then have "ncount ?lens ?k = 0" using assigned_ncount(2) [OF assms] by simp
      with rank_less [OF i] show False by simp
    qed
    let ?D = "chunks_of bs list ! ?k"
    note dk = chunk_distinct [OF c d km]
    have "i \<in> literal ` set ?D" using length_symbols [OF assms il(2) km] il(1) by blast
    then obtain p where p: "p < length ?D" "i = literal (?D ! p)" by (auto simp: in_set_conv_nth)
    have "assigned ?k (starts_of bs 0 ! ?k) ?D h" using assms km by (simp add: all_assigned_def)
    then have "codeVal h ! literal (?D ! p) = revbits ?k (starts_of bs 0 ! ?k + p)" using p(1) unfolding assigned_def by blast
    then have val: "codeVal h ! i = revbits ?k (starts_of bs 0 ! ?k + p)" by (simp only: p(2) [symmetric])
    have "rank ?lens i = card {j. j < i \<and> ?lens ! j = ?k}"
      unfolding rank_def length_filter_conv_card using il(1) by (intro arg_cong [where f = card]) auto
    also have "{j. j < i \<and> ?lens ! j = ?k} = {x \<in> literal ` set ?D. x < i}"
      using length_symbols [OF assms il(2) km] il(1) by auto
    also have "\<dots> = {x \<in> set (map literal ?D). x < map literal ?D ! p}" using p by simp
    also have "card \<dots> = p" using card_below [OF dk(2,1), of p] p(1) by simp
    finally show ?thesis using val assigned_first_code [OF assms km] by (simp add: sym_code_def)
  qed
  with cv show ?thesis by (simp add: encodes_def)
qed

lemma kraft_above:
  assumes "first_code lens m + ncount lens m \<le> 2 ^ m" and "\<And>k. m < k \<Longrightarrow> ncount lens k = 0"
  shows "m \<le> k \<Longrightarrow> first_code lens k + ncount lens k \<le> 2 ^ k"
proof (induction k rule: dec_induct)
  case base
  then show ?case using assms(1) .
next
  case (step k)
  then show ?case using assms(2) [of "Suc k"] by simp
qed

lemma assigned_codes_ok:
  assumes "all_assigned bs m list h" and "length list < 2048" and "list \<noteq> []"
  shows "codes_ok (codeBits h)" "list_all (\<lambda>n. n \<le> m) (codeBits h)"
proof -
  let ?lens = "codeBits h"
  have c: "complete_counts bs m (length list)" and m: "m \<le> 15" using assms(1) by (simp_all add: all_assigned_def)
  have "first_code ?lens m + ncount ?lens m = 2 ^ m"
    using assigned_first_code [OF assms(1), of m] assigned_ncount(1) [OF assms(1), of m] complete_roomy(2) [OF c] by simp
  then have "first_code ?lens 15 + ncount ?lens 15 \<le> 2 ^ 15"
    using kraft_above [of ?lens m 15] assigned_ncount(2) [OF assms(1)] m by simp
  then have k: "kraft ?lens" by (simp add: kraft_def)
  have le: "?lens ! i \<le> m" if i: "i < length ?lens" for i
  proof (rule ccontr)
    assume n: "\<not> ?lens ! i \<le> m"
    then have "card {j. j < length ?lens \<and> ?lens ! j = ?lens ! i} = 0"
      using assigned_ncount(2) [OF assms(1), of "?lens ! i"] ncount_card [of "?lens ! i" ?lens] by simp
    moreover have "finite {j. j < length ?lens \<and> ?lens ! j = ?lens ! i}" by simp
    ultimately show False using i by auto
  qed
  then show "list_all (\<lambda>n. n \<le> m) ?lens" by (simp add: list_all_length)
  with m have l16: "list_all (\<lambda>n. n < 16) ?lens" by (auto simp: list_all_iff)
  have "\<exists>j \<in> {1..m}. j \<le> 10 \<and> bs ! j \<noteq> 0"
  proof (rule ccontr)
    assume no: "\<not> (\<exists>j \<in> {1..m}. j \<le> 10 \<and> bs ! j \<noteq> 0)"
    have pos: "0 \<le> bs ! j" if "j \<le> m" for j using c that by (simp add: complete_counts_def list_all_length)
    have "(2 :: int) ^ m * 2048 = (\<Sum>j = 1..m. bs ! j * 2 ^ (m - j)) * 2 ^ 11" using c by (simp add: complete_counts_def)
    also have "\<dots> = (\<Sum>j = 1..m. bs ! j * (2 ^ (m - j) * 2 ^ 11))" by (simp add: sum_distrib_right mult.assoc)
    also have "\<dots> \<le> (\<Sum>j = 1..m. bs ! j * 2 ^ m)"
    proof (rule sum_mono)
      fix j assume j: "j \<in> {1..m}"
      show "bs ! j * (2 ^ (m - j) * 2 ^ 11) \<le> bs ! j * 2 ^ m"
      proof (cases "bs ! j = 0")
        case False
        with no j have "\<not> j \<le> 10" by blast
        then have "11 \<le> j" by simp
        then have "(2 :: int) ^ (m - j + 11) \<le> 2 ^ m" using j by (intro power_increasing) simp_all
        then show ?thesis using pos j by (intro mult_left_mono) (simp_all add: power_add)
      qed simp
    qed
    also have "\<dots> = (\<Sum>j = 1..m. bs ! j) * 2 ^ m" by (simp add: sum_distrib_right)
    also have "(\<Sum>j = 1..m. bs ! j) \<le> sum_list bs"
    proof -
      have "sum_list bs = (\<Sum>j < m + 1. bs ! j)" using c by (simp add: complete_counts_def sum_list_sum_nth atLeast0LessThan)
      also have "{..<m + 1} = insert 0 {1..m}" by auto
      finally show ?thesis using c by (simp add: complete_counts_def)
    qed
    then have "(\<Sum>j = 1..m. bs ! j) * 2 ^ m \<le> int (length list) * 2 ^ m" using c by (simp add: complete_counts_def)
    also have "int (length list) * 2 ^ m < 2048 * 2 ^ m" using assms(2) by simp
    finally show False by simp
  qed
  then obtain j where j: "1 \<le> j" "j \<le> m" "j \<le> 10" "bs ! j \<noteq> 0" by auto
  have "0 \<le> bs ! j" using c j(2) by (simp add: complete_counts_def list_all_length)
  with j(4) assigned_ncount(1) [OF assms(1) j(2)] have "ncount ?lens j \<noteq> 0" by simp
  then have "j \<in> set ?lens" by (auto simp: ncount_def filter_empty_conv split: if_splits)
  moreover have "j \<noteq> 0" using j(1) by simp
  ultimately have "list_ex (\<lambda>n. n \<noteq> 0) ?lens" unfolding list_ex_iff by blast
  moreover have "len_min ?lens \<le> 10" using len_min_le [of j ?lens] j(3) \<open>j \<in> set ?lens\<close> \<open>j \<noteq> 0\<close> by linarith
  ultimately show "codes_ok ?lens" using k l16 by (simp add: codes_ok_def)
qed

section \<open>From frequencies to codes\<close>

definition nodes_of :: "int list \<Rightarrow> literalNode list" where
  "nodes_of fs = map (\<lambda>i. \<lparr>literal = i, freq = fs ! i\<rparr>) (filter (\<lambda>i. fs ! i \<noteq> 0) [0..<length fs])"

lemma nodes_of_snoc:
  "nodes_of (fs @ [f]) = nodes_of fs @ (if f \<noteq> 0 then [\<lparr>literal = length fs, freq = f\<rparr>] else [])"
proof -
  have "filter (\<lambda>i. (fs @ [f]) ! i \<noteq> 0) [0..<length fs] = filter (\<lambda>i. fs ! i \<noteq> 0) [0..<length fs]"
    by (rule filter_cong) (auto simp: nth_append)
  moreover have "map (\<lambda>i. \<lparr>literal = i, freq = (fs @ [f]) ! i\<rparr>) (filter (\<lambda>i. fs ! i \<noteq> 0) [0..<length fs]) = nodes_of fs"
    unfolding nodes_of_def by (rule map_cong) (auto simp: nth_append)
  ultimately show ?thesis by (simp add: nodes_of_def nth_append)
qed

lemma nodes_of_literals: "map literal (nodes_of fs) = filter (\<lambda>i. fs ! i \<noteq> 0) [0..<length fs]"
  by (simp add: nodes_of_def comp_def)

lemma nodes_of_facts:
  "distinct (map literal (nodes_of fs))" "sorted (map literal (nodes_of fs))"
  "literal ` set (nodes_of fs) = {i. i < length fs \<and> fs ! i \<noteq> 0}" "length (nodes_of fs) \<le> length fs"
proof -
  show "distinct (map literal (nodes_of fs))" by (simp only: nodes_of_literals) simp
  show "sorted (map literal (nodes_of fs))" by (simp only: nodes_of_literals) (rule sorted_wrt_filter, simp)
  show "literal ` set (nodes_of fs) = {i. i < length fs \<and> fs ! i \<noteq> 0}" by (simp add: nodes_of_def image_image)
  show "length (nodes_of fs) \<le> length fs"
    unfolding nodes_of_def length_map by (rule order.trans [OF length_filter_le]) simp
qed

lemma foldO_append: "foldO f (xs @ ys) b = bindO (foldO f xs b) (foldO f ys)"
proof (induction xs arbitrary: b)
  case (Cons x xs)
  then show ?case by (cases "f x b") simp_all
qed simp

lemma collect_run:
  "length fs \<le> length (codeBits h) \<Longrightarrow> length fs \<le> 2 ^ 16 \<Longrightarrow>
    \<exists>h'. foldO collect (zip [0..<length fs] fs) ([], h) = Ok (nodes_of fs, h') \<and> codeVal h' = codeVal h \<and>
      length (codeBits h') = length (codeBits h) \<and> (\<forall>i < length fs. fs ! i = 0 \<longrightarrow> codeBits h' ! i = 0)"
proof (induction fs rule: rev_induct)
  case Nil
  then show ?case by (simp add: nodes_of_def)
next
  case (snoc f fs)
  then obtain h1 where h1: "foldO collect (zip [0..<length fs] fs) ([], h) = Ok (nodes_of fs, h1)" "codeVal h1 = codeVal h"
      "length (codeBits h1) = length (codeBits h)" "\<forall>i < length fs. fs ! i = 0 \<longrightarrow> codeBits h1 ! i = 0" by auto
  have z: "zip [0..<length (fs @ [f])] (fs @ [f]) = zip [0..<length fs] fs @ [(length fs, f)]" by simp
  show ?case
  proof (cases "f = 0")
    case True
    with h1 snoc.prems show ?thesis
      unfolding z foldO_append by (auto simp: collect_def nodes_of_snoc nth_append nth_list_update)
  next
    case False
    with h1 snoc.prems show ?thesis
      unfolding z foldO_append by (auto simp: collect_def nodes_of_snoc nth_append nth_list_update)
  qed
qed

text \<open>What \<open>generate\<close> promises.\<close>

definition code_for :: "int list \<Rightarrow> nat \<Rightarrow> huffmanEncoder \<Rightarrow> bool" where
  "code_for fs maxBits h \<longleftrightarrow> encodes (codeBits h) h \<and> length (codeBits h) = length fs \<and> codes_ok (codeBits h) \<and>
     list_all (\<lambda>n. n \<le> maxBits) (codeBits h) \<and> (\<forall>i < length fs. 0 < codeBits h ! i \<longleftrightarrow> fs ! i \<noteq> 0)"

lemma generate_small:
  assumes "length (codeBits h) = length fs" and "length (codeVal h) = length fs"
    and "\<forall>i < length fs. fs ! i = 0 \<longrightarrow> codeBits h ! i = 0"
    and "nodes_of fs \<noteq> []" and "length (nodes_of fs) \<le> 2" and "1 \<le> maxBits"
  shows "\<exists>h'. foldO assign_one (zip [0..<length (nodes_of fs)] (nodes_of fs)) h = Ok h' \<and> code_for fs maxBits h'"
proof -
  let ?ns = "nodes_of fs"
  note facts = nodes_of_facts [of fs]
  have lit: "literal nd < length fs" "fs ! literal nd \<noteq> 0" if "nd \<in> set ?ns" for nd using that facts(3) by auto
  have "\<exists>h'. foldO assign_one (zip [0..<length ?ns] ?ns) h = Ok h' \<and> others_same (literal ` set ?ns) h h' \<and> assigned 1 0 ?ns h'"
  proof -
    consider a where "?ns = [a]" | a b where "?ns = [a, b]" using assms(4,5) by (cases ?ns; cases "tl ?ns") auto
    then show ?thesis
    proof cases
      case 1
      with lit [of a] assms(1,2) show ?thesis
        by (auto simp: assign_one_def others_same_def assigned_def revbits_def)
    next
      case 2
      then have "literal a \<noteq> literal b" using facts(1) by simp
      with 2 lit [of a] lit [of b] assms(1,2) show ?thesis
        by (auto simp: assign_one_def others_same_def assigned_def revbits_def bit_0 upt_rec nth_list_update less_Suc_eq)
    qed
  qed
  then obtain h' where h': "foldO assign_one (zip [0..<length ?ns] ?ns) h = Ok h'" "others_same (literal ` set ?ns) h h'"
      "assigned 1 0 ?ns h'" by blast
  let ?lens = "codeBits h'"
  have len: "length ?lens = length fs" "length (codeVal h') = length fs" using h'(2) assms(1,2) by (simp_all add: others_same_def)
  have val: "?lens ! i = (if fs ! i \<noteq> 0 then 1 else 0)" if i: "i < length fs" for i
  proof (cases "fs ! i = 0")
    case True
    then have "i \<notin> literal ` set ?ns" using facts(3) by simp
    with True h'(2) assms(3) i show ?thesis by (simp add: others_same_def)
  next
    case False
    then have "i \<in> literal ` set ?ns" using facts(3) i by simp
    then obtain p where "p < length ?ns" "i = literal (?ns ! p)" by (auto simp: in_set_conv_nth)
    with h'(3) False show ?thesis by (simp add: assigned_def)
  qed
  have s1: "{i. i < length ?lens \<and> ?lens ! i = 1} = literal ` set ?ns" unfolding facts(3) len using val by auto
  have "ncount ?lens 1 = length ?ns"
    using ncount_card [of 1 ?lens] s1 distinct_card [OF facts(1)] by simp
  moreover have "ncount ?lens k = 0" if "1 < k" for k
  proof -
    have "{i. i < length ?lens \<and> ?lens ! i = k} = {}" using val len that by auto
    then show ?thesis using that by (simp add: ncount_card)
  qed
  ultimately have kr: "kraft ?lens"
    using kraft_above [of ?lens 1 15] assms(5) by (simp add: kraft_def ncount_def)
  have enc: "codeVal h' ! i = revbits (?lens ! i) (sym_code ?lens i)" if i: "is_sym ?lens i" for i
  proof -
    have il: "i < length ?lens" "?lens ! i = 1" using i val [of i] len by (auto simp: is_sym_def split: if_splits)
    then have "i \<in> literal ` set ?ns" using s1 by blast
    then obtain p where p: "p < length ?ns" "i = literal (?ns ! p)" by (auto simp: in_set_conv_nth)
    have "rank ?lens i = card {j. j < i \<and> ?lens ! j = 1}"
      unfolding rank_def length_filter_conv_card using il by (intro arg_cong [where f = card]) auto
    also have "{j. j < i \<and> ?lens ! j = 1} = {x \<in> literal ` set ?ns. x < i}" using s1 il(1) by auto
    also have "\<dots> = {x \<in> set (map literal ?ns). x < map literal ?ns ! p}" using p by simp
    also have "card \<dots> = p" using card_below [OF facts(2,1), of p] p(1) by simp
    finally have "sym_code ?lens i = p" using il by (simp add: sym_code_def ncount_def)
    with h'(3) p il show ?thesis by (simp add: assigned_def)
  qed
  from assms(4) obtain nd where nd: "nd \<in> set ?ns" by (cases ?ns) auto
  have one: "1 \<in> set ?lens" using lit [OF nd] val [of "literal nd"] len by (metis nth_mem)
  have "codes_ok ?lens"
    using kr one len_min_le [OF one] val len by (auto simp: codes_ok_def list_all_length list_ex_iff)
  moreover have "list_all (\<lambda>n. n \<le> maxBits) ?lens" using val len assms(6) by (simp add: list_all_length)
  ultimately have "code_for fs maxBits h'" using enc len val by (simp add: code_for_def encodes_def)
  with h'(1) show ?thesis by blast
qed

lemma generate_large:
  assumes "length (codeBits h) = length fs" and "length (codeVal h) = length fs"
    and "\<forall>i < length fs. fs ! i = 0 \<longrightarrow> codeBits h ! i = 0" and f: "\<forall>f \<in> set fs. 0 \<le> f \<and> f < 65536"
    and n: "3 \<le> length (nodes_of fs)" "length (nodes_of fs) \<le> 2 ^ maxBits" "length (nodes_of fs) < 2048" and l: "maxBits < 16"
  shows "\<exists>bc h'. bitCounts (sortByFreq (nodes_of fs)) maxBits = Ok bc \<and>
    assignEncodingAndSize 0 bc (sortByFreq (nodes_of fs)) 0 h = Ok h' \<and> code_for fs maxBits h'"
proof -
  let ?ns = "nodes_of fs" and ?l = "sortByFreq (nodes_of fs)"
  note facts = nodes_of_facts [of fs]
  have lset: "set ?l = set ?ns" and ll: "length ?l = length ?ns" by (simp_all add: sortByFreq_def)
  have dl: "distinct (map literal ?l)" using facts(1) by (simp add: sortByFreq_def distinct_map)
  have "sorted (map (\<lambda>nd. (freq nd, literal nd)) ?l)" by (simp add: sortByFreq_def)
  then have so: "(freq (?l ! i), literal (?l ! i)) \<le> (freq (?l ! j), literal (?l ! j))" if "i \<le> j" "j < length ?l" for i j
    using sorted_nth_mono [of "map (\<lambda>nd. (freq nd, literal nd)) ?l" i j] that by simp
  have "freq (?l ! i) \<le> freq (?l ! j)" if "i \<le> j" "j < length ?l" for i j
    using so [OF that] by (auto simp: less_eq_prod_def)
  then have "sorted (map freq ?l)" by (simp add: sorted_iff_nth_mono)
  moreover have "1 \<le> freq nd \<and> freq nd < 65536" if nd: "nd \<in> set ?l" for nd
  proof -
    have "nd \<in> set ?ns" using nd by (simp only: lset)
    then obtain i where i: "i < length fs" "fs ! i \<noteq> 0" "nd = \<lparr>literal = i, freq = fs ! i\<rparr>"
      by (auto simp: nodes_of_def)
    with f nth_mem [OF i(1)] have "0 \<le> fs ! i" "fs ! i < 65536" by auto
    with i show ?thesis by simp
  qed
  ultimately have "weights (map freq ?l)" and small: "\<forall>nd \<in> set ?l. freq nd < 65536"
    using n(1) ll by (auto simp: weights_def)
  from bitCounts_run [OF this(1) _ _ l this(2)] n ll obtain bc where
    bc: "bitCounts ?l maxBits = Ok bc" "complete_counts bc (min (length ?l - 1) maxBits) (length ?l)" by auto
  let ?m = "min (length ?l - 1) maxBits"
  have cc: "length bc = ?m + 1" "list_all (\<lambda>b. 0 \<le> b) bc" "sum_list bc = int (length ?l)" "bc ! 0 = 0"
    using bc(2) by (simp_all add: complete_counts_def)
  have lits: "literal ` set ?l = {i. i < length fs \<and> fs ! i \<noteq> 0}" using facts(3) lset by simp
  have lit: "\<forall>nd \<in> set ?l. literal nd < length (codeBits h)" using lits assms(1) by auto
  have "\<exists>h'. assignEncodingAndSize 0 bc ?l 0 h = Ok h' \<and> others_same (literal ` set ?l) h h' \<and>
      (\<forall>k < length bc. assigned (0 + k) (starts_of bc 0 ! k) (chunks_of bc ?l ! k) h')"
    by (rule assign_run [OF cc(2,3) dl lit _ complete_roomy(1) [OF bc(2)]]) (use cc l assms in auto)
  then obtain h' where h': "assignEncodingAndSize 0 bc ?l 0 h = Ok h'" "others_same (literal ` set ?l) h h'"
      "\<forall>k < length bc. assigned k (starts_of bc 0 ! k) (chunks_of bc ?l ! k) h'" by auto
  let ?lens = "codeBits h'"
  have len: "length ?lens = length fs" "length (codeVal h') = length fs" using h'(2) assms(1,2) by (simp_all add: others_same_def)
  have zero: "?lens ! i = 0" if "i < length ?lens" "i \<notin> literal ` set ?l" for i
    using that h'(2) assms(3) len lits by (auto simp: others_same_def)
  have all: "all_assigned bc ?m ?l h'"
    using bc(2) l dl len lit assms(1) h'(3) cc(1) zero unfolding all_assigned_def by auto
  have ne: "?l \<noteq> []" "length ?l < 2048" using n ll by auto
  note ok = assigned_codes_ok [OF all ne(2,1)]
  have nz: "0 < ?lens ! i \<longleftrightarrow> fs ! i \<noteq> 0" if i: "i < length fs" for i
  proof
    assume "fs ! i \<noteq> 0"
    then obtain nd where nd: "nd \<in> set ?l" "i = literal nd" using i lits by (metis (mono_tags, lifting) imageE mem_Collect_eq)
    from in_chunk [OF bc(2) nd(1)] obtain j where j: "j \<le> ?m" "nd \<in> set (chunks_of bc ?l ! j)" .
    then obtain p where p: "p < length (chunks_of bc ?l ! j)" "chunks_of bc ?l ! j ! p = nd" by (auto simp: in_set_conv_nth)
    have "assigned j (starts_of bc 0 ! j) (chunks_of bc ?l ! j) h'"
      using h'(3) less_Suc_eq_le [of j ?m] j(1) cc(1) by (simp only: Suc_eq_plus1)
    then have "?lens ! i = j" using p nd(2) by (auto simp: assigned_def)
    moreover have "j \<noteq> 0"
    proof
      assume "j = 0"
      with chunk_length [OF cc(2,3), of 0] cc(1,4) p(1) show False by simp
    qed
    ultimately show "0 < ?lens ! i" by simp
  next
    assume "0 < ?lens ! i"
    with zero [of i] i len lits show "fs ! i \<noteq> 0" by auto
  qed
  have "list_all (\<lambda>n. n \<le> maxBits) ?lens" using ok(2) by (auto simp: list_all_iff)
  then have "code_for fs maxBits h'"
    using assigned_encodes [OF all] len ok(1) nz by (simp add: code_for_def)
  with bc(1) h'(1) show ?thesis by blast
qed

lemma generate_run:
  assumes "length (codeBits h) = length fs" and "length (codeVal h) = length fs" and "length fs < 2048"
    and "\<forall>f \<in> set fs. 0 \<le> f \<and> f < 65536" and "\<exists>f \<in> set fs. f \<noteq> 0" and "length fs \<le> 2 ^ maxBits" and "0 < maxBits" and "maxBits < 16"
  shows "\<exists>h'. generate fs maxBits h = Ok h' \<and> code_for fs maxBits h'"
proof -
  have "length fs \<le> 2 ^ 16" using assms(3) by simp
  with collect_run [of fs h] assms(1) obtain h1 where h1: "foldO collect (zip [0..<length fs] fs) ([], h) = Ok (nodes_of fs, h1)"
      "codeVal h1 = codeVal h" "length (codeBits h1) = length fs" "\<forall>i < length fs. fs ! i = 0 \<longrightarrow> codeBits h1 ! i = 0"
    by auto
  have tk: "h1\<lparr>codeBits := take (length fs) (codeBits h1)\<rparr> = h1" using h1(3) by simp
  have cv: "length (codeVal h1) = length fs" using h1(2) assms(2) by simp
  note nl = nodes_of_facts(4) [of fs]
  show ?thesis
  proof (cases "length (nodes_of fs) \<le> 2")
    case True
    from assms(5) have "literal ` set (nodes_of fs) \<noteq> {}" unfolding nodes_of_facts(3) by (auto simp: in_set_conv_nth)
    then have "nodes_of fs \<noteq> []" by auto
    moreover have "1 \<le> maxBits" using assms(7) by simp
    ultimately show ?thesis
      using generate_small [OF h1(3) cv h1(4) _ True, of maxBits] h1(1,3) True by (auto simp: generate_def tk Let_def)
  next
    case False
    then have "3 \<le> length (nodes_of fs)" "length (nodes_of fs) \<le> 2 ^ maxBits" "length (nodes_of fs) < 2048"
      using nl assms(3,6) by linarith+
    from generate_large [OF h1(3) cv h1(4) assms(4) this assms(8)] h1(1,3) False show ?thesis
      by (auto simp: generate_def tk Let_def)
  qed
qed

section \<open>The fixed codes\<close>

text \<open>The first \<open>n\<close> symbols of \<open>lens\<close> are written with their codes.\<close>

definition writes_codes :: "nat list \<Rightarrow> nat \<Rightarrow> huffmanEncoder \<Rightarrow> bool" where
  "writes_codes lens n h \<longleftrightarrow> n \<le> length (codeBits h) \<and> n \<le> length (codeVal h) \<and> (\<forall>i < n. is_sym lens i \<longrightarrow>
     codeBits h ! i = lens ! i \<and> codeVal h ! i = revbits (lens ! i) (sym_code lens i))"

lemma encodes_writes: "encodes lens h \<Longrightarrow> writes_codes lens (length lens) h"
  by (simp add: encodes_def writes_codes_def)

lemma put_all:
  assumes "\<And>i. i < n \<Longrightarrow> rv i = Ok (r i)"
  shows "length cb = N \<Longrightarrow> length cv = N \<Longrightarrow> n \<le> N \<Longrightarrow>
    foldO (\<lambda>i h. bindO (put_go (codeBits h) i (sz i)) (\<lambda>cb. bindO (rv i) (\<lambda>r.
      bindO (put_go (codeVal h) i r) (\<lambda>cv. Ok \<lparr>codeBits = cb, codeVal = cv\<rparr>)))) [0..<n] \<lparr>codeBits = cb, codeVal = cv\<rparr>
    = Ok \<lparr>codeBits = map sz [0..<n] @ drop n cb, codeVal = map r [0..<n] @ drop n cv\<rparr>"
  using assms
proof (induction n)
  case (Suc n)
  have u: "(map f [0..<n] @ drop n xs)[n := f n] = map f [0..<n] @ f n # drop (Suc n) xs" if "n < length xs" for f and xs :: "nat list"
    using that by (simp add: list_update_append Cons_nth_drop_Suc [symmetric])
  show ?case using Suc by (simp add: foldO_append u)
qed simp

definition fixedLiteralEncoding :: huffmanEncoder where
  "fixedLiteralEncoding = (case generateFixedLiteralEncoding of Ok h \<Rightarrow> h | _ \<Rightarrow> newHuffmanEncoder 0)"

definition fixedOffsetEncoding :: huffmanEncoder where
  "fixedOffsetEncoding = (case generateFixedOffsetEncoding of Ok h \<Rightarrow> h | _ \<Rightarrow> newHuffmanEncoder 0)"

lemma fixed_literal_lens: "i < 286 \<Longrightarrow> fixed_literal i = (sym_code fixed_lens i, fixed_lens ! i)"
  by (simp add: fixed_literal_def fixed_nth fixed_sym_code)

lemma fixed_is_sym: "i < 286 \<Longrightarrow> is_sym fixed_lens i" "d < 32 \<Longrightarrow> is_sym fixed_dists d"
  by (auto simp: is_sym_def fixed_nth fixed_dists_def) (simp add: fixed_lens_def)

lemma fixedLiteral_run:
  "generateFixedLiteralEncoding = Ok \<lparr>codeBits = map (\<lambda>i. fixed_lens ! i) [0..<286],
    codeVal = map (\<lambda>i. revbits (fixed_lens ! i) (sym_code fixed_lens i)) [0..<286]\<rparr>"
proof -
  let ?sz = "\<lambda>i. snd (fixed_literal i)" and ?rv = "\<lambda>i. reverseBits16 (fst (fixed_literal i)) (snd (fixed_literal i))"
  let ?r = "\<lambda>i. revbits (fixed_lens ! i) (sym_code fixed_lens i)"
  have rv: "?rv i = Ok (?r i)" if "i < 286" for i
    using reverseBits16_run [OF sym_code_less [OF fixed_kraft fixed_is_sym(1) [OF that]]] that
    by (simp add: fixed_literal_lens fixed_nth)
  have "generateFixedLiteralEncoding = Ok \<lparr>codeBits = map ?sz [0..<286] @ drop 286 (replicate 286 0),
      codeVal = map ?r [0..<286] @ drop 286 (replicate 286 0)\<rparr>"
    unfolding generateFixedLiteralEncoding_def newHuffmanEncoder_def maxLit_def prod.case_eq_if
    by (rule put_all [where N = 286, OF rv]) simp_all
  moreover have "map ?sz [0..<286] = map (\<lambda>i. fixed_lens ! i) [0..<286]"
    by (rule map_cong) (simp_all add: fixed_literal_lens)
  ultimately show ?thesis by simp
qed

lemma fixedOffset_run:
  "generateFixedOffsetEncoding = Ok \<lparr>codeBits = map (\<lambda>i. 5) [0..<30], codeVal = map (revbits 5) [0..<30]\<rparr>"
proof -
  have rv: "reverseBits16 i 5 = Ok (revbits 5 i)" if "i < 30" for i
    by (rule reverseBits16_run) (use that in simp_all)
  have "generateFixedOffsetEncoding = Ok \<lparr>codeBits = map (\<lambda>i. 5) [0..<30] @ drop 30 (replicate 30 0),
      codeVal = map (revbits 5) [0..<30] @ drop 30 (replicate 30 0)\<rparr>"
    unfolding generateFixedOffsetEncoding_def newHuffmanEncoder_def by (rule put_all [where N = 30, OF rv]) simp_all
  then show ?thesis by simp
qed

lemma fixed_writes:
  "writes_codes fixed_lens 286 fixedLiteralEncoding" "writes_codes fixed_dists 30 fixedOffsetEncoding"
proof -
  show "writes_codes fixed_lens 286 fixedLiteralEncoding"
    by (simp add: writes_codes_def fixedLiteralEncoding_def fixedLiteral_run)
  have "fixed_dists ! i = 5 \<and> sym_code fixed_dists i = i" if "i < 30" for i
    using that by (simp add: fixed_dist_code) (simp add: fixed_dists_def)
  then show "writes_codes fixed_dists 30 fixedOffsetEncoding"
    by (simp add: writes_codes_def fixedOffsetEncoding_def fixedOffset_run)
qed

section \<open>The properties\<close>





end
