(* ===== verification/Token.thy ===== *)
theory Token
  imports InflateBlocks
begin

text \<open>
  The tokens of the compressor, \<^verbatim>\<open>flexflate/token.go\<close>: a literal or a match packed into 32 bits, and the codes of
  lengths and offsets. They are shown to name the items of a block as the inflator understands them.
\<close>

section \<open>Constants and tables\<close>

definition lengthShift :: nat where
  "lengthShift = 22"

definition offsetMask :: u32 where
  "offsetMask = 2 ^ 22 - 1"

definition typeMask :: u32 where
  "typeMask = push_bit 30 3"

definition literalType :: u32 where
  "literalType = 0"

definition matchType :: u32 where
  "matchType = push_bit 30 1"

definition minMatchLength :: nat where
  "minMatchLength = 3"

definition minOffsetSize :: nat where
  "minOffsetSize = 1"

definition lengthCodes :: "nat list" where
  "lengthCodes = [
     0, 1, 2, 3, 4, 5, 6, 7, 8, 8,
     9, 9, 10, 10, 11, 11, 12, 12, 12, 12,
     13, 13, 13, 13, 14, 14, 14, 14, 15, 15,
     15, 15, 16, 16, 16, 16, 16, 16, 16, 16,
     17, 17, 17, 17, 17, 17, 17, 17, 18, 18,
     18, 18, 18, 18, 18, 18, 19, 19, 19, 19,
     19, 19, 19, 19, 20, 20, 20, 20, 20, 20,
     20, 20, 20, 20, 20, 20, 20, 20, 20, 20,
     21, 21, 21, 21, 21, 21, 21, 21, 21, 21,
     21, 21, 21, 21, 21, 21, 22, 22, 22, 22,
     22, 22, 22, 22, 22, 22, 22, 22, 22, 22,
     22, 22, 23, 23, 23, 23, 23, 23, 23, 23,
     23, 23, 23, 23, 23, 23, 23, 23, 24, 24,
     24, 24, 24, 24, 24, 24, 24, 24, 24, 24,
     24, 24, 24, 24, 24, 24, 24, 24, 24, 24,
     24, 24, 24, 24, 24, 24, 24, 24, 24, 24,
     25, 25, 25, 25, 25, 25, 25, 25, 25, 25,
     25, 25, 25, 25, 25, 25, 25, 25, 25, 25,
     25, 25, 25, 25, 25, 25, 25, 25, 25, 25,
     25, 25, 26, 26, 26, 26, 26, 26, 26, 26,
     26, 26, 26, 26, 26, 26, 26, 26, 26, 26,
     26, 26, 26, 26, 26, 26, 26, 26, 26, 26,
     26, 26, 26, 26, 27, 27, 27, 27, 27, 27,
     27, 27, 27, 27, 27, 27, 27, 27, 27, 27,
     27, 27, 27, 27, 27, 27, 27, 27, 27, 27,
     27, 27, 27, 27, 27, 28]"

definition offsetCodes :: "nat list" where
  "offsetCodes = [
     0, 1, 2, 3, 4, 4, 5, 5, 6, 6, 6, 6, 7, 7, 7, 7,
     8, 8, 8, 8, 8, 8, 8, 8, 9, 9, 9, 9, 9, 9, 9, 9,
     10, 10, 10, 10, 10, 10, 10, 10, 10, 10, 10, 10, 10, 10, 10, 10,
     11, 11, 11, 11, 11, 11, 11, 11, 11, 11, 11, 11, 11, 11, 11, 11,
     12, 12, 12, 12, 12, 12, 12, 12, 12, 12, 12, 12, 12, 12, 12, 12,
     12, 12, 12, 12, 12, 12, 12, 12, 12, 12, 12, 12, 12, 12, 12, 12,
     13, 13, 13, 13, 13, 13, 13, 13, 13, 13, 13, 13, 13, 13, 13, 13,
     13, 13, 13, 13, 13, 13, 13, 13, 13, 13, 13, 13, 13, 13, 13, 13,
     14, 14, 14, 14, 14, 14, 14, 14, 14, 14, 14, 14, 14, 14, 14, 14,
     14, 14, 14, 14, 14, 14, 14, 14, 14, 14, 14, 14, 14, 14, 14, 14,
     14, 14, 14, 14, 14, 14, 14, 14, 14, 14, 14, 14, 14, 14, 14, 14,
     14, 14, 14, 14, 14, 14, 14, 14, 14, 14, 14, 14, 14, 14, 14, 14,
     15, 15, 15, 15, 15, 15, 15, 15, 15, 15, 15, 15, 15, 15, 15, 15,
     15, 15, 15, 15, 15, 15, 15, 15, 15, 15, 15, 15, 15, 15, 15, 15,
     15, 15, 15, 15, 15, 15, 15, 15, 15, 15, 15, 15, 15, 15, 15, 15,
     15, 15, 15, 15, 15, 15, 15, 15, 15, 15, 15, 15, 15, 15, 15, 15]"

text \<open>The extra bits and bases of \<^verbatim>\<open>flexflate/huffman_bit_writer.go\<close>; those of the offsets go on to the extended window.\<close>

definition lengthExtraBits :: "nat list" where
  "lengthExtraBits = [
     0, 0, 0,
     0, 0, 0, 0, 0, 1, 1, 1, 1, 2,
     2, 2, 2, 3, 3, 3, 3, 4, 4, 4,
     4, 5, 5, 5, 5, 0]"

definition lengthBase :: "nat list" where
  "lengthBase = [
     0, 1, 2, 3, 4, 5, 6, 7, 8, 10,
     12, 14, 16, 20, 24, 28, 32, 40, 48, 56,
     64, 80, 96, 112, 128, 160, 192, 224, 255]"

definition offsetExtraBits :: "nat list" where
  "offsetExtraBits = [
     0, 0, 0, 0, 1, 1, 2, 2, 3, 3,
     4, 4, 5, 5, 6, 6, 7, 7, 8, 8,
     9, 9, 10, 10, 11, 11, 12, 12, 13, 13,
     14, 14, 15, 15, 16, 16, 17, 17, 18, 18, 19, 19, 20, 20]"

definition offsetBase :: "nat list" where
  "offsetBase = [
     0x000000, 0x000001, 0x000002, 0x000003, 0x000004,
     0x000006, 0x000008, 0x00000c, 0x000010, 0x000018,
     0x000020, 0x000030, 0x000040, 0x000060, 0x000080,
     0x0000c0, 0x000100, 0x000180, 0x000200, 0x000300,
     0x000400, 0x000600, 0x000800, 0x000c00, 0x001000,
     0x001800, 0x002000, 0x003000, 0x004000, 0x006000,
     0x008000, 0x00c000, 0x010000, 0x018000, 0x020000,
     0x030000, 0x040000, 0x060000, 0x080000, 0x0c0000,
     0x100000, 0x180000, 0x200000, 0x300000]"

section \<open>Tokens\<close>

definition literalToken :: "u32 \<Rightarrow> u32" where
  "literalToken literal = literalType + literal"

definition matchToken :: "u32 \<Rightarrow> u32 \<Rightarrow> u32" where
  "matchToken xlength xoffset = matchType + push_bit lengthShift xlength + xoffset"

definition tok_typ :: "u32 \<Rightarrow> u32" where
  "tok_typ t = t AND typeMask"

definition tok_literal :: "u32 \<Rightarrow> nat" where
  "tok_literal t = unat (t - literalType)"

definition tok_offset :: "u32 \<Rightarrow> nat" where
  "tok_offset t = unat (t AND offsetMask)"

definition tok_length :: "u32 \<Rightarrow> nat" where
  "tok_length t = unat (drop_bit lengthShift (t - matchType))"

definition lengthCode :: "nat \<Rightarrow> nat outcome" where
  "lengthCode len = index_go lengthCodes len"

definition offsetCode :: "nat \<Rightarrow> nat outcome" where
  "offsetCode off =
     (if off < length offsetCodes then index_go offsetCodes off
      else if off div 2 ^ 7 < length offsetCodes
      then bindO (index_go offsetCodes (off div 2 ^ 7)) (\<lambda>c. Ok (c + 14))
      else bindO (index_go offsetCodes (off div 2 ^ 14)) (\<lambda>c. Ok (c + 28)))"

section \<open>What a token stands for\<close>

lemma match_differs [simp]: "matchType \<noteq> literalType" "literalType \<noteq> matchType"
  by (simp_all add: matchType_def literalType_def)

lemma matchToken_of_nat: "matchToken (of_nat xl) (of_nat xo) = of_nat (2 ^ 30 + xl * 2 ^ 22 + xo)"
  by (simp add: matchToken_def matchType_def lengthShift_def push_bit_eq_mult)

lemma typeMask_high: "t AND typeMask = push_bit 30 (drop_bit 30 t)"
proof (rule bit_word_eqI)
  fix n :: nat
  assume n: "n < LENGTH(32)"
  then have "n < 30 \<or> n = 30 \<or> n = 31" by auto
  moreover have "bit typeMask n \<longleftrightarrow> 30 \<le> n \<and> bit (3 :: u32) (n - 30)"
    unfolding typeMask_def bit_push_bit_iff using n by simp
  ultimately have "bit typeMask n \<longleftrightarrow> 30 \<le> n" by (elim disjE) simp_all
  with n show "bit (t AND typeMask) n \<longleftrightarrow> bit (push_bit 30 (drop_bit 30 t)) n"
    by (auto simp: bit_simps)
qed

lemma tok_literal_run:
  assumes "l < 2 ^ 30"
  shows "tok_typ (literalToken (of_nat l)) = literalType" and "tok_literal (literalToken (of_nat l)) = l"
proof -
  have u: "unat (of_nat l :: u32) = l" using assms by (simp add: unat_of_nat take_bit_nat_eq_self)
  have "drop_bit 30 (of_nat l :: u32) = 0"
    by (rule iffD2 [OF word_unat_eq_iff]) (use assms in \<open>simp add: unat_drop_bit_eq u drop_bit_eq_div [where 'a = nat]\<close>)
  then show "tok_typ (literalToken (of_nat l)) = literalType"
    by (simp add: tok_typ_def literalToken_def literalType_def typeMask_high)
  show "tok_literal (literalToken (of_nat l)) = l"
    using u by (simp add: tok_literal_def literalToken_def literalType_def)
qed

lemma tok_match_run:
  assumes "xl < 256" and "xo < 2 ^ 22"
  shows "tok_typ (matchToken (of_nat xl) (of_nat xo)) = matchType"
    and "tok_length (matchToken (of_nat xl) (of_nat xo)) = xl"
    and "tok_offset (matchToken (of_nat xl) (of_nat xo)) = xo"
proof -
  let ?t = "of_nat (2 ^ 30 + xl * 2 ^ 22 + xo) :: u32"
  have u: "unat ?t = 2 ^ 30 + xl * 2 ^ 22 + xo"
    using assms by (subst unat_of_nat) (simp add: take_bit_nat_eq_self)
  have q: "(2 ^ 30 + xl * 2 ^ 22 + xo) div 2 ^ 30 = 1" using assms by simp
  have "drop_bit 30 ?t = 1"
    by (rule iffD2 [OF word_unat_eq_iff]) (use q in \<open>simp only: unat_drop_bit_eq drop_bit_eq_div [where 'a = nat] unat_1 u\<close>)
  then show "tok_typ (matchToken (of_nat xl) (of_nat xo)) = matchType"
    unfolding matchToken_of_nat tok_typ_def typeMask_high matchType_def by simp
  have "?t - matchType = of_nat (xl * 2 ^ 22 + xo)" by (simp add: matchType_def)
  moreover have "unat (of_nat (xl * 2 ^ 22 + xo) :: u32) = xl * 2 ^ 22 + xo"
    using assms by (subst unat_of_nat) (simp add: take_bit_nat_eq_self)
  moreover have "(xl * 2 ^ 22 + xo) div 2 ^ 22 = xl" using assms(2) by simp
  ultimately show "tok_length (matchToken (of_nat xl) (of_nat xo)) = xl"
    unfolding matchToken_of_nat tok_length_def lengthShift_def by (simp only: unat_drop_bit_eq drop_bit_eq_div [where 'a = nat])
  have "?t AND offsetMask = take_bit 22 ?t" by (simp add: offsetMask_def take_bit_eq_mask mask_eq_exp_minus_1)
  then have "tok_offset (matchToken (of_nat xl) (of_nat xo)) = (2 ^ 30 + xl * 2 ^ 22 + xo) mod 2 ^ 22"
    unfolding matchToken_of_nat tok_offset_def by (simp only: unsigned_take_bit_eq take_bit_eq_mod [where 'a = nat] u)
  also have "2 ^ 30 + xl * 2 ^ 22 + xo = xo + (256 + xl) * 2 ^ 22" by simp
  also have "\<dots> mod 2 ^ 22 = xo" using assms(2) by (simp only: mod_mult_self1 mod_less)
  finally show "tok_offset (matchToken (of_nat xl) (of_nat xo)) = xo" .
qed

text \<open>The code of a length and its extra bits are those of RFC 1951, with lengths and offsets less their minimum.\<close>

definition code_of :: "nat list \<Rightarrow> nat list \<Rightarrow> (nat \<times> nat) list \<Rightarrow> nat \<Rightarrow> nat \<Rightarrow> nat \<Rightarrow> bool" where
  "code_of base extra table low x v \<longleftrightarrow> v < length table \<and> v < length base \<and> v < length extra \<and> base ! v \<le> x \<and>
     x - base ! v < 2 ^ (extra ! v) \<and> extra ! v = snd (table ! v) \<and> fst (table ! v) + (x - base ! v) = x + low"



text \<open>The tables of codes are stairs: code \<open>v\<close> as often as it has values of its extra bits.\<close>

lemma stairs_nth:
  assumes "x < sum k {..<m}"
  shows "\<exists>v < m. concat (map (\<lambda>v. replicate (k v) v) [0..<m]) ! x = v \<and> sum k {..<v} \<le> x \<and> x < sum k {..<v} + k v"
  using assms
proof (induction m)
  case (Suc m)
  let ?l = "concat (map (\<lambda>v. replicate (k v) v) [0..<m])"
  have len: "length ?l = sum k {..<m}" by (simp add: length_concat comp_def interv_sum_list_conv_sum_set_nat atLeast0LessThan)
  show ?case
  proof (cases "x < sum k {..<m}")
    case True
    from Suc.IH [OF True] obtain v where "v < m" "?l ! x = v" "sum k {..<v} \<le> x" "x < sum k {..<v} + k v" by blast
    with True len show ?thesis by (intro exI [of _ v]) (simp add: nth_append)
  next
    case False
    with Suc.prems len show ?thesis by (intro exI [of _ m]) (simp add: nth_append)
  qed
qed simp

lemma lengthCodes_stairs:
  "lengthCodes = concat (map (\<lambda>v. replicate (if v = 27 then 31 else 2 ^ (lengthExtraBits ! v)) v) [0..<29])"
  by (simp add: lengthCodes_def lengthExtraBits_def upt_rec numeral_eq_Suc)

lemma offsetCodes_stairs: "offsetCodes = concat (map (\<lambda>v. replicate (2 ^ (offsetExtraBits ! v)) v) [0..<16])"
  by (simp add: offsetCodes_def offsetExtraBits_def upt_rec numeral_eq_Suc)

lemma length_offsetCodes [simp]: "length offsetCodes = 256"
  by (simp add: offsetCodes_def)

lemma base_sum:
  assumes "list_all (\<lambda>v. (base :: nat list) ! (v + 1) = base ! v + k v) [0..<n]" and "base ! 0 = 0" and "v \<le> n"
  shows "sum k {..<v} = base ! v"
  using assms(3)
proof (induction v)
  case (Suc v)
  with list_all_uptD [OF assms(1), of v] show ?case by simp
qed (simp add: assms(2))

lemma lengthBase_sum: "v < 29 \<Longrightarrow> (\<Sum>u<v. if u = 27 then 31 else 2 ^ (lengthExtraBits ! u)) = lengthBase ! v"
  by (rule base_sum [where n = 28]) (simp_all add: lengthBase_def lengthExtraBits_def upt_rec)

lemma offsetBase_sum: "v < 30 \<Longrightarrow> (\<Sum>u<v. 2 ^ (offsetExtraBits ! u)) = offsetBase ! v"
  by (rule base_sum [where n = 29]) (simp_all add: offsetBase_def offsetExtraBits_def upt_rec)

lemma length_tables [simp]:
  "length lengthExtraBits = 29" "length lengthBase = 29" "length offsetExtraBits = 44" "length offsetBase = 44"
  "length len_table = 29" "length dist_table = 30" "length lengthCodes = 256"
  by (simp_all add: lengthExtraBits_def lengthBase_def offsetExtraBits_def offsetBase_def len_table_def dist_table_def
    lengthCodes_def)

lemma len_table_base: "v < 29 \<Longrightarrow> len_table ! v = (lengthBase ! v + minMatchLength, lengthExtraBits ! v)"
proof -
  have "list_all (\<lambda>v. len_table ! v = (lengthBase ! v + minMatchLength, lengthExtraBits ! v)) [0..<29]"
    by (simp add: lengthBase_def lengthExtraBits_def len_table_def minMatchLength_def upt_rec)
  from list_all_uptD [OF this, of v]
  show "v < 29 \<Longrightarrow> len_table ! v = (lengthBase ! v + minMatchLength, lengthExtraBits ! v)" by blast
qed

lemma dist_table_base: "v < 30 \<Longrightarrow> dist_table ! v = (offsetBase ! v + minOffsetSize, offsetExtraBits ! v)"
proof -
  have "list_all (\<lambda>v. dist_table ! v = (offsetBase ! v + minOffsetSize, offsetExtraBits ! v)) [0..<30]"
    by (simp add: offsetBase_def offsetExtraBits_def dist_table_def minOffsetSize_def upt_rec)
  from list_all_uptD [OF this, of v]
  show "v < 30 \<Longrightarrow> dist_table ! v = (offsetBase ! v + minOffsetSize, offsetExtraBits ! v)" by blast
qed

lemma lengthCode_run:
  assumes "xl < 256"
  shows "\<exists>v < 29. lengthCode xl = Ok v \<and> code_of lengthBase lengthExtraBits len_table minMatchLength xl v"
proof -
  let ?k = "\<lambda>v. if v = 27 then 31 else 2 ^ (lengthExtraBits ! v) :: nat"
  have "sum ?k {..<Suc 28} = sum ?k {..<28} + 1" unfolding sum.lessThan_Suc by (simp add: lengthExtraBits_def)
  also have "\<dots> = 256" using lengthBase_sum [of 28] by (simp add: lengthBase_def)
  finally have "xl < sum ?k {..<29}" using assms unfolding eval_nat_numeral(3) by simp
  from stairs_nth [OF this] obtain v where v: "v < 29" "lengthCodes ! xl = v" "sum ?k {..<v} \<le> xl"
      "xl < sum ?k {..<v} + ?k v" unfolding lengthCodes_stairs [symmetric] by blast
  have "?k v \<le> 2 ^ (lengthExtraBits ! v)" by (simp add: lengthExtraBits_def)
  with v lengthBase_sum [OF v(1)] have "lengthBase ! v \<le> xl" "xl - lengthBase ! v < 2 ^ (lengthExtraBits ! v)" by simp_all
  with v assms show ?thesis by (intro exI [of _ v]) (simp add: lengthCode_def code_of_def len_table_base)
qed

lemma offset_stairs:
  assumes "q < 256"
  shows "offsetCodes ! q < 16 \<and> offsetBase ! (offsetCodes ! q) \<le> q \<and>
    q < offsetBase ! (offsetCodes ! q) + 2 ^ (offsetExtraBits ! (offsetCodes ! q))"
proof -
  have "(\<Sum>v<16. 2 ^ (offsetExtraBits ! v)) = (256 :: nat)" using offsetBase_sum [of 16] by (simp add: offsetBase_def)
  with assms have "q < (\<Sum>v<16. 2 ^ (offsetExtraBits ! v))" by simp
  from stairs_nth [OF this] show ?thesis
    unfolding offsetCodes_stairs [symmetric] using offsetBase_sum by auto
qed

lemma offset_high: "2 \<le> c \<Longrightarrow> c < 16 \<Longrightarrow>
  offsetBase ! (c + 14) = offsetBase ! c * 2 ^ 7 \<and> offsetExtraBits ! (c + 14) = offsetExtraBits ! c + 7"
proof -
  have "list_all (\<lambda>c. offsetBase ! (c + 14) = offsetBase ! c * 2 ^ 7 \<and> offsetExtraBits ! (c + 14) = offsetExtraBits ! c + 7)
      [2..<16]"
    by (simp add: offsetBase_def offsetExtraBits_def upt_rec)
  from list_all_uptD [OF this, of c] show "2 \<le> c \<Longrightarrow> c < 16 \<Longrightarrow>
    offsetBase ! (c + 14) = offsetBase ! c * 2 ^ 7 \<and> offsetExtraBits ! (c + 14) = offsetExtraBits ! c + 7" by blast
qed

lemma offsetCode_run:
  assumes "xo < 32768"
  shows "\<exists>v < 30. offsetCode xo = Ok v \<and> code_of offsetBase offsetExtraBits dist_table minOffsetSize xo v"
proof (cases "xo < 256")
  case True
  with offset_stairs [OF True] show ?thesis
    by (intro exI [of _ "offsetCodes ! xo"]) (auto simp: offsetCode_def code_of_def dist_table_base)
next
  case False
  let ?q = "xo div 2 ^ 7" let ?c = "offsetCodes ! ?q"
  have q: "?q < 256" using assms by simp
  note s = offset_stairs [OF q]
  have "2 \<le> ?c"
  proof (rule ccontr)
    assume "\<not> 2 \<le> ?c"
    then have "?c = 0 \<or> ?c = 1" by auto
    with s False show False by (auto simp: offsetBase_def offsetExtraBits_def)
  qed
  with s offset_high [of ?c] have h: "offsetBase ! (?c + 14) = offsetBase ! ?c * 2 ^ 7"
    "offsetExtraBits ! (?c + 14) = offsetExtraBits ! ?c + 7" by simp_all
  have "offsetBase ! ?c * 2 ^ 7 \<le> xo" using s by (simp add: le_div_geq less_eq_div_iff_mult_less_eq)
  moreover have "xo < (offsetBase ! ?c + 2 ^ (offsetExtraBits ! ?c)) * 2 ^ 7"
    using s div_less_iff_less_mult [of "2 ^ 7" xo "offsetBase ! ?c + 2 ^ (offsetExtraBits ! ?c)"] by simp
  ultimately have "offsetBase ! (?c + 14) \<le> xo" "xo < offsetBase ! (?c + 14) + 2 ^ (offsetExtraBits ! (?c + 14))"
    unfolding h power_add by (simp_all add: algebra_simps)
  with False q s show ?thesis
    by (intro exI [of _ "?c + 14"]) (auto simp: offsetCode_def code_of_def dist_table_base)
qed

end
