(* ===== verification/BitWriter.thy ===== *)
theory BitWriter
  imports HuffGen Token InflateStream
begin

text \<open>
  The bit writer of \<^verbatim>\<open>flexflate/huffman_bit_writer.go\<close> over an \<open>io.Writer\<close>: bits are collected in a word, sixteen at
  a time moved to a buffer, and the buffer is written when it is full. A writer that fails keeps its first error
  and writes no more. What a call adds is described by the bits it emits.
\<close>

section \<open>Writers\<close>

text \<open>The results of the coming writes, as in \<open>conn\<close>; when the list is used up every write succeeds.\<close>

record sink =
  skout :: "u8 list"
  skres :: "(goerr \<times> nat) option list"

text \<open>\<open>dictWriter\<close> of \<^verbatim>\<open>deflate.go\<close> drops everything until it is enabled.\<close>

datatype io_writer = Direct sink | DictWriter sink bool

definition sink_write :: "u8 list \<Rightarrow> sink \<Rightarrow> goerr option \<times> sink" where
  "sink_write bs s =
     (case skres s of
        [] \<Rightarrow> (None, s\<lparr>skout := skout s @ bs\<rparr>)
      | None # rs \<Rightarrow> (None, s\<lparr>skout := skout s @ bs, skres := rs\<rparr>)
      | Some (e, n) # rs \<Rightarrow> (Some e, s\<lparr>skout := skout s @ take n bs, skres := rs\<rparr>))"

definition io_Write :: "u8 list \<Rightarrow> io_writer \<Rightarrow> goerr option \<times> io_writer" where
  "io_Write bs w =
     (case w of
        Direct s \<Rightarrow> (case sink_write bs s of (e, s') \<Rightarrow> (e, Direct s'))
      | DictWriter s enabled \<Rightarrow>
          if enabled then (case sink_write bs s of (e, s') \<Rightarrow> (e, DictWriter s' enabled))
          else (None, w))"

section \<open>The writer\<close>

definition endBlockMarker :: nat where
  "endBlockMarker = 256"

definition lengthCodesStart :: nat where
  "lengthCodesStart = 257"

definition offsetCodeCount :: nat where
  "offsetCodeCount = 30"

definition codegenCodeCount :: nat where
  "codegenCodeCount = 19"

definition badCode :: nat where
  "badCode = 255"

record huffmanBitWriter =
  bw_w :: io_writer
  bw_bits :: u32
  bw_nbits :: nat
  bw_bytes :: "u8 list"
  bw_nbytes :: nat
  literalFreq :: "int list"
  offsetFreq :: "int list"
  codegen :: "nat list"
  codegenFreq :: "int list"
  literalEncoding :: huffmanEncoder
  offsetEncoding :: huffmanEncoder
  codegenEncoding :: huffmanEncoder
  bw_err :: "goerr option"

definition newHuffmanBitWriter :: "io_writer \<Rightarrow> huffmanBitWriter" where
  "newHuffmanBitWriter w =
     \<lparr>bw_w = w, bw_bits = 0, bw_nbits = 0, bw_bytes = replicate 64 0, bw_nbytes = 0,
      literalFreq = replicate maxLit 0, offsetFreq = replicate offsetCodeCount 0,
      codegen = replicate (maxLit + offsetCodeCount + 1) 0, codegenFreq = replicate codegenCodeCount 0,
      literalEncoding = newHuffmanEncoder maxLit, offsetEncoding = newHuffmanEncoder offsetCodeCount,
      codegenEncoding = newHuffmanEncoder codegenCodeCount, bw_err = None\<rparr>"

definition blank_encoder :: "huffmanEncoder \<Rightarrow> huffmanEncoder" where
  "blank_encoder enc =
     \<lparr>codeBits = replicate (length (codeBits enc)) 0, codeVal = replicate (length (codeVal enc)) 0\<rparr>"

definition bw_reset :: "io_writer \<Rightarrow> huffmanBitWriter \<Rightarrow> huffmanBitWriter" where
  "bw_reset writer w =
     \<lparr>bw_w = writer, bw_bits = 0, bw_nbits = 0, bw_bytes = replicate 64 0, bw_nbytes = 0,
      literalFreq = replicate (length (literalFreq w)) 0, offsetFreq = replicate (length (offsetFreq w)) 0,
      codegen = replicate (length (codegen w)) 0, codegenFreq = replicate (length (codegenFreq w)) 0,
      literalEncoding = blank_encoder (literalEncoding w), offsetEncoding = blank_encoder (offsetEncoding w),
      codegenEncoding = blank_encoder (codegenEncoding w), bw_err = None\<rparr>"

text \<open>\<open>_, w.err = w.w.Write(bytes)\<close>\<close>

definition bw_Write :: "u8 list \<Rightarrow> (huffmanBitWriter, unit) prog" where
  "bw_Write bs w = (case io_Write bs (bw_w w) of (e, s) \<Rightarrow> (Ok (), w\<lparr>bw_w := s, bw_err := e\<rparr>))"

definition put_byte :: "nat \<Rightarrow> u8 \<Rightarrow> (huffmanBitWriter, unit) prog" where
  "put_byte n b = bindM getS (\<lambda>w. bindM (lift (put_go (bw_bytes w) n b)) (\<lambda>bs. modifyS (\<lambda>w. w\<lparr>bw_bytes := bs\<rparr>)))"

definition flushBits :: "(huffmanBitWriter, unit) prog" where
  "flushBits =
     bindM getS (\<lambda>w.
     if bw_err w \<noteq> None then modifyS (\<lambda>w. w\<lparr>bw_nbits := 0\<rparr>)
     else
       let n = bw_nbytes w in
       bindM (modifyS (\<lambda>w. w\<lparr>bw_bits := drop_bit 16 (bw_bits w), bw_nbits := bw_nbits w - 16\<rparr>)) (\<lambda>_.
       bindM (put_byte n (ucast (bw_bits w))) (\<lambda>_.
       bindM (put_byte (n + 1) (ucast (drop_bit 8 (bw_bits w)))) (\<lambda>_.
       if 64 \<le> n + 2
       then bindM getS (\<lambda>w. bindM (bw_Write (bw_bytes w)) (\<lambda>_. modifyS (\<lambda>w. w\<lparr>bw_nbytes := 0\<rparr>)))
       else modifyS (\<lambda>w. w\<lparr>bw_nbytes := n + 2\<rparr>)))))"

text \<open>The two steps of \<open>flush\<close> that move what is left of the word to the buffer; they give the new \<open>n\<close>.\<close>

definition flush_byte :: "nat \<Rightarrow> (huffmanBitWriter, nat) prog" where
  "flush_byte n =
     bindM getS (\<lambda>w.
     if 8 < bw_nbits w
     then bindM (put_byte n (ucast (bw_bits w))) (\<lambda>_.
       bindM (modifyS (\<lambda>w. w\<lparr>bw_bits := drop_bit 8 (bw_bits w), bw_nbits := bw_nbits w - 8\<rparr>)) (\<lambda>_. ret (n + 1)))
     else ret n)"

definition flush_rest :: "nat \<Rightarrow> (huffmanBitWriter, nat) prog" where
  "flush_rest n =
     bindM getS (\<lambda>w.
     if 0 < bw_nbits w
     then bindM (put_byte n (ucast (bw_bits w))) (\<lambda>_. bindM (modifyS (\<lambda>w. w\<lparr>bw_nbits := 0\<rparr>)) (\<lambda>_. ret (n + 1)))
     else ret n)"

definition bw_flush :: "(huffmanBitWriter, unit) prog" where
  "bw_flush =
     bindM getS (\<lambda>w.
     if bw_err w \<noteq> None then modifyS (\<lambda>w. w\<lparr>bw_nbits := 0\<rparr>)
     else
       bindM (flush_byte (bw_nbytes w)) (\<lambda>n.
       bindM (flush_rest n) (\<lambda>n.
       bindM (modifyS (\<lambda>w. w\<lparr>bw_bits := 0\<rparr>)) (\<lambda>_.
       bindM getS (\<lambda>w.
       bindM (bw_Write (take n (bw_bytes w))) (\<lambda>_. modifyS (\<lambda>w. w\<lparr>bw_nbytes := 0\<rparr>)))))))"

definition writeBits :: "u32 \<Rightarrow> nat \<Rightarrow> (huffmanBitWriter, unit) prog" where
  "writeBits b n =
     bindM (modifyS (\<lambda>w. w\<lparr>bw_bits := bw_bits w OR push_bit (bw_nbits w) b, bw_nbits := bw_nbits w + n\<rparr>)) (\<lambda>_.
     bindM getS (\<lambda>w. if 16 \<le> bw_nbits w then flushBits else ret ()))"

definition writeBytes :: "u8 list \<Rightarrow> (huffmanBitWriter, unit) prog" where
  "writeBytes bs =
     bindM getS (\<lambda>w.
     if bw_err w \<noteq> None then ret ()
     else
       bindM (if bw_nbits w = 8
         then bindM (put_byte (bw_nbytes w) (ucast (bw_bits w))) (\<lambda>_.
           bindM (modifyS (\<lambda>w. w\<lparr>bw_nbits := 0\<rparr>)) (\<lambda>_. ret (bw_nbytes w + 1)))
         else ret (bw_nbytes w)) (\<lambda>n.
       bindM getS (\<lambda>w.
       if bw_nbits w \<noteq> 0 then modifyS (\<lambda>w. w\<lparr>bw_err := Some (InternalError ''writeBytes with unfinished bits'')\<rparr>)
       else
         bindM (if n \<noteq> 0 then bw_Write (take n (bw_bytes w)) else ret ()) (\<lambda>_.
         bindM getS (\<lambda>w.
         if bw_err w \<noteq> None then ret ()
         else bindM (modifyS (\<lambda>w. w\<lparr>bw_nbytes := 0\<rparr>)) (\<lambda>_. bw_Write bs))))))"

definition writeCode :: "huffmanEncoder \<Rightarrow> nat \<Rightarrow> (huffmanBitWriter, unit) prog" where
  "writeCode enc lit =
     bindM getS (\<lambda>w.
     if bw_err w \<noteq> None then ret ()
     else
       bindM (lift (index_go (codeVal enc) lit)) (\<lambda>v.
       bindM (lift (index_go (codeBits enc) lit)) (\<lambda>n. writeBits (of_nat v) n)))"

definition writeStoredHeader :: "nat \<Rightarrow> bool \<Rightarrow> (huffmanBitWriter, unit) prog" where
  "writeStoredHeader len isEof =
     bindM getS (\<lambda>w.
     if bw_err w \<noteq> None then ret ()
     else
       bindM (writeBits (if isEof then 1 else 0) 3) (\<lambda>_.
       bindM bw_flush (\<lambda>_.
       bindM (writeBits (of_nat len) 16) (\<lambda>_.
       writeBits (ucast (NOT (of_nat len :: u16))) 16))))"

definition writeFixedHeader :: "bool \<Rightarrow> (huffmanBitWriter, unit) prog" where
  "writeFixedHeader isEof =
     bindM getS (\<lambda>w.
     if bw_err w \<noteq> None then ret () else writeBits (if isEof then 3 else 2) 3)"

section \<open>What has been written\<close>

fun io_sink :: "io_writer \<Rightarrow> sink" where
  "io_sink (Direct s) = s"
| "io_sink (DictWriter s enabled) = s"

text \<open>A writer between two calls, over a sink that takes every write.\<close>

definition bw_good :: "huffmanBitWriter \<Rightarrow> bool" where
  "bw_good w \<longleftrightarrow> bw_err w = None \<and> bw_nbits w < 16 \<and> unat (bw_bits w) < 2 ^ bw_nbits w \<and> length (bw_bytes w) = 64 \<and>
     even (bw_nbytes w) \<and> bw_nbytes w < 64 \<and> (\<exists>s. bw_w w = Direct s \<and> skres s = [])"

definition word_bits :: "u32 \<Rightarrow> nat \<Rightarrow> bool list" where
  "word_bits v n = map (bit v) [0..<n]"

definition bw_out :: "huffmanBitWriter \<Rightarrow> bool list" where
  "bw_out w = bytes_bits (skout (io_sink (bw_w w)) @ take (bw_nbytes w) (bw_bytes w)) @ word_bits (bw_bits w) (bw_nbits w)"

definition bw_same :: "huffmanBitWriter \<Rightarrow> huffmanBitWriter \<Rightarrow> bool" where
  "bw_same w w' \<longleftrightarrow> literalFreq w' = literalFreq w \<and> offsetFreq w' = offsetFreq w \<and> codegen w' = codegen w \<and>
     codegenFreq w' = codegenFreq w \<and> literalEncoding w' = literalEncoding w \<and> offsetEncoding w' = offsetEncoding w \<and>
     codegenEncoding w' = codegenEncoding w"

definition emits :: "(huffmanBitWriter, unit) prog \<Rightarrow> huffmanBitWriter \<Rightarrow> bool list \<Rightarrow> bool" where
  "emits m w xs \<longleftrightarrow> (\<exists>w'. m w = (Ok (), w') \<and> bw_good w' \<and> bw_out w' = bw_out w @ xs \<and> bw_same w w')"

lemma bw_same_refl [simp]: "bw_same w w"
  by (simp add: bw_same_def)

lemma bw_same_trans: "bw_same u v \<Longrightarrow> bw_same v w \<Longrightarrow> bw_same u w"
  by (simp add: bw_same_def)

lemma emits_bind:
  assumes "emits m w xs" and "\<And>w'. bw_good w' \<Longrightarrow> bw_same w w' \<Longrightarrow> bw_out w' = bw_out w @ xs \<Longrightarrow> emits k w' ys"
  shows "emits (bindM m (\<lambda>_. k)) w (xs @ ys)"
proof -
  from assms(1) obtain w1 where w1: "m w = (Ok (), w1)" "bw_good w1" "bw_out w1 = bw_out w @ xs" "bw_same w w1"
    by (auto simp: emits_def)
  from assms(2) [OF w1(2,4,3)] obtain w2 where
    w2: "k w1 = (Ok (), w2)" "bw_good w2" "bw_out w2 = bw_out w1 @ ys" "bw_same w1 w2" by (auto simp: emits_def)
  show ?thesis unfolding emits_def
    using w1 w2 by (intro exI [of _ w2]) (auto simp: bindM_Ok intro: bw_same_trans)
qed

lemma emits_ret: "bw_good w \<Longrightarrow> emits (ret ()) w []"
  by (simp add: emits_def)

lemma emits_getS: "emits (k w) w xs \<Longrightarrow> emits (bindM getS k) w xs"
  by (simp add: emits_def bindM_def)

lemma emits_append: "emits m w xs \<Longrightarrow> xs = ys \<Longrightarrow> emits m w ys"
  by simp

section \<open>Bits of words and bytes\<close>

lemma word_bits_split: "m \<le> n \<Longrightarrow> word_bits v n = word_bits v m @ word_bits (drop_bit m v) (n - m)"
  by (rule nth_equalityI) (auto simp: word_bits_def nth_append bit_drop_bit_eq)

lemma word_bits_byte: "word_bits v 8 = byte_bits (ucast v)"
  by (auto simp: word_bits_def byte_bits_def bit_simps)

lemma word_bits_or:
  assumes "unat v < 2 ^ m" and "m + n \<le> 32"
  shows "word_bits (v OR push_bit m b) (m + n) = word_bits v m @ num_bits n (unat b)"
proof (rule nth_equalityI)
  fix i assume "i < length (word_bits (v OR push_bit m b) (m + n))"
  then have i: "i < m + n" by (simp add: word_bits_def)
  have "\<not> bit v i" if "m \<le> i"
  proof
    assume "bit v i"
    then have "bit (unat v) i" by (simp add: bit_unsigned_iff)
    from nat_bit_less [OF assms(1) this] that show False by linarith
  qed
  then show "word_bits (v OR push_bit m b) (m + n) ! i = (word_bits v m @ num_bits n (unat b)) ! i"
    using i assms(2) by (auto simp: word_bits_def num_bits_def nth_append bit_simps)
qed (simp add: word_bits_def)

lemma word_bits_0 [simp]: "word_bits v 0 = []"
  by (simp add: word_bits_def)

lemma no_high_bits:
  fixes x :: u32
  assumes "\<And>i. k \<le> i \<Longrightarrow> i < 32 \<Longrightarrow> \<not> bit x i"
  shows "unat x < 2 ^ k"
proof -
  have "take_bit k x = x" using assms by (intro bit_word_eqI) (auto simp: bit_take_bit_iff not_less [symmetric])
  then have "unat x = take_bit k (unat x)" by (metis unsigned_take_bit_eq)
  then show ?thesis by (metis take_bit_nat_less_exp)
qed

lemma or_less:
  fixes v b :: u32
  assumes "unat v < 2 ^ m" and "unat b < 2 ^ n" and "m + n < 32"
  shows "unat (v OR push_bit m b) < 2 ^ (m + n)"
proof (rule no_high_bits)
  fix i assume i: "m + n \<le> i" "i < 32"
  show "\<not> bit (v OR push_bit m b) i"
  proof
    assume "bit (v OR push_bit m b) i"
    then consider "bit (unat v) i" | "bit (unat b) (i - m)" using i by (auto simp: bit_simps)
    then show False
      using nat_bit_less [OF assms(1), of i] nat_bit_less [OF assms(2), of "i - m"] i by cases auto
  qed
qed

lemma drop_less: "unat v < 2 ^ n \<Longrightarrow> m \<le> n \<Longrightarrow> unat (drop_bit m v :: u32) < 2 ^ (n - m)"
  by (simp add: unat_drop_bit_eq drop_bit_eq_div [where 'a = nat] div_less_iff_less_mult flip: power_add)

section \<open>What the calls emit\<close>

lemma take_put2: "n + 2 \<le> length bs \<Longrightarrow> take (n + 2) (bs[n := a, n + 1 := b]) = take n bs @ [a, b]"
  by (rule nth_equalityI) (auto simp: nth_append nth_list_update less_Suc_eq)

lemma take_put1: "n < length bs \<Longrightarrow> take (n + 1) (bs[n := a]) = take n bs @ [a]"
  by (rule nth_equalityI) (auto simp: nth_append nth_list_update less_Suc_eq)

lemma bytes_bits_snoc: "bytes_bits (xs @ [a]) = bytes_bits xs @ byte_bits a" "bytes_bits (xs @ [a, b]) = bytes_bits xs @ byte_bits a @ byte_bits b"
  by (simp_all add: bytes_bits_def)

lemma io_Write_direct: "skres s = [] \<Longrightarrow> io_Write bs (Direct s) = (None, Direct (s\<lparr>skout := skout s @ bs\<rparr>))"
  by (simp add: io_Write_def sink_write_def)

lemma flushBits_run:
  assumes "bw_err w = None" and "length (bw_bytes w) = 64" and "even (bw_nbytes w)" and "bw_nbytes w < 64"
    and "bw_w w = Direct s" and "skres s = []" and "16 \<le> bw_nbits w" and "bw_nbits w < 32" and "unat (bw_bits w) < 2 ^ bw_nbits w"
  shows "emits flushBits w []"
proof -
  let ?n = "bw_nbytes w" and ?v = "bw_bits w"
  let ?bs = "(bw_bytes w)[?n := ucast ?v, ?n + 1 := ucast (drop_bit 8 ?v)]"
  have n: "?n + 2 \<le> 64" using assms(3,4) by presburger
  have n1: "?n < 64" "?n + 1 < 64" using n by simp_all
  let ?w1 = "w\<lparr>bw_bits := drop_bit 16 ?v, bw_nbits := bw_nbits w - 16, bw_bytes := ?bs\<rparr>"
  let ?w2 = "if 64 \<le> ?n + 2 then ?w1\<lparr>bw_w := Direct (s\<lparr>skout := skout s @ ?bs\<rparr>), bw_nbytes := 0\<rparr> else ?w1\<lparr>bw_nbytes := ?n + 2\<rparr>"
  have run: "flushBits w = (Ok (), ?w2)"
    using assms n1 by (simp add: flushBits_def put_byte_def bindM_def Let_def bw_Write_def io_Write_direct)
  have "skout (io_sink (bw_w ?w2)) @ take (bw_nbytes ?w2) (bw_bytes ?w2) = skout s @ take (?n + 2) ?bs"
    using n assms(2,5) by auto
  also have "\<dots> = (skout s @ take ?n (bw_bytes w)) @ [ucast ?v, ucast (drop_bit 8 ?v)]"
    using take_put2 [of ?n "bw_bytes w"] n assms(2) by simp
  finally have bytes: "skout (io_sink (bw_w ?w2)) @ take (bw_nbytes ?w2) (bw_bytes ?w2) =
      (skout s @ take ?n (bw_bytes w)) @ [ucast ?v, ucast (drop_bit 8 ?v)]" .
  have w16: "word_bits ?v (bw_nbits w) = byte_bits (ucast ?v) @ byte_bits (ucast (drop_bit 8 ?v)) @ word_bits (drop_bit 16 ?v) (bw_nbits w - 16)"
    using word_bits_split [of 8 "bw_nbits w" ?v] word_bits_split [of 8 "bw_nbits w - 8" "drop_bit 8 ?v"] assms(7)
    by (simp add: word_bits_byte)
  have out: "bw_out ?w2 = bw_out w"
    unfolding bw_out_def bytes bytes_bits_snoc w16 using assms(5) by simp
  have "unat (drop_bit 16 ?v) < 2 ^ (bw_nbits w - 16)" by (rule drop_less) (use assms in simp_all)
  then have "bw_good ?w2" using assms n by (auto simp: bw_good_def)
  moreover have "bw_same w ?w2" by (simp add: bw_same_def)
  ultimately show ?thesis unfolding emits_def run using out by (intro exI [of _ ?w2]) (simp only: append_Nil2)
qed

lemma emits_writeBits:
  assumes "bw_good w" and "unat b < 2 ^ n" and "n \<le> 16"
  shows "emits (writeBits b n) w (num_bits n (unat b))"
proof -
  let ?w = "w\<lparr>bw_bits := bw_bits w OR push_bit (bw_nbits w) b, bw_nbits := bw_nbits w + n\<rparr>"
  have g: "bw_nbits w < 16" "unat (bw_bits w) < 2 ^ bw_nbits w" using assms(1) by (simp_all add: bw_good_def)
  then have v: "unat (bw_bits ?w) < 2 ^ bw_nbits ?w" using or_less [OF g(2) assms(2)] assms(3) by simp
  have out: "bw_out ?w = bw_out w @ num_bits n (unat b)"
    using word_bits_or [OF g(2), of n b] g(1) assms(3) by (simp add: bw_out_def)
  have same: "bw_same w ?w" by (simp add: bw_same_def)
  show ?thesis
  proof (cases "16 \<le> bw_nbits w + n")
    case True
    obtain s where s: "bw_w w = Direct s" "skres s = []" using assms(1) by (auto simp: bw_good_def)
    have "emits flushBits ?w []"
      by (rule flushBits_run [where s = s]) (use assms(1,3) g v s True in \<open>auto simp: bw_good_def\<close>)
    then obtain w' where w': "flushBits ?w = (Ok (), w')" "bw_good w'" "bw_out w' = bw_out ?w" "bw_same ?w w'"
      unfolding emits_def by auto
    with True out bw_same_trans [OF same w'(4)] show ?thesis
      unfolding emits_def by (intro exI [of _ w']) (simp add: writeBits_def bindM_def)
  next
    case False
    with assms(1) v have "bw_good ?w" by (simp add: bw_good_def)
    with False out same show ?thesis
      unfolding emits_def by (intro exI [of _ ?w]) (simp add: writeBits_def bindM_def)
  qed
qed

lemma flushBits_nbits: "flushBits w = (Ok (), w') \<Longrightarrow> bw_err w = None \<Longrightarrow> bw_nbits w' = bw_nbits w - 16"
  by (auto simp: flushBits_def put_byte_def bw_Write_def bindM_def Let_def lift_def split: if_splits outcome.splits prod.splits)

lemma writeBits_nbits:
  "writeBits b n w = (Ok (), w') \<Longrightarrow> bw_err w = None \<Longrightarrow>
    bw_nbits w' = (if 16 \<le> bw_nbits w + n then bw_nbits w + n - 16 else bw_nbits w + n)"
  by (auto simp: writeBits_def bindM_def dest!: flushBits_nbits split: if_splits)

text \<open>\<open>flush\<close> fills up the last byte and writes the buffer.\<close>

definition bw_aligned :: "huffmanBitWriter \<Rightarrow> bool" where
  "bw_aligned w \<longleftrightarrow> bw_nbits w = 0 \<and> bw_nbytes w = 0"

lemma word_bits_pad:
  assumes "unat v < 2 ^ n" and "n \<le> 8"
  shows "byte_bits (ucast (v :: u32)) = word_bits v n @ replicate (8 - n) False"
proof (rule nth_equalityI)
  fix i assume "i < length (byte_bits (ucast v))"
  then have i: "i < 8" by simp
  have "\<not> bit v i" if "n \<le> i"
  proof
    assume "bit v i"
    then have "bit (unat v) i" by (simp add: bit_unsigned_iff)
    from nat_bit_less [OF assms(1) this] that show False by linarith
  qed
  then show "byte_bits (ucast v) ! i = (word_bits v n @ replicate (8 - n) False) ! i"
    using i assms(2) by (auto simp: byte_bits_def word_bits_def nth_append bit_simps)
qed (use assms in \<open>simp add: word_bits_def\<close>)

lemma flush_word:
  assumes "unat v < 2 ^ n" and "n < 16"
  shows "bytes_bits ((if 8 < n then [ucast v] else []) @ (if 8 < n then [ucast (drop_bit 8 v)] else if 0 < n then [ucast v] else []))
    = word_bits (v :: u32) n @ pad n"
proof (cases "8 < n")
  case True
  have "unat (drop_bit 8 v) < 2 ^ (n - 8)" by (rule drop_less) (use assms True in simp_all)
  then have "byte_bits (ucast (drop_bit 8 v)) = word_bits (drop_bit 8 v) (n - 8) @ replicate (8 - (n - 8)) False"
    using assms(2) by (intro word_bits_pad) simp_all
  moreover have "n \<in> {9, 10, 11, 12, 13, 14, 15}" using True assms(2) by auto
  then have "(8 - n mod 8) mod 8 = 8 - (n - 8)" by auto
  ultimately have 2: "byte_bits (ucast (drop_bit 8 v)) = word_bits (drop_bit 8 v) (n - 8) @ pad n" by (simp only: pad_def)
  have "word_bits v n = byte_bits (ucast v) @ word_bits (drop_bit 8 v) (n - 8)"
    using word_bits_split [of 8 n v] True by (simp only: word_bits_byte less_imp_le)
  then have 1: "word_bits v n @ pad n = byte_bits (ucast v) @ byte_bits (ucast (drop_bit 8 v))" unfolding 2 by simp
  have "bytes_bits [ucast v, ucast (drop_bit 8 v)] = byte_bits (ucast v) @ byte_bits (ucast (drop_bit 8 v))"
    unfolding bytes_bits_def by simp
  then show ?thesis using True 1 by simp
next
  case False
  then have "n = 0 \<or> (0 < n \<and> n < 8) \<or> n = 8" by auto
  then show ?thesis using word_bits_pad [OF assms(1)] False by (auto simp: bytes_bits_def pad_def)
qed

lemma pad_mod: "m mod 8 = n mod 8 \<Longrightarrow> pad m = pad n"
  by (simp add: pad_def)

lemma length_bw_out: "bw_good w \<Longrightarrow> length (bw_out w) mod 8 = bw_nbits w mod 8"
  by (simp add: bw_out_def word_bits_def mod_add_eq [symmetric])

lemma bw_flush_run:
  assumes "bw_good w"
  obtains w' where "bw_flush w = (Ok (), w')" and "bw_good w'" and "bw_out w' = bw_out w @ pad (length (bw_out w))"
    and "bw_same w w'" and "bw_aligned w'"
proof -
  let ?n = "bw_nbytes w" and ?v = "bw_bits w" and ?k = "bw_nbits w"
  have g: "bw_err w = None" "?k < 16" "unat ?v < 2 ^ ?k" "length (bw_bytes w) = 64" "even ?n" "?n < 64"
    using assms by (simp_all add: bw_good_def)
  obtain s where s: "bw_w w = Direct s" "skres s = []" using assms by (auto simp: bw_good_def)
  have n: "?n < 64" "?n + 1 < 64" using g(5,6) by presburger+
  let ?xs = "(if 8 < ?k then [ucast ?v] else []) @ (if 8 < ?k then [ucast (drop_bit 8 ?v)] else if 0 < ?k then [ucast ?v] else [])"
  let ?bs = "if 8 < ?k then (bw_bytes w)[?n := ucast ?v, ?n + 1 := ucast (drop_bit 8 ?v)]
    else if 0 < ?k then (bw_bytes w)[?n := ucast ?v] else bw_bytes w"
  let ?w' = "w\<lparr>bw_bits := 0, bw_nbits := 0, bw_bytes := ?bs, bw_nbytes := 0,
    bw_w := Direct (s\<lparr>skout := skout s @ take ?n (bw_bytes w) @ ?xs\<rparr>)\<rparr>"
  consider "8 < ?k" | "?k = 0" | "0 < ?k" "?k \<le> 8" by linarith
  then have run: "bw_flush w = (Ok (), ?w')"
  proof cases
    case 1
    have "take (?n + 2) ((bw_bytes w)[?n := ucast ?v, ?n + 1 := ucast (drop_bit 8 ?v)]) =
        take ?n (bw_bytes w) @ [ucast ?v, ucast (drop_bit 8 ?v)]" by (rule take_put2) (use n g(4) in simp)
    with 1 show ?thesis
      using g s n by (simp add: bw_flush_def flush_byte_def flush_rest_def put_byte_def bw_Write_def bindM_def io_Write_direct
        numeral_2_eq_2)
  next
    case 2
    then show ?thesis
      using g s n by (simp add: bw_flush_def flush_byte_def flush_rest_def put_byte_def bw_Write_def bindM_def io_Write_direct)
  next
    case 3
    have "take (?n + 1) ((bw_bytes w)[?n := ucast ?v]) = take ?n (bw_bytes w) @ [ucast ?v]"
      by (rule take_put1) (use n g(4) in simp)
    with 3 show ?thesis
      using g s n by (simp add: bw_flush_def flush_byte_def flush_rest_def put_byte_def bw_Write_def bindM_def io_Write_direct)
  qed
  have "bw_out ?w' = bytes_bits (skout s @ take ?n (bw_bytes w)) @ bytes_bits ?xs"
    unfolding bw_out_def by (simp add: bytes_bits_append)
  also have "\<dots> = bw_out w @ pad ?k" unfolding flush_word [OF g(3,2)] using s by (simp add: bw_out_def)
  also have "pad ?k = pad (length (bw_out w))" using length_bw_out [OF assms] by (intro pad_mod) simp
  finally have out: "bw_out ?w' = bw_out w @ pad (length (bw_out w))" .
  have "bw_good ?w'" using g s n by (simp add: bw_good_def)
  then show thesis by (rule that [OF run _ out]) (simp_all add: bw_same_def bw_aligned_def)
qed

lemma aligned_out: "bw_good w \<Longrightarrow> bw_aligned w \<Longrightarrow> bw_out w = bytes_bits (skout (io_sink (bw_w w)))"
  by (simp add: bw_out_def bw_aligned_def)

lemma writeBytes_run:
  assumes "bw_good w" and "bw_nbits w = 0"
  obtains w' where "writeBytes bs w = (Ok (), w')" and "bw_good w'" and "bw_out w' = bw_out w @ bytes_bits bs"
    and "bw_same w w'" and "bw_aligned w'"
proof -
  let ?n = "bw_nbytes w"
  have g: "bw_err w = None" "unat (bw_bits w) < 2 ^ 0" "length (bw_bytes w) = 64"
    using assms by (simp_all add: bw_good_def)
  obtain s where s: "bw_w w = Direct s" "skres s = []" using assms by (auto simp: bw_good_def)
  let ?w' = "w\<lparr>bw_nbytes := 0, bw_w := Direct (s\<lparr>skout := skout s @ take ?n (bw_bytes w) @ bs\<rparr>)\<rparr>"
  have run: "writeBytes bs w = (Ok (), ?w')"
    using g s assms(2) by (cases "?n = 0") (simp_all add: writeBytes_def bw_Write_def bindM_def io_Write_direct)
  have "bw_good ?w'" using assms(1) s by (simp add: bw_good_def)
  moreover have "bw_out ?w' = bw_out w @ bytes_bits bs" using s assms(2) by (simp add: bw_out_def bytes_bits_append)
  ultimately show thesis using run assms(2) by (intro that [of ?w']) (simp_all add: bw_same_def bw_aligned_def)
qed

lemma num_bits_bytes: "n < 65536 \<Longrightarrow> num_bits 16 n = bytes_bits (le16_bytes n)"
proof -
  assume n: "n < 65536"
  have b: "bit (n mod 256) i \<longleftrightarrow> bit n i" if "i < 8" for i
    using that bit_take_bit_iff [of 8 n i] by (simp add: take_bit_eq_mod)
  have c: "bit (n div 256) i \<longleftrightarrow> bit n (i + 8)" for i
    using bit_drop_bit_eq [of 8 n] by (simp add: drop_bit_eq_div fun_eq_iff add.commute)
  have "num_bits 16 n = num_bits 8 (n mod 256) @ num_bits 8 (n div 256)"
    by (rule nth_equalityI) (auto simp: num_bits_def nth_append b c)
  moreover have "num_bits 8 m = byte_bits (of_nat m)" if "m < 256" for m
    using that by (auto simp: num_bits_def byte_bits_def bit_simps bit_of_nat_iff_bit)
  ultimately show ?thesis using n by (simp add: le16_bytes_def bytes_bits_def)
qed

lemma stored_run:
  assumes "bw_good w" and "len < 65536"
  obtains w' where "writeStoredHeader len eof w = (Ok (), w')" and "bw_good w'" and "bw_nbits w' = 0" and "bw_same w w'"
    and "bw_out w' = bw_out w @ [eof] @ num_bits 2 0 @ pad (length (bw_out w) + 3) @
      bytes_bits (le16_bytes len @ le16_bytes (65535 - len))"
proof -
  have err: "bw_err w = None" using assms(1) by (simp add: bw_good_def)
  let ?f = "if eof then 1 else 0 :: u32"
  have f: "unat ?f < 2 ^ 3" "num_bits 3 (unat ?f) = [eof] @ num_bits 2 0"
    by (auto simp: num_bits_def upt_rec bit_0 bit_iff_odd)
  obtain w1 where w1: "writeBits ?f 3 w = (Ok (), w1)" "bw_good w1" "bw_out w1 = bw_out w @ [eof] @ num_bits 2 0" "bw_same w w1"
    using emits_writeBits [OF assms(1) f(1)] unfolding emits_def f(2) by auto
  obtain w2 where w2: "bw_flush w1 = (Ok (), w2)" "bw_good w2" "bw_out w2 = bw_out w1 @ pad (length (bw_out w1))"
      "bw_same w1 w2" "bw_aligned w2" by (rule bw_flush_run [OF w1(2)])
  have l: "unat (of_nat len :: u32) = len" using assms(2) by (simp add: unat_of_nat take_bit_nat_eq_self)
  have "NOT (of_nat len :: u16) = of_nat (65535 - len)" using assms(2) by (simp add: not_eq_complement of_nat_diff)
  then have "unat (NOT (of_nat len :: u16)) = 65535 - len"
    using assms(2) by (simp only: unat_of_nat) (simp add: take_bit_nat_eq_self)
  moreover have "65535 - len < 2 ^ 32" by simp
  ultimately have nl: "unat (ucast (NOT (of_nat len :: u16)) :: u32) = 65535 - len"
    by (simp add: unsigned_ucast_eq take_bit_nat_eq_self)
  obtain w3 where w3: "writeBits (of_nat len) 16 w2 = (Ok (), w3)" "bw_good w3" "bw_out w3 = bw_out w2 @ bytes_bits (le16_bytes len)"
      "bw_same w2 w3"
    using emits_writeBits [OF w2(2), of "of_nat len" 16] assms(2) unfolding emits_def l num_bits_bytes [OF assms(2)] by auto
  have nl2: "65535 - len < 65536" using assms(2) by simp
  obtain w4 where w4: "writeBits (ucast (NOT (of_nat len :: u16))) 16 w3 = (Ok (), w4)" "bw_good w4"
      "bw_out w4 = bw_out w3 @ bytes_bits (le16_bytes (65535 - len))" "bw_same w3 w4"
    using emits_writeBits [OF w3(2), of "ucast (NOT (of_nat len :: u16))" 16] nl2 unfolding emits_def nl num_bits_bytes [OF nl2] by auto
  have out: "bw_out w4 = bw_out w @ [eof] @ num_bits 2 0 @ pad (length (bw_out w) + 3) @
      bytes_bits (le16_bytes len @ le16_bytes (65535 - len))"
    using w1(3) w2(3) w3(3) w4(3) by (simp add: bytes_bits_append)
  have "bw_nbits w3 = 0" using writeBits_nbits [OF w3(1)] w2(2,5) by (simp add: bw_good_def bw_aligned_def)
  then have "bw_nbits w4 = 0" using writeBits_nbits [OF w4(1)] w3(2) by (simp add: bw_good_def)
  moreover have "writeStoredHeader len eof w = (Ok (), w4)"
    using err w1(1) w2(1) w3(1) w4(1) by (simp add: writeStoredHeader_def bindM_def)
  moreover have "bw_same w w4" using w1(4) w2(4) w3(4) w4(4) by (blast intro: bw_same_trans)
  ultimately show thesis using w4(2) out by (intro that)
qed

text \<open>A code is written as the inflator reads it.\<close>

lemma emits_writeCode:
  assumes "bw_good w" and "writes_codes lens n enc" and "i < n" and "is_sym lens i"
  shows "emits (writeCode enc i) w (code_bits lens i)"
proof -
  have err: "bw_err w = None" using assms(1) by (simp add: bw_good_def)
  let ?v = "revbits (lens ! i) (sym_code lens i)"
  have l: "lens ! i \<le> 15" using assms(4) by (simp add: is_sym_def)
  have v: "?v < 2 ^ (lens ! i)" by (rule revbits_less)
  also have "(2 :: nat) ^ (lens ! i) \<le> 2 ^ 15" using l by (intro power_increasing) simp_all
  finally have u: "unat (of_nat ?v :: u32) = ?v" by (simp add: unat_of_nat take_bit_nat_eq_self)
  have "num_bits (lens ! i) ?v = code_bits lens i"
    by (rule nth_equalityI) (auto simp: num_bits_def code_bits_def bit_revbits rev_nth)
  then have "emits (writeBits (of_nat ?v) (lens ! i)) w (code_bits lens i)"
    using emits_writeBits [OF assms(1), of "of_nat ?v" "lens ! i"] v l u by simp
  then show ?thesis
    using assms(2-4) err unfolding writeCode_def by (intro emits_getS) (simp add: writes_codes_def)
qed

lemma emits_writeFixedHeader:
  assumes "bw_good w"
  shows "emits (writeFixedHeader eof) w ([eof] @ num_bits 2 1)"
proof -
  have err: "bw_err w = None" using assms by (simp add: bw_good_def)
  let ?f = "if eof then 3 else 2 :: u32"
  have f: "unat ?f < 2 ^ 3" "num_bits 3 (unat ?f) = [eof] @ num_bits 2 1"
    by (auto simp: num_bits_def upt_rec bit_0 bit_iff_odd)
  show ?thesis
    using emits_writeBits [OF assms f(1)] err unfolding writeFixedHeader_def f(2) by (intro emits_getS) simp
qed

end
